(* ===== verification/Prelude.thy ===== *)
theory Prelude
  imports Main "HOL-Library.AList"
begin

section \<open>Shared vocabulary: maps in insertion order, searches, list facts\<close>

text \<open>
  What the components share.  A JavaScript \<open>Map\<close> (and a plain object used as a dictionary)
  keeps its entries in insertion order, a second \<open>set\<close> of a key replaces the value in place
  and \<open>delete\<close> forgets the position: it is an association list with distinct keys, updated by
  \<open>AList.update\<close> and \<open>AList.delete\<close>.  The locale \<open>insertion_map\<close> states what clients rely on;
  its lemmas about loops of \<open>set\<close> calls serve the candle series, the drawing outbox and the
  alert queues.  \<open>bsearch\<close> is the lower-bound loop that six functions of the sources repeat.
\<close>

named_theorems map_laws \<open>what a lookup returns after a sequence of map operations\<close>
named_theorems inv_intros \<open>operations preserve their component's invariant\<close>

type_synonym ('k, 'v) js_map = "('k \<times> 'v) list"

abbreviation map_get :: "('k, 'v) js_map \<Rightarrow> 'k \<Rightarrow> 'v option" where
  "map_get m k \<equiv> map_of m k"

abbreviation map_has :: "('k, 'v) js_map \<Rightarrow> 'k \<Rightarrow> bool" where
  "map_has m k \<equiv> map_of m k \<noteq> None"

abbreviation map_set :: "'k \<Rightarrow> 'v \<Rightarrow> ('k, 'v) js_map \<Rightarrow> ('k, 'v) js_map" where
  "map_set \<equiv> AList.update"

abbreviation map_delete :: "'k \<Rightarrow> ('k, 'v) js_map \<Rightarrow> ('k, 'v) js_map" where
  "map_delete \<equiv> AList.delete"

abbreviation map_wf :: "('k, 'v) js_map \<Rightarrow> bool" where
  "map_wf m \<equiv> distinct (map fst m)"

text \<open>A loop of \<open>set\<close> calls, in list order.\<close>

definition map_set_all :: "('k \<times> 'v) list \<Rightarrow> ('k, 'v) js_map \<Rightarrow> ('k, 'v) js_map" where
  "map_set_all es m = fold (\<lambda>(k, v). map_set k v) es m"

subsection \<open>The interface of an insertion-ordered map\<close>

locale insertion_map =
  fixes lookup :: "'m \<Rightarrow> 'k \<Rightarrow> 'v option"
    and put :: "'k \<Rightarrow> 'v \<Rightarrow> 'm \<Rightarrow> 'm"
    and del :: "'k \<Rightarrow> 'm \<Rightarrow> 'm"
    and entries :: "'m \<Rightarrow> ('k \<times> 'v) list"
    and inv :: "'m \<Rightarrow> bool"
  assumes lookup_put: "lookup (put k v m) = (lookup m)(k \<mapsto> v)"
    and lookup_del: "lookup (del k m) = (lookup m)(k := None)"
    and inv_put: "inv m \<Longrightarrow> inv (put k v m)"
    and inv_del: "inv m \<Longrightarrow> inv (del k m)"
    and lookup_entries: "lookup m = map_of (entries m)"
    and distinct_entries: "inv m \<Longrightarrow> distinct (map fst (entries m))"
    and put_fresh: "lookup m k = None \<Longrightarrow> entries (put k v m) = entries m @ [(k, v)]"
begin

lemma lookup_fold_put:
  "lookup (fold (\<lambda>(k, v). put k v) es m) = lookup m ++ map_of (rev es)"
proof (induction es arbitrary: m)
  case (Cons e es)
  obtain k v where "e = (k, v)" by (cases e)
  with Cons show ?case by (simp add: lookup_put map_add_def fun_eq_iff split: option.splits)
qed simp

lemma inv_fold_put: "inv m \<Longrightarrow> inv (fold (\<lambda>(k, v). put k v) es m)"
  by (induction es arbitrary: m) (auto simp: inv_put)

lemma entries_lookup: "inv m \<Longrightarrow> (k, v) \<in> set (entries m) \<longleftrightarrow> lookup m k = Some v"
  by (simp add: lookup_entries distinct_entries)

lemma entries_ran: "inv m \<Longrightarrow> snd ` set (entries m) = ran (lookup m)"
  by (force simp: ran_def entries_lookup [symmetric] image_iff)

end

lemma alist_update_fresh: "map_of m k = None \<Longrightarrow> AList.update k v m = m @ [(k, v)]"
  by (induction m) (auto split: if_splits)

interpretation jm: insertion_map map_of AList.update AList.delete "\<lambda>m. m" "\<lambda>m. distinct (map fst m)"
  by unfold_locales (auto simp: update_conv' delete_conv' distinct_update distinct_delete alist_update_fresh)

lemma map_get_set_all [map_laws]: "map_of (map_set_all es m) = map_of m ++ map_of (rev es)"
  by (simp add: map_set_all_def jm.lookup_fold_put)

lemma map_wf_set_all [inv_intros]: "map_wf m \<Longrightarrow> map_wf (map_set_all es m)"
  by (simp add: map_set_all_def jm.inv_fold_put)

lemma map_of_rev_distinct: "distinct (map fst m) \<Longrightarrow> map_of (rev m) = map_of m"
  by (rule map_of_eqI) (auto simp: rev_map [symmetric])

lemma map_of_append_Some: "map_of (xs @ ys) k = (case map_of xs k of Some v \<Rightarrow> Some v | None \<Rightarrow> map_of ys k)"
  by (simp add: map_of_append map_add_def)

subsection \<open>The lower-bound loop\<close>

text \<open>
  \<open>let low = 0, high = n; while (low < high) { mid = floor((low + high) / 2);
  if (P(mid)) low = mid + 1; else high = mid; } return low;\<close>
\<close>

function bsearch :: "(nat \<Rightarrow> bool) \<Rightarrow> nat \<Rightarrow> nat \<Rightarrow> nat" where
  "bsearch P low high =
     (if low < high then
        let mid = (low + high) div 2
        in if P mid then bsearch P (mid + 1) high else bsearch P low mid
      else low)"
  by pat_completeness auto
termination
  by (relation "measure (\<lambda>(P, low, high). high - low)") auto

declare bsearch.simps [simp del]

lemma bsearch_boundary:
  assumes "b \<le> high" "low \<le> b" "\<And>i. i < high \<Longrightarrow> P i \<longleftrightarrow> i < b"
  shows "bsearch P low high = b"
  using assms
proof (induction P low high rule: bsearch.induct)
  case (1 P low high)
  show ?case
  proof (cases "low < high")
    case True
    let ?mid = "(low + high) div 2"
    show ?thesis
    proof (cases "P ?mid")
      case P: True
      then have "?mid < b" using "1.prems" True by auto
      then have "bsearch P (?mid + 1) high = b"
        using "1.IH"(1) [OF True refl P] "1.prems" by simp
      with True P show ?thesis by (simp add: bsearch.simps [of P low high] Let_def)
    next
      case P: False
      then have "b \<le> ?mid" using "1.prems" True by (metis less_or_eq_imp_le not_less div_less_dividend
            add_lessD1 linorder_neqE_nat less_mult_imp_div_less mult_2_right add_strict_right_mono)
      then have "bsearch P low ?mid = b"
        using "1.IH"(2) [OF True refl P] "1.prems" True by simp
      with True P show ?thesis by (simp add: bsearch.simps [of P low high] Let_def)
    qed
  next
    case False
    with "1.prems" show ?thesis by (simp add: bsearch.simps [of P low high])
  qed
qed

text \<open>
  On a list that \<open>Q\<close> splits into a prefix that satisfies it and a suffix that does not, the
  loop returns the length of the prefix.
\<close>

definition split_by :: "('a \<Rightarrow> bool) \<Rightarrow> 'a list \<Rightarrow> bool" where
  "split_by Q xs \<longleftrightarrow> (\<forall>x \<in> set (dropWhile Q xs). \<not> Q x)"

lemma split_by_nth:
  assumes "split_by Q xs" "i < length xs"
  shows "Q (xs ! i) \<longleftrightarrow> i < length (takeWhile Q xs)"
proof (cases "i < length (takeWhile Q xs)")
  case True
  then show ?thesis by (metis nth_mem set_takeWhileD takeWhile_nth)
next
  case False
  have "xs ! i = (takeWhile Q xs @ dropWhile Q xs) ! i" by simp
  then have "xs ! i = dropWhile Q xs ! (i - length (takeWhile Q xs))"
    using False by (simp add: nth_append del: takeWhile_dropWhile_id)
  moreover have "i - length (takeWhile Q xs) < length (dropWhile Q xs)"
    using False assms(2) by (metis add_diff_inverse_nat length_append nat_add_left_cancel_less takeWhile_dropWhile_id)
  ultimately have "xs ! i \<in> set (dropWhile Q xs)" by simp
  with False assms(1) show ?thesis by (auto simp: split_by_def)
qed

lemma bsearch_list:
  assumes "split_by Q xs"
  shows "bsearch (\<lambda>i. Q (xs ! i)) 0 (length xs) = length (takeWhile Q xs)"
  using assms by (intro bsearch_boundary) (auto simp: split_by_nth length_takeWhile_le)

lemma split_by_sorted:
  fixes f :: "'a \<Rightarrow> 'b::linorder"
  assumes "sorted (map f xs)"
  shows "split_by (\<lambda>x. f x < t) xs" "split_by (\<lambda>x. f x \<le> t) xs"
  using assms
proof (induction xs)
  case (Cons x xs)
  { case 1 then show ?case using Cons by (auto simp: split_by_def not_less intro: order_trans)
  next case 2 then show ?case using Cons by (fastforce simp: split_by_def not_le) }
qed (auto simp: split_by_def)

subsection \<open>Strictly increasing keys\<close>

abbreviation strictly_by :: "('a \<Rightarrow> 'b::linorder) \<Rightarrow> 'a list \<Rightarrow> bool" where
  "strictly_by f xs \<equiv> sorted_wrt (<) (map f xs)"

lemma strictly_by_sorted: "strictly_by f xs \<Longrightarrow> sorted (map f xs)"
  by (simp add: strict_sorted_imp_sorted)

lemma strictly_by_distinct: "strictly_by f xs \<Longrightarrow> distinct (map f xs)"
  by (simp add: strict_sorted_iff)

lemma sort_key_strictly: "distinct (map f xs) \<Longrightarrow> strictly_by f (sort_key f xs)"
  by (simp add: strict_sorted_iff distinct_map)

lemma strictly_by_drop: "strictly_by f xs \<Longrightarrow> strictly_by f (drop n xs)"
  by (simp add: drop_map sorted_wrt_drop flip: drop_map)

text \<open>Two strictly increasing lists with the same elements are the same list.\<close>

lemma strictly_by_unique:
  assumes "strictly_by f xs" "strictly_by f ys" "set xs = set ys"
  shows "xs = ys"
proof -
  have "map f xs = map f ys"
    using assms by (intro sorted_distinct_set_unique) (auto simp: strict_sorted_iff)
  moreover have "inj_on f (set xs \<union> set ys)"
    using assms by (simp add: strict_sorted_iff distinct_map)
  ultimately show ?thesis by (rule map_inj_on)
qed

subsection \<open>Code that may throw\<close>

text \<open>A result is \<open>Inr\<close>, a thrown error \<open>Inl\<close>; \<open>and_then\<close> is sequencing and \<open>traverse\<close> a \<open>map\<close> whose function may throw.\<close>

definition and_then :: "'e + 'a \<Rightarrow> ('a \<Rightarrow> 'e + 'b) \<Rightarrow> 'e + 'b" where
  "and_then m f = (case m of Inl e \<Rightarrow> Inl e | Inr x \<Rightarrow> f x)"

fun traverse :: "('a \<Rightarrow> 'e + 'b) \<Rightarrow> 'a list \<Rightarrow> 'e + 'b list" where
  "traverse f [] = Inr []"
| "traverse f (x # xs) = and_then (f x) (\<lambda>y. and_then (traverse f xs) (\<lambda>ys. Inr (y # ys)))"

definition is_throw :: "'e + 'a \<Rightarrow> bool" where
  "is_throw m = (case m of Inl _ \<Rightarrow> True | Inr _ \<Rightarrow> False)"

lemma and_then_simps [simp]: "and_then (Inl e) f = Inl e" "and_then (Inr x) f = f x"
  by (simp_all add: and_then_def)

lemma throws_simps [simp]: "is_throw (Inl e)" "\<not> is_throw (Inr x)"
  by (simp_all add: is_throw_def)

lemma and_then_Inr [simp]: "and_then m f = Inr y \<longleftrightarrow> (\<exists>x. m = Inr x \<and> f x = Inr y)"
  by (cases m) auto

lemma not_throws: "\<not> is_throw m \<longleftrightarrow> (\<exists>x. m = Inr x)"
  by (cases m) auto

lemma throws_and_then: "is_throw (and_then m f) \<longleftrightarrow> is_throw m \<or> (\<exists>x. m = Inr x \<and> is_throw (f x))"
  by (cases m) auto

lemma traverse_Inr: "traverse f xs = Inr ys \<longleftrightarrow> list_all2 (\<lambda>x y. f x = Inr y) xs ys"
proof (induction xs arbitrary: ys)
  case (Cons x xs) then show ?case by (cases ys) auto
qed auto

lemma traverse_append:
  "traverse f (xs @ ys) = and_then (traverse f xs) (\<lambda>us. and_then (traverse f ys) (\<lambda>vs. Inr (us @ vs)))"
  by (induction xs) (auto simp: and_then_def split: sum.splits)

lemma throws_traverse: "is_throw (traverse f xs) \<longleftrightarrow> (\<exists>x \<in> set xs. is_throw (f x))"
proof (induction xs)
  case (Cons x xs) then show ?case by (cases "f x"; cases "traverse f xs") auto
qed simp

lemma traverse_map_Inr: "(\<And>x. x \<in> set xs \<Longrightarrow> f x = Inr (g x)) \<Longrightarrow> traverse f xs = Inr (map g xs)"
  by (induction xs) auto

subsection \<open>Moving an element next to another\<close>

text \<open>\<open>const i = xs.findIndex(P); xs.splice(i + (after ? 1 : 0), 0, x)\<close>, for a list in which the search succeeds.\<close>

definition insert_next_to :: "bool \<Rightarrow> ('a \<Rightarrow> bool) \<Rightarrow> 'a \<Rightarrow> 'a list \<Rightarrow> 'a list" where
  "insert_next_to after P x xs =
     (let pos = length (takeWhile (\<lambda>y. \<not> P y) xs) + (if after then 1 else 0)
      in take pos xs @ [x] @ drop pos xs)"

lemma insert_next_to_split:
  assumes "\<exists>y \<in> set xs. P y"
  obtains us t vs where "xs = us @ t # vs" "P t" "list_all (\<lambda>y. \<not> P y) us"
    "insert_next_to after P x xs = us @ (if after then [t, x] else [x, t]) @ vs"
proof -
  obtain us t vs where xs: "xs = us @ t # vs" "P t" "\<forall>y \<in> set us. \<not> P y"
    using split_list_first_prop [OF assms] by blast
  then have "takeWhile (\<lambda>y. \<not> P y) xs = us" by (simp add: takeWhile_append2)
  then have "insert_next_to after P x xs = us @ (if after then [t, x] else [x, t]) @ vs"
    by (simp add: insert_next_to_def Let_def xs(1))
  then show thesis using xs that by (simp add: list_all_iff)
qed

lemma set_insert_next_to [simp]: "set (insert_next_to after P x xs) = insert x (set xs)"
proof -
  have "set (take n xs) \<union> set (drop n xs) = set xs" for n by (metis append_take_drop_id set_append)
  then show ?thesis unfolding insert_next_to_def Let_def by auto
qed

lemma map_insert_next_to: "map f (insert_next_to after (\<lambda>y. P (f y)) x xs) = insert_next_to after P (f x) (map f xs)"
  by (simp add: insert_next_to_def Let_def takeWhile_map comp_def take_map drop_map)

lemma distinct_insert_next_to: "distinct xs \<Longrightarrow> x \<notin> set xs \<Longrightarrow> distinct (insert_next_to after P x xs)"
  unfolding insert_next_to_def Let_def by (auto dest: in_set_takeD in_set_dropD simp: set_take_disj_set_drop_if_distinct)

lemma length_insert_next_to [simp]: "length (insert_next_to after P x xs) = length xs + 1"
proof -
  have "length (take n xs) + length (drop n xs) = length xs" for n by (metis append_take_drop_id length_append)
  then show ?thesis unfolding insert_next_to_def Let_def by simp
qed

end
