(* ===== verification/JsNumber.thy ===== *)
theory JsNumber
  imports Complex_Main Prelude "HOL-Library.Multiset"
begin

section \<open>The numbers of the program\<close>

text \<open>
  Every number of the TypeScript sources is an IEEE-754 binary64 value.  This theory models
  them as \<open>jsnum\<close>: the two infinities, NaN, and finite values carried as exact rationals.
  Arithmetic computes the exact rational result and rounds it once with \<open>f64\<close>, which is
  round-to-nearest, ties-to-even, with 53 significant bits, gradual underflow below
  \<open>2 powi (- 1022)\<close> and overflow to an infinity.  Comparisons, \<open>===\<close>, \<open>Math.min\<close>, \<open>Math.max\<close>,
  \<open>Math.floor\<close> and \<open>Math.round\<close> follow ECMAScript, NaN included.  The two zeros are identified
  (no modelled function tells them apart: none divides by a possibly negative zero).

  The lemmas are the facts the components rest on: rounding is monotone, odd, keeps signs
  and is exact on the safe integers, and a comparator \<open>(a, b) => a.k - b.k\<close> on
  integral keys sorts exactly as the stable sort by key does.
\<close>

subsection \<open>Rounding to binary64\<close>

datatype jsnum = NInf | Fin rat | PInf | NaN

lemma floor_half_less: "1 \<le> x \<Longrightarrow> \<lfloor>x / 2\<rfloor> < \<lfloor>x\<rfloor>" for x :: rat
proof (cases "x < 2")
  assume "1 \<le> x" "x < 2"
  then have "\<lfloor>x\<rfloor> = 1" "\<lfloor>x / 2\<rfloor> = 0" by linarith+
  then show ?thesis by simp
next
  assume "\<not> x < 2"
  then show ?thesis by linarith
qed

text \<open>The binary exponent of a positive rational, by repeated doubling and halving.\<close>

function ilog2 :: "rat \<Rightarrow> int" where
  "ilog2 a =
     (if a \<le> 0 then 0
      else if 2 \<le> a then ilog2 (a / 2) + 1
      else if a < 1 then ilog2 (2 * a) - 1
      else 0)"
  by pat_completeness auto
termination
proof (relation "measure (\<lambda>a. if 1 \<le> a then nat \<lfloor>a\<rfloor> else nat \<lfloor>1 / a\<rfloor> + 1)")
  fix a :: rat
  assume a: "\<not> a \<le> 0" "2 \<le> a"
  have "\<lfloor>a / 2\<rfloor> < \<lfloor>a\<rfloor>" using a by (simp add: floor_half_less)
  moreover have "0 < \<lfloor>a\<rfloor>" using a by linarith
  ultimately have "nat \<lfloor>a / 2\<rfloor> < nat \<lfloor>a\<rfloor>" by linarith
  then show "(a / 2, a) \<in> measure (\<lambda>a. if 1 \<le> a then nat \<lfloor>a\<rfloor> else nat \<lfloor>1 / a\<rfloor> + 1)"
    using a by simp
next
  fix a :: rat
  assume a: "\<not> a \<le> 0" "\<not> 2 \<le> a" "a < 1"
  have inv: "1 < 1 / a" using a by (simp add: field_simps)
  show "(2 * a, a) \<in> measure (\<lambda>a. if 1 \<le> a then nat \<lfloor>a\<rfloor> else nat \<lfloor>1 / a\<rfloor> + 1)"
  proof (cases "1 \<le> 2 * a")
    case True
    have "\<lfloor>2 * a\<rfloor> = 1" using a True by linarith
    moreover have "1 \<le> \<lfloor>1 / a\<rfloor>" using inv by linarith
    ultimately show ?thesis using a True by auto
  next
    case False
    have h: "1 / (2 * a) = (1 / a) / 2" by simp
    have "\<lfloor>(1 / a) / 2\<rfloor> < \<lfloor>1 / a\<rfloor>" using inv by (intro floor_half_less) simp
    moreover have "0 < \<lfloor>1 / a\<rfloor>" using inv by linarith
    ultimately have "nat \<lfloor>1 / (2 * a)\<rfloor> < nat \<lfloor>1 / a\<rfloor>" unfolding h by linarith
    then show ?thesis using a False by simp
  qed
qed simp

declare ilog2.simps [simp del]

lemma ilog2_bounds: "0 < a \<Longrightarrow> 2 powi ilog2 a \<le> a \<and> a < 2 powi (ilog2 a + 1)"
proof (induction a rule: ilog2.induct)
  case (1 a)
  consider "2 \<le> a" | "a < 1" | "1 \<le> a" "a < 2" by linarith
  then show ?case
  proof cases
    case 1
    then have "ilog2 a = ilog2 (a / 2) + 1" by (subst ilog2.simps) simp
    moreover have "2 powi ilog2 (a / 2) \<le> a / 2 \<and> a / 2 < 2 powi (ilog2 (a / 2) + 1)"
      using "1.IH"(1) "1.prems" 1 by simp
    ultimately show ?thesis by (simp add: power_int_add)
  next
    case 2
    then have e: "ilog2 a = ilog2 (2 * a) - 1" using "1.prems" by (subst ilog2.simps) simp
    moreover have "2 powi ilog2 (2 * a) \<le> 2 * a \<and> 2 * a < 2 powi (ilog2 (2 * a) + 1)"
      using "1.IH"(2) "1.prems" 2 by simp
    ultimately show ?thesis by (simp add: power_int_add power_int_diff)
  next
    case 3
    then have "ilog2 a = 0" by (subst ilog2.simps) simp
    with 3 show ?thesis by simp
  qed
qed

lemma ilog2_mono: assumes "0 < a" "a \<le> b" shows "ilog2 a \<le> ilog2 b"
proof (rule ccontr)
  assume "\<not> ilog2 a \<le> ilog2 b"
  then have "(2::rat) powi (ilog2 b + 1) \<le> 2 powi ilog2 a"
    by (intro power_int_increasing) auto
  with ilog2_bounds [of a] ilog2_bounds [of b] assms show False by linarith
qed

definition round_half_even :: "rat \<Rightarrow> int" where
  "round_half_even q =
     (let f = \<lfloor>q\<rfloor>; r = q - of_int f
      in if r < 1 / 2 then f else if 1 / 2 < r then f + 1 else if even f then f else f + 1)"

lemma round_half_even_of_int [simp]: "round_half_even (of_int n) = n"
  by (simp add: round_half_even_def)

lemma round_half_even_mono: assumes "p \<le> q" shows "round_half_even p \<le> round_half_even q"
proof -
  have "\<lfloor>p\<rfloor> \<le> \<lfloor>q\<rfloor>" using assms by (rule floor_mono)
  then consider "\<lfloor>p\<rfloor> = \<lfloor>q\<rfloor>" | "\<lfloor>p\<rfloor> + 1 \<le> \<lfloor>q\<rfloor>" by linarith
  then show ?thesis
  proof cases
    case 1 with assms show ?thesis by (simp add: round_half_even_def Let_def)
  next
    case 2
    have "round_half_even p \<le> \<lfloor>p\<rfloor> + 1" "\<lfloor>q\<rfloor> \<le> round_half_even q"
      by (simp_all add: round_half_even_def Let_def)
    with 2 show ?thesis by linarith
  qed
qed

definition ulp64 :: "rat \<Rightarrow> rat" where
  "ulp64 a = 2 powi (max (ilog2 a) (- 1022) - 52)"

definition rnd_abs :: "rat \<Rightarrow> rat" where
  "rnd_abs a = of_int (round_half_even (a / ulp64 a)) * ulp64 a"

definition rnd64 :: "rat \<Rightarrow> rat" where
  "rnd64 x = (if x < 0 then - rnd_abs (- x) else if x = 0 then 0 else rnd_abs x)"

lemma ulp64_pos [simp]: "0 < ulp64 a"
  by (simp add: ulp64_def)

lemma rnd_abs_ge:
  assumes "of_int n * ulp64 a \<le> a" shows "of_int n * ulp64 a \<le> rnd_abs a"
proof -
  have "of_int n \<le> a / ulp64 a" using assms by (simp add: pos_le_divide_eq)
  then have "n \<le> round_half_even (a / ulp64 a)"
    using round_half_even_mono [of "of_int n" "a / ulp64 a"] by simp
  then show ?thesis by (simp add: rnd_abs_def)
qed

lemma rnd_abs_le:
  assumes "a \<le> of_int n * ulp64 a" shows "rnd_abs a \<le> of_int n * ulp64 a"
proof -
  have "a / ulp64 a \<le> of_int n" using assms by (simp add: pos_divide_le_eq)
  then have "round_half_even (a / ulp64 a) \<le> n"
    using round_half_even_mono [of "a / ulp64 a" "of_int n"] by simp
  then show ?thesis by (simp add: rnd_abs_def)
qed

lemma rnd_abs_nonneg: "0 \<le> a \<Longrightarrow> 0 \<le> rnd_abs a"
  using rnd_abs_ge [of 0 a] by simp

text \<open>Powers of two are multiples of the unit in the last place below them.\<close>

lemma pow2_multiple:
  assumes "m \<le> k" shows "(2::rat) powi k = of_int (2 ^ nat (k - m)) * 2 powi m"
proof -
  have "(2::rat) powi k = 2 powi (k - m) * 2 powi m"
    by (simp add: power_int_add [symmetric])
  also have "(2::rat) powi (k - m) = of_int (2 ^ nat (k - m))"
    using assms by (simp add: power_int_def)
  finally show ?thesis .
qed

lemma rnd_abs_le_pow2:
  assumes "0 < a" shows "rnd_abs a \<le> 2 powi (max (ilog2 a) (- 1022) + 1)"
proof -
  let ?e = "max (ilog2 a) (- 1022)"
  have eq: "(2::rat) powi (?e + 1) = of_int (2 ^ 53) * ulp64 a"
    using pow2_multiple [of "?e - 52" "?e + 1"] by (simp add: ulp64_def)
  have "a < 2 powi (ilog2 a + 1)" using ilog2_bounds assms by blast
  also have "(2::rat) powi (ilog2 a + 1) \<le> 2 powi (?e + 1)"
    by (intro power_int_increasing) auto
  finally show ?thesis using rnd_abs_le [of a "2 ^ 53"] eq by simp
qed

lemma rnd_abs_ge_pow2:
  assumes "0 < a" "- 1022 \<le> ilog2 a" shows "2 powi ilog2 a \<le> rnd_abs a"
proof -
  have eq: "(2::rat) powi ilog2 a = of_int (2 ^ 52) * ulp64 a"
    using pow2_multiple [of "ilog2 a - 52" "ilog2 a"] assms by (simp add: ulp64_def)
  then show ?thesis using ilog2_bounds [of a] assms rnd_abs_ge [of "2 ^ 52" a] by simp
qed

lemma rnd_abs_mono:
  assumes "0 < a" "a \<le> b" shows "rnd_abs a \<le> rnd_abs b"
proof (cases "max (ilog2 a) (- 1022) = max (ilog2 b) (- 1022)")
  case True
  then have "ulp64 a = ulp64 b" by (simp add: ulp64_def)
  moreover have "round_half_even (a / ulp64 a) \<le> round_half_even (b / ulp64 a)"
    by (intro round_half_even_mono divide_right_mono assms) (simp add: less_imp_le)
  ultimately show ?thesis by (simp add: rnd_abs_def)
next
  case False
  with ilog2_mono [OF assms] have lt: "max (ilog2 a) (- 1022) + 1 \<le> ilog2 b" by linarith
  have "rnd_abs a \<le> 2 powi (max (ilog2 a) (- 1022) + 1)" using assms by (simp add: rnd_abs_le_pow2)
  also have "\<dots> \<le> 2 powi ilog2 b" using lt by (intro power_int_increasing) auto
  also have "\<dots> \<le> rnd_abs b" using assms lt by (intro rnd_abs_ge_pow2) auto
  finally show ?thesis .
qed

lemma rnd64_0 [simp]: "rnd64 0 = 0"
  by (simp add: rnd64_def)

lemma rnd64_minus [simp]: "rnd64 (- x) = - rnd64 x"
  by (simp add: rnd64_def)

lemma rnd64_nonneg: "0 \<le> x \<Longrightarrow> 0 \<le> rnd64 x"
  by (simp add: rnd64_def rnd_abs_nonneg)

lemma rnd64_nonpos: "x \<le> 0 \<Longrightarrow> rnd64 x \<le> 0"
  using rnd64_nonneg [of "- x"] by simp

lemma rnd64_mono: assumes "x \<le> y" shows "rnd64 x \<le> rnd64 y"
proof -
  consider "0 < x" | "y < 0" | "x \<le> 0" "0 \<le> y" using assms by linarith
  then show ?thesis
  proof cases
    case 1 with assms show ?thesis by (simp add: rnd64_def rnd_abs_mono)
  next
    case 2 with assms show ?thesis using rnd_abs_mono [of "- y" "- x"] by (simp add: rnd64_def)
  next
    case 3 then show ?thesis using rnd64_nonneg [of y] rnd64_nonpos [of x] by linarith
  qed
qed

lemma rnd64_exact:
  assumes "x = of_int n * ulp64 \<bar>x\<bar>" shows "rnd64 x = x"
proof -
  have *: "rnd_abs a = a" if "a = of_int k * ulp64 a" for a k
    using rnd_abs_ge [of k a] rnd_abs_le [of a k] that by simp
  show ?thesis
  proof (cases "x < 0")
    case True
    with assms have "- x = of_int (- n) * ulp64 (- x)" by simp
    from * [OF this] True show ?thesis by (simp add: rnd64_def)
  next
    case False
    then show ?thesis using * [of x n] assms by (simp add: rnd64_def)
  qed
qed

lemma rnd64_of_int:
  assumes "\<bar>n\<bar> < 2 ^ 53" shows "rnd64 (of_int n) = of_int n"
proof (cases "n = 0")
  case False
  let ?a = "\<bar>of_int n\<bar> :: rat"
  have "of_int \<bar>n\<bar> < (of_int (2 ^ 53) :: rat)" using assms by (simp only: of_int_less_iff)
  then have a: "1 \<le> ?a" "?a < 2 ^ 53" using False by (linarith, simp)
  have lo: "0 \<le> ilog2 ?a" using ilog2_mono [of 1 ?a] a ilog2.simps [of 1] by simp
  have "(2::rat) powi ilog2 ?a < 2 powi 53"
    using ilog2_bounds [of ?a] a(1) order_le_less_trans [OF _ a(2)] by auto
  then have hi: "ilog2 ?a \<le> 52"
    using power_int_increasing [of 53 "ilog2 ?a" "2::rat"] by linarith
  have "(2::rat) powi 0 = of_int (2 ^ nat (52 - ilog2 ?a)) * 2 powi (ilog2 ?a - 52)"
    using pow2_multiple [of "ilog2 ?a - 52" 0] hi by simp
  then have "of_int n = of_int (n * 2 ^ nat (52 - ilog2 ?a)) * ulp64 ?a"
    using lo by (simp add: ulp64_def mult.assoc max_def)
  then show ?thesis by (rule rnd64_exact)
qed simp

text \<open>Rounding is idempotent: its results are doubles.\<close>

lemma rnd_abs_idem:
  assumes "0 < a" shows "\<exists>k. rnd_abs a = of_int k * ulp64 (rnd_abs a)"
proof (cases "rnd_abs a = 0")
  case False
  let ?r = "rnd_abs a" and ?e = "max (ilog2 a) (- 1022)"
  define n where "n = round_half_even (a / ulp64 a)"
  have r: "0 < ?r" "?r = of_int n * 2 powi (?e - 52)" "?r \<le> 2 powi (?e + 1)"
    using False rnd_abs_nonneg [of a] rnd_abs_le_pow2 assms by (auto simp: rnd_abs_def ulp64_def n_def order_less_le)
  let ?e' = "max (ilog2 ?r) (- 1022)"
  have log: "2 powi ilog2 ?r \<le> ?r" using ilog2_bounds [of ?r] r(1) by blast
  show ?thesis
  proof (cases "?e' \<le> ?e")
    case True
    then have "(2::rat) powi (?e - 52) = of_int (2 ^ nat (?e - ?e')) * 2 powi (?e' - 52)"
      using pow2_multiple [of "?e' - 52" "?e - 52"] by simp
    then have "?r = of_int (n * 2 ^ nat (?e - ?e')) * ulp64 ?r"
      using r(2) by (simp add: ulp64_def mult.assoc)
    then show ?thesis by blast
  next
    case False
    then have e': "?e + 1 \<le> ilog2 ?r" by linarith
    then have "(2::rat) powi (?e + 1) \<le> 2 powi ilog2 ?r" by (intro power_int_increasing) auto
    with r(3) log have eq: "?r = 2 powi ilog2 ?r" by linarith
    have "(2::rat) powi ilog2 ?r = of_int (2 ^ 52) * ulp64 ?r"
      using pow2_multiple [of "ilog2 ?r - 52" "ilog2 ?r"] e' by (simp add: ulp64_def)
    then have "?r = of_int (2 ^ 52) * ulp64 ?r" using eq by linarith
    then show ?thesis by (rule exI)
  qed
qed (simp add: exI [of _ 0])

lemma rnd64_idem [simp]: "rnd64 (rnd64 x) = rnd64 x"
proof -
  have pos: "rnd64 (rnd_abs a) = rnd_abs a" if "0 < a" for a
    using rnd_abs_idem [OF that] rnd_abs_nonneg [of a] that rnd64_exact by (metis abs_of_nonneg less_imp_le)
  consider "0 < x" | "x = 0" | "x < 0" by linarith
  then show ?thesis
  proof cases
    case 1 then show ?thesis using pos [of x] by (simp add: rnd64_def [of x])
  next
    case 3 then show ?thesis using pos [of "- x"] by (simp add: rnd64_def [of x])
  qed simp
qed

subsection \<open>Values\<close>

definition f64 :: "rat \<Rightarrow> jsnum" where
  "f64 x = (let r = rnd64 x in
     if 2 ^ 1024 \<le> r then PInf else if r \<le> - (2 ^ 1024) then NInf else Fin r)"

instantiation jsnum :: linorder
begin

fun less_eq_jsnum :: "jsnum \<Rightarrow> jsnum \<Rightarrow> bool" where
  "less_eq_jsnum NInf _ = True"
| "less_eq_jsnum _ NaN = True"
| "less_eq_jsnum NaN _ = False"
| "less_eq_jsnum _ NInf = False"
| "less_eq_jsnum (Fin a) (Fin b) = (a \<le> b)"
| "less_eq_jsnum _ PInf = True"
| "less_eq_jsnum PInf (Fin _) = False"

definition less_jsnum :: "jsnum \<Rightarrow> jsnum \<Rightarrow> bool" where
  "less_jsnum x y \<longleftrightarrow> x \<le> y \<and> \<not> y \<le> x"

instance
proof
  fix x y z :: jsnum
  show "x < y \<longleftrightarrow> x \<le> y \<and> \<not> y \<le> x" by (rule less_jsnum_def)
  show "x \<le> x" by (cases x) auto
  show "x \<le> y \<Longrightarrow> y \<le> z \<Longrightarrow> x \<le> z" by (cases x; cases y; cases z) auto
  show "x \<le> y \<Longrightarrow> y \<le> x \<Longrightarrow> x = y" by (cases x; cases y) auto
  show "x \<le> y \<or> y \<le> x" by (cases x; cases y) auto
qed

end

lemma less_jsnum_simps [simp]:
  "Fin a < Fin b \<longleftrightarrow> a < b" "NInf < Fin a" "Fin a < PInf" "NInf < PInf" "x < NaN \<longleftrightarrow> x \<noteq> NaN"
  "\<not> PInf < Fin a" "\<not> Fin a < NInf" "\<not> PInf < PInf" "\<not> NInf < NInf" "\<not> NaN < x" "\<not> PInf < NInf"
  by (auto simp: less_jsnum_def) (cases x; simp)+

lemma f64_mono: "x \<le> y \<Longrightarrow> f64 x \<le> f64 y"
  using rnd64_mono [of x y] by (auto simp: f64_def Let_def)

lemma f64_of_int: "\<bar>n\<bar> < 2 ^ 53 \<Longrightarrow> f64 (of_int n) = Fin (of_int n)"
proof -
  assume n: "\<bar>n\<bar> < 2 ^ 53"
  have "(of_int \<bar>n\<bar> :: rat) < of_int (2 ^ 53)" using n by (simp only: of_int_less_iff)
  also have "(of_int (2 ^ 53) :: rat) \<le> 2 ^ 1024" by simp
  finally show ?thesis by (simp add: f64_def rnd64_of_int [OF n] abs_le_iff abs_less_iff)
qed

lemma f64_0 [simp]: "f64 0 = Fin 0"
  by (simp add: f64_def)

lemma f64_1 [simp]: "f64 1 = Fin 1"
  using f64_of_int [of 1] by simp

lemma f64_nonneg: "0 \<le> x \<Longrightarrow> Fin 0 \<le> f64 x"
  using f64_mono [of 0 x] by simp

lemma f64_nonpos: "x \<le> 0 \<Longrightarrow> f64 x \<le> Fin 0"
  using f64_mono [of x 0] by simp

lemma f64_not_NaN [simp]: "f64 x \<noteq> NaN" "NaN \<noteq> f64 x"
  by (auto simp: f64_def Let_def)

subsection \<open>Comparison and the Math functions\<close>

definition js_isFinite :: "jsnum \<Rightarrow> bool" where
  "js_isFinite x \<longleftrightarrow> (case x of Fin _ \<Rightarrow> True | _ \<Rightarrow> False)"

definition js_lt :: "jsnum \<Rightarrow> jsnum \<Rightarrow> bool" where
  "js_lt x y \<longleftrightarrow> x \<noteq> NaN \<and> y \<noteq> NaN \<and> x < y"

definition js_le :: "jsnum \<Rightarrow> jsnum \<Rightarrow> bool" where
  "js_le x y \<longleftrightarrow> x \<noteq> NaN \<and> y \<noteq> NaN \<and> x \<le> y"

definition js_eq :: "jsnum \<Rightarrow> jsnum \<Rightarrow> bool" where
  "js_eq x y \<longleftrightarrow> x \<noteq> NaN \<and> x = y"

text \<open>A number in a condition: false for 0 and NaN.\<close>

definition js_truthy :: "jsnum \<Rightarrow> bool" where
  "js_truthy x \<longleftrightarrow> x \<noteq> NaN \<and> x \<noteq> Fin 0"

definition js_max :: "jsnum \<Rightarrow> jsnum \<Rightarrow> jsnum" where
  "js_max x y = max x y"

definition js_min :: "jsnum \<Rightarrow> jsnum \<Rightarrow> jsnum" where
  "js_min x y = (if x = NaN \<or> y = NaN then NaN else min x y)"

definition js_floor :: "jsnum \<Rightarrow> jsnum" where
  "js_floor x = (case x of Fin a \<Rightarrow> Fin (of_int \<lfloor>a\<rfloor>) | _ \<Rightarrow> x)"

definition js_round :: "jsnum \<Rightarrow> jsnum" where
  "js_round x = (case x of Fin a \<Rightarrow> Fin (of_int \<lfloor>a + 1 / 2\<rfloor>) | _ \<Rightarrow> x)"

lemma js_isFinite_iff: "js_isFinite x \<longleftrightarrow> (\<exists>a. x = Fin a)"
  by (cases x) (auto simp: js_isFinite_def)

lemma js_isFinite_simps [simp]:
  "js_isFinite (Fin a)" "\<not> js_isFinite NaN" "\<not> js_isFinite PInf" "\<not> js_isFinite NInf"
  by (auto simp: js_isFinite_def)

text \<open>NaN is the top of the linear order, so \<open>Math.max\<close> needs no case for it.\<close>

lemma js_max_NaN [simp]: "js_max NaN y = NaN" "js_max x NaN = NaN"
  by (cases y; simp add: js_max_def max_def) (cases x; simp add: js_max_def max_def)

lemma js_minmax_Fin [simp]:
  "js_max (Fin a) (Fin b) = Fin (max a b)" "js_min (Fin a) (Fin b) = Fin (min a b)"
  by (auto simp: js_max_def js_min_def max_def min_def)

lemma js_order_Fin [simp]:
  "js_lt (Fin a) (Fin b) \<longleftrightarrow> a < b" "js_le (Fin a) (Fin b) \<longleftrightarrow> a \<le> b"
  "js_eq (Fin a) (Fin b) \<longleftrightarrow> a = b"
  by (auto simp: js_lt_def js_le_def js_eq_def)

lemma js_order_finite:
  assumes "js_isFinite x" "js_isFinite y"
  shows "js_lt x y \<longleftrightarrow> x < y" "js_le x y \<longleftrightarrow> x \<le> y" "js_eq x y \<longleftrightarrow> x = y"
  using assms by (auto simp: js_isFinite_iff)

lemma js_floor_Fin [simp]: "js_floor (Fin a) = Fin (of_int \<lfloor>a\<rfloor>)"
  by (simp add: js_floor_def)

lemma js_isFinite_floor [simp]: "js_isFinite (js_floor x) \<longleftrightarrow> js_isFinite x"
  by (cases x) (auto simp: js_floor_def)

lemma js_floor_idem [simp]: "js_floor (js_floor x) = js_floor x"
  by (cases x) (auto simp: js_floor_def)

subsection \<open>Arithmetic\<close>

fun js_neg :: "jsnum \<Rightarrow> jsnum" where
  "js_neg (Fin a) = Fin (- a)"
| "js_neg PInf = NInf"
| "js_neg NInf = PInf"
| "js_neg NaN = NaN"

fun js_add :: "jsnum \<Rightarrow> jsnum \<Rightarrow> jsnum" where
  "js_add (Fin a) (Fin b) = f64 (a + b)"
| "js_add NaN _ = NaN"
| "js_add _ NaN = NaN"
| "js_add PInf NInf = NaN"
| "js_add NInf PInf = NaN"
| "js_add PInf _ = PInf"
| "js_add _ PInf = PInf"
| "js_add NInf _ = NInf"
| "js_add _ NInf = NInf"

definition js_sub :: "jsnum \<Rightarrow> jsnum \<Rightarrow> jsnum" where
  "js_sub x y = js_add x (js_neg y)"

definition js_inf_signed :: "rat \<Rightarrow> jsnum" where
  "js_inf_signed s = (if 0 < s then PInf else if s < 0 then NInf else NaN)"

text \<open>The sign of a value, for the products and quotients that involve an infinity.\<close>

fun js_sgn :: "jsnum \<Rightarrow> rat" where
  "js_sgn (Fin a) = sgn a"
| "js_sgn PInf = 1"
| "js_sgn NInf = - 1"
| "js_sgn NaN = 0"

fun js_mul :: "jsnum \<Rightarrow> jsnum \<Rightarrow> jsnum" where
  "js_mul (Fin a) (Fin b) = f64 (a * b)"
| "js_mul x y = (if x = NaN \<or> y = NaN then NaN else js_inf_signed (js_sgn x * js_sgn y))"

fun js_div :: "jsnum \<Rightarrow> jsnum \<Rightarrow> jsnum" where
  "js_div (Fin a) (Fin b) = (if b = 0 then js_inf_signed (sgn a) else f64 (a / b))"
| "js_div NaN _ = NaN"
| "js_div _ NaN = NaN"
| "js_div (Fin a) _ = Fin 0"
| "js_div x (Fin b) = js_inf_signed (js_sgn x * (if b < 0 then - 1 else 1))"
| "js_div _ _ = NaN"

definition js_abs :: "jsnum \<Rightarrow> jsnum" where
  "js_abs x = (case x of Fin a \<Rightarrow> Fin \<bar>a\<bar> | NInf \<Rightarrow> PInf | _ \<Rightarrow> x)"

lemma js_sub_Fin [simp]: "js_sub (Fin a) (Fin b) = f64 (a - b)"
  by (simp add: js_sub_def)

text \<open>The sign of a rounded difference of integers is the sign of the exact difference.\<close>

lemma f64_of_int_pos: "Fin 0 < f64 (of_int n) \<longleftrightarrow> 0 < n"
proof (cases "0 < n")
  case True
  then have "f64 1 \<le> f64 (of_int n)" by (intro f64_mono) simp
  with True show ?thesis by (metis f64_1 less_jsnum_simps(1) order_less_le_trans zero_less_one)
next
  case False
  then have "f64 (of_int n) \<le> Fin 0" by (intro f64_nonpos) simp
  with False show ?thesis by (simp add: not_less)
qed

subsection \<open>Array.prototype.sort with a comparator\<close>

text \<open>
  ECMAScript's sort is stable and orders by the comparator's sign: insertion sort, in
  which an element passes those that the comparator puts strictly before it.
\<close>

fun js_insort :: "('a \<Rightarrow> 'a \<Rightarrow> jsnum) \<Rightarrow> 'a \<Rightarrow> 'a list \<Rightarrow> 'a list" where
  "js_insort cmp x [] = [x]"
| "js_insort cmp x (y # ys) =
     (if js_lt (Fin 0) (cmp x y) then y # js_insort cmp x ys else x # y # ys)"

definition js_sort :: "('a \<Rightarrow> 'a \<Rightarrow> jsnum) \<Rightarrow> 'a list \<Rightarrow> 'a list" where
  "js_sort cmp xs = foldr (js_insort cmp) xs []"

lemma js_insort_key:
  assumes "\<And>y. y \<in> set ys \<Longrightarrow> js_lt (Fin 0) (cmp x y) \<longleftrightarrow> f y < f x"
  shows "js_insort cmp x ys = insort_key f x ys"
  using assms by (induction ys) (auto simp: not_less)

lemma mset_js_sort: "mset (js_sort cmp xs) = mset xs"
proof -
  have "mset (js_insort cmp x ys) = add_mset x (mset ys)" for x ys
    by (induction ys) auto
  then show ?thesis by (induction xs) (auto simp: js_sort_def)
qed

lemma set_js_sort: "set (js_sort cmp xs) = set xs"
  by (metis mset_js_sort set_mset_mset)

lemma js_sort_key:
  assumes "\<And>x y. x \<in> set xs \<Longrightarrow> y \<in> set xs \<Longrightarrow> js_lt (Fin 0) (cmp x y) \<longleftrightarrow> f y < f x"
  shows "js_sort cmp xs = sort_key f xs"
proof -
  have "foldr (js_insort cmp) ys [] = foldr (insort_key f) ys []" if "set ys \<subseteq> set xs" for ys
    using that
  proof (induction ys)
    case (Cons y ys)
    then have "set (foldr (insort_key f) ys []) \<subseteq> set xs"
      using set_sort [of f ys] by (simp add: sort_key_def)
    then show ?case using Cons assms by (auto intro!: js_insort_key)
  qed simp
  then show ?thesis by (simp add: js_sort_def sort_key_def)
qed

text \<open>Integral numbers: what \<open>Math.floor\<close> of a finite number is.\<close>

definition js_integral :: "jsnum \<Rightarrow> bool" where
  "js_integral x \<longleftrightarrow> js_isFinite x \<and> js_floor x = x"

lemma js_integralE: "js_integral x \<Longrightarrow> (\<And>n. x = Fin (of_int n) \<Longrightarrow> P) \<Longrightarrow> P"
  by (cases x) (auto simp: js_integral_def)

lemma js_integral_floor [simp]: "js_isFinite x \<Longrightarrow> js_integral (js_floor x)"
  by (simp add: js_integral_def)

lemma js_sub_integral_pos:
  assumes "js_integral x" "js_integral y" shows "js_lt (Fin 0) (js_sub x y) \<longleftrightarrow> y < x"
proof -
  obtain m n where [simp]: "x = Fin (of_int m)" "y = Fin (of_int n)"
    using assms by (meson js_integralE)
  have "f64 (of_int m - of_int n) = f64 (of_int (m - n))" by simp
  then have "Fin 0 < f64 (of_int m - of_int n) \<longleftrightarrow> 0 < m - n" by (simp only: f64_of_int_pos)
  then show ?thesis by (simp add: js_lt_def)
qed

lemma js_sort_by_integral_key:
  assumes "\<And>x. x \<in> set xs \<Longrightarrow> js_integral (f x)"
  shows "js_sort (\<lambda>a b. js_sub (f a) (f b)) xs = sort_key f xs"
  using assms by (intro js_sort_key js_sub_integral_pos) auto

subsection \<open>Flooring a quotient of integers\<close>

lemma round_half_even_error: "of_int (round_half_even q) \<le> q + 1 / 2"
  by (auto simp: round_half_even_def Let_def) linarith+

lemma rnd_abs_error:
  assumes "0 < a" "- 1022 \<le> ilog2 a" shows "rnd_abs a \<le> a + a / 2 ^ 53"
proof -
  have u: "ulp64 a = 2 powi (ilog2 a) / 2 ^ 52"
    using assms by (simp add: ulp64_def power_int_diff)
  have "of_int (round_half_even (a / ulp64 a)) * ulp64 a \<le> (a / ulp64 a + 1 / 2) * ulp64 a"
    by (intro mult_right_mono round_half_even_error) (simp add: less_imp_le)
  also have "\<dots> = a + ulp64 a / 2" using ulp64_pos [of a] by (simp add: distrib_right less_imp_neq [symmetric])
  also have "\<dots> \<le> a + a / 2 ^ 53"
    using ilog2_bounds [OF assms(1)] by (simp add: u field_simps)
  finally show ?thesis by (simp add: rnd_abs_def)
qed

text \<open>The bucket computation \<open>Math.floor(t / s)\<close> is exact on safe non-negative integers.\<close>

lemma js_floor_div_int:
  fixes t s :: int
  assumes "0 \<le> t" "t < 2 ^ 53" "0 < s" "s < 2 ^ 53"
  shows "js_floor (js_div (Fin (of_int t)) (Fin (of_int s))) = Fin (of_int (t div s))"
proof (cases "t = 0")
  case True with assms show ?thesis by simp
next
  case False
  let ?q = "of_int t / of_int s :: rat" and ?k = "t div s"
  have q: "0 < ?q" using False assms by simp
  have k: "of_int ?k \<le> ?q" using assms floor_divide_of_int_eq [of t s, where ?'a = rat] by linarith
  have "?k \<le> t" using assms zdiv_mono2 [of t 1 s] by simp
  then have kb: "0 \<le> ?k" "?k < 2 ^ 53" using assms by (simp_all add: pos_imp_zdiv_nonneg_iff)
  have lo: "of_int ?k \<le> rnd64 ?q" using rnd64_mono [OF k] rnd64_of_int [of ?k] kb by simp
  have "(1::rat) / 2 ^ 53 \<le> ?q"
  proof -
    have "s \<le> 2 ^ 53 * t" using assms(2-4) assms(1) False by simp
    then have "of_int s \<le> (of_int (2 ^ 53 * t) :: rat)" by (simp only: of_int_le_iff)
    then show ?thesis using assms by (simp add: field_simps)
  qed
  moreover have "(2::rat) powi (- 53) = 1 / 2 ^ 53"
    by (simp only: power_int_minus power_int_numeral inverse_eq_divide)
  ultimately have "2 powi (- 53) \<le> ?q" by simp
  then have e: "- 1022 \<le> ilog2 ?q"
    using ilog2_bounds [OF q] power_int_increasing [of "ilog2 ?q + 1" "- 53" "2::rat"] by (rule_tac ccontr) linarith
  have "rnd64 ?q \<le> ?q + ?q / 2 ^ 53" using rnd_abs_error [OF q e] q by (simp add: rnd64_def)
  also have "\<dots> < ?q + 1 / of_int s"
  proof -
    have "(of_int t :: rat) < of_int (2 ^ 53)" using assms(2) by (simp only: of_int_less_iff)
    then show ?thesis using assms by (simp add: field_simps)
  qed
  also have "\<dots> \<le> of_int ?k + 1"
  proof -
    have "t + 1 \<le> (?k + 1) * s"
      using div_mult_mod_eq [of t s] pos_mod_bound [OF assms(3), of t] unfolding distrib_right mult_1 by linarith
    then have "(of_int (t + 1) :: rat) \<le> of_int ((?k + 1) * s)" by (simp only: of_int_le_iff)
    then show ?thesis using assms by (simp add: field_simps)
  qed
  finally have fl: "\<lfloor>rnd64 ?q\<rfloor> = ?k" using lo by linarith
  have big: "rnd64 ?q < 2 ^ 1024"
  proof -
    have "rnd64 ?q < of_int (?k + 1)" using fl by linarith
    also have "(of_int (?k + 1) :: rat) \<le> of_int (2 ^ 53)" using kb by (simp only: of_int_le_iff)
    also have "\<dots> < 2 ^ 1024" by simp
    finally show ?thesis .
  qed
  have "0 \<le> rnd64 ?q" using q by (simp add: rnd64_nonneg)
  then have "\<not> rnd64 ?q \<le> - (2 ^ 1024)" using zero_less_power [of "2::rat" 1024] by linarith
  with big fl assms show ?thesis by (simp add: f64_def Let_def)
qed

subsection \<open>The sign of a difference\<close>

text \<open>
  A finite number that is a binary64 value.  Doubles are multiples of the least subnormal, so their
  difference never rounds to zero unless they are equal (gradual underflow).
\<close>

definition is_double :: "jsnum \<Rightarrow> bool" where
  "is_double x \<longleftrightarrow> (case x of Fin r \<Rightarrow> f64 r = Fin r | _ \<Rightarrow> False)"

lemma is_doubleE: "is_double x \<Longrightarrow> (\<And>r. x = Fin r \<Longrightarrow> f64 r = Fin r \<Longrightarrow> P) \<Longrightarrow> P"
  by (auto simp: is_double_def split: jsnum.splits)

lemma is_double_f64: "js_isFinite (f64 x) \<Longrightarrow> is_double (f64 x)"
  by (auto simp: is_double_def f64_def Let_def split: if_splits)

definition least64 :: rat where
  "least64 = 2 powi (- 1074)"

lemma least64_pos: "0 < least64"
  unfolding least64_def by (rule zero_less_power_int) simp

lemma rnd64_grid: "\<exists>k. rnd64 x = of_int k * least64"
proof -
  have *: "\<exists>k. rnd_abs a = of_int k * least64" for a
  proof -
    define n where "n = (2 :: int) ^ nat (max (ilog2 a) (- 1022) - 52 - (- 1074))"
    have "ulp64 a = of_int n * least64"
      unfolding ulp64_def least64_def n_def by (rule pow2_multiple) linarith
    then have "rnd_abs a = of_int (round_half_even (a / ulp64 a) * n) * least64"
      unfolding rnd_abs_def by (simp only: of_int_mult mult.assoc)
    then show ?thesis by blast
  qed
  obtain k where k: "rnd_abs x = of_int k * least64" using * by blast
  obtain m where m: "rnd_abs (- x) = of_int m * least64" using * by blast
  show ?thesis
  proof (cases "x < 0")
    case True
    then have "rnd64 x = of_int (- m) * least64" by (simp add: rnd64_def m)
    then show ?thesis by blast
  next
    case False
    then have "rnd64 x = of_int (if x = 0 then 0 else k) * least64" by (simp add: rnd64_def k)
    then show ?thesis by blast
  qed
qed

lemma rnd64_least: "rnd64 least64 = least64"
proof -
  have "ilog2 least64 \<le> - 1022"
  proof (rule ccontr)
    assume "\<not> ilog2 least64 \<le> - 1022"
    then have "(2 :: rat) powi (- 1074) < 2 powi ilog2 least64" by (intro power_int_strict_increasing) auto
    also have "\<dots> \<le> least64" using ilog2_bounds [OF least64_pos] by blast
    finally show False unfolding least64_def by (rule less_irrefl [THEN notE])
  qed
  then have "max (ilog2 least64) (- 1022) - 52 = - 1074" by linarith
  moreover have "\<bar>least64\<bar> = least64" using least64_pos by (rule abs_of_pos)
  ultimately have "ulp64 \<bar>least64\<bar> = least64" by (simp only: ulp64_def least64_def)
  then have "least64 = of_int 1 * ulp64 \<bar>least64\<bar>" by (simp only: of_int_1 mult_1)
  then show ?thesis by (rule rnd64_exact)
qed

lemma f64_grid_pos: assumes "z = of_int k * least64" "0 < z" shows "Fin 0 < f64 z"
proof -
  have "0 < k"
  proof (rule ccontr)
    assume "\<not> 0 < k"
    then have "of_int k \<le> (0 :: rat)" by simp
    then have "of_int k * least64 \<le> 0" using least64_pos by (intro mult_nonpos_nonneg) simp_all
    then show False using assms by simp
  qed
  then have "(1 :: rat) \<le> of_int k" by simp
  then have "1 * least64 \<le> of_int k * least64"  using least64_pos by (intro mult_right_mono) simp_all
  then have "least64 \<le> z" by (simp only: assms(1) mult_1)
  from rnd64_mono [OF this] have "least64 \<le> rnd64 z" by (simp only: rnd64_least)
  then have "0 < rnd64 z" using least64_pos by linarith
  then show ?thesis by (simp add: f64_def Let_def)
qed

lemma double_grid: "f64 r = Fin r \<Longrightarrow> \<exists>k. r = of_int k * least64"
  using rnd64_grid [of r] by (auto simp: f64_def Let_def split: if_splits)

lemma js_sub_sign:
  assumes "f64 x = Fin x" "f64 y = Fin y"
  shows "js_lt (js_sub (Fin x) (Fin y)) (Fin 0) \<longleftrightarrow> x < y" "js_lt (Fin 0) (js_sub (Fin x) (Fin y)) \<longleftrightarrow> y < x"
    "js_le (Fin 0) (js_sub (Fin x) (Fin y)) \<longleftrightarrow> y \<le> x" "js_le (js_sub (Fin x) (Fin y)) (Fin 0) \<longleftrightarrow> x \<le> y"
proof -
  obtain k m where km: "x = of_int k * least64" "y = of_int m * least64"
    using double_grid assms by meson
  have d: "x - y = of_int (k - m) * least64" "y - x = of_int (m - k) * least64"
    by (simp_all add: km left_diff_distrib)
  have pos: "y < x \<Longrightarrow> Fin 0 < f64 (x - y)" using f64_grid_pos [OF d(1)] by simp
  have neg: "f64 (x - y) < Fin 0" if "x < y"
  proof -
    have "Fin 0 < f64 (y - x)" using f64_grid_pos [OF d(2)] that by simp
    moreover have "rnd64 (y - x) = - rnd64 (x - y)" using rnd64_minus [of "x - y"] by simp
    ultimately show ?thesis by (auto simp: f64_def Let_def split: if_splits)
  qed
  have eq: "x = y \<Longrightarrow> f64 (x - y) = Fin 0" by simp
  consider "x < y" | "x = y" | "y < x" by linarith
  then show "js_lt (js_sub (Fin x) (Fin y)) (Fin 0) \<longleftrightarrow> x < y" "js_lt (Fin 0) (js_sub (Fin x) (Fin y)) \<longleftrightarrow> y < x"
    "js_le (Fin 0) (js_sub (Fin x) (Fin y)) \<longleftrightarrow> y \<le> x" "js_le (js_sub (Fin x) (Fin y)) (Fin 0) \<longleftrightarrow> x \<le> y"
    using pos neg eq by (cases; auto simp: js_lt_def js_le_def not_less [symmetric])+
qed

text \<open>Powers of two are doubles, so a literal lies between the powers around it.\<close>

lemma f64_pow2:
  assumes "n \<le> 1022"
  shows "f64 (1 / 2 ^ n) = Fin (1 / 2 ^ n)"
proof -
  define e where "e = - int n"
  define a :: rat where "a = 2 powi e"
  have eq: "1 / 2 ^ n = a" by (simp add: a_def e_def power_int_minus divide_inverse)
  have pos: "0 < a" by (simp add: a_def)
  have "ilog2 a = e"
  proof (rule antisym)
    show "ilog2 a \<le> e"
    proof (rule ccontr)
      assume "\<not> ilog2 a \<le> e"
      then have "(2 :: rat) powi e < 2 powi ilog2 a" by (intro power_int_strict_increasing) auto
      then show False using ilog2_bounds [OF pos] by (simp add: a_def)
    qed
    show "e \<le> ilog2 a"
    proof (rule ccontr)
      assume "\<not> e \<le> ilog2 a"
      then have "(2 :: rat) powi (ilog2 a + 1) \<le> 2 powi e" by (intro power_int_increasing) auto
      then show False using ilog2_bounds [OF pos] by (simp add: a_def)
    qed
  qed
  moreover have "max e (- 1022) = e" using assms by (simp add: e_def)
  ultimately have "ulp64 \<bar>a\<bar> = 2 powi (e - 52)" using pos by (simp only: ulp64_def abs_of_pos)
  moreover have "a = of_int (2 ^ 52) * 2 powi (e - 52)" by (simp add: a_def power_int_diff)
  ultimately have "a = of_int (2 ^ 52) * ulp64 \<bar>a\<bar>" by (simp only:)
  then have r: "rnd64 a = a" by (rule rnd64_exact)
  have "a \<le> 1" unfolding eq [symmetric] by simp
  moreover have "(1 :: rat) < 2 ^ 1024" by (rule one_less_power) simp_all
  ultimately show ?thesis using pos unfolding eq f64_def r Let_def by (auto simp del: one_less_power)
qed

lemma f64_between:
  assumes "n \<le> 1022" "1 / 2 ^ n \<le> x" "x \<le> 1"
  obtains m where "f64 x = Fin m" "1 / 2 ^ n \<le> m" "m \<le> 1"
proof -
  have "Fin (1 / 2 ^ n) \<le> f64 x" using f64_mono [OF assms(2)] by (simp only: f64_pow2 [OF assms(1)])
  moreover have "f64 x \<le> Fin 1" using f64_mono [OF assms(3)] by simp
  moreover have "f64 x \<noteq> NaN" by simp
  ultimately show thesis using that by (cases "f64 x") auto
qed

text \<open>Rounding at most doubles a number from one on.\<close>

lemma rnd64_le_twice:
  assumes "1 \<le> y" shows "rnd64 y \<le> 2 * y"
proof -
  have "0 \<le> ilog2 y" using ilog2_mono [of 1 y] assms ilog2.simps [of 1] by simp
  then have "max (ilog2 y) (- 1022) = ilog2 y" by simp
  then have "rnd_abs y \<le> 2 powi (ilog2 y + 1)" using rnd_abs_le_pow2 [of y] assms by simp
  also have "\<dots> = 2 * 2 powi ilog2 y" by (simp add: power_int_add)
  also have "\<dots> \<le> 2 * y" using ilog2_bounds [of y] assms by simp
  finally show ?thesis using assms by (simp add: rnd64_def)
qed

end
