(* ===== verification/CandleSeries.thy ===== *)
theory CandleSeries
  imports JsNumber "HOL-Library.Multiset"
begin

section \<open>Candle series: normalisation, upsert, merge, gaps\<close>

text \<open>
  Models \<open>services/market-data/candleSeries.ts\<close>.  A series is a list of candles; the functions
  turn provider input (any numbers, any order, duplicates) into a \<^emph>\<open>normalised\<close> series: finite
  prices with \<open>low \<le> open, close \<le> high\<close>, whole-second times, strictly increasing.
  Performance probes around the bodies are omitted; they do not touch the data.
  \<open>maxCandles?: number\<close> is \<open>nat option\<close> (absent, or a whole number; 0 is falsy and means no limit).
\<close>

record market_candle =
  c_time :: jsnum
  c_open :: jsnum
  c_high :: jsnum
  c_low :: jsnum
  c_close :: jsnum
  c_volume :: jsnum
  c_closed :: "bool option"

subsection \<open>Definitions\<close>

definition refreshFirstTime :: "jsnum list \<Rightarrow> jsnum \<Rightarrow> jsnum" where
  "refreshFirstTime refresh a =
     fold (\<lambda>t acc. if js_isFinite t then js_min acc t else acc) refresh a"

definition hasDiscontinuousHistoryTail :: "jsnum list \<Rightarrow> jsnum list \<Rightarrow> jsnum \<Rightarrow> bool" where
  "hasDiscontinuousHistoryTail current refresh expectedStepSeconds =
     (if current = [] \<or> refresh = [] \<or> \<not> js_isFinite expectedStepSeconds
         \<or> js_le expectedStepSeconds (Fin 0)
      then False
      else
        let currentLastTime = last current;
            firstTime = refreshFirstTime refresh PInf
        in if \<not> js_isFinite currentLastTime \<or> \<not> js_isFinite firstTime then False
           else js_lt (js_add currentLastTime expectedStepSeconds) firstTime)"

definition normalizeMarketCandle :: "market_candle \<Rightarrow> market_candle option" where
  "normalizeMarketCandle c =
     (if \<not> js_isFinite (c_time c) \<or> \<not> js_isFinite (c_open c) \<or> \<not> js_isFinite (c_high c)
         \<or> \<not> js_isFinite (c_low c) \<or> \<not> js_isFinite (c_close c)
      then None
      else
        let high = js_max (js_max (c_high c) (c_open c)) (c_close c);
            low = js_min (js_min (c_low c) (c_open c)) (c_close c)
        in Some (c\<lparr>c_time := js_floor (c_time c), c_open := c_open c, c_high := high,
                   c_low := low, c_close := c_close c,
                   c_volume := (if js_isFinite (c_volume c) then c_volume c else Fin 0)\<rparr>))"

text \<open>\<open>maxCandles && xs.length > maxCandles ? xs.slice(xs.length - maxCandles) : xs\<close>\<close>

definition trimRecent :: "nat option \<Rightarrow> 'a list \<Rightarrow> 'a list" where
  "trimRecent maxCandles xs =
     (case maxCandles of
        None \<Rightarrow> xs
      | Some n \<Rightarrow> if n \<noteq> 0 \<and> n < length xs then drop (length xs - n) xs else xs)"

definition sortByTime :: "market_candle list \<Rightarrow> market_candle list" where
  "sortByTime = js_sort (\<lambda>a b. js_sub (c_time a) (c_time b))"

definition byTimeEntries :: "market_candle list \<Rightarrow> (jsnum, market_candle) js_map" where
  "byTimeEntries candles =
     fold (\<lambda>candle m. case normalizeMarketCandle candle of
                         None \<Rightarrow> m
                       | Some n \<Rightarrow> map_set (c_time n) n m) candles []"

definition normalizeMarketCandleSeries ::
    "market_candle list \<Rightarrow> nat option \<Rightarrow> market_candle list" where
  "normalizeMarketCandleSeries candles maxCandles =
     trimRecent maxCandles (sortByTime (map snd (byTimeEntries candles)))"

definition candlesEqual :: "market_candle \<Rightarrow> market_candle \<Rightarrow> bool" where
  "candlesEqual a b \<longleftrightarrow>
     js_eq (c_time a) (c_time b) \<and> js_eq (c_open a) (c_open b) \<and> js_eq (c_high a) (c_high b) \<and>
     js_eq (c_low a) (c_low b) \<and> js_eq (c_close a) (c_close b) \<and>
     js_eq (c_volume a) (c_volume b) \<and> c_closed a = c_closed b"

text \<open>The \<open>a === b\<close> shortcut compares references; it is the flag \<open>sameReference\<close>.\<close>

definition marketCandleSeriesEqual ::
    "bool \<Rightarrow> market_candle list \<Rightarrow> market_candle list \<Rightarrow> bool" where
  "marketCandleSeriesEqual sameReference a b =
     (if sameReference then True
      else if length a \<noteq> length b then False
      else list_all (\<lambda>index. candlesEqual (a ! index) (b ! index)) [0 ..< length a])"

definition upsertMarketCandleIntoSeries ::
    "market_candle list \<Rightarrow> market_candle \<Rightarrow> nat option \<Rightarrow> market_candle list" where
  "upsertMarketCandleIntoSeries series candle maxCandles =
     (case normalizeMarketCandle candle of
        None \<Rightarrow> series
      | Some normalized \<Rightarrow>
          let low = bsearch (\<lambda>mid. js_lt (c_time (series ! mid)) (c_time normalized)) 0 (length series)
          in if low < length series \<and> js_eq (c_time (series ! low)) (c_time normalized) then
               (if candlesEqual (series ! low) normalized then series
                else trimRecent maxCandles
                       (take low series @ [normalized] @ drop (low + 1) series))
             else trimRecent maxCandles (take low series @ [normalized] @ drop low series))"

record candle_gap =
  g_afterTime :: jsnum
  g_beforeTime :: jsnum
  g_missingBars :: jsnum

text \<open>The loop of \<open>findRecentCandleGap\<close>, from position \<open>index\<close> down to 1.\<close>

fun gapLoop :: "jsnum list \<Rightarrow> jsnum \<Rightarrow> jsnum \<Rightarrow> nat \<Rightarrow> candle_gap option" where
  "gapLoop series step maxMissingBars 0 = None"
| "gapLoop series step maxMissingBars (Suc i) =
     (let before = series ! Suc i; after = series ! i; delta = js_sub before after
      in if js_le delta step then gapLoop series step maxMissingBars i
         else
           let missingBars = js_sub (js_round (js_div delta step)) (Fin 1)
           in if js_le missingBars (Fin 0) then gapLoop series step maxMissingBars i
              else if js_lt maxMissingBars missingBars then None
              else Some \<lparr>g_afterTime = after, g_beforeTime = before, g_missingBars = missingBars\<rparr>)"

definition findRecentCandleGap :: "jsnum list \<Rightarrow> jsnum \<Rightarrow> jsnum \<Rightarrow> candle_gap option" where
  "findRecentCandleGap series expectedStepSeconds maxMissingBars =
     (if \<not> js_isFinite expectedStepSeconds \<or> js_le expectedStepSeconds (Fin 0) then None
      else gapLoop series expectedStepSeconds maxMissingBars (length series - 1))"

definition mergeHistoryWithLiveCandles ::
    "market_candle list \<Rightarrow> market_candle list \<Rightarrow> nat option \<Rightarrow> market_candle list" where
  "mergeHistoryWithLiveCandles history live maxCandles =
     (let normalizedHistory = normalizeMarketCandleSeries history None;
          normalizedLive = normalizeMarketCandleSeries live None
      in if normalizedLive = [] then normalizeMarketCandleSeries normalizedHistory maxCandles
         else if normalizedHistory = [] then normalizeMarketCandleSeries normalizedLive maxCandles
         else
           let historyFirstTime = c_time (hd normalizedHistory);
               historyLastTime = c_time (last normalizedHistory);
               byTime0 = map_set_all (map (\<lambda>c. (c_time c, c)) normalizedHistory) [];
               byTime =
                 fold (\<lambda>candle m.
                         let liveFormingBar = (c_closed candle = Some False);
                             outsideHistoryWindow =
                               (js_lt (c_time candle) historyFirstTime
                                \<or> js_lt historyLastTime (c_time candle))
                         in if outsideHistoryWindow
                               \<or> (liveFormingBar \<and> js_le historyLastTime (c_time candle))
                            then map_set (c_time candle) candle m else m)
                      normalizedLive byTime0
           in normalizeMarketCandleSeries (map snd byTime) maxCandles)"

text \<open>
  The chart update plan compares candles by reference: \<open>'ref\<close> is the type of references,
  \<open>timeOf\<close> reads the \<open>time\<close> field of the object.
\<close>

datatype realtime_series_update_plan = Replace | UpdateLatest | Append

definition prefixReferencesMatch :: "'ref list \<Rightarrow> 'ref list \<Rightarrow> nat \<Rightarrow> bool" where
  "prefixReferencesMatch previous next' cnt =
     list_all (\<lambda>index. previous ! index = next' ! index) [0 ..< cnt]"

definition resolveRealtimeSeriesUpdatePlan ::
    "('ref \<Rightarrow> jsnum) \<Rightarrow> 'ref list \<Rightarrow> 'ref list \<Rightarrow> bool \<Rightarrow> realtime_series_update_plan" where
  "resolveRealtimeSeriesUpdatePlan timeOf previous next' sameStyleContext =
     (if \<not> sameStyleContext \<or> previous = [] \<or> next' = [] then Replace
      else
        let previousLast = last previous; nextLast = last next'
        in if length next' = length previous \<and> js_eq (timeOf nextLast) (timeOf previousLast)
              \<and> prefixReferencesMatch previous next' (length next' - 1)
           then UpdateLatest
           else if length next' = length previous + 1
              \<and> next' ! (length next' - 2) = previousLast
              \<and> prefixReferencesMatch previous next' (length previous)
           then Append
           else Replace)"

subsection \<open>Normalised candles\<close>

definition candle_ok :: "market_candle \<Rightarrow> bool" where
  "candle_ok c \<longleftrightarrow>
     js_integral (c_time c) \<and> js_isFinite (c_open c) \<and> js_isFinite (c_high c) \<and>
     js_isFinite (c_low c) \<and> js_isFinite (c_close c) \<and> js_isFinite (c_volume c) \<and>
     c_low c \<le> c_open c \<and> c_low c \<le> c_close c \<and> c_open c \<le> c_high c \<and> c_close c \<le> c_high c"

definition series_ok :: "market_candle list \<Rightarrow> bool" where
  "series_ok xs \<longleftrightarrow> (\<forall>c \<in> set xs. candle_ok c) \<and> strictly_by c_time xs"

text \<open>The abstraction of a series: which candle it shows at a time.\<close>

definition candle_map :: "market_candle list \<Rightarrow> jsnum \<rightharpoonup> market_candle" where
  "candle_map xs = map_of (map (\<lambda>c. (c_time c, c)) xs)"

definition normed :: "market_candle list \<Rightarrow> market_candle list" where
  "normed cs = List.map_filter normalizeMarketCandle cs"

lemma candle_ok_finite: "candle_ok c \<Longrightarrow> js_isFinite (c_time c)"
  by (simp add: candle_ok_def js_integral_def)

lemma normalizeMarketCandle_ok:
  assumes "normalizeMarketCandle c = Some n" shows "candle_ok n"
  using assms
  by (auto simp: normalizeMarketCandle_def candle_ok_def Let_def js_isFinite_iff js_integral_def
      split: if_splits)

lemma normalizeMarketCandle_fix:
  assumes "candle_ok c" shows "normalizeMarketCandle c = Some c"
proof -
  have "js_floor (c_time c) = c_time c" using assms by (simp add: candle_ok_def js_integral_def)
  moreover have "js_max (js_max (c_high c) (c_open c)) (c_close c) = c_high c"
    using assms by (auto simp: candle_ok_def js_max_def max_def)
  moreover have "js_min (js_min (c_low c) (c_open c)) (c_close c) = c_low c"
    using assms by (auto simp: candle_ok_def js_isFinite_iff min_def)
  ultimately show ?thesis
    using assms by (simp add: normalizeMarketCandle_def candle_ok_def js_integral_def)
qed

lemma normed_ok: "c \<in> set (normed cs) \<Longrightarrow> candle_ok c"
  by (auto simp: normed_def map_filter_def normalizeMarketCandle_ok)

lemma normed_simps [simp]:
  "normed [] = []"
  "normed (c # cs) = (case normalizeMarketCandle c of None \<Rightarrow> normed cs | Some n \<Rightarrow> n # normed cs)"
  "normed (cs @ ds) = normed cs @ normed ds"
  by (auto simp: normed_def map_filter_def split: option.splits)

lemma normed_fix: "\<forall>c \<in> set cs. candle_ok c \<Longrightarrow> normed cs = cs"
  by (induction cs) (auto simp: normalizeMarketCandle_fix)

lemma candlesEqual_ok: "candle_ok a \<Longrightarrow> candlesEqual a b \<longleftrightarrow> a = b"
  by (auto simp: candlesEqual_def candle_ok_def js_integral_def js_isFinite_iff js_eq_def
      intro!: market_candle.equality)

subsection \<open>A series is determined by its map\<close>

lemma candle_map_Some: "series_ok xs \<Longrightarrow> candle_map xs t = Some c \<longleftrightarrow> c \<in> set xs \<and> c_time c = t"
  using strictly_by_distinct [of c_time xs]
  by (auto simp: candle_map_def series_ok_def comp_def)

lemma series_eqI:
  assumes "series_ok xs" "series_ok ys" "candle_map xs = candle_map ys" shows "xs = ys"
proof -
  have "set xs = set ys"
    using assms by (metis candle_map_Some subsetI subset_antisym)
  with assms show ?thesis by (auto simp: series_ok_def intro: strictly_by_unique)
qed

lemma series_ok_sort_entries:
  assumes wf: "map_wf m" and keyed: "\<forall>(k, v) \<in> set m. k = c_time v \<and> candle_ok v"
  shows "series_ok (sortByTime (map snd m))" "candle_map (sortByTime (map snd m)) = map_of m"
proof -
  have keys: "map c_time (map snd m) = map fst m" using keyed by auto
  have sort: "sortByTime (map snd m) = sort_key c_time (map snd m)"
    unfolding sortByTime_def using keyed
    by (intro js_sort_by_integral_key) (auto simp: candle_ok_def)
  show ok: "series_ok (sortByTime (map snd m))"
    using keyed wf sort_key_strictly [of c_time "map snd m"] unfolding keys
    by (auto simp: series_ok_def sort)
  have set: "set (sortByTime (map snd m)) = snd ` set m" by (simp add: sort)
  show "candle_map (sortByTime (map snd m)) = map_of m"
  proof
    fix t
    have "candle_map (sortByTime (map snd m)) t = Some c \<longleftrightarrow> map_of m t = Some c" for c
      using keyed wf unfolding candle_map_Some [OF ok] set by (force simp: image_iff)
    then show "candle_map (sortByTime (map snd m)) t = map_of m t"
      by (metis not_Some_eq)
  qed
qed

lemma byTimeEntries_eq:
  "byTimeEntries cs = map_set_all (map (\<lambda>c. (c_time c, c)) (normed cs)) []"
proof -
  have "fold (\<lambda>candle m. case normalizeMarketCandle candle of None \<Rightarrow> m
               | Some n \<Rightarrow> map_set (c_time n) n m) cs m
        = map_set_all (map (\<lambda>c. (c_time c, c)) (normed cs)) m" for m
    by (induction cs arbitrary: m) (auto simp: map_set_all_def split: option.splits)
  then show ?thesis by (simp add: byTimeEntries_def)
qed

lemma keyed_set_all:
  assumes "\<forall>c \<in> set cs. candle_ok c" "\<forall>(k, v) \<in> set m. k = c_time v \<and> candle_ok v" "map_wf m"
  shows "\<forall>(k, v) \<in> set (map_set_all (map (\<lambda>c. (c_time c, c)) cs) m). k = c_time v \<and> candle_ok v"
proof (intro ballI, clarsimp)
  fix k v
  let ?m = "map_set_all (map (\<lambda>c. (c_time c, c)) cs) m"
  assume "(k, v) \<in> set ?m"
  then have "map_of ?m k = Some v" using map_wf_set_all [OF assms(3)] by simp
  then have "(k, v) \<in> set (map (\<lambda>c. (c_time c, c)) cs) \<or> (k, v) \<in> set m"
    by (auto simp: map_laws rev_map dest: map_of_SomeD)
  with assms show "k = c_time v \<and> candle_ok v" by auto
qed

lemma candle_map_snoc: "candle_map (rev (xs @ [c])) = (candle_map (rev xs))(c_time c \<mapsto> c)"
  by (simp add: candle_map_def)

lemma trimRecent_None [simp]: "trimRecent None xs = xs"
  by (simp add: trimRecent_def)

lemma series_ok_trimRecent [inv_intros]: "series_ok xs \<Longrightarrow> series_ok (trimRecent n xs)"
  by (auto simp: trimRecent_def series_ok_def strictly_by_drop dest: in_set_dropD split: option.splits)

lemma length_trimRecent: "length (trimRecent (Some (Suc n)) xs) = min (length xs) (Suc n)"
  by (simp add: trimRecent_def)

text \<open>Normalisation, stated on the abstraction: the last valid input of each time wins.\<close>

lemma normalizeSeries_spec:
  "series_ok (normalizeMarketCandleSeries cs None)"
  "candle_map (normalizeMarketCandleSeries cs None) = candle_map (rev (normed cs))"
proof -
  let ?m = "map_set_all (map (\<lambda>c. (c_time c, c)) (normed cs)) []"
  have wf: "map_wf ?m" by (simp add: map_wf_set_all)
  have keyed: "\<forall>(k, v) \<in> set ?m. k = c_time v \<and> candle_ok v"
    by (intro keyed_set_all) (auto simp: normed_ok)
  show "series_ok (normalizeMarketCandleSeries cs None)"
    using series_ok_sort_entries(1) [OF wf keyed]
    by (simp add: normalizeMarketCandleSeries_def byTimeEntries_eq)
  show "candle_map (normalizeMarketCandleSeries cs None) = candle_map (rev (normed cs))"
    using series_ok_sort_entries(2) [OF wf keyed]
    by (simp add: normalizeMarketCandleSeries_def byTimeEntries_eq map_laws candle_map_def rev_map)
qed

lemma normalizeSeries_trim:
  "normalizeMarketCandleSeries cs n = trimRecent n (normalizeMarketCandleSeries cs None)"
  by (simp add: normalizeMarketCandleSeries_def)

lemma candle_map_rev: "series_ok xs \<Longrightarrow> candle_map (rev xs) = candle_map xs"
  using strictly_by_distinct [of c_time xs] map_of_rev_distinct [of "map (\<lambda>c. (c_time c, c)) xs"]
  by (simp add: candle_map_def series_ok_def comp_def rev_map)

lemma normalizeSeries_fix:
  assumes "series_ok xs" shows "normalizeMarketCandleSeries xs None = xs"
  using assms normalizeSeries_spec [of xs]
  by (intro series_eqI) (auto simp: series_ok_def normed_fix candle_map_rev)

subsection \<open>Upsert\<close>

text \<open>Reference definition: everything before, the candle, everything after.\<close>

definition placeCandle :: "market_candle \<Rightarrow> market_candle list \<Rightarrow> market_candle list" where
  "placeCandle n xs =
     filter (\<lambda>c. c_time c < c_time n) xs @ [n] @ filter (\<lambda>c. c_time n < c_time c) xs"

lemma sorted_takeWhile_filter:
  fixes f :: "'a \<Rightarrow> 'b::linorder"
  assumes "sorted (map f xs)"
  shows "takeWhile (\<lambda>x. f x < t) xs = filter (\<lambda>x. f x < t) xs"
    "dropWhile (\<lambda>x. f x < t) xs = filter (\<lambda>x. t \<le> f x) xs"
  using assms
proof (induction xs)
  case (Cons x xs)
  { case 1 with Cons show ?case by (auto simp: not_less intro!: filter_False [symmetric])
      (meson le_less_trans not_less)
  next case 2 with Cons show ?case by (auto simp: not_less intro!: filter_True [symmetric]) }
qed auto

text \<open>In a normalised series JavaScript's \<open><\<close> on times is the order of times.\<close>

lemma series_time_lt:
  assumes "series_ok xs" "js_isFinite t" "c \<in> set xs"
  shows "js_lt (c_time c) t \<longleftrightarrow> c_time c < t" "js_eq (c_time c) t \<longleftrightarrow> c_time c = t"
  using assms by (simp_all add: series_ok_def candle_ok_finite js_order_finite)

lemma series_split_by:
  assumes "series_ok xs" "js_isFinite t"
  shows "split_by (\<lambda>c. js_lt (c_time c) t) xs"
    "takeWhile (\<lambda>c. js_lt (c_time c) t) xs = filter (\<lambda>c. c_time c < t) xs"
    "dropWhile (\<lambda>c. js_lt (c_time c) t) xs = filter (\<lambda>c. t \<le> c_time c) xs"
proof -
  have sorted: "sorted (map c_time xs)" using assms by (simp add: series_ok_def strictly_by_sorted)
  have tw: "takeWhile (\<lambda>c. js_lt (c_time c) t) xs = takeWhile (\<lambda>c. c_time c < t) xs"
    using series_time_lt(1) [OF assms] by (intro takeWhile_cong) auto
  have dw: "dropWhile (\<lambda>c. js_lt (c_time c) t) xs = dropWhile (\<lambda>c. c_time c < t) xs"
    using series_time_lt(1) [OF assms] by (intro dropWhile_cong) auto
  show "split_by (\<lambda>c. js_lt (c_time c) t) xs"
    using split_by_sorted(1) [OF sorted, of t] series_time_lt(1) [OF assms] set_dropWhileD
    unfolding split_by_def dw by fast
  show "takeWhile (\<lambda>c. js_lt (c_time c) t) xs = filter (\<lambda>c. c_time c < t) xs"
    "dropWhile (\<lambda>c. js_lt (c_time c) t) xs = filter (\<lambda>c. t \<le> c_time c) xs"
    unfolding tw dw by (rule sorted_takeWhile_filter [OF sorted])+
qed

lemma lowerBound_parts:
  assumes "series_ok series" "candle_ok n"
  defines "low \<equiv> bsearch (\<lambda>mid. js_lt (c_time (series ! mid)) (c_time n)) 0 (length series)"
  shows "take low series = filter (\<lambda>c. c_time c < c_time n) series"
    "drop low series = filter (\<lambda>c. c_time n \<le> c_time c) series"
proof -
  note split = series_split_by [OF assms(1) candle_ok_finite [OF assms(2)]]
  have low: "low = length (takeWhile (\<lambda>c. js_lt (c_time c) (c_time n)) series)"
    unfolding low_def by (rule bsearch_list [OF split(1)])
  show "take low series = filter (\<lambda>c. c_time c < c_time n) series"
    unfolding low takeWhile_eq_take [symmetric] by (rule split(2))
  show "drop low series = filter (\<lambda>c. c_time n \<le> c_time c) series"
    unfolding low dropWhile_eq_drop [symmetric] by (rule split(3))
qed

text \<open>The candle found at the insertion point is the only one at that time.\<close>

lemma filter_ge_hit:
  assumes "series_ok series" "filter (\<lambda>c. t \<le> c_time c) series = d # ds" "c_time d = t"
  shows "filter (\<lambda>c. t < c_time c) series = ds"
proof -
  have "strictly_by c_time (d # ds)"
    using assms(1) by (metis assms(2) series_ok_def sorted_wrt_filter sorted_wrt_map)
  then have "filter (\<lambda>c. t < c_time c) (d # ds) = ds"
    using assms(3) by (auto intro: filter_True)
  moreover have "filter (\<lambda>c. t < c_time c) series
      = filter (\<lambda>c. t < c_time c) (filter (\<lambda>c. t \<le> c_time c) series)"
    by (auto intro: filter_cong)
  ultimately show ?thesis using assms(2) by simp
qed

lemma filter_ge_miss:
  assumes "series_ok series"
    "case filter (\<lambda>c. t \<le> c_time c) series of [] \<Rightarrow> True | d # _ \<Rightarrow> c_time d \<noteq> t"
  shows "filter (\<lambda>c. t \<le> c_time c) series = filter (\<lambda>c. t < c_time c) series"
proof -
  have s: "strictly_by c_time (filter (\<lambda>c. t \<le> c_time c) series)"
    using assms(1) by (metis series_ok_def sorted_wrt_filter sorted_wrt_map)
  have "c_time c \<noteq> t" if "c \<in> set series" "t \<le> c_time c" for c
  proof (cases "filter (\<lambda>c. t \<le> c_time c) series")
    case Nil with that show ?thesis by (auto simp: filter_empty_conv)
  next
    case (Cons d ds)
    have "c \<in> set (filter (\<lambda>c. t \<le> c_time c) series)" using that by simp
    moreover have "d \<in> set (filter (\<lambda>c. t \<le> c_time c) series)" unfolding Cons by simp
    then have "t \<le> c_time d" by simp
    ultimately show ?thesis using s assms(2) unfolding Cons by auto
  qed
  then show ?thesis by (intro filter_cong) (auto simp: order_less_le)
qed

lemma upsert_eq:
  assumes ok: "series_ok series" and n: "normalizeMarketCandle candle = Some n"
  shows "upsertMarketCandleIntoSeries series candle m =
     (if n \<in> set series then series else trimRecent m (placeCandle n series))"
    "n \<in> set series \<Longrightarrow> placeCandle n series = series"
proof -
  let ?low = "bsearch (\<lambda>mid. js_lt (c_time (series ! mid)) (c_time n)) 0 (length series)"
  note nok = normalizeMarketCandle_ok [OF n]
  note parts = lowerBound_parts [OF ok nok]
  have split: "series = filter (\<lambda>c. c_time c < c_time n) series @ filter (\<lambda>c. c_time n \<le> c_time c) series"
    using parts by (metis append_take_drop_id)
  have mem: "n \<in> set series \<longleftrightarrow> n \<in> set (filter (\<lambda>c. c_time n \<le> c_time c) series)" by auto
  have "(upsertMarketCandleIntoSeries series candle m =
     (if n \<in> set series then series else trimRecent m (placeCandle n series))) \<and>
    (n \<in> set series \<longrightarrow> placeCandle n series = series)"
  proof (cases "filter (\<lambda>c. c_time n \<le> c_time c) series")
    case Nil
    then have "\<not> ?low < length series" using parts(2) by (metis drop_eq_Nil not_less)
    with Nil mem parts n filter_ge_miss [OF ok, of "c_time n"] show ?thesis
      by (simp add: upsertMarketCandleIntoSeries_def placeCandle_def)
  next
    case (Cons d ds)
    then have low: "?low < length series" and d: "series ! ?low = d" "drop (?low + 1) series = ds"
      using parts(2) by (metis drop_all list.distinct(1) not_le)
        (metis Cons parts(2) drop_all hd_drop_conv_nth list.distinct(1) list.sel(1) not_le,
         metis Cons parts(2) drop_Suc list.sel(3) tl_drop Suc_eq_plus1)
    have "d \<in> set series" using low d(1) by (metis nth_mem)
    then have dok: "candle_ok d" using ok by (simp add: series_ok_def)
    have eq: "js_eq (c_time d) (c_time n) \<longleftrightarrow> c_time d = c_time n"
      using dok nok by (simp add: candle_ok_finite js_order_finite)
    show ?thesis
    proof (cases "c_time d = c_time n")
      case True
      note gt = filter_ge_hit [OF ok Cons True]
      have "n \<in> set ds \<Longrightarrow> False" using arg_cong [OF gt, of set] by force
      then have mem': "n \<in> set series \<longleftrightarrow> d = n" using mem Cons by auto
      have "placeCandle n series = series" if "d = n"
        using split Cons gt that by (simp add: placeCandle_def)
      with True low d n parts(1) gt mem' eq candlesEqual_ok [OF dok, of n] show ?thesis
        by (simp add: upsertMarketCandleIntoSeries_def placeCandle_def)
    next
      case False
      have miss: "filter (\<lambda>c. c_time n \<le> c_time c) series = filter (\<lambda>c. c_time n < c_time c) series"
        using Cons False by (intro filter_ge_miss [OF ok]) simp
      then have "n \<notin> set series" using mem by simp
      with False low d n parts miss eq show ?thesis
        by (simp add: upsertMarketCandleIntoSeries_def placeCandle_def)
    qed
  qed
  then show "upsertMarketCandleIntoSeries series candle m =
     (if n \<in> set series then series else trimRecent m (placeCandle n series))"
    "n \<in> set series \<Longrightarrow> placeCandle n series = series" by auto
qed

lemma placeCandle_spec:
  assumes "series_ok xs" "candle_ok n"
  shows "series_ok (placeCandle n xs)" "candle_map (placeCandle n xs) = (candle_map xs)(c_time n \<mapsto> n)"
proof -
  have s: "strictly_by c_time (filter P xs)" for P
    using assms(1) by (metis series_ok_def sorted_wrt_filter sorted_wrt_map)
  show ok: "series_ok (placeCandle n xs)"
    using assms s by (auto simp: series_ok_def placeCandle_def sorted_wrt_append)
  have placed: "set (placeCandle n xs) = insert n {c \<in> set xs. c_time c \<noteq> c_time n}"
    by (auto simp: placeCandle_def neq_iff)
  show "candle_map (placeCandle n xs) = (candle_map xs)(c_time n \<mapsto> n)"
  proof
    fix t
    have "candle_map (placeCandle n xs) t = Some c \<longleftrightarrow> ((candle_map xs)(c_time n \<mapsto> n)) t = Some c" for c
      using assms(1) unfolding candle_map_Some [OF ok] placed
      by (auto simp: candle_map_Some)
    then show "candle_map (placeCandle n xs) t = ((candle_map xs)(c_time n \<mapsto> n)) t"
      by (metis not_Some_eq)
  qed
qed

lemma upsert_within_limit:
  assumes "series_ok series" "normalizeMarketCandle candle = Some n" "trimRecent m series = series"
  shows "upsertMarketCandleIntoSeries series candle m = trimRecent m (placeCandle n series)"
  using upsert_eq [OF assms(1,2)] assms(3) by auto

subsection \<open>The contract of a candle store\<close>

text \<open>
  What the chart relies on of a store of candles: an upsert changes the candle shown at one time.
  The flat series here and the chunked repository of \<open>candleRepository.ts\<close> both provide it.
\<close>

locale candle_store =
  fixes shown :: "'s \<Rightarrow> jsnum \<rightharpoonup> market_candle"
    and upsert :: "'s \<Rightarrow> market_candle \<Rightarrow> 's"
    and inv :: "'s \<Rightarrow> bool"
  assumes upsert_shown: "inv s \<Longrightarrow> shown (upsert s c) =
      (case normalizeMarketCandle c of None \<Rightarrow> shown s | Some n \<Rightarrow> (shown s)(c_time n \<mapsto> n))"
    and upsert_inv: "inv s \<Longrightarrow> inv (upsert s c)"
begin

definition upsert_all :: "'s \<Rightarrow> market_candle list \<Rightarrow> 's" where
  "upsert_all s cs = fold (\<lambda>c s. upsert s c) cs s"

lemma upsert_all_inv: "inv s \<Longrightarrow> inv (upsert_all s cs)"
  by (induction cs arbitrary: s) (auto simp: upsert_all_def upsert_inv)

lemma upsert_all_shown:
  assumes "inv s" shows "shown (upsert_all s cs) = shown s ++ candle_map (rev (normed cs))"
  using assms
proof (induction cs arbitrary: s)
  case (Cons c cs)
  then have "shown (upsert_all (upsert s c) cs) = shown (upsert s c) ++ candle_map (rev (normed cs))"
    by (simp add: upsert_inv)
  with Cons.prems show ?case
    by (auto simp: upsert_all_def upsert_shown candle_map_def map_add_def fun_eq_iff
        split: option.splits)
qed (simp add: upsert_all_def candle_map_def)

text \<open>Delivery order does not matter for bars of different times.\<close>

lemma upsert_all_order:
  assumes "inv s" "mset cs = mset ds" "distinct (map c_time (normed cs))"
  shows "shown (upsert_all s cs) = shown (upsert_all s ds)"
proof -
  have m: "mset (normed cs) = mset (normed ds)"
    using assms(2) by (simp add: normed_def map_filter_def)
  then have "distinct (map c_time (normed ds))"
    using assms(3) by (metis mset_eq_imp_distinct_iff mset_map)
  with assms(3) m have "candle_map (rev (normed cs)) = candle_map (rev (normed ds))"
    unfolding candle_map_def
    by (subst map_of_inject_set) (auto simp: comp_def rev_map [symmetric] dest!: mset_eq_setD)
  with assms(1) show ?thesis by (simp add: upsert_all_shown)
qed

end

lemma upsert_flat_shown:
  assumes "series_ok s"
  shows "candle_map (upsertMarketCandleIntoSeries s c None) =
      (case normalizeMarketCandle c of None \<Rightarrow> candle_map s | Some n \<Rightarrow> (candle_map s)(c_time n \<mapsto> n))"
  using assms placeCandle_spec(2) [OF assms] normalizeMarketCandle_ok upsert_within_limit [of s c _ None]
  by (auto simp: upsertMarketCandleIntoSeries_def split: option.splits)

lemma upsert_flat_ok [inv_intros]:
  assumes "series_ok s" shows "series_ok (upsertMarketCandleIntoSeries s c m)"
proof (cases "normalizeMarketCandle c")
  case None with assms show ?thesis by (simp add: upsertMarketCandleIntoSeries_def)
next
  case (Some n)
  with assms show ?thesis
    by (simp add: upsert_eq(1) series_ok_trimRecent placeCandle_spec(1) normalizeMarketCandle_ok)
qed

interpretation flat: candle_store candle_map "\<lambda>s c. upsertMarketCandleIntoSeries s c None" series_ok
  by unfold_locales (simp_all add: upsert_flat_shown upsert_flat_ok)

subsection \<open>Properties of the series functions\<close>

lemma firstTime_fold:
  assumes "a \<noteq> NaN"
  shows "refreshFirstTime ts a \<noteq> NaN \<and>
    (x < refreshFirstTime ts a \<longleftrightarrow> x < a \<and> (\<forall>t \<in> set ts. js_isFinite t \<longrightarrow> x < t)) \<and>
    (refreshFirstTime ts a = a \<or> refreshFirstTime ts a \<in> set ts \<and> js_isFinite (refreshFirstTime ts a))"
  using assms unfolding refreshFirstTime_def
proof (induction ts arbitrary: a)
  case (Cons t ts)
  show ?case
  proof (cases "js_isFinite t")
    case True
    then have m: "js_min a t = min a t" "min a t \<noteq> NaN" "min a t = a \<or> min a t = t"
      using Cons.prems by (auto simp: js_min_def js_isFinite_iff min_def)
    show ?thesis using Cons.IH [OF m(2)] True m by auto
  next
    case False then show ?thesis using Cons.IH [OF Cons.prems] by auto
  qed
qed simp

text \<open>
  C1.  Whatever candles a provider delivers, normalising the list gives a series of finite,
  consistent candles at strictly increasing whole-second times, at most \<open>maxCandles\<close> long
  when a limit is given, and without a limit it shows at each time the last valid candle
  delivered for that second.
\<close>

theorem normalizeMarketCandleSeries_correct:
  "series_ok (normalizeMarketCandleSeries cs m) \<and>
   candle_map (normalizeMarketCandleSeries cs None) = candle_map (rev (normed cs)) \<and>
   length (normalizeMarketCandleSeries cs (Some (Suc n))) \<le> Suc n"
proof (intro conjI)
  show "series_ok (normalizeMarketCandleSeries cs m)"
    by (subst normalizeSeries_trim) (intro inv_intros normalizeSeries_spec)
  show "candle_map (normalizeMarketCandleSeries cs None) = candle_map (rev (normed cs))"
    by (rule normalizeSeries_spec)
  show "length (normalizeMarketCandleSeries cs (Some (Suc n))) \<le> Suc n"
    by (subst normalizeSeries_trim) (simp add: length_trimRecent)
qed

text \<open>
  C2.  Upserting realtime candles one by one into a normalised series (binary search and splice)
  gives exactly the series that normalising the old series followed by all the new candles
  would give, in whatever order the bars arrive.
\<close>

theorem upsert_sequence_is_batch_normalisation:
  assumes "series_ok series"
  shows "fold (\<lambda>c s. upsertMarketCandleIntoSeries s c None) cs series
       = normalizeMarketCandleSeries (series @ cs) None"
proof (rule series_eqI)
  let ?r = "fold (\<lambda>c s. upsertMarketCandleIntoSeries s c None) cs series"
  have r: "?r = flat.upsert_all series cs" by (simp add: flat.upsert_all_def)
  show "series_ok ?r" using assms by (simp add: r flat.upsert_all_inv)
  show "series_ok (normalizeMarketCandleSeries (series @ cs) None)" by (rule normalizeSeries_spec)
  have "candle_map (normalizeMarketCandleSeries (series @ cs) None)
      = candle_map (rev series) ++ candle_map (rev (normed cs))"
    using assms unfolding normalizeSeries_spec
    by (simp add: normed_fix series_ok_def candle_map_def)
  with assms show "candle_map ?r = candle_map (normalizeMarketCandleSeries (series @ cs) None)"
    by (simp add: r flat.upsert_all_shown candle_map_rev)
qed

text \<open>
  An upsert under a limit keeps the series normalised and within the limit, and drops the
  oldest bars only: the result is the most recent \<open>maxCandles\<close> bars of the unlimited upsert.
\<close>

theorem upsert_limit_keeps_most_recent:
  assumes "series_ok series" "length series \<le> Suc n"
  shows "upsertMarketCandleIntoSeries series c (Some (Suc n))
       = trimRecent (Some (Suc n)) (upsertMarketCandleIntoSeries series c None) \<and>
    length (upsertMarketCandleIntoSeries series c (Some (Suc n))) \<le> Suc n"
proof (intro conjI)
  have t: "trimRecent (Some (Suc n)) series = series" using assms(2) by (simp add: trimRecent_def)
  show eq: "upsertMarketCandleIntoSeries series c (Some (Suc n))
       = trimRecent (Some (Suc n)) (upsertMarketCandleIntoSeries series c None)"
  proof (cases "normalizeMarketCandle c")
    case None with t show ?thesis by (simp add: upsertMarketCandleIntoSeries_def)
  next
    case (Some m)
    with assms t show ?thesis by (simp add: upsert_within_limit)
  qed
  show "length (upsertMarketCandleIntoSeries series c (Some (Suc n))) \<le> Suc n"
    unfolding eq by (simp add: length_trimRecent)
qed

text \<open>
  A history page is taken for a discontinuous tail exactly when both pages hold something, the
  step is a positive finite number, and the page has a finite time and every such time
  lies more than one step after the last bar.
\<close>

theorem hasDiscontinuousHistoryTail_iff:
  assumes "js_isFinite (last current)"
  shows "hasDiscontinuousHistoryTail current refresh step \<longleftrightarrow>
    current \<noteq> [] \<and> js_isFinite step \<and> Fin 0 < step \<and> (\<exists>t \<in> set refresh. js_isFinite t) \<and>
    (\<forall>t \<in> set refresh. js_isFinite t \<longrightarrow> js_add (last current) step < t)"
proof -
  let ?r = "refreshFirstTime refresh PInf"
  obtain l where l: "last current = Fin l" using assms by (auto simp: js_isFinite_iff)
  have pinf: "js_isFinite ?r \<longleftrightarrow> (\<exists>t \<in> set refresh. js_isFinite t)"
  proof
    assume "js_isFinite ?r"
    then show "\<exists>t \<in> set refresh. js_isFinite t"
      using firstTime_fold [of PInf refresh] by (auto simp: js_isFinite_iff)
  next
    assume "\<exists>t \<in> set refresh. js_isFinite t"
    then obtain t where t: "t \<in> set refresh" "js_isFinite t" by auto
    have "\<not> t < ?r" using t firstTime_fold [of PInf refresh t] by auto
    then have "?r \<noteq> PInf" using t by (auto simp: js_isFinite_iff)
    then show "js_isFinite ?r" using firstTime_fold [of PInf refresh] by auto
  qed
  have sum: "js_add (last current) step \<noteq> NaN" if "js_isFinite step"
    using that by (auto simp: l js_isFinite_iff)
  have lt: "js_lt x ?r \<longleftrightarrow> (\<forall>t \<in> set refresh. js_isFinite t \<longrightarrow> x < t)"
    if "x \<noteq> NaN" "js_isFinite ?r" for x
    using that firstTime_fold [of PInf refresh x] by (auto simp: js_lt_def js_isFinite_iff)
  show ?thesis
    using sum pinf lt [OF sum] by (auto simp: hasDiscontinuousHistoryTail_def l js_isFinite_iff not_le)
qed

subsection \<open>Merging history with live bars\<close>

text \<open>The live bars that replace history: outside its window, or still forming at its end.\<close>

definition live_overrides :: "market_candle list \<Rightarrow> market_candle \<Rightarrow> bool" where
  "live_overrides history c \<longleftrightarrow>
     history = [] \<or> c_time c < c_time (hd history) \<or> c_time (last history) < c_time c \<or>
     (c_closed c = Some False \<and> c_time (last history) \<le> c_time c)"

lemma fold_conditional_set:
  "fold (\<lambda>c m. if P c then map_set (c_time c) c m else m) cs m
     = map_set_all (map (\<lambda>c. (c_time c, c)) (filter P cs)) m"
  by (induction cs arbitrary: m) (auto simp: map_set_all_def)

lemma candle_map_entries:
  assumes "map_wf m" "\<forall>(k, v) \<in> set m. k = c_time v \<and> candle_ok v"
  shows "candle_map (normalizeMarketCandleSeries (map snd m) None) = map_of m"
proof -
  have "map (\<lambda>c. (c_time c, c)) (map snd m) = m"
    using assms(2) by (induction m) auto
  moreover have "normed (map snd m) = map snd m" using assms(2) by (intro normed_fix) auto
  ultimately show ?thesis
    using assms(1) map_of_rev_distinct [of m] unfolding normalizeSeries_spec
    by (simp add: rev_map [symmetric] candle_map_def del: map_map)
qed

lemma candle_map_filter: "candle_map (rev xs) = candle_map (rev ys) \<Longrightarrow> series_ok xs \<Longrightarrow> series_ok ys \<Longrightarrow> xs = ys"
  by (simp add: series_eqI candle_map_rev)

lemma series_ok_filter: "series_ok xs \<Longrightarrow> series_ok (filter P xs)"
  by (auto simp: series_ok_def) (metis sorted_wrt_filter sorted_wrt_map)

lemma merge_shown:
  assumes "normalizeMarketCandleSeries h None = H" "normalizeMarketCandleSeries l None = L"
  shows "candle_map (mergeHistoryWithLiveCandles h l None)
       = candle_map H ++ candle_map (filter (live_overrides H) L)"
proof -
  have H: "series_ok H" and L: "series_ok L" using assms normalizeSeries_spec(1) by blast+
  consider "L = []" | "L \<noteq> []" "H = []" | "L \<noteq> []" "H \<noteq> []" by blast
  then show ?thesis
  proof cases
    case 1 with assms H show ?thesis
      by (simp add: mergeHistoryWithLiveCandles_def normalizeSeries_fix candle_map_def)
  next
    case 2 with assms L show ?thesis
      by (simp add: mergeHistoryWithLiveCandles_def normalizeSeries_fix candle_map_def live_overrides_def)
  next
    case 3
    let ?key = "map (\<lambda>c. (c_time c, c))"
    let ?P = "\<lambda>c. (js_lt (c_time c) (c_time (hd H)) \<or> js_lt (c_time (last H)) (c_time c))
      \<or> c_closed c = Some False \<and> js_le (c_time (last H)) (c_time c)"
    let ?m = "map_set_all (?key (filter ?P L)) (map_set_all (?key H) [])"
    have fin: "js_isFinite (c_time (hd H))" "js_isFinite (c_time (last H))"
      using H 3 by (auto simp: series_ok_def candle_ok_finite)
    have P: "filter ?P L = filter (live_overrides H) L"
      using L fin 3 by (intro filter_cong)
        (auto simp: series_ok_def candle_ok_finite js_order_finite live_overrides_def)
    have wf0: "map_wf (map_set_all (?key H) [])" by (simp add: map_wf_set_all)
    have keyed0: "\<forall>(k, v) \<in> set (map_set_all (?key H) []). k = c_time v \<and> candle_ok v"
      using H by (intro keyed_set_all) (auto simp: series_ok_def)
    have "mergeHistoryWithLiveCandles h l None = normalizeMarketCandleSeries (map snd ?m) None"
      using assms 3 by (simp add: mergeHistoryWithLiveCandles_def Let_def fold_conditional_set)
    then have "candle_map (mergeHistoryWithLiveCandles h l None) = map_of ?m"
      using L candle_map_entries [OF map_wf_set_all [OF wf0] keyed_set_all [OF _ keyed0 wf0]]
      by (simp add: series_ok_def)
    also have "\<dots> = candle_map (rev H) ++ candle_map (rev (filter ?P L))"
      by (simp add: map_laws candle_map_def rev_map)
    finally show ?thesis
      using H L by (simp only: P candle_map_rev series_ok_filter)
  qed
qed

lemma merge_trim: "mergeHistoryWithLiveCandles h l m = trimRecent m (mergeHistoryWithLiveCandles h l None)"
  by (simp add: mergeHistoryWithLiveCandles_def Let_def normalizeSeries_trim [of _ m])

lemma merge_ok [inv_intros]: "series_ok (mergeHistoryWithLiveCandles h l m)"
proof -
  have "series_ok (mergeHistoryWithLiveCandles h l None)"
    by (simp add: mergeHistoryWithLiveCandles_def Let_def normalizeSeries_spec)
  then show ?thesis by (subst merge_trim) (rule series_ok_trimRecent)
qed

text \<open>
  Merging a refreshed history page with the live bars gives a normalised series, cut to
  the most recent \<open>maxCandles\<close>, that shows the history except where a live bar may override it:
  outside the window the history covers, or a still forming bar at the window's end.
\<close>

theorem mergeHistoryWithLiveCandles_correct:
  "series_ok (mergeHistoryWithLiveCandles h l m) \<and>
   mergeHistoryWithLiveCandles h l m = trimRecent m (mergeHistoryWithLiveCandles h l None) \<and>
   candle_map (mergeHistoryWithLiveCandles h l None) =
     candle_map (normalizeMarketCandleSeries h None) ++
     candle_map (filter (live_overrides (normalizeMarketCandleSeries h None))
                   (normalizeMarketCandleSeries l None))"
  using merge_ok [of h l m] merge_trim [of h l m] merge_shown [of h _ l] by simp

subsection \<open>Gaps\<close>

lemma js_round_of_int [simp]: "js_round (Fin (of_int n)) = Fin (of_int n)"
proof -
  have "\<lfloor>of_int n + 1 / 2 :: rat\<rfloor> = n" by linarith
  then show ?thesis by (simp add: js_round_def)
qed

definition missingBetween :: "jsnum list \<Rightarrow> jsnum \<Rightarrow> nat \<Rightarrow> jsnum" where
  "missingBetween series step i =
     js_sub (js_round (js_div (js_sub (series ! Suc i) (series ! i)) step)) (Fin 1)"

definition isGapAt :: "jsnum list \<Rightarrow> jsnum \<Rightarrow> nat \<Rightarrow> bool" where
  "isGapAt series step i \<longleftrightarrow>
     \<not> js_le (js_sub (series ! Suc i) (series ! i)) step \<and> \<not> js_le (missingBetween series step i) (Fin 0)"

lemma gapLoop_latest:
  "gapLoop series step mx n =
     (case List.find (isGapAt series step) (rev [0 ..< n]) of
        None \<Rightarrow> None
      | Some i \<Rightarrow> if js_lt mx (missingBetween series step i) then None
                  else Some \<lparr>g_afterTime = series ! i, g_beforeTime = series ! Suc i,
                             g_missingBars = missingBetween series step i\<rparr>)"
  by (induction n) (auto simp: Let_def isGapAt_def missingBetween_def)

text \<open>On a grid of whole bars the rounded arithmetic counts the missing bars exactly.\<close>

lemma missingBars_exact:
  fixes step k a :: int
  assumes "0 < step" "0 \<le> k" "k * step < 2 ^ 53"
  shows "js_sub (Fin (of_int (a + k * step))) (Fin (of_int a)) = Fin (of_int (k * step))"
    "js_div (Fin (of_int (k * step))) (Fin (of_int step)) = Fin (of_int k)"
    "js_sub (js_round (Fin (of_int k))) (Fin 1) = Fin (of_int (k - 1))"
proof -
  have "k \<le> k * step" using assms by (metis mult_cancel_left1 mult_left_mono zless_add1_eq
        int_one_le_iff_zero_less mult.right_neutral)
  then have k: "\<bar>k\<bar> < 2 ^ 53" "\<bar>k - 1\<bar> < 2 ^ 53" "\<bar>k * step\<bar> < 2 ^ 53" using assms by auto
  show "js_sub (Fin (of_int (a + k * step))) (Fin (of_int a)) = Fin (of_int (k * step))"
    using f64_of_int [OF k(3)] by simp
  show "js_div (Fin (of_int (k * step))) (Fin (of_int step)) = Fin (of_int k)"
    using assms f64_of_int [OF k(1)] by simp
  show "js_sub (js_round (Fin (of_int k))) (Fin 1) = Fin (of_int (k - 1))"
    using f64_of_int [OF k(2)] by simp
qed

text \<open>A series on the grid \<open>base + k * step\<close>, as every timeframe's bars are.\<close>

definition gridTimes :: "int \<Rightarrow> int \<Rightarrow> int list \<Rightarrow> jsnum list" where
  "gridTimes base step ks = map (\<lambda>k. Fin (of_int (base + k * step))) ks"

lemma grid_gap:
  assumes "0 < step" "Suc i < length ks" "ks ! i < ks ! Suc i" "(ks ! Suc i - ks ! i) * step < 2 ^ 53"
  shows "missingBetween (gridTimes base step ks) (Fin (of_int step)) i = Fin (of_int (ks ! Suc i - ks ! i - 1))"
    "isGapAt (gridTimes base step ks) (Fin (of_int step)) i \<longleftrightarrow> 2 \<le> ks ! Suc i - ks ! i"
proof -
  let ?d = "ks ! Suc i - ks ! i"
  have b: "base + ks ! Suc i * step = (base + ks ! i * step) + ?d * step" by (simp add: algebra_simps)
  have sub: "js_sub (gridTimes base step ks ! Suc i) (gridTimes base step ks ! i) = Fin (of_int (?d * step))"
    using missingBars_exact(1) [of step ?d "base + ks ! i * step"] assms
    unfolding b [symmetric] by (simp only: gridTimes_def nth_map Suc_lessD)
  show m: "missingBetween (gridTimes base step ks) (Fin (of_int step)) i = Fin (of_int (?d - 1))"
    using missingBars_exact(2,3) [of step ?d] assms unfolding missingBetween_def sub by simp
  have "of_int (?d * step) \<le> (of_int step :: rat) \<longleftrightarrow> ?d * step \<le> 1 * step" by (simp only: of_int_le_iff mult_1)
  also have "\<dots> \<longleftrightarrow> ?d \<le> 1" using assms(1) by (rule mult_le_cancel_right_pos)
  finally have "of_int (?d * step) \<le> (of_int step :: rat) \<longleftrightarrow> ?d \<le> 1" .
  then show "isGapAt (gridTimes base step ks) (Fin (of_int step)) i \<longleftrightarrow> 2 \<le> ?d"
    unfolding isGapAt_def m sub by (auto simp: of_int_diff simp del: of_int_mult)
qed

text \<open>
  On bars of a regular grid, \<open>findRecentCandleGap\<close> reports the most recent pair of
  neighbours that are not one step apart, with the exact number of bars missing between
  them, and reports nothing when there is no such pair or when the most recent one
  misses more than \<open>maxMissingBars\<close>.
\<close>

theorem findRecentCandleGap_on_grid:
  assumes "0 < step" "sorted_wrt (<) ks"
    and "\<forall>i. Suc i < length ks \<longrightarrow> (ks ! Suc i - ks ! i) * step < 2 ^ 53"
  shows "findRecentCandleGap (gridTimes base step ks) (Fin (of_int step)) (Fin (of_int mx)) =
     (case List.find (\<lambda>i. 2 \<le> ks ! Suc i - ks ! i) (rev [0 ..< length ks - 1]) of
        None \<Rightarrow> None
      | Some i \<Rightarrow>
          if mx < ks ! Suc i - ks ! i - 1 then None
          else Some \<lparr>g_afterTime = Fin (of_int (base + ks ! i * step)),
                     g_beforeTime = Fin (of_int (base + ks ! Suc i * step)),
                     g_missingBars = Fin (of_int (ks ! Suc i - ks ! i - 1))\<rparr>)"
proof -
  let ?s = "gridTimes base step ks"
  have lt: "ks ! i < ks ! Suc i" if "Suc i < length ks" for i
    using assms(2) that by (simp add: sorted_wrt_nth_less)
  note gap = grid_gap [OF assms(1) _ lt assms(3) [rule_format], of _ base]
  have find: "List.find (isGapAt ?s (Fin (of_int step))) (rev [0 ..< length ks - 1])
            = List.find (\<lambda>i. 2 \<le> ks ! Suc i - ks ! i) (rev [0 ..< length ks - 1])"
    using gap(2) by (intro find_cong) auto
  have len: "length ?s = length ks" by (simp add: gridTimes_def)
  show ?thesis
  proof (cases "List.find (\<lambda>i. 2 \<le> ks ! Suc i - ks ! i) (rev [0 ..< length ks - 1])")
    case None
    with find show ?thesis using assms(1)
      by (simp add: findRecentCandleGap_def gapLoop_latest len)
  next
    case (Some i)
    then have "i \<in> set (rev [0 ..< length ks - 1])" by (metis find_Some_iff nth_mem)
    then have "Suc i < length ks" by auto
    then have "?s ! i = Fin (of_int (base + ks ! i * step))"
      "?s ! Suc i = Fin (of_int (base + ks ! Suc i * step))"
      by (simp_all add: gridTimes_def)
    with Some find gap(1) [of i] \<open>Suc i < length ks\<close> show ?thesis using assms(1)
      by (simp add: findRecentCandleGap_def gapLoop_latest len del: of_int_diff of_int_add of_int_mult)
  qed
qed

theorem findRecentCandleGap_on_grid_witness:
  "findRecentCandleGap (gridTimes 1000 60 [0, 1, 4, 5]) (Fin 60) (Fin 50)
     = Some \<lparr>g_afterTime = Fin 1060, g_beforeTime = Fin 1240, g_missingBars = Fin 2\<rparr>"
proof -
  have "\<forall>i. Suc i < length [0, 1, 4, 5 :: int] \<longrightarrow> ([0, 1, 4, 5] ! Suc i - [0, 1, 4, 5] ! i) * 60 < (2 ^ 53 :: int)"
    by (auto simp: less_Suc_eq)
  from findRecentCandleGap_on_grid [OF _ _ this, of 1000 50] show ?thesis
    by (simp add: upt_rec)
qed

subsection \<open>The chart update plan\<close>

text \<open>What each plan makes the chart do with the series it already draws.\<close>

fun applyPlan :: "realtime_series_update_plan \<Rightarrow> 'ref list \<Rightarrow> 'ref list \<Rightarrow> 'ref list" where
  "applyPlan Replace drawn next' = next'"
| "applyPlan UpdateLatest drawn next' = butlast drawn @ [last next']"
| "applyPlan Append drawn next' = drawn @ [last next']"

lemma prefixReferencesMatch_take:
  "n \<le> length xs \<Longrightarrow> n \<le> length ys \<Longrightarrow> prefixReferencesMatch xs ys n \<longleftrightarrow> take n xs = take n ys"
  by (auto simp: prefixReferencesMatch_def list_all_iff list_eq_iff_nth_eq)

text \<open>
  The O(1) chart updates are safe: whatever plan is chosen, applying it to the series the
  chart draws gives the next series, and a plan other than a full replace is chosen
  for an appended bar and for a change of the last bar only.
\<close>

theorem resolveRealtimeSeriesUpdatePlan_sound:
  "applyPlan (resolveRealtimeSeriesUpdatePlan timeOf previous next' ctx) previous next' = next' \<and>
   (resolveRealtimeSeriesUpdatePlan timeOf previous next' ctx = Append \<longleftrightarrow>
      ctx \<and> previous \<noteq> [] \<and> (\<exists>x. next' = previous @ [x])) \<and>
   (resolveRealtimeSeriesUpdatePlan timeOf previous next' ctx = UpdateLatest \<longleftrightarrow>
      ctx \<and> previous \<noteq> [] \<and> (\<exists>x. next' = butlast previous @ [x] \<and> js_eq (timeOf x) (timeOf (last previous))))"
proof (cases "next' = [] \<or> previous = []")
  case True
  then show ?thesis by (auto simp: resolveRealtimeSeriesUpdatePlan_def)
next
  case False
  then obtain ys y ps p where eq: "next' = ys @ [y]" "previous = ps @ [p]"
    by (metis append_butlast_last_id)
  have upd: "length next' = length previous \<and> js_eq (timeOf (last next')) (timeOf (last previous)) \<and>
      prefixReferencesMatch previous next' (length next' - 1) \<longleftrightarrow> ys = ps \<and> js_eq (timeOf y) (timeOf p)"
    by (auto simp: eq prefixReferencesMatch_take)
  have app: "length next' = length previous + 1 \<and> next' ! (length next' - 2) = last previous \<and>
      prefixReferencesMatch previous next' (length previous) \<longleftrightarrow> ys = previous"
    by (auto simp: eq prefixReferencesMatch_take nth_append)
  show ?thesis
    using False upd app by (auto simp: resolveRealtimeSeriesUpdatePlan_def Let_def eq)
qed

text \<open>
  Comparing two series value by value is exact on normalised series: they compare equal
  exactly when they are the same list of candles.
\<close>

theorem marketCandleSeriesEqual_exact:
  assumes "series_ok a"
  shows "marketCandleSeriesEqual False a b \<longleftrightarrow> a = b"
proof -
  have "candlesEqual (a ! i) (b ! i) \<longleftrightarrow> a ! i = b ! i" if "i < length a" for i
    using assms that by (simp add: series_ok_def candlesEqual_ok)
  then have "list_all (\<lambda>i. candlesEqual (a ! i) (b ! i)) [0 ..< length a]
      \<longleftrightarrow> list_all (\<lambda>i. a ! i = b ! i) [0 ..< length a]"
    by (simp add: list_all_iff)
  moreover have "a = b \<longleftrightarrow> length a = length b \<and> list_all (\<lambda>i. a ! i = b ! i) [0 ..< length a]"
    by (subst list_eq_iff_nth_eq) (auto simp: list_all_iff)
  ultimately show ?thesis unfolding marketCandleSeriesEqual_def
    by (simp only: if_False if_bool_eq_conj) blast
qed

subsection \<open>Witnesses\<close>

text \<open>A bar at a whole second with one price, for concrete instances.\<close>

definition flatBar :: "int \<Rightarrow> int \<Rightarrow> market_candle" where
  "flatBar t p = \<lparr>c_time = Fin (of_int t), c_open = Fin (of_int p), c_high = Fin (of_int p),
     c_low = Fin (of_int p), c_close = Fin (of_int p), c_volume = Fin 0, c_closed = None\<rparr>"

lemma flatBar_ok [simp]: "candle_ok (flatBar t p)"
  by (simp add: candle_ok_def flatBar_def js_integral_def)

lemma flatBar_simps [simp]:
  "c_time (flatBar t p) = Fin (of_int t)" "flatBar t p = flatBar t' p' \<longleftrightarrow> t = t' \<and> p = p'"
  by (simp_all add: flatBar_def)

lemma normalize_flatBar [simp]: "normalizeMarketCandle (flatBar t p) = Some (flatBar t p)"
  by (simp add: normalizeMarketCandle_fix)

lemma series_ok_flatBars:
  "series_ok (map (\<lambda>(t, p). flatBar t p) xs) \<longleftrightarrow> sorted_wrt (<) (map fst xs)"
  by (auto simp: series_ok_def sorted_wrt_map split_def)

theorem upsert_sequence_is_batch_normalisation_witness:
  "series_ok [flatBar 60 5] \<and>
   fold (\<lambda>c s. upsertMarketCandleIntoSeries s c None) [flatBar 180 7, flatBar 120 6] [flatBar 60 5]
     = normalizeMarketCandleSeries [flatBar 60 5, flatBar 180 7, flatBar 120 6] None"
proof -
  have "series_ok [flatBar 60 5]" by (simp add: series_ok_def)
  with upsert_sequence_is_batch_normalisation [OF this, of "[flatBar 180 7, flatBar 120 6]"]
  show ?thesis by simp
qed

theorem upsert_limit_keeps_most_recent_witness:
  "upsertMarketCandleIntoSeries [flatBar 60 5, flatBar 120 6] (flatBar 180 7) (Some 2)
     = trimRecent (Some 2) (upsertMarketCandleIntoSeries [flatBar 60 5, flatBar 120 6] (flatBar 180 7) None)"
proof -
  have "series_ok [flatBar 60 5, flatBar 120 6]" by (simp add: series_ok_def)
  from upsert_limit_keeps_most_recent [OF this, of 1 "flatBar 180 7"] show ?thesis
    by (simp add: numeral_2_eq_2)
qed

theorem hasDiscontinuousHistoryTail_iff_witness:
  "hasDiscontinuousHistoryTail [Fin 60, Fin 120] [Fin 300, Fin 360] (Fin 60)"
proof -
  have "f64 180 = Fin 180" using f64_of_int [of 180] by simp
  with hasDiscontinuousHistoryTail_iff [of "[Fin 60, Fin 120]" "[Fin 300, Fin 360]" "Fin 60"]
  show ?thesis by simp
qed

theorem marketCandleSeriesEqual_exact_witness:
  "series_ok [flatBar 60 5] \<and> \<not> marketCandleSeriesEqual False [flatBar 60 5] [flatBar 60 6]"
proof -
  have "series_ok [flatBar 60 5]" by (simp add: series_ok_def)
  with marketCandleSeriesEqual_exact [OF this, of "[flatBar 60 6]"] show ?thesis by simp
qed

end
