(* ===== verification/CandleRepository.thy ===== *)
theory CandleRepository
  imports CandleSeries
begin

section \<open>The chunked candle repository\<close>

text \<open>
  Models \<open>services/market-data/candleRepository.ts\<close>: a series stored as chunks of at most 256
  candles with their start offsets, searched by chunk and then inside the chunk, rebuilt
  with the unchanged chunks shared.  Every operation is shown to do on the chunks what its
  counterpart of \<open>candleSeries.ts\<close> does on the flat list, which
  \<open>materializeCandleRepository\<close> recovers (its cache is a memo of a pure function).
  Freezing arrays and objects is omitted: the model's values are immutable.

  Sharing is observable only through \<open>===\<close>.  In \<open>mergeHistoryIntoCandleRepository\<close> a candle
  is either an object of the current repository (\<open>Kept\<close>; its times are distinct, so the
  value identifies the object) or one that normalising the history page has just created (\<open>Fresh\<close>).
\<close>

subsection \<open>Definitions\<close>

definition DEFAULT_CANDLE_CHUNK_SIZE :: nat where
  "DEFAULT_CANDLE_CHUNK_SIZE = 256"

record candle_repository =
  r_chunks :: "market_candle list list"
  r_chunkStarts :: "nat list"
  r_length :: nat
  r_revision :: nat
  r_firstTime :: "jsnum option"
  r_lastTime :: "jsnum option"
  r_lastAccess :: jsnum

fun chunkStartsFrom :: "nat \<Rightarrow> 'a list list \<Rightarrow> nat list" where
  "chunkStartsFrom n [] = []"
| "chunkStartsFrom n (chunk # chunks) = n # chunkStartsFrom (n + length chunk) chunks"

definition repositoryFromChunks ::
    "market_candle list list \<Rightarrow> nat \<Rightarrow> jsnum \<Rightarrow> candle_repository" where
  "repositoryFromChunks chunks revision lastAccess =
     (let nonEmpty = filter (\<lambda>chunk. chunk \<noteq> []) chunks
      in \<lparr>r_chunks = nonEmpty,
          r_chunkStarts = chunkStartsFrom 0 nonEmpty,
          r_length = sum_list (map length nonEmpty),
          r_revision = revision,
          r_firstTime = (case nonEmpty of (c # _) # _ \<Rightarrow> Some (c_time c) | _ \<Rightarrow> None),
          r_lastTime = (if nonEmpty = [] then None else Some (c_time (last (last nonEmpty)))),
          r_lastAccess = lastAccess\<rparr>)"

function chunksFromSorted :: "'a list \<Rightarrow> 'a list list" where
  "chunksFromSorted xs =
     (if xs = [] then []
      else take DEFAULT_CANDLE_CHUNK_SIZE xs # chunksFromSorted (drop DEFAULT_CANDLE_CHUNK_SIZE xs))"
  by pat_completeness auto
termination
  by (relation "measure length") (auto simp: DEFAULT_CANDLE_CHUNK_SIZE_def)

declare chunksFromSorted.simps [simp del]

text \<open>The loop that skips whole chunks: what remains to drop, and the chunks left.\<close>

fun skipChunks :: "nat \<Rightarrow> 'a list list \<Rightarrow> nat \<times> 'a list list" where
  "skipChunks remaining [] = (remaining, [])"
| "skipChunks remaining (chunk # chunks) =
     (if length chunk \<le> remaining then skipChunks (remaining - length chunk) chunks
      else (remaining, chunk # chunks))"

definition trimChunks :: "'a list list \<Rightarrow> nat \<Rightarrow> nat option \<Rightarrow> 'a list list" where
  "trimChunks chunks len maxCandles =
     (case maxCandles of
        None \<Rightarrow> chunks
      | Some m \<Rightarrow>
          if m = 0 \<or> len \<le> m then chunks
          else case skipChunks (len - m) chunks of
                 (remaining, []) \<Rightarrow> []
               | (remaining, chunk # rest) \<Rightarrow>
                   if 0 < remaining then drop remaining chunk # rest else chunk # rest)"

definition createCandleRepository ::
    "market_candle list \<Rightarrow> nat option \<Rightarrow> jsnum \<Rightarrow> candle_repository" where
  "createCandleRepository candles maxCandles lastAccess =
     repositoryFromChunks (chunksFromSorted (normalizeMarketCandleSeries candles maxCandles))
       1 lastAccess"

definition materializeCandleRepository :: "candle_repository \<Rightarrow> market_candle list" where
  "materializeCandleRepository r = concat (r_chunks r)"

definition findChunkIndex :: "candle_repository \<Rightarrow> jsnum \<Rightarrow> nat" where
  "findChunkIndex r time =
     bsearch (\<lambda>mid. js_lt (case r_chunks r ! mid of [] \<Rightarrow> PInf | chunk \<Rightarrow> c_time (last chunk)) time)
       0 (length (r_chunks r))"

definition lowerBound :: "market_candle list \<Rightarrow> jsnum \<Rightarrow> nat" where
  "lowerBound chunk time = bsearch (\<lambda>mid. js_lt (c_time (chunk ! mid)) time) 0 (length chunk)"

definition findCandleIndexByTime :: "candle_repository \<Rightarrow> jsnum \<Rightarrow> int" where
  "findCandleIndexByTime r time =
     (let chunkIndex = findChunkIndex r time
      in if length (r_chunks r) \<le> chunkIndex then - 1
         else
           let chunk = r_chunks r ! chunkIndex; itemIndex = lowerBound chunk time
           in if itemIndex < length chunk \<and> js_eq (c_time (chunk ! itemIndex)) time
              then int (r_chunkStarts r ! chunkIndex + itemIndex) else - 1)"

definition candleAtRepositoryIndex :: "candle_repository \<Rightarrow> int \<Rightarrow> market_candle option" where
  "candleAtRepositoryIndex r index =
     (if index < 0 \<or> int (r_length r) \<le> index then None
      else
        let low = bsearch (\<lambda>mid. int (r_chunkStarts r ! mid) \<le> index) 0 (length (r_chunkStarts r))
        in if low = 0 then None
           else
             let chunkIndex = low - 1; offset = nat (index - int (r_chunkStarts r ! chunkIndex))
             in if chunkIndex < length (r_chunks r) \<and> offset < length (r_chunks r ! chunkIndex)
                then Some (r_chunks r ! chunkIndex ! offset) else None)"

text \<open>The common tail of the upsert: recount, trim, rebuild with the next revision.\<close>

definition finishUpsert ::
    "candle_repository \<Rightarrow> nat option \<Rightarrow> jsnum \<Rightarrow> market_candle list list \<Rightarrow> candle_repository" where
  "finishUpsert r maxCandles lastAccess chunks =
     (let nextLength = sum_list (map length chunks)
      in repositoryFromChunks (trimChunks chunks nextLength maxCandles) (r_revision r + 1) lastAccess)"

definition upsertCandleRepository ::
    "candle_repository \<Rightarrow> market_candle \<Rightarrow> nat option \<Rightarrow> jsnum \<Rightarrow> candle_repository" where
  "upsertCandleRepository r candle maxCandles lastAccess =
     (case normalizeMarketCandle candle of
        None \<Rightarrow> r
      | Some normalized \<Rightarrow>
          if r_length r = 0 then repositoryFromChunks [[normalized]] (r_revision r + 1) lastAccess
          else
            let chunkIndex = findChunkIndex r (c_time normalized);
                chunks = r_chunks r;
                finish = finishUpsert r maxCandles lastAccess
            in if length chunks \<le> chunkIndex then
                 (let tailIndex = length chunks - 1; tail = chunks ! tailIndex
                  in if length tail < DEFAULT_CANDLE_CHUNK_SIZE
                     then finish (chunks[tailIndex := tail @ [normalized]])
                     else finish (chunks @ [[normalized]]))
               else
                 (let chunk = chunks ! chunkIndex;
                      itemIndex = lowerBound chunk (c_time normalized)
                  in if itemIndex < length chunk
                        \<and> js_eq (c_time (chunk ! itemIndex)) (c_time normalized) then
                       (if candlesEqual (chunk ! itemIndex) normalized then r
                        else finish (chunks[chunkIndex := chunk[itemIndex := normalized]]))
                     else
                       (let inserted = take itemIndex chunk @ [normalized] @ drop itemIndex chunk
                        in if length inserted \<le> DEFAULT_CANDLE_CHUNK_SIZE
                           then finish (chunks[chunkIndex := inserted])
                           else
                             let split = (length inserted + 1) div 2
                             in finish (take chunkIndex chunks
                                        @ [take split inserted, drop split inserted]
                                        @ drop (chunkIndex + 1) chunks))))"

datatype candle_ref = Kept market_candle | Fresh market_candle

fun deref :: "candle_ref \<Rightarrow> market_candle" where
  "deref (Kept c) = c"
| "deref (Fresh c) = c"

text \<open>\<open>candles\<close> is the list from position \<open>index\<close> on.\<close>

definition reusableChunkAt ::
    "(jsnum, market_candle list) js_map \<Rightarrow> candle_ref list \<Rightarrow> market_candle list option" where
  "reusableChunkAt candidates candles =
     (case candles of
        [] \<Rightarrow> None
      | x # _ \<Rightarrow>
          (case map_get candidates (c_time (deref x)) of
             None \<Rightarrow> None
           | Some candidate \<Rightarrow>
               if length candles < length candidate then None
               else if map Kept candidate = take (length candidate) candles then Some candidate
               else None))"

text \<open>The inner loop: \<open>n\<close> candles are taken already.\<close>

fun takeFreshRun ::
    "(jsnum, market_candle list) js_map \<Rightarrow> nat \<Rightarrow> candle_ref list \<Rightarrow> candle_ref list \<times> candle_ref list" where
  "takeFreshRun candidates n [] = ([], [])"
| "takeFreshRun candidates n (x # xs) =
     (if n < DEFAULT_CANDLE_CHUNK_SIZE \<and> reusableChunkAt candidates (x # xs) = None
      then let (taken, rest) = takeFreshRun candidates (n + 1) xs in (x # taken, rest)
      else ([], x # xs))"

lemma takeFreshRun_append: "takeFreshRun cand n xs = (ys, zs) \<Longrightarrow> xs = ys @ zs"
  by (induction cand n xs arbitrary: ys zs rule: takeFreshRun.induct)
    (auto split: if_splits prod.splits)

text \<open>
  No chunk of a repository is empty, so a reused chunk always advances the loop; the model
  stops on an empty candidate, where the source would not.
\<close>

function chunkWithReuseLoop ::
    "(jsnum, market_candle list) js_map \<Rightarrow> candle_ref list \<Rightarrow> market_candle list list" where
  "chunkWithReuseLoop candidates [] = []"
| "chunkWithReuseLoop candidates (x # xs) =
     (case reusableChunkAt candidates (x # xs) of
        Some reusable \<Rightarrow>
          (if reusable = [] then []
           else reusable # chunkWithReuseLoop candidates (drop (length reusable) (x # xs)))
      | None \<Rightarrow>
          (case takeFreshRun candidates 1 xs of
             (taken, rest) \<Rightarrow> map deref (x # taken) # chunkWithReuseLoop candidates rest))"
  by pat_completeness auto
termination
  by (relation "measure (length \<circ> snd)") (auto dest!: takeFreshRun_append [OF sym] simp: less_Suc_eq_le neq_Nil_conv)

definition chunkWithReuse :: "candle_repository \<Rightarrow> candle_ref list \<Rightarrow> market_candle list list" where
  "chunkWithReuse r candles =
     chunkWithReuseLoop (map_set_all (map (\<lambda>chunk. (c_time (hd chunk), chunk)) (r_chunks r)) []) candles"

definition mergeHistoryIntoCandleRepository ::
    "candle_repository \<Rightarrow> market_candle list \<Rightarrow> nat option \<Rightarrow> jsnum \<Rightarrow> candle_repository" where
  "mergeHistoryIntoCandleRepository r history maxCandles lastAccess =
     (let normalizedHistory = normalizeMarketCandleSeries history None
      in if normalizedHistory = [] then r
         else if r_length r = 0 then createCandleRepository normalizedHistory maxCandles lastAccess
         else
           let current = materializeCandleRepository r;
               historyFirst = c_time (hd normalizedHistory);
               historyLast = c_time (last normalizedHistory);
               byTime =
                 fold (\<lambda>candle m.
                   let outside = (js_lt (c_time candle) historyFirst \<or> js_lt historyLast (c_time candle));
                       formingAtTail = (c_closed candle = Some False \<and> js_le historyLast (c_time candle));
                       refreshed = map_get m (c_time candle)
                   in if outside \<or> formingAtTail
                         \<or> (case refreshed of None \<Rightarrow> False | Some x \<Rightarrow> candlesEqual candle (deref x))
                      then map_set (c_time candle) (Kept candle) m else m)
                   current
                   (map_set_all (map (\<lambda>c. (c_time c, Fresh c)) normalizedHistory) []);
               merged = trimRecent maxCandles
                 (js_sort (\<lambda>a b. js_sub (c_time (deref a)) (c_time (deref b))) (map snd byTime));
               chunks = chunkWithReuse r merged;
               unchanged = (length merged = length current \<and> merged = map Kept current)
           in if unchanged then r
              else repositoryFromChunks chunks (r_revision r + 1) lastAccess)"

record candle_repository_budget =
  b_maxRepositories :: nat
  b_maxCandles :: nat

text \<open>The eviction loop over the candidates, least recently used first.\<close>

fun evictLoop ::
    "candle_repository_budget \<Rightarrow> (string \<times> candle_repository) list \<Rightarrow> int \<Rightarrow> int \<Rightarrow>
     (string, candle_repository) js_map \<Rightarrow> (string, candle_repository) js_map" where
  "evictLoop budget [] repositories candles next' = next'"
| "evictLoop budget ((key, repository) # candidates) repositories candles next' =
     (if repositories \<le> int (b_maxRepositories budget) \<and> candles \<le> int (b_maxCandles budget)
      then next'
      else evictLoop budget candidates (repositories - 1) (candles - int (r_length repository))
             (map_delete key next'))"

definition totalCandles :: "(string, candle_repository) js_map \<Rightarrow> nat" where
  "totalCandles repositories = sum_list (map (\<lambda>e. r_length (snd e)) repositories)"

definition evictCandleRepositories ::
    "(string, candle_repository) js_map \<Rightarrow> string set \<Rightarrow> candle_repository_budget \<Rightarrow>
     (string, candle_repository) js_map" where
  "evictCandleRepositories repositories protectedKeys budget =
     evictLoop budget
       (js_sort (\<lambda>a b. js_sub (r_lastAccess (snd a)) (r_lastAccess (snd b)))
          (filter (\<lambda>(key, _). key \<notin> protectedKeys) repositories))
       (int (length repositories))
       (int (totalCandles repositories))
       repositories"

subsection \<open>The repository invariant\<close>

definition chunks_ok :: "market_candle list list \<Rightarrow> bool" where
  "chunks_ok chunks \<longleftrightarrow>
     (\<forall>chunk \<in> set chunks. chunk \<noteq> [] \<and> length chunk \<le> DEFAULT_CANDLE_CHUNK_SIZE) \<and>
     series_ok (concat chunks)"

definition repo_ok :: "candle_repository \<Rightarrow> bool" where
  "repo_ok r \<longleftrightarrow>
     chunks_ok (r_chunks r) \<and>
     r_chunkStarts r = chunkStartsFrom 0 (r_chunks r) \<and>
     r_length r = length (concat (r_chunks r)) \<and>
     r_firstTime r = (case concat (r_chunks r) of [] \<Rightarrow> None | c # _ \<Rightarrow> Some (c_time c)) \<and>
     r_lastTime r = (if concat (r_chunks r) = [] then None else Some (c_time (last (concat (r_chunks r)))))"

lemma concat_nonempty_chunks: "concat (filter (\<lambda>c. c \<noteq> []) css) = concat css"
  by (induction css) auto

lemma concat_Nil_iff: "\<forall>c \<in> set css. c \<noteq> [] \<Longrightarrow> concat css = [] \<longleftrightarrow> css = []"
  by (cases css) auto

lemma last_concat: "\<forall>c \<in> set css. c \<noteq> [] \<Longrightarrow> css \<noteq> [] \<Longrightarrow> last (concat css) = last (last css)"
  by (induction css) (auto simp: last_append concat_Nil_iff)

text \<open>
  A repository built from chunks of bounded size satisfies the invariant and holds the
  concatenation of the chunks.
\<close>

lemma repositoryFromChunks_ok:
  assumes "\<forall>chunk \<in> set chunks. length chunk \<le> DEFAULT_CANDLE_CHUNK_SIZE" "series_ok (concat chunks)"
  shows "repo_ok (repositoryFromChunks chunks v a)"
proof -
  let ?ne = "filter (\<lambda>c. c \<noteq> []) chunks"
  have ne: "\<forall>c \<in> set ?ne. c \<noteq> []" by simp
  have cat: "concat chunks = concat ?ne" by (simp add: concat_nonempty_chunks)
  have first: "(case ?ne of (c # _) # _ \<Rightarrow> Some (c_time c) | _ \<Rightarrow> None) =
      (case concat ?ne of [] \<Rightarrow> None | c # _ \<Rightarrow> Some (c_time c))"
    using ne by (cases ?ne) (auto split: list.splits)
  have lst: "(if ?ne = [] then None else Some (c_time (last (last ?ne)))) =
      (if concat ?ne = [] then None else Some (c_time (last (concat ?ne))))"
    using concat_Nil_iff [OF ne] last_concat [OF ne] by simp
  show ?thesis
    using assms first lst unfolding cat
    by (simp add: repo_ok_def chunks_ok_def repositoryFromChunks_def Let_def length_concat)
qed

lemma materialize_fromChunks [simp]:
  "materializeCandleRepository (repositoryFromChunks chunks v a) = concat chunks"
  by (simp add: materializeCandleRepository_def repositoryFromChunks_def Let_def concat_nonempty_chunks)

lemma concat_chunksFromSorted: "concat (chunksFromSorted xs) = xs"
proof (induction xs rule: chunksFromSorted.induct)
  case (1 xs)
  then show ?case by (subst chunksFromSorted.simps) simp
qed

lemma chunksFromSorted_size: "chunk \<in> set (chunksFromSorted xs) \<Longrightarrow> length chunk \<le> DEFAULT_CANDLE_CHUNK_SIZE"
proof (induction xs rule: chunksFromSorted.induct)
  case (1 xs)
  then show ?case using chunksFromSorted.simps [of xs] by (auto split: if_splits)
qed

lemma create_ok [inv_intros]: "repo_ok (createCandleRepository candles m a)"
  unfolding createCandleRepository_def
  by (intro repositoryFromChunks_ok)
    (auto simp: chunksFromSorted_size concat_chunksFromSorted normalizeSeries_trim [of _ m]
      intro!: series_ok_trimRecent normalizeSeries_spec)

lemma materialize_create:
  "materializeCandleRepository (createCandleRepository candles m a) = normalizeMarketCandleSeries candles m"
  by (simp add: createCandleRepository_def concat_chunksFromSorted)

lemma skipChunks_concat:
  "skipChunks n css = (k, ds) \<Longrightarrow> drop k (concat ds) = drop n (concat css) \<and> set ds \<subseteq> set css \<and>
     (case ds of [] \<Rightarrow> True | d # _ \<Rightarrow> k < length d)"
  by (induction n css rule: skipChunks.induct) (auto split: if_splits)

lemma trimChunks_concat:
  assumes "len = length (concat css)"
  shows "concat (trimChunks css len m) = trimRecent m (concat css)"
proof (cases "\<exists>n. m = Some n \<and> n \<noteq> 0 \<and> n < len")
  case True
  then obtain n where n: "m = Some n" "n \<noteq> 0" "n < len" by auto
  obtain k ds where s: "skipChunks (len - n) css = (k, ds)" by fastforce
  show ?thesis
    using n assms s skipChunks_concat [OF s]
    by (cases ds) (auto simp: trimChunks_def trimRecent_def)
next
  case False
  then show ?thesis using assms by (auto simp: trimChunks_def trimRecent_def not_less split: option.splits)
qed

lemma trimChunks_size:
  assumes "\<forall>chunk \<in> set css. length chunk \<le> N" "c \<in> set (trimChunks css len m)"
  shows "length c \<le> N"
proof (cases "\<exists>n. m = Some n \<and> n \<noteq> 0 \<and> n < len")
  case True
  then obtain n where n: "m = Some n" "n \<noteq> 0" "n < len" by auto
  obtain k ds where s: "skipChunks (len - n) css = (k, ds)" by fastforce
  then have ds: "\<forall>d \<in> set ds. length d \<le> N" using skipChunks_concat [OF s] assms(1) by auto
  with n s assms(2) show ?thesis
    by (cases ds) (auto simp: trimChunks_def split: if_splits intro: le_trans [OF diff_le_self])
next
  case False
  with assms show ?thesis by (auto simp: trimChunks_def not_less split: option.splits)
qed

subsection \<open>Finding the chunk\<close>

lemma strictly_by_concat_last:
  assumes "strictly_by f (concat css)" "\<forall>c \<in> set css. c \<noteq> []"
  shows "strictly_by (\<lambda>c. f (last c)) css"
  using assms by (induction css) (auto simp: sorted_wrt_append)

lemma strictly_by_last_max: "strictly_by f xs \<Longrightarrow> x \<in> set xs \<Longrightarrow> f x \<le> f (last xs)"
  by (induction xs) (auto simp: less_imp_le)

text \<open>The chunk search splits the chunks at the first one that ends at or after the time.\<close>

lemma findChunkIndex_split:
  assumes ok: "chunks_ok (r_chunks r)" and fin: "js_isFinite t"
  defines "k \<equiv> findChunkIndex r t"
  shows "k \<le> length (r_chunks r)"
    "\<forall>c \<in> set (concat (take k (r_chunks r))). c_time c < t"
    "k < length (r_chunks r) \<Longrightarrow> t \<le> c_time (last (r_chunks r ! k))"
    "k < length (r_chunks r) \<Longrightarrow> \<forall>c \<in> set (concat (drop (Suc k) (r_chunks r))). t < c_time c"
proof -
  let ?cs = "r_chunks r"
  have ne: "\<forall>c \<in> set ?cs. c \<noteq> []" and s: "strictly_by c_time (concat ?cs)"
    and cok: "\<forall>c \<in> set (concat ?cs). candle_ok c"
    using ok by (auto simp: chunks_ok_def series_ok_def)
  let ?Q = "\<lambda>ch. c_time (last ch) < t"
  let ?R = "\<lambda>ch. js_lt (case ch of [] \<Rightarrow> PInf | chunk \<Rightarrow> c_time (last chunk)) t"
  have QR: "?R ch \<longleftrightarrow> ?Q ch" if "ch \<in> set ?cs" for ch
  proof -
    have "candle_ok (last ch)" using cok ne that by auto
    then show ?thesis using ne that fin
      by (auto simp: candle_ok_finite js_order_finite split: list.splits)
  qed
  have sp: "split_by ?Q ?cs"
    using strictly_by_concat_last [OF s ne] by (intro split_by_sorted(1)) (simp add: strictly_by_sorted)
  have "bsearch (\<lambda>mid. ?R (?cs ! mid)) 0 (length ?cs) = length (takeWhile ?Q ?cs)"
    using QR split_by_nth [OF sp] by (intro bsearch_boundary) (auto simp: length_takeWhile_le)
  then have k: "k = length (takeWhile ?Q ?cs)" by (simp add: k_def findChunkIndex_def)
  then show "k \<le> length ?cs" by (simp add: length_takeWhile_le)
  have take: "take k ?cs = takeWhile ?Q ?cs" unfolding k by (rule takeWhile_eq_take [symmetric])
  show "\<forall>c \<in> set (concat (take k ?cs)). c_time c < t"
  proof
    fix c assume "c \<in> set (concat (take k ?cs))"
    then obtain ch where ch: "ch \<in> set (takeWhile ?Q ?cs)" "c \<in> set ch" by (auto simp: take)
    then have "?Q ch" "ch \<in> set ?cs" by (auto dest: set_takeWhileD)
    moreover have "strictly_by c_time ch"
      using s \<open>ch \<in> set ?cs\<close> by (auto simp: in_set_conv_decomp sorted_wrt_append)
    ultimately show "c_time c < t" using strictly_by_last_max [of c_time ch c] ch by simp
  qed
  assume lt: "k < length ?cs"
  show last: "t \<le> c_time (last (?cs ! k))" using split_by_nth [OF sp lt] k by simp
  show "\<forall>c \<in> set (concat (drop (Suc k) ?cs)). t < c_time c"
  proof
    fix c assume "c \<in> set (concat (drop (Suc k) ?cs))"
    moreover have "strictly_by c_time (concat (take k ?cs) @ ?cs ! k @ concat (drop (Suc k) ?cs))"
      using s id_take_nth_drop [OF lt] by (metis concat.simps(2) concat_append)
    moreover have "?cs ! k \<noteq> []" using ne lt by simp
    ultimately have "c_time (last (?cs ! k)) < c_time c"
      using last_in_set [of "?cs ! k"] by (auto simp: sorted_wrt_append)
    with last show "t < c_time c" by simp
  qed
qed

lemma placeCandle_append:
  assumes "\<forall>a \<in> set A. c_time a < c_time n" "\<forall>b \<in> set B. c_time n < c_time b"
  shows "placeCandle n (A @ X @ B) = A @ placeCandle n X @ B"
proof -
  have "filter (\<lambda>c. c_time c < c_time n) A = A" "filter (\<lambda>c. c_time n < c_time c) B = B"
    using assms by (auto intro: filter_True)
  moreover have "filter (\<lambda>c. c_time n < c_time c) A = []" "filter (\<lambda>c. c_time c < c_time n) B = []"
    using assms by (auto intro: filter_False dest: less_asym)
  ultimately show ?thesis by (simp add: placeCandle_def)
qed

lemma series_ok_sublist: "series_ok (A @ X @ B) \<Longrightarrow> series_ok X"
  by (auto simp: series_ok_def sorted_wrt_append)

subsection \<open>Upsert refines the flat upsert\<close>

text \<open>What the chunk branch of the upsert does to one chunk is the flat upsert of that chunk.\<close>

lemma chunk_upsert:
  fixes chunk :: "market_candle list"
  assumes "normalizeMarketCandle candle = Some n"
  defines "i \<equiv> lowerBound chunk (c_time n)"
  shows "i < length chunk \<Longrightarrow> js_eq (c_time (chunk ! i)) (c_time n) \<Longrightarrow> \<not> candlesEqual (chunk ! i) n \<Longrightarrow>
      chunk[i := n] = upsertMarketCandleIntoSeries chunk candle None"
    "\<not> (i < length chunk \<and> js_eq (c_time (chunk ! i)) (c_time n)) \<Longrightarrow>
      take i chunk @ [n] @ drop i chunk = upsertMarketCandleIntoSeries chunk candle None"
    "i < length chunk \<Longrightarrow> js_eq (c_time (chunk ! i)) (c_time n) \<Longrightarrow> candlesEqual (chunk ! i) n \<Longrightarrow>
      chunk = upsertMarketCandleIntoSeries chunk candle None"
  using assms by (auto simp: upsertMarketCandleIntoSeries_def lowerBound_def Let_def upd_conv_take_nth_drop)

lemma concat_update_split:
  assumes "k < length css"
  shows "concat (take k css @ Y @ drop (Suc k) css) = concat (take k css) @ concat Y @ concat (drop (Suc k) css)"
    "concat css = concat (take k css) @ css ! k @ concat (drop (Suc k) css)"
    "css[k := y] = take k css @ [y] @ drop (Suc k) css"
  using id_take_nth_drop [OF assms] assms
  by (simp_all add: upd_conv_take_nth_drop) (metis concat.simps(2) concat_append)

text \<open>
  The chunks an upsert writes: of bounded size, and together the old candles with
  the new one in place.
\<close>

lemma finishUpsert_correct:
  assumes "\<forall>chunk \<in> set cs. length chunk \<le> DEFAULT_CANDLE_CHUNK_SIZE"
    "concat cs = placeCandle n xs" "series_ok xs" "candle_ok n"
  shows "repo_ok (finishUpsert r m a cs) \<and>
    materializeCandleRepository (finishUpsert r m a cs) = trimRecent m (placeCandle n xs)"
proof -
  have len: "sum_list (map length cs) = length (concat cs)" by (simp add: length_concat)
  have "concat (trimChunks cs (sum_list (map length cs)) m) = trimRecent m (placeCandle n xs)"
    using trimChunks_concat [OF len] assms(2) by simp
  moreover have "series_ok (trimRecent m (placeCandle n xs))"
    using assms by (intro series_ok_trimRecent placeCandle_spec)
  ultimately show ?thesis
    using assms(1) trimChunks_size [of cs DEFAULT_CANDLE_CHUNK_SIZE] unfolding finishUpsert_def Let_def
    by (auto intro!: repositoryFromChunks_ok)
qed

lemma split_sizes:
  assumes "length xs = Suc DEFAULT_CANDLE_CHUNK_SIZE"
  shows "length (take ((length xs + 1) div 2) xs) \<le> DEFAULT_CANDLE_CHUNK_SIZE"
    "length (drop ((length xs + 1) div 2) xs) \<le> DEFAULT_CANDLE_CHUNK_SIZE"
  using assms by (auto simp: DEFAULT_CANDLE_CHUNK_SIZE_def)

lemma upsert_length_le: "length (upsertMarketCandleIntoSeries xs c None) \<le> Suc (length xs)"
  by (auto simp: upsertMarketCandleIntoSeries_def Let_def split: option.splits)

text \<open>A candle after every chunk is appended to the last one, or starts a new one.\<close>

lemma upsert_at_tail:
  assumes cs: "chunks_ok cs" "cs \<noteq> []" and nok: "candle_ok n"
    and all: "\<forall>c \<in> set (concat cs). c_time c < c_time n"
  defines "tailIndex \<equiv> length cs - 1"
  defines "new \<equiv> (if length (cs ! tailIndex) < DEFAULT_CANDLE_CHUNK_SIZE
                   then cs[tailIndex := cs ! tailIndex @ [n]] else cs @ [[n]])"
  shows "(\<forall>chunk \<in> set new. length chunk \<le> DEFAULT_CANDLE_CHUNK_SIZE) \<and> concat new = placeCandle n (concat cs)"
proof -
  have size: "\<forall>c \<in> set cs. length c \<le> DEFAULT_CANDLE_CHUNK_SIZE" using cs by (simp add: chunks_ok_def)
  have place: "placeCandle n (concat cs) = concat cs @ [n]"
    using placeCandle_append [of "concat cs" n "[]" "[]"] all by (simp add: placeCandle_def)
  have i: "tailIndex < length cs" "drop (Suc tailIndex) cs = []" using cs(2) by (auto simp: tailIndex_def)
  then have "concat (cs[tailIndex := cs ! tailIndex @ [n]]) = concat cs @ [n]"
    using concat_update_split [OF i(1)] by simp
  moreover have "\<forall>c \<in> set (cs[tailIndex := cs ! tailIndex @ [n]]). length c \<le> DEFAULT_CANDLE_CHUNK_SIZE"
    if "length (cs ! tailIndex) < DEFAULT_CANDLE_CHUNK_SIZE"
    using size that by (auto dest!: set_update_subset_insert [THEN subsetD])
  ultimately show ?thesis
    using place size by (auto simp: new_def DEFAULT_CANDLE_CHUNK_SIZE_def)
qed

text \<open>A candle inside chunk \<open>k\<close>: the chunk is replaced by its upsert, in one piece or two.\<close>

lemma upsert_in_chunk:
  assumes cs: "chunks_ok cs" and k: "k < length cs" and n: "normalizeMarketCandle candle = Some n"
    and before: "\<forall>c \<in> set (concat (take k cs)). c_time c < c_time n"
    and after: "\<forall>c \<in> set (concat (drop (Suc k) cs)). c_time n < c_time c"
  defines "u \<equiv> upsertMarketCandleIntoSeries (cs ! k) candle None"
  defines "h \<equiv> (length u + 1) div 2"
  shows "concat (take k cs @ [u] @ drop (Suc k) cs) = placeCandle n (concat cs)"
    "concat (take k cs @ [take h u, drop h u] @ drop (Suc k) cs) = placeCandle n (concat cs)"
    "length u \<le> DEFAULT_CANDLE_CHUNK_SIZE \<Longrightarrow>
      \<forall>c \<in> set (take k cs @ [u] @ drop (Suc k) cs). length c \<le> DEFAULT_CANDLE_CHUNK_SIZE"
    "\<not> length u \<le> DEFAULT_CANDLE_CHUNK_SIZE \<Longrightarrow>
      \<forall>c \<in> set (take k cs @ [take h u, drop h u] @ drop (Suc k) cs). length c \<le> DEFAULT_CANDLE_CHUNK_SIZE"
proof -
  note parts = concat_update_split [OF k]
  have s: "series_ok (concat cs)" and size: "\<forall>c \<in> set cs. length c \<le> DEFAULT_CANDLE_CHUNK_SIZE"
    using cs by (auto simp: chunks_ok_def)
  then have "series_ok (cs ! k)" using parts(2) by (metis series_ok_sublist)
  then have u: "u = placeCandle n (cs ! k)" using upsert_within_limit [OF _ n] by (simp add: u_def)
  have place: "placeCandle n (concat cs) = concat (take k cs) @ u @ concat (drop (Suc k) cs)"
    unfolding u parts(2) using before after by (intro placeCandle_append) auto
  show "concat (take k cs @ [u] @ drop (Suc k) cs) = placeCandle n (concat cs)"
    "concat (take k cs @ [take h u, drop h u] @ drop (Suc k) cs) = placeCandle n (concat cs)"
    unfolding parts(1) place by simp_all
  have others: "\<forall>c \<in> set (take k cs) \<union> set (drop (Suc k) cs). length c \<le> DEFAULT_CANDLE_CHUNK_SIZE"
    using size by (auto dest: in_set_takeD in_set_dropD)
  then show "length u \<le> DEFAULT_CANDLE_CHUNK_SIZE \<Longrightarrow>
      \<forall>c \<in> set (take k cs @ [u] @ drop (Suc k) cs). length c \<le> DEFAULT_CANDLE_CHUNK_SIZE"
    by (simp add: ball_Un)
  assume "\<not> length u \<le> DEFAULT_CANDLE_CHUNK_SIZE"
  moreover have "length (cs ! k) \<le> DEFAULT_CANDLE_CHUNK_SIZE" using size k by simp
  ultimately have "length u = Suc DEFAULT_CANDLE_CHUNK_SIZE"
    using upsert_length_le [of "cs ! k" candle] by (simp add: u_def)
  from split_sizes [OF this] others
  show "\<forall>c \<in> set (take k cs @ [take h u, drop h u] @ drop (Suc k) cs). length c \<le> DEFAULT_CANDLE_CHUNK_SIZE"
    by (simp add: ball_Un h_def)
qed

lemma upsert_repository_chunks:
  assumes "repo_ok r" "normalizeMarketCandle candle = Some n" "r_chunks r \<noteq> []"
  shows "(upsertCandleRepository r candle m a = r \<and>
            placeCandle n (materializeCandleRepository r) = materializeCandleRepository r) \<or>
    (\<exists>cs. upsertCandleRepository r candle m a = finishUpsert r m a cs \<and>
       (\<forall>chunk \<in> set cs. length chunk \<le> DEFAULT_CANDLE_CHUNK_SIZE) \<and>
       concat cs = placeCandle n (materializeCandleRepository r))"
proof -
  let ?cs = "r_chunks r" and ?k = "findChunkIndex r (c_time n)"
  have nok: "candle_ok n" using assms(2) by (rule normalizeMarketCandle_ok)
  have cs: "chunks_ok ?cs" using assms by (simp add: repo_ok_def)
  have len: "r_length r \<noteq> 0" using assms by (auto simp: repo_ok_def chunks_ok_def concat_Nil_iff)
  have mat: "materializeCandleRepository r = concat ?cs" by (simp add: materializeCandleRepository_def)
  note split = findChunkIndex_split [OF cs candle_ok_finite [OF nok]]
  show ?thesis
  proof (cases "?k < length ?cs")
    case False
    then have "\<forall>c \<in> set (concat ?cs). c_time c < c_time n" using split(1,2) by simp
    note tail = upsert_at_tail [OF cs assms(3) nok this]
    have "upsertCandleRepository r candle m a = finishUpsert r m a
        (if length (?cs ! (length ?cs - 1)) < DEFAULT_CANDLE_CHUNK_SIZE
         then ?cs[length ?cs - 1 := ?cs ! (length ?cs - 1) @ [n]] else ?cs @ [[n]])"
      using False len assms(2) by (simp add: upsertCandleRepository_def Let_def)
    with tail show ?thesis unfolding mat by blast
  next
    case True
    let ?ch = "?cs ! ?k" and ?i = "lowerBound (?cs ! ?k) (c_time n)"
    note inside = upsert_in_chunk [OF cs True assms(2) split(2) split(4) [OF True]]
    note chunk = chunk_upsert [OF assms(2), of ?ch]
    consider (same) "?i < length ?ch" "js_eq (c_time (?ch ! ?i)) (c_time n)" "candlesEqual (?ch ! ?i) n"
      | (hit) "?i < length ?ch" "js_eq (c_time (?ch ! ?i)) (c_time n)" "\<not> candlesEqual (?ch ! ?i) n"
      | (miss) "\<not> (?i < length ?ch \<and> js_eq (c_time (?ch ! ?i)) (c_time n))" by blast
    then show ?thesis
    proof cases
      case same
      have "take ?k ?cs @ [?ch] @ drop (Suc ?k) ?cs = ?cs" using True by (simp add: id_take_nth_drop [symmetric])
      then have "placeCandle n (concat ?cs) = concat ?cs" using inside(1) chunk(3) [OF same] by simp
      with same True len assms(2) show ?thesis by (simp add: upsertCandleRepository_def Let_def mat)
    next
      case hit
      let ?new = "take ?k ?cs @ [?ch[?i := n]] @ drop (Suc ?k) ?cs"
      have "length (?ch[?i := n]) \<le> DEFAULT_CANDLE_CHUNK_SIZE" using cs True by (simp add: chunks_ok_def)
      then have "\<forall>chunk \<in> set ?new. length chunk \<le> DEFAULT_CANDLE_CHUNK_SIZE"
        "concat ?new = placeCandle n (concat ?cs)" using inside(1,3) unfolding chunk(1) [OF hit] by blast+
      moreover have "upsertCandleRepository r candle m a = finishUpsert r m a ?new"
        using hit True len assms(2) by (simp add: upsertCandleRepository_def Let_def concat_update_split(3))
      ultimately show ?thesis unfolding mat by blast
    next
      case miss
      define ins where "ins = take ?i ?ch @ [n] @ drop ?i ?ch"
      let ?ins = ins and ?h = "(length ins + 1) div 2"
      let ?new = "if length ?ins \<le> DEFAULT_CANDLE_CHUNK_SIZE then take ?k ?cs @ [?ins] @ drop (Suc ?k) ?cs
                  else take ?k ?cs @ [take ?h ?ins, drop ?h ?ins] @ drop (Suc ?k) ?cs"
      have "(\<forall>chunk \<in> set ?new. length chunk \<le> DEFAULT_CANDLE_CHUNK_SIZE) \<and>
        concat ?new = placeCandle n (concat ?cs)" using inside unfolding ins_def chunk(2) [OF miss] by presburger
      moreover have "upsertCandleRepository r candle m a = finishUpsert r m a ?new"
        unfolding upsertCandleRepository_def assms(2) option.case Let_def ins_def [symmetric]
        using miss True len by (auto simp: concat_update_split(3))
      ultimately show ?thesis unfolding mat by blast
    qed
  qed
qed

lemma upsert_repository:
  assumes ok: "repo_ok r" and n: "normalizeMarketCandle candle = Some n"
    and lim: "trimRecent m (materializeCandleRepository r) = materializeCandleRepository r" "m \<noteq> Some 0"
  shows "repo_ok (upsertCandleRepository r candle m a) \<and>
    materializeCandleRepository (upsertCandleRepository r candle m a)
      = trimRecent m (placeCandle n (materializeCandleRepository r))"
proof (cases "r_chunks r = []")
  case True
  then have "r_length r = 0" "materializeCandleRepository r = []"
    using ok by (auto simp: repo_ok_def materializeCandleRepository_def)
  moreover have "candle_ok n" using n by (rule normalizeMarketCandle_ok)
  moreover have "trimRecent m [n] = [n]" using lim(2) by (auto simp: trimRecent_def split: option.splits)
  ultimately show ?thesis
    by (auto simp: upsertCandleRepository_def n placeCandle_def DEFAULT_CANDLE_CHUNK_SIZE_def series_ok_def
        intro!: repositoryFromChunks_ok)
next
  case False
  have s: "series_ok (materializeCandleRepository r)"
    using ok by (simp add: repo_ok_def chunks_ok_def materializeCandleRepository_def)
  from upsert_repository_chunks [OF ok n False, of m a] show ?thesis
    using finishUpsert_correct [OF _ _ s normalizeMarketCandle_ok [OF n], of _ r m a] ok lim(1) by auto
qed

lemma upsert_invalid: "normalizeMarketCandle c = None \<Longrightarrow> upsertCandleRepository r c m a = r"
  by (simp add: upsertCandleRepository_def)

lemma repo_series: "repo_ok r \<Longrightarrow> series_ok (materializeCandleRepository r)"
  by (simp add: repo_ok_def chunks_ok_def materializeCandleRepository_def)

interpretation repo: candle_store "\<lambda>r. candle_map (materializeCandleRepository r)"
    "\<lambda>r c. upsertCandleRepository r c None (Fin 0)" repo_ok
proof unfold_locales
  fix r c assume ok: "repo_ok r"
  show "repo_ok (upsertCandleRepository r c None (Fin 0))"
    using ok upsert_repository [OF ok, of c] by (cases "normalizeMarketCandle c") (auto simp: upsert_invalid)
  show "candle_map (materializeCandleRepository (upsertCandleRepository r c None (Fin 0))) =
      (case normalizeMarketCandle c of None \<Rightarrow> candle_map (materializeCandleRepository r)
       | Some n \<Rightarrow> (candle_map (materializeCandleRepository r))(c_time n \<mapsto> n))"
    using upsert_repository [OF ok, of c] placeCandle_spec(2) [OF repo_series [OF ok]]
    by (cases "normalizeMarketCandle c") (auto simp: upsert_invalid normalizeMarketCandle_ok)
qed

subsection \<open>Index lookups\<close>

lemma chunkStartsFrom_nth:
  "k < length css \<Longrightarrow> chunkStartsFrom n css ! k = n + length (concat (take k css))"
  by (induction css arbitrary: n k) (auto simp: nth_Cons split: nat.splits)

lemma length_chunkStartsFrom [simp]: "length (chunkStartsFrom n css) = length css"
  by (induction css arbitrary: n) auto

lemma concat_nth_split:
  assumes "k < length css" "i < length (css ! k)"
  shows "concat css ! (length (concat (take k css)) + i) = css ! k ! i"
    "length (concat (take k css)) + i < length (concat css)"
proof -
  have "concat css = concat (take k css) @ css ! k @ concat (drop (Suc k) css)"
    using concat_update_split(2) [OF assms(1)] .
  then show "concat css ! (length (concat (take k css)) + i) = css ! k ! i"
    "length (concat (take k css)) + i < length (concat css)"
    using assms(2) by (simp_all add: nth_append)
qed

text \<open>Inside a normalised series, the lower bound finds a time if and only if it occurs.\<close>

lemma lowerBound_finds:
  assumes "series_ok xs" "js_isFinite t"
  shows "lowerBound xs t < length xs \<and> js_eq (c_time (xs ! lowerBound xs t)) t \<longleftrightarrow> (\<exists>c \<in> set xs. c_time c = t)"
proof -
  note sp = series_split_by(1) [OF assms]
  have lb: "lowerBound xs t = length (takeWhile (\<lambda>c. js_lt (c_time c) t) xs)"
    unfolding lowerBound_def by (rule bsearch_list [OF sp])
  note Q = series_time_lt(1) [OF assms] and eq = series_time_lt(2) [OF assms]
  show ?thesis
  proof
    assume "lowerBound xs t < length xs \<and> js_eq (c_time (xs ! lowerBound xs t)) t"
    then show "\<exists>c \<in> set xs. c_time c = t" using eq nth_mem by blast
  next
    assume "\<exists>c \<in> set xs. c_time c = t"
    then obtain j where j: "j < length xs" "c_time (xs ! j) = t" by (auto simp: in_set_conv_nth)
    let ?lb = "lowerBound xs t"
    have le: "?lb \<le> j" using split_by_nth [OF sp j(1)] j Q lb by (auto simp: not_less)
    then have lt: "?lb < length xs" using j(1) by simp
    have "t \<le> c_time (xs ! ?lb)" using split_by_nth [OF sp lt] Q lb lt by (auto simp: not_less)
    moreover have "c_time (xs ! ?lb) \<le> c_time (xs ! j)"
      using assms(1) le j(1) by (auto simp: series_ok_def sorted_wrt_map sorted_wrt_iff_nth_less le_less)
    ultimately show "?lb < length xs \<and> js_eq (c_time (xs ! ?lb)) t"
      using lt j eq [OF nth_mem [OF lt]] by simp
  qed
qed

lemma findCandleIndex_found:
  assumes ok: "repo_ok r" and fin: "js_isFinite t" and found: "findCandleIndexByTime r t \<noteq> - 1"
  shows "\<exists>i < length (materializeCandleRepository r). findCandleIndexByTime r t = int i \<and>
     c_time (materializeCandleRepository r ! i) = t"
proof -
  let ?k = "findChunkIndex r t"
  let ?ch = "r_chunks r ! ?k"
  let ?j = "lowerBound ?ch t"
  have k: "?k < length (r_chunks r)" and j: "?j < length ?ch" "js_eq (c_time (?ch ! ?j)) t"
    and res: "findCandleIndexByTime r t = int (r_chunkStarts r ! ?k + ?j)"
    using found by (auto simp: findCandleIndexByTime_def Let_def split: if_splits)
  have "r_chunkStarts r ! ?k = length (concat (take ?k (r_chunks r)))"
    using ok k by (simp add: repo_ok_def chunkStartsFrom_nth)
  with concat_nth_split [OF k j(1)] j(2) res show ?thesis
    by (auto simp: materializeCandleRepository_def js_eq_def)
qed

lemma findCandleIndex_complete:
  assumes ok: "repo_ok r" and c: "c \<in> set (materializeCandleRepository r)"
  shows "findCandleIndexByTime r (c_time c) \<noteq> - 1"
proof -
  let ?cs = "r_chunks r" and ?t = "c_time c"
  let ?k = "findChunkIndex r ?t"
  have cs: "chunks_ok ?cs" using ok by (simp add: repo_ok_def)
  have fin: "js_isFinite ?t" using repo_series [OF ok] c by (simp add: series_ok_def candle_ok_finite)
  note split = findChunkIndex_split [OF cs fin]
  have k: "?k < length ?cs"
  proof (rule ccontr)
    assume "\<not> ?k < length ?cs"
    then have "\<forall>d \<in> set (concat ?cs). c_time d < ?t" using split(2) by simp
    with c show False unfolding materializeCandleRepository_def by blast
  qed
  have "set (concat ?cs) = set (concat (take ?k ?cs)) \<union> set (?cs ! ?k) \<union> set (concat (drop (Suc ?k) ?cs))"
    using arg_cong [OF concat_update_split(2) [OF k], of set] by (simp add: Un_assoc)
  then have "c \<in> set (?cs ! ?k)"
    using c split(2) split(4) [OF k] unfolding materializeCandleRepository_def by blast
  moreover have "series_ok (?cs ! ?k)"
    using cs concat_update_split(2) [OF k] by (metis chunks_ok_def series_ok_sublist)
  ultimately have "lowerBound (?cs ! ?k) ?t < length (?cs ! ?k) \<and>
      js_eq (c_time (?cs ! ?k ! lowerBound (?cs ! ?k) ?t)) ?t"
    using lowerBound_finds fin by blast
  with k show ?thesis by (simp add: findCandleIndexByTime_def Let_def)
qed

lemma concat_position:
  "i < length (concat css) \<Longrightarrow> \<exists>k < length css. \<exists>j < length (css ! k). i = length (concat (take k css)) + j"
proof (induction css arbitrary: i)
  case (Cons c css)
  show ?case
  proof (cases "i < length c")
    case True then show ?thesis by (intro exI [of _ 0]) auto
  next
    case False
    have "length (concat (c # css)) = length c + length (concat css)" by simp
    then have "i - length c < length (concat css)" using Cons.prems False by linarith
    then obtain k j where "k < length css" "j < length (css ! k)" "i - length c = length (concat (take k css)) + j"
      using Cons.IH by blast
    with False show ?thesis by (intro exI [of _ "Suc k"]) auto
  qed
qed simp

lemma concat_take_mono: "k \<le> l \<Longrightarrow> length (concat (take k css)) \<le> length (concat (take l css))"
  by (auto simp: le_iff_add take_add)

lemma candleAt_inside:
  assumes "repo_ok r" "i < length (materializeCandleRepository r)"
  shows "candleAtRepositoryIndex r (int i) = Some (materializeCandleRepository r ! i)"
proof -
  let ?cs = "r_chunks r"
  let ?start = "\<lambda>k. length (concat (take k ?cs))"
  obtain k j where k: "k < length ?cs" "j < length (?cs ! k)" "i = ?start k + j"
    using concat_position assms(2) unfolding materializeCandleRepository_def by blast
  have starts: "r_chunkStarts r ! mid = ?start mid" if "mid < length ?cs" for mid
    using assms(1) that by (simp add: repo_ok_def chunkStartsFrom_nth)
  have next': "?start (Suc k) = ?start k + length (?cs ! k)"
    using k(1) by (simp add: take_Suc_conv_app_nth)
  have mid: "int (r_chunkStarts r ! mid) \<le> int i \<longleftrightarrow> mid < Suc k" if "mid < length ?cs" for mid
    using concat_take_mono [of mid k ?cs] concat_take_mono [of "Suc k" mid ?cs] k next' starts [OF that]
    by (cases "mid < Suc k") auto
  have "length (r_chunkStarts r) = length ?cs" using assms(1) by (simp add: repo_ok_def)
  then have low: "bsearch (\<lambda>mid. int (r_chunkStarts r ! mid) \<le> int i) 0 (length (r_chunkStarts r)) = Suc k"
    using k(1) mid by (intro bsearch_boundary) auto
  have "r_length r = length (materializeCandleRepository r)"
    using assms(1) by (simp add: repo_ok_def materializeCandleRepository_def)
  then show ?thesis
    using assms(2) k starts [OF k(1)] concat_nth_split(1) [OF k(1,2)]
    unfolding candleAtRepositoryIndex_def low by (simp add: Let_def materializeCandleRepository_def)
qed

subsection \<open>Merging history refines the flat merge\<close>

definition ref_keyed :: "(jsnum, candle_ref) js_map \<Rightarrow> bool" where
  "ref_keyed m \<longleftrightarrow> map_wf m \<and> (\<forall>(k, x) \<in> set m. k = c_time (deref x) \<and> candle_ok (deref x))"

definition deref_map :: "(jsnum, candle_ref) js_map \<Rightarrow> jsnum \<rightharpoonup> market_candle" where
  "deref_map m t = map_option deref (map_of m t)"

lemma ref_keyed_set:
  assumes "ref_keyed m" "candle_ok (deref x)" shows "ref_keyed (map_set (c_time (deref x)) x m)"
proof -
  have wf: "map_wf (map_set (c_time (deref x)) x m)" using assms by (simp add: ref_keyed_def distinct_update)
  have "k = c_time (deref y) \<and> candle_ok (deref y)" if "(k, y) \<in> set (map_set (c_time (deref x)) x m)" for k y
  proof -
    have "map_of (map_set (c_time (deref x)) x m) k = Some y" using wf that by simp
    then show ?thesis using assms by (auto simp: update_conv' ref_keyed_def split: if_splits dest!: map_of_SomeD)
  qed
  with wf show ?thesis by (auto simp: ref_keyed_def)
qed

lemma deref_map_set: "deref_map (map_set k x m) = (deref_map m)(k \<mapsto> deref x)"
  by (auto simp: deref_map_def update_conv' fun_eq_iff)

lemma deref_map_Nil [simp]: "deref_map [] = Map.empty"
  by (simp add: deref_map_def fun_eq_iff)

lemma fresh_entries:
  assumes "\<forall>c \<in> set cs. candle_ok c" "ref_keyed m"
  shows "ref_keyed (map_set_all (map (\<lambda>c. (c_time c, Fresh c)) cs) m) \<and>
    deref_map (map_set_all (map (\<lambda>c. (c_time c, Fresh c)) cs) m) = deref_map m ++ candle_map (rev cs)"
  using assms
proof (induction cs arbitrary: m)
  case (Cons c cs)
  have "ref_keyed (map_set (c_time c) (Fresh c) m)" using ref_keyed_set [of m "Fresh c"] Cons.prems by simp
  from Cons.IH [OF _ this] Cons.prems show ?case
    by (auto simp: map_set_all_def deref_map_set candle_map_def map_add_def fun_eq_iff split: option.splits)
qed (simp add: map_set_all_def candle_map_def)

text \<open>The loop over the current candles; keeping a value-equal candle changes no value.\<close>

lemma kept_entries:
  fixes P :: "market_candle \<Rightarrow> bool"
  assumes "\<forall>c \<in> set cs. candle_ok c" "ref_keyed m"
  defines "step \<equiv> \<lambda>c m. if P c \<or> (case map_of m (c_time c) of None \<Rightarrow> False | Some x \<Rightarrow> candlesEqual c (deref x))
                          then map_set (c_time c) (Kept c) m else m"
  shows "ref_keyed (fold step cs m) \<and> deref_map (fold step cs m) = deref_map m ++ candle_map (rev (filter P cs))"
  using assms(1,2)
proof (induction cs arbitrary: m)
  case (Cons c cs)
  have ok: "ref_keyed (step c m)" using ref_keyed_set [of m "Kept c"] Cons.prems by (simp add: step_def)
  have "deref_map (step c m) = (if P c then (deref_map m)(c_time c \<mapsto> c) else deref_map m)"
    using Cons.prems
    by (auto simp: step_def update_conv' candlesEqual_ok fun_eq_iff deref_map_def split: option.splits)
  with Cons.IH [OF _ ok] Cons.prems show ?case
    by (auto simp: candle_map_def map_add_def fun_eq_iff split: option.splits)
qed (simp add: candle_map_def)

lemma sort_refs:
  assumes "ref_keyed m"
  defines "srt \<equiv> js_sort (\<lambda>a b. js_sub (c_time (deref a)) (c_time (deref b))) (map snd m)"
  shows "series_ok (map deref srt) \<and> candle_map (map deref srt) = deref_map m"
proof -
  let ?f = "\<lambda>x. c_time (deref x)"
  have keys: "map ?f (map snd m) = map fst m" using assms(1) by (auto simp: ref_keyed_def)
  have sort: "srt = sort_key ?f (map snd m)" unfolding srt_def
    using assms(1) by (intro js_sort_by_integral_key) (auto simp: ref_keyed_def candle_ok_def)
  have "strictly_by ?f srt" unfolding sort using assms(1) keys
    by (intro sort_key_strictly) (simp only: keys ref_keyed_def)
  moreover have set: "set srt = snd ` set m" by (simp add: sort)
  ultimately have ok: "series_ok (map deref srt)"
    using assms(1) by (auto simp: series_ok_def ref_keyed_def comp_def)
  have "candle_map (map deref srt) t = Some c \<longleftrightarrow> deref_map m t = Some c" for t c
  proof -
    have "candle_map (map deref srt) t = Some c \<longleftrightarrow> (\<exists>x. (t, x) \<in> set m \<and> deref x = c)"
      using assms(1) unfolding candle_map_Some [OF ok] set_map set by (force simp: ref_keyed_def)
    then show ?thesis using assms(1) by (auto simp: deref_map_def ref_keyed_def)
  qed
  then have "candle_map (map deref srt) = deref_map m" by (intro ext) (metis not_Some_eq)
  with ok show ?thesis by simp
qed

lemma map_deref_Kept: "map deref (map Kept ch) = ch"
  by (simp add: comp_def)

lemma reusableChunkAt_Some:
  assumes "reusableChunkAt cand xs = Some ch"
  shows "ch \<in> ran (map_of cand) \<and> map deref (take (length ch) xs) = ch"
proof -
  have "map Kept ch = take (length ch) xs \<and> ch \<in> ran (map_of cand)"
    using assms by (auto simp: reusableChunkAt_def ran_def split: list.splits option.splits if_splits)
  then show ?thesis by (metis map_deref_Kept)
qed

lemma takeFreshRun_size: "takeFreshRun cand n xs = (ys, zs) \<Longrightarrow> n + length ys \<le> max n DEFAULT_CANDLE_CHUNK_SIZE"
  by (induction cand n xs arbitrary: ys zs rule: takeFreshRun.induct) (fastforce split: if_splits prod.splits)+

text \<open>Re-chunking keeps the candles and the chunk size.\<close>

lemma chunkWithReuseLoop_correct:
  assumes "\<forall>ch \<in> ran (map_of cand). ch \<noteq> [] \<and> length ch \<le> DEFAULT_CANDLE_CHUNK_SIZE"
  shows "concat (chunkWithReuseLoop cand xs) = map deref xs \<and>
    (\<forall>ch \<in> set (chunkWithReuseLoop cand xs). length ch \<le> DEFAULT_CANDLE_CHUNK_SIZE)"
  using assms
proof (induction cand xs rule: chunkWithReuseLoop.induct)
  case (2 cand x xs)
  show ?case
  proof (cases "reusableChunkAt cand (x # xs)")
    case (Some ch)
    note ch = reusableChunkAt_Some [OF Some]
    have ne: "ch \<noteq> []" "length ch \<le> DEFAULT_CANDLE_CHUNK_SIZE" using ch "2.prems" by auto
    have "map deref (x # xs) = map deref (take (length ch) (x # xs)) @ map deref (drop (length ch) (x # xs))"
      by (metis append_take_drop_id map_append)
    with "2.IH"(2) [OF Some ne(1) "2.prems"] ch ne Some show ?thesis by simp
  next
    case None
    obtain ys zs where run: "takeFreshRun cand 1 xs = (ys, zs)" by fastforce
    then show ?thesis
      using "2.IH"(1) [OF None run [symmetric] "2.prems"] takeFreshRun_append [OF run]
        takeFreshRun_size [OF run] None
      by (simp add: DEFAULT_CANDLE_CHUNK_SIZE_def)
  qed
qed simp

lemma chunkWithReuse_correct:
  assumes "repo_ok r"
  shows "concat (chunkWithReuse r xs) = map deref xs \<and>
    (\<forall>ch \<in> set (chunkWithReuse r xs). length ch \<le> DEFAULT_CANDLE_CHUNK_SIZE)"
  unfolding chunkWithReuse_def
proof (rule chunkWithReuseLoop_correct, rule ballI)
  fix ch assume "ch \<in> ran (map_of (map_set_all (map (\<lambda>chunk. (c_time (hd chunk), chunk)) (r_chunks r)) []))"
  then have "ch \<in> set (r_chunks r)" by (auto simp: map_laws ran_def rev_map dest!: map_of_SomeD)
  with assms show "ch \<noteq> [] \<and> length ch \<le> DEFAULT_CANDLE_CHUNK_SIZE" by (simp add: repo_ok_def chunks_ok_def)
qed

lemma trimRecent_map: "trimRecent m (map f xs) = map f (trimRecent m xs)"
  by (auto simp: trimRecent_def drop_map split: option.splits)

lemma merge_repository:
  assumes ok: "repo_ok r"
    and lim: "trimRecent m (materializeCandleRepository r) = materializeCandleRepository r"
  shows "repo_ok (mergeHistoryIntoCandleRepository r h m a) \<and>
    materializeCandleRepository (mergeHistoryIntoCandleRepository r h m a)
      = mergeHistoryWithLiveCandles h (materializeCandleRepository r) m"
proof -
  let ?H = "normalizeMarketCandleSeries h None" and ?cur = "materializeCandleRepository r"
  have cur: "series_ok ?cur" using ok by (rule repo_series)
  have len: "r_length r = length ?cur" using ok by (simp add: repo_ok_def materializeCandleRepository_def)
  consider "?H = []" | "?H \<noteq> []" "?cur = []" | "?H \<noteq> []" "?cur \<noteq> []" by blast
  then show ?thesis
  proof cases
    case 1
    have "mergeHistoryWithLiveCandles h ?cur None = ?cur"
      using merge_shown [OF 1 normalizeSeries_fix [OF cur]] cur
      by (intro series_eqI merge_ok) (simp_all add: candle_map_def live_overrides_def)
    with 1 ok lim show ?thesis by (simp add: mergeHistoryIntoCandleRepository_def merge_trim [of h ?cur m])
  next
    case 2
    then have "mergeHistoryWithLiveCandles h ?cur m = normalizeMarketCandleSeries ?H m"
      using normalizeSeries_fix [OF cur] by (simp add: mergeHistoryWithLiveCandles_def)
    with 2 len show ?thesis
      by (simp add: mergeHistoryIntoCandleRepository_def create_ok materialize_create)
  next
    case 3
    let ?P = "\<lambda>c. (js_lt (c_time c) (c_time (hd ?H)) \<or> js_lt (c_time (last ?H)) (c_time c))
      \<or> (c_closed c = Some False \<and> js_le (c_time (last ?H)) (c_time c))"
    let ?step = "\<lambda>c m. if ?P c \<or> (case map_of m (c_time c) of None \<Rightarrow> False | Some x \<Rightarrow> candlesEqual c (deref x))
                        then map_set (c_time c) (Kept c) m else m"
    let ?m = "fold ?step ?cur (map_set_all (map (\<lambda>c. (c_time c, Fresh c)) ?H) [])"
    let ?merged = "trimRecent m (js_sort (\<lambda>a b. js_sub (c_time (deref a)) (c_time (deref b))) (map snd ?m))"
    have H: "series_ok ?H" by (rule normalizeSeries_spec)
    have P: "filter ?P ?cur = filter (live_overrides ?H) ?cur"
      using cur H 3 by (intro filter_cong)
        (auto simp: series_ok_def candle_ok_finite js_order_finite live_overrides_def)
    have fresh: "ref_keyed (map_set_all (map (\<lambda>c. (c_time c, Fresh c)) ?H) []) \<and>
        deref_map (map_set_all (map (\<lambda>c. (c_time c, Fresh c)) ?H) []) = candle_map ?H"
      using fresh_entries [of ?H "[]"] H candle_map_rev [OF H]
      by (simp add: series_ok_def ref_keyed_def)
    have keyed: "ref_keyed ?m" "deref_map ?m = candle_map ?H ++ candle_map (filter (live_overrides ?H) ?cur)"
      using kept_entries [of ?cur "map_set_all (map (\<lambda>c. (c_time c, Fresh c)) ?H) []" ?P] fresh cur
        candle_map_rev [OF series_ok_filter [OF cur]] unfolding P by (simp_all add: series_ok_def)
    have flat: "map deref ?merged = mergeHistoryWithLiveCandles h ?cur m"
    proof -
      have "map deref (js_sort (\<lambda>a b. js_sub (c_time (deref a)) (c_time (deref b))) (map snd ?m))
          = mergeHistoryWithLiveCandles h ?cur None"
        using sort_refs [OF keyed(1)] keyed(2) merge_shown [OF refl refl, of h ?cur] normalizeSeries_fix [OF cur]
        by (intro series_eqI merge_ok) simp_all
      then show ?thesis by (simp add: trimRecent_map [symmetric] merge_trim [of h ?cur m])
    qed
    have eq: "mergeHistoryIntoCandleRepository r h m a =
        (if length ?merged = length ?cur \<and> ?merged = map Kept ?cur then r
         else repositoryFromChunks (chunkWithReuse r ?merged) (r_revision r + 1) a)"
      using 3 len unfolding mergeHistoryIntoCandleRepository_def Let_def by simp
    have "map deref (map Kept ?cur) = ?cur" by (simp add: comp_def)
    then have "?merged = map Kept ?cur \<Longrightarrow> ?cur = mergeHistoryWithLiveCandles h ?cur m"
      using flat by metis
    with ok flat chunkWithReuse_correct [OF ok, of ?merged] merge_ok [of h ?cur m]
    show ?thesis unfolding eq by (auto intro!: repositoryFromChunks_ok)
  qed
qed

subsection \<open>Eviction\<close>

lemma delete_filter: "AList.delete k m = filter (\<lambda>(k', _). k' \<noteq> k) m"
  unfolding AList.delete_eq by (rule filter_cong) auto

lemma evict_counts:
  assumes "map_wf m" "(k, r) \<in> set m"
  shows "int (length (AList.delete k m)) = int (length m) - 1"
    "int (totalCandles (AList.delete k m))
       = int (totalCandles m) - int (r_length r)"
  using assms
proof (induction m)
  case (Cons e m)
  { case 1 then show ?case using Cons by (cases e) (force simp: AList.delete_idem)
  next case 2 then show ?case using Cons by (cases e) (force simp: AList.delete_idem totalCandles_def) }
qed auto

definition within_budget :: "candle_repository_budget \<Rightarrow> (string, candle_repository) js_map \<Rightarrow> bool" where
  "within_budget budget m \<longleftrightarrow> length m \<le> b_maxRepositories budget \<and>
     totalCandles m \<le> b_maxCandles budget"

lemma evictLoop_prefix:
  assumes "map_wf m" "set cs \<subseteq> set m" "distinct (map fst cs)"
  shows "\<exists>p \<le> length cs.
    evictLoop budget cs (int (length m)) (int (totalCandles m)) m
      = filter (\<lambda>(k, _). k \<notin> fst ` set (take p cs)) m \<and>
    (p = length cs \<or> within_budget budget (filter (\<lambda>(k, _). k \<notin> fst ` set (take p cs)) m))"
  using assms
proof (induction cs arbitrary: m)
  case (Cons c cs)
  obtain k r where c: "c = (k, r)" by (cases c)
  show ?case
  proof (cases "within_budget budget m")
    case True
    then show ?thesis by (intro exI [of _ 0]) (auto simp: c within_budget_def)
  next
    case False
    let ?m = "AList.delete k m"
    have kr: "(k, r) \<in> set m" using Cons.prems c by simp
    have wf: "map_wf ?m" using Cons.prems(1) by (rule jm.inv_del)
    have sub: "set cs \<subseteq> set ?m" using Cons.prems c by (force simp: delete_filter)
    obtain p where p: "p \<le> length cs"
      "evictLoop budget cs (int (length ?m)) (int (totalCandles ?m)) ?m
         = filter (\<lambda>(k, _). k \<notin> fst ` set (take p cs)) ?m"
      "p = length cs \<or> within_budget budget (filter (\<lambda>(k, _). k \<notin> fst ` set (take p cs)) ?m)"
      using Cons.IH [OF wf sub] Cons.prems c by auto
    have f: "filter (\<lambda>(k, _). k \<notin> fst ` set (take p cs)) ?m = filter (\<lambda>(k', _). k' \<notin> fst ` set (take (Suc p) (c # cs))) m"
      by (auto simp: delete_filter c intro: filter_cong)
    have "evictLoop budget (c # cs) (int (length m)) (int (totalCandles m)) m
        = evictLoop budget cs (int (length ?m)) (int (totalCandles ?m)) ?m"
      using False evict_counts [OF Cons.prems(1) kr] by (auto simp: c within_budget_def)
    with p f show ?thesis by (intro exI [of _ "Suc p"]) auto
  qed
qed simp

lemma evict_order:
  assumes "js_sort (\<lambda>a b. js_sub (f a) (f b)) xs = cs" "\<And>x. x \<in> set xs \<Longrightarrow> js_integral (f x)"
    "x \<in> set (take p cs)" "y \<in> set xs" "y \<notin> set (take p cs)"
  shows "f x \<le> f y"
proof -
  have cs: "cs = sort_key f xs" using assms(1) js_sort_by_integral_key [of xs f, OF assms(2)] by simp
  then have "sorted (map f cs)" by simp
  then have "sorted (map f (take p cs) @ map f (drop p cs))" by (simp add: take_map [symmetric] drop_map [symmetric])
  moreover have "y \<in> set (drop p cs)"
    using assms(4,5) cs by (metis Un_iff append_take_drop_id set_append set_sort)
  ultimately show ?thesis using assms(3) by (auto simp: sorted_append)
qed

lemma evict_spec:
  assumes "map_wf repos"
  obtains p where
    "let cs = js_sort (\<lambda>a b. js_sub (r_lastAccess (snd a)) (r_lastAccess (snd b)))
                (filter (\<lambda>(k, _). k \<notin> prot) repos)
     in p \<le> length cs \<and>
        evictCandleRepositories repos prot budget = filter (\<lambda>(k, _). k \<notin> fst ` set (take p cs)) repos \<and>
        (p = length cs \<or> within_budget budget (evictCandleRepositories repos prot budget)) \<and>
        set cs = {e \<in> set repos. fst e \<notin> prot}"
proof -
  let ?un = "filter (\<lambda>(k, _). k \<notin> prot) repos"
  let ?cs = "js_sort (\<lambda>a b. js_sub (r_lastAccess (snd a)) (r_lastAccess (snd b))) ?un"
  have perm: "mset ?cs = mset ?un" by (rule mset_js_sort)
  have set: "set ?cs = {e \<in> set repos. fst e \<notin> prot}" by (auto simp: set_js_sort)
  have "mset (map fst ?cs) = mset (map fst ?un)" unfolding mset_map perm ..
  then have "distinct (map fst ?cs) = distinct (map fst ?un)" by (rule mset_eq_imp_distinct_iff)
  then have dist: "distinct (map fst ?cs)" using assms by (simp add: distinct_map_filter)
  have sub: "set ?cs \<subseteq> set repos" unfolding set by blast
  from evictLoop_prefix [OF assms sub dist, of budget] set show ?thesis
    unfolding evictCandleRepositories_def [symmetric] by (auto intro: that simp only: Let_def)
qed

subsection \<open>Properties of the repository\<close>

text \<open>
  C3.  A repository behaves as the flat series: upserting into the chunks keeps the repository
  well formed (chunk sizes, offsets, counts, first and last time) and its candles are those of
  the flat upsert, with the same limit.
\<close>

theorem upsertCandleRepository_refines_series:
  assumes "repo_ok r" "length (materializeCandleRepository r) \<le> n" "0 < n"
  shows "repo_ok (upsertCandleRepository r candle (Some n) now) \<and>
    materializeCandleRepository (upsertCandleRepository r candle (Some n) now)
      = upsertMarketCandleIntoSeries (materializeCandleRepository r) candle (Some n)"
proof (cases "normalizeMarketCandle candle")
  case None
  with assms show ?thesis by (simp add: upsert_invalid upsertMarketCandleIntoSeries_def)
next
  case (Some c)
  have lim: "trimRecent (Some n) (materializeCandleRepository r) = materializeCandleRepository r"
    using assms(2) by (simp add: trimRecent_def)
  show ?thesis
    using upsert_repository [OF assms(1) Some lim] upsert_within_limit [OF repo_series [OF assms(1)] Some lim] assms(3)
    by simp
qed

text \<open>
  C12.  Merging a history page into the chunked repository, with chunk reuse and the shortcut for an
  unchanged series, gives a well-formed repository that holds exactly the flat merge of the
  page with the repository's candles.
\<close>

theorem mergeHistoryIntoCandleRepository_refines_merge:
  assumes "repo_ok r" "length (materializeCandleRepository r) \<le> n"
  shows "repo_ok (mergeHistoryIntoCandleRepository r history (Some n) now) \<and>
    materializeCandleRepository (mergeHistoryIntoCandleRepository r history (Some n) now)
      = mergeHistoryWithLiveCandles history (materializeCandleRepository r) (Some n)"
  using assms by (intro merge_repository) (auto simp: trimRecent_def)

text \<open>
  Index and time lookups agree with the flat list: \<open>candleAtRepositoryIndex\<close> is list indexing,
  undefined outside, and \<open>findCandleIndexByTime\<close> returns the position of the candle at
  that time, or -1 exactly when there is none.
\<close>

theorem repository_lookups_correct:
  assumes "repo_ok r" "js_isFinite t"
  shows "candleAtRepositoryIndex r i =
      (if 0 \<le> i \<and> nat i < length (materializeCandleRepository r)
       then Some (materializeCandleRepository r ! nat i) else None) \<and>
    (findCandleIndexByTime r t = - 1 \<and> (\<forall>c \<in> set (materializeCandleRepository r). c_time c \<noteq> t) \<or>
     (\<exists>k < length (materializeCandleRepository r). findCandleIndexByTime r t = int k \<and>
        c_time (materializeCandleRepository r ! k) = t))"
proof
  have len: "r_length r = length (materializeCandleRepository r)"
    using assms(1) by (simp add: repo_ok_def materializeCandleRepository_def)
  show "candleAtRepositoryIndex r i =
      (if 0 \<le> i \<and> nat i < length (materializeCandleRepository r)
       then Some (materializeCandleRepository r ! nat i) else None)"
  proof (cases "0 \<le> i \<and> nat i < length (materializeCandleRepository r)")
    case True
    with candleAt_inside [OF assms(1), of "nat i"] show ?thesis by simp
  next
    case False
    then have "i < 0 \<or> int (r_length r) \<le> i" using len by linarith
    with False show ?thesis by (auto simp: candleAtRepositoryIndex_def)
  qed
  show "findCandleIndexByTime r t = - 1 \<and> (\<forall>c \<in> set (materializeCandleRepository r). c_time c \<noteq> t) \<or>
     (\<exists>k < length (materializeCandleRepository r). findCandleIndexByTime r t = int k \<and>
        c_time (materializeCandleRepository r ! k) = t)"
    using findCandleIndex_found [OF assms] findCandleIndex_complete [OF assms(1)] by blast
qed

text \<open>
  Eviction never drops a protected repository, invents nothing, frees down to the budget
  unless only protected repositories are left, and drops least recently used ones
  first: whatever is dropped was last used no later than any unprotected survivor.
\<close>

theorem evictCandleRepositories_correct:
  assumes "map_wf repos" "\<forall>e \<in> set repos. js_integral (r_lastAccess (snd e))"
  shows "let kept = evictCandleRepositories repos prot budget in
    set kept \<subseteq> set repos \<and>
    (\<forall>k r. (k, r) \<in> set repos \<and> k \<in> prot \<longrightarrow> (k, r) \<in> set kept) \<and>
    (within_budget budget kept \<or> fst ` set kept \<subseteq> prot) \<and>
    (\<forall>k r k' r'. (k, r) \<in> set repos - set kept \<and> (k', r') \<in> set kept \<and> k' \<notin> prot \<longrightarrow>
       r_lastAccess r \<le> r_lastAccess r')"
proof -
  define kept where "kept = evictCandleRepositories repos prot budget"
  let ?un = "filter (\<lambda>(k, _). k \<notin> prot) repos"
  define cs where "cs = js_sort (\<lambda>a b. js_sub (r_lastAccess (snd a)) (r_lastAccess (snd b))) ?un"
  obtain p where p: "p \<le> length cs" and kept: "kept = filter (\<lambda>(k, _). k \<notin> fst ` set (take p cs)) repos"
    and stop: "p = length cs \<or> within_budget budget kept"
    and cs: "set cs = {e \<in> set repos. fst e \<notin> prot}"
    using evict_spec [OF assms(1), of prot budget thesis] unfolding Let_def cs_def kept_def by blast
  have take: "set (take p cs) \<subseteq> set cs" by (rule set_take_subset)
  have prot: "(k, r) \<in> set kept" if "(k, r) \<in> set repos" "k \<in> prot" for k r
    using that take cs by (auto simp: kept)
  have budget: "within_budget budget kept \<or> fst ` set kept \<subseteq> prot"
    using stop cs by (force simp: kept)
  have lru: "r_lastAccess r \<le> r_lastAccess r'"
    if "(k, r) \<in> set repos - set kept" "(k', r') \<in> set kept" "k' \<notin> prot" for k r k' r'
  proof -
    have "k \<in> fst ` set (take p cs)" using that(1) by (auto simp: kept)
    then obtain r0 where r0: "(k, r0) \<in> set (take p cs)" by force
    then have "(k, r0) \<in> set repos" using take cs by auto
    then have "r0 = r" using that(1) assms(1) by (metis DiffD1 eq_key_imp_eq_value)
    moreover have "(k', r') \<in> set ?un" "(k', r') \<notin> set (take p cs)"
      using that(2,3) by (force simp: kept)+
    ultimately show ?thesis
      using evict_order [OF cs_def [symmetric], of "(k, r0)" p "(k', r')"] r0 assms(2) by force
  qed
  have "set kept \<subseteq> set repos" by (auto simp: kept)
  then show ?thesis using prot budget lru unfolding kept_def [symmetric] Let_def by blast
qed

subsection \<open>Witnesses\<close>

text \<open>A repository of two bars.\<close>

definition twoBars :: candle_repository where
  "twoBars = createCandleRepository [flatBar 60 5, flatBar 120 6] None (Fin 0)"

lemma twoBars_ok [simp]: "repo_ok twoBars"
  by (simp add: twoBars_def create_ok)

lemma twoBars_series [simp]: "materializeCandleRepository twoBars = [flatBar 60 5, flatBar 120 6]"
proof -
  have "series_ok [flatBar 60 5, flatBar 120 6]" by (simp add: series_ok_def)
  then show ?thesis by (simp add: twoBars_def materialize_create normalizeSeries_fix)
qed

theorem upsertCandleRepository_refines_series_witness:
  "materializeCandleRepository (upsertCandleRepository twoBars (flatBar 90 7) (Some 10) (Fin 1))
     = upsertMarketCandleIntoSeries [flatBar 60 5, flatBar 120 6] (flatBar 90 7) (Some 10)"
  using upsertCandleRepository_refines_series [OF twoBars_ok, of 10 "flatBar 90 7" "Fin 1"] by simp

theorem mergeHistoryIntoCandleRepository_refines_merge_witness:
  "materializeCandleRepository (mergeHistoryIntoCandleRepository twoBars [flatBar 0 4, flatBar 60 8] (Some 10) (Fin 1))
     = mergeHistoryWithLiveCandles [flatBar 0 4, flatBar 60 8] [flatBar 60 5, flatBar 120 6] (Some 10)"
  using mergeHistoryIntoCandleRepository_refines_merge [OF twoBars_ok, of 10 "[flatBar 0 4, flatBar 60 8]" "Fin 1"]
  by simp

theorem repository_lookups_correct_witness:
  "candleAtRepositoryIndex twoBars 1 = Some (flatBar 120 6) \<and> candleAtRepositoryIndex twoBars 2 = None"
  using repository_lookups_correct [OF twoBars_ok, of "Fin 120" 1]
    repository_lookups_correct [OF twoBars_ok, of "Fin 120" 2] by simp

theorem evictCandleRepositories_correct_witness:
  "let repos = [(''a'', twoBars), (''b'', twoBars)];
       kept = evictCandleRepositories repos {''b''} \<lparr>b_maxRepositories = 1, b_maxCandles = 100\<rparr>
   in (''b'', twoBars) \<in> set kept \<and>
      (within_budget \<lparr>b_maxRepositories = 1, b_maxCandles = 100\<rparr> kept \<or> fst ` set kept \<subseteq> {''b''})"
proof -
  let ?repos = "[(''a'', twoBars), (''b'', twoBars)]"
  have "map_wf ?repos" "\<forall>e \<in> set ?repos. js_integral (r_lastAccess (snd e))"
    by (simp_all add: twoBars_def createCandleRepository_def repositoryFromChunks_def js_integral_def Let_def)
  from evictCandleRepositories_correct [OF this, of "{''b''}" "\<lparr>b_maxRepositories = 1, b_maxCandles = 100\<rparr>"]
  show ?thesis unfolding Let_def by auto
qed

end
