(* ===== verification/CandleEngine.thy ===== *)
theory CandleEngine
  imports CandleSeries "HOL-Library.Sublist"
begin

section \<open>The candle engine: forming bars from ticks and klines\<close>

text \<open>
  Models the class \<open>CandleEngine\<close> of \<open>services/market-data/CandleEngine.ts\<close> with the timeframe
  table of \<open>types/market.ts\<close> and the key function of \<open>types/marketData.ts\<close>.  The engine's private
  map from \<open>symbol:timeframe\<close> to the forming bar is the state; every method returns the updated
  state, and \<open>applyTick\<close> and \<open>applyKline\<close> also their \<open>MergeResult\<close>.

  The main result is that feeding any stream of ticks tick by tick builds exactly the bars one
  obtains by grouping the accepted ticks by bucket and aggregating each group.
\<close>

subsection \<open>Definitions\<close>

datatype timeframe =
  TF_1m | TF_3m | TF_5m | TF_15m | TF_30m | TF_1H | TF_2H | TF_4H | TF_1D | TF_1W | TF_1M

definition TIMEFRAMES :: "timeframe list" where
  "TIMEFRAMES =
     [TF_1m, TF_3m, TF_5m, TF_15m, TF_30m, TF_1H, TF_2H, TF_4H, TF_1D, TF_1W, TF_1M]"

fun timeframeName :: "timeframe \<Rightarrow> string" where
  "timeframeName TF_1m = ''1m''"
| "timeframeName TF_3m = ''3m''"
| "timeframeName TF_5m = ''5m''"
| "timeframeName TF_15m = ''15m''"
| "timeframeName TF_30m = ''30m''"
| "timeframeName TF_1H = ''1H''"
| "timeframeName TF_2H = ''2H''"
| "timeframeName TF_4H = ''4H''"
| "timeframeName TF_1D = ''1D''"
| "timeframeName TF_1W = ''1W''"
| "timeframeName TF_1M = ''1M''"

fun TF_SECONDS :: "timeframe \<Rightarrow> int" where
  "TF_SECONDS TF_1m = 60"
| "TF_SECONDS TF_3m = 180"
| "TF_SECONDS TF_5m = 300"
| "TF_SECONDS TF_15m = 900"
| "TF_SECONDS TF_30m = 1800"
| "TF_SECONDS TF_1H = 3600"
| "TF_SECONDS TF_2H = 7200"
| "TF_SECONDS TF_4H = 14400"
| "TF_SECONDS TF_1D = 86400"
| "TF_SECONDS TF_1W = 604800"
| "TF_SECONDS TF_1M = 2592000"

fun subscriptionKey :: "string \<Rightarrow> timeframe option \<Rightarrow> string" where
  "subscriptionKey symbol (Some timeframe) = symbol @ '':'' @ timeframeName timeframe"
| "subscriptionKey symbol None = symbol"

type_synonym engine_state = "(string, market_candle) js_map"

record merge_result =
  mr_current :: market_candle
  mr_closed :: "market_candle option"

definition seedHistory ::
    "engine_state \<Rightarrow> string \<Rightarrow> timeframe \<Rightarrow> market_candle list \<Rightarrow> engine_state" where
  "seedHistory e symbol timeframe candles =
     (let key = subscriptionKey symbol (Some timeframe)
      in if candles \<noteq> [] then map_set key ((last candles)\<lparr>c_closed := Some False\<rparr>) e
         else map_delete key e)"

definition getCurrent :: "engine_state \<Rightarrow> string \<Rightarrow> timeframe \<Rightarrow> market_candle option" where
  "getCurrent e symbol timeframe = map_get e (subscriptionKey symbol (Some timeframe))"

definition tickBucket :: "timeframe \<Rightarrow> jsnum \<Rightarrow> jsnum" where
  "tickBucket timeframe timeSec =
     (let span = Fin (of_int (TF_SECONDS timeframe))
      in js_mul (js_floor (js_div timeSec span)) span)"

definition freshBar :: "jsnum \<Rightarrow> jsnum \<Rightarrow> jsnum option \<Rightarrow> market_candle" where
  "freshBar bucket price volume =
     \<lparr>c_time = bucket, c_open = price, c_high = price, c_low = price, c_close = price,
      c_volume = (case volume of Some v \<Rightarrow> v | None \<Rightarrow> Fin 0), c_closed = Some False\<rparr>"

definition extendBar :: "market_candle \<Rightarrow> jsnum \<Rightarrow> jsnum option \<Rightarrow> market_candle" where
  "extendBar cur price volume =
     cur\<lparr>c_high := js_max (c_high cur) price, c_low := js_min (c_low cur) price, c_close := price,
         c_volume := (case volume of Some v \<Rightarrow> v | None \<Rightarrow> c_volume cur), c_closed := Some False\<rparr>"

definition applyTick ::
    "engine_state \<Rightarrow> string \<Rightarrow> timeframe \<Rightarrow> jsnum \<Rightarrow> jsnum \<Rightarrow> jsnum option
       \<Rightarrow> engine_state \<times> merge_result" where
  "applyTick e symbol timeframe price timeSec volume =
     (let key = subscriptionKey symbol (Some timeframe);
          bucket = tickBucket timeframe timeSec
      in case map_get e key of
           None \<Rightarrow>
             let fresh = freshBar bucket price volume
             in (map_set key fresh e, \<lparr>mr_current = fresh, mr_closed = None\<rparr>)
         | Some cur \<Rightarrow>
             if js_lt (c_time cur) bucket then
               let fresh = freshBar bucket price volume
               in (map_set key fresh e,
                   \<lparr>mr_current = fresh, mr_closed = Some (cur\<lparr>c_closed := Some True\<rparr>)\<rparr>)
             else if js_lt bucket (c_time cur) then
               (e, \<lparr>mr_current = cur, mr_closed = None\<rparr>)
             else
               let updated = extendBar cur price volume
               in (map_set key updated e, \<lparr>mr_current = updated, mr_closed = None\<rparr>))"

definition applyKline ::
    "engine_state \<Rightarrow> string \<Rightarrow> timeframe \<Rightarrow> market_candle \<Rightarrow> engine_state \<times> merge_result" where
  "applyKline e symbol timeframe candle =
     (let key = subscriptionKey symbol (Some timeframe)
      in (map_set key candle e,
          \<lparr>mr_current = candle,
           mr_closed = (if c_closed candle = Some True then Some candle else None)\<rparr>))"

definition resetEngine :: "engine_state \<Rightarrow> string option \<Rightarrow> timeframe option \<Rightarrow> engine_state" where
  "resetEngine e symbol timeframe =
     (case symbol of
        None \<Rightarrow> []
      | Some s \<Rightarrow>
          if s = '''' then []
          else case timeframe of
                 Some tf \<Rightarrow> map_delete (subscriptionKey s (Some tf)) e
               | None \<Rightarrow>
                   fold (\<lambda>k m. if k = s \<or> prefix (s @ '':'') k then map_delete k m else m)
                        (map fst e) e)"

subsection \<open>Specification: grouping a tick stream by bucket\<close>

record tick =
  t_price :: jsnum
  t_time :: jsnum
  t_volume :: "jsnum option"

text \<open>A tick is accepted unless its bucket lies before one already opened.\<close>

definition acceptTick :: "timeframe \<Rightarrow> tick list \<Rightarrow> tick \<Rightarrow> bool" where
  "acceptTick tf acc t \<longleftrightarrow> acc = [] \<or> tickBucket tf (t_time (last acc)) \<le> tickBucket tf (t_time t)"

definition acceptedTicks :: "timeframe \<Rightarrow> tick list \<Rightarrow> tick list" where
  "acceptedTicks tf ts = foldl (\<lambda>acc t. if acceptTick tf acc t then acc @ [t] else acc) [] ts"

fun lastVolume :: "tick list \<Rightarrow> jsnum" where
  "lastVolume [] = Fin 0"
| "lastVolume (t # ts) = foldl (\<lambda>v t. case t_volume t of Some w \<Rightarrow> w | None \<Rightarrow> v)
     (case t_volume t of Some w \<Rightarrow> w | None \<Rightarrow> Fin 0) ts"

text \<open>The bar of one bucket: first, highest, lowest and last price of its ticks.\<close>

definition aggregateBar :: "jsnum \<Rightarrow> tick list \<Rightarrow> market_candle" where
  "aggregateBar bucket ts =
     \<lparr>c_time = bucket, c_open = t_price (hd ts),
      c_high = foldl js_max (t_price (hd ts)) (map t_price (tl ts)),
      c_low = foldl js_min (t_price (hd ts)) (map t_price (tl ts)),
      c_close = t_price (last ts), c_volume = lastVolume ts, c_closed = Some False\<rparr>"

definition groupedBars :: "timeframe \<Rightarrow> tick list \<Rightarrow> market_candle list" where
  "groupedBars tf ts =
     (let acc = acceptedTicks tf ts
      in map (\<lambda>b. aggregateBar b (filter (\<lambda>t. tickBucket tf (t_time t) = b) acc))
             (remdups_adj (map (\<lambda>t. tickBucket tf (t_time t)) acc)))"

text \<open>Running the engine on a stream, collecting the bars it reports as closed.\<close>

fun runTicks ::
    "engine_state \<Rightarrow> string \<Rightarrow> timeframe \<Rightarrow> tick list \<Rightarrow> engine_state \<times> market_candle list" where
  "runTicks e symbol tf [] = (e, [])"
| "runTicks e symbol tf (t # ts) =
     (let (e', r) = applyTick e symbol tf (t_price t) (t_time t) (t_volume t);
          (e'', closed) = runTicks e' symbol tf ts
      in (e'', (case mr_closed r of Some c \<Rightarrow> [c] | None \<Rightarrow> []) @ closed))"

subsection \<open>Keys\<close>

lemma timeframeName_no_colon: "CHR '':'' \<notin> set (timeframeName tf)"
  by (cases tf) auto

lemma timeframeName_inj: "timeframeName a = timeframeName b \<longleftrightarrow> a = b"
  by (cases a; cases b) auto

lemma split_first_unique: "x @ c # a = y @ c # b \<Longrightarrow> c \<notin> set x \<Longrightarrow> c \<notin> set y \<Longrightarrow> x = y \<and> a = b"
  by (induction x arbitrary: y; case_tac y) auto

lemma append_colon_inj:
  assumes "a @ '':'' @ x = b @ '':'' @ y" "CHR '':'' \<notin> set x" "CHR '':'' \<notin> set y"
  shows "a = b \<and> x = y"
proof -
  have "rev x @ CHR '':'' # rev a = rev y @ CHR '':'' # rev b"
    using arg_cong [OF assms(1), of rev] by simp
  then have "rev x = rev y \<and> rev a = rev b"
    using assms(2,3) by (intro split_first_unique) auto
  then show ?thesis by simp
qed

lemma subscriptionKey_inj:
  "subscriptionKey s (Some a) = subscriptionKey t (Some b) \<longleftrightarrow> s = t \<and> a = b"
  using append_colon_inj [of s "timeframeName a" t "timeframeName b"]
  by (auto simp: timeframeName_no_colon timeframeName_inj)

lemma prefix_key_iff:
  "prefix (s @ '':'') (subscriptionKey t (Some tf)) \<longleftrightarrow> t = s \<or> prefix (s @ '':'') t"
proof
  assume "prefix (s @ '':'') (subscriptionKey t (Some tf))"
  then obtain r where r: "t @ '':'' @ timeframeName tf = s @ '':'' @ r" by (auto simp: prefix_def)
  then have "(\<exists>u. t = s @ u \<and> u @ '':'' @ timeframeName tf = '':'' @ r)
      \<or> (\<exists>u. s = t @ u \<and> '':'' @ timeframeName tf = u @ '':'' @ r)"
    by (auto simp: append_eq_append_conv2)
  then show "t = s \<or> prefix (s @ '':'') t"
  proof (elim disjE exE conjE)
    fix u assume "t = s @ u" "u @ '':'' @ timeframeName tf = '':'' @ r"
    then show ?thesis by (cases u) auto
  next
    fix u assume u: "s = t @ u" "'':'' @ timeframeName tf = u @ '':'' @ r"
    then show ?thesis using timeframeName_no_colon [of tf] by (cases u) auto
  qed
next
  assume "t = s \<or> prefix (s @ '':'') t"
  then show "prefix (s @ '':'') (subscriptionKey t (Some tf))" by (auto simp: prefix_def)
qed

subsection \<open>Buckets\<close>

lemma TF_SECONDS_range: "60 \<le> TF_SECONDS tf" "TF_SECONDS tf \<le> 2592000"
  by (cases tf; simp)+

lemma tickBucket_int:
  assumes "0 \<le> t" "t < 2 ^ 53"
  shows "tickBucket tf (Fin (of_int t)) = Fin (of_int (t div TF_SECONDS tf * TF_SECONDS tf))"
proof -
  let ?s = "TF_SECONDS tf"
  have s: "0 < ?s" "?s < 2 ^ 53" using TF_SECONDS_range [of tf] by auto
  have "t div ?s * ?s \<le> t" using s by (simp add: minus_mod_eq_div_mult [symmetric])
  moreover have "0 \<le> t div ?s * ?s" using s assms by (simp add: pos_imp_zdiv_nonneg_iff)
  ultimately have "f64 (of_int (t div ?s * ?s)) = Fin (of_int (t div ?s * ?s))"
    using assms by (intro f64_of_int) simp
  then show ?thesis using js_floor_div_int [OF assms s] by (simp add: tickBucket_def Let_def)
qed

subsection \<open>One tick\<close>

lemma applyTick_other:
  assumes "subscriptionKey symbol (Some tf) \<noteq> k"
  shows "map_get (fst (applyTick e symbol tf p t v)) k = map_get e k"
  using assms by (auto simp: applyTick_def Let_def update_conv' split: option.splits)

lemma applyTick_current:
  "getCurrent (fst (applyTick e symbol tf p t v)) symbol tf
     = Some (mr_current (snd (applyTick e symbol tf p t v)))"
  by (auto simp: applyTick_def getCurrent_def Let_def update_conv' split: option.splits)

lemma acceptedTicks_simps [simp]:
  "acceptedTicks tf [] = []"
  "acceptedTicks tf (ts @ [t]) =
     (if acceptTick tf (acceptedTicks tf ts) t then acceptedTicks tf ts @ [t] else acceptedTicks tf ts)"
  by (simp_all add: acceptedTicks_def)

lemma acceptedTicks_nonempty: "ts \<noteq> [] \<Longrightarrow> acceptedTicks tf ts \<noteq> []"
  by (induction ts rule: rev_induct) (auto simp: acceptTick_def)

lemma acceptedTicks_subset: "set (acceptedTicks tf ts) \<subseteq> set ts"
  by (induction ts rule: rev_induct) auto

lemma acceptedTicks_sorted: "sorted (map (\<lambda>t. tickBucket tf (t_time t)) (acceptedTicks tf ts))"
proof (induction ts rule: rev_induct)
  case (snoc t ts)
  show ?case
  proof (cases "acceptedTicks tf ts = []")
    case False
    then obtain ys y where ys: "acceptedTicks tf ts = ys @ [y]" by (metis rev_exhaust)
    with snoc show ?thesis by (auto simp: acceptTick_def sorted_append intro: order_trans)
  qed simp
qed simp

lemma aggregateBar_snoc:
  "ts \<noteq> [] \<Longrightarrow> aggregateBar b (ts @ [t]) = extendBar (aggregateBar b ts) (t_price t) (t_volume t)"
  by (cases ts) (simp_all add: aggregateBar_def extendBar_def split: option.splits)

lemma aggregateBar_single: "aggregateBar b [t] = freshBar b (t_price t) (t_volume t)"
  by (simp add: aggregateBar_def freshBar_def)

lemma remdups_adj_snoc:
  "remdups_adj (xs @ [x]) = (if xs \<noteq> [] \<and> last xs = x then remdups_adj xs else remdups_adj xs @ [x])"
proof (cases "xs = []")
  case False
  then obtain ys y where "xs = ys @ [y]" by (metis rev_exhaust)
  then show ?thesis by (simp add: remdups_adj_append_two)
qed simp

lemma distinct_remdups_adj_sorted: "sorted xs \<Longrightarrow> distinct (remdups_adj xs)"
proof (induction xs rule: rev_induct)
  case (snoc x xs)
  show ?case
  proof (cases "xs = [] \<or> last xs = x")
    case False
    then obtain ys y where ys: "xs = ys @ [y]" "y \<noteq> x" by (metis last_snoc rev_exhaust)
    with snoc.prems have "x \<notin> set xs" by (fastforce simp: sorted_append)
    with snoc False show ?thesis by (simp add: remdups_adj_snoc sorted_append)
  qed (use snoc in \<open>auto simp: remdups_adj_snoc sorted_append\<close>)
qed simp

subsection \<open>The stream\<close>

lemma groupedBars_step:
  fixes t :: tick
  assumes "acceptedTicks tf ts = ys @ [y]"
  defines "bt \<equiv> tickBucket tf (t_time t)" and "bl \<equiv> tickBucket tf (t_time y)"
  shows "bt < bl \<Longrightarrow> groupedBars tf (ts @ [t]) = groupedBars tf ts"
    and "bt = bl \<Longrightarrow> groupedBars tf (ts @ [t]) =
           butlast (groupedBars tf ts) @ [extendBar (last (groupedBars tf ts)) (t_price t) (t_volume t)]"
    and "bl < bt \<Longrightarrow> groupedBars tf (ts @ [t]) =
           groupedBars tf ts @ [freshBar bt (t_price t) (t_volume t)]"
    and "groupedBars tf ts \<noteq> [] \<and> c_time (last (groupedBars tf ts)) = bl"
proof -
  let ?b = "\<lambda>t. tickBucket tf (t_time t)" and ?acc = "acceptedTicks tf ts"
  let ?L = "remdups_adj (map ?b ?acc)"
  have srt: "sorted (map ?b ?acc)" by (rule acceptedTicks_sorted)
  have L: "?L \<noteq> []" "last ?L = bl" using assms by simp_all
  then obtain M where M: "?L = M @ [bl]" by (metis append_butlast_last_id)
  have nM: "bl \<notin> set M" using distinct_remdups_adj_sorted [OF srt] M by simp
  have le: "?b x \<le> bl" if "x \<in> set ?acc" for x
    using srt that by (auto simp: assms(1) bl_def sorted_append)
  have lb: "map ?b ?acc \<noteq> []" "last (map ?b ?acc) = bl" using assms(1) by (simp_all add: bl_def)
  have snoc: "map ?b (?acc @ [t]) = map ?b ?acc @ [bt]" by (simp add: bt_def)
  have setL: "set ?L = ?b ` set ?acc" by simp
  have ne: "filter (\<lambda>x. ?b x = bl) ?acc \<noteq> []" by (simp add: assms(1) bl_def)
  show "groupedBars tf ts \<noteq> [] \<and> c_time (last (groupedBars tf ts)) = bl"
    using M by (simp add: groupedBars_def Let_def aggregateBar_def)
  show "bt < bl \<Longrightarrow> groupedBars tf (ts @ [t]) = groupedBars tf ts"
    using assms(1) by (auto simp: groupedBars_def acceptTick_def bt_def bl_def dest: leD)
  show "bt = bl \<Longrightarrow> groupedBars tf (ts @ [t]) =
      butlast (groupedBars tf ts) @ [extendBar (last (groupedBars tf ts)) (t_price t) (t_volume t)]"
  proof -
    assume eq: "bt = bl"
    have acc: "acceptedTicks tf (ts @ [t]) = ?acc @ [t]"
      using eq by (simp add: acceptTick_def assms)
    have L': "remdups_adj (map ?b (?acc @ [t])) = M @ [bl]"
      unfolding snoc using lb eq M by (simp only: remdups_adj_snoc) simp
    have "map (\<lambda>b. aggregateBar b (filter (\<lambda>t. ?b t = b) (?acc @ [t]))) M
        = map (\<lambda>b. aggregateBar b (filter (\<lambda>t. ?b t = b) ?acc)) M"
      using nM eq by (auto simp: bt_def)
    moreover have "filter (\<lambda>x. ?b x = bl) (?acc @ [t]) = filter (\<lambda>x. ?b x = bl) ?acc @ [t]"
      using eq by (simp add: bt_def)
    ultimately show ?thesis
      unfolding groupedBars_def Let_def acc L' M
      by (simp only: map_append list.map butlast_snoc last_snoc aggregateBar_snoc [OF ne])
  qed
  show "bl < bt \<Longrightarrow> groupedBars tf (ts @ [t]) = groupedBars tf ts @ [freshBar bt (t_price t) (t_volume t)]"
  proof -
    assume lt: "bl < bt"
    have acc: "acceptedTicks tf (ts @ [t]) = ?acc @ [t]"
      using lt by (simp add: acceptTick_def assms less_imp_le)
    have L': "remdups_adj (map ?b (?acc @ [t])) = ?L @ [bt]"
      unfolding snoc using lb lt by (simp only: remdups_adj_snoc) simp
    have "map (\<lambda>b. aggregateBar b (filter (\<lambda>t. ?b t = b) (?acc @ [t]))) ?L
        = map (\<lambda>b. aggregateBar b (filter (\<lambda>t. ?b t = b) ?acc)) ?L"
    proof (rule map_cong [OF refl])
      fix b assume "b \<in> set ?L"
      then have "b \<le> bl" using le by (auto simp: setL)
      then show "aggregateBar b (filter (\<lambda>t. ?b t = b) (?acc @ [t]))
          = aggregateBar b (filter (\<lambda>t. ?b t = b) ?acc)"
        using lt by (auto simp: bt_def)
    qed
    moreover have "filter (\<lambda>x. ?b x = bt) (?acc @ [t]) = [t]"
      using le lt by (fastforce simp: bt_def filter_empty_conv)
    ultimately show ?thesis
      unfolding groupedBars_def Let_def acc L' by (simp only: map_append list.map aggregateBar_single)
  qed
qed

lemma runTicks_snoc:
  "runTicks e symbol tf (ts @ [t]) =
     (let (e', closed) = runTicks e symbol tf ts;
          (e'', r) = applyTick e' symbol tf (t_price t) (t_time t) (t_volume t)
      in (e'', closed @ (case mr_closed r of Some c \<Rightarrow> [c] | None \<Rightarrow> [])))"
  by (induction ts arbitrary: e) (simp_all add: split_beta Let_def)

lemma runTicks_grouped:
  assumes "ts \<noteq> []" "\<forall>t \<in> set ts. js_isFinite (tickBucket tf (t_time t))" "getCurrent e symbol tf = None"
  shows "getCurrent (fst (runTicks e symbol tf ts)) symbol tf = Some (last (groupedBars tf ts))
    \<and> snd (runTicks e symbol tf ts) = map (\<lambda>c. c\<lparr>c_closed := Some True\<rparr>) (butlast (groupedBars tf ts))"
  using assms(1,2)
proof (induction ts rule: rev_induct)
  case (snoc t ts)
  let ?key = "subscriptionKey symbol (Some tf)"
  show ?case
  proof (cases "ts = []")
    case True
    then show ?thesis using assms(3)
      by (simp add: groupedBars_def acceptedTicks_def acceptTick_def aggregateBar_single applyTick_def
          getCurrent_def Let_def update_conv' del: subscriptionKey.simps)
  next
    case False
    then obtain ys y where ys: "acceptedTicks tf ts = ys @ [y]"
      by (metis acceptedTicks_nonempty rev_exhaust)
    note step = groupedBars_step(1-3) [OF ys, of t] groupedBars_step(4) [OF ys]
    have "y \<in> set ts" using acceptedTicks_subset [of tf ts] ys by auto
    then have fin: "js_isFinite (tickBucket tf (t_time t))" "js_isFinite (tickBucket tf (t_time y))"
      using snoc.prems by auto
    obtain e' cl where run: "runTicks e symbol tf ts = (e', cl)" by fastforce
    have IH: "map_get e' ?key = Some (last (groupedBars tf ts))"
        "cl = map (\<lambda>c. c\<lparr>c_closed := Some True\<rparr>) (butlast (groupedBars tf ts))"
      using snoc.IH snoc.prems False by (auto simp: run getCurrent_def)
    have last_map: "map f (butlast xs) @ [f (last xs)] = map f xs" if "xs \<noteq> []" for f :: "market_candle \<Rightarrow> market_candle" and xs
      using that by (metis append_butlast_last_id list.simps(8,9) map_append)
    consider "tickBucket tf (t_time t) < tickBucket tf (t_time y)"
      | "tickBucket tf (t_time t) = tickBucket tf (t_time y)"
      | "tickBucket tf (t_time y) < tickBucket tf (t_time t)" by (rule linorder_cases)
    then show ?thesis
    proof cases
      case 1
      then show ?thesis using step(1,4) IH fin
        by (simp add: runTicks_snoc run applyTick_def getCurrent_def Let_def js_order_finite
            order.strict_implies_not_eq not_less_iff_gr_or_eq del: subscriptionKey.simps)
    next
      case 2
      then show ?thesis using step(2,4) IH fin
        by (simp add: runTicks_snoc run applyTick_def getCurrent_def Let_def js_order_finite update_conv'
            del: subscriptionKey.simps)
    next
      case 3
      then show ?thesis using step(3,4) IH fin
        by (simp add: runTicks_snoc run applyTick_def getCurrent_def Let_def js_order_finite update_conv'
            last_map del: subscriptionKey.simps)
    qed
  qed
qed simp

lemma groupedBars_times:
  "strictly_by c_time (groupedBars tf ts)"
proof -
  have "map c_time (groupedBars tf ts) = remdups_adj (map (\<lambda>t. tickBucket tf (t_time t)) (acceptedTicks tf ts))"
    by (simp add: groupedBars_def Let_def aggregateBar_def comp_def)
  then show ?thesis
    using acceptedTicks_sorted [of tf ts] distinct_remdups_adj_sorted sorted_remdups_adj
    by (auto simp: strict_sorted_iff)
qed

lemma runTicks_other:
  "subscriptionKey symbol (Some tf) \<noteq> k \<Longrightarrow> map_get (fst (runTicks e symbol tf ts)) k = map_get e k"
  by (induction ts rule: rev_induct)
    (simp_all add: runTicks_snoc split_beta Let_def applyTick_other del: subscriptionKey.simps)

lemma fold_delete_if:
  "map_of (fold (\<lambda>k m. if P k then map_delete k m else m) ks e) k =
     (if k \<in> set ks \<and> P k then None else map_of e k)"
  by (induction ks arbitrary: e) (auto simp: delete_conv')

subsection \<open>Properties\<close>

text \<open>
  C4.  Feeding a stream of ticks to the engine, tick by tick, builds exactly the bars of the
  specification: group the accepted ticks (those not older than the newest bucket) by bucket
  and take first, highest, lowest and last price and last known volume of each group.  All but
  the newest bar were reported as closed, in order, each once; the newest is the forming bar;
  bar times strictly increase; no other symbol or timeframe is touched.
\<close>

theorem tick_stream_builds_grouped_bars:
  assumes "ts \<noteq> []" "\<forall>t \<in> set ts. js_isFinite (tickBucket tf (t_time t))"
    and "getCurrent e symbol tf = None"
  shows "getCurrent (fst (runTicks e symbol tf ts)) symbol tf = Some (last (groupedBars tf ts))
    \<and> snd (runTicks e symbol tf ts)
        = map (\<lambda>c. c\<lparr>c_closed := Some True\<rparr>) (butlast (groupedBars tf ts))
    \<and> strictly_by c_time (groupedBars tf ts)
    \<and> (\<forall>symbol' tf'. (symbol', tf') \<noteq> (symbol, tf) \<longrightarrow>
          getCurrent (fst (runTicks e symbol tf ts)) symbol' tf' = getCurrent e symbol' tf')"
proof (intro conjI allI impI)
  fix symbol' tf' assume "(symbol', tf') \<noteq> (symbol, tf)"
  then have "subscriptionKey symbol (Some tf) \<noteq> subscriptionKey symbol' (Some tf')"
    using subscriptionKey_inj by metis
  then show "getCurrent (fst (runTicks e symbol tf ts)) symbol' tf' = getCurrent e symbol' tf'"
    by (simp only: getCurrent_def runTicks_other not_False_eq_True)
qed (use runTicks_grouped [OF assms] groupedBars_times in auto)

theorem tick_stream_builds_grouped_bars_witness:
  "getCurrent (fst (runTicks [] ''EUR'' TF_1m
       [\<lparr>t_price = Fin 5, t_time = Fin 61, t_volume = None\<rparr>,
        \<lparr>t_price = Fin 7, t_time = Fin 125, t_volume = None\<rparr>])) ''EUR'' TF_1m
   = Some (last (groupedBars TF_1m
       [\<lparr>t_price = Fin 5, t_time = Fin 61, t_volume = None\<rparr>,
        \<lparr>t_price = Fin 7, t_time = Fin 125, t_volume = None\<rparr>]))"
  using tick_stream_builds_grouped_bars
    [of "[\<lparr>t_price = Fin 5, t_time = Fin 61, t_volume = None\<rparr>,
          \<lparr>t_price = Fin 7, t_time = Fin 125, t_volume = None\<rparr>]" TF_1m "[]" "''EUR''"]
    tickBucket_int [of 61 TF_1m] tickBucket_int [of 125 TF_1m]
  by (simp add: getCurrent_def)

text \<open>
  On whole-second timestamps below \<open>2 ^ 53\<close> the floating-point bucket computation is exact:
  the bucket is the start of the timeframe interval that contains the tick.
\<close>

theorem tickBucket_exact:
  assumes "0 \<le> t" "t < 2 ^ 53"
  shows "\<exists>b. tickBucket tf (Fin (of_int t)) = Fin (of_int b) \<and> TF_SECONDS tf dvd b
    \<and> b \<le> t \<and> t < b + TF_SECONDS tf"
proof -
  let ?s = "TF_SECONDS tf"
  have s: "0 < ?s" using TF_SECONDS_range [of tf] by simp
  have "t div ?s * ?s + t mod ?s = t" "0 \<le> t mod ?s" "t mod ?s < ?s" using s by simp_all
  then have "t div ?s * ?s \<le> t" "t < t div ?s * ?s + ?s" by linarith+
  then show ?thesis using tickBucket_int [OF assms, of tf] by (intro exI [of _ "t div ?s * ?s"]) simp
qed

theorem tickBucket_exact_witness:
  "\<exists>b. tickBucket TF_1H (Fin (of_int 1700000000)) = Fin (of_int b) \<and> TF_SECONDS TF_1H dvd b
    \<and> b \<le> 1700000000 \<and> 1700000000 < b + TF_SECONDS TF_1H"
  by (rule tickBucket_exact [of 1700000000 TF_1H]) simp_all

text \<open>
  \<open>reset\<close> forgets exactly the bars it is asked to: one \<open>symbol:timeframe\<close> pair when the timeframe is
  given; otherwise every timeframe of the symbol, and of the symbols that extend it after a colon
  (and the one pair whose key the symbol itself spells out).
\<close>

theorem resetEngine_exact:
  assumes "s \<noteq> ''''"
  shows "getCurrent (resetEngine e (Some s) (Some tf)) s' tf' =
           (if s' = s \<and> tf' = tf then None else getCurrent e s' tf')
    \<and> getCurrent (resetEngine e (Some s) None) s' tf' =
           (if s' = s \<or> prefix (s @ '':'') s' \<or> subscriptionKey s' (Some tf') = s then None
            else getCurrent e s' tf')
    \<and> resetEngine e None tf'' = []"
proof -
  let ?k = "subscriptionKey s' (Some tf')"
  have "map_get (resetEngine e (Some s) None) ?k
      = (if ?k \<in> set (map fst e) \<and> (?k = s \<or> prefix (s @ '':'') ?k) then None else map_get e ?k)"
    using assms by (simp only: resetEngine_def option.case if_False fold_delete_if)
  also have "\<dots> = (if ?k = s \<or> prefix (s @ '':'') ?k then None else map_get e ?k)"
    by (metis list.set_map map_of_eq_None_iff)
  finally show ?thesis using assms
    by (simp add: getCurrent_def resetEngine_def delete_conv' subscriptionKey_inj prefix_key_iff disj_commute disj_left_commute
        del: subscriptionKey.simps)
qed

theorem resetEngine_exact_witness:
  "getCurrent (resetEngine (seedHistory (seedHistory [] ''EUR'' TF_1m [flatBar 60 5]) ''GBP'' TF_1m [flatBar 60 9])
      (Some ''EUR'') None) ''GBP'' TF_1m = Some ((flatBar 60 9)\<lparr>c_closed := Some False\<rparr>)"
  using resetEngine_exact [of "''EUR''" "seedHistory (seedHistory [] ''EUR'' TF_1m [flatBar 60 5]) ''GBP'' TF_1m [flatBar 60 9]"
      TF_1m "''GBP''" TF_1m None]
  by (simp add: getCurrent_def seedHistory_def)

end
