(* ===== verification/Drawings.thy ===== *)
theory Drawings
  imports JsNumber
begin

section \<open>Drawings: objects, patches, batch updates, sync scopes, bulk edits\<close>

text \<open>
  Models the drawing object of \<open>types/drawing.ts\<close>, \<open>store/drawingBatchUpdate.ts\<close>,
  \<open>components/chart/drawing/persistence/drawingSyncScope.ts\<close>,
  \<open>components/chart/drawing/bulk/drawingBulkOperations.ts\<close>,
  \<open>components/chart/drawing/persistence/DrawingLoadGuard.ts\<close> and
  \<open>components/chart/drawing/lifecycle/drawingLifecycle.ts\<close>.

  A drawing is a JavaScript object: its \<open>id\<close> and \<open>clientRevision\<close>, which the store manages, and its
  other properties as an insertion-ordered map from property names to values.  A property
  that is absent reads as \<open>undefined\<close>, as in JavaScript; a spread \<open>{...d, ...patch}\<close> is a loop of
  assignments.  No patch in the sources carries an \<open>id\<close>, and the \<open>clientRevision\<close> of a patch is
  always overwritten, so patches range over the other properties.
\<close>

subsection \<open>Data\<close>

datatype sync_mode = ChartOnly | LayoutSymbol | GlobalSync

record sync_binding =
  b_mode :: sync_mode
  b_symbol :: string
  b_layoutId :: "string option"
  b_chartId :: "string option"

text \<open>Nested values no modelled function looks into are kept in serialised form (\<open>VJson\<close>).\<close>

datatype dvalue =
    VUndefined
  | VBool bool
  | VNum jsnum
  | VStr string
  | VPoints "(jsnum \<times> jsnum) list"
  | VSync sync_binding
  | VGroup string string
  | VJson string

type_synonym props = "(string, dvalue) js_map"

record drawing =
  d_id :: string
  d_clientRevision :: "nat option"
  d_props :: props

definition getProp :: "drawing \<Rightarrow> string \<Rightarrow> dvalue" where
  "getProp d k = (case map_get (d_props d) k of Some v \<Rightarrow> v | None \<Rightarrow> VUndefined)"

definition spread :: "props \<Rightarrow> props \<Rightarrow> props" where
  "spread base patch = map_set_all patch base"

definition bumpRevision :: "nat option \<Rightarrow> nat option" where
  "bumpRevision r = Some ((case r of Some n \<Rightarrow> n | None \<Rightarrow> 0) + 1)"

text \<open>\<open>{...d, ...patch, clientRevision: (d.clientRevision ?? 0) + 1}\<close>\<close>

definition patchDrawing :: "drawing \<Rightarrow> props \<Rightarrow> drawing" where
  "patchDrawing d patch =
     d\<lparr>d_props := spread (d_props d) patch, d_clientRevision := bumpRevision (d_clientRevision d)\<rparr>"

definition zIndexOf :: "drawing \<Rightarrow> jsnum" where
  "zIndexOf d = (case getProp d ''zIndex'' of VNum z \<Rightarrow> z | _ \<Rightarrow> Fin 0)"

definition syncOf :: "drawing \<Rightarrow> sync_binding option" where
  "syncOf d = (case getProp d ''sync'' of VSync b \<Rightarrow> Some b | _ \<Rightarrow> None)"

subsection \<open>The batch writer\<close>

record drawing_patch_update =
  u_id :: string
  u_patch :: props

record drawing_batch_update_result =
  br_drawings :: "drawing list"
  br_updatedById :: "(string, drawing) js_map"

definition groupUpdates :: "drawing_patch_update list \<Rightarrow> (string, drawing_patch_update list) js_map" where
  "groupUpdates updates =
     fold (\<lambda>update m. case map_get m (u_id update) of
                         Some queued \<Rightarrow> map_set (u_id update) (queued @ [update]) m
                       | None \<Rightarrow> map_set (u_id update) [update] m) updates []"

definition applyDrawingBatchUpdates ::
    "drawing list \<Rightarrow> drawing_patch_update list \<Rightarrow> drawing_batch_update_result" where
  "applyDrawingBatchUpdates current updates =
     (if updates = [] then \<lparr>br_drawings = current, br_updatedById = []\<rparr>
      else
        let updatesById = groupUpdates updates;
            next' = (\<lambda>drawing requested. foldl (\<lambda>d u. patchDrawing d (u_patch u)) drawing requested);
            (drawings, updatedById, changed) =
              foldl (\<lambda>(acc, byId, changed) drawing.
                       case map_get updatesById (d_id drawing) of
                         None \<Rightarrow> (acc @ [drawing], byId, changed)
                       | Some requested \<Rightarrow>
                           (acc @ [next' drawing requested],
                            map_set (d_id drawing) (next' drawing requested) byId, True))
                    ([], [], False) current
        in \<lparr>br_drawings = (if changed then drawings else current), br_updatedById = updatedById\<rparr>)"

text \<open>The singular writer's effect on the collection (\<open>updateDrawingAtom\<close>).\<close>

definition updateDrawings :: "string \<Rightarrow> props \<Rightarrow> drawing list \<Rightarrow> drawing list" where
  "updateDrawings drawingId patch = map (\<lambda>d. if d_id d \<noteq> drawingId then d else patchDrawing d patch)"

subsection \<open>Sync scopes\<close>

definition DEFAULT_DRAWING_SYNC_MODE :: sync_mode where
  "DEFAULT_DRAWING_SYNC_MODE = ChartOnly"

definition DRAWING_SYNC_MODE_VERSION :: jsnum where
  "DRAWING_SYNC_MODE_VERSION = Fin 2"

record sync_context =
  x_symbol :: string
  x_layoutId :: string
  x_chartId :: string

definition normalizeDrawingSyncMode :: "dvalue \<Rightarrow> sync_mode" where
  "normalizeDrawingSyncMode value =
     (if value = VStr ''chart-only'' then ChartOnly
      else if value = VStr ''layout-symbol'' then LayoutSymbol
      else if value = VStr ''global'' then GlobalSync
      else DEFAULT_DRAWING_SYNC_MODE)"

text \<open>\<open>version\<close> is the argument after the conversion \<open>Number(version)\<close>.\<close>

definition resolveDrawingSyncModeSetting :: "dvalue \<Rightarrow> jsnum \<Rightarrow> sync_mode \<times> bool" where
  "resolveDrawingSyncModeSetting value version =
     (let mode = normalizeDrawingSyncMode value;
          needsMigration = \<not> js_eq version DRAWING_SYNC_MODE_VERSION
      in (if needsMigration \<and> mode = GlobalSync then DEFAULT_DRAWING_SYNC_MODE else mode,
          needsMigration))"

definition drawingSyncBinding :: "sync_mode \<Rightarrow> sync_context \<Rightarrow> sync_binding" where
  "drawingSyncBinding mode context =
     (if mode = GlobalSync then
        \<lparr>b_mode = mode, b_symbol = x_symbol context, b_layoutId = None, b_chartId = None\<rparr>
      else if mode = LayoutSymbol then
        \<lparr>b_mode = mode, b_symbol = x_symbol context, b_layoutId = Some (x_layoutId context), b_chartId = None\<rparr>
      else
        \<lparr>b_mode = mode, b_symbol = x_symbol context, b_layoutId = Some (x_layoutId context),
         b_chartId = Some (x_chartId context)\<rparr>)"

definition drawingSyncMode :: "drawing \<Rightarrow> sync_mode" where
  "drawingSyncMode d = (case syncOf d of Some b \<Rightarrow> b_mode b | None \<Rightarrow> DEFAULT_DRAWING_SYNC_MODE)"

definition drawingBelongsToSyncContext :: "drawing \<Rightarrow> sync_context \<Rightarrow> bool" where
  "drawingBelongsToSyncContext d context =
     (case syncOf d of
        None \<Rightarrow> True
      | Some binding \<Rightarrow>
          if b_symbol binding \<noteq> x_symbol context then False
          else if b_mode binding = GlobalSync then True
          else if b_layoutId binding \<noteq> Some (x_layoutId context) then False
          else b_mode binding = LayoutSymbol \<or> b_chartId binding = Some (x_chartId context))"

definition selectDrawingsForSyncContext :: "drawing list \<Rightarrow> sync_context \<Rightarrow> drawing list" where
  "selectDrawingsForSyncContext registry context =
     filter (\<lambda>d. drawingBelongsToSyncContext d context) registry"

definition withSync :: "drawing \<Rightarrow> sync_binding \<Rightarrow> drawing" where
  "withSync d b = d\<lparr>d_props := map_set ''sync'' (VSync b) (d_props d)\<rparr>"

definition rebindDrawingsToSyncContext :: "drawing list \<Rightarrow> sync_context \<Rightarrow> drawing list" where
  "rebindDrawingsToSyncContext drawings context =
     map (\<lambda>d. let mode = drawingSyncMode d
              in if mode = GlobalSync then d else withSync d (drawingSyncBinding mode context)) drawings"

definition mergeDrawingSyncRegistry ::
    "drawing list \<Rightarrow> drawing list \<Rightarrow> sync_context \<Rightarrow> drawing list" where
  "mergeDrawingSyncRegistry registry activeDrawings context =
     (let activeIds = map d_id activeDrawings;
          preserved = filter (\<lambda>d. d_id d \<notin> set activeIds \<and> \<not> drawingBelongsToSyncContext d context) registry
      in preserved @ activeDrawings)"

definition canGroupDrawingsBySyncMode :: "drawing list \<Rightarrow> bool" where
  "canGroupDrawingsBySyncMode drawings =
     (if length drawings < 2 then False
      else let mode = drawingSyncMode (drawings ! 0)
           in list_all (\<lambda>d. drawingSyncMode d = mode) drawings)"

subsection \<open>Bulk edits\<close>

datatype bulk_scope = ScopeObject string | ScopeSelected | ScopeGroup string | ScopeAll

datatype bulk_property = PropVisible | PropLocked

datatype bulk_patch = FixedPatch props | PatchFactory "drawing \<Rightarrow> props option"

record property_change =
  pc_id :: string
  pc_newProps :: props
  pc_oldProps :: props

definition groupIdOf :: "drawing \<Rightarrow> string option" where
  "groupIdOf d = (case getProp d ''group'' of VGroup groupId _ \<Rightarrow> Some groupId | _ \<Rightarrow> None)"

fun resolveDrawingBulkTargets :: "drawing list \<Rightarrow> string list \<Rightarrow> bulk_scope \<Rightarrow> drawing list" where
  "resolveDrawingBulkTargets drawings selectedIds (ScopeObject drawingId) =
     filter (\<lambda>d. d_id d = drawingId) drawings"
| "resolveDrawingBulkTargets drawings selectedIds ScopeSelected =
     filter (\<lambda>d. d_id d \<in> set selectedIds) drawings"
| "resolveDrawingBulkTargets drawings selectedIds (ScopeGroup groupId) =
     filter (\<lambda>d. groupIdOf d = Some groupId) drawings"
| "resolveDrawingBulkTargets drawings selectedIds ScopeAll = drawings"

fun patchFactory :: "bulk_patch \<Rightarrow> drawing \<Rightarrow> props option" where
  "patchFactory (FixedPatch p) d = Some p"
| "patchFactory (PatchFactory f) d = f d"

definition buildDrawingBulkPatchChanges :: "drawing list \<Rightarrow> bulk_patch \<Rightarrow> property_change list" where
  "buildDrawingBulkPatchChanges drawings patch =
     concat (map (\<lambda>d.
       case patchFactory patch d of
         None \<Rightarrow> []
       | Some newProps \<Rightarrow>
           let keys = map fst newProps
           in if keys = [] \<or> list_all (\<lambda>key. Some (getProp d key) = map_get newProps key) keys then []
              else [\<lparr>pc_id = d_id d, pc_newProps = newProps,
                     pc_oldProps = map (\<lambda>key. (key, getProp d key)) keys\<rparr>]) drawings)"

fun bulkKey :: "bulk_property \<Rightarrow> string" where
  "bulkKey PropVisible = ''visible''"
| "bulkKey PropLocked = ''locked''"

definition nextDrawingBulkPropertyValue :: "drawing list \<Rightarrow> bulk_property \<Rightarrow> bool" where
  "nextDrawingBulkPropertyValue drawings property =
     (if drawings = [] then False
      else if property = PropLocked then \<not> list_all (\<lambda>d. getProp d ''locked'' = VBool True) drawings
      else list_all (\<lambda>d. getProp d ''visible'' = VBool False) drawings)"

definition drawingBulkActionLabel :: "bulk_property \<Rightarrow> bool \<Rightarrow> string" where
  "drawingBulkActionLabel property value =
     (if property = PropLocked then (if value then ''Lock Drawings'' else ''Unlock Drawings'')
      else if value then ''Show Drawings'' else ''Hide Drawings'')"

subsection \<open>The load guard\<close>

record load_token =
  lt_symbol :: string
  lt_generation :: nat

definition guardBegin :: "nat \<Rightarrow> string \<Rightarrow> nat \<times> load_token" where
  "guardBegin generation symbol =
     (generation + 1, \<lparr>lt_symbol = symbol, lt_generation = generation + 1\<rparr>)"

definition guardIsCurrent :: "nat \<Rightarrow> load_token \<Rightarrow> string \<Rightarrow> bool" where
  "guardIsCurrent generation token activeSymbol \<longleftrightarrow>
     lt_generation token = generation \<and> lt_symbol token = activeSymbol"

definition guardCancel :: "nat \<Rightarrow> nat" where
  "guardCancel generation = generation + 1"

subsection \<open>Position lifecycle\<close>

datatype hit_status = TpHit | SlHit

record resolved_hit =
  h_status :: hit_status
  h_time :: jsnum
  h_price :: jsnum

fun statusValue :: "hit_status \<Rightarrow> dvalue" where
  "statusValue TpHit = VStr ''tp_hit''"
| "statusValue SlHit = VStr ''sl_hit''"

definition pointsOf :: "drawing \<Rightarrow> (jsnum \<times> jsnum) list" where
  "pointsOf d = (case getProp d ''points'' of VPoints ps \<Rightarrow> ps | _ \<Rightarrow> [])"

definition reconcileOne ::
    "string option \<Rightarrow> (drawing \<Rightarrow> resolved_hit option) \<Rightarrow> (drawing \<Rightarrow> bool) \<Rightarrow> drawing
       \<Rightarrow> drawing_patch_update list" where
  "reconcileOne draggingId resolveHit samplesCoverEntry d =
     (if Some (d_id d) = draggingId \<or> length (pointsOf d) < 3 then []
      else
        let entryTime = fst (pointsOf d ! 0)
        in case resolveHit d of
             Some resolved \<Rightarrow>
               let time = js_sub (h_time resolved) entryTime
               in if getProp d ''tradeStatus'' \<noteq> statusValue (h_status resolved)
                     \<or> getProp d ''hitTime'' \<noteq> VNum time \<or> time = NaN
                     \<or> getProp d ''hitPrice'' \<noteq> VNum (h_price resolved) \<or> h_price resolved = NaN
                  then [\<lparr>u_id = d_id d,
                         u_patch = [(''tradeStatus'', statusValue (h_status resolved)),
                                    (''hitTime'', VNum time), (''hitPrice'', VNum (h_price resolved))]\<rparr>]
                  else []
           | None \<Rightarrow>
               if samplesCoverEntry d
                  \<and> (getProp d ''tradeStatus'' = VStr ''tp_hit'' \<or> getProp d ''tradeStatus'' = VStr ''sl_hit'')
               then [\<lparr>u_id = d_id d,
                      u_patch = [(''tradeStatus'', VUndefined), (''hitTime'', VUndefined),
                                 (''hitPrice'', VUndefined)]\<rparr>]
               else [])"

definition reconcileDrawingLifecycle ::
    "drawing list \<Rightarrow> string option \<Rightarrow> (drawing \<Rightarrow> bool) \<Rightarrow> (drawing \<Rightarrow> resolved_hit option)
       \<Rightarrow> (drawing \<Rightarrow> bool) \<Rightarrow> bool \<times> drawing_patch_update list" where
  "reconcileDrawingLifecycle drawings draggingId isEligible resolveHit samplesCoverEntry =
     foldl (\<lambda>(hasEligible, updates) d.
              if \<not> isEligible d then (hasEligible, updates)
              else (True, updates @ reconcileOne draggingId resolveHit samplesCoverEntry d))
           (False, []) drawings"

subsection \<open>Reading back what was written\<close>

lemma getProp_patch [simp]:
  "getProp (patchDrawing d p) k = (case map_of (rev p) k of Some v \<Rightarrow> v | None \<Rightarrow> getProp d k)"
  by (auto simp: getProp_def patchDrawing_def spread_def map_get_set_all map_add_def split: option.splits)

lemma d_id_patch [simp]: "d_id (patchDrawing d p) = d_id d"
  by (simp add: patchDrawing_def)

lemma getProp_withSync [simp]: "getProp (withSync d b) k = (if k = ''sync'' then VSync b else getProp d k)"
  by (simp add: getProp_def withSync_def update_conv')

lemma map_of_rev_keys: "map_of (rev (map (\<lambda>k. (k, f k)) ks)) k = (if k \<in> set ks then Some (f k) else None)"
  by (induction ks) (auto simp: map_add_def)

lemma map_of_rev_some: "map_of (rev p) k = None \<longleftrightarrow> k \<notin> fst ` set p"
  by (metis image_set map_of_eq_None_iff rev_map set_rev)

subsection \<open>Batches\<close>

definition patchesFor :: "drawing_patch_update list \<Rightarrow> drawing \<Rightarrow> drawing" where
  "patchesFor updates d =
     foldl (\<lambda>d u. patchDrawing d (u_patch u)) d (filter (\<lambda>u. u_id u = d_id d) updates)"

lemma d_id_foldl [simp]: "d_id (foldl (\<lambda>d u. patchDrawing d (u_patch u)) d us) = d_id d"
  by (induction us arbitrary: d) auto

lemma d_id_patchesFor [simp]: "d_id (patchesFor us d) = d_id d"
  by (simp add: patchesFor_def)

lemma groupUpdates_get:
  "map_get (groupUpdates us) k =
     (let q = filter (\<lambda>u. u_id u = k) us in if q = [] then None else Some q)"
proof (induction us rule: rev_induct)
  case (snoc u us)
  then show ?case
    by (auto simp: groupUpdates_def Let_def update_conv' split: option.splits if_splits)
qed (simp add: groupUpdates_def)

definition touched :: "drawing_patch_update list \<Rightarrow> drawing \<Rightarrow> bool" where
  "touched us d \<longleftrightarrow> (\<exists>u \<in> set us. u_id u = d_id d)"

lemma touched_filter: "filter (\<lambda>u. u_id u = d_id d) us = [] \<longleftrightarrow> \<not> touched us d"
  by (auto simp: touched_def filter_empty_conv)

lemma patchesFor_untouched: "\<not> touched us d \<Longrightarrow> patchesFor us d = d"
  by (simp add: patchesFor_def touched_filter [symmetric])

lemma batch_fold:
  "foldl (\<lambda>(acc, byId, changed) drawing.
            case map_get (groupUpdates us) (d_id drawing) of
              None \<Rightarrow> (acc @ [drawing], byId, changed)
            | Some requested \<Rightarrow>
                (acc @ [foldl (\<lambda>d u. patchDrawing d (u_patch u)) drawing requested],
                 map_set (d_id drawing) (foldl (\<lambda>d u. patchDrawing d (u_patch u)) drawing requested) byId, True))
         (acc, byId, changed) ds =
     (acc @ map (patchesFor us) ds,
      map_set_all (map (\<lambda>d. (d_id d, patchesFor us d)) (filter (touched us) ds)) byId,
      changed \<or> (\<exists>d \<in> set ds. touched us d))"
proof (induction ds arbitrary: acc byId changed)
  case (Cons d ds)
  have get: "map_get (groupUpdates us) (d_id d) =
      (if touched us d then Some (filter (\<lambda>u. u_id u = d_id d) us) else None)"
    by (simp only: groupUpdates_get Let_def touched_filter if_not_P if_P split: if_splits) simp
  show ?case
  proof (cases "touched us d")
    case True
    with Cons show ?thesis by (simp add: get map_set_all_def patchesFor_def [of us d, symmetric])
  next
    case False
    with Cons show ?thesis by (simp add: get patchesFor_untouched)
  qed
qed (simp add: map_set_all_def)

lemma batch_result:
  "br_drawings (applyDrawingBatchUpdates ds us) = map (patchesFor us) ds"
  "map_get (br_updatedById (applyDrawingBatchUpdates ds us)) =
     map_of (rev (map (\<lambda>d. (d_id d, patchesFor us d)) (filter (touched us) ds)))"
proof -
  have "map (patchesFor us) ds = ds" if "\<not> (\<exists>d \<in> set ds. touched us d)"
    using that by (intro map_idI) (auto simp: patchesFor_untouched)
  then show "br_drawings (applyDrawingBatchUpdates ds us) = map (patchesFor us) ds"
    by (auto simp: applyDrawingBatchUpdates_def Let_def batch_fold patchesFor_untouched touched_def)
  show "map_get (br_updatedById (applyDrawingBatchUpdates ds us)) =
     map_of (rev (map (\<lambda>d. (d_id d, patchesFor us d)) (filter (touched us) ds)))"
    by (auto simp: applyDrawingBatchUpdates_def Let_def batch_fold map_get_set_all touched_def)
qed

lemma sequential_updates:
  "foldl (\<lambda>ds u. updateDrawings (u_id u) (u_patch u) ds) ds us = map (patchesFor us) ds"
proof (induction us arbitrary: ds)
  case (Cons u us)
  have "patchesFor us (if d_id d \<noteq> u_id u then d else patchDrawing d (u_patch u)) = patchesFor (u # us) d" for d
    by (simp add: patchesFor_def)
  then show ?case using Cons by (simp add: updateDrawings_def comp_def)
qed (auto simp: patchesFor_def intro!: map_idI [symmetric])

lemma map_of_ids:
  assumes "distinct (map d_id ds)"
  shows "map_of (rev (map (\<lambda>d. (d_id d, f d)) (filter P ds))) k =
     (case find (\<lambda>d. d_id d = k) ds of Some d \<Rightarrow> if P d then Some (f d) else None | None \<Rightarrow> None)"
  using assms
proof (induction ds)
  case (Cons d ds)
  have "find (\<lambda>x. d_id x = d_id d) ds = None" using Cons.prems by (auto simp: find_None_iff) (metis imageI)
  with Cons show ?case by (auto simp: map_add_def split: option.splits)
qed simp

subsection \<open>Properties\<close>

text \<open>
  The atomic batch writer is the sequence of single updates: the collection it publishes is the one
  obtained by applying the patches one by one, repeated ids included, and its
  \<open>updatedById\<close> map holds exactly the final value of every touched drawing.
\<close>

theorem applyDrawingBatchUpdates_sequential:
  assumes "distinct (map d_id current)"
  shows "br_drawings (applyDrawingBatchUpdates current updates)
           = foldl (\<lambda>ds u. updateDrawings (u_id u) (u_patch u) ds) current updates
    \<and> map_get (br_updatedById (applyDrawingBatchUpdates current updates)) k =
        (if \<exists>u \<in> set updates. u_id u = k
         then find (\<lambda>d. d_id d = k) (br_drawings (applyDrawingBatchUpdates current updates)) else None)"
proof -
  have f: "find (\<lambda>d. d_id d = k) (map (patchesFor updates) current)
      = map_option (patchesFor updates) (find (\<lambda>d. d_id d = k) current)"
    by (induction current) auto
  have i: "d_id d = k" if "find (\<lambda>d. d_id d = k) current = Some d" for d
    using that by (auto simp: find_Some_iff)
  have "map_get (br_updatedById (applyDrawingBatchUpdates current updates)) k =
      (case find (\<lambda>d. d_id d = k) current of
         Some d \<Rightarrow> if touched updates d then Some (patchesFor updates d) else None | None \<Rightarrow> None)"
    by (simp only: batch_result map_of_ids [OF assms])
  also have "\<dots> = (if \<exists>u \<in> set updates. u_id u = k
      then map_option (patchesFor updates) (find (\<lambda>d. d_id d = k) current) else None)"
    using i by (cases "find (\<lambda>d. d_id d = k) current") (simp_all add: touched_def)
  finally show ?thesis by (simp only: sequential_updates batch_result f simp_thms)
qed

text \<open>
  Writing the active slice back into a symbol's registry and selecting it again returns it
  unchanged, and the registry keeps every drawing of other layouts and charts that
  the active slice does not redefine.
\<close>

theorem mergeDrawingSyncRegistry_roundtrip:
  assumes "\<forall>d \<in> set active. drawingBelongsToSyncContext d ctx"
  shows "selectDrawingsForSyncContext (mergeDrawingSyncRegistry registry active ctx) ctx = active
    \<and> filter (\<lambda>d. \<not> drawingBelongsToSyncContext d ctx) (mergeDrawingSyncRegistry registry active ctx)
        = filter (\<lambda>d. \<not> drawingBelongsToSyncContext d ctx \<and> d_id d \<notin> d_id ` set active) registry"
proof
  have "filter (\<lambda>d. drawingBelongsToSyncContext d ctx) active = active" using assms by simp
  then show "selectDrawingsForSyncContext (mergeDrawingSyncRegistry registry active ctx) ctx = active"
    by (simp add: selectDrawingsForSyncContext_def mergeDrawingSyncRegistry_def Let_def)
  have "filter (\<lambda>d. \<not> drawingBelongsToSyncContext d ctx) active = []" using assms by (simp add: filter_empty_conv)
  then show "filter (\<lambda>d. \<not> drawingBelongsToSyncContext d ctx) (mergeDrawingSyncRegistry registry active ctx)
        = filter (\<lambda>d. \<not> drawingBelongsToSyncContext d ctx \<and> d_id d \<notin> d_id ` set active) registry"
    by (auto simp: mergeDrawingSyncRegistry_def Let_def intro!: filter_cong)
qed

text \<open>
  Rebinding for a new layout keeps each drawing's sync mode and puts every drawing that is not
  global into the new context, whatever it was bound to before.
\<close>

theorem rebindDrawings_belong:
  "list_all2 (\<lambda>d d'. drawingSyncMode d' = drawingSyncMode d \<and> d_id d' = d_id d
      \<and> (if drawingSyncMode d = GlobalSync then d' = d else drawingBelongsToSyncContext d' ctx))
    ds (rebindDrawingsToSyncContext ds ctx)"
proof -
  have "drawingSyncMode (withSync d (drawingSyncBinding (drawingSyncMode d) ctx)) = drawingSyncMode d
      \<and> drawingBelongsToSyncContext (withSync d (drawingSyncBinding (drawingSyncMode d) ctx)) ctx" for d
    by (cases "drawingSyncMode d")
      (simp_all add: drawingSyncMode_def [of "withSync _ _"] syncOf_def drawingBelongsToSyncContext_def drawingSyncBinding_def)
  then show ?thesis
    by (auto simp: rebindDrawingsToSyncContext_def Let_def list_all2_conv_all_nth) (simp add: withSync_def)
qed

text \<open>
  Bulk toggling converges: whatever mix of locked or hidden drawings is selected, one
  invocation gives all of them the same value and the next invocation toggles all of them back.
\<close>

theorem bulk_toggle_converges:
  assumes "ds \<noteq> []" and "v = nextDrawingBulkPropertyValue ds property"
  shows "nextDrawingBulkPropertyValue
           (map (\<lambda>d. patchDrawing d [(bulkKey property, VBool v)]) ds) property = (\<not> v)"
  using assms by (cases property) (auto simp: nextDrawingBulkPropertyValue_def list_all_iff)

subsection \<open>The lifecycle fixed point\<close>

definition lifecycleUpdates ::
    "string option \<Rightarrow> (drawing \<Rightarrow> bool) \<Rightarrow> (drawing \<Rightarrow> resolved_hit option) \<Rightarrow> (drawing \<Rightarrow> bool)
       \<Rightarrow> drawing \<Rightarrow> drawing_patch_update list" where
  "lifecycleUpdates dragging eligible resolveHit covers d =
     (if eligible d then reconcileOne dragging resolveHit covers d else [])"

lemma reconcile_concat:
  "snd (reconcileDrawingLifecycle ds dragging eligible resolveHit covers)
     = concat (map (lifecycleUpdates dragging eligible resolveHit covers) ds)"
proof -
  have "snd (foldl (\<lambda>(hasEligible, updates) d.
          if \<not> eligible d then (hasEligible, updates)
          else (True, updates @ reconcileOne dragging resolveHit covers d)) (e, us) ds)
      = us @ concat (map (lifecycleUpdates dragging eligible resolveHit covers) ds)" for e us
    by (induction ds arbitrary: e us) (auto simp: lifecycleUpdates_def)
  from this [of False "[]"] show ?thesis by (simp add: reconcileDrawingLifecycle_def)
qed

lemma reconcileOne_id: "u \<in> set (reconcileOne dragging resolveHit covers d) \<Longrightarrow> u_id u = d_id d"
  by (auto simp: reconcileOne_def Let_def split: option.splits if_splits)

lemma reconcileOne_cases:
  "reconcileOne dragging resolveHit covers d = [] \<or> (\<exists>u. reconcileOne dragging resolveHit covers d = [u])"
  by (auto simp: reconcileOne_def Let_def split: option.splits)

lemma filter_own_updates:
  assumes "distinct (map d_id ds)" "d \<in> set ds"
    and "\<And>d u. u \<in> set (f d) \<Longrightarrow> u_id u = d_id d"
  shows "filter (\<lambda>u. u_id u = d_id d) (concat (map f ds)) = f d"
  using assms(1,2)
proof (induction ds)
  case (Cons x ds)
  have other: "filter (\<lambda>u. u_id u = d_id y) (concat (map f ds)) = []" if "d_id y \<notin> d_id ` set ds" for y
    using that by (auto simp: filter_empty_conv dest!: assms(3))
  have self: "filter (\<lambda>u. u_id u = d_id x) (f x) = f x" using assms(3) by (simp add: filter_id_conv)
  show ?case
  proof (cases "d = x")
    case True with Cons.prems self other [of x] show ?thesis by simp
  next
    case False
    then have "filter (\<lambda>u. u_id u = d_id d) (f x) = []"
      using Cons.prems by (auto simp: filter_empty_conv dest!: assms(3)) (metis imageI)
    with False Cons show ?thesis by simp
  qed
qed simp

lemma pointsOf_patch: "''points'' \<notin> fst ` set p \<Longrightarrow> pointsOf (patchDrawing d p) = pointsOf d"
  by (simp add: pointsOf_def map_of_rev_some [symmetric])

lemma reconcileOne_settles:
  assumes "reconcileOne dragging resolveHit covers d = [u]"
    and fin: "\<And>h. resolveHit d = Some h \<Longrightarrow> js_isFinite (h_price h)
        \<and> js_isFinite (js_sub (h_time h) (fst (pointsOf d ! 0)))"
    and same: "\<And>p. fst ` set p = {''tradeStatus'', ''hitTime'', ''hitPrice''} \<Longrightarrow>
        resolveHit (patchDrawing d p) = resolveHit d \<and> covers (patchDrawing d p) = covers d"
  shows "reconcileOne dragging resolveHit covers (patchDrawing d (u_patch u)) = []"
    and "fst ` set (u_patch u) = {''tradeStatus'', ''hitTime'', ''hitPrice''}"
proof -
  show keys: "fst ` set (u_patch u) = {''tradeStatus'', ''hitTime'', ''hitPrice''}"
    using assms(1) by (auto simp: reconcileOne_def Let_def split: option.splits if_splits)
  have pts: "pointsOf (patchDrawing d (u_patch u)) = pointsOf d" using keys by (intro pointsOf_patch) auto
  show "reconcileOne dragging resolveHit covers (patchDrawing d (u_patch u)) = []"
  proof (cases "resolveHit d")
    case None
    then have "u_patch u = [(''tradeStatus'', VUndefined), (''hitTime'', VUndefined), (''hitPrice'', VUndefined)]"
      using assms(1) by (auto simp: reconcileOne_def Let_def split: if_splits)
    then show ?thesis using same [OF keys] None by (simp add: reconcileOne_def [of _ _ _ "patchDrawing _ _"])
  next
    case (Some h)
    let ?t = "js_sub (h_time h) (fst (pointsOf d ! 0))"
    have "u_patch u = [(''tradeStatus'', statusValue (h_status h)), (''hitTime'', VNum ?t), (''hitPrice'', VNum (h_price h))]"
      using assms(1) Some by (auto simp: reconcileOne_def Let_def split: if_splits)
    moreover have "?t \<noteq> NaN" "h_price h \<noteq> NaN" using fin [OF Some] by (auto simp: js_isFinite_iff)
    ultimately show ?thesis using same [OF keys] Some pts
      by (simp add: reconcileOne_def [of _ _ _ "patchDrawing _ _"] Let_def)
  qed
qed

text \<open>
  Reconciling the lifecycle of position drawings reaches a fixed point in one pass: once its updates
  are applied, a second pass over the same samples requests nothing.
\<close>

theorem reconcileDrawingLifecycle_fixpoint:
  assumes "distinct (map d_id ds)"
    and "\<forall>d \<in> set ds. \<forall>h. resolveHit d = Some h \<longrightarrow> js_isFinite (h_price h)
          \<and> js_isFinite (js_sub (h_time h) (fst (pointsOf d ! 0)))"
    and "\<And>d p. fst ` set p = {''tradeStatus'', ''hitTime'', ''hitPrice''} \<Longrightarrow>
          resolveHit (patchDrawing d p) = resolveHit d \<and> covers (patchDrawing d p) = covers d
          \<and> eligible (patchDrawing d p) = eligible d"
  shows "snd (reconcileDrawingLifecycle
      (br_drawings (applyDrawingBatchUpdates ds (snd (reconcileDrawingLifecycle ds dragging eligible resolveHit covers))))
      dragging eligible resolveHit covers) = []"
proof -
  let ?f = "lifecycleUpdates dragging eligible resolveHit covers"
  have own: "u_id u = d_id d" if "u \<in> set (?f d)" for u d
    using that by (auto simp: lifecycleUpdates_def reconcileOne_id split: if_splits)
  have "?f (patchesFor (concat (map ?f ds)) d) = []" if d: "d \<in> set ds" for d
  proof -
    have p: "patchesFor (concat (map ?f ds)) d = foldl (\<lambda>d u. patchDrawing d (u_patch u)) d (?f d)"
      by (simp only: patchesFor_def filter_own_updates [OF assms(1) d own])
    have "?f d = [] \<or> (\<exists>u. ?f d = [u])"
      using reconcileOne_cases [of dragging resolveHit covers d] by (auto simp: lifecycleUpdates_def)
    then consider "?f d = []" | u where "?f d = [u]" by blast
    then show ?thesis
    proof cases
      case 1 then show ?thesis by (simp add: p)
    next
      case (2 u)
      then have r: "reconcileOne dragging resolveHit covers d = [u]" by (auto simp: lifecycleUpdates_def split: if_splits)
      have "reconcileOne dragging resolveHit covers (patchDrawing d (u_patch u)) = []"
        by (rule reconcileOne_settles(1) [OF r]) (use assms(2) d in blast, use assms(3) in simp)
      then show ?thesis by (simp add: p 2) (simp add: lifecycleUpdates_def)
    qed
  qed
  then show ?thesis by (simp add: reconcile_concat batch_result comp_def)
qed

subsection \<open>Witnesses\<close>

definition sampleLine :: "string \<Rightarrow> drawing" where
  "sampleLine name = \<lparr>d_id = name, d_clientRevision = Some 1,
     d_props = [(''visible'', VBool True), (''locked'', VBool False), (''zIndex'', VNum (Fin 1)),
       (''points'', VPoints [(Fin 60, Fin 5), (Fin 120, Fin 6), (Fin 120, Fin 4)]),
       (''sync'', VSync \<lparr>b_mode = GlobalSync, b_symbol = ''EUR'', b_layoutId = None, b_chartId = None\<rparr>)]\<rparr>"

lemma sampleLine_id [simp]: "d_id (sampleLine name) = name"
  by (simp add: sampleLine_def)

theorem applyDrawingBatchUpdates_sequential_witness:
  "br_drawings (applyDrawingBatchUpdates [sampleLine ''a'', sampleLine ''b'']
       [\<lparr>u_id = ''b'', u_patch = [(''locked'', VBool True)]\<rparr>])
     = foldl (\<lambda>ds u. updateDrawings (u_id u) (u_patch u) ds) [sampleLine ''a'', sampleLine ''b'']
         [\<lparr>u_id = ''b'', u_patch = [(''locked'', VBool True)]\<rparr>]"
  using applyDrawingBatchUpdates_sequential [of "[sampleLine ''a'', sampleLine ''b'']"
      "[\<lparr>u_id = ''b'', u_patch = [(''locked'', VBool True)]\<rparr>]" "''b''"] by simp

theorem mergeDrawingSyncRegistry_roundtrip_witness:
  "selectDrawingsForSyncContext (mergeDrawingSyncRegistry [sampleLine ''old''] [sampleLine ''a'']
       \<lparr>x_symbol = ''EUR'', x_layoutId = ''l'', x_chartId = ''c''\<rparr>)
       \<lparr>x_symbol = ''EUR'', x_layoutId = ''l'', x_chartId = ''c''\<rparr> = [sampleLine ''a'']"
  using mergeDrawingSyncRegistry_roundtrip [of "[sampleLine ''a'']"
      "\<lparr>x_symbol = ''EUR'', x_layoutId = ''l'', x_chartId = ''c''\<rparr>" "[sampleLine ''old'']"]
  by (simp add: drawingBelongsToSyncContext_def syncOf_def getProp_def sampleLine_def)

theorem bulk_toggle_converges_witness:
  "nextDrawingBulkPropertyValue
     (map (\<lambda>d. patchDrawing d [(bulkKey PropLocked, VBool True)]) [sampleLine ''a'', sampleLine ''b'']) PropLocked
   = (\<not> True)"
  using bulk_toggle_converges [of "[sampleLine ''a'', sampleLine ''b'']" True PropLocked]
  by (simp add: nextDrawingBulkPropertyValue_def sampleLine_def getProp_def)

theorem reconcileDrawingLifecycle_fixpoint_witness:
  "snd (reconcileDrawingLifecycle
      (br_drawings (applyDrawingBatchUpdates [sampleLine ''a'']
        (snd (reconcileDrawingLifecycle [sampleLine ''a''] None (\<lambda>_. True)
           (\<lambda>_. Some \<lparr>h_status = TpHit, h_time = Fin 120, h_price = Fin 6\<rparr>) (\<lambda>_. True)))))
      None (\<lambda>_. True) (\<lambda>_. Some \<lparr>h_status = TpHit, h_time = Fin 120, h_price = Fin 6\<rparr>) (\<lambda>_. True)) = []"
  using f64_of_int [of 60]
  by (intro reconcileDrawingLifecycle_fixpoint) (simp_all add: sampleLine_def pointsOf_def getProp_def)

end
