(* ===== verification/DrawingSync.thy ===== *)
theory DrawingSync
  imports Drawings
begin

section \<open>The drawing outbox\<close>

text \<open>
  Models \<open>components/chart/drawing/persistence/DrawingSyncQueue.ts\<close> and
  \<open>components/chart/drawing/persistence/drawingConflictPolicy.ts\<close>, with the request types of
  \<open>services/api/resources/drawingsApi.ts\<close>.  The class's private fields are the record
  \<open>sync_queue\<close>; the timer is the delay it was armed with, the in-flight promise a flag.  What
  the world decides (whether sending is allowed, when the timer fires, how a request ends) is
  an event; \<open>queueStep\<close> runs the code between two such events, so every interleaving of edits,
  timers and responses is a list of events.  A success whose \<open>onSuccess\<close> callback throws also runs
  the \<open>catch\<close> branch, as the promise chain does.

  The results: nothing enqueued is lost under any interleaving, the persisted snapshot always
  restores all unacknowledged work, and with sending allowed the queue never stalls.
\<close>

subsection \<open>Requests\<close>

record backend_write =
  w_symbol :: string
  w_toolType :: string
  w_payload :: drawing
  w_locked :: "bool option"
  w_hidden :: "bool option"
  w_clientId :: "string option"
  w_clientRevision :: "nat option"
  w_expectedRevision :: "nat option"

record backend_delete =
  x_id :: "string option"
  x_clientId :: "string option"
  x_delSymbol :: "string option"
  x_expectedRevision :: "nat option"

record backend_drawing =
  row_payload :: drawing
  row_clientId :: "string option"
  row_revision :: nat

record batch_request =
  rq_upserts :: "backend_write list"
  rq_deletes :: "backend_delete list"

record batch_response =
  rs_upserted :: "backend_drawing list"
  rs_deleted :: nat

record queue_snapshot =
  sn_upserts :: "backend_write list"
  sn_deletes :: "backend_delete list"
  sn_retryAttempt :: nat

text \<open>\<open>a || b\<close> on an optional string: absent and empty are falsy.\<close>

fun js_or :: "string option \<Rightarrow> string \<Rightarrow> string" where
  "js_or None b = b"
| "js_or (Some a) b = (if a = [] then b else a)"

definition upsertKey :: "backend_write \<Rightarrow> string" where
  "upsertKey item = js_or (w_clientId item) (d_id (w_payload item))"

definition deleteKey :: "backend_delete \<Rightarrow> string" where
  "deleteKey item =
     js_or (x_clientId item)
       (js_or (x_id item) ((case x_delSymbol item of Some s \<Rightarrow> s | None \<Rightarrow> []) @ '':unknown''))"

subsection \<open>The queue\<close>

record queue_options =
  o_debounceMs :: nat
  o_maxRetryMs :: nat

definition DEFAULT_OPTIONS :: queue_options where
  "DEFAULT_OPTIONS = \<lparr>o_debounceMs = 800, o_maxRetryMs = 30000\<rparr>"

record sync_queue =
  q_upserts :: "(string, backend_write) js_map"
  q_deletes :: "(string, backend_delete) js_map"
  q_timer :: "nat option"
  q_inFlight :: bool
  q_inFlightRequest :: "batch_request option"
  q_retryAttempt :: nat
  q_persisted :: "queue_snapshot option"

definition emptyQueue :: sync_queue where
  "emptyQueue = \<lparr>q_upserts = [], q_deletes = [], q_timer = None, q_inFlight = False,
     q_inFlightRequest = None, q_retryAttempt = 0, q_persisted = None\<rparr>"

definition queueSize :: "sync_queue \<Rightarrow> nat" where
  "queueSize q = length (q_upserts q) + length (q_deletes q)"

text \<open>Put the items back whose key has no newer mutation: the loops of \<open>snapshot\<close> and of \<open>catch\<close>.\<close>

definition addMissing ::
    "batch_request \<Rightarrow> (string, backend_write) js_map \<times> (string, backend_delete) js_map
       \<Rightarrow> (string, backend_write) js_map \<times> (string, backend_delete) js_map" where
  "addMissing request maps =
     (let (ups, dels) =
            fold (\<lambda>item (ups, dels).
                    if \<not> map_has ups (upsertKey item) \<and> \<not> map_has dels (upsertKey item)
                    then (map_set (upsertKey item) item ups, dels) else (ups, dels))
                 (rq_upserts request) maps
      in fold (\<lambda>item (ups, dels).
                 if \<not> map_has ups (deleteKey item) \<and> \<not> map_has dels (deleteKey item)
                 then (ups, map_set (deleteKey item) item dels) else (ups, dels))
              (rq_deletes request) (ups, dels))"

definition snapshot :: "sync_queue \<Rightarrow> queue_snapshot" where
  "snapshot q =
     (let request = (case q_inFlightRequest q of
                       Some r \<Rightarrow> r | None \<Rightarrow> \<lparr>rq_upserts = [], rq_deletes = []\<rparr>);
          (ups, dels) = addMissing request (q_upserts q, q_deletes q)
      in \<lparr>sn_upserts = map snd ups, sn_deletes = map snd dels, sn_retryAttempt = q_retryAttempt q\<rparr>)"

definition persistQueue :: "sync_queue \<Rightarrow> sync_queue" where
  "persistQueue q = q\<lparr>q_persisted := Some (snapshot q)\<rparr>"

definition scheduleQueue :: "bool \<Rightarrow> nat \<Rightarrow> sync_queue \<Rightarrow> sync_queue" where
  "scheduleQueue canSend delay q = (if \<not> canSend then q else q\<lparr>q_timer := Some delay\<rparr>)"

definition hydrate :: "queue_snapshot option \<Rightarrow> sync_queue \<Rightarrow> sync_queue" where
  "hydrate snap q =
     (case snap of
        None \<Rightarrow> q
      | Some s \<Rightarrow>
          persistQueue (q\<lparr>q_upserts := map_set_all (map (\<lambda>i. (upsertKey i, i)) (sn_upserts s)) (q_upserts q),
                          q_deletes := map_set_all (map (\<lambda>i. (deleteKey i, i)) (sn_deletes s)) (q_deletes q),
                          q_retryAttempt := max 0 (sn_retryAttempt s)\<rparr>))"

definition enqueueUpsert :: "queue_options \<Rightarrow> bool \<Rightarrow> backend_write \<Rightarrow> sync_queue \<Rightarrow> sync_queue" where
  "enqueueUpsert opts canSend item q =
     (let key = upsertKey item
      in scheduleQueue canSend (o_debounceMs opts)
           (persistQueue (q\<lparr>q_deletes := map_delete key (q_deletes q),
                            q_upserts := map_set key item (q_upserts q)\<rparr>)))"

definition enqueueDelete :: "queue_options \<Rightarrow> bool \<Rightarrow> backend_delete \<Rightarrow> sync_queue \<Rightarrow> sync_queue" where
  "enqueueDelete opts canSend item q =
     (let key = deleteKey item
      in scheduleQueue canSend (o_debounceMs opts)
           (persistQueue (q\<lparr>q_upserts := map_delete key (q_upserts q),
                            q_deletes := map_set key item (q_deletes q)\<rparr>)))"

definition resumeQueue :: "bool \<Rightarrow> sync_queue \<Rightarrow> sync_queue" where
  "resumeQueue canSend q = (if 0 < queueSize q then scheduleQueue canSend 0 q else q)"

definition preserveAndCancel :: "sync_queue \<Rightarrow> sync_queue" where
  "preserveAndCancel q = persistQueue (q\<lparr>q_timer := None\<rparr>)"

text \<open>\<open>flushNow\<close> up to the call of \<open>send\<close>; the request it sends, if any, becomes the in-flight one.\<close>

definition flushNow :: "bool \<Rightarrow> sync_queue \<Rightarrow> sync_queue" where
  "flushNow canSend q =
     (if q_inFlight q then q
      else if \<not> canSend then persistQueue q
      else
        let request = \<lparr>rq_upserts = map snd (q_upserts q), rq_deletes = map snd (q_deletes q)\<rparr>
        in if rq_upserts request = [] \<and> rq_deletes request = [] then q
           else (persistQueue (q\<lparr>q_inFlightRequest := Some request, q_upserts := [], q_deletes := []\<rparr>))
                  \<lparr>q_inFlight := True\<rparr>)"

definition rebaseRow :: "backend_drawing \<Rightarrow> sync_queue \<Rightarrow> sync_queue" where
  "rebaseRow row q =
     (let key = js_or (row_clientId row) (d_id (row_payload row));
          q1 = (case map_get (q_upserts q) key of
                  None \<Rightarrow> q
                | Some pendingUpsert \<Rightarrow>
                    q\<lparr>q_upserts := map_set key (pendingUpsert\<lparr>w_expectedRevision := Some (row_revision row)\<rparr>)
                                    (q_upserts q)\<rparr>)
      in case map_get (q_deletes q1) key of
           None \<Rightarrow> q1
         | Some pendingDelete \<Rightarrow>
             q1\<lparr>q_deletes := map_set key (pendingDelete\<lparr>x_expectedRevision := Some (row_revision row)\<rparr>)
                              (q_deletes q1)\<rparr>)"

definition rebasePendingToAcknowledgedRevisions :: "batch_response \<Rightarrow> sync_queue \<Rightarrow> sync_queue" where
  "rebasePendingToAcknowledgedRevisions response q = fold rebaseRow (rs_upserted response) q"

definition retryDelay :: "queue_options \<Rightarrow> nat \<Rightarrow> nat" where
  "retryDelay opts attempt = min (o_maxRetryMs opts) (o_debounceMs opts * 2 ^ min attempt 8)"

definition onSendSuccess :: "batch_response \<Rightarrow> sync_queue \<Rightarrow> sync_queue" where
  "onSendSuccess response q =
     rebasePendingToAcknowledgedRevisions response (q\<lparr>q_retryAttempt := 0, q_inFlightRequest := None\<rparr>)"

definition onSendError :: "queue_options \<Rightarrow> bool \<Rightarrow> batch_request \<Rightarrow> sync_queue \<Rightarrow> sync_queue" where
  "onSendError opts canSend request q =
     (let (ups, dels) = addMissing request (q_upserts q, q_deletes q);
          attempt = q_retryAttempt q + 1
      in scheduleQueue canSend (retryDelay opts attempt)
           (q\<lparr>q_upserts := ups, q_deletes := dels, q_retryAttempt := attempt, q_inFlightRequest := None\<rparr>))"

definition onSendFinally :: "bool \<Rightarrow> sync_queue \<Rightarrow> sync_queue" where
  "onSendFinally canSend q =
     (let q1 = persistQueue (q\<lparr>q_inFlightRequest := None, q_inFlight := False\<rparr>)
      in if 0 < queueSize q1 \<and> q_retryAttempt q1 = 0 then scheduleQueue canSend 0 q1 else q1)"

subsection \<open>Interleavings\<close>

datatype queue_event =
    EnqueueUpsert backend_write
  | EnqueueDelete backend_delete
  | Resume
  | Preserve
  | TimerFires
  | FlushRequested
  | SendSucceeds batch_response bool
  | SendFails

fun queueStep :: "queue_options \<Rightarrow> bool \<times> queue_event \<Rightarrow> sync_queue \<Rightarrow> sync_queue" where
  "queueStep opts (canSend, EnqueueUpsert item) q = enqueueUpsert opts canSend item q"
| "queueStep opts (canSend, EnqueueDelete item) q = enqueueDelete opts canSend item q"
| "queueStep opts (canSend, Resume) q = resumeQueue canSend q"
| "queueStep opts (canSend, Preserve) q = preserveAndCancel q"
| "queueStep opts (canSend, TimerFires) q =
     (case q_timer q of None \<Rightarrow> q | Some _ \<Rightarrow> flushNow canSend (q\<lparr>q_timer := None\<rparr>))"
| "queueStep opts (canSend, FlushRequested) q = flushNow canSend q"
| "queueStep opts (canSend, SendSucceeds response callbackThrows) q =
     (case q_inFlightRequest q of
        None \<Rightarrow> q
      | Some request \<Rightarrow>
          let q1 = onSendSuccess response q
          in onSendFinally canSend (if callbackThrows then onSendError opts canSend request q1 else q1))"
| "queueStep opts (canSend, SendFails) q =
     (case q_inFlightRequest q of
        None \<Rightarrow> q
      | Some request \<Rightarrow> onSendFinally canSend (onSendError opts canSend request q))"

subsection \<open>Conflict policy\<close>

definition rebaseDrawingBatchForLastWriteWins ::
    "batch_request \<Rightarrow> backend_drawing list \<Rightarrow> batch_request" where
  "rebaseDrawingBatchForLastWriteWins request remote =
     (let revisions = map_set_all
            (map (\<lambda>row. (js_or (row_clientId row) (d_id (row_payload row)), row_revision row)) remote) []
      in \<lparr>rq_upserts = map (\<lambda>item. item\<lparr>w_expectedRevision :=
                          map_get revisions (js_or (w_clientId item) (d_id (w_payload item)))\<rparr>) (rq_upserts request),
          rq_deletes = map (\<lambda>item. item\<lparr>x_expectedRevision :=
                          map_get revisions (js_or (x_clientId item) (js_or (x_id item) []))\<rparr>) (rq_deletes request)\<rparr>)"

subsection \<open>Specification: the intent per drawing\<close>

text \<open>What the user last asked for a drawing, ignoring the optimistic-lock precondition.\<close>

datatype intent = IUpsert backend_write | IDelete backend_delete

fun erase :: "intent \<Rightarrow> intent" where
  "erase (IUpsert w) = IUpsert (w\<lparr>w_expectedRevision := None\<rparr>)"
| "erase (IDelete d) = IDelete (d\<lparr>x_expectedRevision := None\<rparr>)"

definition intents ::
    "(string, backend_write) js_map \<Rightarrow> (string, backend_delete) js_map \<Rightarrow> string \<rightharpoonup> intent" where
  "intents ups dels k =
     (case map_of ups k of Some w \<Rightarrow> Some (IUpsert w) | None \<Rightarrow> map_option IDelete (map_of dels k))"

definition keyedUpserts :: "backend_write list \<Rightarrow> (string, backend_write) js_map" where
  "keyedUpserts = map (\<lambda>i. (upsertKey i, i))"

definition keyedDeletes :: "backend_delete list \<Rightarrow> (string, backend_delete) js_map" where
  "keyedDeletes = map (\<lambda>i. (deleteKey i, i))"

definition requestIntents :: "batch_request \<Rightarrow> string \<rightharpoonup> intent" where
  "requestIntents r = intents (keyedUpserts (rq_upserts r)) (keyedDeletes (rq_deletes r))"

definition flightIntents :: "sync_queue \<Rightarrow> string \<rightharpoonup> intent" where
  "flightIntents q = (case q_inFlightRequest q of None \<Rightarrow> Map.empty | Some r \<Rightarrow> requestIntents r)"

text \<open>All unacknowledged work: the queued mutations over the ones in flight.\<close>

definition pending :: "sync_queue \<Rightarrow> string \<rightharpoonup> intent" where
  "pending q = flightIntents q ++ intents (q_upserts q) (q_deletes q)"

definition maps_ok :: "(string, backend_write) js_map \<Rightarrow> (string, backend_delete) js_map \<Rightarrow> bool" where
  "maps_ok ups dels \<longleftrightarrow>
     map_wf ups \<and> map_wf dels \<and> (\<forall>(k, i) \<in> set ups. k = upsertKey i) \<and> (\<forall>(k, i) \<in> set dels. k = deleteKey i)
     \<and> fst ` set ups \<inter> fst ` set dels = {}"

definition queue_ok :: "sync_queue \<Rightarrow> bool" where
  "queue_ok q \<longleftrightarrow>
     maps_ok (q_upserts q) (q_deletes q) \<and> (q_inFlight q \<longleftrightarrow> q_inFlightRequest q \<noteq> None)
     \<and> (\<forall>r. q_inFlightRequest q = Some r \<longrightarrow> maps_ok (keyedUpserts (rq_upserts r)) (keyedDeletes (rq_deletes r)))"

subsection \<open>The loops\<close>

lemma keyed_id: "map_wf ups \<Longrightarrow> \<forall>(k, i) \<in> set ups. k = f i \<Longrightarrow> map (\<lambda>i. (f i, i)) (map snd ups) = ups"
  by (auto simp: comp_def intro!: map_idI)

lemma maps_ok_keyed:
  assumes "maps_ok ups dels"
  shows "keyedUpserts (map snd ups) = ups" "keyedDeletes (map snd dels) = dels"
  using assms keyed_id [of ups upsertKey] keyed_id [of dels deleteKey]
  by (auto simp: maps_ok_def keyedUpserts_def keyedDeletes_def)

lemma map_keys_update: "fst ` set (AList.update k v m) = insert k (fst ` set m)"
  by (metis dom_map_of_conv_image_fst dom_fun_upd option.distinct(1) update_conv')

lemma map_of_none_keys: "map_of m k = None \<longleftrightarrow> k \<notin> fst ` set m"
  by (rule map_of_eq_None_iff)

lemma in_update: "(k', v') \<in> set (AList.update k v m) \<Longrightarrow> (k', v') = (k, v) \<or> (k', v') \<in> set m"
  by (induction m) (auto split: if_splits)

lemma maps_ok_set:
  assumes "maps_ok ups dels"
  shows "upsertKey i \<notin> fst ` set dels \<Longrightarrow> maps_ok (AList.update (upsertKey i) i ups) dels"
    and "deleteKey j \<notin> fst ` set ups \<Longrightarrow> maps_ok ups (AList.update (deleteKey j) j dels)"
  using assms by (auto simp: maps_ok_def distinct_update map_keys_update dest!: in_update)

lemma maps_ok_delete:
  assumes "maps_ok ups dels"
  shows "maps_ok (AList.delete k ups) dels" "maps_ok ups (AList.delete k dels)"
  using assms by (auto simp: maps_ok_def AList.delete_eq distinct_map_filter)

text \<open>Both loops of \<open>addMissing\<close>.\<close>

abbreviation putMissingUpsert where
  "putMissingUpsert \<equiv> \<lambda>item (ups, dels).
     if \<not> map_has ups (upsertKey item) \<and> \<not> map_has dels (upsertKey item)
     then (map_set (upsertKey item) item ups, dels) else (ups, dels)"

abbreviation putMissingDelete where
  "putMissingDelete \<equiv> \<lambda>item (ups, dels).
     if \<not> map_has ups (deleteKey item) \<and> \<not> map_has dels (deleteKey item)
     then (ups, map_set (deleteKey item) item dels) else (ups, dels)"

lemma intents_set:
  "intents (AList.update k w ups) dels = (intents ups dels)(k \<mapsto> IUpsert w)"
  "map_of ups k = None \<Longrightarrow> intents ups (AList.update k d dels) = (intents ups dels)(k \<mapsto> IDelete d)"
  by (auto simp: intents_def fun_eq_iff update_conv' split: option.splits)

lemma intents_None: "intents ups dels k = None \<longleftrightarrow> map_of ups k = None \<and> map_of dels k = None"
  by (auto simp: intents_def split: option.splits)

lemma fold_putMissingUpsert:
  assumes "maps_ok ups dels" "fold putMissingUpsert xs (ups, dels) = (ups', dels')"
  shows "maps_ok ups' dels' \<and>
    intents ups' dels' = map_of (map (\<lambda>i. (upsertKey i, IUpsert i)) xs) ++ intents ups dels"
  using assms
proof (induction xs arbitrary: ups)
  case (Cons x xs)
  show ?case
  proof (cases "intents ups dels (upsertKey x) = None")
    case True
    then have none: "map_of ups (upsertKey x) = None" "map_of dels (upsertKey x) = None"
      by (simp_all add: intents_None)
    then have "maps_ok (AList.update (upsertKey x) x ups) dels"
      using Cons.prems by (intro maps_ok_set) (auto simp: map_of_none_keys [symmetric])
    moreover have "fold putMissingUpsert xs (AList.update (upsertKey x) x ups, dels) = (ups', dels')"
      using Cons.prems(2) none by simp
    ultimately show ?thesis
      using Cons.IH [of "AList.update (upsertKey x) x ups"] True
      by (auto simp: intents_set fun_eq_iff map_add_def split: option.splits)
  next
    case False
    then have "fold putMissingUpsert xs (ups, dels) = (ups', dels')"
      using Cons.prems(2) by (auto simp: intents_None split: if_splits)
    then show ?thesis using Cons.IH [OF Cons.prems(1)] False
      by (auto simp: fun_eq_iff map_add_def split: option.splits)
  qed
qed simp

lemma fold_putMissingDelete:
  assumes "maps_ok ups dels" "fold putMissingDelete xs (ups, dels) = (ups', dels')"
  shows "maps_ok ups' dels' \<and>
    intents ups' dels' = map_of (map (\<lambda>i. (deleteKey i, IDelete i)) xs) ++ intents ups dels"
  using assms
proof (induction xs arbitrary: dels)
  case (Cons x xs)
  show ?case
  proof (cases "intents ups dels (deleteKey x) = None")
    case True
    then have none: "map_of ups (deleteKey x) = None" "map_of dels (deleteKey x) = None"
      by (simp_all add: intents_None)
    then have "maps_ok ups (AList.update (deleteKey x) x dels)"
      using Cons.prems by (intro maps_ok_set) (auto simp: map_of_none_keys [symmetric])
    moreover have "fold putMissingDelete xs (ups, AList.update (deleteKey x) x dels) = (ups', dels')"
      using Cons.prems(2) none by simp
    ultimately show ?thesis
      using Cons.IH [of "AList.update (deleteKey x) x dels"] True none
      by (auto simp: intents_set fun_eq_iff map_add_def split: option.splits)
  next
    case False
    then have "fold putMissingDelete xs (ups, dels) = (ups', dels')"
      using Cons.prems(2) by (auto simp: intents_None split: if_splits)
    then show ?thesis using Cons.IH [OF Cons.prems(1)] False
      by (auto simp: fun_eq_iff map_add_def split: option.splits)
  qed
qed simp

lemma requestIntents_add:
  "requestIntents r = map_of (map (\<lambda>i. (deleteKey i, IDelete i)) (rq_deletes r))
     ++ map_of (map (\<lambda>i. (upsertKey i, IUpsert i)) (rq_upserts r))"
proof -
  have m: "map_of (map (\<lambda>i. (f i, g i)) xs) k = map_option g (map_of (map (\<lambda>i. (f i, i)) xs) k)" for f g xs k
    by (induction xs) auto
  show ?thesis
    by (auto simp: fun_eq_iff requestIntents_def intents_def keyedUpserts_def keyedDeletes_def map_add_def
        m [of _ IUpsert] m [of _ IDelete] split: option.splits)
qed

lemma addMissing_spec:
  assumes "maps_ok ups dels" "addMissing r (ups, dels) = (ups', dels')"
  shows "maps_ok ups' dels' \<and> intents ups' dels' = requestIntents r ++ intents ups dels"
proof -
  obtain u1 d1 where 1: "fold putMissingUpsert (rq_upserts r) (ups, dels) = (u1, d1)" by fastforce
  with assms(2) have 2: "fold putMissingDelete (rq_deletes r) (u1, d1) = (ups', dels')"
    by (simp add: addMissing_def)
  note a = fold_putMissingUpsert [OF assms(1) 1]
  show ?thesis using fold_putMissingDelete [OF _ 2] a by (simp add: requestIntents_add map_add_assoc)
qed

subsection \<open>What each step does to the pending work\<close>

lemma persist_simps [simp]:
  "q_upserts (persistQueue q) = q_upserts q" "q_deletes (persistQueue q) = q_deletes q"
  "q_inFlightRequest (persistQueue q) = q_inFlightRequest q" "q_inFlight (persistQueue q) = q_inFlight q"
  "q_retryAttempt (persistQueue q) = q_retryAttempt q" "q_timer (persistQueue q) = q_timer q"
  "q_persisted (persistQueue q) = Some (snapshot q)"
  by (simp_all add: persistQueue_def)

lemma schedule_simps [simp]:
  "q_upserts (scheduleQueue c n q) = q_upserts q" "q_deletes (scheduleQueue c n q) = q_deletes q"
  "q_inFlightRequest (scheduleQueue c n q) = q_inFlightRequest q" "q_inFlight (scheduleQueue c n q) = q_inFlight q"
  "q_retryAttempt (scheduleQueue c n q) = q_retryAttempt q" "q_persisted (scheduleQueue c n q) = q_persisted q"
  "q_timer (scheduleQueue c n q) = (if c then Some n else q_timer q)"
  by (simp_all add: scheduleQueue_def)

lemmas queue_defs = queue_ok_def pending_def flightIntents_def

lemma maps_ok_Nil [simp]: "maps_ok [] []"
  by (simp add: maps_ok_def)

lemma intents_Nil [simp]: "intents [] [] = Map.empty"
  by (simp add: intents_def fun_eq_iff)

lemma intents_enqueue:
  "intents (AList.update k w ups) (AList.delete k dels) = (intents ups dels)(k \<mapsto> IUpsert w)"
  "intents (AList.delete k ups) (AList.update k d dels) = (intents ups dels)(k \<mapsto> IDelete d)"
  by (auto simp: intents_def fun_eq_iff update_conv' delete_conv' split: option.splits)

lemma delete_keys: "k \<notin> fst ` set (AList.delete k m)"
  by (auto simp: AList.delete_eq)

lemma maps_ok_enqueue:
  assumes "maps_ok ups dels"
  shows "maps_ok (AList.update (upsertKey i) i ups) (AList.delete (upsertKey i) dels)"
    "maps_ok (AList.delete (deleteKey j) ups) (AList.update (deleteKey j) j dels)"
  using maps_ok_set(1) [OF maps_ok_delete(2) [OF assms, of "upsertKey i"] delete_keys]
    maps_ok_set(2) [OF maps_ok_delete(1) [OF assms, of "deleteKey j"] delete_keys] .

lemma maps_ok_get:
  assumes "maps_ok ups dels"
  shows "map_of ups k = Some w \<Longrightarrow> k = upsertKey w \<and> map_of dels k = None"
    and "map_of dels k = Some d \<Longrightarrow> k = deleteKey d \<and> map_of ups k = None"
proof -
  have d: "fst ` set ups \<inter> fst ` set dels = {}" using assms by (simp add: maps_ok_def)
  show "k = upsertKey w \<and> map_of dels k = None" if "map_of ups k = Some w"
  proof
    have "(k, w) \<in> set ups" using that by (rule map_of_SomeD)
    then show "k = upsertKey w" using assms by (auto simp: maps_ok_def)
    have "k \<in> fst ` set ups" using \<open>(k, w) \<in> set ups\<close> by force
    then show "map_of dels k = None" using d by (auto simp: map_of_none_keys)
  qed
  show "k = deleteKey d \<and> map_of ups k = None" if "map_of dels k = Some d"
  proof
    have "(k, d) \<in> set dels" using that by (rule map_of_SomeD)
    then show "k = deleteKey d" using assms by (auto simp: maps_ok_def)
    have "k \<in> fst ` set dels" using \<open>(k, d) \<in> set dels\<close> by force
    then show "map_of ups k = None" using d by (auto simp: map_of_none_keys)
  qed
qed

lemma enqueueUpsert_spec:
  assumes "queue_ok q"
  shows "queue_ok (enqueueUpsert opts c i q)" "pending (enqueueUpsert opts c i q) = (pending q)(upsertKey i \<mapsto> IUpsert i)"
  using assms by (simp_all add: enqueueUpsert_def Let_def queue_defs intents_enqueue maps_ok_enqueue)

lemma enqueueDelete_spec:
  assumes "queue_ok q"
  shows "queue_ok (enqueueDelete opts c i q)" "pending (enqueueDelete opts c i q) = (pending q)(deleteKey i \<mapsto> IDelete i)"
  using assms by (simp_all add: enqueueDelete_def Let_def queue_defs intents_enqueue maps_ok_enqueue)

lemma flushNow_spec:
  assumes "queue_ok q"
  shows "queue_ok (flushNow c q)" "pending (flushNow c q) = pending q"
  using assms
  by (auto simp: flushNow_def Let_def queue_defs requestIntents_def maps_ok_keyed split: option.splits)

text \<open>Rebasing only moves preconditions.\<close>

definition sameWork :: "(string \<rightharpoonup> intent) \<Rightarrow> (string \<rightharpoonup> intent) \<Rightarrow> bool" where
  "sameWork a b \<longleftrightarrow> (\<forall>k. map_option erase (a k) = map_option erase (b k))"

lemma sameWork_refl [simp]: "sameWork a a"
  by (simp add: sameWork_def)

lemma sameWork_add: assumes "sameWork a b" shows "sameWork (c ++ a) (c ++ b)"
  unfolding sameWork_def
proof
  fix k
  have "map_option erase (a k) = map_option erase (b k)" using assms by (simp add: sameWork_def)
  then show "map_option erase ((c ++ a) k) = map_option erase ((c ++ b) k)"
    by (cases "a k"; cases "b k") (simp_all add: map_add_def)
qed

lemma sameWork_trans: "sameWork a b \<Longrightarrow> sameWork b c \<Longrightarrow> sameWork a c"
  by (simp add: sameWork_def)

lemma key_rebase [simp]:
  "upsertKey (w\<lparr>w_expectedRevision := r\<rparr>) = upsertKey w"
  "deleteKey (d\<lparr>x_expectedRevision := r\<rparr>) = deleteKey d"
  by (simp_all add: upsertKey_def deleteKey_def)

lemma rebase_upsert:
  assumes "maps_ok ups dels" "map_of ups k = Some w"
  shows "maps_ok (AList.update k (w\<lparr>w_expectedRevision := r\<rparr>) ups) dels"
    "sameWork (intents (AList.update k (w\<lparr>w_expectedRevision := r\<rparr>) ups) dels) (intents ups dels)"
proof -
  have "k = upsertKey w" "k \<notin> fst ` set dels"
    using maps_ok_get(1) [OF assms] by (blast, metis map_of_none_keys)
  then have k: "k = upsertKey (w\<lparr>w_expectedRevision := r\<rparr>)" "upsertKey w \<notin> fst ` set dels"
    by simp_all
  then show "maps_ok (AList.update k (w\<lparr>w_expectedRevision := r\<rparr>) ups) dels"
    using maps_ok_set(1) [OF assms(1), of "w\<lparr>w_expectedRevision := r\<rparr>"] by simp
  show "sameWork (intents (AList.update k (w\<lparr>w_expectedRevision := r\<rparr>) ups) dels) (intents ups dels)"
    using assms(2) by (simp add: sameWork_def intents_set) (simp add: intents_def)
qed

lemma rebase_delete:
  assumes "maps_ok ups dels" "map_of dels k = Some d"
  shows "maps_ok ups (AList.update k (d\<lparr>x_expectedRevision := r\<rparr>) dels)"
    "sameWork (intents ups (AList.update k (d\<lparr>x_expectedRevision := r\<rparr>) dels)) (intents ups dels)"
proof -
  have "k = deleteKey d" "k \<notin> fst ` set ups"
    using maps_ok_get(2) [OF assms] by (blast, metis map_of_none_keys)
  then have k: "k = deleteKey (d\<lparr>x_expectedRevision := r\<rparr>)" "deleteKey d \<notin> fst ` set ups"
    by simp_all
  then show "maps_ok ups (AList.update k (d\<lparr>x_expectedRevision := r\<rparr>) dels)"
    using maps_ok_set(2) [OF assms(1), of "d\<lparr>x_expectedRevision := r\<rparr>"] by simp
  have "map_of ups k = None" using k by (simp add: map_of_none_keys)
  then show "sameWork (intents ups (AList.update k (d\<lparr>x_expectedRevision := r\<rparr>) dels)) (intents ups dels)"
    using assms(2) by (simp add: sameWork_def intents_set) (simp add: intents_def)
qed

definition rebased :: "sync_queue \<Rightarrow> sync_queue \<Rightarrow> bool" where
  "rebased q q' \<longleftrightarrow> maps_ok (q_upserts q') (q_deletes q')
     \<and> sameWork (intents (q_upserts q') (q_deletes q')) (intents (q_upserts q) (q_deletes q))
     \<and> q_inFlightRequest q' = q_inFlightRequest q \<and> q_inFlight q' = q_inFlight q
     \<and> q_timer q' = q_timer q \<and> q_retryAttempt q' = q_retryAttempt q"

lemma rebaseRow_spec:
  assumes "maps_ok (q_upserts q) (q_deletes q)" shows "rebased q (rebaseRow row q)"
proof -
  let ?k = "js_or (row_clientId row) (d_id (row_payload row))"
  show ?thesis
  proof (cases "map_of (q_upserts q) ?k")
    case None
    then show ?thesis using assms rebase_delete [OF assms]
      by (auto simp: rebaseRow_def rebased_def Let_def split: option.splits)
  next
    case (Some w)
    note u = rebase_upsert [OF assms Some, of "Some (row_revision row)"]
    have "map_of (q_deletes q) ?k = None"
      using maps_ok_get(1) [OF assms Some] by (rule conjunct2)
    with Some u show ?thesis by (simp add: rebaseRow_def rebased_def Let_def)
  qed
qed

lemma rebase_spec:
  assumes "maps_ok (q_upserts q) (q_deletes q)"
  shows "rebased q (rebasePendingToAcknowledgedRevisions response q)"
proof -
  have "rebased q (fold rebaseRow rows q)" for rows
  proof (induction rows rule: rev_induct)
    case Nil
    then show ?case using assms by (simp add: rebased_def)
  next
    case (snoc row rows)
    then have "maps_ok (q_upserts (fold rebaseRow rows q)) (q_deletes (fold rebaseRow rows q))"
      by (simp add: rebased_def)
    from rebaseRow_spec [OF this, of row] snoc show ?case
      by (auto simp: rebased_def intro: sameWork_trans)
  qed
  then show ?thesis by (simp add: rebasePendingToAcknowledgedRevisions_def)
qed

text \<open>The three endings of a request.\<close>

lemma onSendFinally_simps [simp]:
  "q_upserts (onSendFinally c q) = q_upserts q" "q_deletes (onSendFinally c q) = q_deletes q"
  "q_inFlightRequest (onSendFinally c q) = None" "\<not> q_inFlight (onSendFinally c q)"
  "q_retryAttempt (onSendFinally c q) = q_retryAttempt q"
  by (simp_all add: onSendFinally_def Let_def)

lemma onSendSuccess_spec:
  assumes "queue_ok q"
  shows "maps_ok (q_upserts (onSendSuccess response q)) (q_deletes (onSendSuccess response q))"
    "sameWork (intents (q_upserts (onSendSuccess response q)) (q_deletes (onSendSuccess response q)))
       (intents (q_upserts q) (q_deletes q))"
  using assms rebase_spec [of "q\<lparr>q_retryAttempt := 0, q_inFlightRequest := None\<rparr>" response]
  by (auto simp: onSendSuccess_def rebased_def queue_ok_def)

lemma onSendError_spec:
  assumes "maps_ok (q_upserts q) (q_deletes q)"
  shows "maps_ok (q_upserts (onSendError opts c r q)) (q_deletes (onSendError opts c r q))"
    "intents (q_upserts (onSendError opts c r q)) (q_deletes (onSendError opts c r q))
       = requestIntents r ++ intents (q_upserts q) (q_deletes q)"
  using addMissing_spec [OF assms, of r]
  by (auto simp: onSendError_def Let_def split: prod.splits)

lemma send_succeeds:
  assumes "queue_ok q" "q_inFlightRequest q = Some r"
  shows "queue_ok (queueStep opts (c, SendSucceeds response False) q)"
    "sameWork (pending (queueStep opts (c, SendSucceeds response False) q)) (intents (q_upserts q) (q_deletes q))"
    "queue_ok (queueStep opts (c, SendSucceeds response True) q)"
    "sameWork (pending (queueStep opts (c, SendSucceeds response True) q)) (pending q)"
  using onSendSuccess_spec [OF assms(1), of response] onSendError_spec [OF onSendSuccess_spec(1) [OF assms(1)]] assms
  by (auto simp: queue_defs Let_def intro: sameWork_add)

lemma send_fails:
  assumes "queue_ok q"
  shows "queue_ok (queueStep opts (c, SendFails) q)" "pending (queueStep opts (c, SendFails) q) = pending q"
  using assms onSendError_spec by (auto simp: queue_defs split: option.splits)

subsection \<open>Every interleaving\<close>

text \<open>
  Ghost history of a run: the last mutation asked for each drawing, and the requests the server accepted.
\<close>

type_synonym history = "(string \<rightharpoonup> intent) \<times> batch_request list"

fun track :: "queue_event \<Rightarrow> sync_queue \<Rightarrow> history \<Rightarrow> history" where
  "track (EnqueueUpsert item) q (latest, acked) = (latest(upsertKey item \<mapsto> IUpsert item), acked)"
| "track (EnqueueDelete item) q (latest, acked) = (latest(deleteKey item \<mapsto> IDelete item), acked)"
| "track (SendSucceeds _ _) q (latest, acked) =
     (latest, case q_inFlightRequest q of None \<Rightarrow> acked | Some r \<Rightarrow> r # acked)"
| "track _ q h = h"

fun runQueue :: "queue_options \<Rightarrow> (bool \<times> queue_event) list \<Rightarrow> sync_queue \<times> history \<Rightarrow> sync_queue \<times> history" where
  "runQueue opts [] s = s"
| "runQueue opts (e # es) (q, h) = runQueue opts es (queueStep opts e q, track (snd e) q h)"

definition acknowledged :: "batch_request list \<Rightarrow> string \<Rightarrow> intent \<Rightarrow> bool" where
  "acknowledged acked k i \<longleftrightarrow> (\<exists>r \<in> set acked. map_option erase (requestIntents r k) = Some (erase i))"

definition accounted :: "sync_queue \<Rightarrow> history \<Rightarrow> string \<Rightarrow> bool" where
  "accounted q h k =
     (case fst h k of
        None \<Rightarrow> pending q k = None
      | Some i \<Rightarrow> map_option erase (pending q k) = Some (erase i)
                  \<or> pending q k = None \<and> acknowledged (snd h) k i)"

lemma accounted_cong:
  assumes "sameWork (pending q') (pending q)" "set (snd h) \<subseteq> set (snd h')" "fst h' = fst h"
  shows "accounted q h k \<Longrightarrow> accounted q' h' k"
proof -
  have eq: "map_option erase (pending q' k) = map_option erase (pending q k)"
    using assms(1) by (simp add: sameWork_def)
  then have "pending q' k = None \<longleftrightarrow> pending q k = None" by (metis option.map_disc_iff)
  with eq assms(2,3) show "accounted q h k \<Longrightarrow> accounted q' h' k"
    by (auto simp: accounted_def acknowledged_def split: option.splits)
qed

lemma accounted_enqueue:
  assumes "accounted q h k" "pending q' = (pending q)(k' \<mapsto> i)" "fst h' = (fst h)(k' \<mapsto> i)" "snd h' = snd h"
  shows "accounted q' h' k"
  using assms by (auto simp: accounted_def split: option.splits)

lemma accounted_success:
  assumes "accounted q h k" "q_inFlightRequest q = Some r"
    and "sameWork (pending q') (intents (q_upserts q) (q_deletes q))" "fst h' = fst h" "snd h' = r # snd h"
  shows "accounted q' h' k"
proof -
  let ?cur = "intents (q_upserts q) (q_deletes q)"
  have eq: "map_option erase (pending q' k) = map_option erase (?cur k)" using assms(3) by (simp add: sameWork_def)
  then have none: "pending q' k = None \<longleftrightarrow> ?cur k = None" by (metis option.map_disc_iff)
  have p: "pending q k = (case ?cur k of Some j \<Rightarrow> Some j | None \<Rightarrow> requestIntents r k)"
    using assms(2) by (simp add: pending_def flightIntents_def map_add_def)
  show ?thesis
  proof (cases "?cur k")
    case None
    with assms(1,4,5) none p show ?thesis
      by (auto simp: accounted_def acknowledged_def split: option.splits)
  next
    case (Some j)
    with assms(1,4,5) eq none p show ?thesis
      by (auto simp: accounted_def acknowledged_def split: option.splits)
  qed
qed

text \<open>The steps that neither queue nor acknowledge work.\<close>

lemma queueStep_quiet:
  assumes "queue_ok q"
    and "case e of EnqueueUpsert _ \<Rightarrow> False | EnqueueDelete _ \<Rightarrow> False
         | SendSucceeds _ _ \<Rightarrow> q_inFlightRequest q = None | _ \<Rightarrow> True"
  shows "queue_ok (queueStep opts (c, e) q)" "pending (queueStep opts (c, e) q) = pending q"
proof -
  have t: "queue_ok (q\<lparr>q_timer := None\<rparr>)" "pending (q\<lparr>q_timer := None\<rparr>) = pending q"
    using assms(1) by (simp_all add: queue_defs)
  have r: "queue_ok (resumeQueue c q)" "pending (resumeQueue c q) = pending q"
    using assms(1) by (simp_all add: resumeQueue_def queue_defs)
  have p: "queue_ok (preserveAndCancel q)" "pending (preserveAndCancel q) = pending q"
    using assms(1) by (simp_all add: preserveAndCancel_def queue_defs)
  note f = flushNow_spec [OF assms(1), of c] flushNow_spec [OF t(1), of c] send_fails [OF assms(1), of opts c]
  show "queue_ok (queueStep opts (c, e) q)" using f r p assms by (cases e) (simp_all split: option.splits)
  show "pending (queueStep opts (c, e) q) = pending q" using f r p t assms by (cases e) (simp_all split: option.splits)
qed

lemma queueStep_accounted:
  assumes "queue_ok q" "accounted q h k"
  shows "queue_ok (queueStep opts (c, e) q) \<and> accounted (queueStep opts (c, e) q) (track e q h) k"
proof (cases e)
  case (EnqueueUpsert i)
  then show ?thesis using enqueueUpsert_spec [OF assms(1)] accounted_enqueue [OF assms(2)] by (cases h) simp
next
  case (EnqueueDelete i)
  then show ?thesis using enqueueDelete_spec [OF assms(1)] accounted_enqueue [OF assms(2)] by (cases h) simp
next
  case (SendSucceeds response throws)
  show ?thesis
  proof (cases "q_inFlightRequest q")
    case None
    then show ?thesis using SendSucceeds assms by (cases h) simp
  next
    case (Some r)
    note s = send_succeeds [OF assms(1) Some]
    have t: "fst (track e q h) = fst h" "snd (track e q h) = r # snd h"
      using SendSucceeds Some by (cases h; simp)+
    show ?thesis
    proof (cases throws)
      case True
      then show ?thesis using s(3,4) accounted_cong [OF s(4), of h "track e q h" k] t assms(2) SendSucceeds
        by (auto simp: subset_insertI simp del: queueStep.simps)
    next
      case False
      then show ?thesis using s(1,2) accounted_success [OF assms(2) Some s(2) t] SendSucceeds
        by (auto simp del: queueStep.simps)
    qed
  qed
qed (use queueStep_quiet [OF assms(1), of e opts c] accounted_cong [of _ q h h k] assms(2) in \<open>cases h; simp del: queueStep.simps\<close>)+

lemma runQueue_accounted:
  "queue_ok q \<Longrightarrow> accounted q h k \<Longrightarrow>
     queue_ok (fst (runQueue opts es (q, h))) \<and> accounted (fst (runQueue opts es (q, h))) (snd (runQueue opts es (q, h))) k"
proof (induction es arbitrary: q h)
  case (Cons e es)
  obtain c ev where "e = (c, ev)" by fastforce
  with Cons.IH queueStep_accounted [OF Cons.prems, of opts c ev] show ?case by (simp del: queueStep.simps track.simps)
qed simp

lemma emptyQueue_ok: "queue_ok emptyQueue" "pending emptyQueue = Map.empty"
  by (simp_all add: emptyQueue_def queue_defs)

subsection \<open>Snapshots\<close>

lemma addMissing_empty [simp]: "addMissing \<lparr>rq_upserts = [], rq_deletes = []\<rparr> m = m"
  by (cases m) (simp add: addMissing_def)

lemma map_of_set_all_Nil: "map_wf m \<Longrightarrow> map_of (map_set_all m []) = map_of m"
  by (simp add: map_get_set_all map_of_rev_distinct)

lemma hydrate_snapshot:
  assumes "queue_ok q"
  shows "pending (hydrate (Some (snapshot q)) emptyQueue) = pending q"
    "q_retryAttempt (hydrate (Some (snapshot q)) emptyQueue) = q_retryAttempt q"
proof -
  let ?r = "case q_inFlightRequest q of Some r \<Rightarrow> r | None \<Rightarrow> \<lparr>rq_upserts = [], rq_deletes = []\<rparr>"
  obtain u d where ud: "addMissing ?r (q_upserts q, q_deletes q) = (u, d)" by fastforce
  have ok: "maps_ok u d" and i: "intents u d = requestIntents ?r ++ intents (q_upserts q) (q_deletes q)"
    using addMissing_spec [OF _ ud] assms by (auto simp: queue_ok_def)
  have "requestIntents ?r = flightIntents q"
    by (auto simp: flightIntents_def requestIntents_add split: option.splits)
  with i have "intents u d = pending q" by (simp add: pending_def)
  moreover have "intents (map_set_all (keyedUpserts (map snd u)) []) (map_set_all (keyedDeletes (map snd d)) []) = intents u d"
  proof -
    have "map_of (map_set_all u []) = map_of u" "map_of (map_set_all d []) = map_of d"
      using ok by (simp_all add: maps_ok_def map_of_set_all_Nil)
    then show ?thesis by (intro ext) (simp only: intents_def maps_ok_keyed [OF ok])
  qed
  ultimately show "pending (hydrate (Some (snapshot q)) emptyQueue) = pending q"
    by (simp add: hydrate_def snapshot_def ud pending_def flightIntents_def emptyQueue_def
        keyedUpserts_def [symmetric] keyedDeletes_def [symmetric])
  show "q_retryAttempt (hydrate (Some (snapshot q)) emptyQueue) = q_retryAttempt q"
    by (simp add: hydrate_def snapshot_def split_beta Let_def)
qed

lemma snapshot_cong:
  "q_upserts q' = q_upserts q \<Longrightarrow> q_deletes q' = q_deletes q \<Longrightarrow> q_inFlightRequest q' = q_inFlightRequest q
   \<Longrightarrow> q_retryAttempt q' = q_retryAttempt q \<Longrightarrow> snapshot q' = snapshot q"
  by (simp add: snapshot_def)

text \<open>The stored snapshot is the current one, or nothing was ever queued.\<close>

definition persisted_ok :: "sync_queue \<Rightarrow> bool" where
  "persisted_ok q \<longleftrightarrow> q_persisted q = Some (snapshot q) \<or> q_persisted q = None \<and> pending q = Map.empty"

lemma persisted_ok_current: "q_persisted q' = Some (snapshot q) \<Longrightarrow> snapshot q' = snapshot q \<Longrightarrow> persisted_ok q'"
  by (simp add: persisted_ok_def)

lemma persisted_ok_persist: "persisted_ok (persistQueue q)"
  by (simp add: persisted_ok_def) (rule snapshot_cong [symmetric]; simp)

lemma persisted_ok_timer:
  assumes "persisted_ok q" "q_upserts q' = q_upserts q" "q_deletes q' = q_deletes q"
    "q_inFlightRequest q' = q_inFlightRequest q" "q_retryAttempt q' = q_retryAttempt q" "q_persisted q' = q_persisted q"
  shows "persisted_ok q'"
  using assms snapshot_cong [of q' q] by (simp add: persisted_ok_def pending_def flightIntents_def)

lemma persisted_ok_schedule: "persisted_ok q \<Longrightarrow> persisted_ok (scheduleQueue c n q)"
  by (erule persisted_ok_timer) simp_all

lemma persisted_ok_inFlight: "persisted_ok q \<Longrightarrow> persisted_ok (q\<lparr>q_inFlight := b\<rparr>)"
  by (erule persisted_ok_timer) simp_all

lemma persisted_ok_flush: "persisted_ok q \<Longrightarrow> persisted_ok (flushNow c q)"
  by (simp add: flushNow_def Let_def persisted_ok_persist persisted_ok_inFlight)

lemma persisted_ok_finally: "persisted_ok (onSendFinally c q)"
  by (simp add: onSendFinally_def Let_def persisted_ok_persist persisted_ok_schedule)

lemma queueStep_persisted: "persisted_ok q \<Longrightarrow> persisted_ok (queueStep opts (c, e) q)"
  by (cases e)
    (auto simp: enqueueUpsert_def enqueueDelete_def resumeQueue_def preserveAndCancel_def Let_def
      persisted_ok_persist persisted_ok_finally
      intro!: persisted_ok_schedule persisted_ok_flush elim: persisted_ok_timer split: option.splits)

lemma runQueue_persisted: "persisted_ok q \<Longrightarrow> persisted_ok (fst (runQueue opts es (q, h)))"
proof (induction es arbitrary: q h)
  case (Cons e es)
  then show ?case using queueStep_persisted [of q opts "fst e" "snd e"] by (simp del: queueStep.simps)
qed simp

subsection \<open>Progress\<close>

definition armed :: "sync_queue \<Rightarrow> bool" where
  "armed q \<longleftrightarrow> queueSize q = 0 \<or> q_timer q \<noteq> None \<or> q_inFlight q"

lemma queueStep_armed:
  assumes "queue_ok q" "armed q" "e \<noteq> Preserve"
  shows "armed (queueStep opts (True, e) q)"
proof (cases e)
  case (SendSucceeds response throws)
  have "q_retryAttempt (onSendSuccess response q) = 0"
    using rebase_spec [of "q\<lparr>q_retryAttempt := 0, q_inFlightRequest := None\<rparr>" response] assms(1)
    by (auto simp: onSendSuccess_def rebased_def queue_ok_def)
  with SendSucceeds assms show ?thesis
    by (auto simp: armed_def onSendFinally_def onSendError_def queueSize_def Let_def split: option.splits prod.splits)
qed (use assms in \<open>auto simp: armed_def enqueueUpsert_def enqueueDelete_def resumeQueue_def flushNow_def
      onSendFinally_def onSendError_def queueSize_def Let_def split: option.splits prod.splits\<close>)

lemma runQueue_armed:
  assumes "\<forall>e \<in> set es. fst e \<and> snd e \<noteq> Preserve" "queue_ok q" "armed q"
  shows "armed (fst (runQueue opts es (q, h)))"
  using assms
proof (induction es arbitrary: q h)
  case (Cons e es)
  obtain ev where e: "e = (True, ev)" "ev \<noteq> Preserve" using Cons.prems(1) by (cases e) auto
  have "accounted q (pending q, []) k" for k by (simp add: accounted_def split: option.splits)
  then have "queue_ok (queueStep opts e q)" using queueStep_accounted [OF Cons.prems(2)] e by blast
  moreover have "armed (queueStep opts e q)" using queueStep_armed [OF Cons.prems(2,3)] e by simp
  ultimately show ?case using Cons.IH Cons.prems(1) by (simp del: queueStep.simps)
qed simp

lemma drain:
  assumes "queue_ok q" "\<not> q_inFlight q" "q_timer q \<noteq> None"
  shows "pending (queueStep opts (True, SendSucceeds response False) (queueStep opts (True, TimerFires) q)) = Map.empty"
proof -
  let ?f = "flushNow True (q\<lparr>q_timer := None\<rparr>)"
  have f: "queueStep opts (True, TimerFires) q = ?f" using assms(3) by (auto split: option.splits)
  have ok: "queue_ok ?f" using assms(1) by (intro flushNow_spec) (simp add: queue_defs)
  show ?thesis
  proof (cases "q_inFlightRequest ?f")
    case None
    moreover have "q_inFlightRequest q = None" using assms by (simp add: queue_ok_def)
    ultimately have "q_upserts q = [] \<and> q_deletes q = []"
      using assms(2) by (auto simp: flushNow_def Let_def split: if_splits)
    then show ?thesis using assms \<open>q_inFlightRequest q = None\<close>
      unfolding f by (simp add: flushNow_def pending_def flightIntents_def)
  next
    case (Some r)
    then have "q_upserts ?f = [] \<and> q_deletes ?f = []"
      using assms by (auto simp: flushNow_def Let_def queue_ok_def split: if_splits)
    with send_succeeds(2) [OF ok Some, of opts True response]
    have "sameWork (pending (queueStep opts (True, SendSucceeds response False) ?f)) Map.empty"
      by (simp del: queueStep.simps)
    then show ?thesis unfolding f by (simp add: sameWork_def fun_eq_iff del: queueStep.simps)
  qed
qed

subsection \<open>Properties\<close>

text \<open>
  C6.  No mutation is ever lost or overtaken, whatever the interleaving of edits, timers, logouts and
  request outcomes: after any sequence of events, every drawing that was ever edited has
  its latest mutation still pending (up to its revision precondition), or nothing pending and the latest
  mutation contained in a request the server accepted; drawings never edited have nothing pending.
\<close>

theorem outbox_never_loses_work:
  "let (q, latest, acked) = runQueue opts events (emptyQueue, Map.empty, [])
   in \<forall>k. case latest k of
            None \<Rightarrow> pending q k = None
          | Some i \<Rightarrow> map_option erase (pending q k) = Some (erase i)
                      \<or> pending q k = None \<and> acknowledged acked k i"
proof -
  have "accounted emptyQueue (Map.empty, []) k" for k by (simp add: accounted_def emptyQueue_ok)
  from runQueue_accounted [OF emptyQueue_ok(1) this]
  have "accounted (fst (runQueue opts events (emptyQueue, Map.empty, [])))
      (snd (runQueue opts events (emptyQueue, Map.empty, []))) k" for k by blast
  then show ?thesis by (simp add: accounted_def split_beta Let_def)
qed

text \<open>
  C31.  The outbox in local storage is never behind: after any sequence of events, reloading the
  page and hydrating a fresh queue from what is stored gives back exactly the unacknowledged work.
\<close>

theorem outbox_snapshot_restores:
  "let q = fst (runQueue opts events (emptyQueue, Map.empty, []))
   in pending (hydrate (q_persisted q) emptyQueue) = pending q"
proof -
  let ?q = "fst (runQueue opts events (emptyQueue, Map.empty, []))"
  have acc: "accounted emptyQueue (Map.empty, []) ''''" by (simp add: accounted_def emptyQueue_ok)
  have ok: "queue_ok ?q" using runQueue_accounted [OF emptyQueue_ok(1) acc] by blast
  have "persisted_ok emptyQueue" by (simp add: persisted_ok_def emptyQueue_ok) (simp add: emptyQueue_def)
  then have "persisted_ok ?q" by (rule runQueue_persisted)
  then show ?thesis
    using hydrate_snapshot(1) [OF ok]
    by (auto simp: persisted_ok_def Let_def hydrate_def emptyQueue_ok simp del: not_None_eq)
qed

text \<open>
  The outbox never stalls while sending is allowed: after any sequence of events without a tab close,
  queued work has a timer armed or a request in flight; and when the timer fires with no request in
  flight and the server accepts the request, nothing is left pending.
\<close>

theorem outbox_makes_progress:
  assumes "\<forall>e \<in> set events. fst e \<and> snd e \<noteq> Preserve"
    and "q = fst (runQueue opts events (emptyQueue, Map.empty, []))"
  shows "(queueSize q = 0 \<or> q_timer q \<noteq> None \<or> q_inFlight q) \<and>
    (q_inFlight q \<or> q_timer q = None \<or>
     pending (queueStep opts (True, SendSucceeds response False) (queueStep opts (True, TimerFires) q)) = Map.empty)"
proof -
  have acc: "accounted emptyQueue (Map.empty, []) ''''" by (simp add: accounted_def emptyQueue_ok)
  have ok: "queue_ok q" using runQueue_accounted [OF emptyQueue_ok(1) acc] assms(2) by blast
  have "armed emptyQueue" by (simp add: armed_def queueSize_def emptyQueue_def)
  then have "armed q" using runQueue_armed [OF assms(1) emptyQueue_ok(1)] assms(2) by simp
  then show ?thesis using drain [OF ok] by (auto simp: armed_def simp del: queueStep.simps)
qed

text \<open>
  Retries back off: after a failed request the next attempt is scheduled after a delay that never
  shrinks from one failure to the next and never exceeds \<open>maxRetryMs\<close>.
\<close>

theorem retry_backs_off:
  assumes "q_inFlightRequest q = Some r"
  shows "q_timer (queueStep opts (True, SendFails) q) = Some (retryDelay opts (q_retryAttempt q + 1))
    \<and> retryDelay opts n \<le> retryDelay opts (n + 1) \<and> retryDelay opts n \<le> o_maxRetryMs opts"
proof (intro conjI)
  have "o_debounceMs opts * 2 ^ min n 8 \<le> o_debounceMs opts * 2 ^ min (n + 1) 8"
    by (intro mult_le_mono2 power_increasing) auto
  then show "retryDelay opts n \<le> retryDelay opts (n + 1)"
    unfolding retryDelay_def by (intro min.mono order_refl)
  show "retryDelay opts n \<le> o_maxRetryMs opts" by (simp add: retryDelay_def)
  show "q_timer (queueStep opts (True, SendFails) q) = Some (retryDelay opts (q_retryAttempt q + 1))"
    using assms by (simp add: onSendFinally_def onSendError_def Let_def split: prod.splits)
qed

subsection \<open>Witnesses\<close>

definition sampleWrite :: backend_write where
  "sampleWrite = \<lparr>w_symbol = ''EUR'', w_toolType = ''trendline'', w_payload = sampleLine ''a'', w_locked = Some False,
     w_hidden = Some False, w_clientId = Some ''a'', w_clientRevision = Some 1, w_expectedRevision = None\<rparr>"

theorem outbox_makes_progress_witness:
  "let q = fst (runQueue DEFAULT_OPTIONS [(True, EnqueueUpsert sampleWrite)] (emptyQueue, Map.empty, []))
   in q_timer q = Some 800 \<and>
      pending (queueStep DEFAULT_OPTIONS (True, SendSucceeds \<lparr>rs_upserted = [], rs_deleted = 0\<rparr> False)
        (queueStep DEFAULT_OPTIONS (True, TimerFires) q)) = Map.empty"
  using outbox_makes_progress [of "[(True, EnqueueUpsert sampleWrite)]" _ DEFAULT_OPTIONS
      "\<lparr>rs_upserted = [], rs_deleted = 0\<rparr>", OF _ refl]
  by (simp add: Let_def enqueueUpsert_def emptyQueue_def DEFAULT_OPTIONS_def del: queueStep.simps(5-8))

theorem retry_backs_off_witness:
  "q_timer (queueStep DEFAULT_OPTIONS (True, SendFails)
     (emptyQueue\<lparr>q_inFlightRequest := Some \<lparr>rq_upserts = [sampleWrite], rq_deletes = []\<rparr>, q_inFlight := True\<rparr>)) = Some 1600"
  using retry_backs_off [of "emptyQueue\<lparr>q_inFlightRequest := Some \<lparr>rq_upserts = [sampleWrite], rq_deletes = []\<rparr>, q_inFlight := True\<rparr>"
      "\<lparr>rq_upserts = [sampleWrite], rq_deletes = []\<rparr>" DEFAULT_OPTIONS 0]
  by (simp add: retryDelay_def DEFAULT_OPTIONS_def emptyQueue_def del: queueStep.simps)

end
