(* ===== verification/DrawingStore.thy ===== *)
theory DrawingStore
  imports DrawingSync
begin

section \<open>The drawing slice of the chart store\<close>

text \<open>
  Models the write atoms of \<open>store/chartStore.ts\<close> that change the drawings: add, update, batch
  update, remove, duplicate, bring to front, send to back and select, each with its writes to the local
  registry and to the sync outbox.  The state is the record \<open>chart_store\<close>; the atoms become functions on it.

  Parameters of the model (\<open>store_env\<close>): the codec of \<open>drawingCodec.ts\<close> at the storage
  boundary, the tool manifest's position side test, the three-point expansion of a position tool placed with
  one click, whether a backend session exists, and the outbox options.  Toasts, logging and the order ticket
  prefill do not touch the drawings and are left out.  \<open>uid("dw")\<close> is an argument, the generated id.
\<close>

subsection \<open>State and environment\<close>

record chart_store =
  cs_symbol :: string
  cs_layoutId :: string
  cs_chartId :: string
  cs_newSyncMode :: sync_mode
  cs_keepDrawing :: bool
  cs_activeTool :: string
  cs_drawings :: "drawing list"
  cs_selectedId :: "string option"
  cs_selectedIds :: "string list"
  cs_registry :: "(string, drawing list) js_map"
  cs_outbox :: sync_queue

record store_env =
  en_decodeList :: "drawing list \<Rightarrow> drawing list"
  en_encode :: "drawing \<Rightarrow> drawing"
  en_isPosition :: "dvalue \<Rightarrow> bool"
  en_initPosition :: "chart_store \<Rightarrow> drawing \<Rightarrow> drawing option"
  en_canSend :: bool
  en_opts :: queue_options

subsection \<open>Persistence\<close>

definition syncContext :: "chart_store \<Rightarrow> string \<Rightarrow> sync_context" where
  "syncContext st symbol =
     \<lparr>x_symbol = symbol, x_layoutId = cs_layoutId st, x_chartId = cs_chartId st\<rparr>"

definition readDrawingRegistry :: "store_env \<Rightarrow> chart_store \<Rightarrow> string \<Rightarrow> drawing list" where
  "readDrawingRegistry env st symbol =
     en_decodeList env (case map_get (cs_registry st) symbol of Some ds \<Rightarrow> ds | None \<Rightarrow> [])"

definition persistDrawingRegistry ::
    "store_env \<Rightarrow> string \<Rightarrow> drawing list \<Rightarrow> chart_store \<Rightarrow> chart_store" where
  "persistDrawingRegistry env symbol registry st =
     st\<lparr>cs_registry := map_set symbol (map (en_encode env) registry) (cs_registry st)\<rparr>"

definition persistLocalDrawings ::
    "store_env \<Rightarrow> string \<Rightarrow> drawing list \<Rightarrow> chart_store \<Rightarrow> chart_store" where
  "persistLocalDrawings env symbol drawings st =
     persistDrawingRegistry env symbol
       (mergeDrawingSyncRegistry (readDrawingRegistry env st symbol) drawings (syncContext st symbol)) st"

definition revisionOf :: "dvalue \<Rightarrow> nat option" where
  "revisionOf v = (case v of VNum (Fin r) \<Rightarrow> if 0 \<le> r then Some (nat \<lfloor>r\<rfloor>) else None | _ \<Rightarrow> None)"

definition toolOf :: "drawing \<Rightarrow> string" where
  "toolOf d = (case getProp d ''tool'' of VStr t \<Rightarrow> t | _ \<Rightarrow> [])"

definition localDrawingToBackend :: "store_env \<Rightarrow> string \<Rightarrow> drawing \<Rightarrow> backend_write" where
  "localDrawingToBackend env symbol drawing =
     \<lparr>w_symbol = symbol, w_toolType = toolOf drawing, w_payload = en_encode env drawing,
      w_locked = Some (getProp drawing ''locked'' = VBool True),
      w_hidden = Some (getProp drawing ''visible'' = VBool False),
      w_clientId = Some (d_id drawing),
      w_clientRevision = Some (case d_clientRevision drawing of Some n \<Rightarrow> n | None \<Rightarrow> 0),
      w_expectedRevision = revisionOf (getProp drawing ''serverRevision'')\<rparr>"

definition queueDrawingUpsert :: "store_env \<Rightarrow> string \<Rightarrow> drawing \<Rightarrow> chart_store \<Rightarrow> chart_store" where
  "queueDrawingUpsert env symbol drawing st =
     st\<lparr>cs_outbox := enqueueUpsert (en_opts env) (en_canSend env) (localDrawingToBackend env symbol drawing)
                       (cs_outbox st)\<rparr>"

definition queueDrawingDelete :: "store_env \<Rightarrow> string \<Rightarrow> drawing \<Rightarrow> chart_store \<Rightarrow> chart_store" where
  "queueDrawingDelete env symbol drawing st =
     st\<lparr>cs_outbox := enqueueDelete (en_opts env) (en_canSend env)
          \<lparr>x_id = None, x_clientId = Some (d_id drawing), x_delSymbol = Some symbol,
           x_expectedRevision = revisionOf (getProp drawing ''serverRevision'')\<rparr> (cs_outbox st)\<rparr>"

definition rowsByID :: "backend_drawing list \<Rightarrow> (string, backend_drawing) js_map" where
  "rowsByID rows = map_set_all (map (\<lambda>row. (js_or (row_clientId row) (d_id (row_payload row)), row)) rows) []"

text \<open>\<open>!row || drawing.serverRevision === row.revision ? drawing : {...drawing, serverRevision: row.revision}\<close>\<close>

definition staleRevision :: "(string, backend_drawing) js_map \<Rightarrow> drawing \<Rightarrow> bool" where
  "staleRevision byID d =
     (case map_get byID (d_id d) of
        None \<Rightarrow> False
      | Some row \<Rightarrow> getProp d ''serverRevision'' \<noteq> VNum (Fin (of_nat (row_revision row))))"

definition withServerRevision :: "(string, backend_drawing) js_map \<Rightarrow> drawing \<Rightarrow> drawing" where
  "withServerRevision byID d =
     (case map_get byID (d_id d) of
        None \<Rightarrow> d
      | Some row \<Rightarrow>
          if \<not> staleRevision byID d then d
          else d\<lparr>d_props := map_set ''serverRevision'' (VNum (Fin (of_nat (row_revision row)))) (d_props d)\<rparr>)"

definition acknowledgeDrawingBatch :: "store_env \<Rightarrow> backend_drawing list \<Rightarrow> chart_store \<Rightarrow> chart_store" where
  "acknowledgeDrawingBatch env rows st =
     (if rows = [] then st
      else
        let byID = rowsByID rows;
            next' = map (withServerRevision byID) (cs_drawings st)
        in if list_ex (staleRevision byID) (cs_drawings st)
           then persistLocalDrawings env (cs_symbol st) next' (st\<lparr>cs_drawings := next'\<rparr>)
           else st)"

subsection \<open>Write atoms\<close>

definition topZIndex :: "drawing list \<Rightarrow> jsnum" where
  "topZIndex drawings = fold (\<lambda>x m. js_max m (zIndexOf x)) drawings (Fin 0)"

definition bottomZIndex :: "drawing list \<Rightarrow> jsnum" where
  "bottomZIndex drawings = fold (\<lambda>x m. js_min m (zIndexOf x)) drawings (Fin 0)"

text \<open>The object literal of \<open>addDrawingAtom\<close>: defaults, the request over them, the managed fields last.\<close>

definition completeDrawing :: "chart_store \<Rightarrow> string \<Rightarrow> drawing \<Rightarrow> drawing" where
  "completeDrawing st freshId d =
     (let defaults = [(''visible'', VBool True), (''locked'', VBool False),
                      (''zIndex'', VNum (js_add (topZIndex (cs_drawings st)) (Fin 1)))];
          managed = [(''points'', case getProp d ''points'' of VUndefined \<Rightarrow> VPoints [] | v \<Rightarrow> v),
                     (''sync'', case getProp d ''sync'' of
                                  VUndefined \<Rightarrow> VSync (drawingSyncBinding (cs_newSyncMode st) (syncContext st (cs_symbol st)))
                                | v \<Rightarrow> v)]
      in \<lparr>d_id = js_or (Some (d_id d)) freshId,
          d_clientRevision = bumpRevision (d_clientRevision d),
          d_props = spread (spread defaults (d_props d)) managed\<rparr>)"

definition addDrawing :: "store_env \<Rightarrow> string \<Rightarrow> drawing \<Rightarrow> chart_store \<Rightarrow> chart_store" where
  "addDrawing env freshId d st =
     (let drawing0 = completeDrawing st freshId d
      in case (if en_isPosition env (getProp drawing0 ''tool'') \<and> length (pointsOf drawing0) = 1
               then en_initPosition env st drawing0 else Some drawing0) of
           None \<Rightarrow> st
         | Some drawing \<Rightarrow>
             let drawings = cs_drawings st @ [drawing];
                 st1 = st\<lparr>cs_drawings := drawings,
                          cs_activeTool := (if cs_keepDrawing st then cs_activeTool st else ''crosshair''),
                          cs_selectedId := Some (d_id drawing), cs_selectedIds := [d_id drawing]\<rparr>
             in queueDrawingUpsert env (cs_symbol st) drawing
                  (persistLocalDrawings env (cs_symbol st) drawings st1))"

definition updateDrawing :: "store_env \<Rightarrow> string \<Rightarrow> props \<Rightarrow> chart_store \<Rightarrow> chart_store" where
  "updateDrawing env drawingId patch st =
     (let drawings = updateDrawings drawingId patch (cs_drawings st);
          updated = find (\<lambda>d. d_id d = drawingId) (rev drawings);
          st1 = persistLocalDrawings env (cs_symbol st) drawings (st\<lparr>cs_drawings := drawings\<rparr>)
      in case updated of
           None \<Rightarrow> st1
         | Some d \<Rightarrow> queueDrawingUpsert env (cs_symbol st) d st1)"

text \<open>The queueing loop of the batch writer: each touched id once, with its final value.\<close>

fun queueUpdated ::
    "store_env \<Rightarrow> string \<Rightarrow> (string, drawing) js_map \<Rightarrow> string list \<Rightarrow> drawing_patch_update list
       \<Rightarrow> chart_store \<Rightarrow> chart_store" where
  "queueUpdated env symbol updatedById queued [] st = st"
| "queueUpdated env symbol updatedById queued (u # us) st =
     (if u_id u \<in> set queued then queueUpdated env symbol updatedById queued us st
      else case map_get updatedById (u_id u) of
             None \<Rightarrow> queueUpdated env symbol updatedById queued us st
           | Some drawing \<Rightarrow>
               queueUpdated env symbol updatedById (u_id u # queued) us
                 (queueDrawingUpsert env symbol drawing st))"

definition batchUpdateDrawings :: "store_env \<Rightarrow> drawing_patch_update list \<Rightarrow> chart_store \<Rightarrow> chart_store" where
  "batchUpdateDrawings env updates st =
     (let result = applyDrawingBatchUpdates (cs_drawings st) updates
      in if br_updatedById result = [] then st
         else queueUpdated env (cs_symbol st) (br_updatedById result) [] updates
                (persistLocalDrawings env (cs_symbol st) (br_drawings result)
                   (st\<lparr>cs_drawings := br_drawings result\<rparr>)))"

definition removeDrawing :: "store_env \<Rightarrow> string \<Rightarrow> chart_store \<Rightarrow> chart_store" where
  "removeDrawing env drawingId st =
     (let removed = find (\<lambda>d. d_id d = drawingId) (cs_drawings st);
          drawings = filter (\<lambda>d. d_id d \<noteq> drawingId) (cs_drawings st);
          selectedIds = removeAll drawingId (cs_selectedIds st);
          st1 = persistLocalDrawings env (cs_symbol st) drawings
                  (st\<lparr>cs_drawings := drawings, cs_selectedIds := selectedIds,
                      cs_selectedId := (if length selectedIds = 1 then Some (hd selectedIds) else None)\<rparr>)
      in case removed of
           None \<Rightarrow> st1
         | Some d \<Rightarrow> queueDrawingDelete env (cs_symbol st) d st1)"

definition duplicateDrawing :: "store_env \<Rightarrow> string \<Rightarrow> string \<Rightarrow> chart_store \<Rightarrow> chart_store" where
  "duplicateDrawing env freshId drawingId st =
     (case find (\<lambda>d. d_id d = drawingId) (cs_drawings st) of
        None \<Rightarrow> st
      | Some src \<Rightarrow>
          let copy = \<lparr>d_id = freshId, d_clientRevision = Some 1,
                      d_props = spread (d_props src)
                        [(''serverRevision'', VUndefined),
                         (''zIndex'', VNum (js_add (topZIndex (cs_drawings st)) (Fin 1)))]\<rparr>;
              drawings = cs_drawings st @ [copy]
          in queueDrawingUpsert env (cs_symbol st) copy
               (persistLocalDrawings env (cs_symbol st) drawings
                  (st\<lparr>cs_drawings := drawings, cs_selectedId := Some freshId, cs_selectedIds := [freshId]\<rparr>)))"

definition bringToFront :: "store_env \<Rightarrow> string \<Rightarrow> chart_store \<Rightarrow> chart_store" where
  "bringToFront env drawingId st =
     updateDrawing env drawingId [(''zIndex'', VNum (js_add (topZIndex (cs_drawings st)) (Fin 1)))] st"

definition sendToBack :: "store_env \<Rightarrow> string \<Rightarrow> chart_store \<Rightarrow> chart_store" where
  "sendToBack env drawingId st =
     updateDrawing env drawingId [(''zIndex'', VNum (js_sub (bottomZIndex (cs_drawings st)) (Fin 1)))] st"

subsection \<open>What the store shows\<close>

text \<open>The content of each drawing, without the revision counter.\<close>

type_synonym drawing_view = "string \<rightharpoonup> (string \<Rightarrow> dvalue)"

definition view :: "chart_store \<Rightarrow> drawing_view" where
  "view st i = map_option getProp (find (\<lambda>d. d_id d = i) (cs_drawings st))"

definition store_ok :: "chart_store \<Rightarrow> bool" where
  "store_ok st \<longleftrightarrow> distinct (map d_id (cs_drawings st)) \<and> queue_ok (cs_outbox st)"

definition patchView :: "props \<Rightarrow> (string \<Rightarrow> dvalue) \<Rightarrow> string \<Rightarrow> dvalue" where
  "patchView p f k = (case map_of (rev p) k of Some v \<Rightarrow> v | None \<Rightarrow> f k)"

definition updView :: "string \<Rightarrow> props \<Rightarrow> drawing_view \<Rightarrow> drawing_view" where
  "updView i p v = v(i := map_option (patchView p) (v i))"

lemma getProp_patchView: "getProp (patchDrawing d p) = patchView p (getProp d)"
  by (simp add: fun_eq_iff patchView_def)

lemma persistLocal_simps [simp]:
  "cs_drawings (persistLocalDrawings env s ds st) = cs_drawings st"
  "cs_outbox (persistLocalDrawings env s ds st) = cs_outbox st"
  by (simp_all add: persistLocalDrawings_def persistDrawingRegistry_def)

lemma queueDrawing_simps [simp]:
  "cs_drawings (queueDrawingUpsert env s d st) = cs_drawings st"
  "cs_drawings (queueDrawingDelete env s d st) = cs_drawings st"
  by (simp_all add: queueDrawingUpsert_def queueDrawingDelete_def)

lemma queueDrawing_ok [simp]:
  "queue_ok (cs_outbox st) \<Longrightarrow> queue_ok (cs_outbox (queueDrawingUpsert env s d st))"
  "queue_ok (cs_outbox st) \<Longrightarrow> queue_ok (cs_outbox (queueDrawingDelete env s d st))"
  by (simp_all add: queueDrawingUpsert_def queueDrawingDelete_def enqueueUpsert_spec enqueueDelete_spec)

lemma queueUpdated_simps [simp]:
  "cs_drawings (queueUpdated env s m q us st) = cs_drawings st"
  "queue_ok (cs_outbox st) \<Longrightarrow> queue_ok (cs_outbox (queueUpdated env s m q us st))"
  by (induction env s m q us st rule: queueUpdated.induct) (auto split: option.splits)

lemma view_cong: "cs_drawings a = cs_drawings b \<Longrightarrow> view a = view b"
  by (simp add: view_def fun_eq_iff)

lemma find_append: "find P (xs @ ys) = (case find P xs of None \<Rightarrow> find P ys | s \<Rightarrow> s)"
  by (induction xs) auto

lemma find_filter_id:
  "find (\<lambda>d. d_id d = j) (filter (\<lambda>d. d_id d \<noteq> i) ds) = (if j = i then None else find (\<lambda>d. d_id d = j) ds)"
  by (induction ds) auto

lemma find_update_id:
  "find (\<lambda>d. d_id d = j) (updateDrawings i p ds) =
     map_option (\<lambda>d. if j \<noteq> i then d else patchDrawing d p) (find (\<lambda>d. d_id d = j) ds)"
  by (induction ds) (auto simp: updateDrawings_def)

lemma find_map_ids:
  "(\<And>d. d_id (f d) = d_id d) \<Longrightarrow> find (\<lambda>d. d_id d = i) (map f ds) = map_option f (find (\<lambda>d. d_id d = i) ds)"
  by (induction ds) auto

lemma find_id: "find (\<lambda>d. d_id d = i) ds = Some d \<Longrightarrow> d_id d = i"
  by (auto simp: find_Some_iff)

lemma view_None: "view st i = None \<longleftrightarrow> i \<notin> d_id ` set (cs_drawings st)"
  by (auto simp: view_def find_None_iff)

lemma view_append:
  assumes "cs_drawings st' = cs_drawings st @ [d]" "view st (d_id d) = None"
  shows "view st' = (view st)(d_id d \<mapsto> getProp d)"
  using assms by (auto simp: view_def fun_eq_iff find_append split: option.splits)

lemma view_remove: "view (removeDrawing env i st) = (view st)(i := None)"
proof -
  have "cs_drawings (removeDrawing env i st) = filter (\<lambda>d. d_id d \<noteq> i) (cs_drawings st)"
    by (simp add: removeDrawing_def Let_def split: option.splits)
  then show ?thesis by (intro ext) (simp add: view_def find_filter_id)
qed

lemma ok_remove [inv_intros]: "store_ok st \<Longrightarrow> store_ok (removeDrawing env i st)"
  by (auto simp: store_ok_def removeDrawing_def Let_def distinct_map_filter split: option.splits)

lemma view_updated_list:
  assumes "cs_drawings st' = updateDrawings i p (cs_drawings st)"
  shows "view st' = updView i p (view st)"
proof (rule ext)
  fix j
  show "view st' j = updView i p (view st) j"
    by (cases "find (\<lambda>d. d_id d = j) (cs_drawings st)")
      (auto simp: view_def assms find_update_id updView_def getProp_patchView)
qed

lemma view_update: "view (updateDrawing env i p st) = updView i p (view st)"
  by (rule view_updated_list) (simp add: updateDrawing_def Let_def split: option.splits)

lemma ids_update [simp]: "map d_id (updateDrawings i p ds) = map d_id ds"
  by (simp add: updateDrawings_def comp_def)

lemma ok_update [inv_intros]: "store_ok st \<Longrightarrow> store_ok (updateDrawing env i p st)"
  by (auto simp: store_ok_def updateDrawing_def Let_def split: option.splits)

lemma batch_untouched:
  assumes "br_updatedById (applyDrawingBatchUpdates ds us) = []"
  shows "br_drawings (applyDrawingBatchUpdates ds us) = ds"
proof -
  have "map_of (rev (map (\<lambda>d. (d_id d, patchesFor us d)) (filter (touched us) ds))) = Map.empty"
    using batch_result(2) [of ds us] assms by simp
  then have "filter (touched us) ds = []" by (simp add: map_of_eq_empty_iff)
  then have "\<forall>d \<in> set ds. \<not> touched us d" by (simp add: filter_empty_conv)
  then show ?thesis by (simp add: batch_result(1) map_idI patchesFor_untouched)
qed

lemma drawings_batch:
  "cs_drawings (batchUpdateDrawings env us st) = foldl (\<lambda>ds u. updateDrawings (u_id u) (u_patch u) ds) (cs_drawings st) us"
  using batch_untouched [of "cs_drawings st" us]
  by (simp add: batchUpdateDrawings_def Let_def sequential_updates batch_result)

lemma view_batch:
  "view (batchUpdateDrawings env us st) = fold (\<lambda>u. updView (u_id u) (u_patch u)) us (view st)"
proof -
  have "view (st'\<lparr>cs_drawings := foldl (\<lambda>ds u. updateDrawings (u_id u) (u_patch u) ds) (cs_drawings st') us\<rparr>)
      = fold (\<lambda>u. updView (u_id u) (u_patch u)) us (view st')" for st'
  proof (induction us arbitrary: st')
    case (Cons u us)
    have "view (st'\<lparr>cs_drawings := updateDrawings (u_id u) (u_patch u) (cs_drawings st')\<rparr>)
        = updView (u_id u) (u_patch u) (view st')" by (rule view_updated_list) simp
    with Cons [of "st'\<lparr>cs_drawings := updateDrawings (u_id u) (u_patch u) (cs_drawings st')\<rparr>"]
    show ?case by simp
  qed simp
  from this [of st] show ?thesis
    using view_cong [of "batchUpdateDrawings env us st"
        "st\<lparr>cs_drawings := foldl (\<lambda>ds u. updateDrawings (u_id u) (u_patch u) ds) (cs_drawings st) us\<rparr>"]
    by (simp add: drawings_batch)
qed

lemma ids_batch: "map d_id (foldl (\<lambda>ds u. updateDrawings (u_id u) (u_patch u) ds) ds us) = map d_id ds"
  by (induction us arbitrary: ds) simp_all

lemma ok_batch [inv_intros]: "store_ok st \<Longrightarrow> store_ok (batchUpdateDrawings env us st)"
  unfolding store_ok_def drawings_batch ids_batch by (simp add: batchUpdateDrawings_def Let_def)

subsection \<open>Adding\<close>

text \<open>Drawings the position expansion leaves alone.\<close>

definition settled :: "store_env \<Rightarrow> drawing \<Rightarrow> bool" where
  "settled env d \<longleftrightarrow> d_id d \<noteq> [] \<and> \<not> (en_isPosition env (getProp d ''tool'') \<and> length (pointsOf d) = 1)"

text \<open>Drawings that carry everything \<open>addDrawingAtom\<close> would fill in, as every drawing of the store does.\<close>

definition complete :: "drawing \<Rightarrow> bool" where
  "complete d \<longleftrightarrow> map_wf (d_props d) \<and> (\<forall>k \<in> {''visible'', ''locked'', ''zIndex''}. map_has (d_props d) k)
     \<and> getProp d ''points'' \<noteq> VUndefined \<and> getProp d ''sync'' \<noteq> VUndefined"

lemma getProp_complete:
  "getProp (completeDrawing st u d) k =
     (if k = ''sync'' then (case getProp d ''sync'' of
          VUndefined \<Rightarrow> VSync (drawingSyncBinding (cs_newSyncMode st) (syncContext st (cs_symbol st))) | v \<Rightarrow> v)
      else if k = ''points'' then (case getProp d ''points'' of VUndefined \<Rightarrow> VPoints [] | v \<Rightarrow> v)
      else case map_of (rev (d_props d)) k of Some v \<Rightarrow> v
           | None \<Rightarrow> if k = ''visible'' then VBool True else if k = ''locked'' then VBool False
                    else if k = ''zIndex'' then VNum (js_add (topZIndex (cs_drawings st)) (Fin 1)) else VUndefined)"
  by (auto simp: completeDrawing_def getProp_def [of "drawing.make _ _ _"] getProp_def [of "\<lparr>d_id = _, d_clientRevision = _, d_props = _\<rparr>"]
      Let_def spread_def map_get_set_all map_add_def split: option.splits)

lemma getProp_completed: "complete d \<Longrightarrow> getProp (completeDrawing st u d) = getProp d"
proof (rule ext)
  fix k
  assume c: "complete d"
  then have r: "map_of (rev (d_props d)) = map_of (d_props d)" by (simp add: complete_def map_of_rev_distinct)
  consider "k = ''sync''" | "k = ''points''" | "k \<noteq> ''sync''" "k \<noteq> ''points''" by blast
  then show "getProp (completeDrawing st u d) k = getProp d k"
  proof cases
    case 1 with c show ?thesis by (simp add: getProp_complete complete_def split: dvalue.splits)
  next
    case 2 with c show ?thesis by (simp add: getProp_complete complete_def split: dvalue.splits)
  next
    case 3
    show ?thesis
    proof (cases "map_of (d_props d) k")
      case None
      then have "k \<noteq> ''visible''" "k \<noteq> ''locked''" "k \<noteq> ''zIndex''" using c by (auto simp: complete_def)
      with 3 None show ?thesis by (simp add: getProp_complete r getProp_def [of d])
    next
      case (Some v)
      with 3 show ?thesis by (simp add: getProp_complete r getProp_def [of d])
    qed
  qed
qed

lemma completeDrawing_settled:
  assumes "settled env d" "map_wf (d_props d)"
  shows "d_id (completeDrawing st u d) = d_id d"
    and "\<not> (en_isPosition env (getProp (completeDrawing st u d) ''tool'') \<and> length (pointsOf (completeDrawing st u d)) = 1)"
proof -
  show "d_id (completeDrawing st u d) = d_id d"
    using assms by (simp add: completeDrawing_def settled_def)
  have "getProp (completeDrawing st u d) ''tool'' = getProp d ''tool''"
    using assms(2) by (simp add: getProp_complete getProp_def [of d] map_of_rev_distinct)
  moreover have "pointsOf (completeDrawing st u d) = pointsOf d"
    by (simp add: pointsOf_def getProp_complete split: dvalue.splits)
  ultimately show "\<not> (en_isPosition env (getProp (completeDrawing st u d) ''tool'') \<and> length (pointsOf (completeDrawing st u d)) = 1)"
    using assms by (simp add: settled_def)
qed

lemma addDrawing_settled:
  assumes "settled env d" "map_wf (d_props d)"
  shows "cs_drawings (addDrawing env u d st) = cs_drawings st @ [completeDrawing st u d]"
    "queue_ok (cs_outbox st) \<Longrightarrow> queue_ok (cs_outbox (addDrawing env u d st))"
  using completeDrawing_settled(2) [OF assms, of st u] by (auto simp: addDrawing_def Let_def)

lemma view_add:
  assumes "settled env d" "map_wf (d_props d)" "view st (d_id d) = None"
  shows "view (addDrawing env u d st) = (view st)(d_id d \<mapsto> getProp (completeDrawing st u d))"
  using view_append [OF addDrawing_settled(1) [OF assms(1,2)]] completeDrawing_settled(1) [OF assms(1,2)] assms(3)
  by simp

lemma ok_add [inv_intros]:
  assumes "store_ok st" "settled env d" "map_wf (d_props d)" "view st (d_id d) = None"
  shows "store_ok (addDrawing env u d st)"
  using assms addDrawing_settled [OF assms(2,3), where u = u and st = st] completeDrawing_settled(1) [OF assms(2,3), of st u]
  by (auto simp: store_ok_def view_None)

subsection \<open>The backend follows the store\<close>

text \<open>
  What the backend holds is a map from client ids to the last write it accepted.  It applies an accepted
  request: upserts replace, deletes remove.
\<close>

type_synonym backend = "string \<rightharpoonup> backend_write"

definition overlay :: "backend \<Rightarrow> (string \<rightharpoonup> intent) \<Rightarrow> backend" where
  "overlay srv pend i =
     (case pend i of None \<Rightarrow> srv i | Some (IUpsert w) \<Rightarrow> Some w | Some (IDelete _) \<Rightarrow> None)"

text \<open>The accepted payload is the encoding of the drawing, up to the server revision it is told afterwards.\<close>

definition sameContent :: "drawing \<Rightarrow> drawing \<Rightarrow> bool" where
  "sameContent a b \<longleftrightarrow> d_id a = d_id b \<and> d_clientRevision a = d_clientRevision b
     \<and> (\<forall>k. k \<noteq> ''serverRevision'' \<longrightarrow> getProp a k = getProp b k)"

definition reflects :: "store_env \<Rightarrow> drawing option \<Rightarrow> backend_write option \<Rightarrow> bool" where
  "reflects env local remote =
     (case (local, remote) of
        (None, None) \<Rightarrow> True
      | (Some d, Some w) \<Rightarrow> \<exists>d0. w_payload w = en_encode env d0 \<and> sameContent d0 d
      | _ \<Rightarrow> False)"

abbreviation localDrawing :: "chart_store \<Rightarrow> string \<Rightarrow> drawing option" where
  "localDrawing st i \<equiv> find (\<lambda>d. d_id d = i) (cs_drawings st)"

definition mirrored :: "store_env \<Rightarrow> chart_store \<Rightarrow> backend \<Rightarrow> bool" where
  "mirrored env st srv \<longleftrightarrow> (\<forall>i. reflects env (localDrawing st i) (overlay srv (pending (cs_outbox st)) i))"

datatype store_op =
    OpAdd string drawing
  | OpUpdate string props
  | OpBatch "drawing_patch_update list"
  | OpRemove string
  | OpDuplicate string string
  | OpBringToFront string
  | OpSendToBack string
  | OpSync queue_event

text \<open>A step of the store, or of its outbox; an accepted request also changes the backend and is acknowledged.\<close>

fun storeStep :: "store_env \<Rightarrow> store_op \<Rightarrow> chart_store \<times> backend \<Rightarrow> chart_store \<times> backend" where
  "storeStep env (OpAdd freshId d) (st, srv) = (addDrawing env freshId d st, srv)"
| "storeStep env (OpUpdate i p) (st, srv) = (updateDrawing env i p st, srv)"
| "storeStep env (OpBatch us) (st, srv) = (batchUpdateDrawings env us st, srv)"
| "storeStep env (OpRemove i) (st, srv) = (removeDrawing env i st, srv)"
| "storeStep env (OpDuplicate freshId i) (st, srv) = (duplicateDrawing env freshId i st, srv)"
| "storeStep env (OpBringToFront i) (st, srv) = (bringToFront env i st, srv)"
| "storeStep env (OpSendToBack i) (st, srv) = (sendToBack env i st, srv)"
| "storeStep env (OpSync e) (st, srv) =
     (let st1 = st\<lparr>cs_outbox := queueStep (en_opts env) (en_canSend env, e) (cs_outbox st)\<rparr>
      in case (e, q_inFlightRequest (cs_outbox st)) of
           (SendSucceeds response throws, Some r) \<Rightarrow>
             (if throws then st1 else acknowledgeDrawingBatch env (rs_upserted response) st1,
              overlay srv (requestIntents r))
         | _ \<Rightarrow> (st1, srv))"

text \<open>
  New drawings come with fresh ids, and the outbox is fed by the store alone.  Placing a position tool with
  one click, whose expansion is a parameter, is not among the steps.
\<close>

fun op_ok :: "store_env \<Rightarrow> chart_store \<Rightarrow> store_op \<Rightarrow> bool" where
  "op_ok env st (OpAdd freshId d) = (settled env d \<and> map_wf (d_props d) \<and> view st (d_id d) = None)"
| "op_ok env st (OpDuplicate freshId i) = (freshId \<noteq> [] \<and> view st freshId = None)"
| "op_ok env st (OpSync (EnqueueUpsert _)) = False"
| "op_ok env st (OpSync (EnqueueDelete _)) = False"
| "op_ok env st _ = True"

definition emptyStore :: "chart_store \<Rightarrow> bool" where
  "emptyStore st \<longleftrightarrow> cs_drawings st = [] \<and> cs_outbox st = emptyQueue"

inductive store_reach :: "store_env \<Rightarrow> chart_store \<times> backend \<Rightarrow> bool" for env where
  reach_init: "emptyStore st \<Longrightarrow> store_reach env (st, Map.empty)"
| reach_step: "store_reach env (st, srv) \<Longrightarrow> op_ok env st op \<Longrightarrow> store_reach env (storeStep env op (st, srv))"

definition store_inv :: "store_env \<Rightarrow> chart_store \<times> backend \<Rightarrow> bool" where
  "store_inv env s \<longleftrightarrow> store_ok (fst s) \<and> (\<forall>d \<in> set (cs_drawings (fst s)). d_id d \<noteq> []) \<and> mirrored env (fst s) (snd s)"

lemma sameContent_refl [simp]: "sameContent d d"
  by (simp add: sameContent_def)

lemma reflects_write [simp]: "reflects env (Some d) (Some (localDrawingToBackend env s d))"
  by (auto simp: reflects_def localDrawingToBackend_def)

lemma reflects_None [simp]: "reflects env None None"
  by (simp add: reflects_def)

lemma pending_queueUpsert:
  assumes "queue_ok (cs_outbox st)" "d_id d \<noteq> []"
  shows "pending (cs_outbox (queueDrawingUpsert env s d st)) =
    (pending (cs_outbox st))(d_id d \<mapsto> IUpsert (localDrawingToBackend env s d))"
  using assms enqueueUpsert_spec(2) [OF assms(1)]
  by (simp add: queueDrawingUpsert_def upsertKey_def localDrawingToBackend_def)

lemma pending_queueDelete:
  assumes "queue_ok (cs_outbox st)" "d_id d \<noteq> []"
  shows "\<exists>x. pending (cs_outbox (queueDrawingDelete env s d st)) = (pending (cs_outbox st))(d_id d \<mapsto> IDelete x)"
  using assms enqueueDelete_spec(2) [OF assms(1)]
  by (simp add: queueDrawingDelete_def deleteKey_def) blast

lemma mirrored_upsert:
  assumes "mirrored env st srv" "queue_ok (cs_outbox st)" "d_id d \<noteq> []"
    and "cs_outbox st1 = cs_outbox st"
    and "\<And>i. find (\<lambda>d. d_id d = i) ds = (if i = d_id d then Some d else localDrawing st i)"
    and "cs_drawings st1 = ds"
  shows "mirrored env (queueDrawingUpsert env s d st1) srv"
  using assms pending_queueUpsert [of st1 d env s] by (simp add: mirrored_def overlay_def)

lemma mirrored_delete:
  assumes "mirrored env st srv" "queue_ok (cs_outbox st)" "d_id d \<noteq> []"
    and "cs_outbox st1 = cs_outbox st"
    and "\<And>i. find (\<lambda>d. d_id d = i) (cs_drawings st1) = (if i = d_id d then None else localDrawing st i)"
  shows "mirrored env (queueDrawingDelete env s d st1) srv"
  using assms pending_queueDelete [of st1 d env s] by (auto simp: mirrored_def overlay_def)

lemma find_rev_distinct: "distinct (map d_id ds) \<Longrightarrow> find (\<lambda>d. d_id d = i) (rev ds) = find (\<lambda>d. d_id d = i) ds"
proof (induction ds)
  case (Cons a ds)
  then have "find (\<lambda>d. d_id d = d_id a) ds = None" by (auto simp: find_None_iff) (metis imageI)
  with Cons show ?case by (auto simp: find_append split: option.splits)
qed simp

lemma inv_add:
  assumes "store_inv env (st, srv)" "settled env d" "map_wf (d_props d)" "view st (d_id d) = None"
  shows "store_inv env (addDrawing env u d st, srv)"
proof -
  let ?c = "completeDrawing st u d"
  have c: "d_id ?c = d_id d" "d_id d \<noteq> []" using completeDrawing_settled(1) [OF assms(2,3)] assms(2) by (auto simp: settled_def)
  have none: "localDrawing st (d_id d) = None" using assms(4) by (simp add: view_def)
  have "mirrored env (addDrawing env u d st) srv"
    using completeDrawing_settled(2) [OF assms(2,3), of st u] assms(1) c none
    by (auto simp: addDrawing_def Let_def store_inv_def store_ok_def find_append
        intro!: mirrored_upsert [of env st] split: option.splits)
  then show ?thesis using ok_add [OF _ assms(2-4)] addDrawing_settled(1) [OF assms(2,3), of u st] assms(1) c
    by (auto simp: store_inv_def)
qed

lemma inv_update: assumes "store_inv env (st, srv)" shows "store_inv env (updateDrawing env i p st, srv)"
proof -
  let ?ds = "updateDrawings i p (cs_drawings st)"
  have ok: "store_ok st" and m: "mirrored env st srv" using assms by (auto simp: store_inv_def)
  have f: "find (\<lambda>d. d_id d = i) (rev ?ds) = map_option (\<lambda>d. patchDrawing d p) (localDrawing st i)"
    using ok by (subst find_rev_distinct) (auto simp: store_ok_def find_update_id)
  have "mirrored env (updateDrawing env i p st) srv"
  proof (cases "localDrawing st i")
    case None
    then have "?ds = cs_drawings st" by (auto simp: updateDrawings_def find_None_iff intro!: map_idI)
    with m None f show ?thesis by (simp add: updateDrawing_def Let_def mirrored_def)
  next
    case (Some d)
    have "d_id d = i" "d \<in> set (cs_drawings st)" using Some by (auto simp: find_Some_iff)
    then show ?thesis using Some f m ok assms
      by (auto simp: updateDrawing_def Let_def store_ok_def store_inv_def find_update_id
          intro!: mirrored_upsert [of env st] option.map_ident_strong)
  qed
  moreover have "\<forall>d \<in> set ?ds. d_id d \<noteq> []" using assms by (auto simp: store_inv_def updateDrawings_def)
  ultimately show ?thesis using ok_update [OF ok]
    by (auto simp: store_inv_def updateDrawing_def Let_def split: option.splits)
qed

lemma inv_remove: assumes "store_inv env (st, srv)" shows "store_inv env (removeDrawing env i st, srv)"
proof -
  have ok: "store_ok st" and m: "mirrored env st srv" using assms by (auto simp: store_inv_def)
  have "mirrored env (removeDrawing env i st) srv"
  proof (cases "localDrawing st i")
    case None
    then have "filter (\<lambda>d. d_id d \<noteq> i) (cs_drawings st) = cs_drawings st" by (auto simp: find_None_iff filter_id_conv)
    with m None show ?thesis by (simp add: removeDrawing_def Let_def mirrored_def)
  next
    case (Some d)
    have "d_id d = i" "d \<in> set (cs_drawings st)" using Some by (auto simp: find_Some_iff)
    then show ?thesis using Some m ok assms
      by (auto simp: removeDrawing_def Let_def store_ok_def store_inv_def find_filter_id
          intro!: mirrored_delete [of env st])
  qed
  moreover have "cs_drawings (removeDrawing env i st) = filter (\<lambda>d. d_id d \<noteq> i) (cs_drawings st)"
    by (simp add: removeDrawing_def Let_def split: option.splits)
  ultimately show ?thesis using ok_remove [OF ok] assms by (auto simp: store_inv_def)
qed

lemma inv_duplicate:
  assumes "store_inv env (st, srv)" "u \<noteq> []" "view st u = None"
  shows "store_inv env (duplicateDrawing env u i st, srv)"
proof (cases "localDrawing st i")
  case None
  then show ?thesis using assms by (simp add: duplicateDrawing_def)
next
  case (Some src)
  define copy where "copy = \<lparr>d_id = u, d_clientRevision = Some 1,
    d_props = spread (d_props src) [(''serverRevision'', VUndefined),
      (''zIndex'', VNum (js_add (topZIndex (cs_drawings st)) (Fin 1)))]\<rparr>"
  have none: "localDrawing st u = None" "u \<notin> d_id ` set (cs_drawings st)"
    using assms(3) view_None by (simp_all add: view_def)
  have d: "duplicateDrawing env u i st = queueDrawingUpsert env (cs_symbol st) copy
      (persistLocalDrawings env (cs_symbol st) (cs_drawings st @ [copy])
        (st\<lparr>cs_drawings := cs_drawings st @ [copy], cs_selectedId := Some u, cs_selectedIds := [u]\<rparr>))"
    using Some by (simp add: duplicateDrawing_def copy_def Let_def)
  have id: "d_id copy = u" by (simp add: copy_def)
  have m: "mirrored env (duplicateDrawing env u i st) srv"
    unfolding d using assms none
    by (intro mirrored_upsert [of env st, OF _ _ _ _ _ refl])
      (auto simp: store_inv_def store_ok_def id find_append split: option.splits)
  have "cs_drawings (duplicateDrawing env u i st) = cs_drawings st @ [copy]"
    "queue_ok (cs_outbox (duplicateDrawing env u i st))"
    using assms(1) by (simp_all add: d store_inv_def store_ok_def)
  with m none(2) assms(1,2) id show ?thesis by (auto simp: store_inv_def store_ok_def)
qed

text \<open>The batch writer queues the final value of every touched drawing.\<close>

lemma pending_queueUpdated:
  assumes "queue_ok (cs_outbox st)" "\<And>k d. map_get m k = Some d \<Longrightarrow> d_id d = k \<and> k \<noteq> []"
  shows "pending (cs_outbox (queueUpdated env s m queued us st)) i =
    (if i \<notin> set queued \<and> i \<in> u_id ` set us \<and> map_has m i
     then Some (IUpsert (localDrawingToBackend env s (the (map_get m i)))) else pending (cs_outbox st) i)"
  using assms
proof (induction us arbitrary: queued st)
  case (Cons u us)
  show ?case
  proof (cases "u_id u \<in> set queued \<or> map_get m (u_id u) = None")
    case True
    then have "queueUpdated env s m queued (u # us) st = queueUpdated env s m queued us st"
      by (auto split: option.splits)
    with True Cons show ?thesis by auto
  next
    case False
    then obtain d where d: "map_get m (u_id u) = Some d" by auto
    have "d_id d = u_id u" "d_id d \<noteq> []" using Cons.prems(2) [OF d] by auto
    then show ?thesis using False d Cons.IH [of "queueDrawingUpsert env s d st" "u_id u # queued"] Cons.prems
      by (auto simp: pending_queueUpsert)
  qed
qed simp

lemma inv_batch: assumes "store_inv env (st, srv)" shows "store_inv env (batchUpdateDrawings env us st, srv)"
proof (cases "br_updatedById (applyDrawingBatchUpdates (cs_drawings st) us) = []")
  case True
  then show ?thesis using assms by (simp add: batchUpdateDrawings_def)
next
  case False
  let ?r = "applyDrawingBatchUpdates (cs_drawings st) us" and ?st' = "batchUpdateDrawings env us st"
  have ok: "store_ok st" and m: "mirrored env st srv" and ne: "\<forall>d \<in> set (cs_drawings st). d_id d \<noteq> []"
    using assms by (auto simp: store_inv_def)
  have get: "map_get (br_updatedById ?r) k = (case localDrawing st k of
      Some d \<Rightarrow> if touched us d then Some (patchesFor us d) else None | None \<Rightarrow> None)" for k
    using ok by (simp only: batch_result map_of_ids store_ok_def)
  have idk: "d_id d = k \<and> k \<noteq> []" if a: "map_get (br_updatedById ?r) k = Some d" for k d
  proof -
    obtain x where "localDrawing st k = Some x" "d = patchesFor us x"
      using a by (auto simp: get split: option.splits if_splits)
    moreover then have "x \<in> set (cs_drawings st)" "d_id x = k" by (auto simp: find_Some_iff)
    ultimately show ?thesis using ne by auto
  qed
  have ds: "cs_drawings ?st' = map (patchesFor us) (cs_drawings st)"
    by (simp add: drawings_batch sequential_updates)
  have loc: "localDrawing ?st' k = map_option (patchesFor us) (localDrawing st k)" for k
    unfolding ds by (rule find_map_ids) simp
  have pend: "pending (cs_outbox ?st') k = (if k \<in> u_id ` set us \<and> map_has (br_updatedById ?r) k
      then Some (IUpsert (localDrawingToBackend env (cs_symbol st) (the (map_get (br_updatedById ?r) k))))
      else pending (cs_outbox st) k)" for k
    using False ok pending_queueUpdated [OF _ idk]
    by (auto simp: batchUpdateDrawings_def Let_def store_ok_def)
  have "reflects env (localDrawing ?st' k) (overlay srv (pending (cs_outbox ?st')) k)" for k
  proof (cases "localDrawing st k")
    case None
    then show ?thesis using m by (simp add: loc mirrored_def overlay_def pend get) (metis option.case_eq_if)
  next
    case (Some d)
    then have "d_id d = k" by (rule find_id)
    show ?thesis
    proof (cases "touched us d")
      case True
      then have "k \<in> u_id ` set us" using \<open>d_id d = k\<close> by (force simp: touched_def image_iff)
      then show ?thesis using True Some by (simp add: loc overlay_def pend get)
    next
      case False
      have "reflects env (Some d) (overlay srv (pending (cs_outbox st)) k)" using m Some by (metis mirrored_def)
      then show ?thesis using False Some by (simp add: loc overlay_def pend get patchesFor_untouched)
    qed
  qed
  then have "mirrored env ?st' srv" by (simp add: mirrored_def)
  moreover have "\<forall>d \<in> set (cs_drawings ?st'). d_id d \<noteq> []" using ne by (simp add: ds)
  ultimately show ?thesis using ok_batch [OF ok] by (simp add: store_inv_def)
qed

subsection \<open>Outbox steps\<close>

lemma reflects_cong:
  "reflects env d a \<Longrightarrow> map_option w_payload a = map_option w_payload b \<Longrightarrow> reflects env d b"
  by (cases d; cases a; cases b) (simp_all add: reflects_def)

lemma overlay_sameWork:
  assumes "sameWork p p'" shows "map_option w_payload (overlay srv p i) = map_option w_payload (overlay srv p' i)"
proof -
  have "map_option erase (p i) = map_option erase (p' i)" using assms by (simp add: sameWork_def)
  then show ?thesis
  proof (cases "p i"; cases "p' i")
    fix a b assume "p i = Some a" "p' i = Some b" "map_option erase (p i) = map_option erase (p' i)"
    then show ?thesis
      by (cases a; cases b) (auto simp: overlay_def intro: arg_cong [where f = w_payload] dest: arg_cong [where f = w_payload])
  qed (auto simp: overlay_def)
qed

lemma overlay_add: "overlay (overlay srv a) b = overlay srv (a ++ b)"
  by (auto simp: overlay_def fun_eq_iff map_add_def split: option.splits intent.splits)

lemma mirrored_sameWork:
  assumes "mirrored env st srv" "cs_drawings st' = cs_drawings st"
    and "sameWork (pending (cs_outbox st)) p" "\<And>i. overlay srv p i = overlay srv' (pending (cs_outbox st')) i"
  shows "mirrored env st' srv'"
  unfolding mirrored_def
proof
  fix i
  have "reflects env (localDrawing st i) (overlay srv (pending (cs_outbox st)) i)"
    using assms(1) by (simp add: mirrored_def)
  from reflects_cong [OF this overlay_sameWork [OF assms(3)]]
  show "reflects env (localDrawing st' i) (overlay srv' (pending (cs_outbox st')) i)"
    by (simp add: assms(2,4))
qed

lemma sameWork_sym: "sameWork a b \<Longrightarrow> sameWork b a"
  by (simp add: sameWork_def)

text \<open>Acknowledgement only writes server revisions.\<close>

lemma acknowledge_drawings:
  "\<exists>f. cs_drawings (acknowledgeDrawingBatch env rows st) = map f (cs_drawings st) \<and> (\<forall>d. sameContent d (f d))"
proof -
  have set: "sameContent d (d\<lparr>d_props := map_set ''serverRevision'' v (d_props d)\<rparr>)" for d v
    by (simp add: sameContent_def getProp_def update_conv')
  have f: "sameContent d (withServerRevision m d)" for m d
    using set by (simp add: withServerRevision_def split: option.splits)
  have "cs_drawings (acknowledgeDrawingBatch env rows st) = map (\<lambda>d. d) (cs_drawings st)
      \<or> cs_drawings (acknowledgeDrawingBatch env rows st) = map (withServerRevision (rowsByID rows)) (cs_drawings st)"
    by (simp add: acknowledgeDrawingBatch_def Let_def)
  then show ?thesis using f sameContent_refl by blast
qed

lemma outbox_acknowledge [simp]: "cs_outbox (acknowledgeDrawingBatch env rows st) = cs_outbox st"
  by (simp add: acknowledgeDrawingBatch_def Let_def)

lemma inv_acknowledge:
  assumes "store_inv env (st, srv)" shows "store_inv env (acknowledgeDrawingBatch env rows st, srv)"
proof -
  obtain f where f: "cs_drawings (acknowledgeDrawingBatch env rows st) = map f (cs_drawings st)"
    "\<And>d. sameContent d (f d)" using acknowledge_drawings by blast
  have id: "d_id (f d) = d_id d" for d using f(2) [of d] by (simp add: sameContent_def)
  have loc: "localDrawing (acknowledgeDrawingBatch env rows st) i = map_option f (localDrawing st i)" for i
    unfolding f(1) by (rule find_map_ids) (rule id)
  have "reflects env (map_option f d) w" if "reflects env d w" for d w
  proof (cases d)
    case (Some x)
    with that obtain w' d0 where "w = Some w'" "w_payload w' = en_encode env d0" "sameContent d0 x"
      by (auto simp: reflects_def split: option.splits)
    moreover have "sameContent d0 (f x)" using \<open>sameContent d0 x\<close> f(2) [of x] by (simp add: sameContent_def)
    ultimately show ?thesis using Some by (auto simp: reflects_def)
  qed (use that in simp)
  then have "mirrored env (acknowledgeDrawingBatch env rows st) srv"
    using assms by (simp add: store_inv_def mirrored_def loc)
  moreover have "map d_id (map f (cs_drawings st)) = map d_id (cs_drawings st)" by (simp add: id)
  ultimately show ?thesis using assms by (simp add: store_inv_def store_ok_def f(1) id comp_def)
qed

lemma inv_outbox:
  assumes "store_inv env (st, srv)" "op_ok env st (OpSync e)"
  shows "store_inv env (storeStep env (OpSync e) (st, srv))"
proof -
  let ?q = "cs_outbox st" and ?q' = "queueStep (en_opts env) (en_canSend env, e) (cs_outbox st)"
  have ok: "queue_ok ?q" and m: "mirrored env st srv" using assms by (auto simp: store_inv_def store_ok_def)
  have acc: "accounted ?q (pending ?q, []) k" for k by (simp add: accounted_def split: option.splits)
  have ok': "queue_ok ?q'" using queueStep_accounted [OF ok acc] by blast
  have st: "store_inv env (st\<lparr>cs_outbox := ?q'\<rparr>, srv')" if "mirrored env (st\<lparr>cs_outbox := ?q'\<rparr>) srv'" for srv'
    using assms(1) ok' that by (simp add: store_inv_def store_ok_def del: queueStep.simps)
  show ?thesis
  proof (cases "\<exists>response throws r. e = SendSucceeds response throws \<and> q_inFlightRequest ?q = Some r")
    case True
    then obtain response throws r where e: "e = SendSucceeds response throws" "q_inFlightRequest ?q = Some r" by blast
    note s = send_succeeds [OF ok e(2), of "en_opts env" "en_canSend env" response]
    have p: "pending ?q = requestIntents r ++ intents (q_upserts ?q) (q_deletes ?q)"
      using e(2) by (simp add: pending_def flightIntents_def)
    have "sameWork (pending ?q) (requestIntents r ++ pending ?q')"
    proof (cases throws)
      case True
      then have "sameWork (pending ?q) (pending ?q')" using s(4) e by (simp add: sameWork_sym del: queueStep.simps)
      moreover have "requestIntents r ++ pending ?q = pending ?q"
        unfolding p by (simp add: fun_eq_iff map_add_def split: option.splits)
      ultimately show ?thesis using sameWork_add [of "pending ?q" "pending ?q'" "requestIntents r"] by simp
    next
      case False
      then show ?thesis using s(2) e sameWork_add [OF sameWork_sym] by (simp add: p del: queueStep.simps)
    qed
    then have "mirrored env (st\<lparr>cs_outbox := ?q'\<rparr>) (overlay srv (requestIntents r))"
      using m by (intro mirrored_sameWork [OF m]) (simp_all add: overlay_add del: queueStep.simps)
    from st [OF this] show ?thesis
      using e inv_acknowledge by (cases throws) (simp_all add: Let_def del: queueStep.simps)
  next
    case False
    have "pending ?q' = pending ?q"
      using False assms(2) by (intro queueStep_quiet(2) [OF ok]) (cases e, auto)
    then have "mirrored env (st\<lparr>cs_outbox := ?q'\<rparr>) srv" using m by (simp add: mirrored_def del: queueStep.simps)
    from st [OF this] show ?thesis
      using False by (cases e; cases "q_inFlightRequest ?q") (auto simp: Let_def simp del: queueStep.simps)
  qed
qed

lemma store_reach_inv: "store_reach env s \<Longrightarrow> store_inv env s"
proof (induction rule: store_reach.induct)
  case (reach_init st)
  then show ?case
    by (simp add: store_inv_def store_ok_def emptyStore_def mirrored_def emptyQueue_ok overlay_def)
next
  case (reach_step st srv op)
  then show ?case
  proof (cases op)
    case (OpSync e)
    then show ?thesis using inv_outbox reach_step by blast
  qed (simp_all add: inv_add inv_update inv_batch inv_remove inv_duplicate bringToFront_def sendToBack_def)
qed

subsection \<open>Properties\<close>

text \<open>
  C8.  The backend follows the store.  In every state reachable by drawing edits, outbox steps
  and accepted or failed requests in any order, the backend's content overlaid with the pending work
  is the local drawings, drawing by drawing; so whenever nothing is pending, the backend holds exactly
  the local drawings.
\<close>

theorem backend_converges_to_store:
  assumes "store_reach env (st, srv)"
  shows "(\<forall>i. reflects env (localDrawing st i) (overlay srv (pending (cs_outbox st)) i))
    \<and> (pending (cs_outbox st) = Map.empty \<longrightarrow> (\<forall>i. reflects env (localDrawing st i) (srv i)))"
proof -
  have "overlay srv Map.empty = srv" by (simp add: overlay_def fun_eq_iff)
  then show ?thesis using store_reach_inv [OF assms] by (auto simp: store_inv_def mirrored_def)
qed

subsection \<open>Stacking order\<close>

definition safeZ :: "jsnum \<Rightarrow> bool" where
  "safeZ z \<longleftrightarrow> (\<exists>n. z = Fin (of_int n) \<and> \<bar>n\<bar> < 2 ^ 53 - 1)"

lemma fold_max_safe:
  assumes "safeZ m" "\<forall>x \<in> set ds. safeZ (zIndexOf x)"
  shows "safeZ (fold (\<lambda>x m. js_max m (zIndexOf x)) ds m) \<and> m \<le> fold (\<lambda>x m. js_max m (zIndexOf x)) ds m
    \<and> (\<forall>x \<in> set ds. zIndexOf x \<le> fold (\<lambda>x m. js_max m (zIndexOf x)) ds m)"
  using assms
proof (induction ds arbitrary: m)
  case (Cons d ds)
  have "safeZ (js_max m (zIndexOf d))" "m \<le> js_max m (zIndexOf d)" "zIndexOf d \<le> js_max m (zIndexOf d)"
    using Cons.prems by (auto simp: js_max_def max_def)
  with Cons.IH [of "js_max m (zIndexOf d)"] Cons.prems(2) show ?case by (auto intro: order_trans)
qed simp

lemma fold_min_safe:
  assumes "safeZ m" "\<forall>x \<in> set ds. safeZ (zIndexOf x)"
  shows "safeZ (fold (\<lambda>x m. js_min m (zIndexOf x)) ds m) \<and> fold (\<lambda>x m. js_min m (zIndexOf x)) ds m \<le> m
    \<and> (\<forall>x \<in> set ds. fold (\<lambda>x m. js_min m (zIndexOf x)) ds m \<le> zIndexOf x)"
  using assms
proof (induction ds arbitrary: m)
  case (Cons d ds)
  have "safeZ (js_min m (zIndexOf d))" "js_min m (zIndexOf d) \<le> m" "js_min m (zIndexOf d) \<le> zIndexOf d"
    using Cons.prems by (auto simp: js_min_def min_def safeZ_def)
  with Cons.IH [of "js_min m (zIndexOf d)"] Cons.prems(2) show ?case by (auto intro: order_trans)
qed simp

lemma safeZ_step: "safeZ z \<Longrightarrow> z < js_add z (Fin 1) \<and> js_sub z (Fin 1) < z"
proof -
  assume "safeZ z"
  then obtain n where n: "z = Fin (of_int n)" "\<bar>n\<bar> < 2 ^ 53 - 1" by (auto simp: safeZ_def)
  have "f64 (of_int (n + 1)) = Fin (of_int (n + 1))" "f64 (of_int (n - 1)) = Fin (of_int (n - 1))"
    using n(2) by (intro f64_of_int; linarith)+
  then show ?thesis by (simp add: n)
qed

lemma zIndexOf_patched: "zIndexOf (patchDrawing d [(''zIndex'', VNum z)]) = z"
  by (simp add: zIndexOf_def)

lemma drawings_update: "cs_drawings (updateDrawing env i p st) = updateDrawings i p (cs_drawings st)"
  by (simp add: updateDrawing_def Let_def split: option.splits)

text \<open>
  Stacking order: bringing a drawing to the front gives it a z-index strictly above every other
  drawing's, sending it to the back one strictly below, for z-indexes in the safe integer range.
\<close>

theorem stacking_order_strict:
  assumes "\<forall>d \<in> set (cs_drawings st). safeZ (zIndexOf d)"
  shows "(\<forall>a \<in> set (cs_drawings (bringToFront env i st)). \<forall>b \<in> set (cs_drawings (bringToFront env i st)).
      d_id a \<noteq> i \<and> d_id b = i \<longrightarrow> zIndexOf a < zIndexOf b)
    \<and> (\<forall>a \<in> set (cs_drawings (sendToBack env i st)). \<forall>b \<in> set (cs_drawings (sendToBack env i st)).
      d_id a \<noteq> i \<and> d_id b = i \<longrightarrow> zIndexOf b < zIndexOf a)"
proof -
  let ?top = "topZIndex (cs_drawings st)" and ?bot = "bottomZIndex (cs_drawings st)"
  have z: "safeZ (Fin 0)" by (auto simp: safeZ_def intro!: exI [of _ 0])
  have t: "safeZ ?top" "\<forall>x \<in> set (cs_drawings st). zIndexOf x \<le> ?top"
    using fold_max_safe [OF z assms] by (auto simp: topZIndex_def)
  have b: "safeZ ?bot" "\<forall>x \<in> set (cs_drawings st). ?bot \<le> zIndexOf x"
    using fold_min_safe [OF z assms] by (auto simp: bottomZIndex_def)
  have kept: "a \<in> set (cs_drawings st)" if "a \<in> set (updateDrawings i p (cs_drawings st))" "d_id a \<noteq> i" for a p
    using that by (auto simp: updateDrawings_def split: if_splits)
  have put: "zIndexOf a = z" if a: "a \<in> set (updateDrawings i [(''zIndex'', VNum z)] (cs_drawings st))" and i: "d_id a = i" for a z
  proof -
    obtain d where "a = (if d_id d \<noteq> i then d else patchDrawing d [(''zIndex'', VNum z)])"
      using a unfolding updateDrawings_def set_map by blast
    then show ?thesis using i zIndexOf_patched by (cases "d_id d = i") simp_all
  qed
  have front: "zIndexOf a < js_add ?top (Fin 1)" if "a \<in> set (cs_drawings st)" for a
    using t(2) that safeZ_step [OF t(1)] by (meson order_le_less_trans)
  have behind: "js_sub ?bot (Fin 1) < zIndexOf a" if "a \<in> set (cs_drawings st)" for a
    using b(2) that safeZ_step [OF b(1)] by (meson order_less_le_trans)
  show ?thesis unfolding bringToFront_def sendToBack_def drawings_update
    by (intro conjI ballI impI) (simp_all add: put front behind kept)
qed

subsection \<open>Witnesses\<close>

definition sampleEnv :: store_env where
  "sampleEnv = \<lparr>en_decodeList = (\<lambda>ds. ds), en_encode = (\<lambda>d. d), en_isPosition = (\<lambda>_. False),
     en_initPosition = (\<lambda>_ d. Some d), en_canSend = True, en_opts = DEFAULT_OPTIONS\<rparr>"

definition sampleStore :: chart_store where
  "sampleStore = \<lparr>cs_symbol = ''EUR'', cs_layoutId = ''l'', cs_chartId = ''c'', cs_newSyncMode = GlobalSync,
     cs_keepDrawing = False, cs_activeTool = ''trendline'', cs_drawings = [], cs_selectedId = None,
     cs_selectedIds = [], cs_registry = [], cs_outbox = emptyQueue\<rparr>"

lemma sampleStore_empty: "emptyStore sampleStore"
  by (simp add: emptyStore_def sampleStore_def)

lemma sampleLine_settled: "settled sampleEnv (sampleLine (c # cs))" "map_wf (d_props (sampleLine (c # cs)))"
  by (simp_all add: settled_def sampleEnv_def) (simp add: sampleLine_def)

theorem backend_converges_to_store_witness:
  "\<forall>i. reflects sampleEnv (localDrawing (addDrawing sampleEnv ''u'' (sampleLine ''a'') sampleStore) i)
     (overlay Map.empty (pending (cs_outbox (addDrawing sampleEnv ''u'' (sampleLine ''a'') sampleStore))) i)"
proof -
  have "store_reach sampleEnv (storeStep sampleEnv (OpAdd ''u'' (sampleLine ''a'')) (sampleStore, Map.empty))"
    using reach_init [OF sampleStore_empty] sampleLine_settled
    by (intro reach_step) (simp_all add: view_def, simp add: sampleStore_def)
  then show ?thesis using backend_converges_to_store by simp
qed

theorem stacking_order_strict_witness:
  "\<forall>a \<in> set (cs_drawings (bringToFront sampleEnv ''a'' (sampleStore\<lparr>cs_drawings := [sampleLine ''a'', sampleLine ''b'']\<rparr>))).
   \<forall>b \<in> set (cs_drawings (bringToFront sampleEnv ''a'' (sampleStore\<lparr>cs_drawings := [sampleLine ''a'', sampleLine ''b'']\<rparr>))).
     d_id a \<noteq> ''a'' \<and> d_id b = ''a'' \<longrightarrow> zIndexOf a < zIndexOf b"
proof -
  have "safeZ (zIndexOf (sampleLine x))" for x
    by (auto simp: safeZ_def zIndexOf_def getProp_def sampleLine_def intro!: exI [of _ 1])
  then show ?thesis
    using stacking_order_strict [of "sampleStore\<lparr>cs_drawings := [sampleLine ''a'', sampleLine ''b'']\<rparr>" sampleEnv "''a''"] by simp
qed

end
