(* ===== verification/CommandHistory.thy ===== *)
theory CommandHistory
  imports DrawingStore
begin

section \<open>Undo and redo\<close>

text \<open>
  Models \<open>components/chart/drawing/history/CommandManager.ts\<close>.  The \<open>Command\<close> interface is a pair of functions on a
  world state, \<open>execute\<close> (which may also update the command object) and \<open>undo\<close>; the manager is generic in
  them.  The built-in commands are the datatype \<open>drawing_command\<close>, generic in the callbacks they are
  constructed with (\<open>drawing_ops\<close>).  \<open>uid("dw")\<close> is an argument of \<open>execute\<close>.

  Three interfaces: \<open>undoable\<close> states what the manager needs of commands, \<open>drawing_port\<close> what the
  commands need of the store's callbacks, and the latter gives the former.  Both are interpreted on
  the chart store, so the cursor theorem at the end is about the real callbacks.
\<close>

subsection \<open>The manager\<close>

record 'c command_manager =
  undoStack :: "'c list"
  redoStack :: "'c list"
  maxSize :: nat

definition newManager :: "nat \<Rightarrow> 'c command_manager" where
  "newManager n = \<lparr>undoStack = [], redoStack = [], maxSize = n\<rparr>"

text \<open>Stacks are arrays: \<open>push\<close> and \<open>pop\<close> work at the end, \<open>shift\<close> drops the head.\<close>

definition managerExecute ::
    "('u \<Rightarrow> 'c \<Rightarrow> 'w \<Rightarrow> 'c \<times> 'w) \<Rightarrow> 'u \<Rightarrow> 'c \<Rightarrow> 'c command_manager \<times> 'w \<Rightarrow> 'c command_manager \<times> 'w" where
  "managerExecute exec u cmd s =
     (let (m, w) = s;
          (cmd', w') = exec u cmd w;
          stack = undoStack m @ [cmd'];
          stack' = (if length stack > maxSize m then tl stack else stack)
      in (m\<lparr>undoStack := stack', redoStack := []\<rparr>, w'))"

definition managerUndo ::
    "('c \<Rightarrow> 'w \<Rightarrow> 'w) \<Rightarrow> 'c command_manager \<times> 'w \<Rightarrow> ('c command_manager \<times> 'w) \<times> bool" where
  "managerUndo undo s =
     (let (m, w) = s
      in if undoStack m = [] then (s, False)
         else let cmd = last (undoStack m)
              in ((m\<lparr>undoStack := butlast (undoStack m), redoStack := redoStack m @ [cmd]\<rparr>, undo cmd w), True))"

definition managerRedo ::
    "('u \<Rightarrow> 'c \<Rightarrow> 'w \<Rightarrow> 'c \<times> 'w) \<Rightarrow> 'u \<Rightarrow> 'c command_manager \<times> 'w \<Rightarrow> ('c command_manager \<times> 'w) \<times> bool" where
  "managerRedo exec u s =
     (let (m, w) = s
      in if redoStack m = [] then (s, False)
         else let cmd = last (redoStack m);
                  (cmd', w') = exec u cmd w
              in ((m\<lparr>redoStack := butlast (redoStack m), undoStack := undoStack m @ [cmd']\<rparr>, w'), True))"

definition canUndo :: "'c command_manager \<Rightarrow> bool" where
  "canUndo m \<longleftrightarrow> 0 < length (undoStack m)"

definition canRedo :: "'c command_manager \<Rightarrow> bool" where
  "canRedo m \<longleftrightarrow> 0 < length (redoStack m)"

definition clearHistory :: "'c command_manager \<Rightarrow> 'c command_manager" where
  "clearHistory m = m\<lparr>undoStack := [], redoStack := []\<rparr>"

definition lastUndoLabel :: "('c \<Rightarrow> string) \<Rightarrow> 'c command_manager \<Rightarrow> string option" where
  "lastUndoLabel label m = (if 0 < length (undoStack m) then Some (label (last (undoStack m))) else None)"

subsection \<open>The built-in commands\<close>

record move_change =
  mc_id :: string
  mc_newPatch :: props
  mc_oldPatch :: props

text \<open>
  \<open>DuplicateDrawing\<close> carries its \<open>copyId\<close> and \<open>PreviewedPropertyChange\<close> its \<open>recorded\<close> flag, the
  two mutable fields.  \<open>BatchPropertyChange\<close>'s flag says whether a \<open>batchUpdateFn\<close> was given.
\<close>

datatype drawing_command =
    CreateDrawing drawing
  | DeleteDrawing drawing
  | DeleteDrawings "drawing list"
  | MoveDrawing string "(jsnum \<times> jsnum) list" "(jsnum \<times> jsnum) list"
  | BatchMoveDrawings "move_change list" "string option"
  | DuplicateDrawing drawing "string option"
  | PropertyChange string props props
  | BatchPropertyChange "property_change list" string bool
  | PreviewedPropertyChange string props props bool

record 'w drawing_ops =
  addFn :: "drawing \<Rightarrow> 'w \<Rightarrow> 'w"
  removeFn :: "string \<Rightarrow> 'w \<Rightarrow> 'w"
  updateFn :: "string \<Rightarrow> props \<Rightarrow> 'w \<Rightarrow> 'w"
  updateBatchFn :: "drawing_patch_update list \<Rightarrow> 'w \<Rightarrow> 'w"
  onExecuteFn :: "'w \<Rightarrow> 'w"
  onUndoFn :: "'w \<Rightarrow> 'w"
  onCreatedFn :: "drawing \<Rightarrow> 'w \<Rightarrow> 'w"

fun commandLabel :: "drawing_command \<Rightarrow> string" where
  "commandLabel (CreateDrawing _) = ''Create Drawing''"
| "commandLabel (DeleteDrawing _) = ''Delete Drawing''"
| "commandLabel (DeleteDrawings _) = ''Delete Drawings''"
| "commandLabel (MoveDrawing _ _ _) = ''Move Drawing''"
| "commandLabel (BatchMoveDrawings changes label) =
     (case label of Some l \<Rightarrow> l
      | None \<Rightarrow> if length changes = 1 then ''Move Drawing'' else ''Move Drawings'')"
| "commandLabel (DuplicateDrawing _ _) = ''Duplicate Drawing''"
| "commandLabel (PropertyChange _ _ _) = ''Change Properties''"
| "commandLabel (BatchPropertyChange _ label _) = label"
| "commandLabel (PreviewedPropertyChange _ _ _ _) = ''Change Properties''"

fun executeCommand ::
    "'w drawing_ops \<Rightarrow> string \<Rightarrow> drawing_command \<Rightarrow> 'w \<Rightarrow> drawing_command \<times> 'w" where
  "executeCommand ops uid (CreateDrawing d) w = (CreateDrawing d, addFn ops d w)"
| "executeCommand ops uid (DeleteDrawing d) w = (DeleteDrawing d, removeFn ops (d_id d) w)"
| "executeCommand ops uid (DeleteDrawings ds) w =
     (DeleteDrawings ds, onExecuteFn ops (fold (\<lambda>d. removeFn ops (d_id d)) ds w))"
| "executeCommand ops uid (MoveDrawing i new old) w =
     (MoveDrawing i new old, updateFn ops i [(''points'', VPoints new)] w)"
| "executeCommand ops uid (BatchMoveDrawings changes label) w =
     (BatchMoveDrawings changes label,
      updateBatchFn ops (map (\<lambda>c. \<lparr>u_id = mc_id c, u_patch = mc_newPatch c\<rparr>) changes) w)"
| "executeCommand ops uid (DuplicateDrawing src copyId) w =
     (let copy = src\<lparr>d_id := uid\<rparr>
      in (DuplicateDrawing src (Some uid), onCreatedFn ops copy (addFn ops copy w)))"
| "executeCommand ops uid (PropertyChange i new old) w = (PropertyChange i new old, updateFn ops i new w)"
| "executeCommand ops uid (BatchPropertyChange changes label batched) w =
     (BatchPropertyChange changes label batched,
      if batched then updateBatchFn ops (map (\<lambda>c. \<lparr>u_id = pc_id c, u_patch = pc_newProps c\<rparr>) changes) w
      else fold (\<lambda>c. updateFn ops (pc_id c) (pc_newProps c)) changes w)"
| "executeCommand ops uid (PreviewedPropertyChange i new old recorded) w =
     (if \<not> recorded then (PreviewedPropertyChange i new old True, w)
      else (PreviewedPropertyChange i new old True, updateFn ops i new w))"

fun undoCommand :: "'w drawing_ops \<Rightarrow> drawing_command \<Rightarrow> 'w \<Rightarrow> 'w" where
  "undoCommand ops (CreateDrawing d) w = removeFn ops (d_id d) w"
| "undoCommand ops (DeleteDrawing d) w = addFn ops d w"
| "undoCommand ops (DeleteDrawings ds) w =
     onUndoFn ops (fold (addFn ops) (js_sort (\<lambda>a b. js_sub (zIndexOf a) (zIndexOf b)) ds) w)"
| "undoCommand ops (MoveDrawing i new old) w = updateFn ops i [(''points'', VPoints old)] w"
| "undoCommand ops (BatchMoveDrawings changes label) w =
     updateBatchFn ops (map (\<lambda>c. \<lparr>u_id = mc_id c, u_patch = mc_oldPatch c\<rparr>) changes) w"
| "undoCommand ops (DuplicateDrawing src copyId) w =
     (case copyId of None \<Rightarrow> w | Some i \<Rightarrow> if i = [] then w else removeFn ops i w)"
| "undoCommand ops (PropertyChange i new old) w = updateFn ops i old w"
| "undoCommand ops (BatchPropertyChange changes label batched) w =
     (if batched then updateBatchFn ops (map (\<lambda>c. \<lparr>u_id = pc_id c, u_patch = pc_oldProps c\<rparr>) (rev changes)) w
      else fold (\<lambda>c. updateFn ops (pc_id c) (pc_oldProps c)) (rev changes) w)"
| "undoCommand ops (PreviewedPropertyChange i new old recorded) w = updateFn ops i old w"

text \<open>
  How a command comes to the manager.  The dialogs show a previewed edit before they execute its command, so the patch
  is already in the store; everything else is executed as it is.
\<close>

definition performCommand ::
    "'w drawing_ops \<Rightarrow> string \<Rightarrow> drawing_command \<Rightarrow> 'w \<Rightarrow> drawing_command \<times> 'w" where
  "performCommand ops uid c w =
     executeCommand ops uid c
       (case c of PreviewedPropertyChange i new old recorded \<Rightarrow> if recorded then w else updateFn ops i new w | _ \<Rightarrow> w)"

fun recordedCommand :: "drawing_command \<Rightarrow> drawing_command" where
  "recordedCommand (PreviewedPropertyChange i new old _) = PreviewedPropertyChange i new old True"
| "recordedCommand c = c"

lemma performCommand_eq: "performCommand ops u c w = executeCommand ops u (recordedCommand c) w"
  by (cases c) (simp_all add: performCommand_def)

subsection \<open>What the manager relies on\<close>

text \<open>
  \<open>seen\<close> is what a user sees of a world, \<open>first\<close> the first execution of a command and \<open>exec\<close> its execution by redo.
  A command that is \<open>ready\<close> in a world can be undone from any world that shows the same as the one it produced; if it is
  also \<open>stable\<close>, executing it again from any world that shows the same as the one it started from has the same
  visible effect.
\<close>

locale undoable =
  fixes first :: "'u \<Rightarrow> 'c \<Rightarrow> 'w \<Rightarrow> 'c \<times> 'w"
    and exec :: "'u \<Rightarrow> 'c \<Rightarrow> 'w \<Rightarrow> 'c \<times> 'w"
    and undo :: "'c \<Rightarrow> 'w \<Rightarrow> 'w"
    and seen :: "'w \<Rightarrow> 'v"
    and good :: "'w \<Rightarrow> bool"
    and ready :: "'u \<Rightarrow> 'c \<Rightarrow> 'w \<Rightarrow> bool"
    and stable :: "'c \<Rightarrow> bool"
  assumes first_good: "good w \<Longrightarrow> ready u c w \<Longrightarrow> good (snd (first u c w))"
    and undo_law: "good w \<Longrightarrow> ready u c w \<Longrightarrow> good w2 \<Longrightarrow> seen w2 = seen (snd (first u c w)) \<Longrightarrow>
        good (undo (fst (first u c w)) w2) \<and> seen (undo (fst (first u c w)) w2) = seen w"
    and redo_law: "good w \<Longrightarrow> ready u c w \<Longrightarrow> stable c \<Longrightarrow> good w2 \<Longrightarrow> seen w2 = seen w \<Longrightarrow>
        good (snd (exec u' (fst (first u c w)) w2))
        \<and> seen (snd (exec u' (fst (first u c w)) w2)) = seen (snd (first u c w))
        \<and> fst (exec u' (fst (first u c w)) w2) = fst (first u c w)"
begin

text \<open>A script of commands, each ready where it is executed, and the worlds it goes through.\<close>

fun script_ok :: "('u \<times> 'c) list \<Rightarrow> 'w \<Rightarrow> bool" where
  "script_ok [] w = True"
| "script_ok ((u, c) # cs) w = (ready u c w \<and> script_ok cs (snd (first u c w)))"

fun worlds :: "('u \<times> 'c) list \<Rightarrow> 'w \<Rightarrow> 'w list" where
  "worlds [] w = [w]"
| "worlds ((u, c) # cs) w = w # worlds cs (snd (first u c w))"

fun executed :: "('u \<times> 'c) list \<Rightarrow> 'w \<Rightarrow> 'c list" where
  "executed [] w = []"
| "executed ((u, c) # cs) w = fst (first u c w) # executed cs (snd (first u c w))"

lemma length_worlds [simp]: "length (worlds cs w) = Suc (length cs)"
  by (induction cs w rule: worlds.induct) auto

lemma length_executed [simp]: "length (executed cs w) = length cs"
  by (induction cs w rule: executed.induct) auto

lemma worlds_good: "good w \<Longrightarrow> script_ok cs w \<Longrightarrow> i \<le> length cs \<Longrightarrow> good (worlds cs w ! i)"
proof (induction cs w arbitrary: i rule: worlds.induct)
  case (2 u c cs w)
  then show ?case by (cases i) (auto simp: first_good)
qed simp

lemma worlds_step:
  "good w \<Longrightarrow> script_ok cs w \<Longrightarrow> i < length cs \<Longrightarrow>
     \<exists>u. ready u (snd (cs ! i)) (worlds cs w ! i) \<and> good (worlds cs w ! i)
       \<and> executed cs w ! i = fst (first u (snd (cs ! i)) (worlds cs w ! i))
       \<and> worlds cs w ! Suc i = snd (first u (snd (cs ! i)) (worlds cs w ! i))"
proof (induction cs w arbitrary: i rule: worlds.induct)
  case (2 u c cs w)
  show ?case
  proof (cases i)
    case 0
    have "worlds cs (snd (first u c w)) ! 0 = snd (first u c w)" by (cases cs) auto
    with 0 2 show ?thesis by auto
  next
    case (Suc j)
    with 2 show ?thesis by (auto simp: first_good)
  qed
qed simp

definition at_cursor :: "('u \<times> 'c) list \<Rightarrow> 'w \<Rightarrow> nat \<Rightarrow> 'c command_manager \<times> 'w \<Rightarrow> bool" where
  "at_cursor cs w i s \<longleftrightarrow>
     i \<le> length cs \<and> undoStack (fst s) = take i (executed cs w)
     \<and> redoStack (fst s) = rev (drop i (executed cs w))
     \<and> good (snd s) \<and> seen (snd s) = seen (worlds cs w ! i)"

lemma at_cursor_stacks:
  "at_cursor cs w i s \<Longrightarrow> length (undoStack (fst s)) = i \<and> length (redoStack (fst s)) = length cs - i \<and> i \<le> length cs"
  by (auto simp: at_cursor_def)

lemma undo_moves:
  assumes "good w" "script_ok cs w" "at_cursor cs w i s"
  shows "at_cursor cs w (i - 1) (fst (managerUndo undo s))"
proof (cases i)
  case 0
  then show ?thesis using assms by (auto simp: at_cursor_def managerUndo_def split_beta)
next
  case (Suc j)
  then have j: "j < length cs" using assms by (simp add: at_cursor_def)
  obtain u c where c: "ready u c (worlds cs w ! j)" "good (worlds cs w ! j)"
    "executed cs w ! j = fst (first u c (worlds cs w ! j))" "worlds cs w ! Suc j = snd (first u c (worlds cs w ! j))"
    using worlds_step [OF assms(1,2) j] by blast
  have stack: "undoStack (fst s) = take j (executed cs w) @ [executed cs w ! j]"
    using assms(3) Suc j by (simp add: at_cursor_def take_Suc_conv_app_nth)
  have "drop j (executed cs w) = executed cs w ! j # drop (Suc j) (executed cs w)"
    using j by (simp add: Cons_nth_drop_Suc)
  then have "redoStack (fst s) @ [executed cs w ! j] = rev (drop j (executed cs w))"
    using assms(3) Suc by (simp add: at_cursor_def)
  moreover have "good (undo (executed cs w ! j) (snd s)) \<and> seen (undo (executed cs w ! j) (snd s)) = seen (worlds cs w ! j)"
    using undo_law [OF c(2,1), of "snd s"] assms(3) Suc c(3,4) by (simp add: at_cursor_def)
  ultimately show ?thesis using stack j Suc
    by (simp add: at_cursor_def managerUndo_def split_beta Let_def)
qed

lemma redo_moves:
  assumes "good w" "script_ok cs w" "at_cursor cs w i s" "i < length cs \<Longrightarrow> stable (snd (cs ! i))"
  shows "at_cursor cs w (min (length cs) (Suc i)) (fst (managerRedo exec u s))"
proof (cases "i = length cs")
  case True
  then show ?thesis using assms by (auto simp: at_cursor_def managerRedo_def split_beta)
next
  case False
  then have i: "i < length cs" using assms by (simp add: at_cursor_def)
  obtain v c where c: "ready v c (worlds cs w ! i)" "stable c" "good (worlds cs w ! i)"
    "executed cs w ! i = fst (first v c (worlds cs w ! i))" "worlds cs w ! Suc i = snd (first v c (worlds cs w ! i))"
    using worlds_step [OF assms(1,2) i] assms(4) [OF i] by blast
  have d: "drop i (executed cs w) = executed cs w ! i # drop (Suc i) (executed cs w)"
    using i by (simp add: Cons_nth_drop_Suc)
  then have stack: "redoStack (fst s) = rev (drop (Suc i) (executed cs w)) @ [executed cs w ! i]"
    using assms(3) by (simp add: at_cursor_def)
  have r: "good (snd (exec u (executed cs w ! i) (snd s)))"
    "seen (snd (exec u (executed cs w ! i) (snd s))) = seen (worlds cs w ! Suc i)"
    "fst (exec u (executed cs w ! i) (snd s)) = executed cs w ! i"
    using redo_law [OF c(3,1,2), of "snd s" u] assms(3) c(4,5) by (simp_all add: at_cursor_def)
  have us: "undoStack (fst s) = take i (executed cs w)" using assms(3) by (simp add: at_cursor_def)
  show ?thesis using r stack i us
    by (simp add: at_cursor_def managerRedo_def split_beta Let_def min_absorb2 take_Suc_conv_app_nth)
qed

lemma execute_script:
  assumes "good w" "script_ok cs w" "length cs \<le> n"
  shows "at_cursor cs w (length cs) (fold (\<lambda>(u, c). managerExecute first u c) cs (newManager n, w))"
proof -
  let ?run = "fold (\<lambda>(u, c). managerExecute first u c)"
  have "?run cs (m, w) = (m\<lparr>undoStack := undoStack m @ executed cs w, redoStack := (if cs = [] then redoStack m else [])\<rparr>,
      worlds cs w ! length cs)"
    if "length (undoStack m) + length cs \<le> maxSize m" for m
    using that
  proof (induction cs w arbitrary: m rule: worlds.induct)
    case (2 u c cs w)
    then show ?case by (simp add: managerExecute_def split_beta Let_def)
  qed simp
  from this [of "newManager n"] show ?thesis
    using worlds_good [OF assms(1,2), of "length cs"] assms(3) by (simp add: at_cursor_def newManager_def)
qed

end

subsection \<open>What the commands rely on\<close>

text \<open>Old values recorded for a patch: they cover its keys and are the current ones.\<close>

definition revertible :: "(string \<Rightarrow> dvalue) \<Rightarrow> props \<Rightarrow> props \<Rightarrow> bool" where
  "revertible f new old \<longleftrightarrow>
     fst ` set new \<subseteq> fst ` set old \<and> (\<forall>k \<in> fst ` set old. map_of (rev old) k = Some (f k))"

type_synonym change = "string \<times> props \<times> props"

fun changes_revertible :: "change list \<Rightarrow> drawing_view \<Rightarrow> bool" where
  "changes_revertible [] v = True"
| "changes_revertible ((i, new, old) # cs) v =
     ((case v i of None \<Rightarrow> True | Some f \<Rightarrow> revertible f new old) \<and> changes_revertible cs (updView i new v))"

definition moves :: "move_change list \<Rightarrow> change list" where
  "moves = map (\<lambda>c. (mc_id c, mc_newPatch c, mc_oldPatch c))"

definition edits :: "property_change list \<Rightarrow> change list" where
  "edits = map (\<lambda>c. (pc_id c, pc_newProps c, pc_oldProps c))"

fun command_ready :: "(drawing \<Rightarrow> bool) \<Rightarrow> drawing_view \<Rightarrow> string \<Rightarrow> drawing_command \<Rightarrow> bool" where
  "command_ready placeable v uid (CreateDrawing d) = (placeable d \<and> complete d \<and> v (d_id d) = None)"
| "command_ready placeable v uid (DeleteDrawing d) =
     (placeable d \<and> complete d \<and> v (d_id d) = Some (getProp d))"
| "command_ready placeable v uid (DeleteDrawings ds) =
     (distinct (map d_id ds) \<and> (\<forall>d \<in> set ds. placeable d \<and> complete d \<and> v (d_id d) = Some (getProp d)))"
| "command_ready placeable v uid (MoveDrawing i new old) =
     changes_revertible [(i, [(''points'', VPoints new)], [(''points'', VPoints old)])] v"
| "command_ready placeable v uid (BatchMoveDrawings cs _) =
     (distinct (map mc_id cs) \<and> changes_revertible (moves cs) v)"
| "command_ready placeable v uid (DuplicateDrawing src _) =
     (uid \<noteq> [] \<and> placeable src \<and> complete src \<and> v uid = None)"
| "command_ready placeable v uid (PropertyChange i new old) = changes_revertible [(i, new, old)] v"
| "command_ready placeable v uid (BatchPropertyChange cs _ _) = changes_revertible (edits cs) v"
| "command_ready placeable v uid (PreviewedPropertyChange i new old recorded) =
     (recorded \<and> changes_revertible [(i, new, old)] v)"

fun stableCommand :: "drawing_command \<Rightarrow> bool" where
  "stableCommand (DuplicateDrawing _ _) = False"
| "stableCommand _ = True"

lemma patchView_revert: "revertible f new old \<Longrightarrow> patchView old (patchView new f) = f"
proof (rule ext)
  fix k assume r: "revertible f new old"
  show "patchView old (patchView new f) k = f k"
  proof (cases "k \<in> fst ` set old")
    case True
    then have "map_of (rev old) k = Some (f k)" using r by (simp only: revertible_def)
    then show ?thesis by (simp add: patchView_def)
  next
    case False
    then have "k \<notin> fst ` set new" using r by (auto simp: revertible_def)
    then have "map_of (rev new) k = None" "map_of (rev old) k = None" using False by (simp_all only: map_of_rev_some not_False_eq_True)
    then show ?thesis by (simp add: patchView_def)
  qed
qed

lemma updView_revert:
  "case v i of None \<Rightarrow> True | Some f \<Rightarrow> revertible f new old \<Longrightarrow> updView i old (updView i new v) = v"
  by (auto simp: updView_def fun_eq_iff patchView_revert split: option.splits)

lemma changes_revert:
  "changes_revertible cs v \<Longrightarrow>
     fold (\<lambda>(i, new, old). updView i old) (rev cs) (fold (\<lambda>(i, new, old). updView i new) cs v) = v"
proof (induction cs v rule: changes_revertible.induct)
  case (2 i new old cs v)
  then have "fold (\<lambda>(i, new, old). updView i old) (rev cs) (fold (\<lambda>(i, new, old). updView i new) cs (updView i new v)) = updView i new v"
    by simp
  then show ?case using 2(2) updView_revert [where v = v and i = i and new = new and old = old] by simp
qed simp

lemma updView_commute: "i \<noteq> j \<Longrightarrow> updView i p (updView j q v) = updView j q (updView i p v)"
  by (auto simp: updView_def fun_eq_iff)

lemma changes_order:
  assumes "distinct (map fst cs)"
  shows "fold (\<lambda>(i, new, old). updView i old) (rev cs) = fold (\<lambda>(i, new, old). updView i old) (cs :: change list)"
proof (rule fold_rev)
  fix x y :: change assume xy: "x \<in> set cs" "y \<in> set cs"
  obtain i n1 o1 j n2 o2 where e: "x = (i, n1, o1)" "y = (j, n2, o2)" by (metis surj_pair)
  show "(case y of (i, new, old) \<Rightarrow> updView i old) \<circ> (case x of (i, new, old) \<Rightarrow> updView i old)
      = (case x of (i, new, old) \<Rightarrow> updView i old) \<circ> (case y of (i, new, old) \<Rightarrow> updView i old)"
  proof (cases "i = j")
    case True
    then have "x = y" using assms xy e by (metis distinct_map fst_conv inj_onD)
    then show ?thesis by simp
  next
    case False
    then show ?thesis by (simp add: e fun_eq_iff updView_commute)
  qed
qed

lemma rename_simps [simp]:
  "getProp (d\<lparr>d_id := i\<rparr>) = getProp d" "complete (d\<lparr>d_id := i\<rparr>) = complete d"
  by (simp_all add: getProp_def fun_eq_iff complete_def)

locale drawing_port =
  fixes ops :: "'w drawing_ops"
    and shown :: "'w \<Rightarrow> drawing_view"
    and fine :: "'w \<Rightarrow> bool"
    and placeable :: "drawing \<Rightarrow> bool"
  assumes add_shown: "fine w \<Longrightarrow> placeable d \<Longrightarrow> complete d \<Longrightarrow> shown w (d_id d) = None \<Longrightarrow>
        fine (addFn ops d w) \<and> shown (addFn ops d w) = (shown w)(d_id d \<mapsto> getProp d)"
    and remove_shown: "fine w \<Longrightarrow> fine (removeFn ops i w) \<and> shown (removeFn ops i w) = (shown w)(i := None)"
    and update_shown: "fine w \<Longrightarrow> fine (updateFn ops i p w) \<and> shown (updateFn ops i p w) = updView i p (shown w)"
    and batch_shown: "fine w \<Longrightarrow> fine (updateBatchFn ops us w)
        \<and> shown (updateBatchFn ops us w) = fold (\<lambda>u. updView (u_id u) (u_patch u)) us (shown w)"
    and callbacks_shown: "fine w \<Longrightarrow> fine (onExecuteFn ops w) \<and> shown (onExecuteFn ops w) = shown w"
      "fine w \<Longrightarrow> fine (onUndoFn ops w) \<and> shown (onUndoFn ops w) = shown w"
      "fine w \<Longrightarrow> fine (onCreatedFn ops d w) \<and> shown (onCreatedFn ops d w) = shown w"
    and placeable_copy: "placeable d \<Longrightarrow> i \<noteq> [] \<Longrightarrow> placeable (d\<lparr>d_id := i\<rparr>)"
begin

lemma fold_remove_shown:
  "fine w \<Longrightarrow> fine (fold (\<lambda>d. removeFn ops (d_id d)) ds w)
     \<and> shown (fold (\<lambda>d. removeFn ops (d_id d)) ds w) = (\<lambda>i. if i \<in> d_id ` set ds then None else shown w i)"
  by (induction ds arbitrary: w) (auto simp: remove_shown fun_eq_iff)

lemma fold_add_shown:
  assumes "fine w" "distinct (map d_id ds)" "\<forall>d \<in> set ds. placeable d \<and> complete d \<and> shown w (d_id d) = None"
  shows "fine (fold (addFn ops) ds w)
     \<and> (\<forall>d \<in> set ds. shown (fold (addFn ops) ds w) (d_id d) = Some (getProp d))
     \<and> (\<forall>i. i \<notin> d_id ` set ds \<longrightarrow> shown (fold (addFn ops) ds w) i = shown w i)"
  using assms
proof (induction ds arbitrary: w)
  case (Cons d ds)
  have d: "fine (addFn ops d w)" "shown (addFn ops d w) = (shown w)(d_id d \<mapsto> getProp d)"
    using add_shown [of w d] Cons.prems by auto
  have "\<forall>e \<in> set ds. placeable e \<and> complete e \<and> shown (addFn ops d w) (d_id e) = None"
    using Cons.prems d by (auto simp: image_iff)
  from Cons.IH [OF d(1) _ this] show ?case using Cons.prems(2) d(2) by (auto simp: image_iff)
qed simp

lemma fold_update_shown:
  "fine w \<Longrightarrow> fine (fold (\<lambda>(i, p). updateFn ops i p) us w)
     \<and> shown (fold (\<lambda>(i, p). updateFn ops i p) us w) = fold (\<lambda>(i, p). updView i p) us (shown w)"
  by (induction us arbitrary: w) (auto simp: update_shown)

lemma apply_changes:
  assumes "fine w"
  shows "fine (updateBatchFn ops (map (\<lambda>c. \<lparr>u_id = f c, u_patch = g c\<rparr>) cs) w)"
    "shown (updateBatchFn ops (map (\<lambda>c. \<lparr>u_id = f c, u_patch = g c\<rparr>) cs) w) = fold (\<lambda>c. updView (f c) (g c)) cs (shown w)"
    "fine (fold (\<lambda>c. updateFn ops (f c) (g c)) cs w)"
    "shown (fold (\<lambda>c. updateFn ops (f c) (g c)) cs w) = fold (\<lambda>c. updView (f c) (g c)) cs (shown w)"
  using batch_shown [OF assms, of "map (\<lambda>c. \<lparr>u_id = f c, u_patch = g c\<rparr>) cs"]
    fold_update_shown [OF assms, of "map (\<lambda>c. (f c, g c)) cs"]
  by (simp_all add: fold_map comp_def)

lemma shown_changes:
  assumes "fine w"
  shows "fold (\<lambda>c. updView (mc_id c) (mc_newPatch c)) ms v = fold (\<lambda>(i, new, old). updView i new) (moves ms) v"
    "fold (\<lambda>c. updView (mc_id c) (mc_oldPatch c)) ms v = fold (\<lambda>(i, new, old). updView i old) (moves ms) v"
    "fold (\<lambda>c. updView (pc_id c) (pc_newProps c)) ps v = fold (\<lambda>(i, new, old). updView i new) (edits ps) v"
    "fold (\<lambda>c. updView (pc_id c) (pc_oldProps c)) (rev ps) v = fold (\<lambda>(i, new, old). updView i old) (rev (edits ps)) v"
  by (simp_all add: moves_def edits_def fold_map comp_def rev_map)

text \<open>Executing a ready command again from a world that shows the same shows the same.\<close>

lemma exec_determined:
  assumes "fine w" "command_ready placeable (shown w) u c" "stableCommand c" "fine w2" "shown w2 = shown w"
  shows "shown (snd (executeCommand ops u' c w2)) = shown (snd (executeCommand ops u c w))"
  using assms
  by (cases c)
    (auto simp: add_shown remove_shown update_shown apply_changes callbacks_shown fold_remove_shown)

lemma exec_fine: "fine w \<Longrightarrow> command_ready placeable (shown w) u c \<Longrightarrow> fine (snd (executeCommand ops u c w))"
  by (cases c)
    (auto simp: add_shown remove_shown update_shown apply_changes callbacks_shown fold_remove_shown Let_def placeable_copy)

lemma undo_delete_many:
  assumes "fine w" "command_ready placeable (shown w) u (DeleteDrawings ds)" "fine w2"
    "shown w2 = shown (snd (executeCommand ops u (DeleteDrawings ds) w))"
  shows "fine (undoCommand ops (DeleteDrawings ds) w2) \<and> shown (undoCommand ops (DeleteDrawings ds) w2) = shown w"
proof -
  let ?s = "js_sort (\<lambda>a b. js_sub (zIndexOf a) (zIndexOf b)) ds"
  have set: "set ?s = set ds" by (rule set_js_sort)
  have "distinct (map d_id ?s)"
    using assms(2) mset_map [of d_id ?s] mset_map [of d_id ds] mset_js_sort [of _ ds]
    by (metis command_ready.simps(3) mset_eq_imp_distinct_iff)
  moreover have v: "shown w2 = (\<lambda>i. if i \<in> d_id ` set ds then None else shown w i)"
    using assms fold_remove_shown [OF assms(1), of ds] callbacks_shown(1) by simp
  ultimately have f: "fine (fold (addFn ops) ?s w2)"
    "\<forall>d \<in> set ds. shown (fold (addFn ops) ?s w2) (d_id d) = Some (getProp d)"
    "\<forall>i. i \<notin> d_id ` set ds \<longrightarrow> shown (fold (addFn ops) ?s w2) i = shown w2 i"
    using fold_add_shown [OF assms(3), of ?s] assms(2) by (auto simp: set)
  have "shown (fold (addFn ops) ?s w2) = shown w"
  proof
    fix i show "shown (fold (addFn ops) ?s w2) i = shown w i"
      using f(2,3) v assms(2) by (cases "i \<in> d_id ` set ds") auto
  qed
  then show ?thesis using f(1) callbacks_shown(2) by simp
qed

lemma undo_restores:
  assumes "fine w" "command_ready placeable (shown w) u c" "fine w2"
    "shown w2 = shown (snd (executeCommand ops u c w))"
  shows "fine (undoCommand ops (fst (executeCommand ops u c w)) w2)
    \<and> shown (undoCommand ops (fst (executeCommand ops u c w)) w2) = shown w"
proof (cases c)
  case (CreateDrawing d)
  then show ?thesis using assms by (auto simp: add_shown remove_shown)
next
  case (DeleteDrawing d)
  then show ?thesis using assms by (auto simp: add_shown remove_shown)
next
  case (DeleteDrawings ds)
  then show ?thesis using undo_delete_many assms by simp
next
  case (MoveDrawing i new old)
  then show ?thesis using assms by (simp add: update_shown updView_revert)
next
  case (BatchMoveDrawings cs label)
  have "distinct (map fst (moves cs))" using assms(2) BatchMoveDrawings by (simp add: moves_def comp_def)
  with BatchMoveDrawings assms changes_revert [of "moves cs" "shown w"] changes_order [of "moves cs"] show ?thesis
    by (simp add: apply_changes shown_changes [OF assms(1)])
next
  case (DuplicateDrawing src copyId)
  then show ?thesis using assms
    by (auto simp: Let_def add_shown remove_shown callbacks_shown placeable_copy)
next
  case (PropertyChange i new old)
  then show ?thesis using assms by (simp add: update_shown updView_revert)
next
  case (BatchPropertyChange cs label batched)
  with assms changes_revert [of "edits cs" "shown w"] show ?thesis
    by (simp add: apply_changes shown_changes [OF assms(1)])
next
  case (PreviewedPropertyChange i new old recorded)
  then show ?thesis using assms by (auto simp: update_shown updView_revert)
qed

end

sublocale drawing_port \<subseteq> undoable "performCommand ops" "executeCommand ops" "undoCommand ops" shown fine
    "\<lambda>u c w. command_ready placeable (shown w) u (recordedCommand c)" stableCommand
proof
  fix w u c assume "fine w" "command_ready placeable (shown w) u (recordedCommand c)"
  then show "fine (snd (performCommand ops u c w))" unfolding performCommand_eq by (rule exec_fine)
next
  fix w u c w2
  assume "fine w" "command_ready placeable (shown w) u (recordedCommand c)" "fine w2" "shown w2 = shown (snd (performCommand ops u c w))"
  then show "fine (undoCommand ops (fst (performCommand ops u c w)) w2)
    \<and> shown (undoCommand ops (fst (performCommand ops u c w)) w2) = shown w" unfolding performCommand_eq by (rule undo_restores)
next
  fix w u c0 w2 u'
  assume a0: "fine w" "command_ready placeable (shown w) u (recordedCommand c0)" "stableCommand c0" "fine w2" "shown w2 = shown w"
  define c where "c = recordedCommand c0"
  have "stableCommand c" using a0(3) by (cases c0) (simp_all add: c_def)
  then have a: "fine w" "command_ready placeable (shown w) u c" "stableCommand c" "fine w2" "shown w2 = shown w"
    using a0 by (simp_all add: c_def)
  have c: "fst (executeCommand ops u'' c w') = c" for u'' w' using a(2,3) by (cases c) auto
  have "fine (snd (executeCommand ops u' (fst (executeCommand ops u c w)) w2))
    \<and> shown (snd (executeCommand ops u' (fst (executeCommand ops u c w)) w2)) = shown (snd (executeCommand ops u c w))
    \<and> fst (executeCommand ops u' (fst (executeCommand ops u c w)) w2) = fst (executeCommand ops u c w)"
  proof (intro conjI)
    have "command_ready placeable (shown w2) u' c" using a(2,3,5) by (cases c) auto
    then show "fine (snd (executeCommand ops u' (fst (executeCommand ops u c w)) w2))"
      using exec_fine [OF a(4)] by (simp add: c)
  qed (use exec_determined [OF a] c in simp_all)
  then show "fine (snd (executeCommand ops u' (fst (performCommand ops u c0 w)) w2))
    \<and> shown (snd (executeCommand ops u' (fst (performCommand ops u c0 w)) w2)) = shown (snd (performCommand ops u c0 w))
    \<and> fst (executeCommand ops u' (fst (performCommand ops u c0 w)) w2) = fst (performCommand ops u c0 w)"
    unfolding performCommand_eq c_def .
qed

subsection \<open>The chart store as the port\<close>

definition selectDrawing :: "string option \<Rightarrow> chart_store \<Rightarrow> chart_store" where
  "selectDrawing selectedId st =
     st\<lparr>cs_selectedId := selectedId, cs_selectedIds := (case selectedId of Some i \<Rightarrow> if i = [] then [] else [i] | None \<Rightarrow> [])\<rparr>"

text \<open>The callbacks the application passes: the store's write atoms, and selecting a fresh copy.\<close>

definition storeOps :: "store_env \<Rightarrow> string \<Rightarrow> chart_store drawing_ops" where
  "storeOps env freshId =
     \<lparr>addFn = addDrawing env freshId, removeFn = removeDrawing env, updateFn = updateDrawing env,
      updateBatchFn = batchUpdateDrawings env, onExecuteFn = (\<lambda>st. st), onUndoFn = (\<lambda>st. st),
      onCreatedFn = (\<lambda>copy. selectDrawing (Some (d_id copy)))\<rparr>"

lemma select_simps [simp]: "view (selectDrawing i st) = view st" "store_ok (selectDrawing i st) = store_ok st"
  by (rule view_cong) (simp_all add: selectDrawing_def store_ok_def)

lemma completeD: "complete d \<Longrightarrow> map_wf (d_props d)"
  by (simp add: complete_def)

interpretation store: drawing_port "storeOps env freshId" view store_ok "settled env" for env freshId
proof
  fix w d assume "store_ok w" "settled env d" "complete d" "view w (d_id d) = None"
  then show "store_ok (addFn (storeOps env freshId) d w)
      \<and> view (addFn (storeOps env freshId) d w) = (view w)(d_id d \<mapsto> getProp d)"
    using ok_add view_add [of env d w freshId]
    by (simp add: storeOps_def completeD getProp_completed)
next
  fix d i assume "settled env d" "i \<noteq> ([] :: string)"
  then show "settled env (d\<lparr>d_id := i\<rparr>)" by (simp add: settled_def pointsOf_def)
qed (simp_all add: storeOps_def ok_remove view_remove ok_update view_update ok_batch view_batch)

subsection \<open>Properties\<close>

datatype history_key = UndoKey | RedoKey string

fun pressKey :: "store_env \<Rightarrow> string \<Rightarrow> history_key
    \<Rightarrow> drawing_command command_manager \<times> chart_store \<Rightarrow> drawing_command command_manager \<times> chart_store" where
  "pressKey env freshId UndoKey s = fst (managerUndo (undoCommand (storeOps env freshId)) s)"
| "pressKey env freshId (RedoKey u) s = fst (managerRedo (executeCommand (storeOps env freshId)) u s)"

fun moveCursor :: "nat \<Rightarrow> history_key \<Rightarrow> nat \<Rightarrow> nat" where
  "moveCursor n UndoKey i = i - 1"
| "moveCursor n (RedoKey _) i = min n (Suc i)"

text \<open>The stores a script of commands goes through, starting with the given one.\<close>

fun scriptStores :: "store_env \<Rightarrow> string \<Rightarrow> (string \<times> drawing_command) list \<Rightarrow> chart_store \<Rightarrow> chart_store list" where
  "scriptStores env freshId [] st = [st]"
| "scriptStores env freshId ((u, c) # cs) st =
     st # scriptStores env freshId cs (snd (performCommand (storeOps env freshId) u c st))"

text \<open>
  Every command is built from the store it is performed on: deleted drawings are the ones shown and recorded old values
  the current ones; the drawings it adds carry what the store would otherwise fill in, and have new ids.
\<close>

fun scriptReady :: "store_env \<Rightarrow> string \<Rightarrow> (string \<times> drawing_command) list \<Rightarrow> chart_store \<Rightarrow> bool" where
  "scriptReady env freshId [] st = True"
| "scriptReady env freshId ((u, c) # cs) st =
     (command_ready (settled env) (view st) u (recordedCommand c)
      \<and> scriptReady env freshId cs (snd (performCommand (storeOps env freshId) u c st)))"

text \<open>No key press redoes a duplicate.\<close>

fun redoesStable :: "(string \<times> drawing_command) list \<Rightarrow> history_key list \<Rightarrow> nat \<Rightarrow> bool" where
  "redoesStable cs [] i = True"
| "redoesStable cs (k # keys) i =
     ((case k of RedoKey _ \<Rightarrow> i < length cs \<longrightarrow> stableCommand (snd (cs ! i)) | UndoKey \<Rightarrow> True)
      \<and> redoesStable cs keys (moveCursor (length cs) k i))"

lemma script_locale:
  "store.worlds env freshId cs st = scriptStores env freshId cs st"
  "store.script_ok env freshId cs st = scriptReady env freshId cs st"
  by (induction cs arbitrary: st) auto

lemma keys_move:
  assumes "store_ok st" "scriptReady env freshId cs st" "store.at_cursor env freshId cs st i s" "redoesStable cs keys i"
  shows "store.at_cursor env freshId cs st (fold (moveCursor (length cs)) keys i) (fold (pressKey env freshId) keys s)"
  using assms(3,4)
proof (induction keys arbitrary: i s)
  case (Cons k keys)
  have "store.at_cursor env freshId cs st (moveCursor (length cs) k i) (pressKey env freshId k s)"
    using store.undo_moves store.redo_moves assms(1,2) Cons.prems by (cases k) (simp_all add: script_locale)
  with Cons show ?case by simp
qed simp

text \<open>
  C10.  Undo and redo walk the history.  Perform a script of commands within the stack limit on the store, of any of the
  nine kinds, each built from the store it is performed on: its drawings are complete and its recorded old values are the
  current ones; a previewed edit counts from before its preview.  Then press undo and redo in any order, except that
  no redo hits a duplicate, whose copy would get a new id.  The store shows exactly the drawings it showed after the
  command the cursor stands at; in particular undoing everything, duplicates included, shows the drawings before the
  script, and undo followed by redo changes nothing.
\<close>

theorem undo_redo_cursor:
  assumes "store_ok st" "scriptReady env freshId cs st" "length cs \<le> n" "redoesStable cs keys (length cs)"
  shows "let (m, st') = fold (pressKey env freshId) keys
             (fold (\<lambda>(u, c). managerExecute (performCommand (storeOps env freshId)) u c) cs (newManager n, st));
           i = fold (moveCursor (length cs)) keys (length cs)
         in view st' = view (scriptStores env freshId cs st ! i)
            \<and> (canUndo m \<longleftrightarrow> 0 < i) \<and> (canRedo m \<longleftrightarrow> i < length cs) \<and> store_ok st'"
proof -
  have "store.at_cursor env freshId cs st (length cs)
      (fold (\<lambda>(u, c). managerExecute (performCommand (storeOps env freshId)) u c) cs (newManager n, st))"
    using store.execute_script [OF assms(1)] assms(2,3) by (simp add: script_locale)
  note c = keys_move [OF assms(1,2) this assms(4)]
  let ?s = "fold (pressKey env freshId) keys
      (fold (\<lambda>(u, c). managerExecute (performCommand (storeOps env freshId)) u c) cs (newManager n, st))"
  have v: "store_ok (snd ?s)" "view (snd ?s) = view (scriptStores env freshId cs st ! fold (moveCursor (length cs)) keys (length cs))"
    using c by (simp_all add: store.at_cursor_def script_locale)
  have "canUndo (fst ?s) \<longleftrightarrow> 0 < fold (moveCursor (length cs)) keys (length cs)"
    "canRedo (fst ?s) \<longleftrightarrow> fold (moveCursor (length cs)) keys (length cs) < length cs"
    unfolding canUndo_def canRedo_def using store.at_cursor_stacks [OF c] by linarith+
  with v show ?thesis by (simp add: Let_def split_beta)
qed

text \<open>
  The history is bounded: whatever is executed, undone and redone, the two stacks together never hold
  more than \<open>maxSize\<close> commands, so redo cannot grow the undo stack past its limit either.
\<close>

theorem history_bounded:
  assumes "length (undoStack m) + length (redoStack m) \<le> maxSize m" "0 < maxSize m"
  shows "(let m' = fst (managerExecute exec u c (m, w))
          in length (undoStack m') + length (redoStack m') \<le> maxSize m' \<and> maxSize m' = maxSize m)
    \<and> (let m' = fst (fst (managerUndo undo (m, w)))
          in length (undoStack m') + length (redoStack m') \<le> maxSize m' \<and> maxSize m' = maxSize m)
    \<and> (let m' = fst (fst (managerRedo exec u (m, w)))
          in length (undoStack m') + length (redoStack m') \<le> maxSize m' \<and> maxSize m' = maxSize m)"
  using assms
  by (cases "undoStack m" rule: rev_cases; cases "redoStack m" rule: rev_cases)
    (auto simp: managerExecute_def managerUndo_def managerRedo_def split_beta Let_def)

lemma view_of_member:
  "store_ok st \<Longrightarrow> d \<in> set (cs_drawings st) \<Longrightarrow> view st (d_id d) = Some (getProp d)"
proof -
  assume a: "store_ok st" "d \<in> set (cs_drawings st)"
  have "find (\<lambda>x. d_id x = d_id d) ds = Some d" if "distinct (map d_id ds)" "d \<in> set ds" for ds
    using that by (induction ds) (auto simp: image_iff)
  with a show ?thesis by (simp add: view_def store_ok_def)
qed

lemma bulk_changes_revertible:
  assumes "distinct (map d_id ds)" "\<forall>d \<in> set ds. v (d_id d) = Some (getProp d)"
  shows "changes_revertible (edits (buildDrawingBulkPatchChanges ds patch)) v"
  using assms
proof (induction ds arbitrary: v)
  case (Cons d ds)
  have later: "changes_revertible (edits (buildDrawingBulkPatchChanges ds patch)) v'"
    if "\<forall>i. i \<noteq> d_id d \<longrightarrow> v' i = v i" for v'
  proof -
    have "v' (d_id e) = Some (getProp e)" if "e \<in> set ds" for e
    proof -
      have "d_id e \<noteq> d_id d" using Cons.prems(1) that by (auto simp: image_iff)
      then show ?thesis using \<open>\<forall>i. i \<noteq> d_id d \<longrightarrow> v' i = v i\<close> Cons.prems(2) that by simp
    qed
    then show ?thesis using Cons.IH [of v'] Cons.prems(1) by simp
  qed
  have rev: "revertible (getProp d) p (map (\<lambda>key. (key, getProp d key)) (map fst p))" for p
    by (simp only: revertible_def map_of_rev_keys) (auto simp: image_image)
  have split: "buildDrawingBulkPatchChanges (d # ds) patch =
      buildDrawingBulkPatchChanges [d] patch @ buildDrawingBulkPatchChanges ds patch"
    by (simp add: buildDrawingBulkPatchChanges_def)
  have "buildDrawingBulkPatchChanges [d] patch = [] \<or> (\<exists>p. buildDrawingBulkPatchChanges [d] patch =
      [\<lparr>pc_id = d_id d, pc_newProps = p, pc_oldProps = map (\<lambda>key. (key, getProp d key)) (map fst p)\<rparr>])"
    by (auto simp: buildDrawingBulkPatchChanges_def Let_def split: option.splits)
  then show ?case
    using later [of v] later [of "updView (d_id d) _ v"] rev Cons.prems(2)
    by (auto simp: split edits_def updView_def)
qed (simp add: buildDrawingBulkPatchChanges_def edits_def)

text \<open>
  A bulk style, lock or visibility edit is one undo step: for any scope and any patch, undoing the batch
  command built from the current drawings shows exactly the drawings from before the edit, with or
  without the atomic batch writer.
\<close>

theorem bulk_edit_undoable:
  assumes "store_ok st"
  shows "let changes = buildDrawingBulkPatchChanges (resolveDrawingBulkTargets (cs_drawings st) selectedIds scope) patch;
           ops = storeOps env freshId;
           (c, st') = executeCommand ops u (BatchPropertyChange changes label batched) st
         in view (undoCommand ops c st') = view st"
proof -
  let ?t = "resolveDrawingBulkTargets (cs_drawings st) selectedIds scope"
  let ?c = "BatchPropertyChange (buildDrawingBulkPatchChanges ?t patch) label batched"
  have t: "set ?t \<subseteq> set (cs_drawings st)" "distinct (map d_id ?t)"
    using assms by (cases scope; auto simp: store_ok_def distinct_map_filter)+
  have "changes_revertible (edits (buildDrawingBulkPatchChanges ?t patch)) (view st)"
    using t view_of_member [OF assms] by (intro bulk_changes_revertible) auto
  then have r: "command_ready (settled env) (view st) u ?c" by simp
  show ?thesis
    using store.undo_restores [OF assms r store.exec_fine [OF assms r] refl]
    by (simp add: Let_def split_beta del: executeCommand.simps undoCommand.simps)
qed

text \<open>
  A previewed property edit: its first execution records without writing, undo puts the recorded old
  values back, and redo from there applies the new ones.
\<close>

theorem previewed_change_roundtrip:
  assumes "store_ok st" "view st i = Some f" "revertible f new old"
  shows "let ops = storeOps env freshId;
           preview = updateDrawing env i new st;
           (c, st1) = executeCommand ops u (PreviewedPropertyChange i new old False) preview;
           st2 = undoCommand ops c st1;
           (c', st3) = executeCommand ops u' c st2
         in st1 = preview \<and> view st2 = view st \<and> view st3 = view preview \<and> c' = c"
  using assms updView_revert [where v = "view st" and i = i and new = new and old = old]
  by (simp add: Let_def storeOps_def view_update ok_update)

text \<open>
  C40.  Redo does not replay a duplicate: \<open>DuplicateDrawingCommand\<close> draws a new id each time it executes, so
  after duplicating a drawing, moving the copy, undoing both and redoing both, the copy is back at its
  original place under the new id; the redone move addressed the first copy's id and had no effect.
\<close>

theorem redo_of_duplicate_loses_later_moves:
  assumes "store_ok st" "settled env src" "complete src" "view st u1 = None" "view st u2 = None"
    and "u1 \<noteq> []" "u2 \<noteq> []" "u1 \<noteq> u2" "getProp src ''points'' = VPoints old" "2 \<le> n"
  shows "let ops = storeOps env freshId; exec = executeCommand ops; undo = undoCommand ops;
           s0 = (newManager n, st);
           s2 = managerExecute exec u3 (MoveDrawing u1 new old) (managerExecute exec u1 (DuplicateDrawing src None) s0);
           s4 = fst (managerUndo undo (fst (managerUndo undo s2)));
           s6 = fst (managerRedo exec u4 (fst (managerRedo exec u2 s4)))
         in view (snd s2) = (view st)(u1 \<mapsto> (getProp src)(''points'' := VPoints new))
            \<and> view (snd s4) = view st
            \<and> view (snd s6) = (view st)(u2 \<mapsto> getProp src)"
proof -
  let ?ops = "storeOps env freshId"
  define add where "add = (\<lambda>u w. onCreatedFn ?ops (src\<lparr>d_id := u\<rparr>) (addFn ?ops (src\<lparr>d_id := u\<rparr>) w))"
  define mv where "mv = (\<lambda>ps w. updateFn ?ops u1 [(''points'', VPoints ps)] w)"
  have add: "store_ok (add u w) \<and> view (add u w) = (view w)(u \<mapsto> getProp src)"
    if "store_ok w" "view w u = None" "u \<noteq> []" for u w
    using store.add_shown [of w env "src\<lparr>d_id := u\<rparr>" freshId] store.placeable_copy [OF assms(2) that(3)] assms(3) that
    by (simp add: add_def store.callbacks_shown)
  have mv: "store_ok (mv ps w) \<and> view (mv ps w) = updView u1 [(''points'', VPoints ps)] (view w)" if "store_ok w" for ps w
    using store.update_shown [OF that] by (simp add: mv_def)
  have rm: "store_ok (removeFn ?ops u1 w) \<and> view (removeFn ?ops u1 w) = (view w)(u1 := None)" if "store_ok w" for w
    by (rule store.remove_shown [OF that])
  define w1 where "w1 = add u1 st"
  define w4 where "w4 = removeFn ?ops u1 (mv old (mv new w1))"
  have w1: "store_ok w1" "view w1 = (view st)(u1 \<mapsto> getProp src)" using add assms by (simp_all add: w1_def)
  have "patchView [(''points'', VPoints new)] (getProp src) = (getProp src)(''points'' := VPoints new)"
    "view st = (view st)(u1 := None)" using assms(4) by (auto simp: patchView_def fun_eq_iff)
  then have w2: "view (mv new w1) = (view st)(u1 \<mapsto> (getProp src)(''points'' := VPoints new))"
    and w4: "store_ok w4" "view w4 = view st"
    using mv [OF w1(1), of new] mv [of "mv new w1" old] rm [of "mv old (mv new w1)"] w1
    by (auto simp: updView_def w4_def)
  have w5: "store_ok (add u2 w4)" "view (add u2 w4) = (view st)(u2 \<mapsto> getProp src)"
    using add [of w4 u2] w4 assms(5,7) by simp_all
  have w6: "view (mv new (add u2 w4)) = (view st)(u2 \<mapsto> getProp src)"
    using mv [OF w5(1), of new] w5(2) assms(4,8) by (auto simp: updView_def)
  show ?thesis using assms(6,10) w2 w4(2) w6
    by (simp add: Let_def newManager_def managerExecute_def managerUndo_def managerRedo_def
        w1_def w4_def add_def mv_def)
qed

subsection \<open>Witnesses\<close>

abbreviation lineStore :: chart_store where
  "lineStore \<equiv> sampleStore\<lparr>cs_drawings := [sampleLine ''a'']\<rparr>"

lemma lineStore_ok: "store_ok lineStore"
  by (simp add: store_ok_def sampleStore_def emptyQueue_ok)

lemma lineStore_view: "view lineStore = (\<lambda>i. if i = ''a'' then Some (getProp (sampleLine ''a'')) else None)"
  by (auto simp: view_def fun_eq_iff)

lemma sampleLine_complete: "complete (sampleLine name)"
  by (simp add: complete_def sampleLine_def getProp_def)

lemma sampleLine_props:
  "getProp (sampleLine name) ''points'' = VPoints [(Fin 60, Fin 5), (Fin 120, Fin 6), (Fin 120, Fin 4)]"
  "getProp (sampleLine name) ''locked'' = VBool False"
  by (simp_all add: sampleLine_def getProp_def)

theorem undo_redo_cursor_witness:
  "let (m, st') = fold (pressKey sampleEnv ''f'') [UndoKey]
       (fold (\<lambda>(u, c). managerExecute (performCommand (storeOps sampleEnv ''f'')) u c)
         [(''u'', DeleteDrawing (sampleLine ''a''))] (newManager 200, lineStore))
   in view st' = view lineStore \<and> \<not> canUndo m \<and> canRedo m"
proof -
  have "scriptReady sampleEnv ''f'' [(''u'', DeleteDrawing (sampleLine ''a''))] lineStore"
    using sampleLine_settled sampleLine_complete by (simp add: lineStore_view)
  then show ?thesis
    using undo_redo_cursor [OF lineStore_ok, of sampleEnv "''f''" "[(''u'', DeleteDrawing (sampleLine ''a''))]" 200 "[UndoKey]"]
    by (simp add: Let_def split_beta)
qed

theorem history_bounded_witness:
  "let m' = fst (managerExecute (executeCommand (storeOps sampleEnv ''f'')) ''u'' (DeleteDrawing (sampleLine ''a''))
       (newManager 200, lineStore))
   in length (undoStack m') + length (redoStack m') \<le> maxSize m'"
  using history_bounded [of "newManager 200" "executeCommand (storeOps sampleEnv ''f'')" "''u''"
      "DeleteDrawing (sampleLine ''a'')" lineStore "undoCommand (storeOps sampleEnv ''f'')"]
  by (simp add: Let_def newManager_def)

theorem bulk_edit_undoable_witness:
  "let changes = buildDrawingBulkPatchChanges (resolveDrawingBulkTargets (cs_drawings lineStore) [] ScopeAll)
         (FixedPatch [(''locked'', VBool True)]);
       ops = storeOps sampleEnv ''f'';
       (c, st') = executeCommand ops ''u'' (BatchPropertyChange changes ''Lock Drawings'' True) lineStore
   in view (undoCommand ops c st') = view lineStore"
  by (rule bulk_edit_undoable [OF lineStore_ok])

theorem previewed_change_roundtrip_witness:
  "let ops = storeOps sampleEnv ''f'';
       preview = updateDrawing sampleEnv ''a'' [(''locked'', VBool True)] lineStore;
       (c, st1) = executeCommand ops ''u'' (PreviewedPropertyChange ''a'' [(''locked'', VBool True)] [(''locked'', VBool False)] False) preview;
       st2 = undoCommand ops c st1;
       (c', st3) = executeCommand ops ''v'' c st2
   in st1 = preview \<and> view st2 = view lineStore \<and> view st3 = view preview \<and> c' = c"
  by (rule previewed_change_roundtrip [OF lineStore_ok, of "''a''" "getProp (sampleLine ''a'')"])
    (simp_all add: lineStore_view revertible_def sampleLine_props)

theorem redo_of_duplicate_loses_later_moves_witness:
  "let ops = storeOps sampleEnv ''f''; exec = executeCommand ops; undo = undoCommand ops;
       s0 = (newManager 200, lineStore);
       old = [(Fin 60, Fin 5), (Fin 120, Fin 6), (Fin 120, Fin 4)]; new = [(Fin 0, Fin 0), (Fin 1, Fin 1), (Fin 1, Fin 2)];
       s2 = managerExecute exec ''u3'' (MoveDrawing ''u1'' new old)
              (managerExecute exec ''u1'' (DuplicateDrawing (sampleLine ''a'') None) s0);
       s4 = fst (managerUndo undo (fst (managerUndo undo s2)));
       s6 = fst (managerRedo exec ''u4'' (fst (managerRedo exec ''u2'' s4)))
   in view (snd s6) = (view lineStore)(''u2'' \<mapsto> getProp (sampleLine ''a''))"
  using redo_of_duplicate_loses_later_moves [OF lineStore_ok, of sampleEnv "sampleLine ''a''" "''u1''" "''u2''"
      "[(Fin 60, Fin 5), (Fin 120, Fin 6), (Fin 120, Fin 4)]" 200 "''f''" "''u3''"
      "[(Fin 0, Fin 0), (Fin 1, Fin 1), (Fin 1, Fin 2)]" "''u4''"]
    sampleLine_settled(1) [of "CHR ''a''" "[]"] sampleLine_complete [of "''a''"]
  by (simp add: lineStore_view Let_def sampleLine_props)

end
