(* ===== verification/PositionSizing.thy ===== *)
theory PositionSizing
  imports JsNumber
begin

section \<open>Position sizing\<close>

text \<open>
  Models \<open>services/positionSizing.ts\<close>: the risk and volume arithmetic shared by the simulator, the MT5
  adapter and the chart tools, over binary64 numbers.  \<open>Number(x.toFixed(n))\<close> and
  \<open>Number(x.toPrecision(p))\<close> follow ECMAScript: the nearest decimal with that many digits (the larger
  one on a tie), read back as a number.  An absent or \<open>null\<close> argument is \<open>None\<close>.
\<close>

subsection \<open>Library functions the module uses\<close>

definition js_trunc :: "jsnum \<Rightarrow> jsnum" where
  "js_trunc x = (case x of Fin a \<Rightarrow> Fin (of_int (if 0 \<le> a then \<lfloor>a\<rfloor> else \<lceil>a\<rceil>)) | _ \<Rightarrow> x)"

text \<open>\<open>10 ** places\<close> for a whole \<open>places\<close> between 0 and 12, or NaN.\<close>

definition pow10 :: "jsnum \<Rightarrow> jsnum" where
  "pow10 places = (case places of Fin q \<Rightarrow> f64 (10 ^ nat \<lfloor>q\<rfloor>) | _ \<Rightarrow> NaN)"

definition js_toFixed :: "jsnum \<Rightarrow> jsnum \<Rightarrow> jsnum" where
  "js_toFixed x places =
     (case x of
        Fin a \<Rightarrow>
          let n = (case places of Fin q \<Rightarrow> nat \<lfloor>q\<rfloor> | _ \<Rightarrow> 0)
          in if 10 ^ 21 \<le> \<bar>a\<bar> then x
             else if a < 0 then js_neg (f64 (of_int \<lfloor>- a * 10 ^ n + 1 / 2\<rfloor> / 10 ^ n))
             else f64 (of_int \<lfloor>a * 10 ^ n + 1 / 2\<rfloor> / 10 ^ n)
      | _ \<Rightarrow> x)"

text \<open>The decimal exponent of a positive double lies between -324 and 308.\<close>

definition decExponent :: "rat \<Rightarrow> int" where
  "decExponent a = fold (\<lambda>e best. if 10 powi e \<le> a then e else best) [- 324 .. 308] (- 324)"

definition js_toPrecision :: "nat \<Rightarrow> jsnum \<Rightarrow> jsnum" where
  "js_toPrecision digits x =
     (case x of
        Fin a \<Rightarrow>
          if a = 0 then x
          else let scale = 10 powi (decExponent \<bar>a\<bar> - int (digits - 1));
                   r = f64 (of_int \<lfloor>\<bar>a\<bar> / scale + 1 / 2\<rfloor> * scale)
               in if a < 0 then js_neg r else r
      | _ \<Rightarrow> x)"

definition EPSILON :: jsnum where
  "EPSILON = Fin (1 / 2 ^ 52)"

definition lit_1e8 :: jsnum where
  "lit_1e8 = f64 (1 / 10 ^ 8)"

subsection \<open>Definitions\<close>

datatype risk_mode = RiskPercent | RiskMoney
datatype reward_rounding = RoundNearest | RoundDownwards

record volume_rules =
  vr_min :: "jsnum option"
  vr_max :: "jsnum option"
  vr_step :: "jsnum option"
  vr_clampToMin :: "bool option"

record sizing_input =
  si_accountSize :: jsnum
  si_riskValue :: jsnum
  si_riskMode :: "risk_mode option"
  si_stopDistance :: jsnum
  si_targetDistance :: "jsnum option"
  si_lossPerPriceUnit :: jsnum
  si_profitPerPriceUnit :: "jsnum option"
  si_commissionPerVolumePerSide :: "jsnum option"
  si_volume :: "jsnum option"
  si_volumeRules :: "volume_rules option"
  si_maxVolume :: "jsnum option"
  si_normalizeVolume :: "bool option"
  si_moneyPrecision :: "jsnum option"
  si_rewardRounding :: "reward_rounding option"

record sizing_result =
  sr_accountSize :: jsnum
  sr_targetRisk :: jsnum
  sr_riskMode :: risk_mode
  sr_stopDistance :: jsnum
  sr_targetDistance :: jsnum
  sr_lossPerPriceUnit :: jsnum
  sr_profitPerPriceUnit :: jsnum
  sr_commissionPerVolumePerSide :: jsnum
  sr_roundTripCommission :: jsnum
  sr_lossPerVolume :: jsnum
  sr_rewardPerVolume :: jsnum
  sr_rawVolume :: jsnum
  sr_volume :: jsnum
  sr_actualRisk :: jsnum
  sr_grossReward :: jsnum
  sr_reward :: jsnum
  sr_riskReward :: jsnum
  sr_marginCapped :: bool
  sr_minVolumeApplied :: bool
  sr_maxVolumeApplied :: bool
  sr_warnings :: "string list"

definition DEFAULT_MIN_VOLUME :: jsnum where
  "DEFAULT_MIN_VOLUME = f64 (1 / 100)"

definition DEFAULT_MAX_VOLUME :: jsnum where
  "DEFAULT_MAX_VOLUME = PInf"

definition DEFAULT_VOLUME_STEP :: jsnum where
  "DEFAULT_VOLUME_STEP = f64 (1 / 100)"

definition finitePositive :: "jsnum option \<Rightarrow> jsnum \<Rightarrow> jsnum" where
  "finitePositive value fallback =
     (case value of Some x \<Rightarrow> if js_isFinite x \<and> js_lt (Fin 0) x then x else fallback | None \<Rightarrow> fallback)"

definition finiteNonNegative :: "jsnum option \<Rightarrow> jsnum \<Rightarrow> jsnum" where
  "finiteNonNegative value fallback =
     (case value of Some x \<Rightarrow> if js_isFinite x \<and> js_le (Fin 0) x then x else fallback | None \<Rightarrow> fallback)"

definition precisionPlaces :: "jsnum \<Rightarrow> jsnum" where
  "precisionPlaces precision = js_min (js_max (js_trunc precision) (Fin 0)) (Fin 12)"

definition roundMoneyDown :: "jsnum \<Rightarrow> jsnum \<Rightarrow> jsnum" where
  "roundMoneyDown value precision =
     (if \<not> js_isFinite value then Fin 0
      else
        let places = precisionPlaces precision;
            factor = pow10 places
        in js_div (js_floor (js_mul (js_add (js_max (Fin 0) value) (js_mul EPSILON factor)) factor)) factor)"

definition roundMoney :: "jsnum \<Rightarrow> jsnum \<Rightarrow> jsnum" where
  "roundMoney value precision =
     (if \<not> js_isFinite value then Fin 0
      else js_toFixed value (precisionPlaces precision))"

definition roundMoneyDownSigned :: "jsnum \<Rightarrow> jsnum \<Rightarrow> jsnum" where
  "roundMoneyDownSigned value precision =
     (if \<not> js_isFinite value then Fin 0
      else if js_le (Fin 0) value then roundMoneyDown value precision
      else
        let factor = pow10 (precisionPlaces precision);
            scaled = js_mul value factor;
            nearest = js_round scaled;
            stable = (if js_lt (js_abs (js_sub nearest scaled)) lit_1e8 then nearest else js_floor scaled)
        in js_div stable factor)"

definition calculateRiskAmount :: "jsnum \<Rightarrow> jsnum \<Rightarrow> risk_mode \<Rightarrow> jsnum \<Rightarrow> jsnum" where
  "calculateRiskAmount accountSize riskValue riskMode moneyPrecision =
     (let account = finiteNonNegative (Some accountSize) (Fin 0);
          value = finiteNonNegative (Some riskValue) (Fin 0);
          amount = (if riskMode = RiskMoney then value else js_div (js_mul account value) (Fin 100))
      in if riskMode = RiskMoney then amount else roundMoneyDown amount moneyPrecision)"

definition floorToStep :: "jsnum \<Rightarrow> jsnum \<Rightarrow> jsnum" where
  "floorToStep value step =
     (if \<not> js_isFinite value \<or> js_le value (Fin 0) then Fin 0
      else if \<not> js_isFinite step \<or> js_le step (Fin 0) then value
      else
        let steps = js_div value step;
            nearest = js_round steps;
            stable = (if js_lt (js_abs (js_sub nearest steps)) lit_1e8 then nearest else js_floor steps)
        in js_toPrecision 15 (js_mul (js_max (Fin 0) stable) step))"

definition finiteMax :: "jsnum option \<Rightarrow> jsnum \<Rightarrow> jsnum" where
  "finiteMax value fallback =
     (case value of
        None \<Rightarrow> fallback
      | Some x \<Rightarrow> if x = PInf then PInf
                  else if js_isFinite x \<and> js_le (Fin 0) x then x else fallback)"

definition normalizePositionVolume :: "jsnum \<Rightarrow> volume_rules \<Rightarrow> jsnum" where
  "normalizePositionVolume value rules =
     (if \<not> js_isFinite value \<or> js_le value (Fin 0) then Fin 0
      else
        let min' = finitePositive (vr_min rules) DEFAULT_MIN_VOLUME;
            max' = finiteMax (vr_max rules) DEFAULT_MAX_VOLUME;
            step = finitePositive (vr_step rules) DEFAULT_VOLUME_STEP;
            clampToMin = (vr_clampToMin rules \<noteq> Some False);
            bounded = (if js_lt value min' then (if clampToMin then min' else Fin 0) else value);
            bounded' = (if js_lt max' bounded then max' else bounded)
        in if js_le bounded' (Fin 0) then Fin 0 else floorToStep bounded' step)"

definition noRules :: volume_rules where
  "noRules = \<lparr>vr_min = None, vr_max = None, vr_step = None, vr_clampToMin = None\<rparr>"

definition calculatePositionSizing :: "sizing_input \<Rightarrow> sizing_result" where
  "calculatePositionSizing input =
     (let precision = (case si_moneyPrecision input of Some p \<Rightarrow> p | None \<Rightarrow> Fin 2);
          accountSize = finiteNonNegative (Some (si_accountSize input)) (Fin 0);
          riskMode = (if si_riskMode input = Some RiskMoney then RiskMoney else RiskPercent);
          targetRisk = calculateRiskAmount accountSize (si_riskValue input) riskMode precision;
          stopDistance = finiteNonNegative (Some (si_stopDistance input)) (Fin 0);
          targetDistance = finiteNonNegative (si_targetDistance input) (Fin 0);
          lossPerPriceUnit = finiteNonNegative (Some (si_lossPerPriceUnit input)) (Fin 0);
          profitPerPriceUnit = finiteNonNegative (si_profitPerPriceUnit input) lossPerPriceUnit;
          commission = finiteNonNegative (si_commissionPerVolumePerSide input) (Fin 0);
          roundTripCommission = js_mul commission (Fin 2);
          lossPerVolume = js_add (js_mul stopDistance lossPerPriceUnit) roundTripCommission;
          rewardPerVolume =
            (if js_lt (Fin 0) targetDistance
             then js_sub (js_mul targetDistance profitPerPriceUnit) roundTripCommission else Fin 0);
          rawVolume =
            (if js_lt (Fin 0) stopDistance \<and> js_lt (Fin 0) lossPerPriceUnit \<and> js_lt (Fin 0) lossPerVolume
                \<and> js_lt (Fin 0) targetRisk
             then js_div targetRisk lossPerVolume else Fin 0);
          rules = (case si_volumeRules input of Some r \<Rightarrow> r | None \<Rightarrow> noRules);
          maxByMargin = finiteMax (si_maxVolume input) PInf;
          maxBeforeNormalize = js_min (finitePositive (vr_max rules) DEFAULT_MAX_VOLUME) maxByMargin;
          hasManualVolume =
            (case si_volume input of Some v \<Rightarrow> js_isFinite v \<and> js_lt (Fin 0) v | None \<Rightarrow> False);
          manual = (case si_volume input of Some v \<Rightarrow> v | None \<Rightarrow> Fin 0);
          candidateVolume = (if hasManualVolume then manual else rawVolume);
          maxVolumeApplied = (js_isFinite maxBeforeNormalize \<and> js_lt maxBeforeNormalize candidateVolume);
          requestedVolume = (if hasManualVolume then manual else js_min rawVolume maxBeforeNormalize);
          min' = finitePositive (vr_min rules) DEFAULT_MIN_VOLUME;
          minVolumeApplied =
            (js_lt (Fin 0) requestedVolume \<and> js_lt requestedVolume min' \<and> vr_clampToMin rules \<noteq> Some False);
          shouldNormalize = (si_normalizeVolume input \<noteq> Some False);
          volume =
            (if shouldNormalize
             then normalizePositionVolume requestedVolume (rules\<lparr>vr_max := Some maxBeforeNormalize\<rparr>)
             else js_max (Fin 0) requestedVolume);
          marginCapped =
            (js_isFinite maxByMargin \<and> js_lt maxByMargin (finitePositive (vr_max rules) DEFAULT_MAX_VOLUME)
             \<and> js_lt maxByMargin candidateVolume);
          warnings =
            (if \<not> js_truthy lossPerPriceUnit \<or> \<not> js_truthy stopDistance then [''STOP_DISTANCE_UNAVAILABLE''] else [])
            @ (if minVolumeApplied then [''MIN_VOLUME_INCREASED_RISK''] else [])
            @ (if maxVolumeApplied then [''MAX_VOLUME_CAPPED''] else [])
            @ (if marginCapped then [''MARGIN_VOLUME_CAPPED''] else [])
            @ (if hasManualVolume then [''RISK_FROM_VOLUME''] else []);
          actualRisk = roundMoney (js_mul volume lossPerVolume) precision;
          roundReward = (if si_rewardRounding input = Some RoundDownwards then roundMoneyDownSigned else roundMoney);
          grossReward = roundReward (js_mul (js_mul volume targetDistance) profitPerPriceUnit) precision;
          reward = roundReward (js_mul volume rewardPerVolume) precision
      in \<lparr>sr_accountSize = accountSize, sr_targetRisk = targetRisk, sr_riskMode = riskMode,
          sr_stopDistance = stopDistance, sr_targetDistance = targetDistance,
          sr_lossPerPriceUnit = lossPerPriceUnit, sr_profitPerPriceUnit = profitPerPriceUnit,
          sr_commissionPerVolumePerSide = commission, sr_roundTripCommission = roundTripCommission,
          sr_lossPerVolume = lossPerVolume, sr_rewardPerVolume = rewardPerVolume, sr_rawVolume = rawVolume,
          sr_volume = volume, sr_actualRisk = actualRisk, sr_grossReward = grossReward, sr_reward = reward,
          sr_riskReward = (if js_lt (Fin 0) actualRisk then js_div reward actualRisk else Fin 0),
          sr_marginCapped = marginCapped, sr_minVolumeApplied = minVolumeApplied,
          sr_maxVolumeApplied = maxVolumeApplied, sr_warnings = warnings\<rparr>)"

subsection \<open>Signs\<close>

text \<open>\<open>nonneg x\<close>: a number, possibly infinite, at least zero.\<close>

definition nonneg :: "jsnum \<Rightarrow> bool" where
  "nonneg x \<longleftrightarrow> js_le (Fin 0) x"

lemma nonneg_iff: "nonneg x \<longleftrightarrow> x = PInf \<or> (\<exists>a. x = Fin a \<and> 0 \<le> a)"
  by (cases x) (auto simp: nonneg_def js_le_def)

lemma nonneg_Fin [simp]: "nonneg (Fin a) \<longleftrightarrow> 0 \<le> a" "nonneg PInf"
  by (simp_all add: nonneg_def js_le_def)

lemma nonneg_f64: "0 \<le> a \<Longrightarrow> nonneg (f64 a)"
  using f64_nonneg [of a] by (simp add: nonneg_def js_le_def)

lemma nonneg_finiteNonNegative: "nonneg fallback \<Longrightarrow> nonneg (finiteNonNegative v fallback)"
  by (auto simp: finiteNonNegative_def nonneg_def split: option.splits)

lemma finite_finiteNonNegative: "js_isFinite fallback \<Longrightarrow> js_isFinite (finiteNonNegative v fallback)"
  by (auto simp: finiteNonNegative_def split: option.splits)

lemma nonneg_add: "nonneg x \<Longrightarrow> nonneg y \<Longrightarrow> nonneg (js_add x y)"
  by (auto simp: nonneg_iff [of x] nonneg_iff [of y] nonneg_f64)

lemma nonneg_mul: "nonneg x \<Longrightarrow> nonneg y \<Longrightarrow> js_isFinite x \<Longrightarrow> js_isFinite y \<Longrightarrow> nonneg (js_mul x y)"
  by (auto simp: nonneg_iff [of x] nonneg_iff [of y] nonneg_f64)

lemma nonneg_div: "nonneg x \<Longrightarrow> js_isFinite y \<Longrightarrow> js_lt (Fin 0) y \<Longrightarrow> nonneg (js_div x y)"
  by (auto simp: nonneg_iff [of x] js_isFinite_iff js_inf_signed_def intro!: nonneg_f64)

lemma nonneg_floor: "nonneg x \<Longrightarrow> nonneg (js_floor x)"
  by (auto simp: nonneg_iff [of x] js_floor_def)

lemma nonneg_min: "nonneg x \<Longrightarrow> nonneg y \<Longrightarrow> nonneg (js_min x y)"
  by (auto simp: js_min_def nonneg_def js_le_def min_def)

lemma nonneg_max0: "x \<noteq> NaN \<Longrightarrow> nonneg (js_max (Fin 0) x)"
  by (cases x) (auto simp: js_max_def nonneg_def js_le_def max_def)

lemma nonneg_finitePositive: "nonneg fallback \<Longrightarrow> nonneg (finitePositive v fallback)"
  by (auto simp: finitePositive_def nonneg_def js_le_def js_lt_def split: option.splits)

lemma nonneg_finiteMax: "nonneg fallback \<Longrightarrow> nonneg (finiteMax v fallback)"
  by (auto simp: finiteMax_def nonneg_def [symmetric] split: option.splits)

lemma nonneg_toPrecision: "nonneg x \<Longrightarrow> nonneg (js_toPrecision 15 x)"
  by (auto simp: nonneg_iff [of x] js_toPrecision_def Let_def intro!: nonneg_f64)

lemma nonneg_floorToStep: "nonneg (floorToStep v s)"
proof -
  have pos: "js_isFinite x \<Longrightarrow> \<not> js_le x (Fin 0) \<Longrightarrow> js_lt (Fin 0) x" for x by (auto simp: js_isFinite_iff)
  consider "js_isFinite v" "js_lt (Fin 0) v" "js_isFinite s" "js_lt (Fin 0) s"
    | "\<not> js_isFinite v \<or> js_le v (Fin 0)" | "js_isFinite v" "\<not> js_le v (Fin 0)" "\<not> js_isFinite s \<or> js_le s (Fin 0)"
    using pos by blast
  then show ?thesis
  proof cases
    case 1
    then obtain a b where ab: "v = Fin a" "0 < a" "s = Fin b" "0 < b" by (auto simp: js_isFinite_iff)
    have "js_div v s \<noteq> NaN" using ab by simp
    then have "js_round (js_div v s) \<noteq> NaN" "js_floor (js_div v s) \<noteq> NaN"
      by (cases "js_div v s"; simp add: js_round_def js_floor_def)+
    moreover have "nonneg (js_toPrecision 15 (js_mul (js_max (Fin 0) st) s))" if "st \<noteq> NaN" for st
      using nonneg_max0 [OF that] ab
      by (intro nonneg_toPrecision) (cases "js_max (Fin 0) st", auto simp: nonneg_f64 js_inf_signed_def)
    moreover have "\<not> js_le v (Fin 0)" "\<not> js_le s (Fin 0)" using ab by simp_all
    ultimately show ?thesis unfolding floorToStep_def Let_def using 1 by (simp del: js_div.simps)
  next
    case 2 then show ?thesis by (simp add: floorToStep_def)
  next
    case 3 then show ?thesis by (cases v) (auto simp: floorToStep_def)
  qed
qed

lemma nonneg_normalizeVolume: "nonneg (normalizePositionVolume v r)"
  by (simp add: normalizePositionVolume_def Let_def nonneg_floorToStep)

lemma pow10_places: "p \<noteq> NaN \<Longrightarrow> \<exists>f. pow10 (precisionPlaces p) = Fin f \<and> 0 < f"
proof -
  assume "p \<noteq> NaN"
  then have "\<exists>q. precisionPlaces p = Fin q \<and> q \<le> 12"
  proof (cases p)
    case (Fin a) then show ?thesis by (simp add: precisionPlaces_def js_trunc_def)
  qed (auto simp: precisionPlaces_def js_trunc_def js_max_def js_min_def)
  then obtain q where q: "precisionPlaces p = Fin q" "q \<le> 12" by blast
  have "nat \<lfloor>q\<rfloor> \<le> 12" using q(2) by linarith
  then have "(10 :: int) ^ nat \<lfloor>q\<rfloor> \<le> 10 ^ 12" by (intro power_increasing) auto
  then have "\<bar>(10 :: int) ^ nat \<lfloor>q\<rfloor>\<bar> < 2 ^ 53" by simp
  from f64_of_int [OF this] show ?thesis by (simp add: pow10_def q)
qed

lemma nonneg_roundMoneyDown: "p \<noteq> NaN \<Longrightarrow> nonneg (roundMoneyDown v p)"
proof -
  assume p: "p \<noteq> NaN"
  obtain f where f: "pow10 (precisionPlaces p) = Fin f" "0 < f" using pow10_places [OF p] by blast
  show ?thesis
  proof (cases "js_isFinite v")
    case True
    then obtain a where a: "v = Fin a" by (auto simp: js_isFinite_iff)
    have "nonneg (js_add (js_max (Fin 0) v) (js_mul EPSILON (Fin f)))"
      using f by (intro nonneg_add nonneg_max0 nonneg_mul) (auto simp: a EPSILON_def)
    then have "nonneg (js_mul (js_add (js_max (Fin 0) v) (js_mul EPSILON (Fin f))) (Fin f))"
      using f(2) by (cases "js_add (js_max (Fin 0) v) (js_mul EPSILON (Fin f))") (auto simp: nonneg_f64 js_inf_signed_def)
    then show ?thesis using True f by (auto simp: roundMoneyDown_def Let_def intro!: nonneg_div nonneg_floor)
  qed (simp add: roundMoneyDown_def)
qed

lemma nonneg_riskAmount: "p \<noteq> NaN \<Longrightarrow> nonneg (calculateRiskAmount a v m p)"
  by (simp add: calculateRiskAmount_def Let_def nonneg_roundMoneyDown nonneg_finiteNonNegative)

lemma roundMoney_nonneg: assumes "nonneg v" shows "nonneg (roundMoney v p)"
proof (cases "js_isFinite v")
  case True
  then obtain a where "v = Fin a" "0 \<le> a" using assms by (auto simp: nonneg_iff)
  then show ?thesis by (auto simp: roundMoney_def js_toFixed_def Let_def intro!: nonneg_f64)
qed (simp add: roundMoney_def)

lemma roundMoneyDown_NaN: "roundMoneyDown v NaN \<in> {NaN, Fin 0}"
proof -
  have "pow10 (precisionPlaces NaN) = NaN" by (simp add: pow10_def precisionPlaces_def js_trunc_def js_max_def js_min_def)
  moreover have "js_div x NaN = NaN" for x by (cases x) simp_all
  ultimately show ?thesis by (simp add: roundMoneyDown_def Let_def)
qed

lemma riskAmount_sign: "calculateRiskAmount a v m p = NaN \<or> nonneg (calculateRiskAmount a v m p)"
proof (cases "p = NaN \<and> m \<noteq> RiskMoney")
  case True
  then show ?thesis using roundMoneyDown_NaN by (fastforce simp: calculateRiskAmount_def Let_def)
next
  case False
  then show ?thesis using nonneg_riskAmount [of p a v m]
    by (cases m) (auto simp: calculateRiskAmount_def Let_def nonneg_finiteNonNegative)
qed

lemma nonneg_div_inf:
  assumes "nonneg x" "nonneg y" "js_lt (Fin 0) y" "\<not> (x = PInf \<and> y = PInf)" shows "nonneg (js_div x y)"
  using assms by (auto simp: nonneg_iff [of x] nonneg_iff [of y] js_inf_signed_def intro!: nonneg_f64)

subsection \<open>The volume\<close>

text \<open>The parts of the computation the volume depends on.\<close>

definition rulesOf :: "sizing_input \<Rightarrow> volume_rules" where
  "rulesOf input = (case si_volumeRules input of Some r \<Rightarrow> r | None \<Rightarrow> noRules)"

definition marginMax :: "sizing_input \<Rightarrow> jsnum" where
  "marginMax input = finiteMax (si_maxVolume input) PInf"

definition volumeCap :: "sizing_input \<Rightarrow> jsnum" where
  "volumeCap input = js_min (finitePositive (vr_max (rulesOf input)) DEFAULT_MAX_VOLUME) (marginMax input)"

definition manualVolume :: "sizing_input \<Rightarrow> bool" where
  "manualVolume input = (case si_volume input of Some v \<Rightarrow> js_isFinite v \<and> js_lt (Fin 0) v | None \<Rightarrow> False)"

definition requestedVolume :: "sizing_input \<Rightarrow> jsnum" where
  "requestedVolume input = (if manualVolume input then the (si_volume input)
     else js_min (sr_rawVolume (calculatePositionSizing input)) (volumeCap input))"

lemma volume_eq:
  "sr_volume (calculatePositionSizing input) = (if si_normalizeVolume input \<noteq> Some False
     then normalizePositionVolume (requestedVolume input) (rulesOf input\<lparr>vr_max := Some (volumeCap input)\<rparr>)
     else js_max (Fin 0) (requestedVolume input))"
  by (auto simp: requestedVolume_def manualVolume_def volumeCap_def marginMax_def rulesOf_def calculatePositionSizing_def Let_def
      split: option.splits)

lemma raw_eq:
  "sr_rawVolume (calculatePositionSizing input) =
     (let r = calculatePositionSizing input
      in if js_lt (Fin 0) (sr_stopDistance r) \<and> js_lt (Fin 0) (sr_lossPerPriceUnit r)
            \<and> js_lt (Fin 0) (sr_lossPerVolume r) \<and> js_lt (Fin 0) (sr_targetRisk r)
         then js_div (sr_targetRisk r) (sr_lossPerVolume r) else Fin 0)"
  by (simp add: calculatePositionSizing_def Let_def)

lemma risk_eq:
  "sr_actualRisk (calculatePositionSizing input) =
     roundMoney (js_mul (sr_volume (calculatePositionSizing input)) (sr_lossPerVolume (calculatePositionSizing input)))
       (case si_moneyPrecision input of Some p \<Rightarrow> p | None \<Rightarrow> Fin 2)"
  by (simp add: calculatePositionSizing_def Let_def)

lemma loss_nonneg: "nonneg (sr_lossPerVolume (calculatePositionSizing input))"
  by (auto simp: calculatePositionSizing_def Let_def finite_finiteNonNegative nonneg_finiteNonNegative intro!: nonneg_add nonneg_mul)

lemma targetRisk_sign:
  "sr_targetRisk (calculatePositionSizing input) = NaN \<or> nonneg (sr_targetRisk (calculatePositionSizing input))"
  unfolding calculatePositionSizing_def Let_def by (simp add: riskAmount_sign)

text \<open>The quotient of two overflows, the only way to a volume that is not a number.\<close>

definition overflows :: "sizing_input \<Rightarrow> bool" where
  "overflows input \<longleftrightarrow> sr_targetRisk (calculatePositionSizing input) = PInf \<and> sr_lossPerVolume (calculatePositionSizing input) = PInf"

lemma raw_nonneg: "\<not> overflows input \<Longrightarrow> nonneg (sr_rawVolume (calculatePositionSizing input))"
  using targetRisk_sign [of input] loss_nonneg [of input]
  by (auto simp: raw_eq [of input] overflows_def Let_def js_lt_def intro!: nonneg_div_inf)

lemma cap_nonneg: "nonneg (volumeCap input)"
  by (auto simp: volumeCap_def marginMax_def DEFAULT_MAX_VOLUME_def intro!: nonneg_min nonneg_finitePositive nonneg_finiteMax)

lemma cap_le_margin: "volumeCap input \<le> marginMax input"
proof -
  have "marginMax input \<noteq> NaN" "finitePositive (vr_max (rulesOf input)) DEFAULT_MAX_VOLUME \<noteq> NaN"
    by (auto simp: marginMax_def finiteMax_def finitePositive_def DEFAULT_MAX_VOLUME_def js_isFinite_def split: option.splits)
  then show ?thesis by (simp add: volumeCap_def js_min_def)
qed

lemma requestedVolume_nonneg: assumes "\<not> overflows input" shows "nonneg (requestedVolume input)"
  using nonneg_min [OF raw_nonneg [OF assms] cap_nonneg [of input]]
  by (auto simp: requestedVolume_def manualVolume_def nonneg_def js_le_def js_lt_def split: option.splits)

lemma normalized_below_cap:
  assumes "nonneg cap"
  shows "normalizePositionVolume v (rules\<lparr>vr_max := Some cap\<rparr>) = Fin 0
    \<or> (\<exists>b. js_lt (Fin 0) b \<and> b \<le> cap \<and> normalizePositionVolume v (rules\<lparr>vr_max := Some cap\<rparr>) = floorToStep b (finitePositive (vr_step rules) DEFAULT_VOLUME_STEP))"
proof -
  have cap: "finiteMax (Some cap) DEFAULT_MAX_VOLUME = cap" "cap \<noteq> NaN"
    using assms by (auto simp: finiteMax_def nonneg_iff)
  let ?min = "finitePositive (vr_min rules) DEFAULT_MIN_VOLUME"
  define b where "b = (if js_lt v ?min then (if vr_clampToMin rules \<noteq> Some False then ?min else Fin 0) else v)"
  define b' where "b' = (if js_lt cap b then cap else b)"
  have eq: "normalizePositionVolume v (rules\<lparr>vr_max := Some cap\<rparr>) = (if \<not> js_isFinite v \<or> js_le v (Fin 0) \<or> js_le b' (Fin 0) then Fin 0
      else floorToStep b' (finitePositive (vr_step rules) DEFAULT_VOLUME_STEP))"
    by (simp add: normalizePositionVolume_def Let_def cap(1) b_def b'_def)
  show ?thesis
  proof (cases "\<not> js_isFinite v \<or> js_le v (Fin 0) \<or> js_le b' (Fin 0)")
    case True
    then show ?thesis unfolding eq by simp
  next
    case False
    then have "b \<noteq> NaN" by (auto simp: b_def finitePositive_def DEFAULT_MIN_VOLUME_def js_isFinite_def split: option.splits)
    then have "b' \<le> cap" "b' \<noteq> NaN" using cap(2) by (auto simp: b'_def js_lt_def not_less)
    moreover have "js_lt (Fin 0) b'" using False \<open>b' \<noteq> NaN\<close> by (auto simp: js_lt_def js_le_def)
    moreover have "normalizePositionVolume v (rules\<lparr>vr_max := Some cap\<rparr>) = floorToStep b' (finitePositive (vr_step rules) DEFAULT_VOLUME_STEP)"
      unfolding eq using False by simp
    ultimately show ?thesis by blast
  qed
qed

subsection \<open>Properties\<close>

text \<open>
  C28.  Sizing is robust against bad input, NaN, infinities and negatives included, for any account, prices, precision and volume
  rules.  The reported risk is never negative and always a number.  So is the volume, with one exception: when lot rounding
  is off and both the target risk and the loss per volume unit overflow to infinity, a derived volume is zero or not a number.
  Without a usable stop distance or a positive risk the derived volume is zero.  With lot rounding, the default, the volume is
  zero or the lot-step floor of an amount that respects the margin cap, also for a volume entered by hand; without it, a
  derived volume itself respects the cap.
\<close>

theorem calculatePositionSizing_robust:
  "let r = calculatePositionSizing input in
    js_le (Fin 0) (sr_actualRisk r)
    \<and> (if overflows input \<and> si_normalizeVolume input = Some False \<and> \<not> manualVolume input then sr_volume r \<in> {NaN, Fin 0}
       else js_le (Fin 0) (sr_volume r))
    \<and> (\<not> manualVolume input \<and> (\<not> js_lt (Fin 0) (sr_stopDistance r) \<or> \<not> js_lt (Fin 0) (sr_targetRisk r)) \<longrightarrow> sr_volume r = Fin 0)
    \<and> (si_normalizeVolume input \<noteq> Some False \<longrightarrow>
         sr_volume r = Fin 0
         \<or> (\<exists>b. js_lt (Fin 0) b \<and> b \<le> marginMax input
              \<and> sr_volume r = floorToStep b (finitePositive (vr_step (rulesOf input)) DEFAULT_VOLUME_STEP)))
    \<and> (si_normalizeVolume input = Some False \<and> \<not> manualVolume input \<and> \<not> overflows input \<longrightarrow> sr_volume r \<le> marginMax input)"
proof -
  define r where "r = calculatePositionSizing input"
  note vol = volume_eq [of input, folded r_def]
  have over: "sr_volume r = NaN" if "overflows input" "si_normalizeVolume input = Some False" "\<not> manualVolume input" "sr_rawVolume r \<noteq> Fin 0"
  proof -
    have "sr_rawVolume r = NaN" using that(1,4) raw_eq [of input] by (auto simp: overflows_def r_def Let_def split: if_splits)
    then show ?thesis using that(2,3) vol by (simp add: requestedVolume_def r_def js_min_def js_max_def)
  qed
  have rq0: "js_max (Fin 0) (requestedVolume input) = requestedVolume input" if "nonneg (requestedVolume input)"
    using that by (auto simp: nonneg_iff js_max_def max_def)
  have man: "nonneg (requestedVolume input)" if "manualVolume input"
    using that by (auto simp: requestedVolume_def manualVolume_def nonneg_def js_le_def js_lt_def split: option.splits)
  have zeroq: "sr_volume r = Fin 0" if "\<not> manualVolume input" "sr_rawVolume r = Fin 0"
  proof -
    have "requestedVolume input = Fin 0" using that cap_nonneg [of input] by (auto simp: requestedVolume_def r_def nonneg_iff js_min_def min_def)
    then show ?thesis using vol by (simp add: normalizePositionVolume_def js_max_def)
  qed
  have v: "nonneg (sr_volume r)" if "si_normalizeVolume input \<noteq> Some False \<or> manualVolume input \<or> \<not> overflows input"
    using that vol requestedVolume_nonneg [of input] man rq0 nonneg_normalizeVolume by (cases "si_normalizeVolume input = Some False") auto
  have a: "nonneg (sr_actualRisk r)"
  proof (cases "js_isFinite (js_mul (sr_volume r) (sr_lossPerVolume r))")
    case True
    then have "sr_volume r \<noteq> NaN" by auto
    then have "nonneg (sr_volume r)" using v over zeroq by (metis nonneg_Fin(1) order_refl)
    then have "nonneg (js_mul (sr_volume r) (sr_lossPerVolume r))"
      using True loss_nonneg [of input] unfolding r_def [symmetric]
      by (auto simp: nonneg_iff [of "sr_volume r"] nonneg_iff [of "sr_lossPerVolume r"] js_inf_signed_def nonneg_f64)
    then show ?thesis using risk_eq [of input] by (simp add: r_def [symmetric] roundMoney_nonneg)
  qed (use risk_eq [of input] in \<open>simp add: r_def [symmetric] roundMoney_def\<close>)
  have zero: "sr_volume r = Fin 0" if "\<not> manualVolume input" "\<not> js_lt (Fin 0) (sr_stopDistance r) \<or> \<not> js_lt (Fin 0) (sr_targetRisk r)"
    using zeroq [OF that(1)] raw_eq [of input] that(2) by (auto simp: r_def [symmetric] Let_def)
  have lots: "sr_volume r = Fin 0 \<or> (\<exists>b. js_lt (Fin 0) b \<and> b \<le> marginMax input
      \<and> sr_volume r = floorToStep b (finitePositive (vr_step (rulesOf input)) DEFAULT_VOLUME_STEP))"
    if "si_normalizeVolume input \<noteq> Some False"
    using normalized_below_cap [OF cap_nonneg [of input], of "requestedVolume input" "rulesOf input"] cap_le_margin [of input] that
    unfolding vol by (metis order_trans)
  have cap: "sr_volume r \<le> marginMax input"
    if "si_normalizeVolume input = Some False" "\<not> manualVolume input" "\<not> overflows input"
  proof -
    have "requestedVolume input \<le> volumeCap input"
      using that(2) raw_nonneg [OF that(3)] cap_nonneg [of input] by (auto simp: requestedVolume_def js_min_def nonneg_iff)
    then show ?thesis using that vol rq0 [OF requestedVolume_nonneg [OF that(3)]] cap_le_margin [of input] by simp
  qed
  show ?thesis using v a zero lots cap over zeroq unfolding Let_def r_def [symmetric] nonneg_def by (simp split: if_splits) metis
qed

theorem calculatePositionSizing_robust_witness:
  "sr_volume (calculatePositionSizing
     \<lparr>si_accountSize = NaN, si_riskValue = Fin 1, si_riskMode = None, si_stopDistance = NInf, si_targetDistance = None,
      si_lossPerPriceUnit = Fin 1, si_profitPerPriceUnit = None, si_commissionPerVolumePerSide = None,
      si_volume = None, si_volumeRules = None, si_maxVolume = None, si_normalizeVolume = None,
      si_moneyPrecision = None, si_rewardRounding = None\<rparr>) = Fin 0"
  using calculatePositionSizing_robust [of "\<lparr>si_accountSize = NaN, si_riskValue = Fin 1, si_riskMode = None,
      si_stopDistance = NInf, si_targetDistance = None,
      si_lossPerPriceUnit = Fin 1, si_profitPerPriceUnit = None, si_commissionPerVolumePerSide = None,
      si_volume = None, si_volumeRules = None, si_maxVolume = None, si_normalizeVolume = None,
      si_moneyPrecision = None, si_rewardRounding = None\<rparr>"]
  by (simp add: Let_def manualVolume_def) (simp add: calculatePositionSizing_def Let_def finiteNonNegative_def)

end
