(* ===== verification/TradeSim.thy ===== *)
theory TradeSim
  imports PositionSizing CandleSeries
begin

section \<open>The trade simulator\<close>

text \<open>
  Models \<open>services/tradeEngine.ts\<close> (risk and P/L arithmetic, order and exit triggers) and
  \<open>store/tradeStore.ts\<close>: the simulator's state as one record, every write atom as a function on it, the
  journal it appends to, and the debounced remote synchronisation (the timers of \<open>pendingRemoteSync\<close> and the
  per-account promise chains of \<open>remoteSyncQueues\<close>, a chain being the list of its unsettled tasks).
  The strings \<open>uid\<close> returns during an operation are an argument: \<open>uid k\<close> is the result of its \<open>k\<close>-th
  call.  Log messages are not modelled.  A position's \<open>fills\<close> array is shared between its successive copies in
  the source; every operation that pushes onto it also replaces the position list, so values describe the store.

  The lemmas show the life cycle of a position, that closing everything leaves nothing open, and that the
  last write scheduled for a position always carries its current version.
\<close>

subsection \<open>Data\<close>

datatype side = Long | Short
datatype order_type = MarketOrder | LimitOrder | StopOrder
datatype position_status = SPending | SOpen | SClosed | SCancelled
datatype fill_kind = FOpen | FPartial | FClose

record order_request =
  or_symbol :: string
  or_side :: side
  or_type :: order_type
  or_price :: "jsnum option"
  or_stopLoss :: "jsnum option"
  or_takeProfit :: "jsnum option"
  or_riskPct :: "jsnum option"
  or_quantity :: "jsnum option"
  or_notes :: "string option"

record fill =
  fl_time :: jsnum
  fl_price :: jsnum
  fl_quantity :: jsnum
  fl_kind :: fill_kind

record position =
  ps_id :: string
  ps_symbol :: string
  ps_side :: side
  ps_type :: order_type
  ps_status :: position_status
  ps_entry :: jsnum
  ps_quantity :: jsnum
  ps_remaining :: jsnum
  ps_stopLoss :: "jsnum option"
  ps_takeProfit :: "jsnum option"
  ps_riskPct :: "jsnum option"
  ps_riskAmount :: jsnum
  ps_openTime :: jsnum
  ps_closeTime :: "jsnum option"
  ps_realizedPnl :: jsnum
  ps_unrealizedPnl :: jsnum
  ps_fills :: "fill list"
  ps_notes :: "string option"

record order_prefill =
  pf_side :: "side option"
  pf_type :: "order_type option"
  pf_price :: "jsnum option"
  pf_stopLoss :: "jsnum option"
  pf_takeProfit :: "jsnum option"
  pf_riskPct :: "jsnum option"
  pf_riskPctIsDefault :: "bool option"
  pf_quantity :: "jsnum option"
  pf_drawingId :: "string option"
  pf_source :: "string option"

record risk_metrics =
  rm_positionSize :: jsnum
  rm_riskPct :: jsnum
  rm_riskAmount :: jsnum
  rm_rewardAmount :: jsnum
  rm_riskReward :: jsnum

record journal_entry =
  je_id :: string
  je_symbol :: string
  je_side :: side
  je_entryTime :: jsnum
  je_exitTime :: jsnum
  je_entryPrice :: jsnum
  je_exitPrice :: jsnum
  je_quantity :: jsnum
  je_pnl :: jsnum
  je_rr :: jsnum
  je_riskAmount :: jsnum
  je_notes :: "string option"

record sim_account =
  sa_id :: string
  sa_name :: string
  sa_startingEquity :: jsnum
  sa_equity :: jsnum
  sa_currency :: string
  sa_createdAt :: string
  sa_updatedAt :: string

text \<open>A task of an account's promise chain: a position write or an account reset.\<close>

datatype remote_task = Upsert position | ResetAccount

record trade_state =
  t_equity :: jsnum
  t_startingEquity :: jsnum
  t_positions :: "position list"
  t_account :: "sim_account option"
  t_owner :: "string option"
  t_hydrated :: bool
  t_mutationVersion :: nat
  t_price :: jsnum
  t_time :: jsnum
  t_symbol :: string
  t_prefillVersion :: nat
  t_prefill :: "(order_prefill \<times> nat) option"
  t_pendingSync :: "(string, string \<times> position) js_map"
  t_queues :: "(string, remote_task list) js_map"
  t_sent :: "(string \<times> position) list"
  t_journal :: "journal_entry list"

definition STARTING_EQUITY :: jsnum where
  "STARTING_EQUITY = Fin 10000"

definition initTrade :: trade_state where
  "initTrade = \<lparr>t_equity = STARTING_EQUITY, t_startingEquity = STARTING_EQUITY, t_positions = [],
     t_account = None, t_owner = None, t_hydrated = False, t_mutationVersion = 0, t_price = Fin 0, t_time = Fin 0,
     t_symbol = [], t_prefillVersion = 0, t_prefill = None, t_pendingSync = [], t_queues = [], t_sent = [], t_journal = []\<rparr>"

subsection \<open>The trade engine\<close>

definition dirSign :: "side \<Rightarrow> jsnum" where
  "dirSign s = (if s = Long then Fin 1 else Fin (- 1))"

definition finiteOr :: "jsnum option \<Rightarrow> jsnum \<Rightarrow> jsnum" where
  "finiteOr v d = (case v of Some x \<Rightarrow> if js_isFinite x then x else d | None \<Rightarrow> d)"

definition finiteOpt :: "jsnum option \<Rightarrow> jsnum option" where
  "finiteOpt v = (case v of Some x \<Rightarrow> if js_isFinite x then Some x else None | None \<Rightarrow> None)"

definition lit_001 :: jsnum where
  "lit_001 = f64 (1 / 100)"

definition lit_1e9 :: jsnum where
  "lit_1e9 = f64 (1 / 10 ^ 9)"

definition computeRisk :: "order_request \<Rightarrow> jsnum \<Rightarrow> jsnum \<Rightarrow> risk_metrics" where
  "computeRisk order entryPrice equity =
     (let entry = finiteOr (or_price order) (finiteOr (Some entryPrice) (Fin 0));
          riskPct = finiteOr (or_riskPct order) (Fin 1);
          accountEquity = finiteOr (Some equity) (Fin 0);
          riskAmount = js_div (js_mul accountEquity riskPct) (Fin 100);
          stopLoss = finiteOpt (or_stopLoss order);
          takeProfit = finiteOpt (or_takeProfit order);
          stopDist = (case stopLoss of
              Some sl \<Rightarrow> if js_lt (Fin 0) entry then js_abs (js_sub entry sl) else Fin 0 | None \<Rightarrow> Fin 0);
          rewardDist = (case takeProfit of
              Some tp \<Rightarrow> if js_lt (Fin 0) entry then js_abs (js_sub tp entry) else Fin 0 | None \<Rightarrow> Fin 0);
          positionSize =
            (case finiteOpt (or_quantity order) of
               Some q \<Rightarrow> q
             | None \<Rightarrow>
                 if js_lt (Fin 0) stopDist
                 then sr_volume (calculatePositionSizing
                   \<lparr>si_accountSize = accountEquity, si_riskValue = riskPct, si_riskMode = Some RiskPercent,
                    si_stopDistance = stopDist, si_targetDistance = Some rewardDist, si_lossPerPriceUnit = Fin 1,
                    si_profitPerPriceUnit = Some (Fin 1), si_commissionPerVolumePerSide = None, si_volume = None,
                    si_volumeRules = None, si_maxVolume = None, si_normalizeVolume = Some False,
                    si_moneyPrecision = Some (Fin 12), si_rewardRounding = None\<rparr>)
                 else if js_lt (Fin 0) entry then js_div riskAmount (js_max (js_mul entry lit_001) lit_1e9)
                 else Fin 0);
          rewardAmount = js_mul rewardDist positionSize;
          realRisk = (if js_lt (Fin 0) stopDist then js_mul stopDist positionSize else riskAmount);
          riskReward = (if js_lt (Fin 0) realRisk then js_div rewardAmount realRisk else Fin 0)
      in \<lparr>rm_positionSize = positionSize, rm_riskPct = riskPct,
          rm_riskAmount = (if js_lt (Fin 0) stopDist then js_mul stopDist positionSize else riskAmount),
          rm_rewardAmount = rewardAmount, rm_riskReward = riskReward\<rparr>)"

definition unrealized :: "position \<Rightarrow> jsnum \<Rightarrow> jsnum" where
  "unrealized pos price = js_mul (js_mul (js_sub price (ps_entry pos)) (ps_remaining pos)) (dirSign (ps_side pos))"

definition realizedFor :: "position \<Rightarrow> jsnum \<Rightarrow> jsnum \<Rightarrow> jsnum" where
  "realizedFor pos price qty = js_mul (js_mul (js_sub price (ps_entry pos)) qty) (dirSign (ps_side pos))"

definition rMultiple :: "jsnum \<Rightarrow> jsnum \<Rightarrow> jsnum" where
  "rMultiple pnl riskAmount = (if js_lt (Fin 0) riskAmount then js_div pnl riskAmount else Fin 0)"

datatype trigger_result = TFill jsnum | TStop jsnum | TTarget jsnum

definition checkPendingTrigger :: "position \<Rightarrow> market_candle \<Rightarrow> trigger_result option" where
  "checkPendingTrigger pos candle =
     (if ps_status pos \<noteq> SPending \<or> ps_type pos = MarketOrder then None
      else if ps_type pos = LimitOrder then
        (if ps_side pos = Long \<and> js_le (c_low candle) (ps_entry pos) then Some (TFill (ps_entry pos))
         else if ps_side pos = Short \<and> js_le (ps_entry pos) (c_high candle) then Some (TFill (ps_entry pos))
         else None)
      else
        (if ps_side pos = Long \<and> js_le (ps_entry pos) (c_high candle) then Some (TFill (ps_entry pos))
         else if ps_side pos = Short \<and> js_le (c_low candle) (ps_entry pos) then Some (TFill (ps_entry pos))
         else None))"

definition checkExit :: "position \<Rightarrow> market_candle \<Rightarrow> trigger_result option" where
  "checkExit pos candle =
     (if ps_status pos \<noteq> SOpen then None
      else
        let reaches = (\<lambda>level test. case level of Some l \<Rightarrow> if test l then Some l else None | None \<Rightarrow> None);
            sl = reaches (ps_stopLoss pos)
              (\<lambda>l. if ps_side pos = Long then js_le (c_low candle) l else js_le l (c_high candle));
            tp = reaches (ps_takeProfit pos)
              (\<lambda>l. if ps_side pos = Long then js_le l (c_high candle) else js_le (c_low candle) l)
        in case sl of Some l \<Rightarrow> Some (TStop l)
           | None \<Rightarrow> (case tp of Some l \<Rightarrow> Some (TTarget l) | None \<Rightarrow> None))"

fun triggerPrice :: "trigger_result \<Rightarrow> jsnum" where
  "triggerPrice (TFill p) = p"
| "triggerPrice (TStop p) = p"
| "triggerPrice (TTarget p) = p"

subsection \<open>The journal\<close>

text \<open>\<open>journalize\<close>: the entry of a closed position, prepended by \<open>addJournalEntryAtom\<close>.\<close>

definition journalEntry :: "string \<Rightarrow> position \<Rightarrow> journal_entry" where
  "journalEntry jid p =
     (let closeFills = filter (\<lambda>f. fl_kind f \<noteq> FOpen) (ps_fills p);
          total = fold (\<lambda>f s. js_add s (js_abs (fl_quantity f))) closeFills (Fin 0);
          exitQty = (if js_truthy total then total else ps_quantity p);
          exitPrice = js_div (fold (\<lambda>f s. js_add s (js_mul (fl_price f) (js_abs (fl_quantity f)))) closeFills (Fin 0))
                        (if js_truthy exitQty then exitQty else Fin 1)
      in \<lparr>je_id = jid, je_symbol = ps_symbol p, je_side = ps_side p, je_entryTime = ps_openTime p,
          je_exitTime = (case ps_closeTime p of Some t \<Rightarrow> t | None \<Rightarrow> ps_openTime p),
          je_entryPrice = ps_entry p, je_exitPrice = exitPrice, je_quantity = ps_quantity p,
          je_pnl = ps_realizedPnl p, je_rr = rMultiple (ps_realizedPnl p) (ps_riskAmount p),
          je_riskAmount = ps_riskAmount p, je_notes = ps_notes p\<rparr>)"

definition journalize :: "string \<Rightarrow> position \<Rightarrow> trade_state \<Rightarrow> trade_state" where
  "journalize jid p st =
     (if ps_status p \<noteq> SClosed then st else st\<lparr>t_journal := journalEntry jid p # t_journal st\<rparr>)"

subsection \<open>Remote synchronisation\<close>

definition enqueueRemote :: "string \<Rightarrow> remote_task \<Rightarrow> trade_state \<Rightarrow> trade_state" where
  "enqueueRemote accountId task st =
     (let previous = (case map_get (t_queues st) accountId of Some q \<Rightarrow> q | None \<Rightarrow> [])
      in st\<lparr>t_queues := map_set accountId (previous @ [task]) (t_queues st)\<rparr>)"

text \<open>The head task of an account's chain settles; the map entry goes with the last one.\<close>

definition settleQueue :: "string \<Rightarrow> trade_state \<Rightarrow> trade_state" where
  "settleQueue accountId st =
     (case map_get (t_queues st) accountId of
        Some (task # rest) \<Rightarrow>
          st\<lparr>t_queues := (if rest = [] then map_delete accountId (t_queues st)
                          else map_set accountId rest (t_queues st))\<rparr>
      | _ \<Rightarrow> st)"

definition syncKey :: "string \<Rightarrow> string \<Rightarrow> string" where
  "syncKey accountId positionId = accountId @ '':'' @ positionId"

definition startsWith :: "string \<Rightarrow> string \<Rightarrow> bool" where
  "startsWith s pre \<longleftrightarrow> take (length pre) s = pre"

definition cancelDebouncedSync :: "string \<Rightarrow> trade_state \<Rightarrow> trade_state" where
  "cancelDebouncedSync accountId st =
     st\<lparr>t_pendingSync := filter (\<lambda>(key, _). \<not> startsWith key (accountId @ '':'')) (t_pendingSync st)\<rparr>"

text \<open>The body \<open>run\<close> of a synchronisation: the timer is forgotten, the write joins the account's chain.\<close>

definition runSync :: "string \<Rightarrow> position \<Rightarrow> trade_state \<Rightarrow> trade_state" where
  "runSync accountId p st =
     enqueueRemote accountId (Upsert p)
       (st\<lparr>t_pendingSync := map_delete (syncKey accountId (ps_id p)) (t_pendingSync st)\<rparr>)"

text \<open>A timer that is replaced is cleared first, so a key has one pending write, the newest.\<close>

definition syncPosition :: "string option \<Rightarrow> position \<Rightarrow> bool \<Rightarrow> trade_state \<Rightarrow> trade_state" where
  "syncPosition accountId p immediate st =
     (case accountId of
        None \<Rightarrow> st
      | Some a \<Rightarrow>
          if a = [] then st
          else if immediate then runSync a p st
          else st\<lparr>t_pendingSync := map_set (syncKey a (ps_id p)) (a, p) (t_pendingSync st)\<rparr>)"

text \<open>The 500 ms timer of one pending write fires, with the account and position its closure captured.\<close>

definition fireSync :: "string \<Rightarrow> trade_state \<Rightarrow> trade_state" where
  "fireSync key st =
     (case map_get (t_pendingSync st) key of Some (a, p) \<Rightarrow> runSync a p st | None \<Rightarrow> st)"

text \<open>
  The write at the head of an account's chain is answered.  \<open>t_sent\<close> observes the calls of
  \<open>upsertSimPosition\<close> in order; it is not a field of the source.
\<close>

definition finishUpsert :: "string \<Rightarrow> bool \<Rightarrow> trade_state \<Rightarrow> trade_state" where
  "finishUpsert accountId ok st =
     (case map_get (t_queues st) accountId of
        Some (Upsert p # _) \<Rightarrow>
          settleQueue accountId
            (st\<lparr>t_sent := t_sent st @ [(accountId, p)],
                t_mutationVersion := (if ok then t_mutationVersion st + 1 else t_mutationVersion st)\<rparr>)
      | _ \<Rightarrow> st)"

subsection \<open>The write atoms\<close>

text \<open>The two halves of the loop body of \<open>setTradeMarketAtom\<close>.\<close>

definition fillPending :: "market_candle \<Rightarrow> position \<Rightarrow> position" where
  "fillPending candle p =
     (if ps_status p = SPending then
        (case checkPendingTrigger p candle of
           Some (TFill price) \<Rightarrow>
             p\<lparr>ps_status := SOpen, ps_openTime := c_time candle,
               ps_fills := ps_fills p @ [\<lparr>fl_time = c_time candle, fl_price = price,
                                          fl_quantity = ps_quantity p, fl_kind = FOpen\<rparr>]\<rparr>
         | _ \<Rightarrow> p)
      else p)"

definition exitOrMark :: "market_candle \<Rightarrow> position \<Rightarrow> position \<times> jsnum option" where
  "exitOrMark candle p =
     (if ps_status p = SOpen then
        (case checkExit p candle of
           Some trig \<Rightarrow>
             let pnl = realizedFor p (triggerPrice trig) (ps_remaining p)
             in (p\<lparr>ps_realizedPnl := js_add (ps_realizedPnl p) pnl,
                   ps_fills := ps_fills p @ [\<lparr>fl_time = c_time candle, fl_price = triggerPrice trig,
                                              fl_quantity = js_neg (ps_remaining p), fl_kind = FClose\<rparr>],
                   ps_remaining := Fin 0, ps_status := SClosed, ps_closeTime := Some (c_time candle),
                   ps_unrealizedPnl := Fin 0\<rparr>, Some pnl)
         | None \<Rightarrow> (p\<lparr>ps_unrealizedPnl := unrealized p (c_close candle)\<rparr>, None))
      else (p, None))"

definition marketPosition :: "market_candle \<Rightarrow> position \<Rightarrow> position \<times> jsnum option" where
  "marketPosition candle p = exitOrMark candle (fillPending candle p)"

definition journalizeAll :: "(nat \<Rightarrow> string) \<Rightarrow> position list \<Rightarrow> trade_state \<Rightarrow> trade_state" where
  "journalizeAll uid justClosed st =
     fold (\<lambda>(k, p). journalize (uid k) p) (zip [0..<length justClosed] justClosed) st"

definition setTradeMarket ::
  "(nat \<Rightarrow> string) \<Rightarrow> string \<Rightarrow> market_candle \<Rightarrow> trade_state \<Rightarrow> trade_state" where
  "setTradeMarket uid symbol candle st =
     (let results = map (marketPosition candle) (t_positions st);
          equityDelta = fold (\<lambda>(_, pnl) d. case pnl of Some x \<Rightarrow> js_add d x | None \<Rightarrow> d) results (Fin 0);
          justClosed = map fst (filter (\<lambda>(_, pnl). pnl \<noteq> None) results);
          st1 = journalizeAll uid justClosed st;
          st2 = st1\<lparr>t_symbol := symbol, t_price := c_close candle, t_time := c_time candle,
                    t_positions := map fst results, t_equity := js_add (t_equity st1) equityDelta\<rparr>;
          accountId = map_option sa_id (t_account st2)
      in fold (\<lambda>(p, pnl) s.
           if ps_status p = SOpen \<or> ps_status p = SPending \<or> pnl \<noteq> None
           then syncPosition accountId p (ps_status p = SClosed) s else s) results st2)"

definition newPosition :: "string \<Rightarrow> order_request \<Rightarrow> jsnum \<Rightarrow> trade_state \<Rightarrow> position" where
  "newPosition pid order entryPrice st =
     (let price = t_price st; time = t_time st;
          risk = computeRisk order price (t_equity st);
          isMarket = (or_type order = MarketOrder)
      in \<lparr>ps_id = pid, ps_symbol = (if or_symbol order = [] then t_symbol st else or_symbol order),
          ps_side = or_side order, ps_type = or_type order,
          ps_status = (if isMarket then SOpen else SPending),
          ps_entry = (if isMarket then price else entryPrice),
          ps_quantity = rm_positionSize risk, ps_remaining = rm_positionSize risk,
          ps_stopLoss = or_stopLoss order, ps_takeProfit = or_takeProfit order, ps_riskPct = or_riskPct order,
          ps_riskAmount = rm_riskAmount risk, ps_openTime = time, ps_closeTime = None,
          ps_realizedPnl = Fin 0, ps_unrealizedPnl = Fin 0,
          ps_fills = (if isMarket
            then [\<lparr>fl_time = time, fl_price = price, fl_quantity = rm_positionSize risk, fl_kind = FOpen\<rparr>] else []),
          ps_notes = or_notes order\<rparr>)"

definition placeOrder :: "(nat \<Rightarrow> string) \<Rightarrow> order_request \<Rightarrow> trade_state \<Rightarrow> trade_state" where
  "placeOrder uid order st =
     (let entryPrice = (case or_price order of Some p \<Rightarrow> p | None \<Rightarrow> t_price st)
      in if \<not> js_truthy entryPrice then st
         else
           let pos = newPosition (uid 0) order entryPrice st
           in syncPosition (map_option sa_id (t_account st)) pos True
                (st\<lparr>t_positions := pos # t_positions st\<rparr>))"

text \<open>What \<open>closePositionAtom\<close> makes of the position it closes a fraction of, and the profit realised.\<close>

definition closeFraction :: "jsnum \<Rightarrow> jsnum \<Rightarrow> jsnum \<Rightarrow> position \<Rightarrow> position \<times> jsnum" where
  "closeFraction price time fraction p =
     (let qty = js_min (ps_remaining p) (js_mul (ps_remaining p) fraction);
          pnl = realizedFor p price qty;
          remaining = js_sub (ps_remaining p) qty;
          p1 = p\<lparr>ps_realizedPnl := js_add (ps_realizedPnl p) pnl, ps_remaining := remaining,
                 ps_fills := ps_fills p @ [\<lparr>fl_time = time, fl_price = price, fl_quantity = js_neg qty,
                   fl_kind = (if js_lt lit_1e9 remaining then FPartial else FClose)\<rparr>]\<rparr>
      in (if js_le remaining lit_1e9
          then p1\<lparr>ps_remaining := Fin 0, ps_status := SClosed, ps_closeTime := Some time, ps_unrealizedPnl := Fin 0\<rparr>
          else p1\<lparr>ps_unrealizedPnl := unrealized p1 price\<rparr>, pnl))"

text \<open>Assigning to the fields of the object \<open>find\<close> returned changes the first element with that id.\<close>

fun replaceFirst :: "('a \<Rightarrow> bool) \<Rightarrow> 'a \<Rightarrow> 'a list \<Rightarrow> 'a list" where
  "replaceFirst q y [] = []"
| "replaceFirst q y (x # xs) = (if q x then y # xs else x # replaceFirst q y xs)"

definition closePosition ::
  "(nat \<Rightarrow> string) \<Rightarrow> string \<Rightarrow> jsnum option \<Rightarrow> trade_state \<Rightarrow> trade_state" where
  "closePosition uid pid fraction st =
     (case find (\<lambda>x. ps_id x = pid) (t_positions st) of
        None \<Rightarrow> st
      | Some p \<Rightarrow>
          if ps_status p \<noteq> SOpen then st
          else
            let (p', pnl) = closeFraction (t_price st) (t_time st) (case fraction of Some f \<Rightarrow> f | None \<Rightarrow> Fin 1) p;
                st1 = journalize (uid 0) p' st;
                st2 = st1\<lparr>t_positions := replaceFirst (\<lambda>x. ps_id x = pid) p' (t_positions st1),
                          t_equity := js_add (t_equity st1) pnl\<rparr>
            in syncPosition (map_option sa_id (t_account st2)) p' True st2)"

definition cancelPending :: "string \<Rightarrow> trade_state \<Rightarrow> trade_state" where
  "cancelPending pid st =
     (let hit = (\<lambda>p. ps_id p = pid \<and> ps_status p = SPending);
          cancelled = map (\<lambda>p. p\<lparr>ps_status := SCancelled\<rparr>) (filter hit (t_positions st));
          st1 = st\<lparr>t_positions := map (\<lambda>p. if hit p then p\<lparr>ps_status := SCancelled\<rparr> else p) (t_positions st)\<rparr>
      in if cancelled = [] then st1
         else syncPosition (map_option sa_id (t_account st1)) (last cancelled) True st1)"

text \<open>Each close of the loop calls \<open>uid\<close> at most once.\<close>

definition closeAll :: "(nat \<Rightarrow> string) \<Rightarrow> trade_state \<Rightarrow> trade_state" where
  "closeAll uid st =
     (let ids = map ps_id (filter (\<lambda>p. ps_status p = SOpen) (t_positions st))
      in fold (\<lambda>(k, pid). closePosition (\<lambda>_. uid k) pid (Some (Fin 1))) (zip [0..<length ids] ids) st)"

definition resetTrade :: "trade_state \<Rightarrow> trade_state" where
  "resetTrade st = st\<lparr>t_positions := [], t_equity := t_startingEquity st, t_price := Fin 0, t_time := Fin 0,
     t_symbol := [], t_prefill := None, t_prefillVersion := t_prefillVersion st + 1\<rparr>"

definition resetPersistedTrade :: "trade_state \<Rightarrow> trade_state" where
  "resetPersistedTrade st =
     (let st1 = resetTrade st
      in case t_account st of
           None \<Rightarrow> st1
         | Some account \<Rightarrow> enqueueRemote (sa_id account) ResetAccount (cancelDebouncedSync (sa_id account) st1))"

text \<open>The remote answers the reset at the head of the chain, with the updated account or an error.\<close>

definition finishReset :: "string \<Rightarrow> sim_account option \<Rightarrow> trade_state \<Rightarrow> trade_state" where
  "finishReset accountId updated st =
     (case map_get (t_queues st) accountId of
        Some (ResetAccount # _) \<Rightarrow>
          (let st1 = settleQueue accountId st
           in case updated of
                None \<Rightarrow> st1
              | Some acc \<Rightarrow> st1\<lparr>t_account := Some acc, t_mutationVersion := t_mutationVersion st1 + 1\<rparr>)
      | _ \<Rightarrow> st)"

definition applyRemoteSimTrading :: "string \<Rightarrow> sim_account \<Rightarrow> position list \<Rightarrow> trade_state \<Rightarrow> trade_state" where
  "applyRemoteSimTrading ownerId account positions st =
     st\<lparr>t_owner := Some ownerId, t_account := Some account, t_startingEquity := sa_startingEquity account,
        t_equity := sa_equity account, t_positions := positions, t_hydrated := True\<rparr>"

definition clearRemoteSimTrading :: "trade_state \<Rightarrow> trade_state" where
  "clearRemoteSimTrading st =
     (let st1 = (case t_account st of Some account \<Rightarrow> cancelDebouncedSync (sa_id account) st | None \<Rightarrow> st);
          st2 = resetTrade (st1\<lparr>t_startingEquity := STARTING_EQUITY\<rparr>)
      in st2\<lparr>t_account := None, t_owner := None, t_hydrated := False\<rparr>)"

definition setOrderPrefill :: "order_prefill \<Rightarrow> trade_state \<Rightarrow> trade_state" where
  "setOrderPrefill prefill st =
     (let version = t_prefillVersion st + 1
      in st\<lparr>t_prefillVersion := version, t_prefill := Some (prefill, version)\<rparr>)"

text \<open>The trading operations of a session, in any order; a placed order's \<open>uid\<close> is new to the list.\<close>

inductive trade_step :: "trade_state \<Rightarrow> trade_state \<Rightarrow> bool" where
  step_market: "trade_step st (setTradeMarket uid symbol candle st)"
| step_place: "uid 0 \<notin> ps_id ` set (t_positions st) \<Longrightarrow> trade_step st (placeOrder uid order st)"
| step_close: "trade_step st (closePosition uid pid fraction st)"
| step_cancel: "trade_step st (cancelPending pid st)"
| step_closeAll: "trade_step st (closeAll uid st)"
| step_prefill: "trade_step st (setOrderPrefill prefill st)"
| step_fire: "trade_step st (fireSync key st)"
| step_finish: "trade_step st (finishUpsert accountId ok st)"

text \<open>
  All operations of the simulator: beside the trading operations and the answer to a remote reset, those that drop or
  replace the whole list of positions.  The positions a remote answer brings are the ones this program stored: well formed
  in the sense of \<open>remote_ok\<close> and with distinct ids.
\<close>

inductive session_op :: "trade_state \<Rightarrow> trade_state \<Rightarrow> bool" where
  op_trade: "trade_step st st' \<Longrightarrow> session_op st st'"
| op_finishReset: "session_op st (finishReset accountId updated st)"

inductive sim_step :: "(position \<Rightarrow> bool) \<Rightarrow> trade_state \<Rightarrow> trade_state \<Rightarrow> bool" for remote_ok where
  sim_session: "session_op st st' \<Longrightarrow> sim_step remote_ok st st'"
| sim_reset: "sim_step remote_ok st (resetTrade st)"
| sim_resetPersisted: "sim_step remote_ok st (resetPersistedTrade st)"
| sim_apply: "distinct (map ps_id positions) \<Longrightarrow> list_all remote_ok positions \<Longrightarrow>
    sim_step remote_ok st (applyRemoteSimTrading ownerId account positions st)"
| sim_clear: "sim_step remote_ok st (clearRemoteSimTrading st)"

subsection \<open>Frame facts\<close>

lemma sync_frame [simp]:
  "t_positions (syncPosition a p b st) = t_positions st" "t_journal (syncPosition a p b st) = t_journal st"
  "t_account (syncPosition a p b st) = t_account st" "t_price (syncPosition a p b st) = t_price st"
  "t_time (syncPosition a p b st) = t_time st"
  by (simp_all add: syncPosition_def runSync_def enqueueRemote_def Let_def split: option.splits)

lemma journalize_frame [simp]:
  "t_positions (journalize j p st) = t_positions st" "t_account (journalize j p st) = t_account st"
  "t_price (journalize j p st) = t_price st" "t_time (journalize j p st) = t_time st"
  "t_pendingSync (journalize j p st) = t_pendingSync st" "t_queues (journalize j p st) = t_queues st"
  "t_sent (journalize j p st) = t_sent st"
  by (simp_all add: journalize_def)

lemma journalize_journal:
  "t_journal (journalize j p st) = (if ps_status p = SClosed then [journalEntry j p] else []) @ t_journal st"
  by (simp add: journalize_def)

lemma fold_journalize_frame:
  "t_account (fold (\<lambda>(k, p). journalize (uid k) p) kps st) = t_account st
   \<and> t_pendingSync (fold (\<lambda>(k, p). journalize (uid k) p) kps st) = t_pendingSync st
   \<and> t_queues (fold (\<lambda>(k, p). journalize (uid k) p) kps st) = t_queues st
   \<and> t_sent (fold (\<lambda>(k, p). journalize (uid k) p) kps st) = t_sent st"
  by (induction kps arbitrary: st) auto

lemma journalizeAll_frame [simp]:
  "t_account (journalizeAll uid ps st) = t_account st"
  "t_pendingSync (journalizeAll uid ps st) = t_pendingSync st"
  "t_queues (journalizeAll uid ps st) = t_queues st" "t_sent (journalizeAll uid ps st) = t_sent st"
  by (simp_all add: journalizeAll_def fold_journalize_frame)

lemma fold_journalize_journal:
  "set (t_journal (fold (\<lambda>(k, p). journalize (uid k) p) kps st)) =
     (\<lambda>(k, p). journalEntry (uid k) p) ` {(k, p) \<in> set kps. ps_status p = SClosed} \<union> set (t_journal st)"
  by (induction kps arbitrary: st) (auto simp: journalize_journal)

lemma journalizeAll_entry:
  assumes "p \<in> set ps" "ps_status p = SClosed"
  shows "\<exists>jid. journalEntry jid p \<in> set (t_journal (journalizeAll uid ps st))"
proof -
  obtain k where "k < length ps" "ps ! k = p" using assms(1) by (auto simp: in_set_conv_nth)
  then have "(k, p) \<in> set (zip [0..<length ps] ps)" by (force simp: set_zip)
  then show ?thesis using assms(2) by (force simp: journalizeAll_def fold_journalize_journal)
qed

lemma journalizeAll_grows: "set (t_journal st) \<subseteq> set (t_journal (journalizeAll uid ps st))"
  by (auto simp: journalizeAll_def fold_journalize_journal)

lemma fold_sync_frame:
  "t_positions (fold (\<lambda>(p, pnl) s. if C p pnl then syncPosition a p (B p) s else s) rs st) = t_positions st
   \<and> t_journal (fold (\<lambda>(p, pnl) s. if C p pnl then syncPosition a p (B p) s else s) rs st) = t_journal st
   \<and> t_account (fold (\<lambda>(p, pnl) s. if C p pnl then syncPosition a p (B p) s else s) rs st) = t_account st"
  by (induction rs arbitrary: st) auto

lemma market_frame:
  "t_positions (setTradeMarket uid sb c st) = map (fst \<circ> marketPosition c) (t_positions st)"
  "t_journal (setTradeMarket uid sb c st) =
     t_journal (journalizeAll uid (map fst (filter (\<lambda>(_, pnl). pnl \<noteq> None) (map (marketPosition c) (t_positions st)))) st)"
  "t_account (setTradeMarket uid sb c st) = t_account st"
  by (simp_all add: setTradeMarket_def Let_def fold_sync_frame)

subsection \<open>The life cycle of a position\<close>

definition may_become :: "position_status \<Rightarrow> position_status \<Rightarrow> bool" where
  "may_become s s' \<longleftrightarrow> s = s' \<or> s = SPending \<or> (s = SOpen \<and> s' = SClosed)"

definition position_ok :: "position \<Rightarrow> bool" where
  "position_ok p \<longleftrightarrow>
     (case ps_status p of
        SPending \<Rightarrow> ps_fills p = [] \<and> ps_closeTime p = None \<and> ps_type p \<noteq> MarketOrder
      | SOpen \<Rightarrow> ps_fills p \<noteq> [] \<and> fl_kind (hd (ps_fills p)) = FOpen \<and> ps_closeTime p = None
      | SClosed \<Rightarrow> ps_fills p \<noteq> [] \<and> fl_kind (hd (ps_fills p)) = FOpen \<and> fl_kind (last (ps_fills p)) = FClose
                  \<and> ps_remaining p = Fin 0 \<and> ps_unrealizedPnl p = Fin 0 \<and> ps_closeTime p \<noteq> None
      | SCancelled \<Rightarrow> ps_fills p = [])"

text \<open>How one position may look after more operations.\<close>

definition evolves :: "position \<Rightarrow> position \<Rightarrow> bool" where
  "evolves p p' \<longleftrightarrow>
     ps_id p' = ps_id p \<and> ps_symbol p' = ps_symbol p \<and> ps_side p' = ps_side p \<and> ps_entry p' = ps_entry p
     \<and> ps_quantity p' = ps_quantity p \<and> may_become (ps_status p) (ps_status p')
     \<and> (ps_status p \<in> {SClosed, SCancelled} \<longrightarrow> p' = p) \<and> (position_ok p \<longrightarrow> position_ok p')"

lemma evolves_refl [simp]: "evolves p p"
  by (simp add: evolves_def may_become_def)

lemma evolves_trans: "evolves p q \<Longrightarrow> evolves q r \<Longrightarrow> evolves p r"
  by (cases "ps_status p"; cases "ps_status q") (auto simp: evolves_def may_become_def)

lemma evolves_fillPending: "evolves p (fillPending c p)"
  by (auto simp: fillPending_def evolves_def may_become_def position_ok_def split: option.splits trigger_result.splits)

lemma evolves_exitOrMark: "evolves p (fst (exitOrMark c p))"
proof (cases "ps_status p = SOpen")
  case True
  then show ?thesis
    by (auto simp: exitOrMark_def evolves_def may_become_def position_ok_def Let_def split: option.splits)
qed (simp add: exitOrMark_def)

lemma evolves_market: "evolves p (fst (marketPosition c p))"
  unfolding marketPosition_def by (rule evolves_trans [OF evolves_fillPending evolves_exitOrMark])

lemma market_closes:
  assumes "ps_status (fst (marketPosition c p)) = SClosed" "ps_status p \<noteq> SClosed"
  shows "snd (marketPosition c p) \<noteq> None"
proof -
  have "ps_status (fillPending c p) \<noteq> SClosed"
    using assms(2) by (auto simp: fillPending_def split: option.splits trigger_result.splits)
  then show ?thesis using assms(1) by (auto simp: marketPosition_def exitOrMark_def Let_def split: option.splits if_splits)
qed

lemma js_le_not_lt: "js_le a b \<Longrightarrow> \<not> js_lt b a"
  by (auto simp: js_le_def js_lt_def)

lemma evolves_closeFraction: "ps_status p = SOpen \<Longrightarrow> evolves p (fst (closeFraction price time f p))"
  by (auto simp: closeFraction_def evolves_def may_become_def position_ok_def Let_def js_le_not_lt)

lemma newPosition_ok: "position_ok (newPosition pid order e st)" "ps_id (newPosition pid order e st) = pid"
  "ps_status (newPosition pid order e st) \<noteq> SClosed"
  by (simp_all add: newPosition_def position_ok_def Let_def)

definition journaled :: "trade_state \<Rightarrow> position \<Rightarrow> bool" where
  "journaled st p \<longleftrightarrow> (\<exists>jid. journalEntry jid p \<in> set (t_journal st))"

text \<open>What a run of operations does to a state: older positions evolve in place behind the new ones.\<close>

definition session :: "trade_state \<Rightarrow> trade_state \<Rightarrow> bool" where
  "session st st' \<longleftrightarrow>
     (\<exists>new olds. t_positions st' = new @ olds \<and> list_all2 evolves (t_positions st) olds
        \<and> (\<forall>p \<in> set new. position_ok p \<and> ps_id p \<notin> ps_id ` set (t_positions st)) \<and> distinct (map ps_id new))
     \<and> set (t_journal st) \<subseteq> set (t_journal st')
     \<and> (\<forall>p \<in> set (t_positions st'). ps_status p = SClosed \<longrightarrow> p \<in> set (t_positions st) \<or> journaled st' p)"

lemma evolves_ids: "list_all2 evolves xs ys \<Longrightarrow> map ps_id ys = map ps_id xs"
  by (induction rule: list_all2_induct) (auto simp: evolves_def)

lemma evolves_id_set: "list_all2 evolves xs ys \<Longrightarrow> ps_id ` set ys = ps_id ` set xs"
  by (metis evolves_ids list.set_map)

lemma evolves_ok: "list_all2 evolves xs ys \<Longrightarrow> (\<forall>p \<in> set xs. position_ok p) \<Longrightarrow> (\<forall>p \<in> set ys. position_ok p)"
  by (induction rule: list_all2_induct) (auto simp: evolves_def)

lemma session_inplace:
  assumes "list_all2 evolves (t_positions st) (t_positions st')" "set (t_journal st) \<subseteq> set (t_journal st')"
    and "\<And>p. p \<in> set (t_positions st') \<Longrightarrow> ps_status p = SClosed \<Longrightarrow> p \<in> set (t_positions st) \<or> journaled st' p"
  shows "session st st'"
  unfolding session_def using assms by (intro conjI exI [of _ "[]"] exI [of _ "t_positions st'"]) auto

lemma session_same: "t_positions st' = t_positions st \<Longrightarrow> t_journal st' = t_journal st \<Longrightarrow> session st st'"
  by (rule session_inplace) (auto intro!: list.rel_refl)

lemma session_refl: "session st st"
  by (rule session_same) auto

lemma session_trans: assumes "session s1 s2" "session s2 s3" shows "session s1 s3"
proof -
  obtain n1 o1 where 1: "t_positions s2 = n1 @ o1" "list_all2 evolves (t_positions s1) o1"
    "\<forall>p \<in> set n1. position_ok p \<and> ps_id p \<notin> ps_id ` set (t_positions s1)" "distinct (map ps_id n1)"
    using assms(1) unfolding session_def by blast
  obtain n2 o2 where 2: "t_positions s3 = n2 @ o2" "list_all2 evolves (n1 @ o1) o2"
    "\<forall>p \<in> set n2. position_ok p \<and> ps_id p \<notin> ps_id ` set (n1 @ o1)" "distinct (map ps_id n2)"
    using assms(2) 1(1) unfolding session_def by metis
  obtain m1 m2 where m: "o2 = m1 @ m2" "list_all2 evolves n1 m1" "list_all2 evolves o1 m2"
    using 2(2) by (auto simp: list_all2_append1)
  have ids1: "ps_id ` set o1 = ps_id ` set (t_positions s1)" using evolves_id_set [OF 1(2)] .
  have idm: "map ps_id m1 = map ps_id n1" "ps_id ` set m1 = ps_id ` set n1"
    using evolves_ids [OF m(2)] evolves_id_set [OF m(2)] by auto
  have okm: "\<forall>p \<in> set m1. position_ok p" using evolves_ok [OF m(2)] 1(3) by blast
  have freshm: "ps_id p \<notin> ps_id ` set (t_positions s1)" if "p \<in> set m1" for p
    using that idm(2) 1(3) by (metis (no_types, lifting) imageE image_eqI)
  have "list_all2 evolves (t_positions s1) m2"
    using list_all2_trans [of evolves evolves evolves] evolves_trans 1(2) m(3) by metis
  moreover have "\<forall>p \<in> set (n2 @ m1). position_ok p \<and> ps_id p \<notin> ps_id ` set (t_positions s1)"
    using 2(3) okm freshm by (simp add: image_Un ids1 ball_Un)
  moreover have "distinct (map ps_id (n2 @ m1))"
    using 2(3,4) 1(4) idm by (auto simp: image_iff)
  moreover have "t_positions s3 = (n2 @ m1) @ m2" by (simp add: 2(1) m(1))
  ultimately have "\<exists>new olds. t_positions s3 = new @ olds \<and> list_all2 evolves (t_positions s1) olds
      \<and> (\<forall>p \<in> set new. position_ok p \<and> ps_id p \<notin> ps_id ` set (t_positions s1)) \<and> distinct (map ps_id new)" by blast
  moreover have "set (t_journal s1) \<subseteq> set (t_journal s3)" using assms by (auto simp: session_def)
  moreover have "\<forall>p \<in> set (t_positions s3). ps_status p = SClosed \<longrightarrow> p \<in> set (t_positions s1) \<or> journaled s3 p"
    using assms unfolding session_def journaled_def by blast
  ultimately show ?thesis unfolding session_def by blast
qed

subsection \<open>Every operation continues the session\<close>

lemma session_market: "session st (setTradeMarket uid sb c st)"
proof (rule session_inplace)
  show "list_all2 evolves (t_positions st) (t_positions (setTradeMarket uid sb c st))"
    by (simp add: market_frame list_all2_map2 list.rel_refl_strong evolves_market)
  show "set (t_journal st) \<subseteq> set (t_journal (setTradeMarket uid sb c st))"
    by (simp add: market_frame journalizeAll_grows)
  fix p assume p: "p \<in> set (t_positions (setTradeMarket uid sb c st))" "ps_status p = SClosed"
  then obtain q where q: "q \<in> set (t_positions st)" "p = fst (marketPosition c q)" by (auto simp: market_frame)
  show "p \<in> set (t_positions st) \<or> journaled (setTradeMarket uid sb c st) p"
  proof (cases "ps_status q = SClosed")
    case True
    then have "p = q" using evolves_market [of q c] q(2) by (simp add: evolves_def)
    then show ?thesis using q by simp
  next
    case False
    then have "snd (marketPosition c q) \<noteq> None" using market_closes p(2) q(2) by metis
    then have "marketPosition c q \<in> set (filter (\<lambda>(_, pnl). pnl \<noteq> None) (map (marketPosition c) (t_positions st)))"
      using q(1) by (auto simp: case_prod_beta simp del: split_paired_Ex)
    then have "p \<in> set (map fst (filter (\<lambda>(_, pnl). pnl \<noteq> None) (map (marketPosition c) (t_positions st))))"
      unfolding q(2) list.set_map by (rule imageI)
    then show ?thesis using journalizeAll_entry p(2) unfolding journaled_def market_frame by blast
  qed
qed

lemma session_place:
  assumes "uid 0 \<notin> ps_id ` set (t_positions st)" shows "session st (placeOrder uid order st)"
proof -
  define e where "e = (case or_price order of Some p \<Rightarrow> p | None \<Rightarrow> t_price st)"
  define n where "n = newPosition (uid 0) order e st"
  have n: "position_ok n" "ps_id n = uid 0" "ps_status n \<noteq> SClosed" by (simp_all add: n_def newPosition_ok)
  have same: "list_all2 evolves (t_positions st) (t_positions st)" by (simp add: list.rel_refl)
  have "placeOrder uid order st = (if js_truthy e
      then syncPosition (map_option sa_id (t_account st)) n True (st\<lparr>t_positions := n # t_positions st\<rparr>) else st)"
    by (simp add: placeOrder_def e_def n_def Let_def)
  moreover have "session st (syncPosition a n True (st\<lparr>t_positions := n # t_positions st\<rparr>))" for a
    unfolding session_def using n assms same
    by (intro conjI exI [of _ "[n]"] exI [of _ "t_positions st"]) auto
  ultimately show ?thesis by (simp add: session_refl)
qed

lemma replaceFirst_map:
  assumes "distinct (map f xs)" "x \<in> set xs" "f x = k"
  shows "replaceFirst (\<lambda>z. f z = k) y xs = map (\<lambda>z. if f z = k then y else z) xs"
  using assms by (induction xs) (auto simp: image_iff intro!: map_idI [symmetric])

lemma replaceFirst_evolves:
  "find (\<lambda>x. ps_id x = pid) xs = Some p \<Longrightarrow> evolves p p' \<Longrightarrow>
   list_all2 evolves xs (replaceFirst (\<lambda>x. ps_id x = pid) p' xs)"
  by (induction xs) (auto simp: list.rel_refl split: if_splits)

lemma replaceFirst_set: "set (replaceFirst q y xs) \<subseteq> insert y (set xs)"
  by (induction xs) auto

lemma replaceFirst_mem: "find q xs = Some x \<Longrightarrow> y \<in> set (replaceFirst q y xs)"
  by (induction xs) (auto split: if_splits)

lemma closePosition_cases:
  obtains (idle) "closePosition uid pid fr st = st"
  | (closes) p f where "find (\<lambda>x. ps_id x = pid) (t_positions st) = Some p" "ps_status p = SOpen"
      "f = (case fr of Some f \<Rightarrow> f | None \<Rightarrow> Fin 1)"
      "closePosition uid pid fr st = syncPosition (map_option sa_id (t_account st))
         (fst (closeFraction (t_price st) (t_time st) f p)) True
         ((journalize (uid 0) (fst (closeFraction (t_price st) (t_time st) f p)) st)
           \<lparr>t_positions := replaceFirst (\<lambda>x. ps_id x = pid) (fst (closeFraction (t_price st) (t_time st) f p)) (t_positions st),
            t_equity := js_add (t_equity st) (snd (closeFraction (t_price st) (t_time st) f p))\<rparr>)"
proof (cases "find (\<lambda>x. ps_id x = pid) (t_positions st)")
  case None then show ?thesis by (intro idle) (simp add: closePosition_def)
next
  case (Some p)
  show ?thesis
  proof (cases "ps_status p = SOpen")
    case True
    have "t_equity (journalize j q st) = t_equity st" for j q by (simp add: journalize_def)
    then show ?thesis using Some True by (intro closes) (auto simp: closePosition_def Let_def split: prod.splits)
  qed (use Some idle in \<open>simp add: closePosition_def\<close>)
qed

lemma session_close: "session st (closePosition uid pid fr st)"
proof (cases rule: closePosition_cases [of uid pid fr st])
  case idle then show ?thesis by (simp add: session_refl)
next
  case (closes p f)
  define p' where "p' = fst (closeFraction (t_price st) (t_time st) f p)"
  have ev: "evolves p p'" unfolding p'_def by (rule evolves_closeFraction [OF closes(2)])
  note eq = closes(4) [folded p'_def]
  show ?thesis
  proof (rule session_inplace)
    show "list_all2 evolves (t_positions st) (t_positions (closePosition uid pid fr st))"
      by (simp add: eq replaceFirst_evolves [OF closes(1) ev])
    show "set (t_journal st) \<subseteq> set (t_journal (closePosition uid pid fr st))"
      by (auto simp: eq journalize_journal)
    fix q assume "q \<in> set (t_positions (closePosition uid pid fr st))" "ps_status q = SClosed"
    then show "q \<in> set (t_positions st) \<or> journaled (closePosition uid pid fr st) q"
      using replaceFirst_set [of "\<lambda>x. ps_id x = pid" p' "t_positions st"]
      by (auto simp: eq journaled_def journalize_journal)
  qed
qed

lemma evolves_cancel: "ps_status p = SPending \<Longrightarrow> evolves p (p\<lparr>ps_status := SCancelled\<rparr>)"
  by (simp add: evolves_def may_become_def position_ok_def)

lemma cancel_frame:
  "t_positions (cancelPending pid st) =
     map (\<lambda>p. if ps_id p = pid \<and> ps_status p = SPending then p\<lparr>ps_status := SCancelled\<rparr> else p) (t_positions st)"
  "t_journal (cancelPending pid st) = t_journal st" "t_account (cancelPending pid st) = t_account st"
  by (simp_all add: cancelPending_def Let_def)

lemma session_cancel: "session st (cancelPending pid st)"
  by (rule session_inplace)
    (auto simp: cancel_frame list_all2_map2 evolves_cancel intro!: list.rel_refl_strong split: if_splits)

lemma session_fold: "(\<And>x s. session s (g x s)) \<Longrightarrow> session st (fold g xs st)"
  by (induction xs arbitrary: st) (auto intro: session_refl session_trans)

lemma session_closeAll: "session st (closeAll uid st)"
  unfolding closeAll_def Let_def by (rule session_fold) (auto simp: session_close)

lemma settle_frame [simp]:
  "t_positions (settleQueue a st) = t_positions st" "t_journal (settleQueue a st) = t_journal st"
  "t_account (settleQueue a st) = t_account st" "t_pendingSync (settleQueue a st) = t_pendingSync st"
  "t_sent (settleQueue a st) = t_sent st"
  by (simp_all add: settleQueue_def split: option.splits list.splits)

lemma remote_frame [simp]:
  "t_positions (fireSync k st) = t_positions st" "t_journal (fireSync k st) = t_journal st"
  "t_account (fireSync k st) = t_account st"
  "t_positions (finishUpsert a ok st) = t_positions st" "t_journal (finishUpsert a ok st) = t_journal st"
  "t_account (finishUpsert a ok st) = t_account st"
  by (auto simp: fireSync_def runSync_def enqueueRemote_def finishUpsert_def Let_def
      split: option.splits list.splits remote_task.splits)

lemma session_step: "trade_step st st' \<Longrightarrow> session st st'"
  by (induction rule: trade_step.induct)
    (auto simp: session_market session_place session_close session_cancel session_closeAll setOrderPrefill_def Let_def
      intro: session_same)

lemma session_run: "trade_step\<^sup>*\<^sup>* st st' \<Longrightarrow> session st st'"
  by (induction rule: rtranclp_induct) (auto intro: session_refl session_trans session_step)

lemma finishReset_frame:
  "t_positions (finishReset a u st) = t_positions st" "t_journal (finishReset a u st) = t_journal st"
  by (simp_all add: finishReset_def Let_def split: option.splits list.splits remote_task.splits)

lemma session_ops: "session_op\<^sup>*\<^sup>* st st' \<Longrightarrow> session st st'"
proof (induction rule: rtranclp_induct)
  case (step s1 s2)
  have "session s1 s2" using step.hyps(2) by (cases rule: session_op.cases) (auto simp: session_step finishReset_frame intro: session_same)
  then show ?case using step.IH session_trans by blast
qed (rule session_refl)

lemma cancelDebounced_positions: "t_positions (cancelDebouncedSync a st) = t_positions st"
  by (simp add: cancelDebouncedSync_def)

definition positions_ok :: "trade_state \<Rightarrow> bool" where
  "positions_ok st \<longleftrightarrow> distinct (map ps_id (t_positions st)) \<and> (\<forall>p \<in> set (t_positions st). position_ok p)"

lemma session_positions: assumes "session st st'" "positions_ok st" shows "positions_ok st'"
proof -
  obtain new olds where n: "t_positions st' = new @ olds" "list_all2 evolves (t_positions st) olds"
    "\<forall>p \<in> set new. position_ok p \<and> ps_id p \<notin> ps_id ` set (t_positions st)" "distinct (map ps_id new)"
    using assms unfolding session_def by blast
  have "distinct (map ps_id (t_positions st'))"
    using n(1,3,4) assms(2) evolves_ids [OF n(2)] evolves_id_set [OF n(2)] by (auto simp: image_iff positions_ok_def)
  moreover have "\<forall>p \<in> set (t_positions st'). position_ok p" using n(1,3) evolves_ok [OF n(2)] assms(2) by (auto simp: positions_ok_def)
  ultimately show ?thesis by (simp add: positions_ok_def)
qed

lemma sim_positions: "(sim_step position_ok)\<^sup>*\<^sup>* initTrade st \<Longrightarrow> positions_ok st"
proof (induction rule: rtranclp_induct)
  case base
  show ?case by (simp add: positions_ok_def initTrade_def)
next
  case (step s1 s2)
  from step.hyps(2) show ?case
  proof (cases rule: sim_step.cases)
    case sim_session
    then show ?thesis using session_positions [OF session_ops step.IH] by blast
  qed (auto simp: positions_ok_def resetTrade_def resetPersistedTrade_def applyRemoteSimTrading_def clearRemoteSimTrading_def
      enqueueRemote_def cancelDebounced_positions list_all_iff Let_def split: option.splits)
qed

subsection \<open>Closing everything\<close>

lemma lit_1e9_nonneg: "js_le (Fin 0) lit_1e9"
  using f64_nonneg [of "1 / 10 ^ 9"] by (simp add: lit_1e9_def js_le_def)

lemma closeFraction_whole:
  assumes "is_double (ps_remaining p)"
  shows "ps_status (fst (closeFraction price time (Fin 1) p)) = SClosed"
    and "ps_id (fst (closeFraction price time (Fin 1) p)) = ps_id p"
proof -
  obtain r where r: "ps_remaining p = Fin r" "f64 r = Fin r" using assms by (auto simp: is_double_def split: jsnum.splits)
  have "js_min (ps_remaining p) (js_mul (ps_remaining p) (Fin 1)) = Fin r" by (simp add: r)
  then show "ps_status (fst (closeFraction price time (Fin 1) p)) = SClosed"
    and "ps_id (fst (closeFraction price time (Fin 1) p)) = ps_id p"
    using r lit_1e9_nonneg by (simp_all add: closeFraction_def Let_def)
qed

lemma find_distinct:
  "distinct (map f xs) \<Longrightarrow> x \<in> set xs \<Longrightarrow> find (\<lambda>z. f z = f x) xs = Some x"
  by (induction xs) (auto simp: image_iff)

lemma closePosition_positions:
  assumes "distinct (map ps_id (t_positions st))"
  shows "t_positions (closePosition uid pid (Some f) st) =
    map (\<lambda>x. if ps_id x = pid \<and> ps_status x = SOpen then fst (closeFraction (t_price st) (t_time st) f x) else x)
      (t_positions st)"
proof (cases "\<exists>p \<in> set (t_positions st). ps_id p = pid")
  case True
  then obtain p where p: "p \<in> set (t_positions st)" "ps_id p = pid" by blast
  have f: "find (\<lambda>x. ps_id x = pid) (t_positions st) = Some p" using find_distinct [OF assms p(1)] p(2) by simp
  have only: "x = p" if "x \<in> set (t_positions st)" "ps_id x = pid" for x
    using that p assms by (metis distinct_map inj_on_def)
  show ?thesis
  proof (cases "ps_status p = SOpen")
    case True
    have "t_positions (closePosition uid pid (Some f) st) =
        replaceFirst (\<lambda>x. ps_id x = pid) (fst (closeFraction (t_price st) (t_time st) f p)) (t_positions st)"
      using f True by (simp add: closePosition_def Let_def split: prod.splits)
    then show ?thesis using replaceFirst_map [OF assms p] only True by (auto intro!: map_cong)
  next
    case False
    then show ?thesis using f only by (auto simp: closePosition_def intro!: map_idI [symmetric])
  qed
next
  case False
  then have "find (\<lambda>x. ps_id x = pid) (t_positions st) = None" by (auto simp: find_None_iff)
  then show ?thesis using False by (auto simp: closePosition_def intro!: map_idI [symmetric])
qed

lemma closePosition_clock [simp]:
  "t_price (closePosition uid pid fr st) = t_price st" "t_time (closePosition uid pid fr st) = t_time st"
  "t_account (closePosition uid pid fr st) = t_account st"
  by (cases rule: closePosition_cases [of uid pid fr st]; simp)+

lemma closeAll_fold:
  assumes "distinct (map ps_id (t_positions st))" "distinct (map snd kids)"
    and "\<forall>p \<in> set (t_positions st). ps_status p = SOpen \<longrightarrow> is_double (ps_remaining p)"
  shows "t_positions (fold (\<lambda>(k, pid). closePosition (\<lambda>_. uid k) pid (Some (Fin 1))) kids st) =
    map (\<lambda>x. if ps_id x \<in> snd ` set kids \<and> ps_status x = SOpen
             then fst (closeFraction (t_price st) (t_time st) (Fin 1) x) else x) (t_positions st)"
  using assms
proof (induction kids arbitrary: st)
  case (Cons kp kids)
  obtain k pid where kp: "kp = (k, pid)" by (cases kp)
  define s1 where "s1 = closePosition (\<lambda>_. uid k) pid (Some (Fin 1)) st"
  let ?close = "\<lambda>x. fst (closeFraction (t_price st) (t_time st) (Fin 1) x)"
  have ps1: "t_positions s1 = map (\<lambda>x. if ps_id x = pid \<and> ps_status x = SOpen then ?close x else x) (t_positions st)"
    unfolding s1_def by (rule closePosition_positions [OF Cons.prems(1)])
  have cl: "ps_status (?close x) = SClosed" "ps_id (?close x) = ps_id x"
    if "x \<in> set (t_positions st)" "ps_status x = SOpen" for x
    using closeFraction_whole Cons.prems(3) that by blast+
  have "map ps_id (t_positions s1) = map ps_id (t_positions st)" using cl by (auto simp: ps1)
  then have d1: "distinct (map ps_id (t_positions s1))" using Cons.prems(1) by simp
  have IH: "t_positions (fold (\<lambda>(k, pid). closePosition (\<lambda>_. uid k) pid (Some (Fin 1))) kids s1) =
      map (\<lambda>x. if ps_id x \<in> snd ` set kids \<and> ps_status x = SOpen
             then fst (closeFraction (t_price s1) (t_time s1) (Fin 1) x) else x) (t_positions s1)"
  proof (rule Cons.IH [OF d1])
    show "\<forall>p \<in> set (t_positions s1). ps_status p = SOpen \<longrightarrow> is_double (ps_remaining p)"
      using Cons.prems(3) cl by (auto simp: ps1)
  qed (use Cons.prems(2) in simp)
  have "pid \<notin> snd ` set kids" using Cons.prems(2) kp by simp
  then show ?case using cl by (auto simp: kp s1_def [symmetric] IH) (auto simp: s1_def ps1 [unfolded s1_def])
qed simp

lemma closeAll_positions:
  assumes "distinct (map ps_id (t_positions st))"
    and "\<forall>p \<in> set (t_positions st). ps_status p = SOpen \<longrightarrow> is_double (ps_remaining p)"
  shows "t_positions (closeAll uid st) =
    map (\<lambda>x. if ps_status x = SOpen then fst (closeFraction (t_price st) (t_time st) (Fin 1) x) else x) (t_positions st)"
proof -
  define ids where "ids = map ps_id (filter (\<lambda>p. ps_status p = SOpen) (t_positions st))"
  have d: "distinct (map snd (zip [0..<length ids] ids))"
    using assms(1) by (simp add: ids_def distinct_map_filter)
  have mem: "ps_status x = SOpen \<Longrightarrow> x \<in> set (t_positions st) \<Longrightarrow> ps_id x \<in> set ids" for x by (simp add: ids_def)
  have s: "snd ` set (zip [0..<length ids] ids) = set ids"
    by (metis length_map map_nth map_snd_zip list.set_map length_upt minus_nat.diff_0)
  show ?thesis
    unfolding closeAll_def Let_def ids_def [symmetric] closeAll_fold [OF assms(1) d assms(2)] s
    using mem by (auto intro!: map_cong)
qed

subsection \<open>The newest version of a position is the one scheduled\<close>

lemma syncKey_inj [simp]: "syncKey a x = syncKey a y \<longleftrightarrow> x = y"
  by (simp add: syncKey_def)

definition queued :: "trade_state \<Rightarrow> string \<Rightarrow> remote_task list" where
  "queued st a = (case map_get (t_queues st) a of Some q \<Rightarrow> q | None \<Rightarrow> [])"

fun upserts :: "remote_task list \<Rightarrow> position list" where
  "upserts [] = []"
| "upserts (Upsert p # ts) = p # upserts ts"
| "upserts (ResetAccount # ts) = upserts ts"

text \<open>The writes of one position handed to an account's chain so far, oldest first.\<close>

definition writes :: "trade_state \<Rightarrow> string \<Rightarrow> string \<Rightarrow> position list" where
  "writes st a pid =
     filter (\<lambda>p. ps_id p = pid) (map snd (filter (\<lambda>(b, _). b = a) (t_sent st)) @ upserts (queued st a))"

text \<open>The last version the remote will be told: the debounced one, else the last one handed over.\<close>

definition scheduled :: "trade_state \<Rightarrow> string \<Rightarrow> string \<Rightarrow> position option" where
  "scheduled st a pid =
     (case map_get (t_pendingSync st) (syncKey a pid) of
        Some (b, p) \<Rightarrow> Some p
      | None \<Rightarrow> if writes st a pid = [] then None else Some (last (writes st a pid)))"

definition pending_ok :: "string \<Rightarrow> trade_state \<Rightarrow> bool" where
  "pending_ok a st \<longleftrightarrow> (\<forall>k b p. map_get (t_pendingSync st) k = Some (b, p) \<longrightarrow> b = a \<and> k = syncKey a (ps_id p))"

lemma upserts_append: "upserts (xs @ ys) = upserts xs @ upserts ys"
  by (induction xs rule: upserts.induct) auto

lemma map_of_delete: "map_of (AList.delete k m) = (map_of m)(k := None)"
  by (simp add: delete_conv')

lemma queued_enqueue: "queued (enqueueRemote a t st) b = (if b = a then queued st a @ [t] else queued st b)"
  by (simp add: queued_def enqueueRemote_def Let_def update_conv' split: option.splits)

lemma writes_run:
  "writes (runSync a p st) b pid = writes st b pid @ (if b = a \<and> ps_id p = pid then [p] else [])"
  by (simp add: writes_def runSync_def queued_enqueue upserts_append) (simp add: queued_def enqueueRemote_def Let_def)

lemma pending_run: "map_get (t_pendingSync (runSync a p st)) = (map_get (t_pendingSync st))(syncKey a (ps_id p) := None)"
  by (auto simp: runSync_def enqueueRemote_def Let_def map_of_delete fun_eq_iff)

lemma scheduled_sync:
  assumes "a \<noteq> []"
  shows "scheduled (syncPosition (Some a) p now st) a pid = (if pid = ps_id p then Some p else scheduled st a pid)"
proof (cases now)
  case True
  then show ?thesis
    using assms by (auto simp: syncPosition_def scheduled_def pending_run writes_run split: option.splits)
next
  case False
  then show ?thesis
    using assms by (auto simp: syncPosition_def scheduled_def update_conv' writes_def queued_def split: option.splits)
qed

lemma pending_ok_sync: "a \<noteq> [] \<Longrightarrow> pending_ok a st \<Longrightarrow> pending_ok a (syncPosition (Some a) p now st)"
  by (cases now) (auto simp: pending_ok_def syncPosition_def pending_run update_conv' split: if_splits)

lemma scheduled_fire:
  assumes "pending_ok a st" shows "scheduled (fireSync key st) a pid = scheduled st a pid" "pending_ok a (fireSync key st)"
proof -
  have *: "pending_ok a (fireSync key st) \<and> scheduled (fireSync key st) a pid = scheduled st a pid"
  proof (cases "map_get (t_pendingSync st) key")
    case (Some bp)
    then obtain p where bp: "bp = (a, p)" "key = syncKey a (ps_id p)" using assms by (cases bp) (auto simp: pending_ok_def)
    then have f: "fireSync key st = runSync a p st" using Some by (simp add: fireSync_def)
    have "pending_ok a (runSync a p st)" using assms unfolding pending_ok_def pending_run by auto
    moreover have "scheduled (runSync a p st) a pid = scheduled st a pid"
      using Some bp by (auto simp: scheduled_def pending_run writes_run split: option.splits)
    ultimately show ?thesis by (simp add: f)
  qed (simp add: fireSync_def assms)
  then show "scheduled (fireSync key st) a pid = scheduled st a pid" "pending_ok a (fireSync key st)" by simp_all
qed

lemma finish_writes: "writes (finishUpsert b ok st) a pid = writes st a pid"
proof (cases "map_get (t_queues st) b")
  case (Some q)
  then show ?thesis
  proof (cases q)
    case (Cons t ts)
    then show ?thesis using Some
      by (cases t; cases "a = b"; cases "ts = []")
        (auto simp: finishUpsert_def settleQueue_def writes_def queued_def update_conv' map_of_delete)
  qed (use Some in \<open>simp add: finishUpsert_def\<close>)
qed (simp add: finishUpsert_def)

lemma finish_pending: "t_pendingSync (finishUpsert b ok st) = t_pendingSync st"
  by (simp add: finishUpsert_def split: option.splits list.splits remote_task.splits)

lemma scheduled_frame:
  assumes "t_pendingSync s = t_pendingSync st" "t_queues s = t_queues st" "t_sent s = t_sent st"
  shows "scheduled s a pid = scheduled st a pid" "pending_ok a s = pending_ok a st"
proof -
  have "writes s a pid = writes st a pid" by (simp add: writes_def queued_def assms)
  then show "scheduled s a pid = scheduled st a pid" by (simp only: scheduled_def assms(1))
qed (simp add: pending_ok_def assms(1))

lemma scheduled_fold_sync:
  assumes "a \<noteq> []" "distinct (map (ps_id \<circ> fst) rs)"
  shows "scheduled (fold (\<lambda>(p, pnl) s. if C p pnl then syncPosition (Some a) p (B p) s else s) rs st) a pid =
    (case find (\<lambda>(p, pnl). C p pnl \<and> ps_id p = pid) rs of Some (p, _) \<Rightarrow> Some p | None \<Rightarrow> scheduled st a pid)"
  using assms(2)
proof (induction rs arbitrary: st)
  case (Cons r rs)
  obtain p x where r: "r = (p, x)" by (cases r)
  have none: "find (\<lambda>(q, pnl). C q pnl \<and> ps_id q = ps_id p) rs = None"
    using Cons.prems by (auto simp: r find_None_iff image_iff split: prod.splits)
  show ?case using Cons none by (auto simp: r scheduled_sync [OF assms(1)] split: option.splits)
qed simp

lemma pending_ok_fold_sync:
  assumes "a \<noteq> []"
  shows "pending_ok a st \<Longrightarrow>
    pending_ok a (fold (\<lambda>(p, pnl) s. if C p pnl then syncPosition (Some a) p (B p) s else s) rs st)"
  by (induction rs arbitrary: st) (auto simp: pending_ok_sync [OF assms])

text \<open>The account is the active one and the last version scheduled of every position is the current one.\<close>

definition in_sync :: "string \<Rightarrow> trade_state \<Rightarrow> bool" where
  "in_sync a st \<longleftrightarrow>
     map_option sa_id (t_account st) = Some a \<and> distinct (map ps_id (t_positions st)) \<and> pending_ok a st
     \<and> (\<forall>p \<in> set (t_positions st). scheduled st a (ps_id p) = Some p)"

lemma market_unsynced:
  assumes "marketPosition c p = (q, pnl)" "ps_status q \<noteq> SOpen" "ps_status q \<noteq> SPending" "pnl = None"
  shows "q = p"
proof -
  have "ps_status p \<in> {SClosed, SCancelled}"
    using assms by (cases "ps_status p")
      (auto simp: marketPosition_def exitOrMark_def fillPending_def Let_def split: option.splits trigger_result.splits if_splits)
  then show ?thesis using evolves_market [of p c] assms(1) by (simp add: evolves_def)
qed

lemma in_sync_market: assumes a: "a \<noteq> []" and i: "in_sync a st" shows "in_sync a (setTradeMarket uid sb c st)"
proof -
  define rs where "rs = map (marketPosition c) (t_positions st)"
  define s2 where "s2 = (journalizeAll uid (map fst (filter (\<lambda>(_, pnl). pnl \<noteq> None) rs)) st)
    \<lparr>t_symbol := sb, t_price := c_close c, t_time := c_time c, t_positions := map fst rs,
     t_equity := js_add (t_equity (journalizeAll uid (map fst (filter (\<lambda>(_, pnl). pnl \<noteq> None) rs)) st))
       (fold (\<lambda>(_, pnl) d. case pnl of Some x \<Rightarrow> js_add d x | None \<Rightarrow> d) rs (Fin 0))\<rparr>"
  define C where "C = (\<lambda>(p :: position) (pnl :: jsnum option). ps_status p = SOpen \<or> ps_status p = SPending \<or> pnl \<noteq> None)"
  have acc: "map_option sa_id (t_account s2) = Some a" using i by (simp add: s2_def in_sync_def)
  have eq: "setTradeMarket uid sb c st =
      fold (\<lambda>(p, pnl) s. if C p pnl then syncPosition (Some a) p (ps_status p = SClosed) s else s) rs s2"
    by (simp only: setTradeMarket_def Let_def rs_def [symmetric] s2_def [symmetric] acc C_def)
  have id: "ps_id (fst (marketPosition c p)) = ps_id p" for p using evolves_market [of p c] by (simp add: evolves_def)
  have ids: "map (ps_id \<circ> fst) rs = map ps_id (t_positions st)" by (simp add: rs_def id)
  have d: "distinct (map (ps_id \<circ> fst) rs)" unfolding ids using i by (simp add: in_sync_def)
  have frame: "scheduled s2 a pid = scheduled st a pid" "pending_ok a s2" for pid
    using scheduled_frame [of s2 st] i by (simp_all add: s2_def in_sync_def)
  have new: "scheduled (setTradeMarket uid sb c st) a (ps_id q) = Some q" if q: "q \<in> set (map fst rs)" for q
  proof -
    obtain p where p: "p \<in> set (t_positions st)" "q = fst (marketPosition c p)" using q by (auto simp: rs_def)
    obtain pnl where r: "(q, pnl) \<in> set rs" "marketPosition c p = (q, pnl)" using p by (cases "marketPosition c p") (force simp: rs_def)
    have only: "x = (q, pnl)" if "x \<in> set rs" "ps_id (fst x) = ps_id q" for x :: "position \<times> jsnum option"
      using d that r(1) by (simp add: distinct_map inj_on_def)
    show ?thesis
    proof (cases "C q pnl")
      case True
      then have "find (\<lambda>(p, pnl). C p pnl \<and> ps_id p = ps_id q) rs \<noteq> None" using r(1) by (auto simp: find_None_iff)
      then obtain x where x: "find (\<lambda>(p, pnl). C p pnl \<and> ps_id p = ps_id q) rs = Some x" by blast
      then have "x = (q, pnl)" using only by (auto simp: find_Some_iff dest!: nth_mem)
      then show ?thesis by (simp add: eq scheduled_fold_sync [OF a d] x)
    next
      case False
      then have "find (\<lambda>(p, pnl). C p pnl \<and> ps_id p = ps_id q) rs = None"
        using only unfolding find_None_iff by fastforce
      moreover have "q = p" using market_unsynced [OF r(2)] False by (simp add: C_def)
      ultimately show ?thesis using i p(1) by (simp add: eq scheduled_fold_sync [OF a d] frame in_sync_def)
    qed
  qed
  have "pending_ok a (setTradeMarket uid sb c st)" unfolding eq by (rule pending_ok_fold_sync [OF a frame(2)])
  then show ?thesis using new i ids by (auto simp: in_sync_def market_frame rs_def id o_def)
qed

lemma in_sync_replace:
  assumes "a \<noteq> []" "in_sync a st" "map_option sa_id (t_account s) = Some a"
    and "t_pendingSync s = t_pendingSync st" "t_queues s = t_queues st" "t_sent s = t_sent st"
    and "distinct (map ps_id (t_positions s))" "set (t_positions s) \<subseteq> insert p (set (t_positions st))"
    and "p \<in> set (t_positions s)"
  shows "in_sync a (syncPosition (Some a) p True s)"
proof -
  have fr: "scheduled s a pid = scheduled st a pid" "pending_ok a s = pending_ok a st" for pid
    using scheduled_frame [OF assms(4-6)] by simp_all
  have only: "q = p" if "q \<in> set (t_positions s)" "ps_id q = ps_id p" for q
    using assms(7,9) that by (auto simp: distinct_map inj_on_def)
  show ?thesis
    using assms(1-3,7,8) only by (auto simp: in_sync_def scheduled_sync fr pending_ok_sync)
qed

lemma in_sync_place:
  assumes a: "a \<noteq> []" and i: "in_sync a st" and fresh: "uid 0 \<notin> ps_id ` set (t_positions st)"
  shows "in_sync a (placeOrder uid order st)"
proof -
  define e where "e = (case or_price order of Some p \<Rightarrow> p | None \<Rightarrow> t_price st)"
  define n where "n = newPosition (uid 0) order e st"
  have n: "ps_id n = uid 0" by (simp add: n_def newPosition_ok)
  have acc: "map_option sa_id (t_account st) = Some a" using i by (simp add: in_sync_def)
  have "placeOrder uid order st = (if js_truthy e
      then syncPosition (Some a) n True (st\<lparr>t_positions := n # t_positions st\<rparr>) else st)"
    by (simp add: placeOrder_def e_def n_def Let_def flip: acc)
  moreover have "in_sync a (syncPosition (Some a) n True (st\<lparr>t_positions := n # t_positions st\<rparr>))"
    using i fresh acc n by (intro in_sync_replace [OF a i]) (auto simp: in_sync_def)
  ultimately show ?thesis using i by simp
qed

lemma in_sync_close:
  assumes a: "a \<noteq> []" and i: "in_sync a st" shows "in_sync a (closePosition uid pid fr st)"
proof (cases rule: closePosition_cases [of uid pid fr st])
  case idle then show ?thesis using i by simp
next
  case (closes p f)
  define p' where "p' = fst (closeFraction (t_price st) (t_time st) f p)"
  have acc: "map_option sa_id (t_account st) = Some a" using i by (simp add: in_sync_def)
  have "list_all2 evolves (t_positions st) (replaceFirst (\<lambda>x. ps_id x = pid) p' (t_positions st))"
    using replaceFirst_evolves [OF closes(1)] evolves_closeFraction [OF closes(2)] unfolding p'_def by blast
  then have "map ps_id (replaceFirst (\<lambda>x. ps_id x = pid) p' (t_positions st)) = map ps_id (t_positions st)"
    by (rule evolves_ids)
  moreover have "p' \<in> set (replaceFirst (\<lambda>x. ps_id x = pid) p' (t_positions st))"
    by (rule replaceFirst_mem [OF closes(1)])
  ultimately show ?thesis
    unfolding closes(4) acc p'_def [symmetric]
    using i acc by (intro in_sync_replace [OF a i]) (simp_all add: in_sync_def replaceFirst_set)
qed

lemma in_sync_closeAll: "a \<noteq> [] \<Longrightarrow> in_sync a st \<Longrightarrow> in_sync a (closeAll uid st)"
proof -
  assume a: "a \<noteq> []" "in_sync a st"
  have "in_sync a s \<Longrightarrow> in_sync a (fold (\<lambda>(k, pid). closePosition (\<lambda>_. uid k) pid (Some (Fin 1))) kids s)" for kids s
    by (induction kids arbitrary: s) (auto simp: in_sync_close a(1))
  then show ?thesis using a(2) by (simp add: closeAll_def Let_def)
qed

lemma in_sync_cancel:
  assumes a: "a \<noteq> []" and i: "in_sync a st" shows "in_sync a (cancelPending pid st)"
proof -
  let ?hit = "\<lambda>p :: position. ps_id p = pid \<and> ps_status p = SPending"
  let ?c = "\<lambda>p :: position. p\<lparr>ps_status := SCancelled\<rparr>"
  have acc: "map_option sa_id (t_account st) = Some a" and d: "distinct (map ps_id (t_positions st))"
    using i by (simp_all add: in_sync_def)
  show ?thesis
  proof (cases "\<exists>p \<in> set (t_positions st). ?hit p")
    case True
    then obtain p where p: "p \<in> set (t_positions st)" "?hit p" by blast
    have only: "x = p" if "x \<in> set (t_positions st)" "?hit x" for x
      using that p d by (auto simp: distinct_map inj_on_def)
    then have flt: "set (filter ?hit (t_positions st)) = {p}"
      unfolding set_filter using p by (intro equalityI subsetI singletonI CollectI conjI) blast+
    then have ne: "filter ?hit (t_positions st) \<noteq> []" by (metis empty_set insert_not_empty)
    have "last (filter ?hit (t_positions st)) \<in> {p}" using last_in_set [OF ne] unfolding flt .
    moreover define ps where "ps = map (\<lambda>p. if ?hit p then ?c p else p) (t_positions st)"
    ultimately have eq: "cancelPending pid st = syncPosition (Some a) (?c p) True (st\<lparr>t_positions := ps\<rparr>)"
      using ne by (simp only: cancelPending_def Let_def map_is_Nil_conv singleton_iff) (simp add: last_map acc)
    have "map ps_id ps = map ps_id (t_positions st)" by (simp add: ps_def)
    moreover have "set ps \<subseteq> insert (?c p) (set (t_positions st))" using only by (auto simp: ps_def)
    moreover have "?c p \<in> set ps" using p by (auto simp: ps_def image_iff intro!: bexI [of _ p])
    ultimately show ?thesis unfolding eq using acc d by (intro in_sync_replace [OF a i]) simp_all
  next
    case False
    then have "filter ?hit (t_positions st) = []" by (auto simp: filter_empty_conv)
    moreover have "map (\<lambda>p. if ?hit p then ?c p else p) (t_positions st) = t_positions st" using False by (auto intro!: map_idI)
    ultimately show ?thesis using i by (simp add: cancelPending_def Let_def)
  qed
qed

lemma in_sync_step: assumes a: "a \<noteq> []" shows "trade_step st st' \<Longrightarrow> in_sync a st \<Longrightarrow> in_sync a st'"
proof (induction rule: trade_step.induct)
  case (step_prefill st prefill)
  then show ?case
    using scheduled_frame [of "setOrderPrefill prefill st" st] by (simp add: in_sync_def setOrderPrefill_def Let_def)
next
  case (step_fire st key)
  then show ?case by (simp add: in_sync_def scheduled_fire)
next
  case (step_finish st accountId ok)
  then show ?case
    unfolding in_sync_def scheduled_def finish_writes pending_ok_def finish_pending remote_frame by blast
qed (simp_all add: in_sync_market in_sync_place in_sync_close in_sync_cancel in_sync_closeAll a)

lemma in_sync_run: "a \<noteq> [] \<Longrightarrow> in_sync a st \<Longrightarrow> trade_step\<^sup>*\<^sup>* st st' \<Longrightarrow> in_sync a st'"
  by (rotate_tac 2, induction rule: rtranclp_induct) (auto intro: in_sync_step)

subsection \<open>Properties\<close>

text \<open>
  C25.  The life cycle of a simulated position.  In every state the simulator reaches from its start, through any sequence of
  market updates, orders, partial and full closes, cancellations, synchronisation events, resets, and remote data applied or
  cleared, ids are distinct and every position is well formed: a pending order has no fill, an open one starts
  with its opening fill, a closed one ends with a closing fill and has no remainder, no open profit and a close
  time.  From such a state on, as long as no reset and no remote data drops or replaces the list, a position keeps its
  identity, symbol, side, entry and size; a pending one may become open, closed or cancelled, an open one only
  closed, and closed and cancelled ones never change again; and every position closed meanwhile has its entry in
  the journal.
\<close>

theorem trade_lifecycle:
  assumes "(sim_step position_ok)\<^sup>*\<^sup>* initTrade st" "session_op\<^sup>*\<^sup>* st st'"
  shows "distinct (map ps_id (t_positions st')) \<and> (\<forall>p \<in> set (t_positions st'). position_ok p)
    \<and> (\<forall>p \<in> set (t_positions st). \<exists>p' \<in> set (t_positions st').
         ps_id p' = ps_id p \<and> ps_symbol p' = ps_symbol p \<and> ps_side p' = ps_side p \<and> ps_entry p' = ps_entry p
         \<and> ps_quantity p' = ps_quantity p \<and> may_become (ps_status p) (ps_status p')
         \<and> (ps_status p \<in> {SClosed, SCancelled} \<longrightarrow> p' = p))
    \<and> (\<forall>p \<in> set (t_positions st'). ps_status p = SClosed \<longrightarrow>
         p \<in> set (t_positions st) \<or> (\<exists>jid. journalEntry jid p \<in> set (t_journal st')))"
proof -
  have s: "session st st'" using assms(2) by (rule session_ops)
  have ok: "positions_ok st'" using session_positions [OF s sim_positions [OF assms(1)]] .
  obtain new olds where n: "t_positions st' = new @ olds" "list_all2 evolves (t_positions st) olds"
    using s unfolding session_def by blast
  have "\<exists>p' \<in> set (t_positions st'). evolves p p'" if "p \<in> set (t_positions st)" for p
    using that n by (fastforce simp: in_set_conv_nth list_all2_conv_all_nth)
  moreover have "\<forall>p \<in> set (t_positions st'). ps_status p = SClosed \<longrightarrow> p \<in> set (t_positions st) \<or> journaled st' p"
    using s by (simp add: session_def)
  ultimately show ?thesis using ok unfolding journaled_def evolves_def positions_ok_def by blast
qed

definition exampleOrder :: order_request where
  "exampleOrder = \<lparr>or_symbol = ''EURUSD'', or_side = Long, or_type = MarketOrder, or_price = Some (Fin 1),
     or_stopLoss = None, or_takeProfit = Some (Fin 2), or_riskPct = None, or_quantity = Some (Fin 4), or_notes = None\<rparr>"

definition exampleAccount :: sim_account where
  "exampleAccount = \<lparr>sa_id = ''acc'', sa_name = ''demo'', sa_startingEquity = Fin 100, sa_equity = Fin 100,
     sa_currency = ''USD'', sa_createdAt = '''', sa_updatedAt = ''''\<rparr>"

definition exampleState :: trade_state where
  "exampleState = placeOrder (\<lambda>_. ''pos_1'') exampleOrder
     (applyRemoteSimTrading ''me'' exampleAccount [] (initTrade\<lparr>t_price := Fin 1, t_time := Fin 60\<rparr>))"

lemmas example_simps = exampleState_def exampleOrder_def exampleAccount_def applyRemoteSimTrading_def initTrade_def
  placeOrder_def newPosition_def computeRisk_def finiteOpt_def finiteOr_def Let_def js_truthy_def

lemma example_positions:
  "map ps_id (t_positions exampleState) = [''pos_1'']" "map ps_status (t_positions exampleState) = [SOpen]"
  "map ps_remaining (t_positions exampleState) = [Fin 4]" "map position_ok (t_positions exampleState) = [True]"
  by (simp_all add: example_simps position_ok_def)

theorem trade_lifecycle_witness:
  "list_all position_ok (t_positions (closeAll (\<lambda>_. ''jrn_1'')
     (placeOrder (\<lambda>_. ''pos_1'') exampleOrder (applyRemoteSimTrading ''me'' exampleAccount [] initTrade))))"
proof -
  let ?st = "applyRemoteSimTrading ''me'' exampleAccount [] initTrade"
  let ?st' = "closeAll (\<lambda>_. ''jrn_1'') (placeOrder (\<lambda>_. ''pos_1'') exampleOrder ?st)"
  have "(sim_step position_ok)\<^sup>*\<^sup>* initTrade ?st" by (intro r_into_rtranclp sim_apply) simp_all
  moreover have "session_op ?st (placeOrder (\<lambda>_. ''pos_1'') exampleOrder ?st)"
    by (intro op_trade step_place) (simp add: applyRemoteSimTrading_def)
  then have "session_op\<^sup>*\<^sup>* ?st ?st'" by (meson op_trade step_closeAll converse_rtranclp_into_rtranclp r_into_rtranclp)
  ultimately show ?thesis using trade_lifecycle [of ?st ?st'] by (simp add: list_all_iff)
qed

text \<open>
  "Close all" closes everything that is open and touches nothing else.  When ids are distinct and the
  remainders of the open positions are finite doubles, no position is open afterwards, each open one has become
  the fully closed version of itself at the current price and time, and all others are unchanged.  Closing a
  whole position never leaves dust: the product with 1 and the difference are exact.
\<close>

theorem closeAll_leaves_nothing_open:
  assumes "distinct (map ps_id (t_positions st))"
    and "\<forall>p \<in> set (t_positions st). ps_status p = SOpen \<longrightarrow> is_double (ps_remaining p)"
  shows "(\<forall>p \<in> set (t_positions (closeAll uid st)). ps_status p \<noteq> SOpen)
    \<and> t_positions (closeAll uid st) =
        map (\<lambda>x. if ps_status x = SOpen then fst (closeFraction (t_price st) (t_time st) (Fin 1) x) else x) (t_positions st)
    \<and> (\<forall>p \<in> set (t_positions st). ps_status p = SOpen \<longrightarrow>
         ps_status (fst (closeFraction (t_price st) (t_time st) (Fin 1) p)) = SClosed
         \<and> ps_remaining (fst (closeFraction (t_price st) (t_time st) (Fin 1) p)) = Fin 0)"
proof -
  have cl: "ps_status (fst (closeFraction (t_price st) (t_time st) (Fin 1) p)) = SClosed"
    if "p \<in> set (t_positions st)" "ps_status p = SOpen" for p
    using closeFraction_whole(1) assms(2) that by blast
  have re: "ps_remaining (fst (closeFraction price time f p)) = Fin 0"
    if "ps_status (fst (closeFraction price time f p)) = SClosed" "ps_status p = SOpen" for price time f p
    using that by (auto simp: closeFraction_def Let_def split: if_splits)
  have "ps_status p \<noteq> SOpen" if pin: "p \<in> set (t_positions (closeAll uid st))" for p
  proof -
    obtain x where "x \<in> set (t_positions st)"
      "p = (if ps_status x = SOpen then fst (closeFraction (t_price st) (t_time st) (Fin 1) x) else x)"
      using pin unfolding closeAll_positions [OF assms] set_map by (rule imageE) simp
    then show ?thesis using cl [of x] by (cases "ps_status x = SOpen") simp_all
  qed
  then show ?thesis using closeAll_positions [OF assms] cl re by blast
qed

theorem closeAll_leaves_nothing_open_witness:
  "list_all (\<lambda>p. ps_status p \<noteq> SOpen) (t_positions (closeAll (\<lambda>_. ''jrn_1'') exampleState))"
proof -
  have "is_double (Fin 4)" using f64_of_int [of 4] by (simp add: is_double_def)
  then have r: "\<forall>p \<in> set (t_positions exampleState). ps_status p = SOpen \<longrightarrow> is_double (ps_remaining p)"
    using example_positions(3) by auto
  have d: "distinct (map ps_id (t_positions exampleState))" by (simp add: example_positions(1))
  show ?thesis unfolding list_all_iff by (rule conjunct1 [OF closeAll_leaves_nothing_open [OF d r]])
qed

text \<open>
  The remote ends up with the newest version of every position.  From an account with no positions and
  no pending timers, after any sequence of trading operations, timers firing and writes being answered, in any
  order, the last version scheduled for each position (the one its debounce timer holds, or else the last one
  handed to the account's chain) is the version in the store.  No debounced older version overtakes an
  immediate newer one.
\<close>

theorem newest_version_is_scheduled:
  assumes "trade_step\<^sup>*\<^sup>* st st'" "t_positions st = []" "t_pendingSync st = []"
    and "t_account st = Some acc" "sa_id acc \<noteq> []" and "p \<in> set (t_positions st')"
  shows "scheduled st' (sa_id acc) (ps_id p) = Some p"
proof -
  have "in_sync (sa_id acc) st" using assms(2-4) by (simp add: in_sync_def pending_ok_def)
  from in_sync_run [OF assms(5) this assms(1)] show ?thesis using assms(6) by (simp add: in_sync_def)
qed

theorem newest_version_is_scheduled_witness:
  "scheduled exampleState ''acc'' ''pos_1'' = Some (hd (t_positions exampleState))"
proof -
  define st where "st = applyRemoteSimTrading ''me'' exampleAccount [] (initTrade\<lparr>t_price := Fin 1, t_time := Fin 60\<rparr>)"
  have e: "exampleState = placeOrder (\<lambda>_. ''pos_1'') exampleOrder st" by (simp add: exampleState_def st_def)
  have st: "t_positions st = []" "t_pendingSync st = []" "t_account st = Some exampleAccount"
    by (simp_all add: st_def applyRemoteSimTrading_def initTrade_def)
  have step: "trade_step\<^sup>*\<^sup>* st exampleState" unfolding e by (intro r_into_rtranclp step_place) (simp add: st)
  have acc: "sa_id exampleAccount = ''acc''" by (simp add: exampleAccount_def)
  have hd: "hd (t_positions exampleState) \<in> set (t_positions exampleState)" "ps_id (hd (t_positions exampleState)) = ''pos_1''"
    using example_positions(1) by (cases "t_positions exampleState"; simp)+
  show ?thesis using newest_version_is_scheduled [OF step st _ hd(1)] hd(2) acc by simp
qed

text \<open>
  C33.  A market update is applied to every position whatever its symbol: the outcome for the positions, the
  equity and the journal does not depend on the symbol of the payload, and an open long position whose target
  lies below the candle's high is closed at its target even when the candle belongs to another instrument.
\<close>

theorem setTradeMarket_ignores_symbol:
  assumes "p \<in> set (t_positions st)" "ps_status p = SOpen" "ps_side p = Long" "ps_stopLoss p = None"
    and "ps_takeProfit p = Some tp" "js_le tp (c_high candle)" "ps_symbol p \<noteq> symbol"
  shows "t_positions (setTradeMarket uid symbol candle st) = t_positions (setTradeMarket uid (ps_symbol p) candle st)
    \<and> (\<exists>p' \<in> set (t_positions (setTradeMarket uid symbol candle st)).
         ps_id p' = ps_id p \<and> ps_status p' = SClosed \<and> fl_price (last (ps_fills p')) = tp)"
proof -
  have "checkExit p candle = Some (TTarget tp)" using assms(2-6) by (simp add: checkExit_def)
  then have "ps_id (fst (marketPosition candle p)) = ps_id p \<and> ps_status (fst (marketPosition candle p)) = SClosed
      \<and> fl_price (last (ps_fills (fst (marketPosition candle p)))) = tp"
    using assms(2) by (simp add: marketPosition_def fillPending_def exitOrMark_def Let_def)
  then show ?thesis using assms(1) by (auto simp: market_frame intro!: bexI [of _ p])
qed

theorem setTradeMarket_ignores_symbol_witness:
  "\<exists>p' \<in> set (t_positions (setTradeMarket (\<lambda>_. ''jrn_1'') ''USDJPY''
      \<lparr>c_time = Fin 120, c_open = Fin 150, c_high = Fin 151, c_low = Fin 149, c_close = Fin 150, c_volume = Fin 1,
       c_closed = None\<rparr> exampleState)). ps_id p' = ''pos_1'' \<and> ps_status p' = SClosed"
proof -
  define p where "p = hd (t_positions exampleState)"
  have "p \<in> set (t_positions exampleState)" "ps_status p = SOpen" "ps_side p = Long" "ps_stopLoss p = None"
    "ps_takeProfit p = Some (Fin 2)" "ps_symbol p \<noteq> ''USDJPY''" "ps_id p = ''pos_1''"
    by (simp_all add: p_def example_simps)
  then show ?thesis
    using setTradeMarket_ignores_symbol [of p exampleState "Fin 2" "\<lparr>c_time = Fin 120, c_open = Fin 150,
      c_high = Fin 151, c_low = Fin 149, c_close = Fin 150, c_volume = Fin 1, c_closed = None\<rparr>" "''USDJPY''"]
    by fastforce
qed

text \<open>
  Resetting a persisted account empties the position list, restores the starting equity, cancels every
  debounced write of that account, and puts the reset behind all writes already queued, so no write of a
  discarded position can reach the account after its reset.
\<close>

theorem resetPersistedTrade_discards_writes:
  assumes "t_account st = Some acc"
  shows "let st' = resetPersistedTrade st in
    t_positions st' = [] \<and> t_equity st' = t_startingEquity st
    \<and> queued st' (sa_id acc) = queued st (sa_id acc) @ [ResetAccount]
    \<and> (\<forall>pid. map_get (t_pendingSync st') (syncKey (sa_id acc) pid) = None)
    \<and> (\<forall>a. a \<noteq> sa_id acc \<longrightarrow> queued st' a = queued st a)"
proof -
  have "map_get (filter (\<lambda>(key, _). \<not> startsWith key (sa_id acc @ '':'')) m) (syncKey (sa_id acc) pid) = None" for m :: "(string, string \<times> position) js_map" and pid
    by (auto simp: map_of_eq_None_iff startsWith_def syncKey_def)
  then show ?thesis
    unfolding Let_def
    by (simp add: resetPersistedTrade_def assms Let_def queued_enqueue)
      (simp add: enqueueRemote_def cancelDebouncedSync_def resetTrade_def queued_def Let_def)
qed

theorem resetPersistedTrade_discards_writes_witness:
  "t_positions (resetPersistedTrade exampleState) = []"
proof -
  have "t_account exampleState = Some exampleAccount" by (simp add: exampleState_def placeOrder_def applyRemoteSimTrading_def Let_def)
  from resetPersistedTrade_discards_writes [OF this] show ?thesis by (simp add: Let_def)
qed

end
