(* ===== verification/AlertTargets.thy ===== *)
theory AlertTargets
  imports PositionSizing "HOL-Library.Sublist"
begin

section \<open>Alert conditions and technical targets\<close>

text \<open>
  Models \<open>services/alertConditions.ts\<close>, \<open>services/dynamicAlertTargets.ts\<close>, \<open>services/alertEngine.ts\<close>,
  \<open>services/alertValidation.ts\<close> and \<open>types/technicalAlerts.ts\<close>: price conditions, targets that move with a
  drawn line or channel, the sanitizers at the trust boundaries (over JSON values), and the evaluation both
  the browser and the push worker share.  \<open>Math.log\<close> and \<open>Math.exp\<close> are left open by ECMAScript
  (implementation-approximated), so they are an argument \<open>M\<close>; so is the printed form of a number
  (\<open>numStr\<close>), whose digits the standard leaves to the implementation.

  The lemmas show that sanitized targets are well formed and, when their times read as seconds, survive a second boundary, that evaluation is
  fail-closed, that both engines agree on a fixed price, and that the search returns the first crossing.
\<close>

subsection \<open>JSON values\<close>

datatype json = JUndef | JNull | JBool bool | JNum jsnum | JStr string | JArr "json list" | JObj "(string \<times> json) list"

definition field :: "json \<Rightarrow> string \<Rightarrow> json" where
  "field v k = (case v of JObj m \<Rightarrow> (case map_of m k of Some x \<Rightarrow> x | None \<Rightarrow> JUndef) | _ \<Rightarrow> JUndef)"

definition isRecord :: "json \<Rightarrow> bool" where
  "isRecord v = (case v of JObj _ \<Rightarrow> True | _ \<Rightarrow> False)"

text \<open>\<open>String.prototype.trim\<close> on the Latin-1 range.\<close>

definition js_space :: "char \<Rightarrow> bool" where
  "js_space c \<longleftrightarrow> of_char c \<in> {9, 10, 11, 12, 13, 32, 160 :: nat}"

definition js_trim :: "string \<Rightarrow> string" where
  "js_trim s = rev (dropWhile js_space (rev (dropWhile js_space s)))"

subsection \<open>Price conditions\<close>

datatype alert_condition = Above | Below | CrossUp | CrossDown

definition conditionName :: "alert_condition \<Rightarrow> string" where
  "conditionName c = (case c of Above \<Rightarrow> ''above'' | Below \<Rightarrow> ''below'' | CrossUp \<Rightarrow> ''crossUp'' | CrossDown \<Rightarrow> ''crossDown'')"

definition ALERT_CONDITIONS :: "string list" where
  "ALERT_CONDITIONS = [''above'', ''below'', ''crossUp'', ''crossDown'']"

definition isAlertCondition :: "json \<Rightarrow> bool" where
  "isAlertCondition v = (case v of JStr s \<Rightarrow> s \<in> set ALERT_CONDITIONS | _ \<Rightarrow> False)"

definition alertArmingRevision ::
  "(jsnum \<Rightarrow> string) \<Rightarrow> alert_condition \<Rightarrow> string \<Rightarrow> jsnum \<Rightarrow> bool \<Rightarrow> jsnum \<Rightarrow> string" where
  "alertArmingRevision numStr condition symbol target recurring armingRevision =
     conditionName condition @ '':'' @ symbol @ '':'' @ numStr target @ '':''
       @ (if recurring then ''true'' else ''false'') @ '':'' @ numStr armingRevision"

definition previousPriceForRevision :: "string \<Rightarrow> string option \<Rightarrow> jsnum option \<Rightarrow> jsnum option" where
  "previousPriceForRevision revision previousRevision previousPrice =
     (if previousRevision = Some revision then previousPrice else None)"

definition conditionForTargetSide :: "alert_condition \<Rightarrow> jsnum \<Rightarrow> jsnum option \<Rightarrow> alert_condition" where
  "conditionForTargetSide base target current =
     (case current of
        None \<Rightarrow> base
      | Some c \<Rightarrow>
          let targetIsAbove = js_le c target
          in if base = CrossUp \<or> base = CrossDown then (if targetIsAbove then CrossUp else CrossDown)
             else (if targetIsAbove then Above else Below))"

definition alertLineRenderKey :: "(jsnum \<Rightarrow> string) \<Rightarrow> (string \<times> alert_condition \<times> jsnum) list \<Rightarrow> string" where
  "alertLineRenderKey numStr alerts =
     (let keys = map (\<lambda>(i, c, p). i @ '':'' @ conditionName c @ '':'' @ numStr p) alerts
      in case keys of [] \<Rightarrow> [] | k # ks \<Rightarrow> k @ concat (map (\<lambda>x. ''|'' @ x) ks))"

definition isPriceConditionMet :: "alert_condition \<Rightarrow> jsnum \<Rightarrow> jsnum option \<Rightarrow> jsnum \<Rightarrow> bool" where
  "isPriceConditionMet condition target previous current =
     (if \<not> js_isFinite target \<or> \<not> js_isFinite current then False
      else
        case condition of
          Above \<Rightarrow> js_le target current
        | Below \<Rightarrow> js_le current target
        | CrossUp \<Rightarrow> (case previous of Some p \<Rightarrow> js_lt p target \<and> js_le target current | None \<Rightarrow> False)
        | CrossDown \<Rightarrow> (case previous of Some p \<Rightarrow> js_lt target p \<and> js_le current target | None \<Rightarrow> False))"

record price_point =
  pp_price :: jsnum
  pp_timestamp :: jsnum

fun findPriceConditionMatch ::
  "alert_condition \<Rightarrow> jsnum \<Rightarrow> price_point option \<Rightarrow> price_point list \<Rightarrow> (price_point \<times> price_point option) option" where
  "findPriceConditionMatch condition target previous [] = None"
| "findPriceConditionMatch condition target previous (point # points) =
     (if isPriceConditionMet condition target (map_option pp_price previous) (pp_price point)
      then Some (point, previous)
      else findPriceConditionMatch condition target (Some point) points)"

definition findPriceConditionTrigger ::
  "alert_condition \<Rightarrow> jsnum \<Rightarrow> jsnum option \<Rightarrow> price_point list \<Rightarrow> price_point option" where
  "findPriceConditionTrigger condition target previousPrice points =
     map_option fst (findPriceConditionMatch condition target
       (map_option (\<lambda>p. \<lparr>pp_price = p, pp_timestamp = NaN\<rparr>) previousPrice) points)"

definition isTriggerPriceValid :: "alert_condition \<Rightarrow> jsnum \<Rightarrow> jsnum \<Rightarrow> bool" where
  "isTriggerPriceValid condition target triggerPrice =
     (if \<not> js_isFinite target \<or> \<not> js_isFinite triggerPrice then False
      else if condition = Above \<or> condition = CrossUp then js_le target triggerPrice
      else js_le triggerPrice target)"

subsection \<open>Technical targets\<close>

record alert_point =
  ap_time :: jsnum
  ap_price :: jsnum

record evidence =
  evd_previous :: "price_point option"
  evd_current :: price_point

datatype line_domain = Segment | Ray | Infinite
datatype line_interpolation = Linear | Log

record line_target =
  lt_a :: alert_point
  lt_b :: alert_point
  lt_domain :: line_domain
  lt_interpolation :: line_interpolation

datatype channel_operator =
    CrossUpperUp | CrossUpperDown | CrossLowerUp | CrossLowerDown | Enter | Exit | Inside | Outside

datatype technical_target =
    FixedPrice jsnum | DynamicLine line_target | DynamicChannel line_target line_target channel_operator

datatype inactive_reason = BeforeDomain | Expired | Invalid

datatype target_at = Active jsnum jsnum | Inactive inactive_reason

record evaluation =
  ev_triggered :: bool
  ev_targetPrice :: "jsnum option"
  ev_active :: bool
  ev_inactiveReason :: "inactive_reason option"
  ev_evidence :: "evidence option"

record js_math =
  m_log :: "jsnum \<Rightarrow> jsnum"
  m_exp :: "jsnum \<Rightarrow> jsnum"

definition domainOf :: "json \<Rightarrow> line_domain option" where
  "domainOf v = (case v of JStr s \<Rightarrow>
       if s = ''segment'' then Some Segment else if s = ''ray'' then Some Ray
       else if s = ''infinite'' then Some Infinite else None | _ \<Rightarrow> None)"

definition interpolationOf :: "json \<Rightarrow> line_interpolation option" where
  "interpolationOf v = (case v of JStr s \<Rightarrow>
       if s = ''linear'' then Some Linear else if s = ''log'' then Some Log else None | _ \<Rightarrow> None)"

definition CHANNEL_OPERATORS :: "(string \<times> channel_operator) list" where
  "CHANNEL_OPERATORS =
     [(''cross-upper-up'', CrossUpperUp), (''cross-upper-down'', CrossUpperDown), (''cross-lower-up'', CrossLowerUp),
      (''cross-lower-down'', CrossLowerDown), (''enter'', Enter), (''exit'', Exit), (''inside'', Inside),
      (''outside'', Outside)]"

definition operatorOf :: "json \<Rightarrow> channel_operator option" where
  "operatorOf v = (case v of JStr s \<Rightarrow> map_of CHANNEL_OPERATORS s | _ \<Rightarrow> None)"

text \<open>The number of a JSON value that \<open>finitePositive\<close> accepts.\<close>

definition positiveNum :: "json \<Rightarrow> jsnum option" where
  "positiveNum v = (case v of JNum x \<Rightarrow> if js_isFinite x \<and> js_lt (Fin 0) x then Some x else None | _ \<Rightarrow> None)"

definition isFinitePositive :: "jsnum \<Rightarrow> bool" where
  "isFinitePositive x \<longleftrightarrow> js_isFinite x \<and> js_lt (Fin 0) x"

definition normalizeEpochSeconds :: "jsnum \<Rightarrow> jsnum" where
  "normalizeEpochSeconds value = (if js_le (Fin 100000000000) value then js_div value (Fin 1000) else value)"

definition sanitizeEvidencePoint :: "json \<Rightarrow> price_point option" where
  "sanitizeEvidencePoint value =
     (case (positiveNum (field value ''price''), positiveNum (field value ''timestamp'')) of
        (Some p, Some t) \<Rightarrow> Some \<lparr>pp_price = p, pp_timestamp = normalizeEpochSeconds t\<rparr>
      | _ \<Rightarrow> None)"

definition sanitizeTechnicalAlertEvidence :: "json \<Rightarrow> evidence option" where
  "sanitizeTechnicalAlertEvidence value =
     (if \<not> isRecord value then None
      else
        case sanitizeEvidencePoint (field value ''current'') of
          None \<Rightarrow> None
        | Some current \<Rightarrow>
            if field value ''previous'' = JUndef then Some \<lparr>evd_previous = None, evd_current = current\<rparr>
            else
              case sanitizeEvidencePoint (field value ''previous'') of
                None \<Rightarrow> None
              | Some previous \<Rightarrow>
                  if js_lt (pp_timestamp current) (pp_timestamp previous) then None
                  else Some \<lparr>evd_previous = Some previous, evd_current = current\<rparr>)"

definition normalizedPoint :: "price_point \<Rightarrow> price_point" where
  "normalizedPoint p = \<lparr>pp_price = pp_price p, pp_timestamp = normalizeEpochSeconds (pp_timestamp p)\<rparr>"

definition evidenceFor :: "price_point option \<Rightarrow> price_point \<Rightarrow> evidence" where
  "evidenceFor previous current =
     \<lparr>evd_previous = map_option normalizedPoint previous, evd_current = normalizedPoint current\<rparr>"

definition sanitizePoint :: "json \<Rightarrow> alert_point option" where
  "sanitizePoint value =
     (case (positiveNum (field value ''time''), positiveNum (field value ''price'')) of
        (Some t, Some p) \<Rightarrow> Some \<lparr>ap_time = normalizeEpochSeconds t, ap_price = p\<rparr>
      | _ \<Rightarrow> None)"

definition sanitizeDynamicLine :: "json \<Rightarrow> line_target option" where
  "sanitizeDynamicLine value =
     (if \<not> isRecord value \<or> field value ''version'' \<noteq> JNum (Fin 1) \<or> field value ''kind'' \<noteq> JStr ''dynamic-line'' then None
      else
        case (sanitizePoint (field value ''a''), sanitizePoint (field value ''b''),
              domainOf (field value ''domain''), interpolationOf (field value ''interpolation'')) of
          (Some a, Some b, Some d, Some i) \<Rightarrow>
            if js_eq (ap_time a) (ap_time b) then None
            else Some \<lparr>lt_a = a, lt_b = b, lt_domain = d, lt_interpolation = i\<rparr>
        | _ \<Rightarrow> None)"

definition channelBoundariesAreParallel :: "js_math \<Rightarrow> line_target \<Rightarrow> line_target \<Rightarrow> bool" where
  "channelBoundariesAreParallel M boundaryA boundaryB =
     (if \<not> js_eq (ap_time (lt_a boundaryA)) (ap_time (lt_a boundaryB))
         \<or> \<not> js_eq (ap_time (lt_b boundaryA)) (ap_time (lt_b boundaryB)) then False
      else
        let value = (\<lambda>price. if lt_interpolation boundaryA = Log then m_log M price else price);
            slope = (\<lambda>l. js_div (js_sub (value (ap_price (lt_b l))) (value (ap_price (lt_a l))))
                               (js_sub (ap_time (lt_b l)) (ap_time (lt_a l))));
            aSlope = slope boundaryA; bSlope = slope boundaryB;
            scale = js_max (js_max (Fin 1) (js_abs aSlope)) (js_abs bSlope)
        in js_isFinite aSlope \<and> js_isFinite bSlope
           \<and> js_le (js_abs (js_sub aSlope bSlope)) (js_mul (js_mul EPSILON (Fin 64)) scale))"

definition sanitizeTechnicalAlertTarget :: "js_math \<Rightarrow> json \<Rightarrow> technical_target option" where
  "sanitizeTechnicalAlertTarget M value =
     (if \<not> isRecord value \<or> field value ''version'' \<noteq> JNum (Fin 1) then None
      else if field value ''kind'' = JStr ''fixed-price'' then
        map_option FixedPrice (positiveNum (field value ''price''))
      else if field value ''kind'' = JStr ''dynamic-line'' then map_option DynamicLine (sanitizeDynamicLine value)
      else if field value ''kind'' \<noteq> JStr ''dynamic-channel'' then None
      else
        case (sanitizeDynamicLine (field value ''boundaryA''), sanitizeDynamicLine (field value ''boundaryB''),
              operatorOf (field value ''operator'')) of
          (Some a, Some b, Some op) \<Rightarrow>
            if lt_domain a \<noteq> lt_domain b \<or> lt_interpolation a \<noteq> lt_interpolation b
               \<or> \<not> channelBoundariesAreParallel M a b then None
            else Some (DynamicChannel a b op)
        | _ \<Rightarrow> None)"

definition js_sign :: "jsnum \<Rightarrow> jsnum" where
  "js_sign x = (case x of NaN \<Rightarrow> NaN | PInf \<Rightarrow> Fin 1 | NInf \<Rightarrow> Fin (- 1) | Fin a \<Rightarrow> Fin (sgn a))"

definition linePrice :: "js_math \<Rightarrow> line_target \<Rightarrow> jsnum \<Rightarrow> jsnum" where
  "linePrice M target time =
     (let start = ap_time (lt_a target); stop = ap_time (lt_b target);
          pa = ap_price (lt_a target); pb = ap_price (lt_b target);
          ratio = js_div (js_sub time start) (js_sub stop start)
      in if lt_interpolation target = Log
         then m_exp M (js_add (m_log M pa) (js_mul (js_sub (m_log M pb) (m_log M pa)) ratio))
         else js_add pa (js_mul (js_sub pb pa) ratio))"

definition lineTargetAt :: "js_math \<Rightarrow> line_target \<Rightarrow> jsnum \<Rightarrow> target_at" where
  "lineTargetAt M target marketTime =
     (let time = normalizeEpochSeconds marketTime; start = ap_time (lt_a target); stop = ap_time (lt_b target);
          direction = js_sign (js_sub stop start)
      in if \<not> list_all js_isFinite [time, start, stop, ap_price (lt_a target), ap_price (lt_b target)] \<or> js_eq start stop
         then Inactive Invalid
         else if lt_domain target = Segment \<and> js_lt time (js_min start stop) then Inactive BeforeDomain
         else if lt_domain target = Segment \<and> js_lt (js_max start stop) time then Inactive Expired
         else if lt_domain target = Ray \<and> js_lt (js_mul (js_sub time start) direction) (Fin 0)
         then Inactive (if js_lt (Fin 0) direction then BeforeDomain else Expired)
         else
           let price = linePrice M target time
           in if js_isFinite price \<and> js_lt (Fin 0) price then Active price price else Inactive Invalid)"

definition targetAt :: "js_math \<Rightarrow> technical_target \<Rightarrow> jsnum \<Rightarrow> target_at" where
  "targetAt M target marketTime =
     (case target of
        FixedPrice price \<Rightarrow> if isFinitePositive price then Active price price else Inactive Invalid
      | DynamicLine l \<Rightarrow> lineTargetAt M l marketTime
      | DynamicChannel la lb op \<Rightarrow>
          (case lineTargetAt M la marketTime of
             Inactive r \<Rightarrow> Inactive r
           | Active al au \<Rightarrow>
               (case lineTargetAt M lb marketTime of
                  Inactive r \<Rightarrow> Inactive r
                | Active bl bu \<Rightarrow> Active (js_min al bl) (js_max au bu))))"

definition signedDistance :: "jsnum \<Rightarrow> jsnum \<Rightarrow> jsnum" where
  "signedDistance price boundaryPrice = js_sub price boundaryPrice"

datatype channel_location = LocBelow | LocInside | LocAbove

definition channelLocation :: "jsnum \<Rightarrow> jsnum \<Rightarrow> jsnum \<Rightarrow> channel_location" where
  "channelLocation price lower upper =
     (if js_lt price lower then LocBelow else if js_lt upper price then LocAbove else LocInside)"

definition opIsUpper :: "channel_operator \<Rightarrow> bool" where
  "opIsUpper op \<longleftrightarrow> op \<in> {CrossUpperUp, CrossUpperDown}"

definition opIsLower :: "channel_operator \<Rightarrow> bool" where
  "opIsLower op \<longleftrightarrow> op \<in> {CrossLowerUp, CrossLowerDown}"

definition opIsUp :: "channel_operator \<Rightarrow> bool" where
  "opIsUp op \<longleftrightarrow> op \<in> {CrossUpperUp, CrossLowerUp}"

definition boundaryForChannel :: "channel_operator \<Rightarrow> jsnum \<Rightarrow> jsnum \<Rightarrow> jsnum \<Rightarrow> jsnum" where
  "boundaryForChannel op lower upper price =
     (if opIsUpper op then upper
      else if opIsLower op then lower
      else if js_le (js_abs (js_sub price lower)) (js_abs (js_sub price upper)) then lower else upper)"

definition inactiveEval :: "inactive_reason \<Rightarrow> evaluation" where
  "inactiveEval r = \<lparr>ev_triggered = False, ev_targetPrice = None, ev_active = False,
     ev_inactiveReason = Some r, ev_evidence = None\<rparr>"

definition activeEval :: "bool \<Rightarrow> jsnum \<Rightarrow> evidence \<Rightarrow> evaluation" where
  "activeEval triggered targetPrice ev = \<lparr>ev_triggered = triggered, ev_targetPrice = Some targetPrice,
     ev_active = True, ev_inactiveReason = None, ev_evidence = (if triggered then Some ev else None)\<rparr>"

text \<open>The branch of \<open>evaluateTechnicalAlert\<close> for fixed prices and lines, with the current level known.\<close>

definition evaluateLevel ::
  "js_math \<Rightarrow> alert_condition \<Rightarrow> technical_target \<Rightarrow> price_point option \<Rightarrow> price_point \<Rightarrow> jsnum \<Rightarrow> evaluation" where
  "evaluateLevel M condition target previous current targetPrice =
     (let ev = evidenceFor previous current
      in if condition = Above then activeEval (js_le targetPrice (pp_price current)) targetPrice ev
         else if condition = Below then activeEval (js_le (pp_price current) targetPrice) targetPrice ev
         else
           case previous of
             None \<Rightarrow> activeEval False targetPrice ev
           | Some prev \<Rightarrow>
               (case targetAt M target (pp_timestamp prev) of
                  Inactive _ \<Rightarrow> activeEval False targetPrice ev
                | Active plower _ \<Rightarrow>
                    let previousDistance = signedDistance (pp_price prev) plower;
                        currentDistance = signedDistance (pp_price current) targetPrice
                    in activeEval
                         (if condition = CrossUp
                          then js_lt previousDistance (Fin 0) \<and> js_le (Fin 0) currentDistance
                          else js_lt (Fin 0) previousDistance \<and> js_le currentDistance (Fin 0))
                         targetPrice ev))"

definition evaluateChannel ::
  "js_math \<Rightarrow> technical_target \<Rightarrow> channel_operator \<Rightarrow> price_point option \<Rightarrow> price_point \<Rightarrow> jsnum \<Rightarrow> jsnum \<Rightarrow> evaluation" where
  "evaluateChannel M target op previous current lower upper =
     (let ev = evidenceFor previous current;
          targetPrice = boundaryForChannel op lower upper (pp_price current);
          currentLocation = channelLocation (pp_price current) lower upper
      in if op = Inside then activeEval (currentLocation = LocInside) targetPrice ev
         else if op = Outside then activeEval (currentLocation \<noteq> LocInside) targetPrice ev
         else
           case previous of
             None \<Rightarrow> activeEval False targetPrice ev
           | Some prev \<Rightarrow>
               (case targetAt M target (pp_timestamp prev) of
                  Inactive _ \<Rightarrow> activeEval False targetPrice ev
                | Active plower pupper \<Rightarrow>
                    let previousLocation = channelLocation (pp_price prev) plower pupper
                    in if op = Enter then
                         activeEval (previousLocation \<noteq> LocInside \<and> currentLocation = LocInside) targetPrice ev
                       else if op = Exit then
                         activeEval (previousLocation = LocInside \<and> currentLocation \<noteq> LocInside) targetPrice ev
                       else
                         let boundaryNow = (if opIsUpper op then upper else lower);
                             before = signedDistance (pp_price prev) (if opIsUpper op then pupper else plower);
                             now = signedDistance (pp_price current) boundaryNow
                         in activeEval
                              (if opIsUp op then js_lt before (Fin 0) \<and> js_le (Fin 0) now
                               else js_lt (Fin 0) before \<and> js_le now (Fin 0))
                              boundaryNow ev))"

definition evaluateTechnicalAlert ::
  "js_math \<Rightarrow> alert_condition \<Rightarrow> technical_target \<Rightarrow> price_point option \<Rightarrow> price_point \<Rightarrow> evaluation" where
  "evaluateTechnicalAlert M condition target previous current =
     (if \<not> isFinitePositive (pp_price current) \<or> \<not> isFinitePositive (pp_timestamp current) then inactiveEval Invalid
      else
        case targetAt M target (pp_timestamp current) of
          Inactive r \<Rightarrow> inactiveEval r
        | Active lower upper \<Rightarrow>
            (case target of
               DynamicChannel _ _ op \<Rightarrow> evaluateChannel M target op previous current lower upper
             | _ \<Rightarrow> evaluateLevel M condition target previous current lower))"

text \<open>The loop of \<open>orderedTechnicalPricePoints\<close>, and the function.\<close>

fun orderedLoop :: "jsnum option \<Rightarrow> price_point list \<Rightarrow> price_point list" where
  "orderedLoop beforeTime [] = []"
| "orderedLoop beforeTime (point # points) =
     (if \<not> isFinitePositive (pp_price point) \<or> \<not> isFinitePositive (pp_timestamp point) then orderedLoop beforeTime points
      else
        let pointTime = normalizeEpochSeconds (pp_timestamp point)
        in if (case beforeTime of Some b \<Rightarrow> js_lt pointTime b | None \<Rightarrow> False) then orderedLoop beforeTime points
           else point # orderedLoop (Some pointTime) points)"

definition orderedTechnicalPricePoints :: "jsnum option \<Rightarrow> price_point list \<Rightarrow> price_point list" where
  "orderedTechnicalPricePoints previousTimestamp points =
     orderedLoop (case previousTimestamp of
         Some t \<Rightarrow> if isFinitePositive t then Some (normalizeEpochSeconds t) else None | None \<Rightarrow> None) points"

record alert_match =
  am_point :: price_point
  am_targetPrice :: jsnum
  am_evidence :: evidence

fun findTriggerLoop ::
  "js_math \<Rightarrow> alert_condition \<Rightarrow> technical_target \<Rightarrow> price_point option \<Rightarrow> price_point list \<Rightarrow> alert_match option" where
  "findTriggerLoop M condition target before [] = None"
| "findTriggerLoop M condition target before (point # points) =
     (let result = evaluateTechnicalAlert M condition target before point
      in case (ev_triggered result, ev_targetPrice result) of
           (True, Some price) \<Rightarrow>
             Some \<lparr>am_point = point, am_targetPrice = price,
                   am_evidence = (case ev_evidence result of Some e \<Rightarrow> e | None \<Rightarrow> evidenceFor before point)\<rparr>
         | _ \<Rightarrow> findTriggerLoop M condition target (Some point) points)"

definition findTechnicalAlertTrigger ::
  "js_math \<Rightarrow> alert_condition \<Rightarrow> technical_target \<Rightarrow> price_point option \<Rightarrow> price_point list \<Rightarrow> alert_match option" where
  "findTechnicalAlertTrigger M condition target previous points =
     findTriggerLoop M condition target previous
       (orderedTechnicalPricePoints (map_option pp_timestamp previous) points)"

subsection \<open>Serialisation and arming\<close>

text \<open>\<open>JSON.stringify\<close>: \<open>undefined\<close> members are dropped, non-finite numbers print as \<open>null\<close>.\<close>

definition hexDigit :: "nat \<Rightarrow> char" where
  "hexDigit n = ''0123456789abcdef'' ! n"

definition jsonChar :: "char \<Rightarrow> string" where
  "jsonChar c =
     (let n = (of_char c :: nat) in
      if n = 34 then [CHR 0x5C, CHR 0x22] else if n = 92 then [CHR 0x5C, CHR 0x5C]
      else if n = 8 then [CHR 0x5C, CHR ''b''] else if n = 9 then [CHR 0x5C, CHR ''t'']
      else if n = 10 then [CHR 0x5C, CHR ''n''] else if n = 12 then [CHR 0x5C, CHR ''f'']
      else if n = 13 then [CHR 0x5C, CHR ''r'']
      else if n < 32 then [CHR 0x5C, CHR ''u'', CHR ''0'', CHR ''0'', hexDigit (n div 16), hexDigit (n mod 16)]
      else [c])"

definition jsonString :: "string \<Rightarrow> string" where
  "jsonString s = [CHR 0x22] @ concat (map jsonChar s) @ [CHR 0x22]"

definition commaJoin :: "string list \<Rightarrow> string" where
  "commaJoin xs = (case xs of [] \<Rightarrow> [] | y # ys \<Rightarrow> y @ concat (map (\<lambda>z. '','' @ z) ys))"

fun stringify :: "(jsnum \<Rightarrow> string) \<Rightarrow> json \<Rightarrow> string option"
  and stringifyArr :: "(jsnum \<Rightarrow> string) \<Rightarrow> json list \<Rightarrow> string list"
  and stringifyObj :: "(jsnum \<Rightarrow> string) \<Rightarrow> (string \<times> json) list \<Rightarrow> string list" where
  "stringify numStr JUndef = None"
| "stringify numStr JNull = Some ''null''"
| "stringify numStr (JBool b) = Some (if b then ''true'' else ''false'')"
| "stringify numStr (JNum x) = Some (if js_isFinite x then numStr x else ''null'')"
| "stringify numStr (JStr s) = Some (jsonString s)"
| "stringify numStr (JArr vs) = Some (''['' @ commaJoin (stringifyArr numStr vs) @ '']'')"
| "stringify numStr (JObj kvs) = Some (''{'' @ commaJoin (stringifyObj numStr kvs) @ ''}'')"
| "stringifyArr numStr [] = []"
| "stringifyArr numStr (v # vs) =
     (case stringify numStr v of Some t \<Rightarrow> t | None \<Rightarrow> ''null'') # stringifyArr numStr vs"
| "stringifyObj numStr [] = []"
| "stringifyObj numStr ((k, v) # kvs) =
     (case stringify numStr v of
        Some t \<Rightarrow> (jsonString k @ '':'' @ t) # stringifyObj numStr kvs
      | None \<Rightarrow> stringifyObj numStr kvs)"

text \<open>A target as the object the sanitizer builds, keys in insertion order.\<close>

definition pointJson :: "alert_point \<Rightarrow> json" where
  "pointJson p = JObj [(''time'', JNum (ap_time p)), (''price'', JNum (ap_price p))]"

definition domainName :: "line_domain \<Rightarrow> string" where
  "domainName d = (case d of Segment \<Rightarrow> ''segment'' | Ray \<Rightarrow> ''ray'' | Infinite \<Rightarrow> ''infinite'')"

definition operatorName :: "channel_operator \<Rightarrow> string" where
  "operatorName op = (case op of CrossUpperUp \<Rightarrow> ''cross-upper-up'' | CrossUpperDown \<Rightarrow> ''cross-upper-down''
     | CrossLowerUp \<Rightarrow> ''cross-lower-up'' | CrossLowerDown \<Rightarrow> ''cross-lower-down'' | Enter \<Rightarrow> ''enter''
     | Exit \<Rightarrow> ''exit'' | Inside \<Rightarrow> ''inside'' | Outside \<Rightarrow> ''outside'')"

definition lineJson :: "line_target \<Rightarrow> json" where
  "lineJson l = JObj [(''version'', JNum (Fin 1)), (''kind'', JStr ''dynamic-line''), (''a'', pointJson (lt_a l)),
     (''b'', pointJson (lt_b l)), (''domain'', JStr (domainName (lt_domain l))),
     (''interpolation'', JStr (if lt_interpolation l = Log then ''log'' else ''linear''))]"

definition targetJson :: "technical_target \<Rightarrow> json" where
  "targetJson t = (case t of
       FixedPrice p \<Rightarrow> JObj [(''version'', JNum (Fin 1)), (''kind'', JStr ''fixed-price''), (''price'', JNum p)]
     | DynamicLine l \<Rightarrow> lineJson l
     | DynamicChannel a b op \<Rightarrow> JObj [(''version'', JNum (Fin 1)), (''kind'', JStr ''dynamic-channel''),
         (''boundaryA'', lineJson a), (''boundaryB'', lineJson b), (''operator'', JStr (operatorName op))])"

definition technicalTargetSignature :: "(jsnum \<Rightarrow> string) \<Rightarrow> technical_target option \<Rightarrow> string" where
  "technicalTargetSignature numStr target =
     (case target of None \<Rightarrow> ''legacy-fixed'' | Some t \<Rightarrow> the (stringify numStr (targetJson t)))"

record arming_fields =
  af_symbol :: string
  af_condition :: alert_condition
  af_price :: jsnum
  af_recurring :: bool
  af_technicalTarget :: json

record arming_patch =
  apt_symbol :: "string option"
  apt_condition :: "alert_condition option"
  apt_price :: "jsnum option"
  apt_recurring :: "bool option"
  apt_technicalTarget :: json

definition hasAlertArmingChange :: "(jsnum \<Rightarrow> string) \<Rightarrow> arming_fields \<Rightarrow> arming_patch \<Rightarrow> bool" where
  "hasAlertArmingChange numStr current patch \<longleftrightarrow>
     (let targetChanged = (apt_technicalTarget patch \<noteq> JUndef
        \<and> stringify numStr (apt_technicalTarget patch) \<noteq> stringify numStr (af_technicalTarget current))
      in (case apt_symbol patch of Some s \<Rightarrow> s \<noteq> af_symbol current | None \<Rightarrow> False)
         \<or> (case apt_condition patch of Some c \<Rightarrow> c \<noteq> af_condition current | None \<Rightarrow> False)
         \<or> (case apt_price patch of Some p \<Rightarrow> \<not> js_eq p (af_price current) | None \<Rightarrow> False)
         \<or> (case apt_recurring patch of Some r \<Rightarrow> r \<noteq> af_recurring current | None \<Rightarrow> False)
         \<or> targetChanged)"

subsection \<open>The alert engine\<close>

record price_snapshot =
  sn_current :: jsnum
  sn_open :: "jsnum option"
  sn_high :: "jsnum option"
  sn_low :: "jsnum option"
  sn_candleTime :: "jsnum option"
  sn_candleHigh :: "jsnum option"
  sn_candleLow :: "jsnum option"
  sn_timestamp :: "jsnum option"

datatype alert_price = PriceNumber jsnum | PriceSnapshot price_snapshot

definition currentPrice :: "alert_price \<Rightarrow> jsnum" where
  "currentPrice price = (case price of PriceNumber x \<Rightarrow> x | PriceSnapshot s \<Rightarrow> sn_current s)"

definition conditionMet :: "alert_condition \<Rightarrow> jsnum \<Rightarrow> jsnum option \<Rightarrow> alert_price \<Rightarrow> bool" where
  "conditionMet condition target prev price = isPriceConditionMet condition target prev (currentPrice price)"

record drawing_alert_source =
  das_drawingId :: string
  das_drawingTool :: string
  das_targetId :: string
  das_targetLabel :: string
  das_snapshotAt :: jsnum

text \<open>The fields of an \<open>Alert\<close> the engine reads.\<close>

record alert =
  al_condition :: alert_condition
  al_price :: jsnum
  al_technicalTarget :: "technical_target option"

text \<open>\<open>now\<close> is the value of \<open>Date.now()\<close>.\<close>

definition evaluateAlert ::
  "js_math \<Rightarrow> jsnum \<Rightarrow> alert \<Rightarrow> jsnum option \<Rightarrow> alert_price \<Rightarrow> price_point option \<Rightarrow> evaluation" where
  "evaluateAlert M now alert prev price previousPoint =
     (let current = (case price of
          PriceNumber x \<Rightarrow> \<lparr>pp_price = x, pp_timestamp = now\<rparr>
        | PriceSnapshot s \<Rightarrow> \<lparr>pp_price = sn_current s,
            pp_timestamp = (case sn_timestamp s of Some t \<Rightarrow> t
              | None \<Rightarrow> (case sn_candleTime s of Some t \<Rightarrow> t | None \<Rightarrow> now))\<rparr>)
      in case al_technicalTarget alert of
           None \<Rightarrow> activeEval (conditionMet (al_condition alert) (al_price alert) prev price) (al_price alert)
                     (evidenceFor previousPoint current)
         | Some target \<Rightarrow> evaluateTechnicalAlert M (al_condition alert) target previousPoint current)"

definition isAlertTriggered ::
  "js_math \<Rightarrow> jsnum \<Rightarrow> alert \<Rightarrow> jsnum option \<Rightarrow> alert_price \<Rightarrow> price_point option \<Rightarrow> bool" where
  "isAlertTriggered M now alert prev price previousPoint =
     ev_triggered (evaluateAlert M now alert prev price previousPoint)"

definition inferCondition :: "jsnum \<Rightarrow> jsnum option \<Rightarrow> alert_condition" where
  "inferCondition target current = conditionForTargetSide CrossUp target current"

definition sanitizeAlertNote :: "json \<Rightarrow> nat \<Rightarrow> string option" where
  "sanitizeAlertNote value maxLength =
     (case value of
        JStr s \<Rightarrow> let note = js_trim s in if note = [] then None else Some (take maxLength note)
      | _ \<Rightarrow> None)"

definition trimmedField :: "json \<Rightarrow> string \<Rightarrow> string" where
  "trimmedField source k = (case field source k of JStr s \<Rightarrow> js_trim s | _ \<Rightarrow> [])"

definition sanitizeAlertSource :: "json \<Rightarrow> drawing_alert_source option" where
  "sanitizeAlertSource value =
     (if \<not> isRecord value \<or> field value ''kind'' \<noteq> JStr ''drawing'' then None
      else
        let drawingId = trimmedField value ''drawingId''; drawingTool = trimmedField value ''drawingTool'';
            targetId = trimmedField value ''targetId''; targetLabel = trimmedField value ''targetLabel'';
            snapshotAt = (case field value ''snapshotAt'' of JNum x \<Rightarrow> x | _ \<Rightarrow> NaN)
        in if drawingId = [] \<or> drawingTool = [] \<or> targetId = [] \<or> targetLabel = []
              \<or> \<not> js_isFinite snapshotAt \<or> js_le snapshotAt (Fin 0) then None
           else Some \<lparr>das_drawingId = drawingId, das_drawingTool = drawingTool, das_targetId = targetId,
                      das_targetLabel = targetLabel, das_snapshotAt = snapshotAt\<rparr>)"

subsection \<open>Sanitized targets are well formed\<close>

text \<open>Every number of a JSON value the program holds is a double, an infinity or NaN.\<close>

fun doubles :: "json \<Rightarrow> bool"
  and doublesArr :: "json list \<Rightarrow> bool"
  and doublesObj :: "(string \<times> json) list \<Rightarrow> bool" where
  "doubles (JNum x) = (js_isFinite x \<longrightarrow> is_double x)"
| "doubles (JArr vs) = doublesArr vs"
| "doubles (JObj kvs) = doublesObj kvs"
| "doubles _ = True"
| "doublesArr [] = True"
| "doublesArr (v # vs) = (doubles v \<and> doublesArr vs)"
| "doublesObj [] = True"
| "doublesObj ((k, v) # kvs) = (doubles v \<and> doublesObj kvs)"

lemma doublesObj_lookup: "doublesObj kvs \<Longrightarrow> map_of kvs k = Some v \<Longrightarrow> doubles v"
  by (induction kvs) (auto split: if_splits)

lemma doubles_field: "doubles v \<Longrightarrow> doubles (field v k)"
  by (auto simp: field_def doublesObj_lookup split: json.splits option.splits)

lemma positiveNum_Some: "positiveNum v = Some x \<longleftrightarrow> v = JNum x \<and> isFinitePositive x"
  by (auto simp: positiveNum_def isFinitePositive_def split: json.splits if_splits)

lemma isFinitePositive_iff: "isFinitePositive x \<longleftrightarrow> (\<exists>a. x = Fin a \<and> 0 < a)"
  by (cases x) (auto simp: isFinitePositive_def js_lt_def)

lemma normalizeEpochSeconds_ok:
  assumes "isFinitePositive x" "is_double x" shows "isFinitePositive (normalizeEpochSeconds x)"
proof (cases "js_le (Fin 100000000000) x")
  case True
  obtain a where a: "x = Fin a" "0 < a" "f64 a = Fin a" using assms by (auto simp: isFinitePositive_iff elim: is_doubleE)
  have ge: "100000000000 \<le> a" using True a by simp
  have "f64 1 \<le> f64 (a / 1000)" using ge by (intro f64_mono) simp
  moreover have "f64 (a / 1000) \<le> f64 a" using a(2) by (intro f64_mono) simp
  ultimately obtain b where "f64 (a / 1000) = Fin b" "1 \<le> b"
    using a(3) by (cases "f64 (a / 1000)") auto
  then show ?thesis using True a by (simp add: normalizeEpochSeconds_def isFinitePositive_iff)
qed (use assms in \<open>simp add: normalizeEpochSeconds_def\<close>)

definition point_ok :: "alert_point \<Rightarrow> bool" where
  "point_ok p \<longleftrightarrow> isFinitePositive (ap_time p) \<and> isFinitePositive (ap_price p)"

definition line_ok :: "line_target \<Rightarrow> bool" where
  "line_ok l \<longleftrightarrow> point_ok (lt_a l) \<and> point_ok (lt_b l) \<and> ap_time (lt_a l) \<noteq> ap_time (lt_b l)"

definition target_ok :: "js_math \<Rightarrow> technical_target \<Rightarrow> bool" where
  "target_ok M t \<longleftrightarrow> (case t of
       FixedPrice p \<Rightarrow> isFinitePositive p
     | DynamicLine l \<Rightarrow> line_ok l
     | DynamicChannel a b op \<Rightarrow> line_ok a \<and> line_ok b \<and> lt_domain a = lt_domain b
         \<and> lt_interpolation a = lt_interpolation b \<and> channelBoundariesAreParallel M a b)"

lemma sanitizePoint_ok: "doubles v \<Longrightarrow> sanitizePoint v = Some p \<Longrightarrow> point_ok p"
  using doubles_field [of v "''time''"]
  by (auto simp: sanitizePoint_def point_ok_def positiveNum_Some isFinitePositive_iff normalizeEpochSeconds_ok
      split: option.splits) (auto dest!: normalizeEpochSeconds_ok [rotated] simp: isFinitePositive_iff)

lemma sanitizeDynamicLine_ok:
  assumes "doubles v" "sanitizeDynamicLine v = Some l" shows "line_ok l"
proof -
  obtain a b where ab: "sanitizePoint (field v ''a'') = Some a" "sanitizePoint (field v ''b'') = Some b"
    "\<not> js_eq (ap_time a) (ap_time b)" "lt_a l = a" "lt_b l = b"
    using assms(2) by (auto simp: sanitizeDynamicLine_def split: if_splits option.splits)
  have "point_ok a" "point_ok b" using ab(1,2) sanitizePoint_ok doubles_field [OF assms(1)] by blast+
  then show ?thesis using ab(3-5) by (auto simp: line_ok_def point_ok_def isFinitePositive_iff js_eq_def)
qed

lemma sanitizeTarget_ok:
  assumes "doubles v" "sanitizeTechnicalAlertTarget M v = Some t" shows "target_ok M t"
proof -
  consider p where "t = FixedPrice p" "positiveNum (field v ''price'') = Some p"
    | l where "t = DynamicLine l" "sanitizeDynamicLine v = Some l"
    | a b op where "t = DynamicChannel a b op" "sanitizeDynamicLine (field v ''boundaryA'') = Some a"
        "sanitizeDynamicLine (field v ''boundaryB'') = Some b" "lt_domain a = lt_domain b"
        "lt_interpolation a = lt_interpolation b" "channelBoundariesAreParallel M a b"
    using assms(2) by (auto simp: sanitizeTechnicalAlertTarget_def split: if_splits option.splits)
  then show ?thesis
  proof cases
    case 1 then show ?thesis by (simp add: target_ok_def positiveNum_Some)
  next
    case 2 then show ?thesis using sanitizeDynamicLine_ok [OF assms(1)] by (simp add: target_ok_def)
  next
    case 3
    then show ?thesis using sanitizeDynamicLine_ok doubles_field [OF assms(1)] by (auto simp: target_ok_def)
  qed
qed

text \<open>All times of a target lie below the millisecond threshold, so they read as seconds.\<close>

definition line_seconds :: "line_target \<Rightarrow> bool" where
  "line_seconds l \<longleftrightarrow> js_lt (ap_time (lt_a l)) (Fin 100000000000) \<and> js_lt (ap_time (lt_b l)) (Fin 100000000000)"

definition target_seconds :: "technical_target \<Rightarrow> bool" where
  "target_seconds t = (case t of FixedPrice _ \<Rightarrow> True | DynamicLine l \<Rightarrow> line_seconds l
     | DynamicChannel a b op \<Rightarrow> line_seconds a \<and> line_seconds b)"

lemma sanitizePoint_print: "point_ok p \<Longrightarrow> js_lt (ap_time p) (Fin 100000000000) \<Longrightarrow> sanitizePoint (pointJson p) = Some p"
  by (auto simp: sanitizePoint_def pointJson_def field_def positiveNum_def point_ok_def isFinitePositive_iff
      normalizeEpochSeconds_def)

lemma line_fields:
  "isRecord (lineJson l)" "field (lineJson l) ''version'' = JNum (Fin 1)" "field (lineJson l) ''kind'' = JStr ''dynamic-line''"
  "field (lineJson l) ''a'' = pointJson (lt_a l)" "field (lineJson l) ''b'' = pointJson (lt_b l)"
  "domainOf (field (lineJson l) ''domain'') = Some (lt_domain l)"
  "interpolationOf (field (lineJson l) ''interpolation'') = Some (lt_interpolation l)"
  by (auto simp: lineJson_def isRecord_def field_def domainOf_def domainName_def interpolationOf_def
      split: line_domain.splits) (cases "lt_interpolation l"; simp)

lemma sanitizeLine_print: "line_ok l \<Longrightarrow> line_seconds l \<Longrightarrow> sanitizeDynamicLine (lineJson l) = Some l"
  by (simp add: sanitizeDynamicLine_def line_fields line_ok_def line_seconds_def sanitizePoint_print js_eq_def)

lemma operator_print: "operatorOf (JStr (operatorName op)) = Some op"
  by (cases op) (simp_all add: operatorOf_def operatorName_def CHANNEL_OPERATORS_def)

lemma sanitizeTarget_print:
  assumes "target_ok M t" "target_seconds t" shows "sanitizeTechnicalAlertTarget M (targetJson t) = Some t"
proof (cases t)
  case (FixedPrice p)
  then show ?thesis using assms(1)
    by (simp add: targetJson_def sanitizeTechnicalAlertTarget_def isRecord_def field_def positiveNum_Some target_ok_def)
next
  case (DynamicLine l)
  then show ?thesis using assms
    by (simp add: targetJson_def sanitizeTechnicalAlertTarget_def line_fields sanitizeLine_print target_ok_def target_seconds_def)
next
  case (DynamicChannel a b op)
  have ab: "line_ok a" "line_ok b" "lt_domain a = lt_domain b" "lt_interpolation a = lt_interpolation b"
    "channelBoundariesAreParallel M a b" "line_seconds a" "line_seconds b"
    using assms DynamicChannel by (simp_all add: target_ok_def target_seconds_def)
  have f: "isRecord (targetJson t)" "field (targetJson t) ''version'' = JNum (Fin 1)"
    "field (targetJson t) ''kind'' = JStr ''dynamic-channel''" "field (targetJson t) ''boundaryA'' = lineJson a"
    "field (targetJson t) ''boundaryB'' = lineJson b" "field (targetJson t) ''operator'' = JStr (operatorName op)"
    by (simp_all add: DynamicChannel targetJson_def isRecord_def field_def)
  show ?thesis
    unfolding sanitizeTechnicalAlertTarget_def f
    using ab f(1) by (simp add: sanitizeLine_print operator_print) (simp add: DynamicChannel)
qed

text \<open>A time at or above the threshold is divided again, so it does not survive a second reading.\<close>

lemma normalizeEpochSeconds_fixed:
  assumes "isFinitePositive x" "normalizeEpochSeconds x = x" shows "js_lt x (Fin 100000000000)"
proof -
  obtain a where a: "x = Fin a" using assms(1) by (auto simp: isFinitePositive_iff)
  have "a < 100000000000"
  proof (rule ccontr)
    assume "\<not> a < 100000000000"
    then have ge: "100000000000 \<le> a" by simp
    then have "f64 (a / 1000) = Fin a" using assms(2) a by (simp add: normalizeEpochSeconds_def)
    then have "rnd64 (a / 1000) = a" by (auto simp: f64_def Let_def split: if_splits)
    then show False using rnd64_le_twice [of "a / 1000"] ge by simp
  qed
  then show ?thesis using a by simp
qed

lemma sanitizePoint_reread:
  assumes "sanitizePoint (pointJson p) = Some p" "point_ok p" shows "js_lt (ap_time p) (Fin 100000000000)"
proof (rule normalizeEpochSeconds_fixed)
  show "isFinitePositive (ap_time p)" using assms(2) by (simp add: point_ok_def)
  show "normalizeEpochSeconds (ap_time p) = ap_time p"
    using arg_cong [OF assms(1), of "map_option ap_time"] assms(2)
    by (auto simp: sanitizePoint_def pointJson_def field_def positiveNum_def point_ok_def isFinitePositive_def split: if_splits)
qed

lemma sanitizeLine_reread:
  assumes "sanitizeDynamicLine (lineJson l) = Some l" "line_ok l" shows "line_seconds l"
proof -
  have "sanitizePoint (pointJson (lt_a l)) = Some (lt_a l)" "sanitizePoint (pointJson (lt_b l)) = Some (lt_b l)"
    using assms(1) by (cases l; auto simp: sanitizeDynamicLine_def line_fields split: option.splits if_splits)+
  then show ?thesis using sanitizePoint_reread assms(2) by (simp add: line_seconds_def line_ok_def)
qed

lemma sanitizeTarget_reread:
  assumes "target_ok M t" "sanitizeTechnicalAlertTarget M (targetJson t) = Some t" shows "target_seconds t"
proof (cases t)
  case (DynamicLine l)
  then show ?thesis using assms sanitizeLine_reread [of l]
    by (simp add: targetJson_def sanitizeTechnicalAlertTarget_def line_fields target_ok_def target_seconds_def)
next
  case (DynamicChannel a b op)
  have f: "field (targetJson t) ''kind'' = JStr ''dynamic-channel''" "field (targetJson t) ''boundaryA'' = lineJson a"
    "field (targetJson t) ''boundaryB'' = lineJson b"
    by (simp_all add: DynamicChannel targetJson_def field_def)
  have "sanitizeDynamicLine (lineJson a) = Some a" "sanitizeDynamicLine (lineJson b) = Some b"
    using assms(2) unfolding sanitizeTechnicalAlertTarget_def f by (auto simp: DynamicChannel split: option.splits if_splits)
  then show ?thesis using assms(1) sanitizeLine_reread DynamicChannel by (simp add: target_ok_def target_seconds_def)
qed (simp add: target_seconds_def)

lemma lineTargetAt_active:
  "lineTargetAt M l t = Active lo up \<Longrightarrow> lo = up \<and> isFinitePositive lo"
  by (auto simp: lineTargetAt_def Let_def isFinitePositive_def split: if_splits)

lemma targetAt_active:
  assumes "targetAt M t time = Active lo up"
  shows "isFinitePositive lo \<and> isFinitePositive up \<and> js_le lo up"
proof (cases t)
  case (FixedPrice p)
  then show ?thesis using assms by (auto simp: targetAt_def isFinitePositive_iff split: if_splits)
next
  case (DynamicLine l)
  then show ?thesis using assms lineTargetAt_active by (force simp: targetAt_def isFinitePositive_iff)
next
  case (DynamicChannel a b op)
  then obtain al au bl bu where x: "lineTargetAt M a time = Active al au" "lineTargetAt M b time = Active bl bu"
    "lo = js_min al bl" "up = js_max au bu"
    using assms by (auto simp: targetAt_def split: target_at.splits)
  show ?thesis
    using lineTargetAt_active [OF x(1)] lineTargetAt_active [OF x(2)] x(3,4) by (auto simp: isFinitePositive_iff)
qed

subsection \<open>Evaluation\<close>

lemma activeEval_simps [simp]:
  "ev_triggered (activeEval b p e) = b" "ev_targetPrice (activeEval b p e) = Some p" "ev_active (activeEval b p e)"
  "ev_evidence (activeEval b p e) = (if b then Some e else None)"
  by (simp_all add: activeEval_def)

lemma inactiveEval_simps [simp]:
  "\<not> ev_triggered (inactiveEval r)" "ev_targetPrice (inactiveEval r) = None" "ev_evidence (inactiveEval r) = None"
  "\<not> ev_active (inactiveEval r)"
  by (simp_all add: inactiveEval_def)

lemma evaluateLevel_trigger:
  "ev_triggered (evaluateLevel M c t prev cur p) \<Longrightarrow> ev_evidence (evaluateLevel M c t prev cur p) = Some (evidenceFor prev cur)"
  by (auto simp: evaluateLevel_def Let_def split: if_splits option.splits target_at.splits)

lemma evaluateChannel_trigger:
  "ev_triggered (evaluateChannel M t op prev cur lo up) \<Longrightarrow>
   ev_evidence (evaluateChannel M t op prev cur lo up) = Some (evidenceFor prev cur)"
  by (auto simp: evaluateChannel_def Let_def split: if_splits option.splits target_at.splits)

lemma evaluate_price: "ev_active (evaluateTechnicalAlert M c t prev cur) \<longleftrightarrow> ev_targetPrice (evaluateTechnicalAlert M c t prev cur) \<noteq> None"
  by (auto simp: evaluateTechnicalAlert_def evaluateLevel_def evaluateChannel_def Let_def
      split: if_splits option.splits target_at.splits technical_target.splits)

text \<open>A trigger is always backed by a live target and the two market observations that prove it.\<close>

lemma evaluate_trigger:
  assumes "ev_triggered (evaluateTechnicalAlert M c t prev cur)"
  shows "ev_evidence (evaluateTechnicalAlert M c t prev cur) = Some (evidenceFor prev cur)"
    and "\<exists>lo up. targetAt M t (pp_timestamp cur) = Active lo up"
    and "isFinitePositive (pp_price cur)" "ev_targetPrice (evaluateTechnicalAlert M c t prev cur) \<noteq> None"
proof -
  have ok: "isFinitePositive (pp_price cur)" "isFinitePositive (pp_timestamp cur)"
    using assms by (auto simp: evaluateTechnicalAlert_def split: if_splits)
  then obtain lo up where at: "targetAt M t (pp_timestamp cur) = Active lo up"
    using assms by (cases "targetAt M t (pp_timestamp cur)") (auto simp: evaluateTechnicalAlert_def)
  show "ev_evidence (evaluateTechnicalAlert M c t prev cur) = Some (evidenceFor prev cur)"
    using assms ok at evaluateLevel_trigger evaluateChannel_trigger
    by (auto simp: evaluateTechnicalAlert_def split: technical_target.splits)
  show "\<exists>lo up. targetAt M t (pp_timestamp cur) = Active lo up" using at by blast
  show "isFinitePositive (pp_price cur)" by (rule ok)
  have "ev_active (evaluateTechnicalAlert M c t prev cur)"
    using ok at by (auto simp: evaluateTechnicalAlert_def evaluateLevel_def evaluateChannel_def Let_def
        split: option.splits target_at.splits technical_target.splits)
  then show "ev_targetPrice (evaluateTechnicalAlert M c t prev cur) \<noteq> None" by (simp add: evaluate_price)
qed

lemma fixed_level:
  assumes "isFinitePositive t" "is_double t" "isFinitePositive (pp_price cur)" "is_double (pp_price cur)"
    and "isFinitePositive (pp_timestamp cur)" "\<And>p. prev = Some p \<Longrightarrow> is_double (pp_price p)"
  shows "ev_triggered (evaluateTechnicalAlert M c (FixedPrice t) prev cur) =
    isPriceConditionMet c t (map_option pp_price prev) (pp_price cur)"
proof -
  obtain x where x: "t = Fin x" "f64 x = Fin x" using assms(2) by (rule is_doubleE)
  obtain y where y: "pp_price cur = Fin y" "f64 y = Fin y" using assms(4) by (rule is_doubleE)
  have eval: "evaluateTechnicalAlert M c (FixedPrice t) prev cur = evaluateLevel M c (FixedPrice t) prev cur t"
    using assms(1,3,5) by (simp add: evaluateTechnicalAlert_def targetAt_def)
  have at: "targetAt M (FixedPrice t) s = Active t t" for s using assms(1) by (simp add: targetAt_def)
  show ?thesis
  proof (cases prev)
    case None
    then show ?thesis
      unfolding eval by (cases c) (simp_all add: evaluateLevel_def isPriceConditionMet_def x(1) y(1))
  next
    case (Some p)
    then obtain z where z: "pp_price p = Fin z" "f64 z = Fin z" using assms(6) by (blast elim: is_doubleE)
    note s = js_sub_sign [OF z(2) x(2)] js_sub_sign [OF y(2) x(2)]
    have e: "signedDistance (pp_price p) t = js_sub (Fin z) (Fin x)" "signedDistance (pp_price cur) t = js_sub (Fin y) (Fin x)"
      by (simp_all only: signedDistance_def x(1) y(1) z(1))
    have "evaluateLevel M c (FixedPrice t) prev cur t = activeEval
        (if c = Above then js_le t (pp_price cur) else if c = Below then js_le (pp_price cur) t
         else if c = CrossUp then js_lt (js_sub (Fin z) (Fin x)) (Fin 0) \<and> js_le (Fin 0) (js_sub (Fin y) (Fin x))
         else js_lt (Fin 0) (js_sub (Fin z) (Fin x)) \<and> js_le (js_sub (Fin y) (Fin x)) (Fin 0)) t (evidenceFor prev cur)"
      unfolding evaluateLevel_def Some option.case at target_at.case Let_def e by simp
    then show ?thesis
      unfolding eval by (cases c) (simp_all add: isPriceConditionMet_def Some s x(1) y(1) z(1) del: js_sub_Fin)
  qed
qed

subsection \<open>Searching a batch of prices\<close>

text \<open>The point before each point of a batch.\<close>

definition predecessor :: "price_point option \<Rightarrow> price_point list \<Rightarrow> nat \<Rightarrow> price_point option" where
  "predecessor before ps i = (if i = 0 then before else Some (ps ! (i - 1)))"

lemma predecessor_Cons: "predecessor before (p # ps) (Suc i) = predecessor (Some p) ps i"
  by (simp add: predecessor_def nth_Cons')

lemma findTriggerLoop_Cons:
  "findTriggerLoop M c t before (p # ps) =
     (if ev_triggered (evaluateTechnicalAlert M c t before p)
      then Some \<lparr>am_point = p, am_targetPrice = the (ev_targetPrice (evaluateTechnicalAlert M c t before p)),
                 am_evidence = evidenceFor before p\<rparr>
      else findTriggerLoop M c t (Some p) ps)"
  using evaluate_trigger [of M c t before p] by (auto simp: Let_def split: option.splits)

lemma findTriggerLoop_first:
  "(case findTriggerLoop M c t before ps of
      None \<Rightarrow> \<forall>i < length ps. \<not> ev_triggered (evaluateTechnicalAlert M c t (predecessor before ps i) (ps ! i))
    | Some m \<Rightarrow> \<exists>i < length ps. ev_triggered (evaluateTechnicalAlert M c t (predecessor before ps i) (ps ! i))
        \<and> (\<forall>j < i. \<not> ev_triggered (evaluateTechnicalAlert M c t (predecessor before ps j) (ps ! j)))
        \<and> am_point m = ps ! i \<and> am_evidence m = evidenceFor (predecessor before ps i) (ps ! i)
        \<and> Some (am_targetPrice m) = ev_targetPrice (evaluateTechnicalAlert M c t (predecessor before ps i) (ps ! i)))"
proof (induction ps arbitrary: before)
  case (Cons p ps)
  show ?case
  proof (cases "ev_triggered (evaluateTechnicalAlert M c t before p)")
    case True
    then show ?thesis
      using evaluate_trigger(4) [OF True] by (auto simp: findTriggerLoop_Cons predecessor_def simp del: findTriggerLoop.simps intro!: exI [of _ 0])
  next
    case False
    show ?thesis
    proof (cases "findTriggerLoop M c t (Some p) ps")
      case None
      then show ?thesis using Cons [of "Some p"] False
        by (simp add: findTriggerLoop_Cons All_less_Suc2 predecessor_Cons del: findTriggerLoop.simps) (simp add: predecessor_def)
    next
      case (Some m)
      then show ?thesis using Cons [of "Some p"] False
        by (simp add: findTriggerLoop_Cons Ex_less_Suc2 All_less_Suc2 predecessor_Cons del: findTriggerLoop.simps)
          (simp add: predecessor_def)
    qed
  qed
qed simp

lemma findTriggerLoop_append:
  "findTriggerLoop M c t before (xs @ ys) =
     (case findTriggerLoop M c t before xs of
        Some m \<Rightarrow> Some m
      | None \<Rightarrow> findTriggerLoop M c t (if xs = [] then before else Some (last xs)) ys)"
  by (induction xs arbitrary: before) (auto simp: findTriggerLoop_Cons simp del: findTriggerLoop.simps(2) split: option.splits)

definition startTime :: "price_point option \<Rightarrow> jsnum option" where
  "startTime p = (case p of Some q \<Rightarrow> if isFinitePositive (pp_timestamp q) then Some (normalizeEpochSeconds (pp_timestamp q)) else None
     | None \<Rightarrow> None)"

lemma ordered_startTime: "orderedTechnicalPricePoints (map_option pp_timestamp p) = orderedLoop (startTime p)"
  by (auto simp: orderedTechnicalPricePoints_def startTime_def fun_eq_iff split: option.splits)

lemma orderedLoop_valid: "p \<in> set (orderedLoop b ps) \<Longrightarrow> isFinitePositive (pp_price p) \<and> isFinitePositive (pp_timestamp p)"
  by (induction ps arbitrary: b) (auto simp: Let_def split: if_splits)

lemma orderedLoop_append:
  "orderedLoop b (xs @ ys) =
     (let front = orderedLoop b xs
      in front @ orderedLoop (if front = [] then b else Some (normalizeEpochSeconds (pp_timestamp (last front)))) ys)"
  by (induction xs arbitrary: b) (auto simp: Let_def split: option.splits)

lemma orderedLoop_subseq: "subseq (orderedLoop b ps) ps"
  by (induction ps arbitrary: b) (auto simp: Let_def)

lemma orderedLoop_sorted:
  "sorted_wrt (\<lambda>p q. \<not> js_lt (normalizeEpochSeconds (pp_timestamp q)) (normalizeEpochSeconds (pp_timestamp p))) (orderedLoop b ps)
   \<and> (\<forall>p \<in> set (orderedLoop b ps). \<forall>t. b = Some t \<longrightarrow> \<not> js_lt (normalizeEpochSeconds (pp_timestamp p)) t)"
proof (induction ps arbitrary: b)
  case (Cons p ps)
  have tr: "\<not> js_lt y x \<Longrightarrow> \<not> js_lt z y \<Longrightarrow> y \<noteq> NaN \<Longrightarrow> \<not> js_lt z x" for x y z by (auto simp: js_lt_def)
  have nn: "normalizeEpochSeconds (pp_timestamp p) \<noteq> NaN" if "isFinitePositive (pp_timestamp p)"
    using that by (auto simp: isFinitePositive_iff normalizeEpochSeconds_def)
  show ?case using Cons [of b] Cons [of "Some (normalizeEpochSeconds (pp_timestamp p))"] tr nn
    by (auto simp: Let_def split: option.splits)
qed simp

text \<open>
  Which points are kept, without the loop: well-formed ones whose market time is before neither the starting time nor
  that of any earlier well-formed point.
\<close>

definition well_formed_point :: "price_point \<Rightarrow> bool" where
  "well_formed_point p \<longleftrightarrow> isFinitePositive (pp_price p) \<and> isFinitePositive (pp_timestamp p)"

definition forward_point :: "jsnum option \<Rightarrow> price_point list \<Rightarrow> nat \<Rightarrow> bool" where
  "forward_point start ps i \<longleftrightarrow> well_formed_point (ps ! i)
     \<and> (case start of Some t \<Rightarrow> \<not> js_lt (normalizeEpochSeconds (pp_timestamp (ps ! i))) t | None \<Rightarrow> True)
     \<and> (\<forall>j < i. well_formed_point (ps ! j) \<longrightarrow>
          \<not> js_lt (normalizeEpochSeconds (pp_timestamp (ps ! i))) (normalizeEpochSeconds (pp_timestamp (ps ! j))))"

lemma forward_Suc:
  "forward_point b (p # ps) (Suc i) \<longleftrightarrow> forward_point b ps i
     \<and> (well_formed_point p \<longrightarrow> \<not> js_lt (normalizeEpochSeconds (pp_timestamp (ps ! i))) (normalizeEpochSeconds (pp_timestamp p)))"
proof -
  have "(\<forall>j < Suc i. Q j) \<longleftrightarrow> Q 0 \<and> (\<forall>j < i. Q (Suc j))" for Q by (auto simp: less_Suc_eq_0_disj)
  then show ?thesis unfolding forward_point_def by (auto split: option.split)
qed

lemma orderedLoop_exact: "orderedLoop b ps = nths ps {i. forward_point b ps i}"
proof (induction ps arbitrary: b)
  case (Cons p ps)
  let ?t = "normalizeEpochSeconds (pp_timestamp p)"
  have zero: "forward_point b (p # ps) 0 \<longleftrightarrow> well_formed_point p \<and> (case b of Some t \<Rightarrow> \<not> js_lt ?t t | None \<Rightarrow> True)"
    by (cases b) (simp_all add: forward_point_def)
  show ?case
  proof (cases "well_formed_point p")
    case False
    then have "{j. Suc j \<in> {i. forward_point b (p # ps) i}} = {i. forward_point b ps i}" by (simp add: forward_Suc)
    then show ?thesis using False Cons.IH [of b] zero by (auto simp: nths_Cons well_formed_point_def)
  next
    case True
    then have nn: "?t \<noteq> NaN" by (auto simp: well_formed_point_def isFinitePositive_iff normalizeEpochSeconds_def)
    show ?thesis
    proof (cases "case b of Some t \<Rightarrow> js_lt ?t t | None \<Rightarrow> False")
      case behind: True
      then obtain t where t: "b = Some t" "js_lt ?t t" by (auto split: option.splits)
      have "\<not> js_lt x t \<Longrightarrow> \<not> js_lt x ?t" for x using t(2) by (auto simp: js_lt_def)
      then have "forward_point b (p # ps) (Suc j) = forward_point b ps j" for j
        unfolding forward_Suc using t(1) by (auto simp: forward_point_def)
      then show ?thesis using True behind t Cons.IH [of b] zero by (simp add: nths_Cons well_formed_point_def)
    next
      case False
      then have "\<not> js_lt x ?t \<Longrightarrow> case b of Some t \<Rightarrow> \<not> js_lt x t | None \<Rightarrow> True" for x
        using nn by (auto simp: js_lt_def split: option.splits)
      then have "forward_point b (p # ps) (Suc j) = forward_point (Some ?t) ps j" for j
        unfolding forward_Suc using True by (auto simp: forward_point_def)
      moreover have "case b of Some t \<Rightarrow> \<not> js_lt ?t t | None \<Rightarrow> True" using False by (auto split: option.splits)
      ultimately show ?thesis using True False Cons.IH [of "Some ?t"] zero
        by (simp add: nths_Cons well_formed_point_def Let_def)
    qed
  qed
qed simp

subsection \<open>Arming revisions\<close>

lemma split_first: "x \<notin> set a \<Longrightarrow> x \<notin> set b \<Longrightarrow> a @ x # xs = b @ x # ys \<longleftrightarrow> a = b \<and> xs = ys"
proof (induction a arbitrary: b)
  case Nil then show ?case by (cases b) auto
next
  case (Cons y a) then show ?case by (cases b) auto
qed

lemma split_last: assumes "x \<notin> set a" "x \<notin> set b" shows "xs @ x # a = ys @ x # b \<longleftrightarrow> xs = ys \<and> a = b"
proof -
  have "xs @ x # a = ys @ x # b \<longleftrightarrow> rev a @ x # rev xs = rev b @ x # rev ys"
    by (metis append.assoc append_Cons append_Nil rev.simps(2) rev_append rev_rev_ident)
  also have "\<dots> \<longleftrightarrow> rev a = rev b \<and> rev xs = rev ys" using assms by (intro split_first) auto
  finally show ?thesis by auto
qed

lemma conditionName_inj: "conditionName c = conditionName c' \<longleftrightarrow> c = c'"
  by (cases c; cases c') (simp_all add: conditionName_def)

lemma conditionName_colon: "CHR '':'' \<notin> set (conditionName c)"
  by (cases c) (simp_all add: conditionName_def)

subsection \<open>Properties\<close>

text \<open>
  C17.  The sanitizer at the trust boundary is sound and stable: whatever JSON it is given, a target it accepts
  has finite positive times and prices, two distinct anchor times per line, and for channels boundaries of the
  same domain and interpolation that are parallel; reading it once more at the next boundary gives back the same
  target exactly when its times lie below the threshold of milliseconds (a time still above it after the first
  division is divided again); and wherever the target is active its level is a finite positive band.
\<close>

theorem sanitized_target_trustworthy:
  assumes "doubles v" "sanitizeTechnicalAlertTarget M v = Some t"
  shows "target_ok M t \<and> (sanitizeTechnicalAlertTarget M (targetJson t) = Some t \<longleftrightarrow> target_seconds t)
    \<and> (\<forall>time lo up. targetAt M t time = Active lo up \<longrightarrow> isFinitePositive lo \<and> isFinitePositive up \<and> js_le lo up)"
  using sanitizeTarget_ok [OF assms] sanitizeTarget_print [of M t] sanitizeTarget_reread [of M t] targetAt_active [of M t] by blast

theorem sanitized_target_trustworthy_witness:
  "target_ok \<lparr>m_log = (\<lambda>x. x), m_exp = (\<lambda>x. x)\<rparr> (FixedPrice (Fin 5))"
proof -
  define v where "v = JObj [(''version'', JNum (Fin 1)), (''kind'', JStr ''fixed-price''), (''price'', JNum (Fin 5))]"
  have "is_double (Fin 1)" "is_double (Fin 5)" using f64_of_int [of 1] f64_of_int [of 5] by (simp_all add: is_double_def)
  then have "doubles v" by (simp add: v_def)
  moreover have "sanitizeTechnicalAlertTarget \<lparr>m_log = (\<lambda>x. x), m_exp = (\<lambda>x. x)\<rparr> v = Some (FixedPrice (Fin 5))"
    by (simp add: v_def sanitizeTechnicalAlertTarget_def isRecord_def field_def positiveNum_def)
  ultimately show ?thesis using sanitized_target_trustworthy by blast
qed

text \<open>
  The two evaluation paths agree.  An alert on a plain price and the same alert with a fixed-price
  technical target fire on exactly the same ticks, although one compares prices and the other looks at the sign
  of a rounded difference; and every price that fires passes the persistence guard \<open>isTriggerPriceValid\<close>.
\<close>

theorem fixed_price_engines_agree:
  assumes "isFinitePositive t" "is_double t" "isFinitePositive (sn_current s)" "is_double (sn_current s)"
    and "sn_timestamp s = Some ts" "isFinitePositive ts"
    and "\<And>p. previousPoint = Some p \<Longrightarrow> is_double (pp_price p)"
  shows "isAlertTriggered M now \<lparr>al_condition = c, al_price = t, al_technicalTarget = Some (FixedPrice t)\<rparr>
      (map_option pp_price previousPoint) (PriceSnapshot s) previousPoint
    = isAlertTriggered M now \<lparr>al_condition = c, al_price = t, al_technicalTarget = None\<rparr>
      (map_option pp_price previousPoint) (PriceSnapshot s) previousPoint
    \<and> (isAlertTriggered M now \<lparr>al_condition = c, al_price = t, al_technicalTarget = None\<rparr>
         (map_option pp_price previousPoint) (PriceSnapshot s) previousPoint \<longrightarrow> isTriggerPriceValid c t (sn_current s))"
proof -
  have "ev_triggered (evaluateTechnicalAlert M c (FixedPrice t) previousPoint \<lparr>pp_price = sn_current s, pp_timestamp = ts\<rparr>)
      = isPriceConditionMet c t (map_option pp_price previousPoint) (sn_current s)"
    using fixed_level [of t "\<lparr>pp_price = sn_current s, pp_timestamp = ts\<rparr>" previousPoint] assms by simp
  moreover have "isPriceConditionMet c t q (sn_current s) \<Longrightarrow> isTriggerPriceValid c t (sn_current s)" for q
    by (cases c) (auto simp: isPriceConditionMet_def isTriggerPriceValid_def split: if_splits option.splits)
  ultimately show ?thesis
    using assms(5) by (simp add: isAlertTriggered_def evaluateAlert_def conditionMet_def currentPrice_def)
qed

theorem fixed_price_engines_agree_witness:
  "isTriggerPriceValid Above (Fin 5) (Fin 7)"
proof -
  define s where "s = \<lparr>sn_current = Fin 7, sn_open = None, sn_high = None, sn_low = None, sn_candleTime = None,
    sn_candleHigh = None, sn_candleLow = None, sn_timestamp = Some (Fin 60)\<rparr>"
  have "is_double (Fin 5)" "is_double (Fin 7)" using f64_of_int [of 5] f64_of_int [of 7] by (simp_all add: is_double_def)
  moreover have "isFinitePositive (Fin 5)" "isFinitePositive (Fin 7)" "isFinitePositive (Fin 60)" by (simp_all add: isFinitePositive_iff)
  ultimately have "isAlertTriggered M now \<lparr>al_condition = Above, al_price = Fin 5, al_technicalTarget = None\<rparr>
      None (PriceSnapshot s) None \<longrightarrow> isTriggerPriceValid Above (Fin 5) (Fin 7)" for M now
    using fixed_price_engines_agree [of "Fin 5" s "Fin 60" None M now Above] by (simp add: s_def)
  then show ?thesis
    by (simp add: isAlertTriggered_def evaluateAlert_def conditionMet_def currentPrice_def isPriceConditionMet_def s_def)
qed

text \<open>
  C23.  The search over a batch of received prices reports the first crossing: it keeps, in receive order, exactly
  the points with finite positive price and time whose market time is before neither the previous point's nor any
  earlier such point's, so market times do not decrease; it returns nothing only
  if no kept point triggers against its predecessor, and otherwise the first that does, with the target level at
  that moment and the two observations that prove the crossing.
\<close>

theorem search_finds_first_crossing:
  "let ps = orderedTechnicalPricePoints (map_option pp_timestamp previous) points;
       fires = (\<lambda>i. ev_triggered (evaluateTechnicalAlert M c t (predecessor previous ps i) (ps ! i)))
   in ps = nths points {i. forward_point (startTime previous) points i}
      \<and> sorted_wrt (\<lambda>p q. \<not> js_lt (normalizeEpochSeconds (pp_timestamp q)) (normalizeEpochSeconds (pp_timestamp p))) ps
      \<and> (case findTechnicalAlertTrigger M c t previous points of
           None \<Rightarrow> (\<forall>i \<in> {0..<length ps}. \<not> fires i)
         | Some m \<Rightarrow> (\<exists>i < length ps. fires i \<and> (\<forall>j \<in> {0..<i}. \<not> fires j) \<and> am_point m = ps ! i
             \<and> am_evidence m = evidenceFor (predecessor previous ps i) (ps ! i)
             \<and> Some (am_targetPrice m) = ev_targetPrice (evaluateTechnicalAlert M c t (predecessor previous ps i) (ps ! i))))"
proof -
  define ps where "ps = orderedTechnicalPricePoints (map_option pp_timestamp previous) points"
  have "ps = nths points {i. forward_point (startTime previous) points i}"
    "sorted_wrt (\<lambda>p q. \<not> js_lt (normalizeEpochSeconds (pp_timestamp q)) (normalizeEpochSeconds (pp_timestamp p))) ps"
    unfolding ps_def ordered_startTime using orderedLoop_exact orderedLoop_sorted by blast+
  moreover note findTriggerLoop_first [where M = M and c = c and t = t and before = previous and ps = ps]
  moreover have "findTechnicalAlertTrigger M c t previous points = findTriggerLoop M c t previous ps"
    by (simp add: findTechnicalAlertTrigger_def ps_def)
  ultimately show ?thesis
    unfolding Let_def ps_def [symmetric] by (auto split: option.splits)
qed

theorem search_finds_first_crossing_witness:
  "orderedTechnicalPricePoints (map_option pp_timestamp None) [\<lparr>pp_price = Fin 1, pp_timestamp = Fin 60\<rparr>]
     = [\<lparr>pp_price = Fin 1, pp_timestamp = Fin 60\<rparr>]"
  using search_finds_first_crossing [where previous = None and points = "[\<lparr>pp_price = Fin 1, pp_timestamp = Fin 60\<rparr>]"
      and M = "\<lparr>m_log = (\<lambda>x. x), m_exp = (\<lambda>x. x)\<rparr>" and c = Above and t = "FixedPrice (Fin 1)"]
  by (simp add: Let_def forward_point_def well_formed_point_def isFinitePositive_iff startTime_def)

text \<open>
  How the price stream is cut into batches does not matter: searching two batches one after the other,
  carrying the last accepted point over, finds the same trigger as searching them at once.  A crossing that
  straddles two polls is neither lost nor reported twice.
\<close>

theorem search_is_batch_independent:
  "findTechnicalAlertTrigger M c t previous (xs @ ys) =
     (let front = orderedTechnicalPricePoints (map_option pp_timestamp previous) xs
      in case findTechnicalAlertTrigger M c t previous xs of
           Some m \<Rightarrow> Some m
         | None \<Rightarrow> findTechnicalAlertTrigger M c t (if front = [] then previous else Some (last front)) ys)"
proof -
  define front where "front = orderedLoop (startTime previous) xs"
  define carry where "carry = (if front = [] then previous else Some (last front))"
  have "isFinitePositive (pp_timestamp (last front))" if "front \<noteq> []"
    using last_in_set [OF that] orderedLoop_valid unfolding front_def by blast
  then have "startTime carry = (if front = [] then startTime previous else Some (normalizeEpochSeconds (pp_timestamp (last front))))"
    by (simp add: carry_def startTime_def)
  then have "orderedLoop (startTime previous) (xs @ ys) = front @ orderedLoop (startTime carry) ys"
    by (simp add: orderedLoop_append front_def Let_def)
  then show ?thesis
    unfolding findTechnicalAlertTrigger_def ordered_startTime Let_def front_def [symmetric] carry_def [symmetric]
    by (simp only: findTriggerLoop_append carry_def [symmetric])
qed

text \<open>
  An arming revision identifies the alert definition: two revisions are equal only if condition, symbol,
  target, recurrence and arming counter are, even for symbols that contain the separator, as long as the printed
  numbers contain no colon and distinguish the numbers in question.  Editing any of them therefore drops the
  price memory of the old definition.
\<close>

theorem arming_revision_identifies_alert:
  assumes "alertArmingRevision numStr c s t b r = alertArmingRevision numStr c' s' t' b' r'"
    and "numStr t = numStr t' \<Longrightarrow> t = t'" "numStr r = numStr r' \<Longrightarrow> r = r'"
    and "\<And>x. CHR '':'' \<notin> set (numStr x)"
  shows "c = c' \<and> s = s' \<and> t = t' \<and> b = b' \<and> r = r'"
proof -
  have flag: "CHR '':'' \<notin> set (if q then ''true'' else ''false'')" for q by simp
  have e: "alertArmingRevision numStr c s t b r = (((conditionName c @ CHR '':'' # s) @ CHR '':'' # numStr t) @ CHR '':''
      # (if b then ''true'' else ''false'')) @ CHR '':'' # numStr r" for c s t b r
    by (simp add: alertArmingRevision_def)
  have "numStr r = numStr r'" "(if b then ''true'' else ''false'') = (if b' then ''true'' else ''false'')"
    "numStr t = numStr t'" "conditionName c @ CHR '':'' # s = conditionName c' @ CHR '':'' # s'"
    using assms(1) unfolding e split_last [OF assms(4) assms(4)] split_last [OF flag flag] by blast+
  then show ?thesis
    using assms(2,3) split_first [OF conditionName_colon conditionName_colon] by (auto simp: conditionName_inj split: if_splits)
qed

theorem arming_revision_identifies_alert_witness:
  "\<not> (alertArmingRevision (\<lambda>x. if x = Fin 1 then ''1'' else ''2'') CrossUp ''A:B'' (Fin 1) True (Fin 1) =
      alertArmingRevision (\<lambda>x. if x = Fin 1 then ''1'' else ''2'') CrossUp ''A:B'' (Fin 2) True (Fin 1))"
proof
  let ?n = "\<lambda>x. if x = Fin 1 then ''1'' else ''2''"
  assume "alertArmingRevision ?n CrossUp ''A:B'' (Fin 1) True (Fin 1) = alertArmingRevision ?n CrossUp ''A:B'' (Fin 2) True (Fin 1)"
  then have "CrossUp = CrossUp \<and> ''A:B'' = ''A:B'' \<and> Fin 1 = Fin 2 \<and> True = True \<and> Fin 1 = Fin 1"
    by (rule arming_revision_identifies_alert) simp_all
  then show False by simp
qed

end
