(* ===== verification/TriggerQueue.thy ===== *)
theory TriggerQueue
  imports AlertTargets
begin

section \<open>The browser's alert trigger queue\<close>

text \<open>
  Models \<open>services/notifications/browserAlertTriggerQueue.ts\<close>: the class \<open>BrowserAlertTriggerQueue\<close> as a
  record and its methods as functions.  A running \<open>run\<close> is an element of \<open>q_inFlight\<close> that
  remembers the entry object it captured; its \<open>await\<close> ends with \<open>settleAttempt\<close>.  Object identity of
  entries (\<open>!== entry\<close>) is a serial number.  The callbacks are arguments: \<open>isCurrent\<close> at each call, the
  outcome of \<open>attempt\<close> (which may also reject) when it settles; \<open>notify\<close> appends to a log.

  The lemmas show that a candidate waits with exactly one attempt or one timer unless its attempt rejected, is
  notified at most once, and disappears only for the reasons the class names.
\<close>

subsection \<open>State\<close>

record trigger_candidate =
  bc_alertId :: string
  bc_revision :: string
  bc_triggerPrice :: jsnum
  bc_targetPrice :: jsnum
  bc_evidence :: "evidence option"

text \<open>An attempt resolves with one of the three statuses, or its promise rejects.\<close>

datatype 'v attempt_result = Committed 'v | Retryable | Discarded | Rejects

record pending_attempt =
  pa_serial :: nat
  pa_candidate :: trigger_candidate
  pa_attempts :: nat

record queue_config =
  qc_retryBaseMs :: "jsnum option"
  qc_retryMaxMs :: "jsnum option"

record 'v trigger_queue =
  q_pending :: "(string, pending_attempt) js_map"
  q_inFlight :: "(string, pending_attempt) js_map"
  q_timers :: "(string, jsnum) js_map"
  q_disposed :: bool
  q_nextSerial :: nat
  q_notified :: "(nat \<times> trigger_candidate \<times> 'v) list"

definition newQueue :: "'v trigger_queue" where
  "newQueue = \<lparr>q_pending = [], q_inFlight = [], q_timers = [], q_disposed = False, q_nextSerial = 0, q_notified = []\<rparr>"

subsection \<open>Methods\<close>

definition clearTimer :: "string \<Rightarrow> 'v trigger_queue \<Rightarrow> 'v trigger_queue" where
  "clearTimer alertId q = q\<lparr>q_timers := map_delete alertId (q_timers q)\<rparr>"

definition dropPending :: "string \<Rightarrow> 'v trigger_queue \<Rightarrow> 'v trigger_queue" where
  "dropPending alertId q = clearTimer alertId (q\<lparr>q_pending := map_delete alertId (q_pending q)\<rparr>)"

text \<open>\<open>run\<close> up to its \<open>await\<close>.\<close>

definition runAttempt :: "(trigger_candidate \<Rightarrow> bool) \<Rightarrow> string \<Rightarrow> 'v trigger_queue \<Rightarrow> 'v trigger_queue" where
  "runAttempt isCurrent alertId q =
     (if q_disposed q \<or> map_has (q_inFlight q) alertId then q
      else
        case map_get (q_pending q) alertId of
          None \<Rightarrow> q
        | Some entry \<Rightarrow>
            if \<not> isCurrent (pa_candidate entry) then dropPending alertId q
            else
              let entry' = entry\<lparr>pa_attempts := pa_attempts entry + 1\<rparr>
              in q\<lparr>q_pending := map_set alertId entry' (q_pending q),
                   q_inFlight := map_set alertId entry' (q_inFlight q)\<rparr>)"

definition enqueueTrigger ::
  "(trigger_candidate \<Rightarrow> bool) \<Rightarrow> trigger_candidate \<Rightarrow> 'v trigger_queue \<Rightarrow> 'v trigger_queue" where
  "enqueueTrigger isCurrent candidate q =
     (if q_disposed q then q
      else if (case map_get (q_pending q) (bc_alertId candidate) of
                 Some existing \<Rightarrow> bc_revision (pa_candidate existing) = bc_revision candidate | None \<Rightarrow> False) then q
      else
        let q1 = clearTimer (bc_alertId candidate) q;
            entry = \<lparr>pa_serial = q_nextSerial q1, pa_candidate = candidate, pa_attempts = 0\<rparr>
        in runAttempt isCurrent (bc_alertId candidate)
             (q1\<lparr>q_pending := map_set (bc_alertId candidate) entry (q_pending q1), q_nextSerial := q_nextSerial q1 + 1\<rparr>))"

definition disposeQueue :: "'v trigger_queue \<Rightarrow> 'v trigger_queue" where
  "disposeQueue q = q\<lparr>q_disposed := True, q_timers := [], q_pending := []\<rparr>"

definition pendingCount :: "'v trigger_queue \<Rightarrow> nat" where
  "pendingCount q = length (q_pending q)"

definition triggerRetryDelay :: "queue_config \<Rightarrow> pending_attempt \<Rightarrow> jsnum" where
  "triggerRetryDelay cfg entry =
     (let base = (case qc_retryBaseMs cfg of Some b \<Rightarrow> b | None \<Rightarrow> Fin 2000);
          maximum = (case qc_retryMaxMs cfg of Some m \<Rightarrow> m | None \<Rightarrow> Fin 30000)
      in js_min (js_mul base (f64 (2 ^ (pa_attempts entry - 1)))) maximum)"

definition scheduleRetry :: "queue_config \<Rightarrow> string \<Rightarrow> pending_attempt \<Rightarrow> 'v trigger_queue \<Rightarrow> 'v trigger_queue" where
  "scheduleRetry cfg alertId entry q =
     (if q_disposed q \<or> map_has (q_timers q) alertId then q
      else q\<lparr>q_timers := map_set alertId (triggerRetryDelay cfg entry) (q_timers q)\<rparr>)"

definition timerFires :: "(trigger_candidate \<Rightarrow> bool) \<Rightarrow> string \<Rightarrow> 'v trigger_queue \<Rightarrow> 'v trigger_queue" where
  "timerFires isCurrent alertId q =
     (if map_has (q_timers q) alertId
      then runAttempt isCurrent alertId (q\<lparr>q_timers := map_delete alertId (q_timers q)\<rparr>) else q)"

definition isEntry :: "pending_attempt \<Rightarrow> pending_attempt option \<Rightarrow> bool" where
  "isEntry entry p = (case p of Some e \<Rightarrow> pa_serial e = pa_serial entry | None \<Rightarrow> False)"

text \<open>The rest of \<open>run\<close>: what follows the \<open>await\<close>, and then its \<open>finally\<close> block.\<close>

definition afterAttempt ::
  "queue_config \<Rightarrow> (trigger_candidate \<Rightarrow> bool) \<Rightarrow> string \<Rightarrow> pending_attempt \<Rightarrow> 'v attempt_result \<Rightarrow>
   'v trigger_queue \<Rightarrow> 'v trigger_queue" where
  "afterAttempt cfg isCurrent alertId entry outcome q =
     (if \<not> isEntry entry (map_get (q_pending q) alertId) then q
      else
        case outcome of
          Rejects \<Rightarrow> q
        | Committed v \<Rightarrow>
            (let q1 = dropPending alertId q
             in q1\<lparr>q_notified := q_notified q1 @ [(pa_serial entry, pa_candidate entry, v)]\<rparr>)
        | Discarded \<Rightarrow> dropPending alertId q
        | Retryable \<Rightarrow>
            if \<not> isCurrent (pa_candidate entry) then dropPending alertId q else scheduleRetry cfg alertId entry q)"

definition finallyBlock ::
  "(trigger_candidate \<Rightarrow> bool) \<Rightarrow> string \<Rightarrow> pending_attempt \<Rightarrow> 'v trigger_queue \<Rightarrow> 'v trigger_queue" where
  "finallyBlock isCurrent alertId entry q =
     (let q1 = q\<lparr>q_inFlight := map_delete alertId (q_inFlight q)\<rparr>
      in if \<not> q_disposed q1 \<and> map_has (q_pending q1) alertId \<and> \<not> map_has (q_timers q1) alertId
            \<and> \<not> isEntry entry (map_get (q_pending q1) alertId)
         then runAttempt isCurrent alertId q1 else q1)"

definition settleAttempt ::
  "queue_config \<Rightarrow> (trigger_candidate \<Rightarrow> bool) \<Rightarrow> string \<Rightarrow> 'v attempt_result \<Rightarrow> 'v trigger_queue \<Rightarrow> 'v trigger_queue" where
  "settleAttempt cfg isCurrent alertId outcome q =
     (case map_get (q_inFlight q) alertId of
        None \<Rightarrow> q
      | Some entry \<Rightarrow> finallyBlock isCurrent alertId entry (afterAttempt cfg isCurrent alertId entry outcome q))"

subsection \<open>Events\<close>

datatype 'v queue_event =
    EEnqueue trigger_candidate
  | ETimer string
  | ESettle string "'v attempt_result"
  | EDispose

fun applyEvent ::
  "queue_config \<Rightarrow> (trigger_candidate \<Rightarrow> bool) \<Rightarrow> 'v queue_event \<Rightarrow> 'v trigger_queue \<Rightarrow> 'v trigger_queue" where
  "applyEvent cfg isCurrent (EEnqueue c) q = enqueueTrigger isCurrent c q"
| "applyEvent cfg isCurrent (ETimer i) q = timerFires isCurrent i q"
| "applyEvent cfg isCurrent (ESettle i r) q = settleAttempt cfg isCurrent i r q"
| "applyEvent cfg isCurrent EDispose q = disposeQueue q"

text \<open>
  Runs of the queue: any events in any order, and which alerts are current may change between events.  Beside the
  queue a run collects the rejections: the alert and the serial number of each entry whose attempt has rejected.
\<close>

fun rejections :: "'v queue_event \<Rightarrow> 'v trigger_queue \<Rightarrow> (string \<times> nat) set" where
  "rejections (ESettle i Rejects) q = (case map_get (q_inFlight q) i of Some e \<Rightarrow> {(i, pa_serial e)} | None \<Rightarrow> {})"
| "rejections _ q = {}"

inductive queue_run :: "queue_config \<Rightarrow> (string \<times> nat) set \<Rightarrow> 'v trigger_queue \<Rightarrow> bool" for cfg where
  run_new: "queue_run cfg {} newQueue"
| run_event: "queue_run cfg R q \<Longrightarrow> queue_run cfg (R \<union> rejections ev q) (applyEvent cfg isCurrent ev q)"

subsection \<open>Invariants\<close>

lemma mget_delete [simp]: "map_of (AList.delete k m) j = (if j = k then None else map_of m j)"
  by (simp add: delete_conv')

lemma mget_update [simp]: "map_of (AList.update k v m) j = (if j = k then Some v else map_of m j)"
  by (simp add: update_conv')

text \<open>The structural part, which holds whatever attempts do.\<close>

definition pending_sound :: "'v trigger_queue \<Rightarrow> bool" where
  "pending_sound q \<longleftrightarrow> (\<forall>i e. map_get (q_pending q) i = Some e \<longrightarrow>
     bc_alertId (pa_candidate e) = i \<and> pa_serial e < q_nextSerial q \<and> pa_serial e \<notin> fst ` set (q_notified q))"

definition flight_sound :: "'v trigger_queue \<Rightarrow> bool" where
  "flight_sound q \<longleftrightarrow> (\<forall>i e. map_get (q_inFlight q) i = Some e \<longrightarrow> pa_serial e < q_nextSerial q)"

definition serials_unique :: "'v trigger_queue \<Rightarrow> bool" where
  "serials_unique q \<longleftrightarrow> (\<forall>i j e f. map_get (q_pending q) i = Some e \<longrightarrow> map_get (q_pending q) j = Some f \<longrightarrow>
     pa_serial e = pa_serial f \<longrightarrow> i = j)"

definition notified_sound :: "'v trigger_queue \<Rightarrow> bool" where
  "notified_sound q \<longleftrightarrow> (\<forall>s \<in> fst ` set (q_notified q). s < q_nextSerial q) \<and> distinct (map fst (q_notified q))"

definition disposed_empty :: "'v trigger_queue \<Rightarrow> bool" where
  "disposed_empty q \<longleftrightarrow> (q_disposed q \<longrightarrow> q_pending q = [] \<and> q_timers q = [])"

definition queue_core :: "'v trigger_queue \<Rightarrow> bool" where
  "queue_core q \<longleftrightarrow> pending_sound q \<and> flight_sound q \<and> serials_unique q \<and> notified_sound q \<and> disposed_empty q"

text \<open>
  One alert's slot: a timer only for a pending candidate not being attempted, and everything pending scheduled
  unless its attempt has rejected.
\<close>

definition slot_ok :: "(string \<times> nat) set \<Rightarrow> 'v trigger_queue \<Rightarrow> string \<Rightarrow> bool" where
  "slot_ok R q i \<longleftrightarrow>
     (map_has (q_timers q) i \<longrightarrow> map_has (q_pending q) i \<and> \<not> map_has (q_inFlight q) i)
     \<and> (\<forall>e. map_get (q_pending q) i = Some e \<longrightarrow>
          (if (i, pa_serial e) \<in> R then \<not> map_has (q_inFlight q) i \<and> \<not> map_has (q_timers q) i
           else map_has (q_inFlight q) i \<or> map_has (q_timers q) i))"

text \<open>Two queues agree on one alert's slot.\<close>

definition same_slot :: "'v trigger_queue \<Rightarrow> 'v trigger_queue \<Rightarrow> string \<Rightarrow> bool" where
  "same_slot q q' j \<longleftrightarrow> map_get (q_pending q') j = map_get (q_pending q) j
     \<and> map_get (q_inFlight q') j = map_get (q_inFlight q) j \<and> map_get (q_timers q') j = map_get (q_timers q) j"

lemma same_slot_refl [simp]: "same_slot q q j"
  by (simp add: same_slot_def)

lemma same_slot_trans: "same_slot q q' j \<Longrightarrow> same_slot q' q'' j \<Longrightarrow> same_slot q q'' j"
  by (simp add: same_slot_def)

lemma same_slot_ok: "same_slot q q' j \<Longrightarrow> slot_ok R q j \<Longrightarrow> slot_ok R q' j"
  unfolding same_slot_def slot_ok_def by (elim conjE) (simp only: simp_thms)

lemma same_slot_run: "j \<noteq> i \<Longrightarrow> same_slot q (runAttempt cur i q) j"
  by (auto simp: same_slot_def runAttempt_def dropPending_def clearTimer_def Let_def split: option.splits)

lemma same_slot_after: "j \<noteq> i \<Longrightarrow> same_slot q (afterAttempt cfg cur i e r q) j"
  by (auto simp: same_slot_def afterAttempt_def dropPending_def clearTimer_def scheduleRetry_def Let_def
      split: attempt_result.splits)

lemma same_slot_finally: "j \<noteq> i \<Longrightarrow> same_slot q (finallyBlock cur i e q) j"
  using same_slot_run [of j i "q\<lparr>q_inFlight := map_delete i (q_inFlight q)\<rparr>" cur]
  by (simp add: finallyBlock_def Let_def same_slot_def)

lemma same_slot_settle: "j \<noteq> i \<Longrightarrow> same_slot q (settleAttempt cfg cur i r q) j"
  by (auto simp: settleAttempt_def split: option.splits intro: same_slot_trans same_slot_after same_slot_finally)

lemma same_slot_enqueue: "j \<noteq> bc_alertId c \<Longrightarrow> same_slot q (enqueueTrigger cur c q) j"
proof (cases "enqueueTrigger cur c q = q")
  case False
  define q1 where "q1 = (clearTimer (bc_alertId c) q)\<lparr>q_pending := map_set (bc_alertId c)
      \<lparr>pa_serial = q_nextSerial q, pa_candidate = c, pa_attempts = 0\<rparr> (q_pending q), q_nextSerial := q_nextSerial q + 1\<rparr>"
  have "enqueueTrigger cur c q = runAttempt cur (bc_alertId c) q1"
    using False by (auto simp: enqueueTrigger_def Let_def clearTimer_def q1_def split: if_splits)
  moreover assume "j \<noteq> bc_alertId c"
  moreover from this have "same_slot q q1 j" by (simp add: same_slot_def q1_def clearTimer_def)
  ultimately show ?thesis using same_slot_trans same_slot_run by metis
qed simp

lemma same_slot_timer: "j \<noteq> i \<Longrightarrow> same_slot q (timerFires cur i q) j"
  using same_slot_run [of j i "q\<lparr>q_timers := map_delete i (q_timers q)\<rparr>" cur]
  by (simp add: timerFires_def same_slot_def)

lemma slot_run:
  assumes "\<not> map_has (q_timers q) i" "q_disposed q \<Longrightarrow> q_pending q = []"
    and "\<And>e. map_get (q_pending q) i = Some e \<Longrightarrow> (i, pa_serial e) \<notin> R"
  shows "slot_ok R (runAttempt cur i q) i"
  using assms by (auto simp: runAttempt_def slot_ok_def dropPending_def clearTimer_def Let_def split: option.splits)

text \<open>Only entries that exist have been rejected.\<close>

definition rejected_sound :: "(string \<times> nat) set \<Rightarrow> 'v trigger_queue \<Rightarrow> bool" where
  "rejected_sound R q \<longleftrightarrow> (\<forall>(i, s) \<in> R. s < q_nextSerial q)"

lemma slot_enqueue:
  assumes "rejected_sound R q" "slot_ok R q (bc_alertId c)" shows "slot_ok R (enqueueTrigger cur c q) (bc_alertId c)"
proof (cases "enqueueTrigger cur c q = q")
  case False
  moreover have "(bc_alertId c, q_nextSerial q) \<notin> R" using assms(1) by (auto simp: rejected_sound_def)
  ultimately show ?thesis
    by (auto simp: enqueueTrigger_def Let_def clearTimer_def split: if_splits intro!: slot_run)
qed (simp add: assms)

lemma slot_timer:
  assumes "queue_core q" "slot_ok R q i" shows "slot_ok R (timerFires cur i q) i"
proof (cases "map_has (q_timers q) i")
  case True
  then have "(i, pa_serial e) \<notin> R" if "map_get (q_pending q) i = Some e" for e using assms(2) that by (auto simp: slot_ok_def)
  then show ?thesis using assms(1) True unfolding timerFires_def
    by (auto simp: queue_core_def disposed_empty_def intro!: slot_run)
qed (simp add: timerFires_def assms(2))

lemma settle_replaced:
  assumes "map_get (q_inFlight q) i = Some e" "\<not> isEntry e (map_get (q_pending q) i)"
  shows "settleAttempt cfg cur i r q = finallyBlock cur i e q"
  using assms by (simp add: settleAttempt_def afterAttempt_def)

lemma slot_settle:
  assumes "queue_core q" "slot_ok R q i" shows "slot_ok (R \<union> rejections (ESettle i r) q) (settleAttempt cfg cur i r q) i"
proof (cases "map_get (q_inFlight q) i")
  case None
  then have "rejections (ESettle i r) q = {}" by (cases r) simp_all
  then show ?thesis using None assms(2) by (simp add: settleAttempt_def)
next
  case (Some e)
  then have nt: "map_get (q_timers q) i = None" using assms(2) by (auto simp: slot_ok_def)
  have disp: "q_disposed q \<Longrightarrow> q_pending q = []" using assms(1) by (simp add: queue_core_def disposed_empty_def)
  have new: "rejections (ESettle i r) q = (if r = Rejects then {(i, pa_serial e)} else {})" using Some by (cases r) simp_all
  have old: "(i, pa_serial f) \<notin> R" if "map_get (q_pending q) i = Some f" for f
    using assms(2) that Some by (auto simp: slot_ok_def)
  show ?thesis
  proof (cases "isEntry e (map_get (q_pending q) i)")
    case False
    have "slot_ok (R \<union> rejections (ESettle i r) q) (runAttempt cur i (q\<lparr>q_inFlight := map_delete i (q_inFlight q)\<rparr>)) i"
      using nt disp old False by (intro slot_run) (auto simp: new isEntry_def)
    then show ?thesis using settle_replaced [OF Some False] nt disp False
      by (auto simp: finallyBlock_def Let_def slot_ok_def)
  next
    case True
    then obtain f where f: "map_get (q_pending q) i = Some f" "pa_serial f = pa_serial e"
      by (auto simp: isEntry_def split: option.splits)
    then have "\<not> q_disposed q" using disp by auto
    then have "let q1 = afterAttempt cfg cur i e r q in
        map_get (q_pending q1) i = None \<and> map_get (q_timers q1) i = None
        \<or> map_get (q_pending q1) i = Some f \<and> map_has (q_timers q1) i = (r \<noteq> Rejects)"
      using True nt f by (cases r) (simp_all add: afterAttempt_def Let_def dropPending_def clearTimer_def scheduleRetry_def)
    then show ?thesis using Some f old [OF f(1)]
      by (auto simp: new settleAttempt_def finallyBlock_def Let_def slot_ok_def isEntry_def split: if_splits)
  qed
qed

subsection \<open>The structural invariant\<close>

lemmas core_defs = queue_core_def pending_sound_def flight_sound_def serials_unique_def notified_sound_def disposed_empty_def

lemma core_serial:
  assumes "queue_core q" "map_get (q_pending q) i = Some e"
  shows "bc_alertId (pa_candidate e) = i" "pa_serial e < q_nextSerial q" "pa_serial e \<notin> fst ` set (q_notified q)"
  using assms unfolding queue_core_def pending_sound_def by auto

text \<open>Forgetting entries keeps the invariant.\<close>

lemma core_shrink:
  assumes c: "queue_core q" and p: "\<And>i e. map_get (q_pending q') i = Some e \<Longrightarrow> map_get (q_pending q) i = Some e"
    and f: "\<And>i e. map_get (q_inFlight q') i = Some e \<Longrightarrow> map_get (q_inFlight q) i = Some e"
    and "q_nextSerial q' = q_nextSerial q" "q_notified q' = q_notified q" "disposed_empty q'"
  shows "queue_core q'"
proof -
  have "pending_sound q'" using c p assms(4,5) unfolding queue_core_def pending_sound_def by metis
  moreover have "flight_sound q'" using c f assms(4) unfolding queue_core_def flight_sound_def by metis
  moreover have "serials_unique q'" using c p unfolding queue_core_def serials_unique_def by meson
  moreover have "notified_sound q'" using c assms(4,5) by (simp add: queue_core_def notified_sound_def)
  ultimately show ?thesis using assms(6) by (simp add: queue_core_def)
qed

lemma core_drop: assumes "queue_core q" shows "queue_core (dropPending i q)"
  using assms by (rule core_shrink) (use assms in \<open>auto simp: dropPending_def clearTimer_def core_defs split: if_splits\<close>)

lemma core_frame: "queue_core q \<Longrightarrow> \<not> q_disposed q \<Longrightarrow> queue_core (q\<lparr>q_timers := t\<rparr>)"
  by (simp add: core_defs)

lemma core_clear: "queue_core q \<Longrightarrow> queue_core (q\<lparr>q_timers := map_delete i (q_timers q)\<rparr>)"
  by (auto simp: core_defs)

lemma core_flight: assumes "queue_core q" shows "queue_core (q\<lparr>q_inFlight := map_delete i (q_inFlight q)\<rparr>)"
  using assms by (rule core_shrink) (use assms in \<open>auto simp: core_defs split: if_splits\<close>)

lemma core_start:
  assumes c: "queue_core q" and e: "map_get (q_pending q) i = Some e" "\<not> q_disposed q"
    and e': "pa_serial e' = pa_serial e" "pa_candidate e' = pa_candidate e"
  shows "queue_core (q\<lparr>q_pending := map_set i e' (q_pending q), q_inFlight := map_set i e' (q_inFlight q)\<rparr>)"
    (is "queue_core ?q")
proof -
  note se = core_serial [OF c e(1)]
  have "pending_sound ?q"
    unfolding pending_sound_def
  proof (intro allI impI)
    fix j f assume "map_get (q_pending ?q) j = Some f"
    then show "bc_alertId (pa_candidate f) = j \<and> pa_serial f < q_nextSerial ?q \<and> pa_serial f \<notin> fst ` set (q_notified ?q)"
      using se e' core_serial [OF c, of j f] by (cases "j = i") auto
  qed
  moreover have "flight_sound ?q"
    unfolding flight_sound_def
  proof (intro allI impI)
    fix j f assume "map_get (q_inFlight ?q) j = Some f"
    then show "pa_serial f < q_nextSerial ?q"
      using se(2) e'(1) c unfolding queue_core_def flight_sound_def by (cases "j = i") auto
  qed
  moreover have "serials_unique ?q"
    unfolding serials_unique_def
  proof (intro allI impI)
    fix j k f g
    assume "map_get (q_pending ?q) j = Some f" "map_get (q_pending ?q) k = Some g" "pa_serial f = pa_serial g"
    then show "j = k" using e(1) e'(1) c unfolding queue_core_def serials_unique_def
      by (cases "j = i"; cases "k = i") auto
  qed
  ultimately show ?thesis using c e(2) by (simp add: queue_core_def notified_sound_def disposed_empty_def)
qed

lemma core_run: assumes "queue_core q" shows "queue_core (runAttempt cur i q)"
proof (cases "q_disposed q \<or> map_has (q_inFlight q) i \<or> map_get (q_pending q) i = None")
  case False
  then obtain e where e: "map_get (q_pending q) i = Some e" "\<not> q_disposed q" by auto
  then show ?thesis using False core_drop [OF assms] core_start [OF assms e] by (simp add: runAttempt_def Let_def)
qed (use assms in \<open>auto simp: runAttempt_def split: option.splits\<close>)

lemma core_notify:
  assumes "queue_core q" "map_get (q_pending q) i = Some e"
  shows "queue_core ((dropPending i q)\<lparr>q_notified := q_notified (dropPending i q) @ [(pa_serial e, c, v)]\<rparr>)" (is "queue_core ?q")
proof -
  note d = core_drop [OF assms(1), of i]
  note se = core_serial [OF assms]
  have "pending_sound ?q"
    unfolding pending_sound_def
  proof (intro allI impI)
    fix j f assume "map_get (q_pending ?q) j = Some f"
    then have f: "map_get (q_pending q) j = Some f" "j \<noteq> i" by (auto simp: dropPending_def clearTimer_def split: if_splits)
    then have "pa_serial f \<noteq> pa_serial e" using assms unfolding queue_core_def serials_unique_def by metis
    then show "bc_alertId (pa_candidate f) = j \<and> pa_serial f < q_nextSerial ?q \<and> pa_serial f \<notin> fst ` set (q_notified ?q)"
      using core_serial [OF assms(1) f(1)] by (simp add: dropPending_def clearTimer_def)
  qed
  moreover have "notified_sound ?q"
    using assms(1) se by (auto simp: queue_core_def notified_sound_def dropPending_def clearTimer_def)
  ultimately show ?thesis using d by (simp add: queue_core_def flight_sound_def serials_unique_def disposed_empty_def)
qed

lemma core_after: assumes "queue_core q" shows "queue_core (afterAttempt cfg cur i e r q)"
proof (cases "isEntry e (map_get (q_pending q) i)")
  case True
  then obtain f where f: "map_get (q_pending q) i = Some f" "pa_serial f = pa_serial e"
    by (auto simp: isEntry_def split: option.splits)
  have "queue_core (scheduleRetry cfg i e q)" using assms by (simp add: scheduleRetry_def core_frame)
  then show ?thesis
    using True core_notify [OF assms f(1)] core_drop [OF assms] assms f(2)
    by (cases r) (simp_all add: afterAttempt_def Let_def)
qed (use assms in \<open>simp add: afterAttempt_def\<close>)

lemma core_settle: "queue_core q \<Longrightarrow> queue_core (settleAttempt cfg cur i r q)"
  by (simp add: settleAttempt_def finallyBlock_def Let_def core_after core_run core_flight split: option.splits)

lemma core_add:
  assumes c: "queue_core q" and nd: "\<not> q_disposed q" and i: "bc_alertId (pa_candidate e) = i" "pa_serial e = q_nextSerial q"
  shows "queue_core (q\<lparr>q_pending := map_set i e (q_pending q), q_nextSerial := q_nextSerial q + 1\<rparr>)" (is "queue_core ?q")
proof -
  have fresh: "pa_serial e \<notin> fst ` set (q_notified q)" using c i(2) unfolding queue_core_def notified_sound_def by auto
  have "pending_sound ?q"
    unfolding pending_sound_def
  proof (intro allI impI)
    fix j f assume "map_get (q_pending ?q) j = Some f"
    then show "bc_alertId (pa_candidate f) = j \<and> pa_serial f < q_nextSerial ?q \<and> pa_serial f \<notin> fst ` set (q_notified ?q)"
      using i fresh core_serial [OF c, of j f] by (cases "j = i") auto
  qed
  moreover have "flight_sound ?q" using c unfolding queue_core_def flight_sound_def by (auto intro: less_SucI)
  moreover have "serials_unique ?q"
    unfolding serials_unique_def
  proof (intro allI impI)
    fix j k f g
    assume a: "map_get (q_pending ?q) j = Some f" "map_get (q_pending ?q) k = Some g" "pa_serial f = pa_serial g"
    have "pa_serial h \<noteq> pa_serial e" if "map_get (q_pending q) l = Some h" for l h using core_serial(2) [OF c that] i(2) by simp
    then show "j = k" using a c unfolding queue_core_def serials_unique_def by (cases "j = i"; cases "k = i") auto
  qed
  moreover have "notified_sound ?q" using c unfolding queue_core_def notified_sound_def by (auto intro: less_SucI)
  ultimately show ?thesis using nd by (simp add: queue_core_def disposed_empty_def)
qed

lemma core_enqueue: assumes "queue_core q" shows "queue_core (enqueueTrigger cur c q)"
proof -
  define q1 where "q1 = clearTimer (bc_alertId c) q"
  have q1: "queue_core q1" "q_disposed q1 = q_disposed q" using core_clear [OF assms] by (simp_all add: q1_def clearTimer_def)
  have "queue_core (runAttempt cur (bc_alertId c) (q1\<lparr>q_pending := map_set (bc_alertId c)
      \<lparr>pa_serial = q_nextSerial q1, pa_candidate = c, pa_attempts = 0\<rparr> (q_pending q1), q_nextSerial := q_nextSerial q1 + 1\<rparr>))"
    if "\<not> q_disposed q"
    using that q1 by (intro core_run core_add) simp_all
  then show ?thesis using assms by (simp add: enqueueTrigger_def Let_def q1_def [symmetric])
qed

lemma core_event: "queue_core q \<Longrightarrow> queue_core (applyEvent cfg cur ev q)"
  by (cases ev) (simp_all add: core_enqueue core_settle timerFires_def core_run core_clear,
    simp add: core_defs disposeQueue_def)

lemma slot_other: "slot_ok R q j \<Longrightarrow> j \<noteq> i \<Longrightarrow> slot_ok (R \<union> rejections (ESettle i r) q) q j"
  by (cases r) (auto simp: slot_ok_def split: option.splits)

lemma slots_event:
  assumes "queue_core q" "\<And>i. slot_ok R q i" "rejected_sound R q"
  shows "slot_ok (R \<union> rejections ev q) (applyEvent cfg cur ev q) j"
proof (cases ev)
  case (EEnqueue c)
  then show ?thesis using slot_enqueue [OF assms(3,2)] same_slot_ok [OF same_slot_enqueue assms(2)] by (cases "j = bc_alertId c") auto
next
  case (ETimer i)
  then show ?thesis using slot_timer [OF assms(1,2)] same_slot_ok [OF same_slot_timer assms(2)] by (cases "j = i") auto
next
  case (ESettle i r)
  then show ?thesis using slot_settle [OF assms(1,2)] same_slot_ok [OF same_slot_settle slot_other [OF assms(2)]]
    by (cases "j = i") auto
next
  case EDispose
  then show ?thesis by (simp add: disposeQueue_def slot_ok_def)
qed

lemma nextSerial_run [simp]: "q_nextSerial (runAttempt cur i q) = q_nextSerial q"
  by (simp add: runAttempt_def dropPending_def clearTimer_def Let_def split: option.split)

lemma nextSerial_after [simp]: "q_nextSerial (afterAttempt cfg cur i e r q) = q_nextSerial q"
  by (simp add: afterAttempt_def dropPending_def clearTimer_def scheduleRetry_def Let_def split: attempt_result.split)

lemma nextSerial_mono: "q_nextSerial q \<le> q_nextSerial (applyEvent cfg cur ev q)"
  by (cases ev) (simp_all add: enqueueTrigger_def clearTimer_def timerFires_def settleAttempt_def finallyBlock_def
      disposeQueue_def Let_def split: option.split)

lemma rejected_event:
  assumes "queue_core q" "rejected_sound R q" shows "rejected_sound (R \<union> rejections ev q) (applyEvent cfg cur ev q)"
proof -
  have "rejected_sound (rejections ev q) q"
    using assms(1) by (cases "(ev, q)" rule: rejections.cases)
      (auto simp: rejected_sound_def queue_core_def flight_sound_def split: option.splits)
  then have "rejected_sound (R \<union> rejections ev q) q" using assms(2) by (auto simp: rejected_sound_def)
  then show ?thesis using nextSerial_mono [of q cfg cur ev] by (auto simp: rejected_sound_def dest!: bspec)
qed

lemma queue_run_all: "queue_run cfg R q \<Longrightarrow> queue_core q \<and> (\<forall>i. slot_ok R q i) \<and> rejected_sound R q"
proof (induction rule: queue_run.induct)
  case run_new then show ?case by (simp add: core_defs slot_ok_def rejected_sound_def newQueue_def)
next
  case (run_event R q ev cur)
  then show ?case using core_event slots_event rejected_event by blast
qed

lemma queue_run_ok: "queue_run cfg R q \<Longrightarrow> queue_core q" "queue_run cfg R q \<Longrightarrow> slot_ok R q i"
  using queue_run_all by blast+

subsection \<open>When a candidate leaves the queue\<close>

lemma run_keeps:
  assumes "map_get (q_pending q) i = Some e" "isCurrent (pa_candidate e)"
  shows "isEntry e (map_get (q_pending (runAttempt isCurrent j q)) i)"
  using assms by (auto simp: runAttempt_def isEntry_def dropPending_def clearTimer_def Let_def split: option.splits)

lemma finally_keeps:
  assumes "map_get (q_pending q) i = Some e" "isCurrent (pa_candidate e)"
  shows "isEntry e (map_get (q_pending (finallyBlock isCurrent j f q)) i)"
  using assms run_keeps [of "q\<lparr>q_inFlight := map_delete j (q_inFlight q)\<rparr>" i e isCurrent j]
  by (simp add: finallyBlock_def Let_def isEntry_def)

lemma after_keeps:
  assumes "map_get (q_pending q) i = Some e" "isCurrent (pa_candidate e)"
    and "i = j \<Longrightarrow> pa_serial e = pa_serial f \<Longrightarrow> r \<noteq> Discarded \<and> (\<forall>v. r \<noteq> Committed v) \<and> isCurrent (pa_candidate f)"
  shows "map_get (q_pending (afterAttempt cfg isCurrent j f r q)) i = Some e"
  using assms by (cases "i = j"; cases r)
    (auto simp: afterAttempt_def isEntry_def dropPending_def clearTimer_def scheduleRetry_def Let_def)

lemma settle_committed:
  assumes "map_get (q_inFlight q) i = Some f" "map_get (q_pending q) i = Some e" "pa_serial e = pa_serial f"
  shows "(pa_serial f, pa_candidate f, v) \<in> set (q_notified (settleAttempt cfg isCurrent i (Committed v) q))"
proof -
  have "q_notified (runAttempt isCurrent j q') = q_notified q'" for j and q' :: "'a trigger_queue"
    by (simp add: runAttempt_def dropPending_def clearTimer_def Let_def split: option.splits)
  then have "q_notified (finallyBlock isCurrent i f q') = q_notified q'" for q' :: "'a trigger_queue"
    by (simp add: finallyBlock_def Let_def)
  then show ?thesis using assms by (simp add: settleAttempt_def afterAttempt_def isEntry_def Let_def)
qed

text \<open>The entry an attempt captured is the one in the map as long as the serials agree.\<close>

definition captured_at :: "'v trigger_queue \<Rightarrow> string \<Rightarrow> bool" where
  "captured_at q i =
     (case map_get (q_inFlight q) i of
        None \<Rightarrow> True
      | Some f \<Rightarrow>
          (case map_get (q_pending q) i of
             None \<Rightarrow> True
           | Some e \<Rightarrow> pa_serial e = pa_serial f \<longrightarrow> pa_candidate e = pa_candidate f))"

lemma captured_same: "same_slot q q' j \<Longrightarrow> captured_at q j \<Longrightarrow> captured_at q' j"
  unfolding same_slot_def captured_at_def by (elim conjE) (simp only:)

lemma captured_run: "captured_at q i \<Longrightarrow> captured_at (runAttempt cur i q) i"
  by (cases "map_get (q_pending q) i")
    (simp_all add: captured_at_def runAttempt_def dropPending_def clearTimer_def Let_def split: option.split)

lemma captured_idle: "map_get (q_inFlight q) i = None \<Longrightarrow> captured_at q i"
  by (simp add: captured_at_def)

lemma captured_settle: "captured_at q i \<Longrightarrow> captured_at (settleAttempt cfg cur i r q) i"
  by (cases "map_get (q_inFlight q) i")
    (simp_all add: settleAttempt_def finallyBlock_def Let_def captured_run captured_idle)

lemma captured_enqueue:
  assumes "queue_core q" "captured_at q (bc_alertId c)" shows "captured_at (enqueueTrigger cur c q) (bc_alertId c)"
proof -
  define q1 where "q1 = (clearTimer (bc_alertId c) q)\<lparr>q_pending := map_set (bc_alertId c)
      \<lparr>pa_serial = q_nextSerial q, pa_candidate = c, pa_attempts = 0\<rparr> (q_pending q), q_nextSerial := q_nextSerial q + 1\<rparr>"
  have "captured_at q1 (bc_alertId c)"
  proof (cases "map_get (q_inFlight q) (bc_alertId c)")
    case (Some f)
    then have "pa_serial f < q_nextSerial q" using assms(1) unfolding queue_core_def flight_sound_def by blast
    then show ?thesis using Some by (simp add: captured_at_def q1_def clearTimer_def)
  qed (simp add: captured_at_def q1_def clearTimer_def)
  then have "captured_at (runAttempt cur (bc_alertId c) q1) (bc_alertId c)" by (rule captured_run)
  then show ?thesis using assms(2) by (simp add: enqueueTrigger_def Let_def clearTimer_def q1_def)
qed

lemma captured_timer: assumes "captured_at q i" shows "captured_at (timerFires cur i q) i"
proof -
  have "captured_at (q\<lparr>q_timers := map_delete i (q_timers q)\<rparr>) i"
    using assms by (cases "map_get (q_inFlight q) i") (simp_all add: captured_at_def)
  from captured_run [OF this] show ?thesis using assms by (simp add: timerFires_def)
qed

lemma captured_event:
  assumes "queue_core q" "\<And>i. captured_at q i" shows "captured_at (applyEvent cfg cur ev q) j"
proof (cases ev)
  case (EEnqueue c)
  then show ?thesis using captured_enqueue [OF assms] captured_same [OF same_slot_enqueue assms(2)] by (cases "j = bc_alertId c") auto
next
  case (ETimer i)
  then show ?thesis using captured_timer [OF assms(2)] captured_same [OF same_slot_timer assms(2)] by (cases "j = i") auto
next
  case (ESettle i r)
  then show ?thesis using captured_settle [OF assms(2)] captured_same [OF same_slot_settle assms(2)] by (cases "j = i") auto
next
  case EDispose
  then show ?thesis by (simp add: captured_at_def disposeQueue_def split: option.split)
qed

lemma queue_run_captured: "queue_run cfg R q \<Longrightarrow> captured_at q i"
proof (induction arbitrary: i rule: queue_run.induct)
  case run_new then show ?case by (simp add: captured_at_def newQueue_def)
next
  case (run_event R q ev cur)
  then show ?case using captured_event queue_run_ok(1) by blast
qed

subsection \<open>Properties\<close>

text \<open>
  C13.  Nothing in the queue is forgotten and nothing is done twice, whatever the events: enqueued candidates, timers,
  attempts that resolve in any way or reject, disposal.  In every reachable state, a pending candidate none of whose
  attempts has rejected has either an attempt in flight or a retry timer, never both; one whose attempt has rejected
  has neither; a timer runs only for a pending candidate; no entry is notified twice and no pending entry has been
  notified; and a disposed queue holds nothing.
\<close>

theorem trigger_queue_never_stalls:
  assumes "queue_run cfg R q"
  shows "(\<forall>i e. map_get (q_pending q) i = Some e \<longrightarrow>
        (if (i, pa_serial e) \<in> R then \<not> map_has (q_inFlight q) i \<and> \<not> map_has (q_timers q) i
         else map_has (q_inFlight q) i \<noteq> map_has (q_timers q) i))
    \<and> (\<forall>i. map_has (q_timers q) i \<longrightarrow> map_has (q_pending q) i)
    \<and> distinct (map fst (q_notified q))
    \<and> (\<forall>i e. map_get (q_pending q) i = Some e \<longrightarrow> bc_alertId (pa_candidate e) = i \<and> pa_serial e \<notin> fst ` set (q_notified q))
    \<and> (q_disposed q \<longrightarrow> pendingCount q = 0 \<and> q_timers q = [])"
proof -
  note c = queue_run_ok(1) [OF assms] and s = queue_run_ok(2) [OF assms]
  have "if (i, pa_serial e) \<in> R then \<not> map_has (q_inFlight q) i \<and> \<not> map_has (q_timers q) i
      else map_has (q_inFlight q) i \<noteq> map_has (q_timers q) i" if "map_get (q_pending q) i = Some e" for i e
    using s [of i] that unfolding slot_ok_def by metis
  moreover have "map_has (q_pending q) i" if "map_has (q_timers q) i" for i using s [of i] that by (simp add: slot_ok_def)
  moreover have "bc_alertId (pa_candidate e) = i \<and> pa_serial e \<notin> fst ` set (q_notified q)"
    if "map_get (q_pending q) i = Some e" for i e using core_serial [OF c that] by simp
  moreover have "distinct (map fst (q_notified q))" "q_disposed q \<longrightarrow> pendingCount q = 0 \<and> q_timers q = []"
    using c by (simp_all add: queue_core_def notified_sound_def disposed_empty_def pendingCount_def)
  ultimately show ?thesis by blast
qed

definition sampleCandidate :: trigger_candidate where
  "sampleCandidate = \<lparr>bc_alertId = ''a1'', bc_revision = ''r1'', bc_triggerPrice = Fin 5, bc_targetPrice = Fin 5, bc_evidence = None\<rparr>"

definition sampleConfig :: queue_config where
  "sampleConfig = \<lparr>qc_retryBaseMs = None, qc_retryMaxMs = None\<rparr>"

definition sampleQueue :: "unit trigger_queue" where
  "sampleQueue = enqueueTrigger (\<lambda>_. True) sampleCandidate newQueue"

lemma sampleQueue_run: "queue_run sampleConfig {} sampleQueue"
  using run_event [OF run_new, of sampleConfig "EEnqueue sampleCandidate" "\<lambda>_. True"] by (simp add: sampleQueue_def)

lemma sampleQueue_lookup:
  "map_get (q_pending sampleQueue) ''a1'' = Some \<lparr>pa_serial = 0, pa_candidate = sampleCandidate, pa_attempts = 1\<rparr>"
  "map_get (q_inFlight sampleQueue) ''a1'' = Some \<lparr>pa_serial = 0, pa_candidate = sampleCandidate, pa_attempts = 1\<rparr>"
  "map_get (q_timers sampleQueue) i = None" "\<not> q_disposed sampleQueue"
  by (simp_all add: sampleQueue_def enqueueTrigger_def newQueue_def Let_def clearTimer_def runAttempt_def sampleCandidate_def)

theorem trigger_queue_never_stalls_witness:
  "map_has (q_inFlight sampleQueue) ''a1'' \<noteq> map_has (q_timers sampleQueue) ''a1''"
  using trigger_queue_never_stalls [OF sampleQueue_run] sampleQueue_lookup(1) by auto

text \<open>
  Crossing evidence is retained until it is decided.  In a reachable state, one event removes a pending
  candidate only if the queue is disposed, the alert is no longer current, a candidate of another revision
  replaces it, or its own attempt ends: discarded, or committed, in which case it has been notified.
\<close>

theorem candidate_retained_until_decided:
  assumes "queue_run cfg R q" "map_get (q_pending q) i = Some e"
    and "\<not> isEntry e (map_get (q_pending (applyEvent cfg isCurrent ev q)) i)"
  shows "ev = EDispose \<or> \<not> isCurrent (pa_candidate e)
    \<or> (\<exists>c. ev = EEnqueue c \<and> bc_alertId c = i \<and> bc_revision c \<noteq> bc_revision (pa_candidate e))
    \<or> ev = ESettle i Discarded
    \<or> (\<exists>v. ev = ESettle i (Committed v)
         \<and> (pa_serial e, pa_candidate e, v) \<in> set (q_notified (applyEvent cfg isCurrent ev q)))"
proof (cases "isCurrent (pa_candidate e)")
  case cur: True
  have core: "queue_core q" using queue_run_ok(1) [OF assms(1)] .
  show ?thesis
  proof (cases ev)
    case (EEnqueue c)
    show ?thesis
    proof (cases "bc_alertId c = i \<and> bc_revision c \<noteq> bc_revision (pa_candidate e)")
      case False
      have "isEntry e (map_get (q_pending (enqueueTrigger isCurrent c q)) i)"
      proof (cases "bc_alertId c = i")
        case True
        then have "enqueueTrigger isCurrent c q = q" using False assms(2) by (simp add: enqueueTrigger_def)
        then show ?thesis using assms(2) by (simp add: isEntry_def)
      next
        case False
        then show ?thesis using same_slot_enqueue [of i c q isCurrent] assms(2) by (simp add: same_slot_def isEntry_def)
      qed
      then show ?thesis using assms(3) EEnqueue by simp
    qed (use EEnqueue in blast)
  next
    case (ETimer j)
    then show ?thesis using assms(2,3) run_keeps [of "q\<lparr>q_timers := map_delete j (q_timers q)\<rparr>" i e isCurrent j] cur
      by (auto simp: timerFires_def isEntry_def split: if_splits)
  next
    case (ESettle j r)
    then obtain f where f: "map_get (q_inFlight q) j = Some f"
      using assms(2,3) by (cases "map_get (q_inFlight q) j") (auto simp: settleAttempt_def isEntry_def)
    have same: "pa_candidate e = pa_candidate f" if "i = j" "pa_serial e = pa_serial f"
      using queue_run_captured [OF assms(1), of j] f assms(2) that by (simp add: captured_at_def)
    have "i = j \<and> pa_serial e = pa_serial f \<and> (r = Discarded \<or> (\<exists>v. r = Committed v))"
    proof (rule ccontr)
      assume n: "\<not> ?thesis"
      have curf: "isCurrent (pa_candidate f)" if "i = j" "pa_serial e = pa_serial f" using same [OF that] cur by simp
      have "map_get (q_pending (afterAttempt cfg isCurrent j f r q)) i = Some e"
        by (rule after_keeps [where isCurrent = isCurrent, OF assms(2) cur]) (use n curf in blast)
      then have "isEntry e (map_get (q_pending (settleAttempt cfg isCurrent j r q)) i)"
        using finally_keeps [where isCurrent = isCurrent] cur f by (simp add: settleAttempt_def)
      then show False using assms(3) ESettle by simp
    qed
    then have ij: "i = j" "pa_serial e = pa_serial f" and r: "r = Discarded \<or> (\<exists>v. r = Committed v)" by blast+
    show ?thesis
    proof (cases "r = Discarded")
      case True then show ?thesis using ESettle ij(1) by simp
    next
      case False
      then obtain v where v: "r = Committed v" using r by blast
      have "(pa_serial f, pa_candidate f, v) \<in> set (q_notified (settleAttempt cfg isCurrent j (Committed v) q))"
        using settle_committed [OF f] assms(2) ij by simp
      then show ?thesis using ESettle v ij same [OF ij] by simp
    qed
  qed simp
qed simp

theorem candidate_retained_until_decided_witness:
  "(0, sampleCandidate, ()) \<in> set (q_notified (applyEvent sampleConfig (\<lambda>_. True) (ESettle ''a1'' (Committed ())) sampleQueue))"
proof -
  have "\<not> isEntry \<lparr>pa_serial = 0, pa_candidate = sampleCandidate, pa_attempts = 1\<rparr>
      (map_get (q_pending (applyEvent sampleConfig (\<lambda>_. True) (ESettle ''a1'' (Committed ())) sampleQueue)) ''a1'')"
    using sampleQueue_lookup by (simp add: settleAttempt_def afterAttempt_def isEntry_def finallyBlock_def dropPending_def clearTimer_def Let_def)
  from candidate_retained_until_decided [OF sampleQueue_run sampleQueue_lookup(1) this] show ?thesis by simp
qed

text \<open>
  C34.  An attempt whose promise rejects strands its candidate: it stays pending with neither an attempt in
  flight nor a timer, no timer event can revive it, and enqueueing the same revision again is ignored.
\<close>

theorem rejected_attempt_strands_candidate:
  assumes "queue_run cfg R q" "map_get (q_inFlight q) i = Some e" "map_get (q_pending q) i = Some e"
    and "bc_alertId c = i" "bc_revision c = bc_revision (pa_candidate e)"
  shows "let q' = applyEvent cfg isCurrent (ESettle i Rejects) q in
    map_get (q_pending q') i = Some e \<and> \<not> map_has (q_inFlight q') i \<and> \<not> map_has (q_timers q') i
    \<and> applyEvent cfg isCurrent (ETimer i) q' = q' \<and> applyEvent cfg isCurrent (EEnqueue c) q' = q'"
proof -
  have "slot_ok R q i" using queue_run_ok(2) [OF assms(1)] .
  then have nt: "map_get (q_timers q) i = None" using assms(2) by (auto simp: slot_ok_def)
  define q' where "q' = applyEvent cfg isCurrent (ESettle i Rejects) q"
  have q': "q' = q\<lparr>q_inFlight := map_delete i (q_inFlight q)\<rparr>"
    using assms(2,3) by (simp add: q'_def settleAttempt_def afterAttempt_def isEntry_def finallyBlock_def Let_def)
  have "map_get (q_pending q') i = Some e" "\<not> map_has (q_inFlight q') i" "\<not> map_has (q_timers q') i"
    using assms(3) nt by (simp_all add: q')
  moreover from this have "timerFires isCurrent i q' = q'" "enqueueTrigger isCurrent c q' = q'"
    using assms(4,5) by (simp_all add: timerFires_def enqueueTrigger_def)
  ultimately show ?thesis unfolding Let_def q'_def [symmetric] by simp
qed

theorem rejected_attempt_strands_candidate_witness:
  "\<not> map_has (q_timers (applyEvent sampleConfig (\<lambda>_. True) (ESettle ''a1'' Rejects) sampleQueue)) ''a1''"
  using rejected_attempt_strands_candidate [OF sampleQueue_run sampleQueue_lookup(2,1), of sampleCandidate "\<lambda>_. True"]
  by (simp add: Let_def sampleCandidate_def)

end
