(* ===== verification/PushMerge.thy ===== *)
theory PushMerge
  imports AlertTargets
begin

section \<open>Merging push-worker state\<close>

text \<open>
  Models \<open>server/pushAlertStateMerge.ts\<close>, \<open>server/pushAlertLifecycle.ts\<close>, \<open>server/pushAlertDeliveryPolicy.ts\<close>, the
  records of \<open>types/pushAlerts.ts\<close> and the compare-and-swap loop \<open>updatePushDevice\<close> of
  \<open>server/pushAlertStore.ts\<close>: how an evaluator's snapshot of alert cursors and pending deliveries is folded into
  the device row another writer may have changed meanwhile.  A JSON object keyed by alert ids is an association list
  with distinct keys.  Symbols are ASCII.

  The lemmas describe the merged row alert by alert, and from that show that delivered channels stay delivered
  unless the row is armed again with the snapshot's state, cursors do not move backwards, stale snapshots cannot overwrite an edited alert, and pending deliveries are
  removed only by the event that completed them.
\<close>

subsection \<open>Records\<close>

record server_alert =
  sv_id :: string
  sv_symbol :: string
  sv_condition :: alert_condition
  sv_price :: jsnum
  sv_note :: "string option"
  sv_recurring :: bool
  sv_updatedAt :: jsnum
  sv_armingRevision :: jsnum
  sv_lastTriggeredAt :: "jsnum option"
  sv_triggerPrice :: "jsnum option"
  sv_targetPrice :: "jsnum option"
  sv_triggerEvidence :: "evidence option"
  sv_push :: "bool option"
  sv_telegram :: "bool option"
  sv_discord :: "bool option"
  sv_technicalTarget :: "technical_target option"

record pending_trigger =
  pt_triggerPrice :: jsnum
  pt_targetPrice :: jsnum
  pt_triggeredAt :: jsnum
  pt_triggerEvidence :: evidence

record pending_delivery =
  pd_eventId :: string
  pd_alert :: server_alert
  pd_candidate :: pending_trigger
  pd_notificationTimeZone :: "string option"
  pd_push :: bool
  pd_telegram :: bool
  pd_discord :: bool

record alert_state =
  as_signature :: string
  as_lastTriggeredAt :: "jsnum option"
  as_lastEvaluatedAt :: "jsnum option"
  as_lastMarketTimestamp :: "jsnum option"
  as_oneTimeFired :: "bool option"
  as_triggerPrice :: "jsnum option"
  as_targetPrice :: "jsnum option"
  as_triggerEvidence :: "evidence option"
  as_pendingTrigger :: "pending_trigger option"
  as_pendingDelivery :: "pending_delivery option"
  as_canonicalRejectedAt :: "jsnum option"
  as_canonicalRejectedReason :: "string option"
  as_expiredAt :: "jsnum option"

record push_device =
  dv_token :: string
  dv_version :: "jsnum option"
  dv_userId :: "string option"
  dv_deliveryToken :: "string option"
  dv_notificationTimeZone :: "string option"
  dv_alerts :: "server_alert list"
  dv_settingsPush :: bool
  dv_settingsTelegram :: bool
  dv_settingsDiscord :: bool
  dv_lastPrices :: "(string, jsnum) js_map"
  dv_alertState :: "(string, alert_state) js_map"
  dv_createdAt :: jsnum
  dv_updatedAt :: jsnum

record removed_state =
  rs_signature :: string
  rs_eventId :: "string option"
  rs_cursor :: jsnum

record state_patch =
  sp_lastPrices :: "(string, jsnum) js_map"
  sp_alertState :: "(string, alert_state) js_map"
  sp_alertSignatures :: "(string, string) js_map option"
  sp_authoritativeSignatures :: "(string, string) js_map option"
  sp_removedAlertState :: "(string, removed_state) js_map option"

subsection \<open>Cursors and signatures\<close>

definition pushAlertStateCursor :: "alert_state option \<Rightarrow> jsnum" where
  "pushAlertStateCursor state =
     (case state of
        None \<Rightarrow> Fin 0
      | Some s \<Rightarrow>
          fold (\<lambda>x acc. js_max acc x)
            (filter js_isFinite (List.map_filter (\<lambda>x. x)
               [as_lastMarketTimestamp s, as_lastEvaluatedAt s, as_lastTriggeredAt s,
                map_option pt_triggeredAt (as_pendingTrigger s),
                map_option (\<lambda>d. pt_triggeredAt (pd_candidate d)) (as_pendingDelivery s)])) (Fin 0))"

definition alertStateSignature :: "(jsnum \<Rightarrow> string) \<Rightarrow> server_alert \<Rightarrow> string" where
  "alertStateSignature numStr a =
     alertArmingRevision numStr (sv_condition a) (sv_symbol a) (sv_price a) (sv_recurring a) (sv_armingRevision a)
       @ '':'' @ technicalTargetSignature numStr (sv_technicalTarget a)"

definition mergeMatchingDeliveryProgress :: "pending_delivery \<Rightarrow> pending_delivery \<Rightarrow> pending_delivery" where
  "mergeMatchingDeliveryProgress current incoming =
     incoming\<lparr>pd_push := pd_push current \<and> pd_push incoming,
              pd_telegram := pd_telegram current \<and> pd_telegram incoming,
              pd_discord := pd_discord current \<and> pd_discord incoming\<rparr>"

definition str_truthy :: "string option \<Rightarrow> bool" where
  "str_truthy s = (case s of Some t \<Rightarrow> t \<noteq> [] | None \<Rightarrow> False)"

definition expectedSignatures :: "(jsnum \<Rightarrow> string) \<Rightarrow> push_device \<Rightarrow> (string, string) js_map" where
  "expectedSignatures numStr existing =
     fold (\<lambda>(i, state) m.
         case as_pendingDelivery state of
           Some d \<Rightarrow> if map_has m i then m else map_set i (alertStateSignature numStr (pd_alert d)) m
         | None \<Rightarrow> m)
       (dv_alertState existing)
       (map_set_all (map (\<lambda>a. (sv_id a, alertStateSignature numStr a)) (dv_alerts existing)) [])"

subsection \<open>The merge of one alert\<close>

text \<open>
  The loop body for one incoming state: the value assigned to \<open>alertState[id]\<close>, or \<open>None\<close> for
  \<open>continue\<close>.
\<close>

definition mergeEdited :: "alert_state option \<Rightarrow> alert_state \<Rightarrow> alert_state option" where
  "mergeEdited current incoming =
     (case as_pendingDelivery incoming of
        None \<Rightarrow> None
      | Some incomingDelivery \<Rightarrow>
          (case Option.bind current as_pendingDelivery of
             None \<Rightarrow> Some incoming
           | Some currentDelivery \<Rightarrow>
               if pd_eventId currentDelivery = pd_eventId incomingDelivery
               then Some (incoming\<lparr>as_pendingDelivery :=
                      Some (mergeMatchingDeliveryProgress currentDelivery incomingDelivery)\<rparr>)
               else if js_le (pt_triggeredAt (pd_candidate incomingDelivery)) (pt_triggeredAt (pd_candidate currentDelivery))
               then None else Some incoming))"

definition mergeCurrent :: "alert_state \<Rightarrow> alert_state \<Rightarrow> alert_state" where
  "mergeCurrent current incoming =
     (let incomingWins = js_le (pushAlertStateCursor (Some current)) (pushAlertStateCursor (Some incoming));
          winner = (if incomingWins then incoming else current);
          matchingDelivery =
            (case (as_pendingDelivery current, as_pendingDelivery incoming) of
               (Some c, Some i) \<Rightarrow>
                 if pd_eventId c = pd_eventId i then Some (mergeMatchingDeliveryProgress c i) else None
             | _ \<Rightarrow> None)
      in winner\<lparr>as_pendingDelivery :=
           (case matchingDelivery of
              Some d \<Rightarrow> Some d
            | None \<Rightarrow> if incomingWins then as_pendingDelivery incoming else as_pendingDelivery current)\<rparr>)"

definition mergeEntry ::
  "string option \<Rightarrow> string option \<Rightarrow> bool \<Rightarrow> alert_state option \<Rightarrow> alert_state \<Rightarrow> alert_state option" where
  "mergeEntry expected incomingSignature authoritative current incoming =
     (if str_truthy incomingSignature \<and> incomingSignature \<noteq> Some (as_signature incoming) then None
      else if str_truthy incomingSignature \<and> \<not> str_truthy expected \<and> current = None
              \<and> as_pendingDelivery incoming = None \<and> \<not> authoritative then None
      else if str_truthy expected \<and> expected \<noteq> Some (as_signature incoming) then mergeEdited current incoming
      else
        case current of
          None \<Rightarrow> Some incoming
        | Some cur \<Rightarrow>
            if str_truthy expected \<and> expected \<noteq> Some (as_signature cur) then Some incoming
            else Some (mergeCurrent cur incoming))"

definition patchSignature :: "state_patch \<Rightarrow> string \<Rightarrow> string option" where
  "patchSignature patch i = (case sp_alertSignatures patch of Some m \<Rightarrow> map_get m i | None \<Rightarrow> None)"

definition isAuthoritative :: "state_patch \<Rightarrow> string \<Rightarrow> bool" where
  "isAuthoritative patch i \<longleftrightarrow> patchSignature patch i \<noteq> None
     \<and> (case sp_authoritativeSignatures patch of Some m \<Rightarrow> map_get m i | None \<Rightarrow> None) = patchSignature patch i"

definition mergeStep ::
  "(string, string) js_map \<Rightarrow> state_patch \<Rightarrow> string \<times> alert_state \<Rightarrow> (string, alert_state) js_map \<Rightarrow> (string, alert_state) js_map" where
  "mergeStep expected patch entry m =
     (case entry of (i, incoming) \<Rightarrow>
        (case mergeEntry (map_get expected i) (patchSignature patch i) (isAuthoritative patch i) (map_get m i) incoming of
           Some s \<Rightarrow> map_set i s m
         | None \<Rightarrow> m))"

text \<open>Whether an explicit removal applies to the state now stored.\<close>

definition removalApplies :: "removed_state \<Rightarrow> alert_state \<Rightarrow> bool" where
  "removalApplies removed current \<longleftrightarrow>
     as_signature current = rs_signature removed
     \<and> (case as_pendingDelivery current of
          Some d \<Rightarrow> str_truthy (rs_eventId removed) \<and> rs_eventId removed = Some (pd_eventId d)
        | None \<Rightarrow> js_le (pushAlertStateCursor (Some current)) (rs_cursor removed))"

definition removeStep :: "string \<times> removed_state \<Rightarrow> (string, alert_state) js_map \<Rightarrow> (string, alert_state) js_map" where
  "removeStep entry m =
     (case entry of (i, removed) \<Rightarrow>
        (case map_get m i of
           Some current \<Rightarrow> if removalApplies removed current then map_delete i m else m
         | None \<Rightarrow> m))"

definition ascii_upper :: "string \<Rightarrow> string" where
  "ascii_upper s = map (\<lambda>c. if 97 \<le> (of_char c :: nat) \<and> (of_char c :: nat) \<le> 122 then char_of (of_char c - (32 :: nat)) else c) s"

definition mergePrice :: "string \<times> jsnum \<Rightarrow> (string, jsnum) js_map \<Rightarrow> (string, jsnum) js_map" where
  "mergePrice entry m =
     (case entry of (rawSymbol, value) \<Rightarrow>
        if \<not> js_isFinite value \<or> js_le value (Fin 0) then m
        else
          let symbol = ascii_upper (js_trim rawSymbol)
          in if symbol = [] then m else map_set symbol value m)"

definition mergeEvaluatorState ::
  "(jsnum \<Rightarrow> string) \<Rightarrow> push_device \<Rightarrow> state_patch \<Rightarrow> (string, jsnum) js_map \<times> (string, alert_state) js_map" where
  "mergeEvaluatorState numStr existing patch =
     (let expected = expectedSignatures numStr existing;
          merged = fold (mergeStep expected patch) (sp_alertState patch) (dv_alertState existing);
          alertState = fold removeStep (case sp_removedAlertState patch of Some r \<Rightarrow> r | None \<Rightarrow> []) merged;
          lastPrices = fold mergePrice (sp_lastPrices patch) (dv_lastPrices existing)
      in (lastPrices, alertState))"

subsection \<open>Writing the row back\<close>

text \<open>
  \<open>updatePushDevice\<close>: the environment says what the clock reads at the \<open>k\<close>-th attempt, how its
  conditional write ends and what the re-read after a conflict does.
\<close>

datatype put_result = PutOk | PutConflict | PutError

datatype reread_result = RereadRow push_device | RereadGone | RereadError

datatype update_result = Written push_device | DeviceGone | Failed | Conflicted

definition mergedRow :: "(jsnum \<Rightarrow> string) \<Rightarrow> jsnum \<Rightarrow> state_patch \<Rightarrow> push_device \<Rightarrow> push_device" where
  "mergedRow numStr now patch current =
     (let merged = mergeEvaluatorState numStr current patch
      in current\<lparr>dv_lastPrices := fst merged, dv_alertState := snd merged, dv_updatedAt := now\<rparr>)"

fun updateLoop ::
  "(jsnum \<Rightarrow> string) \<Rightarrow> (nat \<Rightarrow> jsnum) \<Rightarrow> state_patch \<Rightarrow> (nat \<Rightarrow> push_device \<Rightarrow> put_result) \<Rightarrow> (nat \<Rightarrow> reread_result) \<Rightarrow>
   nat \<Rightarrow> nat \<Rightarrow> push_device \<Rightarrow> update_result" where
  "updateLoop numStr now patch put reread attempt 0 current = Conflicted"
| "updateLoop numStr now patch put reread attempt (Suc left) current =
     (case put attempt (mergedRow numStr (now attempt) patch current) of
        PutOk \<Rightarrow> Written (mergedRow numStr (now attempt) patch current)
      | PutError \<Rightarrow> Failed
      | PutConflict \<Rightarrow>
          (case reread attempt of
             RereadError \<Rightarrow> Failed
           | RereadGone \<Rightarrow> DeviceGone
           | RereadRow refreshed \<Rightarrow> updateLoop numStr now patch put reread (attempt + 1) left refreshed))"

definition MAX_WRITE_ATTEMPTS :: nat where
  "MAX_WRITE_ATTEMPTS = 3"

definition updatePushDevice ::
  "(jsnum \<Rightarrow> string) \<Rightarrow> (nat \<Rightarrow> jsnum) \<Rightarrow> state_patch \<Rightarrow> (nat \<Rightarrow> push_device \<Rightarrow> put_result) \<Rightarrow> (nat \<Rightarrow> reread_result) \<Rightarrow>
   push_device \<Rightarrow> update_result" where
  "updatePushDevice numStr now patch put reread snapshot =
     updateLoop numStr now patch put reread 0 MAX_WRITE_ATTEMPTS snapshot"

subsection \<open>Delivery policy and the commit boundary\<close>

definition createPendingPushAlertDelivery ::
  "string \<Rightarrow> push_device \<Rightarrow> server_alert \<Rightarrow> pending_trigger \<Rightarrow> pending_delivery option" where
  "createPendingPushAlertDelivery eventId device a candidate =
     (let delivery = \<lparr>pd_eventId = eventId, pd_alert = a, pd_candidate = candidate,
          pd_notificationTimeZone = Some (case dv_notificationTimeZone device of Some z \<Rightarrow> z | None \<Rightarrow> ''UTC''),
          pd_push = (dv_settingsPush device \<and> sv_push a = Some True),
          pd_telegram = (dv_settingsTelegram device \<and> sv_telegram a = Some True),
          pd_discord = (dv_settingsDiscord device \<and> sv_discord a = Some True)\<rparr>
      in if pd_push delivery \<or> pd_telegram delivery \<or> pd_discord delivery then Some delivery else None)"

datatype external_channel = Telegram | Discord

definition externalAlertDeliveryKey :: "string \<Rightarrow> external_channel \<Rightarrow> string" where
  "externalAlertDeliveryKey eventId channel =
     eventId @ '':'' @ (case channel of Telegram \<Rightarrow> ''telegram'' | Discord \<Rightarrow> ''discord'')"

definition shouldRetainPushAlertState :: "bool \<Rightarrow> alert_state \<Rightarrow> bool" where
  "shouldRetainPushAlertState alertIsActive state \<longleftrightarrow> alertIsActive \<or> as_pendingDelivery state \<noteq> None"

record canonical_commit =
  cc_alreadyTriggered :: bool
  cc_eventId :: string

text \<open>What a rejected persist promise carries: a \<open>CanonicalTriggerPersistenceError\<close> or any other value.\<close>

datatype thrown = PersistenceError string bool | OtherError "string option"

datatype 'n persist_result =
    Notified canonical_commit 'n
  | NotifyFailed canonical_commit string
  | NotCommitted string bool

definition errorMessage :: "thrown \<Rightarrow> string \<Rightarrow> string" where
  "errorMessage error fallback =
     (case error of
        PersistenceError m _ \<Rightarrow> if m \<noteq> [] then m else fallback
      | OtherError (Some m) \<Rightarrow> if m \<noteq> [] then m else fallback
      | OtherError None \<Rightarrow> fallback)"

text \<open>The result, and whether \<open>notify\<close> was called.\<close>

definition persistBeforeNotification ::
  "thrown + canonical_commit \<Rightarrow> (canonical_commit \<Rightarrow> thrown + 'n) \<Rightarrow> 'n persist_result \<times> canonical_commit list" where
  "persistBeforeNotification persist notify =
     (case persist of
        Inl error \<Rightarrow>
          (NotCommitted (errorMessage error ''Canonical trigger persistence failed.'')
             (case error of PersistenceError _ retryable \<Rightarrow> retryable | OtherError _ \<Rightarrow> True), [])
      | Inr canonical \<Rightarrow>
          (case notify canonical of
             Inr n \<Rightarrow> (Notified canonical n, [canonical])
           | Inl error \<Rightarrow> (NotifyFailed canonical (errorMessage error ''Notification delivery failed.''), [canonical])))"

subsection \<open>Folding per-key updates\<close>

text \<open>A loop over the entries of an object in which each entry only touches its own key.\<close>

locale keyed_update =
  fixes lookup :: "'m \<Rightarrow> 'k \<Rightarrow> 'v option"
    and step :: "'k \<times> 'x \<Rightarrow> 'm \<Rightarrow> 'm"
    and change :: "'k \<Rightarrow> 'x \<Rightarrow> 'v option \<Rightarrow> 'v option"
  assumes lookup_step: "lookup (step (k, x) m) j = (if j = k then change k x (lookup m k) else lookup m j)"
begin

lemma lookup_fold:
  "distinct (map fst es) \<Longrightarrow>
   lookup (fold step es m) j = (case map_of es j of Some x \<Rightarrow> change j x (lookup m j) | None \<Rightarrow> lookup m j)"
proof (induction es arbitrary: m)
  case (Cons e es)
  obtain k x where e: "e = (k, x)" by (cases e)
  show ?case
  proof (cases "j = k")
    case True
    moreover have "map_of es k = None" using Cons.prems by (auto simp: e map_of_eq_None_iff)
    ultimately show ?thesis using Cons by (simp add: e lookup_step)
  next
    case False
    then show ?thesis using Cons by (cases "map_of es j") (simp_all add: e lookup_step)
  qed
qed simp

end

definition changeBy :: "(string, string) js_map \<Rightarrow> state_patch \<Rightarrow> string \<Rightarrow> alert_state \<Rightarrow> alert_state option \<Rightarrow> alert_state option" where
  "changeBy expected patch i incoming current =
     (case mergeEntry (map_get expected i) (patchSignature patch i) (isAuthoritative patch i) current incoming of
        Some s \<Rightarrow> Some s | None \<Rightarrow> current)"

definition removeBy :: "string \<Rightarrow> removed_state \<Rightarrow> alert_state option \<Rightarrow> alert_state option" where
  "removeBy i removed current =
     (case current of Some s \<Rightarrow> if removalApplies removed s then None else Some s | None \<Rightarrow> None)"

interpretation merges: keyed_update map_of "mergeStep expected patch" "changeBy expected patch" for expected patch
  by unfold_locales (simp add: mergeStep_def changeBy_def update_conv' split: option.splits)

interpretation removals: keyed_update map_of removeStep removeBy
  by unfold_locales (simp add: removeStep_def removeBy_def delete_conv' split: option.splits)

text \<open>The objects of a patch have distinct keys.\<close>

definition patch_wf :: "state_patch \<Rightarrow> bool" where
  "patch_wf patch \<longleftrightarrow> map_wf (sp_alertState patch) \<and> (case sp_removedAlertState patch of Some r \<Rightarrow> map_wf r | None \<Rightarrow> True)"

definition removedFor :: "state_patch \<Rightarrow> string \<Rightarrow> removed_state option" where
  "removedFor patch i = (case sp_removedAlertState patch of Some r \<Rightarrow> map_get r i | None \<Rightarrow> None)"

abbreviation merged_at :: "(jsnum \<Rightarrow> string) \<Rightarrow> push_device \<Rightarrow> state_patch \<Rightarrow> string \<Rightarrow> alert_state option" where
  "merged_at numStr existing patch i \<equiv> map_get (snd (mergeEvaluatorState numStr existing patch)) i"

abbreviation expected_at :: "(jsnum \<Rightarrow> string) \<Rightarrow> push_device \<Rightarrow> string \<Rightarrow> string option" where
  "expected_at numStr existing i \<equiv> map_get (expectedSignatures numStr existing) i"

lemma merged_lookup:
  assumes "patch_wf patch"
  shows "merged_at numStr existing patch i =
    (let cur = map_get (dv_alertState existing) i;
         mid = (case map_get (sp_alertState patch) i of
                  Some x \<Rightarrow> changeBy (expectedSignatures numStr existing) patch i x cur | None \<Rightarrow> cur)
     in case removedFor patch i of Some r \<Rightarrow> removeBy i r mid | None \<Rightarrow> mid)"
proof -
  have "distinct (map fst (case sp_removedAlertState patch of Some r \<Rightarrow> r | None \<Rightarrow> []))"
    using assms by (simp add: patch_wf_def split: option.splits)
  then show ?thesis
    using assms unfolding patch_wf_def mergeEvaluatorState_def Let_def snd_conv removedFor_def
    by (cases "sp_removedAlertState patch") (simp_all add: removals.lookup_fold merges.lookup_fold cong: option.case_cong)
qed

lemma merged_some:
  assumes "patch_wf patch" "merged_at numStr existing patch i = Some s" "map_get (sp_alertState patch) i = Some x"
  shows "changeBy (expectedSignatures numStr existing) patch i x (map_get (dv_alertState existing) i) = Some s"
  using assms(2,3) unfolding merged_lookup [OF assms(1)] by (simp add: Let_def removeBy_def split: option.splits if_splits)

lemma merged_same:
  assumes "patch_wf patch" "merged_at numStr existing patch i = Some s" "map_get (sp_alertState patch) i = None"
  shows "map_get (dv_alertState existing) i = Some s"
  using assms(2,3) unfolding merged_lookup [OF assms(1)] by (simp add: Let_def removeBy_def split: option.splits if_splits)

subsection \<open>Cursors\<close>

definition cursorBase :: "alert_state \<Rightarrow> jsnum" where
  "cursorBase s = fold (\<lambda>x acc. js_max acc x)
     (filter js_isFinite (List.map_filter (\<lambda>x. x) [as_lastMarketTimestamp s, as_lastEvaluatedAt s, as_lastTriggeredAt s,
        map_option pt_triggeredAt (as_pendingTrigger s)])) (Fin 0)"

lemma map_filter_snoc:
  "List.map_filter f (xs @ [x]) = List.map_filter f xs @ (case f x of Some y \<Rightarrow> [y] | None \<Rightarrow> [])"
  by (simp add: List.map_filter_def split: option.split)

lemma cursor_split:
  "pushAlertStateCursor (Some s) =
     (case as_pendingDelivery s of
        Some d \<Rightarrow> if js_isFinite (pt_triggeredAt (pd_candidate d))
                   then js_max (cursorBase s) (pt_triggeredAt (pd_candidate d)) else cursorBase s
      | None \<Rightarrow> cursorBase s)"
proof -
  have e: "[a, b, c, d, e] = [a, b, c, d] @ [e]" for a b c d e :: "jsnum option" by simp
  show ?thesis
    unfolding pushAlertStateCursor_def option.case cursorBase_def e
    unfolding map_filter_snoc [of "\<lambda>x. x" "[as_lastMarketTimestamp s, as_lastEvaluatedAt s, as_lastTriggeredAt s,
        map_option pt_triggeredAt (as_pendingTrigger s)]"] filter_append fold_append comp_def
    by (simp split: option.split)
qed

lemma cursorBase_update [simp]: "cursorBase (s\<lparr>as_pendingDelivery := d\<rparr>) = cursorBase s"
  by (simp add: cursorBase_def)

lemma cursor_finite: "\<exists>a. pushAlertStateCursor s = Fin a"
proof (cases s)
  case (Some t)
  have "\<exists>a. fold (\<lambda>x acc. js_max acc x) xs (Fin b) = Fin a" if "\<forall>x \<in> set xs. js_isFinite x" for xs b
    using that by (induction xs arbitrary: b) (auto simp: js_isFinite_iff)
  then show ?thesis unfolding pushAlertStateCursor_def Some option.case by auto
qed (simp add: pushAlertStateCursor_def)

lemma mergeMatching_simps [simp]:
  "pd_candidate (mergeMatchingDeliveryProgress c d) = pd_candidate d" "pd_eventId (mergeMatchingDeliveryProgress c d) = pd_eventId d"
  "pd_push (mergeMatchingDeliveryProgress c d) = (pd_push c \<and> pd_push d)"
  "pd_telegram (mergeMatchingDeliveryProgress c d) = (pd_telegram c \<and> pd_telegram d)"
  "pd_discord (mergeMatchingDeliveryProgress c d) = (pd_discord c \<and> pd_discord d)"
  by (simp_all add: mergeMatchingDeliveryProgress_def)

lemma mergeCurrent_cases:
  obtains (matched) c d where "as_pendingDelivery cur = Some c" "as_pendingDelivery inc = Some d" "pd_eventId c = pd_eventId d"
      "mergeCurrent cur inc = (if js_le (pushAlertStateCursor (Some cur)) (pushAlertStateCursor (Some inc)) then inc else cur)
         \<lparr>as_pendingDelivery := Some (mergeMatchingDeliveryProgress c d)\<rparr>"
  | (winner) "mergeCurrent cur inc = (if js_le (pushAlertStateCursor (Some cur)) (pushAlertStateCursor (Some inc)) then inc else cur)"
      "\<And>c d. as_pendingDelivery cur = Some c \<Longrightarrow> as_pendingDelivery inc = Some d \<Longrightarrow> pd_eventId c \<noteq> pd_eventId d"
proof (cases "\<exists>c d. as_pendingDelivery cur = Some c \<and> as_pendingDelivery inc = Some d \<and> pd_eventId c = pd_eventId d")
  case True
  then show ?thesis using matched by (auto simp: mergeCurrent_def Let_def)
next
  case False
  then have "(case (as_pendingDelivery cur, as_pendingDelivery inc) of
      (Some c, Some i) \<Rightarrow> if pd_eventId c = pd_eventId i then Some (mergeMatchingDeliveryProgress c i) else None | _ \<Rightarrow> None) = None"
    by (auto split: option.splits)
  then have "mergeCurrent cur inc = (if js_le (pushAlertStateCursor (Some cur)) (pushAlertStateCursor (Some inc)) then inc else cur)"
    by (simp add: mergeCurrent_def Let_def)
  then show ?thesis using winner False by blast
qed

lemma mergeCurrent_cursor:
  assumes "\<And>c d. as_pendingDelivery cur = Some c \<Longrightarrow> as_pendingDelivery inc = Some d \<Longrightarrow> pd_eventId c = pd_eventId d \<Longrightarrow>
      pt_triggeredAt (pd_candidate c) = pt_triggeredAt (pd_candidate d)"
  shows "pushAlertStateCursor (Some (mergeCurrent cur inc)) =
    js_max (pushAlertStateCursor (Some cur)) (pushAlertStateCursor (Some inc))"
proof -
  obtain a b where ab: "pushAlertStateCursor (Some cur) = Fin a" "pushAlertStateCursor (Some inc) = Fin b"
    using cursor_finite by meson
  show ?thesis
  proof (cases rule: mergeCurrent_cases [of cur inc])
    case (matched c d)
    have "pushAlertStateCursor (Some (inc\<lparr>as_pendingDelivery := Some (mergeMatchingDeliveryProgress c d)\<rparr>)) = Fin b"
      using ab(2) matched(2) by (auto simp: cursor_split split: if_splits)
    moreover have "pushAlertStateCursor (Some (cur\<lparr>as_pendingDelivery := Some (mergeMatchingDeliveryProgress c d)\<rparr>)) = Fin a"
      using ab(1) matched(1) assms [OF matched(1-3)] by (auto simp: cursor_split split: if_splits)
    ultimately show ?thesis unfolding matched(4) ab by (auto simp: max_def)
  next
    case winner
    then show ?thesis using ab by (auto simp: max_def)
  qed
qed

lemma mergeCurrent_delivery:
  assumes "as_pendingDelivery (mergeCurrent cur inc) = Some d" "as_pendingDelivery cur = Some c" "pd_eventId c = pd_eventId d"
  shows "(pd_push d \<longrightarrow> pd_push c) \<and> (pd_telegram d \<longrightarrow> pd_telegram c) \<and> (pd_discord d \<longrightarrow> pd_discord c)"
proof (cases rule: mergeCurrent_cases [of cur inc])
  case (matched c' d')
  then show ?thesis using assms by (auto split: if_splits)
next
  case winner
  then show ?thesis using assms by (auto split: if_splits)
qed

lemma mergeEdited_delivery:
  assumes "mergeEdited (Some cur) inc = Some s" "as_pendingDelivery s = Some d" "as_pendingDelivery cur = Some c"
    and "pd_eventId c = pd_eventId d"
  shows "(pd_push d \<longrightarrow> pd_push c) \<and> (pd_telegram d \<longrightarrow> pd_telegram c) \<and> (pd_discord d \<longrightarrow> pd_discord c)"
  using assms by (auto simp: mergeEdited_def split: option.splits if_splits)

subsection \<open>Properties\<close>

text \<open>
  C9.  A channel that has been delivered stays delivered, with one exception.  When the row and the merged row hold a
  pending delivery of the same canonical event for an alert, either the merged one asks for no channel the row had
  already completed, or the merge re-armed the alert: the row's state belonged to another definition than the
  current one, the snapshot to the current one, and the snapshot's state was stored as it is.
\<close>

theorem delivered_channels_stay_delivered:
  assumes "patch_wf patch" "merged_at numStr existing patch i = Some s" "as_pendingDelivery s = Some d"
    and "map_get (dv_alertState existing) i = Some cur" "as_pendingDelivery cur = Some c" "pd_eventId c = pd_eventId d"
  shows "(pd_push d \<longrightarrow> pd_push c) \<and> (pd_telegram d \<longrightarrow> pd_telegram c) \<and> (pd_discord d \<longrightarrow> pd_discord c)
    \<or> map_get (sp_alertState patch) i = Some s \<and> expected_at numStr existing i = Some (as_signature s)
       \<and> as_signature s \<noteq> [] \<and> as_signature cur \<noteq> as_signature s"
    (is "?kept \<or> ?rearmed")
proof (cases "map_get (sp_alertState patch) i")
  case None
  then have "cur = s" using merged_same [OF assms(1,2)] assms(4) by simp
  then show ?thesis using assms(3,5) by simp
next
  case (Some x)
  let ?e = "expected_at numStr existing i" and ?p = "patchSignature patch i" and ?a = "isAuthoritative patch i"
  have ch: "(case mergeEntry ?e ?p ?a (Some cur) x of Some s \<Rightarrow> Some s | None \<Rightarrow> Some cur) = Some s"
    using merged_some [OF assms(1,2) Some] assms(4) by (simp add: changeBy_def)
  show ?thesis
  proof (cases "mergeEntry ?e ?p ?a (Some cur) x")
    case None
    then have "cur = s" using ch by simp
    then show ?thesis using assms(3,5) by simp
  next
    case (Some s')
    then have m: "mergeEntry ?e ?p ?a (Some cur) x = Some s" using ch by simp
    show ?thesis
    proof (cases "str_truthy ?e \<and> ?e \<noteq> Some (as_signature x)")
      case True
      then have "mergeEdited (Some cur) x = Some s" using m by (simp add: mergeEntry_def split: if_splits)
      then show ?thesis using mergeEdited_delivery assms(3,5,6) by blast
    next
      case valid: False
      show ?thesis
      proof (cases "str_truthy ?e \<and> ?e \<noteq> Some (as_signature cur)")
        case True
        then have "x = s" using m valid by (simp add: mergeEntry_def split: if_splits)
        then have ?rearmed using True valid \<open>map_get (sp_alertState patch) i = Some x\<close>
          by (auto simp: str_truthy_def split: option.splits)
        then show ?thesis ..
      next
        case False
        then have "mergeCurrent cur x = s" using m valid by (simp add: mergeEntry_def split: if_splits)
        then show ?thesis using mergeCurrent_delivery assms(3,5,6) by blast
      qed
    qed
  qed
qed

definition sampleAlert :: server_alert where
  "sampleAlert = \<lparr>sv_id = ''a1'', sv_symbol = ''EURUSD'', sv_condition = Above, sv_price = Fin 5, sv_note = None,
     sv_recurring = False, sv_updatedAt = Fin 1, sv_armingRevision = Fin 1, sv_lastTriggeredAt = None, sv_triggerPrice = None,
     sv_targetPrice = None, sv_triggerEvidence = None, sv_push = Some True, sv_telegram = Some True, sv_discord = None,
     sv_technicalTarget = None\<rparr>"

definition sampleTrigger :: pending_trigger where
  "sampleTrigger = \<lparr>pt_triggerPrice = Fin 6, pt_targetPrice = Fin 5, pt_triggeredAt = Fin 10,
     pt_triggerEvidence = \<lparr>evd_previous = None, evd_current = \<lparr>pp_price = Fin 6, pp_timestamp = Fin 10\<rparr>\<rparr>\<rparr>"

definition sampleState :: "string \<Rightarrow> bool \<Rightarrow> alert_state" where
  "sampleState sig push = \<lparr>as_signature = sig, as_lastTriggeredAt = None, as_lastEvaluatedAt = None,
     as_lastMarketTimestamp = None, as_oneTimeFired = None, as_triggerPrice = None, as_targetPrice = None,
     as_triggerEvidence = None, as_pendingTrigger = None,
     as_pendingDelivery = Some \<lparr>pd_eventId = ''e1'', pd_alert = sampleAlert, pd_candidate = sampleTrigger,
       pd_notificationTimeZone = None, pd_push = push, pd_telegram = True, pd_discord = False\<rparr>,
     as_canonicalRejectedAt = None, as_canonicalRejectedReason = None, as_expiredAt = None\<rparr>"

definition sampleDevice :: "string \<Rightarrow> server_alert list \<Rightarrow> push_device" where
  "sampleDevice sig alerts = \<lparr>dv_token = ''t'', dv_version = None, dv_userId = None, dv_deliveryToken = None, dv_notificationTimeZone = None,
     dv_alerts = alerts, dv_settingsPush = True, dv_settingsTelegram = True, dv_settingsDiscord = False, dv_lastPrices = [],
     dv_alertState = [(''a1'', sampleState sig False)], dv_createdAt = Fin 1, dv_updatedAt = Fin 1\<rparr>"

definition samplePatch :: "alert_state \<Rightarrow> state_patch" where
  "samplePatch s = \<lparr>sp_lastPrices = [], sp_alertState = [(''a1'', s)], sp_alertSignatures = None,
     sp_authoritativeSignatures = None, sp_removedAlertState = None\<rparr>"

abbreviation sampleSig :: string where
  "sampleSig \<equiv> alertStateSignature (\<lambda>_. ''1'') sampleAlert"

lemma sample_expected:
  "expected_at (\<lambda>_. ''1'') (sampleDevice sig []) ''a1'' = Some sampleSig"
  "expected_at (\<lambda>_. ''1'') (sampleDevice sig [sampleAlert]) ''a1'' = Some sampleSig"
  by (simp_all add: expectedSignatures_def sampleDevice_def sampleState_def map_set_all_def sampleAlert_def)

lemma sample_wf: "patch_wf (samplePatch s)"
  by (simp add: patch_wf_def samplePatch_def)

lemma sample_truthy: "str_truthy (Some sampleSig)"
  by (simp add: str_truthy_def alertStateSignature_def)

lemma sample_lookup:
  "map_get (dv_alertState (sampleDevice sig as)) ''a1'' = Some (sampleState sig False)"
  "map_get (sp_alertState (samplePatch s)) ''a1'' = Some s" "patchSignature (samplePatch s) i = None"
  "removedFor (samplePatch s) i = None"
  by (simp_all add: sampleDevice_def samplePatch_def patchSignature_def removedFor_def)

lemma sample_merged:
  "merged_at (\<lambda>_. ''1'') (sampleDevice sampleSig []) (samplePatch (sampleState sampleSig True)) ''a1'' =
     Some (mergeCurrent (sampleState sampleSig False) (sampleState sampleSig True))"
proof -
  have "as_signature (sampleState sig b) = sig" for sig b by (simp add: sampleState_def)
  then show ?thesis
    unfolding merged_lookup [OF sample_wf] by (simp add: sample_lookup changeBy_def sample_expected mergeEntry_def str_truthy_def)
qed

lemma sample_delivery:
  "\<exists>d. as_pendingDelivery (sampleState sig b) = Some d \<and> pd_eventId d = ''e1''"
  by (simp add: sampleState_def)

theorem delivered_channels_stay_delivered_witness:
  "\<exists>s d. merged_at (\<lambda>_. ''1'') (sampleDevice sampleSig []) (samplePatch (sampleState sampleSig True)) ''a1'' = Some s
     \<and> as_pendingDelivery s = Some d \<and> \<not> pd_push d"
proof -
  obtain d where d: "as_pendingDelivery (mergeCurrent (sampleState sampleSig False) (sampleState sampleSig True)) = Some d"
    "pd_eventId d = ''e1''"
    using sample_delivery [of sampleSig False] sample_delivery [of sampleSig True]
    by (auto simp: mergeCurrent_def Let_def)
  have "as_signature (mergeCurrent a b) \<in> {as_signature a, as_signature b}" for a b
    by (simp add: mergeCurrent_def Let_def)
  moreover have sig: "as_signature (sampleState sampleSig b) = sampleSig" for b by (simp add: sampleState_def)
  ultimately have "as_signature (mergeCurrent (sampleState sampleSig False) (sampleState sampleSig True)) = sampleSig"
    by (metis insertE singletonD)
  moreover obtain c where c: "as_pendingDelivery (sampleState sampleSig False) = Some c" "pd_eventId c = ''e1''" "\<not> pd_push c"
    by (simp add: sampleState_def)
  ultimately have "\<not> pd_push d"
    using delivered_channels_stay_delivered [OF sample_wf sample_merged d(1) sample_lookup(1) c(1)] c(2,3) d(2)
    by (metis sig)
  then show ?thesis using sample_merged d(1) by blast
qed

text \<open>
  C11.  Cursors never move backwards.  For an alert whose stored and incoming state both belong to the current
  definition, the cursor after the merge is the later of the two, provided that a canonical event has one
  trigger time; so a retried write with an older snapshot cannot make the evaluator see old ticks again.
\<close>

theorem merge_keeps_later_cursor:
  assumes "patch_wf patch" "map_get (dv_alertState existing) i = Some cur" "map_get (sp_alertState patch) i = Some x"
    and "expected_at numStr existing i = Some sig" "as_signature cur = sig" "as_signature x = sig"
    and "patchSignature patch i \<in> {None, Some sig}" "removedFor patch i = None"
    and "\<And>c d. as_pendingDelivery cur = Some c \<Longrightarrow> as_pendingDelivery x = Some d \<Longrightarrow> pd_eventId c = pd_eventId d \<Longrightarrow>
           pt_triggeredAt (pd_candidate c) = pt_triggeredAt (pd_candidate d)"
  shows "pushAlertStateCursor (merged_at numStr existing patch i) =
    js_max (pushAlertStateCursor (map_get (dv_alertState existing) i)) (pushAlertStateCursor (Some x))"
proof -
  have "mergeEntry (Some sig) (patchSignature patch i) (isAuthoritative patch i) (Some cur) x = Some (mergeCurrent cur x)"
    using assms(5-7) by (auto simp: mergeEntry_def str_truthy_def)
  then have "merged_at numStr existing patch i = Some (mergeCurrent cur x)"
    unfolding merged_lookup [OF assms(1)] using assms(2-4,8) by (simp add: changeBy_def)
  then show ?thesis using mergeCurrent_cursor [OF assms(9)] assms(2) by simp
qed

theorem merge_keeps_later_cursor_witness:
  "pushAlertStateCursor (merged_at (\<lambda>_. ''1'') (sampleDevice sampleSig []) (samplePatch (sampleState sampleSig True)) ''a1'') =
     js_max (pushAlertStateCursor (map_get (dv_alertState (sampleDevice sampleSig [])) ''a1''))
            (pushAlertStateCursor (Some (sampleState sampleSig True)))"
  by (rule merge_keeps_later_cursor [OF sample_wf sample_lookup(1,2) sample_expected(1)])
    (auto simp: sample_lookup, auto simp: sampleState_def)

text \<open>
  Stale snapshots change nothing and deliveries are removed only by their own event.  A snapshot of an older
  definition without a pending delivery leaves an edited alert's state alone; a snapshot cannot recreate state for
  an alert the browser removed, unless it carries a committed delivery or the backend vouches for the alert; and a
  state with a pending delivery disappears only when the removal names that very event and definition.
\<close>

theorem stale_snapshots_are_ignored:
  assumes "patch_wf patch"
  shows "(\<forall>x sig. expected_at numStr existing i = Some sig \<and> sig \<noteq> [] \<and> map_get (sp_alertState patch) i = Some x
           \<and> as_signature x \<noteq> sig \<and> as_pendingDelivery x = None \<and> removedFor patch i = None \<longrightarrow>
           merged_at numStr existing patch i = map_get (dv_alertState existing) i)
    \<and> (\<forall>x sig. expected_at numStr existing i = None \<and> map_get (dv_alertState existing) i = None
           \<and> patchSignature patch i = Some sig \<and> sig \<noteq> [] \<and> \<not> isAuthoritative patch i
           \<and> map_get (sp_alertState patch) i = Some x \<and> as_pendingDelivery x = None \<longrightarrow>
           merged_at numStr existing patch i = None)
    \<and> (\<forall>cur d. map_get (dv_alertState existing) i = Some cur \<and> as_pendingDelivery cur = Some d
           \<and> map_get (sp_alertState patch) i = None \<and> merged_at numStr existing patch i = None \<longrightarrow>
           (\<exists>r. removedFor patch i = Some r \<and> rs_eventId r = Some (pd_eventId d) \<and> rs_signature r = as_signature cur))"
proof (intro conjI allI impI; elim conjE)
  fix x sig
  assume a: "expected_at numStr existing i = Some sig" "sig \<noteq> []" "map_get (sp_alertState patch) i = Some x"
    "as_signature x \<noteq> sig" "as_pendingDelivery x = None" "removedFor patch i = None"
  have "mergeEntry (Some sig) p b cur x = None" for p b cur
    using a(2,4,5) by (auto simp: mergeEntry_def mergeEdited_def str_truthy_def)
  then show "merged_at numStr existing patch i = map_get (dv_alertState existing) i"
    unfolding merged_lookup [OF assms] using a by (simp add: changeBy_def)
next
  fix x sig
  assume a: "expected_at numStr existing i = None" "map_get (dv_alertState existing) i = None" "patchSignature patch i = Some sig"
    "sig \<noteq> []" "\<not> isAuthoritative patch i" "map_get (sp_alertState patch) i = Some x" "as_pendingDelivery x = None"
  have "mergeEntry None (Some sig) False None x = None" using a(4,7) by (simp add: mergeEntry_def str_truthy_def)
  then show "merged_at numStr existing patch i = None"
    unfolding merged_lookup [OF assms] using a by (simp add: changeBy_def removeBy_def split: option.splits)
next
  fix cur d
  assume a: "map_get (dv_alertState existing) i = Some cur" "as_pendingDelivery cur = Some d"
    "map_get (sp_alertState patch) i = None" "merged_at numStr existing patch i = None"
  show "\<exists>r. removedFor patch i = Some r \<and> rs_eventId r = Some (pd_eventId d) \<and> rs_signature r = as_signature cur"
    using a unfolding merged_lookup [OF assms]
    by (auto simp: Let_def removeBy_def removalApplies_def split: option.splits if_splits)
qed

theorem stale_snapshots_are_ignored_witness:
  "merged_at (\<lambda>_. ''1'') (sampleDevice sampleSig []) (samplePatch ((sampleState ''old'' True)\<lparr>as_pendingDelivery := None\<rparr>)) ''a1''
     = map_get (dv_alertState (sampleDevice sampleSig [])) ''a1''"
proof -
  have "sampleSig \<noteq> []" "''old'' \<noteq> sampleSig"
    by (simp_all add: alertStateSignature_def alertArmingRevision_def sampleAlert_def conditionName_def)
  then show ?thesis
    using stale_snapshots_are_ignored [OF sample_wf, of "\<lambda>_. ''1''" "sampleDevice sampleSig []" "''a1''"
        "(sampleState ''old'' True)\<lparr>as_pendingDelivery := None\<rparr>"]
    by (auto simp: sample_expected sample_lookup sampleState_def)
qed

text \<open>
  C35.  A committed delivery can be lost to a concurrent edit.  When the row holds a pending delivery under the
  definition before an edit, and an evaluator that already saw the edited definition writes its state without a
  delivery, the merge replaces the row's state and the undelivered notification is gone.
\<close>

theorem edited_alert_drops_committed_delivery:
  assumes "patch_wf patch" "map_get (dv_alertState existing) i = Some cur" "as_pendingDelivery cur = Some d"
    and "expected_at numStr existing i = Some sig" "sig \<noteq> []" "as_signature cur \<noteq> sig"
    and "map_get (sp_alertState patch) i = Some x" "as_signature x = sig" "as_pendingDelivery x = None"
    and "patchSignature patch i \<in> {None, Some sig}" "removedFor patch i = None"
  shows "merged_at numStr existing patch i = Some x"
proof -
  have "mergeEntry (Some sig) (patchSignature patch i) (isAuthoritative patch i) (Some cur) x = Some x"
    using assms(5,6,8,10) by (auto simp: mergeEntry_def str_truthy_def)
  then show ?thesis unfolding merged_lookup [OF assms(1)] using assms(2,4,7,11) by (simp add: changeBy_def)
qed

theorem edited_alert_drops_committed_delivery_witness:
  "merged_at (\<lambda>_. ''1'') (sampleDevice ''old'' [sampleAlert]) (samplePatch ((sampleState sampleSig True)\<lparr>as_pendingDelivery := None\<rparr>)) ''a1''
     = Some ((sampleState sampleSig True)\<lparr>as_pendingDelivery := None\<rparr>)"
proof -
  have "sampleSig \<noteq> []" "''old'' \<noteq> sampleSig"
    by (simp_all add: alertStateSignature_def alertArmingRevision_def sampleAlert_def conditionName_def)
  then show ?thesis
    by (intro edited_alert_drops_committed_delivery [OF sample_wf sample_lookup(1) _ sample_expected(2) _ _ sample_lookup(2)])
      (simp_all add: sample_lookup sampleState_def)
qed

text \<open>
  The attempts of a run: the rows the loop started from, the first being \<open>cur\<close>, the others read after the
  conflict of the attempt before; and how the last attempt ended the loop.
\<close>

definition attempts_chain ::
  "(jsnum \<Rightarrow> string) \<Rightarrow> (nat \<Rightarrow> jsnum) \<Rightarrow> state_patch \<Rightarrow> (nat \<Rightarrow> push_device \<Rightarrow> put_result) \<Rightarrow> (nat \<Rightarrow> reread_result) \<Rightarrow>
   nat \<Rightarrow> push_device \<Rightarrow> push_device list \<Rightarrow> bool" where
  "attempts_chain numStr now patch put reread k cur cs \<longleftrightarrow> cs \<noteq> [] \<and> hd cs = cur
     \<and> (\<forall>j. Suc j < length cs \<longrightarrow> put (k + j) (mergedRow numStr (now (k + j)) patch (cs ! j)) = PutConflict
          \<and> reread (k + j) = RereadRow (cs ! Suc j))"

definition attempt_ends ::
  "push_device \<Rightarrow> put_result \<Rightarrow> reread_result \<Rightarrow> bool \<Rightarrow> update_result \<Rightarrow> bool" where
  "attempt_ends row p r exhausted result =
     (case result of
        Written w \<Rightarrow> p = PutOk \<and> w = row
      | Failed \<Rightarrow> p = PutError \<or> p = PutConflict \<and> r = RereadError
      | DeviceGone \<Rightarrow> p = PutConflict \<and> r = RereadGone
      | Conflicted \<Rightarrow> p = PutConflict \<and> exhausted \<and> (\<exists>c. r = RereadRow c))"

lemma chain_single: "attempts_chain numStr now patch put reread k cur [cur]"
  by (simp add: attempts_chain_def)

lemma chain_Cons:
  assumes "attempts_chain numStr now patch put reread (k + 1) c cs" "reread k = RereadRow c"
    and "put k (mergedRow numStr (now k) patch cur) = PutConflict"
  shows "attempts_chain numStr now patch put reread k cur (cur # cs)"
  unfolding attempts_chain_def
proof (intro conjI allI impI)
  fix j assume j: "Suc j < length (cur # cs)"
  have hd: "cs ! 0 = c" "cs \<noteq> []" using assms(1) by (auto simp: attempts_chain_def hd_conv_nth)
  show "put (k + j) (mergedRow numStr (now (k + j)) patch ((cur # cs) ! j)) = PutConflict"
    using assms j by (cases j) (auto simp: attempts_chain_def)
  show "reread (k + j) = RereadRow ((cur # cs) ! Suc j)"
    using assms j hd by (cases j) (auto simp: attempts_chain_def)
qed simp_all

lemma updateLoop_outcome:
  "\<exists>cs. attempts_chain numStr now patch put reread k cur cs \<and> length cs \<le> Suc n
     \<and> (let l = length cs - 1; row = mergedRow numStr (now (k + l)) patch (cs ! l)
        in attempt_ends row (put (k + l) row) (reread (k + l)) (length cs = Suc n)
             (updateLoop numStr now patch put reread k (Suc n) cur))"
proof (induction n arbitrary: k cur)
  case 0
  show ?case
    by (rule exI [of _ "[cur]"]) (auto simp: chain_single attempt_ends_def Let_def split: put_result.split reread_result.split)
next
  case (Suc n)
  show ?case
  proof (cases "put k (mergedRow numStr (now k) patch cur) = PutConflict \<and> (\<exists>c. reread k = RereadRow c)")
    case True
    then obtain c where c: "put k (mergedRow numStr (now k) patch cur) = PutConflict" "reread k = RereadRow c" by blast
    obtain cs where cs: "attempts_chain numStr now patch put reread (k + 1) c cs" "length cs \<le> Suc n"
      "let l = length cs - 1; row = mergedRow numStr (now (k + 1 + l)) patch (cs ! l)
        in attempt_ends row (put (k + 1 + l) row) (reread (k + 1 + l)) (length cs = Suc n)
             (updateLoop numStr now patch put reread (k + 1) (Suc n) c)"
      using Suc.IH [of "k + 1" c] by blast
    have "cs \<noteq> []" using cs(1) by (simp add: attempts_chain_def)
    then obtain l where l: "length cs = Suc l" by (cases cs) auto
    have "updateLoop numStr now patch put reread k (Suc (Suc n)) cur = updateLoop numStr now patch put reread (k + 1) (Suc n) c"
      using c by (subst updateLoop.simps) simp
    then show ?thesis
      using cs chain_Cons [OF cs(1) c(2,1)] l by (intro exI [of _ "cur # cs"]) (simp add: Let_def del: updateLoop.simps)
  next
    case False
    then show ?thesis
      by (intro exI [of _ "[cur]"])
        (auto simp: chain_single attempt_ends_def Let_def split: put_result.split reread_result.split)
  qed
qed

lemma updateLoop_cong:
  "(\<And>j r. k \<le> j \<Longrightarrow> j < k + n \<Longrightarrow> put' j r = put j r) \<Longrightarrow> (\<And>j. k \<le> j \<Longrightarrow> j < k + n \<Longrightarrow> reread' j = reread j) \<Longrightarrow>
   updateLoop numStr now patch put' reread' k n cur = updateLoop numStr now patch put reread k n cur"
proof (induction n arbitrary: k cur)
  case (Suc n)
  have "updateLoop numStr now patch put' reread' (k + 1) n c = updateLoop numStr now patch put reread (k + 1) n c" for c
    using Suc.prems by (intro Suc.IH) auto
  then show ?case using Suc.prems(1) [of k] Suc.prems(2) [of k] by (simp split: put_result.split reread_result.split)
qed simp

text \<open>
  C32.  The compare-and-swap loop always ends, after at most three conditional writes, and its outcome is
  accounted for.  The attempts started from rows \<open>cs\<close>: first the caller's snapshot, then each time the row re-read
  after the conflict of the attempt before.  When the update reports success, the last attempt wrote the patch
  merged into its own row, never into an older one; it fails only when the last write or its re-read failed; it
  stops silently only when the re-read after a conflict found the device gone; and it raises the conflict error
  only after exactly three conflicts.  What a fourth write or re-read would do has no influence.
\<close>

theorem updatePushDevice_writes_merged_row:
  "(\<exists>cs. attempts_chain numStr now patch put reread 0 snapshot cs \<and> length cs \<le> 3
      \<and> (let l = length cs - 1; row = mergedRow numStr (now l) patch (cs ! l)
         in case updatePushDevice numStr now patch put reread snapshot of
              Written w \<Rightarrow> put l row = PutOk \<and> w = row \<and> dv_alerts w = dv_alerts (cs ! l) \<and> dv_version w = dv_version (cs ! l)
            | Failed \<Rightarrow> put l row = PutError \<or> put l row = PutConflict \<and> reread l = RereadError
            | DeviceGone \<Rightarrow> put l row = PutConflict \<and> reread l = RereadGone
            | Conflicted \<Rightarrow> length cs = 3 \<and> put l row = PutConflict))
   \<and> ((\<forall>j < 3. put' j = put j \<and> reread' j = reread j) \<longrightarrow>
       updatePushDevice numStr now patch put' reread' snapshot = updatePushDevice numStr now patch put reread snapshot)"
proof (intro conjI impI)
  obtain cs where cs: "attempts_chain numStr now patch put reread 0 snapshot cs" "length cs \<le> 3"
    "let l = length cs - 1; row = mergedRow numStr (now l) patch (cs ! l)
      in attempt_ends row (put l row) (reread l) (length cs = 3) (updatePushDevice numStr now patch put reread snapshot)"
    using updateLoop_outcome [of numStr now patch put reread 0 snapshot 2]
    by (auto simp: updatePushDevice_def MAX_WRITE_ATTEMPTS_def numeral_3_eq_3 numeral_2_eq_2 simp del: updateLoop.simps)
  show "\<exists>cs. attempts_chain numStr now patch put reread 0 snapshot cs \<and> length cs \<le> 3
      \<and> (let l = length cs - 1; row = mergedRow numStr (now l) patch (cs ! l)
         in case updatePushDevice numStr now patch put reread snapshot of
              Written w \<Rightarrow> put l row = PutOk \<and> w = row \<and> dv_alerts w = dv_alerts (cs ! l) \<and> dv_version w = dv_version (cs ! l)
            | Failed \<Rightarrow> put l row = PutError \<or> put l row = PutConflict \<and> reread l = RereadError
            | DeviceGone \<Rightarrow> put l row = PutConflict \<and> reread l = RereadGone
            | Conflicted \<Rightarrow> length cs = 3 \<and> put l row = PutConflict)"
    using cs by (intro exI [of _ cs]) (auto simp: Let_def attempt_ends_def mergedRow_def split: update_result.splits)
next
  assume "\<forall>j < 3. put' j = put j \<and> reread' j = reread j"
  then show "updatePushDevice numStr now patch put' reread' snapshot = updatePushDevice numStr now patch put reread snapshot"
    unfolding updatePushDevice_def by (intro updateLoop_cong) (simp_all add: MAX_WRITE_ATTEMPTS_def)
qed

theorem updatePushDevice_writes_merged_row_witness:
  "\<exists>cs. attempts_chain (\<lambda>_. ''1'') (\<lambda>_. Fin 2) (samplePatch (sampleState sampleSig True)) (\<lambda>_ _. PutConflict)
       (\<lambda>_. RereadRow (sampleDevice sampleSig [])) 0 (sampleDevice sampleSig []) cs \<and> length cs = 3"
proof -
  have "updatePushDevice (\<lambda>_. ''1'') (\<lambda>_. Fin 2) (samplePatch (sampleState sampleSig True)) (\<lambda>_ _. PutConflict)
      (\<lambda>_. RereadRow (sampleDevice sampleSig [])) (sampleDevice sampleSig []) = Conflicted"
    by (simp add: updatePushDevice_def MAX_WRITE_ATTEMPTS_def numeral_3_eq_3)
  then show ?thesis
    using conjunct1 [OF updatePushDevice_writes_merged_row [of "\<lambda>_. ''1''" "\<lambda>_. Fin 2" "samplePatch (sampleState sampleSig True)"
        "\<lambda>_ _. PutConflict" "\<lambda>_. RereadRow (sampleDevice sampleSig [])" "sampleDevice sampleSig []"]]
    unfolding Let_def by (elim exE conjE, simp only: update_result.case) blast
qed

end
