(* ===== verification/OrderRouting.thy ===== *)
theory OrderRouting
  imports AlertTargets
begin

section \<open>Order routing and copy previews\<close>

text \<open>
  Models \<open>services/execution/copyRouting.ts\<close>, \<open>services/execution/orderRouting.ts\<close>,
  \<open>services/execution/lifecycleCommands.ts\<close> and \<open>services/execution/orderResponse.ts\<close> with the types of
  \<open>types/execution.ts\<close> and \<open>types/mt5.ts\<close> they use: which accounts an order is copied to, the quantities the
  preview shows, the requests that go to the execution gateway, with every number printed as a decimal string, and
  the reading of its answers.  A thrown error is \<open>Inl\<close>.  Fields that none of these functions reads are left out of the
  records.  \<open>numStr\<close> is the printed form of a number, which \<open>toFixed\<close> uses from \<open>10\<^sup>2\<^sup>1\<close> on.

  The lemmas show that a printed decimal reads back as the number rounded to twelve places and is in
  canonical form, that previews and availability agree, and which accounts a request addresses.
\<close>

subsection \<open>Accounts and targets\<close>

datatype venue_kind = Simulator | Metatrader5 | BinanceSpot | BinanceUsdM

datatype account_status =
    StDisabled | StOffline | StConnecting | StQueued | StProvisioning | StSynchronizing | StReady | StDegraded
  | StReconnecting | StCredentialsRequired | StUnsupported | StBlocked | StDisconnected

datatype status_reason = EaUpdateRequired | BrokerTradingDisabled

record execution_account =
  ac_id :: string
  ac_label :: string
  ac_venueKind :: venue_kind
  ac_status :: account_status
  ac_equity :: "jsnum option"
  ac_tradeAllowed :: bool
  ac_statusReason :: "status_reason option"

datatype allocation_mode = SameQuantity | FixedQuantity | Multiplier | EquityProportional | RiskPercent

record copy_target =
  ct_accountId :: string
  ct_enabled :: bool
  ct_allocationMode :: allocation_mode
  ct_multiplier :: jsnum
  ct_fixedQuantity :: "jsnum option"
  ct_riskBasisPoints :: "jsnum option"
  ct_maxQuantity :: "jsnum option"

record preview_input =
  pv_sourceAccountId :: string
  pv_sourceQuantity :: jsnum
  pv_sourceEquity :: "jsnum option"
  pv_targets :: "copy_target list"
  pv_accounts :: "execution_account list"
  pv_quantitySteps :: "(string, jsnum) js_map option"

datatype blocked_reason =
    TargetDisabled | TargetNotFound | TargetNotReady | TargetCannotTrade
  | SourceEquityRequired | TargetEquityRequired | InvalidQuantity

datatype route_preview =
    ReadyRoute string jsnum allocation_mode
  | WaitingRoute string jsnum
  | BlockedRoute string blocked_reason

datatype availability_mode = ModeReady | ModeWaiting | ModeBlocked

record target_availability =
  av_eligible :: bool
  av_mode :: availability_mode
  av_label :: string
  av_detail :: string

subsection \<open>Copy routing\<close>

definition lit_1e_12 :: jsnum where
  "lit_1e_12 = f64 (1 / 10 ^ 12)"

definition OFFLINE_COPY_TTL_MS :: jsnum where
  "OFFLINE_COPY_TTL_MS = Fin (5 * 60 * 1000)"

definition copyTargetAvailability :: "execution_account \<Rightarrow> target_availability" where
  "copyTargetAvailability account =
     (if ac_venueKind account \<noteq> Metatrader5 then
        \<lparr>av_eligible = False, av_mode = ModeBlocked, av_label = ''Unavailable'',
         av_detail = ''This venue does not have an enabled execution adapter.''\<rparr>
      else if ac_status account = StReady \<and> ac_tradeAllowed account then
        \<lparr>av_eligible = True, av_mode = ModeReady, av_label = ''Ready'',
         av_detail = ''The EA is online and can receive the copy immediately.''\<rparr>
      else if ac_status account = StOffline \<or> ac_status account = StConnecting then
        \<lparr>av_eligible = True, av_mode = ModeWaiting, av_label = ''Offline '' @ [CHR 0xB7] @ '' waits 5 min'',
         av_detail = ''Start this account's MT5 terminal and EA within 5 minutes. The server revalidates the order before delivery.''\<rparr>
      else if ac_statusReason account = Some EaUpdateRequired then
        \<lparr>av_eligible = False, av_mode = ModeBlocked, av_label = ''EA update required'',
         av_detail = ''Install the latest MarketLensExecutionEA before copying to this account.''\<rparr>
      else if \<not> ac_tradeAllowed account then
        \<lparr>av_eligible = False, av_mode = ModeBlocked, av_label = ''Trading disabled'',
         av_detail = ''Enable Algo Trading and broker trading permission first.''\<rparr>
      else
        \<lparr>av_eligible = False, av_mode = ModeBlocked,
         av_label = (if ac_status account = StDisabled then ''Disabled'' else ''Not ready''),
         av_detail = ''Reconnect or repair this terminal before selecting it as a target.''\<rparr>)"

definition isPositive :: "jsnum option \<Rightarrow> bool" where
  "isPositive value = (case value of Some x \<Rightarrow> js_isFinite x \<and> js_lt (Fin 0) x | None \<Rightarrow> False)"

definition floorQuantityToStep :: "jsnum \<Rightarrow> jsnum \<Rightarrow> jsnum" where
  "floorQuantityToStep value step =
     (if \<not> isPositive (Some step) then value
      else let units = js_floor (js_div (js_add value lit_1e_12) step)
           in js_toPrecision 12 (js_mul units step))"

text \<open>The allocation of one target: the quantity before the cap, or the reason it is blocked.\<close>

definition allocatedQuantity ::
  "jsnum \<Rightarrow> jsnum option \<Rightarrow> execution_account \<Rightarrow> copy_target \<Rightarrow> blocked_reason + jsnum" where
  "allocatedQuantity sourceQuantity sourceEquity account target =
     (case ct_allocationMode target of
        SameQuantity \<Rightarrow> Inr sourceQuantity
      | FixedQuantity \<Rightarrow> Inr (case ct_fixedQuantity target of Some q \<Rightarrow> q | None \<Rightarrow> NaN)
      | Multiplier \<Rightarrow> Inr (js_mul sourceQuantity (ct_multiplier target))
      | EquityProportional \<Rightarrow>
          if \<not> isPositive sourceEquity then Inl SourceEquityRequired
          else if \<not> isPositive (ac_equity account) then Inl TargetEquityRequired
          else Inr (js_mul sourceQuantity
                 (js_mul (js_div (the (ac_equity account)) (the sourceEquity)) (ct_multiplier target)))
      | RiskPercent \<Rightarrow> Inl InvalidQuantity)"

definition capQuantity :: "copy_target \<Rightarrow> jsnum \<Rightarrow> jsnum" where
  "capQuantity target quantity =
     (if isPositive (ct_maxQuantity target) then js_min quantity (the (ct_maxQuantity target)) else quantity)"

definition previewRoute :: "preview_input \<Rightarrow> (string, execution_account) js_map \<Rightarrow> copy_target \<Rightarrow> route_preview" where
  "previewRoute input byId target =
     (let accountId = ct_accountId target; blocked = BlockedRoute accountId
      in if \<not> ct_enabled target then blocked TargetDisabled
         else
           case map_get byId accountId of
             None \<Rightarrow> blocked TargetNotFound
           | Some account \<Rightarrow>
               if ac_status account = StOffline \<or> ac_status account = StConnecting then
                 WaitingRoute accountId OFFLINE_COPY_TTL_MS
               else if ac_status account \<noteq> StReady then blocked TargetNotReady
               else if \<not> ac_tradeAllowed account then blocked TargetCannotTrade
               else
                 case allocatedQuantity (pv_sourceQuantity input) (pv_sourceEquity input) account target of
                   Inl reason \<Rightarrow> blocked reason
                 | Inr allocated \<Rightarrow>
                     let step = (case pv_quantitySteps input of
                                   None \<Rightarrow> Fin 0
                                 | Some steps \<Rightarrow> (case map_get steps accountId of None \<Rightarrow> Fin 0 | Some s \<Rightarrow> s));
                         quantity = floorQuantityToStep (capQuantity target allocated) step
                     in if \<not> isPositive (Some quantity) then blocked InvalidQuantity
                        else ReadyRoute accountId quantity (ct_allocationMode target))"

definition previewCopyRoutes :: "preview_input \<Rightarrow> route_preview list" where
  "previewCopyRoutes input =
     (let byId = map_set_all (map (\<lambda>a. (ac_id a, a)) (pv_accounts input)) []
      in map (previewRoute input byId) (pv_targets input))"

subsection \<open>Decimal strings\<close>

definition digitChar :: "nat \<Rightarrow> char" where
  "digitChar d = char_of (48 + d)"

fun natDigits :: "nat \<Rightarrow> string" where
  "natDigits n = (if n < 10 then [digitChar n] else natDigits (n div 10) @ [digitChar (n mod 10)])"

declare natDigits.simps [simp del]

text \<open>\<open>Number.prototype.toFixed\<close> on a finite number, for a positive number of places.\<close>

definition fixedDigits :: "nat \<Rightarrow> rat \<Rightarrow> string" where
  "fixedDigits places a =
     (let m = natDigits (nat \<lfloor>a * 10 ^ places + 1 / 2\<rfloor>);
          padded = replicate (places + 1 - length m) CHR ''0'' @ m;
          k = length padded
      in take (k - places) padded @ ''.'' @ drop (k - places) padded)"

definition toFixedString :: "(jsnum \<Rightarrow> string) \<Rightarrow> nat \<Rightarrow> rat \<Rightarrow> string" where
  "toFixedString numStr places a =
     (if 10 ^ 21 \<le> \<bar>a\<bar> then numStr (Fin a)
      else if a < 0 then CHR ''-'' # fixedDigits places (- a) else fixedDigits places a)"

text \<open>\<open>s.replace(/\.?0+$/, "")\<close>: the match starts at the point before the final zeros, or at the first of them.\<close>

definition stripZeros :: "string \<Rightarrow> string" where
  "stripZeros s =
     (let body = rev (dropWhile (\<lambda>c. c = CHR ''0'') (rev s))
      in if length body = length s then s
         else if body \<noteq> [] \<and> last body = CHR ''.'' then butlast body else body)"

datatype routing_error =
    DecimalNotFinite
  | CopyTargetRequired
  | EntryPriceRequired
  | ResponseInvalid string

definition executionDecimal :: "(jsnum \<Rightarrow> string) \<Rightarrow> jsnum \<Rightarrow> routing_error + string" where
  "executionDecimal numStr value =
     (case value of
        Fin a \<Rightarrow> let normalized = stripZeros (toFixedString numStr 12 a)
                 in Inr (if normalized = ''-0'' then ''0'' else normalized)
      | _ \<Rightarrow> Inl DecimalNotFinite)"

text \<open>\<open>x != null ? {k: executionDecimal(x)} : {}\<close>\<close>

definition optionalDecimal :: "(jsnum \<Rightarrow> string) \<Rightarrow> jsnum option \<Rightarrow> routing_error + string option" where
  "optionalDecimal numStr value =
     (case value of None \<Rightarrow> Inr None | Some x \<Rightarrow> and_then (executionDecimal numStr x) (\<lambda>s. Inr (Some s)))"

subsection \<open>Order requests\<close>

datatype order_side = Buy | Sell
datatype order_kind = KMarket | KLimit | KStop
datatype position_side = PLong | PShort

record mt5_order_request =
  or_clientOrderId :: string
  or_chartSymbol :: string
  or_brokerSymbol :: string
  or_side :: order_side
  or_type :: order_kind
  or_volume :: jsnum
  or_price :: "jsnum option"
  or_marketPrice :: "jsnum option"
  or_sl :: "jsnum option"
  or_tp :: "jsnum option"
  or_deviationPoints :: "jsnum option"
  or_comment :: "string option"
  or_drawingId :: "string option"

record mt5_position =
  mp_ticket :: string
  mp_symbol :: string
  mp_brokerSymbol :: string
  mp_side :: position_side
  mp_volume :: jsnum
  mp_currentPrice :: jsnum
  mp_sl :: "jsnum option"
  mp_tp :: "jsnum option"

record mt5_pending_order =
  mo_ticket :: string
  mo_symbol :: string
  mo_brokerSymbol :: string
  mo_side :: order_side
  mo_isStop :: bool
  mo_volume :: jsnum
  mo_price :: jsnum
  mo_sl :: "jsnum option"
  mo_tp :: "jsnum option"

datatype copyable_trade = CopyPosition mt5_position | CopyPendingOrder mt5_pending_order

datatype allocation_wire =
    WireSame
  | WireFixed string
  | WireMultiplier string
  | WireEquity string
  | WireRisk jsnum

record target_wire =
  tw_accountId :: string
  tw_allocation :: allocation_wire
  tw_maxQuantity :: "string option"

record order_intent =
  in_commandId :: string
  in_idempotencyKey :: string
  in_sourceAccountId :: string
  in_canonicalSymbol :: string
  in_side :: order_side
  in_kind :: order_kind
  in_quantity :: string
  in_limitPrice :: "string option"
  in_stopPrice :: "string option"
  in_stopLoss :: "string option"
  in_takeProfit :: "string option"
  in_metadata :: "(string \<times> string) list"

record order_wire =
  ow_intent :: order_intent
  ow_targets :: "target_wire list"

definition allocationWire :: "(jsnum \<Rightarrow> string) \<Rightarrow> copy_target \<Rightarrow> routing_error + allocation_wire" where
  "allocationWire numStr target =
     (case ct_allocationMode target of
        FixedQuantity \<Rightarrow>
          and_then (executionDecimal numStr (case ct_fixedQuantity target of Some q \<Rightarrow> q | None \<Rightarrow> Fin 0)) (\<lambda>s. Inr (WireFixed s))
      | Multiplier \<Rightarrow> and_then (executionDecimal numStr (ct_multiplier target)) (\<lambda>s. Inr (WireMultiplier s))
      | EquityProportional \<Rightarrow> and_then (executionDecimal numStr (ct_multiplier target)) (\<lambda>s. Inr (WireEquity s))
      | RiskPercent \<Rightarrow> Inr (WireRisk (case ct_riskBasisPoints target of Some b \<Rightarrow> b | None \<Rightarrow> Fin 50))
      | SameQuantity \<Rightarrow> Inr WireSame)"

definition targetWire :: "(jsnum \<Rightarrow> string) \<Rightarrow> copy_target \<Rightarrow> routing_error + target_wire" where
  "targetWire numStr target =
     and_then (allocationWire numStr target) (\<lambda>allocation.
     and_then (optionalDecimal numStr (ct_maxQuantity target)) (\<lambda>maxQuantity.
     Inr \<lparr>tw_accountId = ct_accountId target, tw_allocation = allocation, tw_maxQuantity = maxQuantity\<rparr>))"

definition buildOrderWire ::
  "(jsnum \<Rightarrow> string) \<Rightarrow> mt5_order_request \<Rightarrow> execution_account \<Rightarrow> target_wire list \<Rightarrow> routing_error + order_wire" where
  "buildOrderWire numStr order source targets =
     and_then (executionDecimal numStr (or_volume order)) (\<lambda>quantity.
     and_then (optionalDecimal numStr (if or_type order = KLimit then or_price order else None)) (\<lambda>limitPrice.
     and_then (optionalDecimal numStr (if or_type order = KStop then or_price order else None)) (\<lambda>stopPrice.
     and_then (optionalDecimal numStr (or_sl order)) (\<lambda>stopLoss.
     and_then (optionalDecimal numStr (or_tp order)) (\<lambda>takeProfit.
     Inr \<lparr>ow_intent =
            \<lparr>in_commandId = or_clientOrderId order, in_idempotencyKey = or_clientOrderId order,
             in_sourceAccountId = ac_id source, in_canonicalSymbol = or_chartSymbol order,
             in_side = or_side order, in_kind = or_type order, in_quantity = quantity,
             in_limitPrice = limitPrice, in_stopPrice = stopPrice, in_stopLoss = stopLoss, in_takeProfit = takeProfit,
             in_metadata = (case or_comment order of Some c \<Rightarrow> if c = [] then [] else [(''comment'', c)] | None \<Rightarrow> [])\<rparr>,
          ow_targets = targets\<rparr>)))))"

text \<open>The drafts the loop of \<open>buildExecutionOrderRequest\<close> does not skip, in the order of the accounts.\<close>

definition routedDrafts ::
  "execution_account \<Rightarrow> (string, copy_target) js_map \<Rightarrow> execution_account list \<Rightarrow> copy_target list" where
  "routedDrafts selected copyTargets accounts =
     List.map_filter (\<lambda>account.
       case map_get copyTargets (ac_id account) of
         None \<Rightarrow> None
       | Some target \<Rightarrow>
           if \<not> ct_enabled target \<or> ac_id account = ac_id selected \<or> \<not> av_eligible (copyTargetAvailability account)
           then None else Some target) accounts"

definition buildExecutionOrderRequest ::
  "(jsnum \<Rightarrow> string) \<Rightarrow> mt5_order_request \<Rightarrow> execution_account \<Rightarrow> (string, copy_target) js_map \<Rightarrow>
   execution_account list \<Rightarrow> routing_error + order_wire" where
  "buildExecutionOrderRequest numStr order selected copyTargets accounts =
     and_then (traverse (targetWire numStr) (routedDrafts selected copyTargets accounts)) (\<lambda>copies.
     buildOrderWire numStr order selected
       (\<lparr>tw_accountId = ac_id selected, tw_allocation = WireSame, tw_maxQuantity = None\<rparr> # copies))"

definition buildExecutionCopyRequest ::
  "(jsnum \<Rightarrow> string) \<Rightarrow> mt5_order_request \<Rightarrow> execution_account \<Rightarrow> copy_target list \<Rightarrow> routing_error + order_wire" where
  "buildExecutionCopyRequest numStr order source targets =
     and_then (traverse (targetWire numStr)
                 (filter (\<lambda>t. ct_enabled t \<and> ct_accountId t \<noteq> ac_id source) targets)) (\<lambda>copies.
     if copies = [] then Inl CopyTargetRequired else buildOrderWire numStr order source copies)"

definition copyableTradeOrder :: "copyable_trade \<Rightarrow> string \<Rightarrow> mt5_order_request" where
  "copyableTradeOrder trade commandId =
     (case trade of
        CopyPendingOrder ord \<Rightarrow>
          \<lparr>or_clientOrderId = commandId, or_chartSymbol = mo_symbol ord, or_brokerSymbol = mo_brokerSymbol ord,
           or_side = mo_side ord, or_type = (if mo_isStop ord then KStop else KLimit), or_volume = mo_volume ord,
           or_price = Some (mo_price ord), or_marketPrice = None, or_sl = mo_sl ord, or_tp = mo_tp ord,
           or_deviationPoints = None, or_comment = Some ''SMC copied pending order'', or_drawingId = None\<rparr>
      | CopyPosition pos \<Rightarrow>
          \<lparr>or_clientOrderId = commandId, or_chartSymbol = mp_symbol pos, or_brokerSymbol = mp_brokerSymbol pos,
           or_side = (if mp_side pos = PLong then Buy else Sell), or_type = KMarket, or_volume = mp_volume pos,
           or_price = None, or_marketPrice = Some (mp_currentPrice pos), or_sl = mp_sl pos, or_tp = mp_tp pos,
           or_deviationPoints = None, or_comment = Some ''SMC copied position'', or_drawingId = None\<rparr>)"

subsection \<open>Life cycle commands\<close>

record command_identity =
  ci_commandId :: string
  ci_idempotencyKey :: string
  ci_targetAccountId :: string

record mt5_close_request =
  cr_clientOrderId :: string
  cr_ticket :: string
  cr_volume :: "jsnum option"
  cr_deviationPoints :: "jsnum option"

record mt5_modify_request =
  mr_clientOrderId :: string
  mr_ticket :: string
  mr_pendingOrder :: bool
  mr_sl :: "jsnum option"
  mr_tp :: "jsnum option"
  mr_price :: "jsnum option"

record mt5_cancel_request =
  xr_clientOrderId :: string
  xr_ticket :: string

datatype lifecycle_command =
    ClosePositionCmd command_identity string "string option" jsnum
  | ModifyPendingOrderCmd command_identity string string "string option" "string option"
  | ModifyPositionCmd command_identity string "string option" "string option"
  | CancelOrderCmd command_identity string

definition identity :: "string \<Rightarrow> string \<Rightarrow> command_identity" where
  "identity accountId clientOrderId =
     \<lparr>ci_commandId = clientOrderId, ci_idempotencyKey = clientOrderId, ci_targetAccountId = accountId\<rparr>"

definition buildClosePositionCommand ::
  "(jsnum \<Rightarrow> string) \<Rightarrow> string \<Rightarrow> mt5_close_request \<Rightarrow> routing_error + lifecycle_command" where
  "buildClosePositionCommand numStr accountId request =
     and_then (optionalDecimal numStr (cr_volume request)) (\<lambda>quantity.
     Inr (ClosePositionCmd (identity accountId (cr_clientOrderId request)) (cr_ticket request) quantity
            (case cr_deviationPoints request of Some d \<Rightarrow> d | None \<Rightarrow> Fin 20)))"

definition buildModifyPositionCommand ::
  "(jsnum \<Rightarrow> string) \<Rightarrow> string \<Rightarrow> mt5_modify_request \<Rightarrow> routing_error + lifecycle_command" where
  "buildModifyPositionCommand numStr accountId request =
     (let ident = identity accountId (mr_clientOrderId request);
          protection = (\<lambda>make.
            and_then (optionalDecimal numStr (mr_sl request)) (\<lambda>stopLoss.
            and_then (optionalDecimal numStr (mr_tp request)) (\<lambda>takeProfit. Inr (make stopLoss takeProfit))))
      in if mr_pendingOrder request then
           (case mr_price request of
              None \<Rightarrow> Inl EntryPriceRequired
            | Some price \<Rightarrow>
                and_then (executionDecimal numStr price) (\<lambda>p. protection (ModifyPendingOrderCmd ident (mr_ticket request) p)))
         else protection (ModifyPositionCmd ident (mr_ticket request)))"

definition buildCancelOrderCommand :: "string \<Rightarrow> mt5_cancel_request \<Rightarrow> lifecycle_command" where
  "buildCancelOrderCommand accountId request =
     CancelOrderCmd (identity accountId (xr_clientOrderId request)) (xr_ticket request)"

subsection \<open>Order responses\<close>

datatype target_submission =
    SubQueued string string "string list"
  | SubWaiting string string jsnum
  | SubRejected string string string
  | SubUnavailable string string string

record order_response =
  rs_commandId :: string
  rs_targets :: "target_submission list"

definition recordOf :: "json \<Rightarrow> string \<Rightarrow> routing_error + json" where
  "recordOf v label = (if isRecord v then Inr v else Inl (ResponseInvalid (label @ '' is invalid'')))"

text \<open>\<open>value[camelCase] ?? (snakeCase ? value[snakeCase] : undefined)\<close>\<close>

definition candidateField :: "json \<Rightarrow> string \<Rightarrow> string option \<Rightarrow> json" where
  "candidateField v camelCase snakeCase =
     (if field v camelCase \<in> {JUndef, JNull}
      then (case snakeCase of Some k \<Rightarrow> field v k | None \<Rightarrow> JUndef) else field v camelCase)"

definition fieldInvalid :: "string \<Rightarrow> routing_error" where
  "fieldInvalid camelCase = ResponseInvalid (''execution response field '' @ camelCase @ '' is invalid'')"

definition requiredString :: "json \<Rightarrow> string \<Rightarrow> string option \<Rightarrow> routing_error + string" where
  "requiredString v camelCase snakeCase =
     (case candidateField v camelCase snakeCase of
        JStr s \<Rightarrow> if s = [] then Inl (fieldInvalid camelCase) else Inr s
      | _ \<Rightarrow> Inl (fieldInvalid camelCase))"

definition requiredNumber :: "json \<Rightarrow> string \<Rightarrow> string option \<Rightarrow> routing_error + jsnum" where
  "requiredNumber v camelCase snakeCase =
     (case candidateField v camelCase snakeCase of
        JNum x \<Rightarrow> if js_isFinite x then Inr x else Inl (fieldInvalid camelCase)
      | _ \<Rightarrow> Inl (fieldInvalid camelCase))"

definition warningsOf :: "json \<Rightarrow> routing_error + string list" where
  "warningsOf v =
     (let invalid = Inl (ResponseInvalid ''execution target warnings are invalid'')
      in case v of
           JArr ws \<Rightarrow> if list_all (\<lambda>w. case w of JStr _ \<Rightarrow> True | _ \<Rightarrow> False) ws
                      then Inr (map (\<lambda>w. case w of JStr s \<Rightarrow> s | _ \<Rightarrow> []) ws) else invalid
         | _ \<Rightarrow> invalid)"

text \<open>The branches of \<open>normalizeTargetSubmission\<close> on the status, which is not empty.\<close>

definition submissionByStatus :: "json \<Rightarrow> string \<Rightarrow> string \<Rightarrow> routing_error + target_submission" where
  "submissionByStatus target status accountId =
     (if status = ''queued'' then
        and_then (warningsOf (field target ''warnings'')) (\<lambda>warnings.
        and_then (requiredString target ''commandId'' (Some ''command_id'')) (\<lambda>commandId.
        Inr (SubQueued accountId commandId warnings)))
      else if status = ''waiting'' then
        and_then (requiredString target ''commandId'' (Some ''command_id'')) (\<lambda>commandId.
        and_then (requiredNumber target ''expiresAtMs'' (Some ''expires_at_ms'')) (\<lambda>expiresAtMs.
        Inr (SubWaiting accountId commandId expiresAtMs)))
      else if status = ''rejected'' \<or> status = ''unavailable'' then
        and_then (requiredString target ''code'' None) (\<lambda>code.
        and_then (requiredString target ''message'' None) (\<lambda>message.
        Inr (if status = ''rejected'' then SubRejected accountId code message else SubUnavailable accountId code message)))
      else Inl (ResponseInvalid (''unsupported execution target status: '' @ status)))"

definition normalizeTargetSubmission :: "json \<Rightarrow> routing_error + target_submission" where
  "normalizeTargetSubmission v =
     and_then (recordOf v ''execution target submission'') (\<lambda>target.
     and_then (requiredString target ''status'' None) (\<lambda>status.
     and_then (requiredString target ''accountId'' (Some ''account_id'')) (\<lambda>accountId.
     submissionByStatus target status accountId)))"

definition normalizeExecutionOrderResponse :: "json \<Rightarrow> routing_error + order_response" where
  "normalizeExecutionOrderResponse v =
     and_then (recordOf v ''execution order response'') (\<lambda>response.
     case field response ''targets'' of
       JArr targets \<Rightarrow>
         and_then (requiredString response ''commandId'' (Some ''command_id'')) (\<lambda>commandId.
         and_then (traverse normalizeTargetSubmission targets) (\<lambda>submissions.
         Inr \<lparr>rs_commandId = commandId, rs_targets = submissions\<rparr>))
     | _ \<Rightarrow> Inl (ResponseInvalid ''execution order response targets are invalid''))"

subsection \<open>Reading decimals back\<close>

definition isDigit :: "char \<Rightarrow> bool" where
  "isDigit c \<longleftrightarrow> 48 \<le> (of_char c :: nat) \<and> (of_char c :: nat) \<le> 57"

definition digitsValue :: "string \<Rightarrow> nat" where
  "digitsValue s = foldl (\<lambda>acc c. 10 * acc + (of_char c - 48)) 0 s"

definition intPart :: "string \<Rightarrow> string" where
  "intPart s = takeWhile (\<lambda>c. c \<noteq> CHR ''.'') s"

definition fracPart :: "string \<Rightarrow> string" where
  "fracPart s = tl (dropWhile (\<lambda>c. c \<noteq> CHR ''.'') s)"

definition unsignedValue :: "string \<Rightarrow> rat" where
  "unsignedValue s = of_nat (digitsValue (intPart s)) + of_nat (digitsValue (fracPart s)) / 10 ^ length (fracPart s)"

definition decimalValue :: "string \<Rightarrow> rat" where
  "decimalValue s = (if s \<noteq> [] \<and> hd s = CHR ''-'' then - unsignedValue (tl s) else unsignedValue s)"

text \<open>An optional sign, an integer part without superfluous zeros, and a fraction only if it has a last digit that counts.\<close>

definition canonicalDecimal :: "string \<Rightarrow> bool" where
  "canonicalDecimal s \<longleftrightarrow>
     (let t = (if s \<noteq> [] \<and> hd s = CHR ''-'' then tl s else s)
      in s \<noteq> ''-0'' \<and> intPart t \<noteq> [] \<and> list_all isDigit (intPart t) \<and> (intPart t = ''0'' \<or> hd (intPart t) \<noteq> CHR ''0'')
         \<and> (t = intPart t
            \<or> fracPart t \<noteq> [] \<and> list_all isDigit (fracPart t) \<and> last (fracPart t) \<noteq> CHR ''0''
               \<and> t = intPart t @ ''.'' @ fracPart t))"

definition round12 :: "rat \<Rightarrow> rat" where
  "round12 a = (if a < 0 then - of_int \<lfloor>- a * 10 ^ 12 + 1 / 2\<rfloor> / 10 ^ 12 else of_int \<lfloor>a * 10 ^ 12 + 1 / 2\<rfloor> / 10 ^ 12)"

lemma digitChar_code: "d < 10 \<Longrightarrow> (of_char (digitChar d) :: nat) = 48 + d"
  by (simp add: digitChar_def)

lemma digitsValue_append: "digitsValue (xs @ ys) = digitsValue xs * 10 ^ length ys + digitsValue ys"
proof (induction ys rule: rev_induct)
  case (snoc y ys) then show ?case by (simp add: digitsValue_def algebra_simps)
qed (simp add: digitsValue_def)

lemma digitsValue_zeros [simp]: "digitsValue (replicate k CHR ''0'') = 0"
  by (induction k) (simp_all add: digitsValue_def)

lemma natDigits_value: "digitsValue (natDigits n) = n"
proof (induction n rule: natDigits.induct)
  case (1 n) then show ?case
    by (subst natDigits.simps) (auto simp: digitsValue_append, simp_all add: digitsValue_def digitChar_code)
qed

lemma digitChar_isDigit: "d < 10 \<Longrightarrow> isDigit (digitChar d)"
  by (simp add: isDigit_def digitChar_code)

lemma natDigits_digits: "list_all isDigit (natDigits n)" "natDigits n \<noteq> []"
proof -
  show "list_all isDigit (natDigits n)"
  proof (induction n rule: natDigits.induct)
    case (1 n) then show ?case by (subst natDigits.simps) (simp add: digitChar_isDigit)
  qed
  show "natDigits n \<noteq> []" by (subst natDigits.simps) simp
qed

lemma natDigits_hd: "0 < n \<Longrightarrow> hd (natDigits n) \<noteq> CHR ''0''"
proof (induction n rule: natDigits.induct)
  case (1 n)
  have "digitChar n \<noteq> CHR ''0''" if "n < 10"
  proof
    assume "digitChar n = CHR ''0''"
    then have "(of_char (digitChar n) :: nat) = 48" by simp
    then show False using that 1 by (simp add: digitChar_code)
  qed
  then show ?case using 1 by (subst natDigits.simps) (auto simp: natDigits_digits)
qed

lemma no_point: "list_all isDigit s \<Longrightarrow> CHR ''.'' \<notin> set s" "list_all isDigit s \<Longrightarrow> CHR ''-'' \<notin> set s"
  by (auto simp: list_all_iff isDigit_def)

lemma parts_of_point:
  assumes "list_all isDigit A"
  shows "intPart (A @ CHR ''.'' # B) = A" "fracPart (A @ CHR ''.'' # B) = B" "intPart A = A" "fracPart A = []"
proof -
  have d: "\<And>c. c \<in> set A \<Longrightarrow> c \<noteq> CHR ''.''" using no_point(1) [OF assms] by metis
  show "intPart (A @ CHR ''.'' # B) = A" "fracPart (A @ CHR ''.'' # B) = B"
    using d by (simp_all add: intPart_def fracPart_def takeWhile_append2 dropWhile_append2)
  show "intPart A = A" "fracPart A = []"
    using d by (simp_all add: intPart_def fracPart_def dropWhile_eq_Nil_conv [THEN iffD2])
qed

lemma fixedDigits_parts:
  assumes "0 \<le> a" "0 < places"
  obtains A B where "fixedDigits places a = A @ CHR ''.'' # B" "list_all isDigit A" "list_all isDigit B" "A \<noteq> []"
    "length B = places" "A = ''0'' \<or> hd A \<noteq> CHR ''0''"
    "digitsValue A * 10 ^ places + digitsValue B = nat \<lfloor>a * 10 ^ places + 1 / 2\<rfloor>"
proof -
  define n where "n = nat \<lfloor>a * 10 ^ places + 1 / 2\<rfloor>"
  define m where "m = natDigits n"
  define p where "p = replicate (places + 1 - length m) CHR ''0'' @ m"
  define A where "A = take (length p - places) p"
  define B where "B = drop (length p - places) p"
  have len: "places < length p" by (simp add: p_def)
  have dig: "list_all isDigit p"
    using natDigits_digits(1) [of n] by (auto simp: p_def m_def list_all_iff isDigit_def)
  have AB: "A @ B = p" by (simp add: A_def B_def)
  have lB: "length B = places" using len by (simp add: B_def)
  have "fixedDigits places a = A @ CHR ''.'' # B"
    by (simp add: fixedDigits_def Let_def A_def B_def p_def m_def n_def)
  moreover have "list_all isDigit A" "list_all isDigit B" using dig AB by (metis list_all_append)+
  moreover have "A \<noteq> []" using len by (auto simp: A_def)
  moreover have "A = ''0'' \<or> hd A \<noteq> CHR ''0''"
  proof (cases "length m \<le> places")
    case True
    then have "length p - places = 1" by (simp add: p_def)
    moreover have "hd p = CHR ''0''" using True by (simp add: p_def Suc_diff_le)
    moreover have "p \<noteq> []" using len by auto
    ultimately show ?thesis unfolding A_def by (cases p) auto
  next
    case False
    then have pm: "p = m" by (simp add: p_def)
    have "0 < n"
    proof (rule ccontr)
      assume "\<not> 0 < n"
      then have "length m = 1" by (simp add: m_def natDigits.simps)
      then show False using False assms(2) by simp
    qed
    then have "hd m \<noteq> CHR ''0''" by (simp add: m_def natDigits_hd)
    moreover have "hd A = hd p" using len unfolding A_def by (simp add: hd_conv_nth)
    ultimately show ?thesis using pm by simp
  qed
  moreover have "digitsValue A * 10 ^ places + digitsValue B = n"
  proof -
    have "digitsValue A * 10 ^ places + digitsValue B = digitsValue (A @ B)"
      by (simp add: digitsValue_append lB)
    also have "\<dots> = n" by (simp add: AB p_def digitsValue_append m_def natDigits_value)
    finally show ?thesis .
  qed
  ultimately show thesis using lB that by (simp add: n_def)
qed

lemma stripZeros_fraction:
  assumes "B \<noteq> []" "CHR ''.'' \<notin> set B"
  obtains B' k where "B = B' @ replicate k CHR ''0''" "B' = [] \<or> last B' \<noteq> CHR ''0''"
    "stripZeros (P @ CHR ''.'' # B) = (if B' = [] then P else P @ CHR ''.'' # B')"
proof -
  let ?z = "\<lambda>c. c = CHR ''0''"
  define B' where "B' = rev (dropWhile ?z (rev B))"
  define k where "k = length (takeWhile ?z (rev B))"
  have "takeWhile ?z (rev B) = replicate k CHR ''0''"
    unfolding k_def by (rule replicate_length_same [symmetric]) (auto dest: set_takeWhileD)
  then have B: "B = B' @ replicate k CHR ''0''"
    unfolding B'_def by (metis rev_append rev_replicate rev_rev_ident takeWhile_dropWhile_id)
  have l: "B' = [] \<or> last B' \<noteq> CHR ''0''"
    unfolding B'_def by (metis (full_types) hd_dropWhile last_rev rev_is_Nil_conv)
  have s: "rev (dropWhile ?z (rev (P @ CHR ''.'' # B))) = P @ CHR ''.'' # B'"
  proof (cases "B' = []")
    case True
    then have "\<And>c. c \<in> set (rev B) \<Longrightarrow> ?z c" by (simp add: B'_def dropWhile_eq_Nil_conv)
    then have "dropWhile ?z (rev B @ CHR ''.'' # rev P) = dropWhile ?z (CHR ''.'' # rev P)" by (rule dropWhile_append2)
    then show ?thesis using True by simp
  next
    case False
    then have "dropWhile ?z (rev (P @ CHR ''.'' # B)) = dropWhile ?z (rev B) @ rev (P @ [CHR ''.''])"
      unfolding B'_def by (auto simp: dropWhile_eq_Nil_conv intro: dropWhile_append1)
    then show ?thesis by (simp add: B'_def)
  qed
  have "stripZeros (P @ CHR ''.'' # B) = (if B' = [] then P else P @ CHR ''.'' # B')"
  proof (cases "k = 0")
    case True
    then have "B' = B" using B by simp
    then show ?thesis using s assms by (simp add: stripZeros_def Let_def)
  next
    case False
    then have "length (P @ CHR ''.'' # B') \<noteq> length (P @ CHR ''.'' # B)" by (simp add: B)
    then show ?thesis unfolding stripZeros_def Let_def s using assms(2) by (auto simp: butlast_append B dest: last_in_set)
  qed
  then show thesis using B l that by blast
qed

definition unsigned_decimal :: "rat \<Rightarrow> string \<Rightarrow> bool" where
  "unsigned_decimal v t \<longleftrightarrow>
     list_all isDigit (intPart t) \<and> intPart t \<noteq> [] \<and> (intPart t = ''0'' \<or> hd (intPart t) \<noteq> CHR ''0'') \<and> unsignedValue t = v
     \<and> (t = intPart t \<or> fracPart t \<noteq> [] \<and> list_all isDigit (fracPart t) \<and> last (fracPart t) \<noteq> CHR ''0''
          \<and> t = intPart t @ ''.'' @ fracPart t)"

lemma fraction_value:
  assumes "length (B' @ replicate k CHR ''0'') = n"
  shows "of_nat (digitsValue (B' @ replicate k CHR ''0'')) / 10 ^ n = (of_nat (digitsValue B') / 10 ^ length B' :: rat)"
proof -
  have "n = length B' + k" using assms by simp
  then show ?thesis by (simp add: digitsValue_append power_add)
qed

lemma stripped_decimal:
  assumes "0 \<le> a"
  obtains t where "stripZeros (P @ fixedDigits 12 a) = P @ t" "unsigned_decimal (of_int \<lfloor>a * 10 ^ 12 + 1 / 2\<rfloor> / 10 ^ 12) t"
proof -
  obtain A B where p: "fixedDigits 12 a = A @ CHR ''.'' # B" "list_all isDigit A" "list_all isDigit B" "A \<noteq> []"
    "length B = 12" "A = ''0'' \<or> hd A \<noteq> CHR ''0''"
    "digitsValue A * 10 ^ 12 + digitsValue B = nat \<lfloor>a * 10 ^ 12 + 1 / 2\<rfloor>"
    by (rule fixedDigits_parts [OF assms, of 12]) simp
  have "B \<noteq> []" using p(5) by auto
  then obtain B' k where b: "B = B' @ replicate k CHR ''0''" "B' = [] \<or> last B' \<noteq> CHR ''0''"
    "stripZeros ((P @ A) @ CHR ''.'' # B) = (if B' = [] then P @ A else (P @ A) @ CHR ''.'' # B')"
    using no_point(1) [OF p(3)] by (rule stripZeros_fraction)
  define t where "t = (if B' = [] then A else A @ CHR ''.'' # B')"
  have parts: "intPart t = A" "fracPart t = B'" using parts_of_point [OF p(2)] by (simp_all add: t_def)
  have "unsignedValue t = of_nat (digitsValue A) + of_nat (digitsValue B) / 10 ^ 12"
    using fraction_value [of B' k 12] p(5) unfolding b(1) [symmetric] by (simp add: unsignedValue_def parts)
  also have "\<dots> = of_nat (digitsValue A * 10 ^ 12 + digitsValue B) / 10 ^ 12" by (simp add: field_simps)
  also have "\<dots> = of_int \<lfloor>a * 10 ^ 12 + 1 / 2\<rfloor> / 10 ^ 12"
    unfolding p(7) using assms by (simp add: of_nat_nat)
  finally have "unsigned_decimal (of_int \<lfloor>a * 10 ^ 12 + 1 / 2\<rfloor> / 10 ^ 12) t"
    using p(2-4,6) b(1,2) by (simp add: unsigned_decimal_def parts) (auto simp: t_def)
  moreover have "stripZeros (P @ fixedDigits 12 a) = P @ t" using b(3) by (simp add: p(1) t_def)
  ultimately show thesis by (rule that [rotated])
qed

lemma unsigned_no_sign: "unsigned_decimal v t \<Longrightarrow> t \<noteq> [] \<and> hd t \<noteq> CHR ''-''"
  using no_point(2) [of "intPart t"] by (cases t) (auto simp: unsigned_decimal_def intPart_def split: if_splits)

lemma unsigned_canonical:
  assumes "unsigned_decimal v t"
  shows "canonicalDecimal t" "decimalValue t = v" "t \<noteq> ''0'' \<Longrightarrow> canonicalDecimal (CHR ''-'' # t)"
    "decimalValue (CHR ''-'' # t) = - v" "t \<noteq> ''-0''"
  using assms unsigned_no_sign [OF assms] by (auto simp: canonicalDecimal_def decimalValue_def unsigned_decimal_def Let_def)

lemma executionDecimal_spec:
  assumes "\<bar>a\<bar> < 10 ^ 21"
  obtains s where "executionDecimal numStr (Fin a) = Inr s" "decimalValue s = round12 a" "canonicalDecimal s"
proof (cases "a < 0")
  case False
  then have "0 \<le> a" by simp
  then obtain t where t: "stripZeros ([] @ fixedDigits 12 a) = [] @ t" "unsigned_decimal (of_int \<lfloor>a * 10 ^ 12 + 1 / 2\<rfloor> / 10 ^ 12) t"
    by (rule stripped_decimal)
  have "executionDecimal numStr (Fin a) = Inr t"
    using t(1) assms False unsigned_canonical(5) [OF t(2)] by (simp add: executionDecimal_def toFixedString_def Let_def)
  then show thesis using unsigned_canonical(1,2) [OF t(2)] False that by (simp add: round12_def)
next
  case True
  then have "0 \<le> - a" by simp
  then obtain t where t: "stripZeros (''-'' @ fixedDigits 12 (- a)) = ''-'' @ t"
    "unsigned_decimal (of_int \<lfloor>- a * 10 ^ 12 + 1 / 2\<rfloor> / 10 ^ 12) t"
    by (rule stripped_decimal)
  let ?s = "if t = ''0'' then ''0'' else CHR ''-'' # t"
  have "executionDecimal numStr (Fin a) = Inr ?s"
    using t(1) assms True by (simp add: executionDecimal_def toFixedString_def Let_def)
  moreover have "decimalValue ''0'' = 0" by (simp add: decimalValue_def unsignedValue_def intPart_def fracPart_def digitsValue_def)
  then have "decimalValue ?s = round12 a" using unsigned_canonical(2,4) [OF t(2)] True by (auto simp: round12_def)
  moreover have "canonicalDecimal ?s" using unsigned_canonical(1,3) [OF t(2)] by auto
  ultimately show thesis by (rule that)
qed

lemma round12_near: "\<bar>round12 a - a\<bar> \<le> 1 / (2 * 10 ^ 12)"
proof -
  have near: "\<bar>of_int \<lfloor>b * 10 ^ 12 + 1 / 2\<rfloor> / 10 ^ 12 - b\<bar> \<le> 1 / (2 * 10 ^ 12)" for b :: rat
  proof -
    have "of_int \<lfloor>b * 10 ^ 12 + 1 / 2\<rfloor> \<le> b * 10 ^ 12 + 1 / 2" "b * 10 ^ 12 + 1 / 2 < of_int \<lfloor>b * 10 ^ 12 + 1 / 2\<rfloor> + 1"
      by linarith+
    then have "\<bar>of_int \<lfloor>b * 10 ^ 12 + 1 / 2\<rfloor> - b * 10 ^ 12\<bar> \<le> 1 / 2" by linarith
    then have "\<bar>of_int \<lfloor>b * 10 ^ 12 + 1 / 2\<rfloor> - b * 10 ^ 12\<bar> / 10 ^ 12 \<le> 1 / 2 / 10 ^ 12"
      by (rule divide_right_mono) simp
    moreover have "\<bar>of_int \<lfloor>b * 10 ^ 12 + 1 / 2\<rfloor> / 10 ^ 12 - b\<bar> = \<bar>of_int \<lfloor>b * 10 ^ 12 + 1 / 2\<rfloor> - b * 10 ^ 12\<bar> / 10 ^ 12"
    proof -
      have scale: "\<bar>n / c - b\<bar> = \<bar>n - b * c\<bar> / c" if "0 < c" for n c :: rat
      proof -
        have "n / c - b = (n - b * c) / c" using that by (simp add: diff_divide_distrib)
        then show ?thesis using that by (simp add: abs_divide)
      qed
      show ?thesis by (rule scale) simp
    qed
    ultimately show ?thesis by simp
  qed
  show ?thesis
  proof (cases "a < 0")
    case True
    have "round12 a - a = - (of_int \<lfloor>- a * 10 ^ 12 + 1 / 2\<rfloor> / 10 ^ 12 - (- a))" using True by (simp add: round12_def)
    then show ?thesis using near [of "- a"] by (simp only: abs_minus_cancel)
  next
    case False then show ?thesis using near [of a] by (simp only: round12_def if_False)
  qed
qed

text \<open>
  C22.  Decimal strings are exact.  Every finite number below \<open>10\<^sup>2\<^sup>1\<close> in absolute value is sent as a decimal string in canonical
  form (no superfluous zeros, no bare point, no negative zero) that reads back as the number rounded to twelve
  places, so within half a unit of the twelfth place of the number itself.
\<close>

theorem executionDecimal_roundtrip:
  assumes "\<bar>a\<bar> < 10 ^ 21"
  shows "\<exists>s. executionDecimal numStr (Fin a) = Inr s \<and> canonicalDecimal s \<and> decimalValue s = round12 a
    \<and> \<bar>decimalValue s - a\<bar> \<le> 1 / (2 * 10 ^ 12)"
  using executionDecimal_spec [OF assms, of numStr] round12_near by metis

theorem executionDecimal_roundtrip_witness:
  "\<exists>s. executionDecimal (\<lambda>_. []) (Fin (5 / 2)) = Inr s \<and> canonicalDecimal s \<and> decimalValue s = round12 (5 / 2)"
  using executionDecimal_roundtrip [of "5 / 2" "\<lambda>_. []"] by auto

text \<open>
  From \<open>10\<^sup>2\<^sup>1\<close> on \<open>toFixed\<close> prints an exponent, and stripping the final zeros of the string then changes the
  number: \<open>1e+30\<close> is sent as \<open>1e+3\<close>.
\<close>

theorem executionDecimal_truncates_exponent:
  assumes "10 ^ 21 \<le> \<bar>a\<bar>" "numStr (Fin a) = ''1e+30''"
  shows "executionDecimal numStr (Fin a) = Inr ''1e+3''"
  using assms by (simp add: executionDecimal_def toFixedString_def stripZeros_def)

theorem executionDecimal_truncates_exponent_witness:
  "executionDecimal (\<lambda>_. ''1e+30'') (Fin (10 ^ 30)) = Inr ''1e+3''"
  by (rule executionDecimal_truncates_exponent) simp_all

lemma executionDecimal_throws: "is_throw (executionDecimal numStr x) \<longleftrightarrow> \<not> js_isFinite x"
  by (cases x) (simp_all add: executionDecimal_def Let_def)

lemma optionalDecimal_throws: "is_throw (optionalDecimal numStr v) \<longleftrightarrow> (\<exists>x. v = Some x \<and> \<not> js_isFinite x)"
proof (cases v)
  case (Some x) then show ?thesis
    using executionDecimal_throws [of numStr x] by (simp add: optionalDecimal_def throws_and_then)
qed (simp add: optionalDecimal_def)

subsection \<open>Previews and requests\<close>

lemma isPositive_iff: "isPositive v \<longleftrightarrow> (\<exists>a. v = Some (Fin a) \<and> 0 < a)"
proof (cases v)
  case (Some x) then show ?thesis by (cases x) (auto simp: isPositive_def)
qed (simp add: isPositive_def)

lemma byId_lookup:
  assumes "distinct (map ac_id accounts)" "account \<in> set accounts"
  shows "map_get (map_set_all (map (\<lambda>a. (ac_id a, a)) accounts) []) (ac_id account) = Some account"
proof -
  have "distinct (map fst (map (\<lambda>a. (ac_id a, a)) accounts))" using assms(1) by (simp add: comp_def)
  then show ?thesis using assms by (auto simp: map_get_set_all map_of_rev_distinct intro!: map_of_is_SomeI)
qed

abbreviation stepFor :: "preview_input \<Rightarrow> string \<Rightarrow> jsnum" where
  "stepFor input i \<equiv> (case pv_quantitySteps input of None \<Rightarrow> Fin 0
     | Some steps \<Rightarrow> (case map_get steps i of None \<Rightarrow> Fin 0 | Some s \<Rightarrow> s))"

lemma previewRoute_cases:
  assumes "map_get byId (ct_accountId target) = Some account" "ct_enabled target"
  shows "ac_status account \<in> {StOffline, StConnecting} \<Longrightarrow>
           previewRoute input byId target = WaitingRoute (ct_accountId target) OFFLINE_COPY_TTL_MS"
    and "ac_status account \<notin> {StOffline, StConnecting, StReady} \<Longrightarrow>
           previewRoute input byId target = BlockedRoute (ct_accountId target) TargetNotReady"
    and "ac_status account = StReady \<Longrightarrow> \<not> ac_tradeAllowed account \<Longrightarrow>
           previewRoute input byId target = BlockedRoute (ct_accountId target) TargetCannotTrade"
    and "ac_status account = StReady \<Longrightarrow> ac_tradeAllowed account \<Longrightarrow>
           (\<exists>reason. previewRoute input byId target = BlockedRoute (ct_accountId target) reason
              \<and> reason \<in> {SourceEquityRequired, TargetEquityRequired, InvalidQuantity})
           \<or> (\<exists>q x. previewRoute input byId target = ReadyRoute (ct_accountId target) q (ct_allocationMode target)
              \<and> isPositive (Some q) \<and> q = floorQuantityToStep (capQuantity target x) (stepFor input (ct_accountId target)))"
  using assms by (auto simp: previewRoute_def Let_def allocatedQuantity_def
      split: allocation_mode.splits sum.splits if_splits)

lemma capped_le:
  assumes "isPositive (ct_maxQuantity target)" "\<not> isPositive (Some step)"
    "q = floorQuantityToStep (capQuantity target x) step" "isPositive (Some q)"
  shows "js_le q (the (ct_maxQuantity target))"
proof -
  obtain m where m: "ct_maxQuantity target = Some (Fin m)" using assms(1) by (auto simp: isPositive_iff)
  have "q = js_min x (Fin m)" using assms(1-3) m by (simp add: floorQuantityToStep_def capQuantity_def)
  then show ?thesis using assms(4) m
    by (cases x) (auto simp: isPositive_iff js_min_def js_le_def min_def split: if_splits)
qed

text \<open>
  Previews and availability tell the same story.  For an enabled target on a MetaTrader account the preview waits
  exactly when the account is shown as waiting and is refused for the account's sake exactly when it is shown as
  blocked; a preview is ready only for an available account, with a finite positive quantity that respects the
  target's cap where no lot step has to be applied.
\<close>

theorem preview_agrees_with_availability:
  assumes "distinct (map ac_id (pv_accounts input))" "account \<in> set (pv_accounts input)"
    and "i < length (pv_targets input)" "target = pv_targets input ! i" "route = previewCopyRoutes input ! i"
    and "ct_accountId target = ac_id account" "ct_enabled target" "ac_venueKind account = Metatrader5"
  shows "(av_mode (copyTargetAvailability account) = ModeWaiting \<longleftrightarrow> route = WaitingRoute (ac_id account) OFFLINE_COPY_TTL_MS)
    \<and> (av_mode (copyTargetAvailability account) = ModeBlocked \<longleftrightarrow>
         route \<in> {BlockedRoute (ac_id account) TargetNotReady, BlockedRoute (ac_id account) TargetCannotTrade})
    \<and> (\<forall>j q m. route = ReadyRoute j q m \<longrightarrow>
         av_mode (copyTargetAvailability account) = ModeReady \<and> j = ac_id account \<and> m = ct_allocationMode target
         \<and> isPositive (Some q)
         \<and> (isPositive (ct_maxQuantity target) \<and> \<not> isPositive (Some (stepFor input j)) \<longrightarrow> js_le q (the (ct_maxQuantity target))))"
proof -
  let ?byId = "map_set_all (map (\<lambda>a. (ac_id a, a)) (pv_accounts input)) []"
  have r: "route = previewRoute input ?byId target" using assms(3-5) by (simp add: previewCopyRoutes_def Let_def)
  have l: "map_get ?byId (ct_accountId target) = Some account" using byId_lookup [OF assms(1,2)] assms(6) by simp
  note c = previewRoute_cases [OF l assms(7), of input, folded r, unfolded assms(6)]
  consider "ac_status account \<in> {StOffline, StConnecting}" | "ac_status account \<notin> {StOffline, StConnecting, StReady}"
    | "ac_status account = StReady" "\<not> ac_tradeAllowed account" | "ac_status account = StReady" "ac_tradeAllowed account"
    by blast
  then show ?thesis
  proof cases
    case 1 then show ?thesis using c(1) assms(8) by (auto simp: copyTargetAvailability_def)
  next
    case 2 then show ?thesis using c(2) assms(8) by (auto simp: copyTargetAvailability_def)
  next
    case 3 then show ?thesis using c(3) assms(8) by (auto simp: copyTargetAvailability_def)
  next
    case 4
    then have "av_mode (copyTargetAvailability account) = ModeReady" using assms(8) by (simp add: copyTargetAvailability_def)
    then show ?thesis using c(4) [OF 4] by (auto intro: capped_le)
  qed
qed

definition keyedDrafts :: "(string, copy_target) js_map \<Rightarrow> bool" where
  "keyedDrafts m = list_all (\<lambda>(k, t). ct_accountId t = k) m"

lemma keyedDraftsD: "keyedDrafts m \<Longrightarrow> map_get m k = Some t \<Longrightarrow> ct_accountId t = k"
  by (auto simp: keyedDrafts_def list_all_iff dest: map_of_SomeD)

lemma routedDrafts_filter:
  assumes "keyedDrafts copyTargets"
  shows "map ct_accountId (routedDrafts selected copyTargets accounts) =
    map ac_id (filter (\<lambda>a. ac_id a \<noteq> ac_id selected \<and> av_eligible (copyTargetAvailability a)
      \<and> (case map_get copyTargets (ac_id a) of Some t \<Rightarrow> ct_enabled t | None \<Rightarrow> False)) accounts)"
  by (induction accounts)
    (auto simp: routedDrafts_def List.map_filter_simps split: option.splits dest: keyedDraftsD [OF assms])

lemma targetWire_id: "targetWire numStr t = Inr w \<Longrightarrow> tw_accountId w = ct_accountId t"
  by (auto simp: targetWire_def)

lemma traverse_targetWire_ids:
  "traverse (targetWire numStr) ts = Inr ws \<Longrightarrow> map tw_accountId ws = map ct_accountId ts"
  unfolding traverse_Inr by (induction rule: list_all2_induct) (auto dest: targetWire_id)

text \<open>A sample: an order on one ready account, copied to a second one.\<close>

definition sampleAccount :: "string \<Rightarrow> execution_account" where
  "sampleAccount i = \<lparr>ac_id = i, ac_label = i, ac_venueKind = Metatrader5, ac_status = StReady, ac_equity = Some (Fin 100),
     ac_tradeAllowed = True, ac_statusReason = None\<rparr>"

definition sampleDraft :: "string \<Rightarrow> copy_target" where
  "sampleDraft i = \<lparr>ct_accountId = i, ct_enabled = True, ct_allocationMode = SameQuantity, ct_multiplier = Fin 1,
     ct_fixedQuantity = None, ct_riskBasisPoints = None, ct_maxQuantity = Some (Fin 2)\<rparr>"

definition sampleOrder :: mt5_order_request where
  "sampleOrder = \<lparr>or_clientOrderId = ''c1'', or_chartSymbol = ''EURUSD'', or_brokerSymbol = ''EURUSD'', or_side = Buy,
     or_type = KMarket, or_volume = Fin 1, or_price = None, or_marketPrice = None, or_sl = None, or_tp = None,
     or_deviationPoints = None, or_comment = None, or_drawingId = None\<rparr>"

definition sampleInput :: preview_input where
  "sampleInput = \<lparr>pv_sourceAccountId = ''a'', pv_sourceQuantity = Fin 5, pv_sourceEquity = None,
     pv_targets = [sampleDraft ''b''], pv_accounts = [sampleAccount ''a'', sampleAccount ''b''], pv_quantitySteps = None\<rparr>"

theorem preview_agrees_with_availability_witness:
  "av_mode (copyTargetAvailability (sampleAccount ''b'')) = ModeWaiting \<longleftrightarrow>
     previewCopyRoutes sampleInput ! 0 = WaitingRoute ''b'' OFFLINE_COPY_TTL_MS"
  using preview_agrees_with_availability
    [of sampleInput "sampleAccount ''b''" 0 "sampleDraft ''b''" "previewCopyRoutes sampleInput ! 0"]
  by (simp add: sampleInput_def sampleAccount_def sampleDraft_def)

text \<open>
  An order request addresses the right accounts.  It lists the selected account first, at the order's own
  quantity, and then, in the order of the account list, each other account that has an enabled draft and is
  eligible; no account is addressed twice, and the idempotency key is the command's id.
\<close>

lemma order_request_targets:
  assumes "buildExecutionOrderRequest numStr order selected copyTargets accounts = Inr w"
    and "distinct (map ac_id accounts)"
    and "keyedDrafts copyTargets"
  shows "map tw_accountId (ow_targets w) = ac_id selected #
      map ac_id (filter (\<lambda>a. ac_id a \<noteq> ac_id selected \<and> av_eligible (copyTargetAvailability a)
        \<and> (case map_get copyTargets (ac_id a) of Some t \<Rightarrow> ct_enabled t | None \<Rightarrow> False)) accounts)
    \<and> distinct (map tw_accountId (ow_targets w))
    \<and> tw_allocation (hd (ow_targets w)) = WireSame
    \<and> in_sourceAccountId (ow_intent w) = ac_id selected
    \<and> in_idempotencyKey (ow_intent w) = in_commandId (ow_intent w)"
proof -
  obtain ws where ws: "traverse (targetWire numStr) (routedDrafts selected copyTargets accounts) = Inr ws"
    "ow_targets w = \<lparr>tw_accountId = ac_id selected, tw_allocation = WireSame, tw_maxQuantity = None\<rparr> # ws"
    and i: "in_sourceAccountId (ow_intent w) = ac_id selected" "in_idempotencyKey (ow_intent w) = in_commandId (ow_intent w)"
    using assms(1) by (auto simp: buildExecutionOrderRequest_def buildOrderWire_def)
  have "map tw_accountId ws = map ct_accountId (routedDrafts selected copyTargets accounts)"
    using ws(1) by (rule traverse_targetWire_ids)
  then show ?thesis
    using ws(2) i assms(2) by (auto simp: routedDrafts_filter [OF assms(3)] distinct_map_filter)
qed

lemma sample_eligible: "av_eligible (copyTargetAvailability (sampleAccount i))" "ac_id (sampleAccount i) = i" "ct_enabled (sampleDraft i)"
  by (simp_all add: copyTargetAvailability_def sampleAccount_def sampleDraft_def)

lemma sample_keyed: "distinct (map ac_id [sampleAccount ''a'', sampleAccount ''b''])" "keyedDrafts [(''b'', sampleDraft ''b'')]"
  by (simp_all add: keyedDrafts_def sampleAccount_def sampleDraft_def)

text \<open>The numbers a request prints.\<close>

definition draftNumbers :: "copy_target \<Rightarrow> jsnum list" where
  "draftNumbers t =
     (case ct_allocationMode t of
        FixedQuantity \<Rightarrow> [case ct_fixedQuantity t of Some q \<Rightarrow> q | None \<Rightarrow> Fin 0]
      | Multiplier \<Rightarrow> [ct_multiplier t] | EquityProportional \<Rightarrow> [ct_multiplier t] | _ \<Rightarrow> [])
     @ (case ct_maxQuantity t of Some m \<Rightarrow> [m] | None \<Rightarrow> [])"

definition orderNumbers :: "mt5_order_request \<Rightarrow> jsnum list" where
  "orderNumbers order =
     or_volume order # (if or_type order = KMarket then [] else case or_price order of Some p \<Rightarrow> [p] | None \<Rightarrow> [])
     @ (case or_sl order of Some p \<Rightarrow> [p] | None \<Rightarrow> []) @ (case or_tp order of Some p \<Rightarrow> [p] | None \<Rightarrow> [])"

lemma targetWire_throws: "is_throw (targetWire numStr t) \<longleftrightarrow> (\<exists>x \<in> set (draftNumbers t). \<not> js_isFinite x)"
proof -
  have "is_throw (allocationWire numStr t) \<or> is_throw (optionalDecimal numStr (ct_maxQuantity t)) \<longleftrightarrow>
      (\<exists>x \<in> set (draftNumbers t). \<not> js_isFinite x)"
    by (cases "ct_allocationMode t"; cases "ct_maxQuantity t")
      (auto simp: allocationWire_def draftNumbers_def throws_and_then executionDecimal_throws optionalDecimal_throws)
  moreover have "is_throw (targetWire numStr t) \<longleftrightarrow>
      is_throw (allocationWire numStr t) \<or> is_throw (optionalDecimal numStr (ct_maxQuantity t))"
    by (cases "allocationWire numStr t"; cases "optionalDecimal numStr (ct_maxQuantity t)") (simp_all add: targetWire_def)
  ultimately show ?thesis by blast
qed

lemma buildOrderWire_throws: "is_throw (buildOrderWire numStr order source ts) \<longleftrightarrow> (\<exists>x \<in> set (orderNumbers order). \<not> js_isFinite x)"
proof -
  have "is_throw (buildOrderWire numStr order source ts) \<longleftrightarrow>
      is_throw (executionDecimal numStr (or_volume order))
      \<or> is_throw (optionalDecimal numStr (if or_type order = KLimit then or_price order else None))
      \<or> is_throw (optionalDecimal numStr (if or_type order = KStop then or_price order else None))
      \<or> is_throw (optionalDecimal numStr (or_sl order)) \<or> is_throw (optionalDecimal numStr (or_tp order))"
    unfolding buildOrderWire_def throws_and_then not_throws by (auto simp: throws_and_then) (metis not_throws)+
  also have "\<dots> \<longleftrightarrow> (\<exists>x \<in> set (orderNumbers order). \<not> js_isFinite x)"
    by (cases "or_type order") (auto simp: orderNumbers_def executionDecimal_throws optionalDecimal_throws split: option.splits)
  finally show ?thesis .
qed

lemma drafts_throw: "is_throw (traverse (targetWire numStr) ts) \<longleftrightarrow> (\<exists>x \<in> set (concat (map draftNumbers ts)). \<not> js_isFinite x)"
  by (auto simp: throws_traverse targetWire_throws)

lemma orderRequest_throws:
  "is_throw (buildExecutionOrderRequest numStr order selected copyTargets accounts) \<longleftrightarrow>
     (\<exists>x \<in> set (orderNumbers order @ concat (map draftNumbers (routedDrafts selected copyTargets accounts))). \<not> js_isFinite x)"
  unfolding set_append bex_Un drafts_throw [of numStr, symmetric]
  by (cases "traverse (targetWire numStr) (routedDrafts selected copyTargets accounts)")
    (simp_all add: buildExecutionOrderRequest_def buildOrderWire_throws)

lemma copyRequest_throws:
  "is_throw (buildExecutionCopyRequest numStr order source targets) \<longleftrightarrow>
     (let kept = filter (\<lambda>t. ct_enabled t \<and> ct_accountId t \<noteq> ac_id source) targets
      in kept = [] \<or> (\<exists>x \<in> set (orderNumbers order @ concat (map draftNumbers kept)). \<not> js_isFinite x))"
  (is "_ \<longleftrightarrow> (let kept = ?kept in _)")
proof (cases "traverse (targetWire numStr) ?kept")
  case (Inr copies)
  then have "length ?kept = length copies" unfolding traverse_Inr by (rule list_all2_lengthD)
  then have "copies = [] \<longleftrightarrow> ?kept = []" by (metis length_0_conv)
  moreover have "\<not> is_throw (traverse (targetWire numStr) ?kept)" using Inr by simp
  ultimately show ?thesis
    unfolding Let_def set_append bex_Un drafts_throw [of numStr, symmetric] buildExecutionCopyRequest_def Inr and_then_simps
    using buildOrderWire_throws [of numStr order source copies] by (cases "copies = []") simp_all
next
  case (Inl e)
  then have t: "is_throw (traverse (targetWire numStr) ?kept)" by simp
  then have "\<exists>x \<in> set (concat (map draftNumbers ?kept)). \<not> js_isFinite x" by (simp only: drafts_throw)
  then show ?thesis unfolding Let_def set_append bex_Un buildExecutionCopyRequest_def Inl and_then_simps by simp
qed

text \<open>
  When building a request fails.  An order request throws exactly when one of the numbers it would print, the
  order's or a routed draft's, is not finite; a copy request throws in addition when no enabled target other than
  the source is left.
\<close>

theorem requests_throw_iff:
  "(is_throw (buildExecutionOrderRequest numStr order selected copyTargets accounts) \<longleftrightarrow>
     (\<exists>x \<in> set (orderNumbers order @ concat (map draftNumbers (routedDrafts selected copyTargets accounts))). \<not> js_isFinite x))
   \<and> (is_throw (buildExecutionCopyRequest numStr order source targets) \<longleftrightarrow>
     (let kept = filter (\<lambda>t. ct_enabled t \<and> ct_accountId t \<noteq> ac_id source) targets
      in kept = [] \<or> (\<exists>x \<in> set (orderNumbers order @ concat (map draftNumbers kept)). \<not> js_isFinite x)))"
  by (rule conjI [OF orderRequest_throws copyRequest_throws])

subsection \<open>Responses\<close>

definition wellFormedSubmission :: "target_submission \<Rightarrow> bool" where
  "wellFormedSubmission s =
     (case s of
        SubQueued a c ws \<Rightarrow> a \<noteq> [] \<and> c \<noteq> []
      | SubWaiting a c t \<Rightarrow> a \<noteq> [] \<and> c \<noteq> [] \<and> js_isFinite t
      | SubRejected a c m \<Rightarrow> a \<noteq> [] \<and> c \<noteq> [] \<and> m \<noteq> []
      | SubUnavailable a c m \<Rightarrow> a \<noteq> [] \<and> c \<noteq> [] \<and> m \<noteq> [])"

text \<open>The legacy spelling of an object: the given fields in snake case.\<close>

definition LEGACY_FIELDS :: "(string \<times> string) list" where
  "LEGACY_FIELDS = [(''commandId'', ''command_id''), (''accountId'', ''account_id''), (''expiresAtMs'', ''expires_at_ms'')]"

definition legacyKey :: "string \<Rightarrow> string" where
  "legacyKey k = (case map_of LEGACY_FIELDS k of Some k' \<Rightarrow> k' | None \<Rightarrow> k)"

definition legacyWith :: "(string \<Rightarrow> json \<Rightarrow> json) \<Rightarrow> json \<Rightarrow> json" where
  "legacyWith f v = (case v of JObj m \<Rightarrow> JObj (map (\<lambda>(k, x). (legacyKey k, f k x)) m) | _ \<Rightarrow> v)"

definition legacyObject :: "json \<Rightarrow> json" where
  "legacyObject v = legacyWith (\<lambda>_ x. x) v"

definition legacyTargets :: "string \<Rightarrow> json \<Rightarrow> json" where
  "legacyTargets k x = (if k = ''targets'' then (case x of JArr ts \<Rightarrow> JArr (map legacyObject ts) | _ \<Rightarrow> x) else x)"

definition legacyResponse :: "json \<Rightarrow> json" where
  "legacyResponse v = legacyWith legacyTargets v"

text \<open>No key is spelled the legacy way yet.\<close>

definition camelObject :: "json \<Rightarrow> bool" where
  "camelObject v = (case v of JObj m \<Rightarrow> list_all (\<lambda>(k, _). k \<notin> snd ` set LEGACY_FIELDS) m | _ \<Rightarrow> True)"

definition camelResponse :: "json \<Rightarrow> bool" where
  "camelResponse v \<longleftrightarrow> camelObject v \<and> (case field v ''targets'' of JArr ts \<Rightarrow> list_all camelObject ts | _ \<Rightarrow> True)"

lemma legacyKey_camel:
  "legacyKey k \<notin> fst ` set LEGACY_FIELDS"
  "k \<notin> snd ` set LEGACY_FIELDS \<Longrightarrow> k' \<notin> snd ` set LEGACY_FIELDS \<Longrightarrow> legacyKey k' = legacyKey k \<longleftrightarrow> k' = k"
  by (auto simp: legacyKey_def LEGACY_FIELDS_def split: if_splits option.splits)

lemma field_legacyWith:
  assumes "camelObject v" "k \<notin> snd ` set LEGACY_FIELDS" "f k JUndef = JUndef"
  shows "field (legacyWith f v) (legacyKey k) = f k (field v k)"
proof (cases v)
  case (JObj m)
  have "map_of (map (\<lambda>(k, x). (legacyKey k, f k x)) m) (legacyKey k) = map_option (f k) (map_of m k)"
    using assms(1) unfolding JObj
  proof (induction m)
    case (Cons e m)
    obtain k' x where e: "e = (k', x)" by (cases e)
    have "legacyKey k' = legacyKey k \<longleftrightarrow> k' = k"
      using Cons.prems assms(2) by (intro legacyKey_camel) (auto simp: camelObject_def e)
    then show ?case using Cons by (auto simp: e camelObject_def)
  qed simp
  then show ?thesis using assms(3) by (auto simp: JObj field_def legacyWith_def split: option.splits)
qed (use assms(3) in \<open>simp_all add: field_def legacyWith_def\<close>)

lemma field_legacy_absent: "k \<in> fst ` set LEGACY_FIELDS \<Longrightarrow> field (legacyWith f v) k = JUndef"
  using legacyKey_camel(1) by (cases v) (force simp: field_def legacyWith_def split: option.splits dest: map_of_SomeD)+

lemma field_plain:
  assumes "camelObject v" "k \<in> {''status'', ''warnings'', ''code'', ''message'', ''targets''}" "f k JUndef = JUndef"
  shows "field (legacyWith f v) k = f k (field v k)"
proof -
  have "legacyKey k = k" "k \<notin> snd ` set LEGACY_FIELDS" using assms(2) by (auto simp: legacyKey_def LEGACY_FIELDS_def)
  then show ?thesis using field_legacyWith [of v k f] assms by simp
qed

lemma candidate_legacy:
  assumes "camelObject v" "(camel, snake) \<in> set LEGACY_FIELDS" "f camel = (\<lambda>x. x)"
  shows "candidateField (legacyWith f v) camel (Some snake) = (if field v camel = JNull then JNull else candidateField v camel (Some snake))"
proof -
  have k: "legacyKey camel = snake" "camel \<notin> snd ` set LEGACY_FIELDS" "camel \<in> fst ` set LEGACY_FIELDS" "snake \<in> snd ` set LEGACY_FIELDS"
    using assms(2) by (auto simp: legacyKey_def LEGACY_FIELDS_def)
  have "field (legacyWith f v) snake = field v camel" using field_legacyWith [of v camel f] assms k(1,2) by simp
  moreover have "field (legacyWith f v) camel = JUndef" using k(3) by (rule field_legacy_absent)
  moreover have "field v snake = JUndef"
    using assms(1) k(4) by (cases v) (force simp: field_def camelObject_def list_all_iff split: option.splits dest: map_of_SomeD)+
  ultimately show ?thesis by (simp add: candidateField_def)
qed

lemma required_legacy:
  assumes "camelObject v" "(camel, snake) \<in> set LEGACY_FIELDS" "f camel = (\<lambda>x. x)"
  shows "requiredString (legacyWith f v) camel (Some snake) = requiredString v camel (Some snake)"
    "requiredNumber (legacyWith f v) camel (Some snake) = requiredNumber v camel (Some snake)"
proof -
  have null: "candidateField v camel (Some snake) = JUndef" if "field v camel = JNull"
  proof -
    have "snake \<in> snd ` set LEGACY_FIELDS" using assms(2) by force
    then have "field v snake = JUndef" using assms(1)
      by (cases v) (force simp: field_def camelObject_def list_all_iff split: option.splits dest: map_of_SomeD)+
    then show ?thesis using that by (simp add: candidateField_def)
  qed
  show "requiredString (legacyWith f v) camel (Some snake) = requiredString v camel (Some snake)"
    "requiredNumber (legacyWith f v) camel (Some snake) = requiredNumber v camel (Some snake)"
    using null candidate_legacy [OF assms(1,2), of f, OF assms(3)] by (simp_all add: requiredString_def requiredNumber_def)
qed

lemma submission_legacy: "camelObject v \<Longrightarrow> normalizeTargetSubmission (legacyObject v) = normalizeTargetSubmission v"
proof -
  assume c: "camelObject v"
  have r: "isRecord (legacyWith f v) = isRecord v" for f by (cases v) (simp_all add: isRecord_def legacyWith_def)
  have s: "requiredString (legacyWith (\<lambda>_ x. x) v) k None = requiredString v k None" if "k \<in> {''status'', ''code'', ''message''}" for k
    using field_plain [OF c, of k "\<lambda>_ x. x"] that by (auto simp: requiredString_def candidateField_def)
  have w: "field (legacyWith (\<lambda>_ x. x) v) ''warnings'' = field v ''warnings''" by (simp add: field_plain [OF c])
  have k: "requiredString (legacyWith (\<lambda>_ x. x) v) ''accountId'' (Some ''account_id'') = requiredString v ''accountId'' (Some ''account_id'')"
    "requiredString (legacyWith (\<lambda>_ x. x) v) ''commandId'' (Some ''command_id'') = requiredString v ''commandId'' (Some ''command_id'')"
    "requiredNumber (legacyWith (\<lambda>_ x. x) v) ''expiresAtMs'' (Some ''expires_at_ms'') = requiredNumber v ''expiresAtMs'' (Some ''expires_at_ms'')"
    by (rule required_legacy [OF c]; simp add: LEGACY_FIELDS_def)+
  note plain = s [of "''status''", simplified] s [of "''code''", simplified] s [of "''message''", simplified]
  show ?thesis
  proof (cases "isRecord v")
    case True
    show ?thesis
      unfolding normalizeTargetSubmission_def submissionByStatus_def legacyObject_def recordOf_def r if_P [OF True]
        and_then_simps plain w k ..
  qed (simp add: normalizeTargetSubmission_def legacyObject_def recordOf_def r)
qed

lemma requiredString_iff: "requiredString v k s = Inr x \<longleftrightarrow> candidateField v k s = JStr x \<and> x \<noteq> []"
  by (auto simp: requiredString_def split: json.splits)

lemma requiredNumber_iff: "requiredNumber v k s = Inr x \<longleftrightarrow> candidateField v k s = JNum x \<and> js_isFinite x"
  by (auto simp: requiredNumber_def split: json.splits)

lemma submissionByStatus_wellFormed:
  assumes "submissionByStatus v status a = Inr r" "a \<noteq> []"
  shows "wellFormedSubmission r"
proof -
  note s = assms(1) [unfolded submissionByStatus_def]
  consider "status = ''queued''" | "status \<noteq> ''queued''" "status = ''waiting''"
    | "status \<noteq> ''queued''" "status \<noteq> ''waiting''" "status = ''rejected'' \<or> status = ''unavailable''"
    | "status \<noteq> ''queued''" "status \<noteq> ''waiting''" "\<not> (status = ''rejected'' \<or> status = ''unavailable'')" by argo
  then show ?thesis
  proof cases
    case 1
    show ?thesis using s [unfolded if_P [OF 1]] assms(2) by (auto simp: wellFormedSubmission_def requiredString_iff)
  next
    case 2
    show ?thesis using s [unfolded if_not_P [OF 2(1)] if_P [OF 2(2)]] assms(2)
      by (auto simp: wellFormedSubmission_def requiredString_iff requiredNumber_iff)
  next
    case 3
    show ?thesis using s [unfolded if_not_P [OF 3(1)] if_not_P [OF 3(2)] if_P [OF 3(3)]] assms(2)
      by (auto simp: wellFormedSubmission_def requiredString_iff)
  next
    case 4 then show ?thesis using s [unfolded if_not_P [OF 4(1)] if_not_P [OF 4(2)] if_not_P [OF 4(3)]] by simp
  qed
qed

lemma submission_wellFormed: "normalizeTargetSubmission v = Inr r \<Longrightarrow> wellFormedSubmission r"
  unfolding normalizeTargetSubmission_def and_then_Inr requiredString_iff
  by (elim exE conjE) (rule submissionByStatus_wellFormed)

lemma response_legacy: "camelResponse v \<Longrightarrow> normalizeExecutionOrderResponse (legacyResponse v) = normalizeExecutionOrderResponse v"
proof -
  assume c: "camelResponse v"
  then have o: "camelObject v" by (simp add: camelResponse_def)
  have r: "isRecord (legacyWith f v) = isRecord v" for f by (cases v) (simp_all add: isRecord_def legacyWith_def)
  have t: "field (legacyWith legacyTargets v) ''targets'' = legacyTargets ''targets'' (field v ''targets'')"
    by (rule field_plain [OF o]) (simp_all add: legacyTargets_def)
  have i: "requiredString (legacyWith legacyTargets v) ''commandId'' (Some ''command_id'') = requiredString v ''commandId'' (Some ''command_id'')"
    by (rule required_legacy [OF o]) (auto simp: LEGACY_FIELDS_def legacyTargets_def)
  have m: "traverse normalizeTargetSubmission (map legacyObject ts) = traverse normalizeTargetSubmission ts"
    if "list_all camelObject ts" for ts
    using that by (induction ts) (simp_all add: submission_legacy)
  have k: "(case legacyTargets ''targets'' x of
       JArr targets \<Rightarrow> and_then C (\<lambda>commandId. and_then (traverse normalizeTargetSubmission targets) (\<lambda>submissions. F commandId submissions))
     | _ \<Rightarrow> E) =
     (case x of
       JArr targets \<Rightarrow> and_then C (\<lambda>commandId. and_then (traverse normalizeTargetSubmission targets) (\<lambda>submissions. F commandId submissions))
     | _ \<Rightarrow> E)" if "case x of JArr ts \<Rightarrow> list_all camelObject ts | _ \<Rightarrow> True" for x C F E
    using that by (cases x) (simp_all add: legacyTargets_def m)
  show ?thesis
  proof (cases "isRecord v")
    case True
    show ?thesis
      unfolding normalizeExecutionOrderResponse_def legacyResponse_def recordOf_def r if_P [OF True] and_then_simps t i
      using c by (intro k) (simp add: camelResponse_def)
  qed (simp add: normalizeExecutionOrderResponse_def legacyResponse_def recordOf_def r)
qed

text \<open>
  Responses are read safely during a rolling deployment.  An accepted response has one submission per target, all
  identifiers, codes and messages non-empty and every expiry finite; and a response whose fields carry
  the legacy snake case names is read exactly as the canonical one, errors included.
\<close>

theorem response_normalisation:
  "(\<forall>r. normalizeExecutionOrderResponse v = Inr r \<longrightarrow>
      rs_commandId r \<noteq> [] \<and> list_all wellFormedSubmission (rs_targets r)
      \<and> (\<exists>ts. field v ''targets'' = JArr ts \<and> length (rs_targets r) = length ts))
   \<and> (camelResponse v \<longrightarrow> normalizeExecutionOrderResponse (legacyResponse v) = normalizeExecutionOrderResponse v)"
proof (intro conjI allI impI)
  fix r assume "normalizeExecutionOrderResponse v = Inr r"
  then obtain ts where ts: "field v ''targets'' = JArr ts" "requiredString v ''commandId'' (Some ''command_id'') = Inr (rs_commandId r)"
    "list_all2 (\<lambda>t s. normalizeTargetSubmission t = Inr s) ts (rs_targets r)"
    by (cases "isRecord v"; cases "field v ''targets''")
      (auto simp: normalizeExecutionOrderResponse_def recordOf_def traverse_Inr)
  show "rs_commandId r \<noteq> []" using ts(2) by (simp add: requiredString_iff)
  show "list_all wellFormedSubmission (rs_targets r)"
    using ts(3) by (induction rule: list_all2_induct) (auto dest: submission_wellFormed)
  show "\<exists>ts. field v ''targets'' = JArr ts \<and> length (rs_targets r) = length ts"
    using ts(1) list_all2_lengthD [OF ts(3)] by auto
qed (rule response_legacy)

definition sampleResponse :: json where
  "sampleResponse = JObj [(''commandId'', JStr ''c1''), (''targets'', JArr [JObj
     [(''status'', JStr ''waiting''), (''accountId'', JStr ''a''), (''commandId'', JStr ''c2''), (''expiresAtMs'', JNum (Fin 7))]])]"

theorem response_normalisation_witness:
  "normalizeExecutionOrderResponse (legacyResponse sampleResponse) = normalizeExecutionOrderResponse sampleResponse"
proof -
  have "camelResponse sampleResponse"
    by (simp add: camelResponse_def camelObject_def sampleResponse_def field_def LEGACY_FIELDS_def)
  then show ?thesis using conjunct2 [OF response_normalisation [of sampleResponse]] by (rule mp [rotated])
qed

end
