(* ===== verification/ExecutionRegistry.thy ===== *)
theory ExecutionRegistry
  imports OrderRouting
begin

section \<open>Copy routes and the execution registry\<close>

text \<open>
  Models \<open>services/execution/copierPreferences.ts\<close> (copy routes read from untrusted settings), \<open>services/execution/accountLayout.ts\<close>
  (the order of the account list) and \<open>store/executionRegistryStore.ts\<close>: the atoms of the registry as one record,
  every write atom as a function on it.  A JSON object is the list of its entries in enumeration order; routes are
  association lists in the order of assignment, and only their lookups matter to the code.

  The lemmas show that accepted routes are within the limits, survive another save and load, and can always be
  sent; and that in every reachable registry an order addresses each account at most once.
\<close>

subsection \<open>Copier preferences\<close>

type_synonym copy_drafts = "(string, copy_target) js_map"
type_synonym copy_routes = "(string, copy_drafts) js_map"

definition modeName :: "allocation_mode \<Rightarrow> string" where
  "modeName m = (case m of SameQuantity \<Rightarrow> ''sameQuantity'' | FixedQuantity \<Rightarrow> ''fixedQuantity'' | Multiplier \<Rightarrow> ''multiplier''
     | EquityProportional \<Rightarrow> ''equityProportional'' | allocation_mode.RiskPercent \<Rightarrow> ''riskPercent'')"

definition ALLOCATION_MODES :: "(string \<times> allocation_mode) list" where
  "ALLOCATION_MODES = map (\<lambda>m. (modeName m, m))
     [SameQuantity, FixedQuantity, Multiplier, EquityProportional, allocation_mode.RiskPercent]"

definition RESERVED_OBJECT_KEYS :: "string list" where
  "RESERVED_OBJECT_KEYS = [''__proto__'', ''constructor'', ''prototype'']"

definition MAX_ACCOUNT_ID_LENGTH :: nat where
  "MAX_ACCOUNT_ID_LENGTH = 256"

definition MAX_SOURCE_ACCOUNTS :: nat where
  "MAX_SOURCE_ACCOUNTS = 128"

definition MAX_TARGETS_PER_SOURCE :: nat where
  "MAX_TARGETS_PER_SOURCE = 128"

text \<open>\<open>COPIER_NUMERIC_LIMITS\<close>\<close>

definition multiplierLimits :: "jsnum \<times> jsnum" where
  "multiplierLimits = (f64 (1 / 10 ^ 6), Fin 1000000)"

definition quantityLimits :: "jsnum \<times> jsnum" where
  "quantityLimits = (f64 (1 / 10 ^ 8), Fin 1000000)"

definition riskLimits :: "jsnum \<times> jsnum" where
  "riskLimits = (Fin 1, Fin 10000)"

definition boundedFiniteNumber :: "json \<Rightarrow> jsnum \<times> jsnum \<Rightarrow> bool \<Rightarrow> jsnum option" where
  "boundedFiniteNumber v limits integer =
     (case v of
        JNum x \<Rightarrow>
          if \<not> js_isFinite x then None
          else let bounded = js_min (snd limits) (js_max (fst limits) x)
               in Some (if integer then js_round bounded else bounded)
      | _ \<Rightarrow> None)"

definition isAllocationMode :: "json \<Rightarrow> allocation_mode option" where
  "isAllocationMode v = (case v of JStr s \<Rightarrow> map_of ALLOCATION_MODES s | _ \<Rightarrow> None)"

definition normalizeAccountId :: "json \<Rightarrow> string option" where
  "normalizeAccountId v =
     (case v of
        JStr s \<Rightarrow>
          let accountId = js_trim s
          in if length accountId = 0 \<or> MAX_ACCOUNT_ID_LENGTH < length accountId \<or> accountId \<in> set RESERVED_OBJECT_KEYS
             then None else Some accountId
      | _ \<Rightarrow> None)"

definition normalizeCopyTarget :: "string \<Rightarrow> string \<Rightarrow> json \<Rightarrow> copy_target option" where
  "normalizeCopyTarget sourceId targetKey v =
     (if \<not> isRecord v then None
      else
        case (normalizeAccountId (JStr targetKey), normalizeAccountId (field v ''accountId'')) of
          (Some targetId, Some accountId) \<Rightarrow>
            if targetId \<noteq> accountId \<or> sourceId = targetId then None
            else
              (case (field v ''enabled'', isAllocationMode (field v ''allocationMode''),
                     boundedFiniteNumber (field v ''multiplier'') multiplierLimits False) of
                 (JBool enabled, Some mode, Some multiplier) \<Rightarrow>
                   let fixedQuantity = boundedFiniteNumber (field v ''fixedQuantity'') quantityLimits False
                   in if mode = FixedQuantity \<and> fixedQuantity = None then None
                      else Some \<lparr>ct_accountId = accountId, ct_enabled = enabled, ct_allocationMode = mode,
                             ct_multiplier = multiplier, ct_fixedQuantity = fixedQuantity,
                             ct_riskBasisPoints = boundedFiniteNumber (field v ''riskBasisPoints'') riskLimits True,
                             ct_maxQuantity = boundedFiniteNumber (field v ''maxQuantity'') quantityLimits False\<rparr>
               | _ \<Rightarrow> None)
        | _ \<Rightarrow> None)"

fun targetLoop :: "string \<Rightarrow> (string \<times> json) list \<Rightarrow> nat \<Rightarrow> copy_drafts \<Rightarrow> copy_drafts" where
  "targetLoop sourceId [] targetCount targets = targets"
| "targetLoop sourceId ((targetKey, rawTarget) # es) targetCount targets =
     (if MAX_TARGETS_PER_SOURCE \<le> targetCount then targets
      else case normalizeCopyTarget sourceId targetKey rawTarget of
             None \<Rightarrow> targetLoop sourceId es targetCount targets
           | Some target \<Rightarrow> targetLoop sourceId es (targetCount + 1) (map_set (ct_accountId target) target targets))"

fun routeLoop :: "(string \<times> json) list \<Rightarrow> nat \<Rightarrow> copy_routes \<Rightarrow> copy_routes" where
  "routeLoop [] sourceCount routes = routes"
| "routeLoop ((sourceKey, rawTargets) # es) sourceCount routes =
     (if MAX_SOURCE_ACCOUNTS \<le> sourceCount then routes
      else case (normalizeAccountId (JStr sourceKey), rawTargets) of
             (Some sourceId, JObj m) \<Rightarrow>
               let targets = targetLoop sourceId m 0 []
               in if length targets = 0 then routeLoop es sourceCount routes
                  else routeLoop es (sourceCount + 1) (map_set sourceId targets routes)
           | _ \<Rightarrow> routeLoop es sourceCount routes)"

definition normalizeCopyRoutes :: "json \<Rightarrow> copy_routes" where
  "normalizeCopyRoutes v = (case v of JObj m \<Rightarrow> routeLoop m 0 [] | _ \<Rightarrow> [])"

definition normalizeTradeCopierPreferences :: "json \<Rightarrow> copy_routes" where
  "normalizeTradeCopierPreferences v =
     (if \<not> isRecord v \<or> field v ''version'' \<noteq> JNum (Fin 1) then [] else normalizeCopyRoutes (field v ''routes''))"

text \<open>Routes as the JSON value that is sent to and comes back from the settings service.\<close>

definition optionalField :: "string \<Rightarrow> jsnum option \<Rightarrow> (string \<times> json) list" where
  "optionalField k x = (case x of None \<Rightarrow> [] | Some n \<Rightarrow> [(k, JNum n)])"

definition draftJson :: "copy_target \<Rightarrow> json" where
  "draftJson t = JObj ([(''accountId'', JStr (ct_accountId t)), (''enabled'', JBool (ct_enabled t)),
       (''allocationMode'', JStr (modeName (ct_allocationMode t))), (''multiplier'', JNum (ct_multiplier t))]
     @ optionalField ''fixedQuantity'' (ct_fixedQuantity t) @ optionalField ''riskBasisPoints'' (ct_riskBasisPoints t)
     @ optionalField ''maxQuantity'' (ct_maxQuantity t))"

definition routesJson :: "copy_routes \<Rightarrow> json" where
  "routesJson routes = JObj (map (\<lambda>(s, ts). (s, JObj (map (\<lambda>(k, t). (k, draftJson t)) ts))) routes)"

text \<open>\<open>settings\<close> is the \<open>ui\<close> object of the settings document; saving patches its \<open>tradeCopier\<close> field.\<close>

definition loadTradeCopierPreferences :: "json \<Rightarrow> copy_routes" where
  "loadTradeCopierPreferences settings = normalizeTradeCopierPreferences (field settings ''tradeCopier'')"

definition saveTradeCopierPreferences :: "copy_routes \<Rightarrow> (string \<times> json) list \<Rightarrow> (string \<times> json) list" where
  "saveTradeCopierPreferences routes settings =
     map_set ''tradeCopier''
       (JObj [(''version'', JNum (Fin 1)), (''routes'', routesJson (normalizeCopyRoutes (routesJson routes)))]) settings"

subsection \<open>The order of the account list\<close>

datatype drop_edge = EdgeBefore | EdgeAfter

definition executionAccountDropEdge :: "jsnum \<Rightarrow> jsnum \<Rightarrow> jsnum \<Rightarrow> drop_edge" where
  "executionAccountDropEdge pointerY targetTop targetHeight =
     (if js_lt pointerY (js_add targetTop (js_div targetHeight (Fin 2))) then EdgeBefore else EdgeAfter)"

text \<open>Both loops push an account unless its id was seen; \<open>seen\<close> is the set of ids of \<open>ordered\<close>.\<close>

definition pushUnseen :: "execution_account option \<Rightarrow> execution_account list \<Rightarrow> execution_account list" where
  "pushUnseen account ordered =
     (case account of
        None \<Rightarrow> ordered
      | Some a \<Rightarrow> if ac_id a \<in> ac_id ` set ordered then ordered else ordered @ [a])"

definition mergeExecutionAccountLayout :: "execution_account list \<Rightarrow> string list \<Rightarrow> execution_account list" where
  "mergeExecutionAccountLayout accounts persistedItemIds =
     (let byId = map_set_all (map (\<lambda>a. (ac_id a, a)) accounts) [];
          ordered = fold (\<lambda>itemId. pushUnseen (map_get byId itemId)) persistedItemIds []
      in fold (\<lambda>account. pushUnseen (Some account)) accounts ordered)"

definition moveExecutionAccountItem :: "string list \<Rightarrow> string \<Rightarrow> string \<Rightarrow> drop_edge \<Rightarrow> string list" where
  "moveExecutionAccountItem itemIds sourceId targetId edge =
     (if sourceId = targetId \<or> sourceId \<notin> set itemIds \<or> targetId \<notin> set itemIds then itemIds
      else
        let kept = filter (\<lambda>i. i \<noteq> sourceId) itemIds;
            pos = length (takeWhile (\<lambda>i. i \<noteq> targetId) kept) + (if edge = EdgeAfter then 1 else 0)
        in take pos kept @ [sourceId] @ drop pos kept)"

subsection \<open>The registry store\<close>

record account_layout =
  al_itemIds :: "string list"
  al_revision :: jsnum

record registry_state =
  rg_accounts :: "execution_account list"
  rg_mt5Managed :: bool
  rg_layout :: account_layout
  rg_layoutPending :: bool
  rg_selectedId :: "string option"
  rg_copyRoutes :: copy_routes
  rg_hydrated :: bool

definition initialRegistry :: registry_state where
  "initialRegistry = \<lparr>rg_accounts = [], rg_mt5Managed = False, rg_layout = \<lparr>al_itemIds = [], al_revision = Fin 0\<rparr>,
     rg_layoutPending = False, rg_selectedId = None, rg_copyRoutes = [], rg_hydrated = False\<rparr>"

definition applyExecutionAccountLayout :: "account_layout \<Rightarrow> registry_state \<Rightarrow> registry_state" where
  "applyExecutionAccountLayout layout st =
     (if rg_layoutPending st then st
      else if js_lt (al_revision layout) (al_revision (rg_layout st)) then st
      else st\<lparr>rg_layout := layout\<rparr>)"

definition selectedExecutionAccount :: "registry_state \<Rightarrow> execution_account option" where
  "selectedExecutionAccount st = find (\<lambda>a. Some (ac_id a) = rg_selectedId st) (rg_accounts st)"

text \<open>\<open>if (!sourceId)\<close>: no selection, or the empty string.\<close>

definition sourceOf :: "registry_state \<Rightarrow> string option" where
  "sourceOf st = (case rg_selectedId st of Some s \<Rightarrow> if s = [] then None else Some s | None \<Rightarrow> None)"

definition copyTargets :: "registry_state \<Rightarrow> copy_drafts" where
  "copyTargets st =
     (case sourceOf st of
        None \<Rightarrow> []
      | Some sourceId \<Rightarrow> (case map_get (rg_copyRoutes st) sourceId of Some ts \<Rightarrow> ts | None \<Rightarrow> []))"

definition setCopyTargets :: "copy_drafts \<Rightarrow> registry_state \<Rightarrow> registry_state" where
  "setCopyTargets targets st =
     (case sourceOf st of
        None \<Rightarrow> st
      | Some sourceId \<Rightarrow>
          st\<lparr>rg_copyRoutes := (if length targets = 0 then map_delete sourceId (rg_copyRoutes st)
                               else map_set sourceId targets (rg_copyRoutes st))\<rparr>)"

definition applyCopyRoutes :: "json \<Rightarrow> registry_state \<Rightarrow> registry_state" where
  "applyCopyRoutes routes st = st\<lparr>rg_copyRoutes := normalizeCopyRoutes routes, rg_hydrated := True\<rparr>"

definition resetCopyRoutes :: "registry_state \<Rightarrow> registry_state" where
  "resetCopyRoutes st = st\<lparr>rg_copyRoutes := [], rg_hydrated := False\<rparr>"

definition resetExecutionRegistry :: "registry_state \<Rightarrow> registry_state" where
  "resetExecutionRegistry st =
     st\<lparr>rg_accounts := [], rg_mt5Managed := False, rg_layout := \<lparr>al_itemIds = [], al_revision = Fin 0\<rparr>,
        rg_layoutPending := False, rg_selectedId := None, rg_copyRoutes := [], rg_hydrated := False\<rparr>"

definition applyExecutionConnectorCapabilities :: "bool \<Rightarrow> registry_state \<Rightarrow> registry_state" where
  "applyExecutionConnectorCapabilities mt5Managed st = st\<lparr>rg_mt5Managed := mt5Managed\<rparr>"

definition dedupeAccounts :: "execution_account list \<Rightarrow> execution_account list" where
  "dedupeAccounts accounts =
     map snd (fold (\<lambda>account byId. if js_trim (ac_id account) = [] then byId else map_set (ac_id account) account byId) accounts [])"

definition applyExecutionAccounts :: "execution_account list \<Rightarrow> registry_state \<Rightarrow> registry_state" where
  "applyExecutionAccounts accounts st =
     (let normalized = dedupeAccounts accounts; st1 = st\<lparr>rg_accounts := normalized\<rparr>
      in if sourceOf st \<noteq> None \<and> list_ex (\<lambda>a. Some (ac_id a) = sourceOf st) normalized then st1
         else st1\<lparr>rg_selectedId :=
                (case find (\<lambda>a. ac_status a = StReady) normalized of
                   Some a \<Rightarrow> Some (ac_id a)
                 | None \<Rightarrow> (case normalized of a # _ \<Rightarrow> Some (ac_id a) | [] \<Rightarrow> None))\<rparr>)"

record target_patch =
  tp_accountId :: string
  tp_enabled :: "bool option"
  tp_allocationMode :: "allocation_mode option"
  tp_multiplier :: "jsnum option"
  tp_fixedQuantity :: "jsnum option option"
  tp_riskBasisPoints :: "jsnum option option"
  tp_maxQuantity :: "jsnum option option"

definition patched :: "'a option \<Rightarrow> 'a \<Rightarrow> 'a" where
  "patched new old = (case new of Some x \<Rightarrow> x | None \<Rightarrow> old)"

definition patchTarget :: "target_patch \<Rightarrow> copy_target \<Rightarrow> copy_target" where
  "patchTarget patch previous =
     \<lparr>ct_accountId = tp_accountId patch, ct_enabled = patched (tp_enabled patch) (ct_enabled previous),
      ct_allocationMode = patched (tp_allocationMode patch) (ct_allocationMode previous),
      ct_multiplier = patched (tp_multiplier patch) (ct_multiplier previous),
      ct_fixedQuantity = patched (tp_fixedQuantity patch) (ct_fixedQuantity previous),
      ct_riskBasisPoints = patched (tp_riskBasisPoints patch) (ct_riskBasisPoints previous),
      ct_maxQuantity = patched (tp_maxQuantity patch) (ct_maxQuantity previous)\<rparr>"

definition setCopyTarget :: "target_patch \<Rightarrow> registry_state \<Rightarrow> registry_state" where
  "setCopyTarget patch st =
     (case sourceOf st of
        None \<Rightarrow> st
      | Some sourceId \<Rightarrow>
          if tp_accountId patch = sourceId then st
          else
            let previous = (case map_get (copyTargets st) (tp_accountId patch) of
                  Some t \<Rightarrow> t
                | None \<Rightarrow> \<lparr>ct_accountId = tp_accountId patch, ct_enabled = False, ct_allocationMode = SameQuantity,
                           ct_multiplier = Fin 1, ct_fixedQuantity = None, ct_riskBasisPoints = None, ct_maxQuantity = None\<rparr>)
            in setCopyTargets (map_set (tp_accountId patch) (patchTarget patch previous) (copyTargets st)) st)"

subsection \<open>Accepted routes\<close>

definition valid_id :: "string \<Rightarrow> bool" where
  "valid_id i \<longleftrightarrow> js_trim i = i \<and> i \<noteq> [] \<and> length i \<le> MAX_ACCOUNT_ID_LENGTH \<and> i \<notin> set RESERVED_OBJECT_KEYS"

definition in_limits :: "jsnum \<times> jsnum \<Rightarrow> jsnum \<Rightarrow> bool" where
  "in_limits limits x \<longleftrightarrow> js_isFinite x \<and> js_le (fst limits) x \<and> js_le x (snd limits)"

definition draft_ok :: "string \<Rightarrow> copy_target \<Rightarrow> bool" where
  "draft_ok sourceId t \<longleftrightarrow>
     valid_id (ct_accountId t) \<and> ct_accountId t \<noteq> sourceId \<and> in_limits multiplierLimits (ct_multiplier t)
     \<and> pred_option (in_limits quantityLimits) (ct_fixedQuantity t)
     \<and> (ct_allocationMode t = FixedQuantity \<longrightarrow> ct_fixedQuantity t \<noteq> None)
     \<and> pred_option (\<lambda>b. in_limits riskLimits b \<and> js_round b = b) (ct_riskBasisPoints t)
     \<and> pred_option (in_limits quantityLimits) (ct_maxQuantity t)"

definition drafts_ok :: "string \<Rightarrow> copy_drafts \<Rightarrow> bool" where
  "drafts_ok sourceId ts \<longleftrightarrow> distinct (map fst ts) \<and> length ts \<le> MAX_TARGETS_PER_SOURCE \<and> keyedDrafts ts
     \<and> list_all (\<lambda>(_, t). draft_ok sourceId t) ts"

definition routes_ok :: "copy_routes \<Rightarrow> bool" where
  "routes_ok r \<longleftrightarrow> distinct (map fst r) \<and> length r \<le> MAX_SOURCE_ACCOUNTS
     \<and> list_all (\<lambda>(s, ts). valid_id s \<and> ts \<noteq> [] \<and> drafts_ok s ts) r"

lemma limit_values:
  obtains m q where "multiplierLimits = (Fin m, Fin 1000000)" "quantityLimits = (Fin q, Fin 1000000)"
    "1 / 2 ^ 27 \<le> m" "m \<le> 1" "1 / 2 ^ 27 \<le> q" "q \<le> 1"
proof -
  obtain m where m: "f64 (1 / 10 ^ 6) = Fin m" "1 / 2 ^ 27 \<le> m" "m \<le> 1" by (rule f64_between [of 27 "1 / 10 ^ 6"]) simp_all
  obtain q where q: "f64 (1 / 10 ^ 8) = Fin q" "1 / 2 ^ 27 \<le> q" "q \<le> 1" by (rule f64_between [of 27 "1 / 10 ^ 8"]) simp_all
  show thesis by (rule that [of m q]) (simp_all only: multiplierLimits_def quantityLimits_def m q)
qed

lemma trim_idem [simp]: "js_trim (js_trim s) = js_trim s"
proof -
  let ?d = "dropWhile js_space"
  have idem: "?d (?d xs) = ?d xs" for xs by (induction xs) auto
  have hd: "?d (rev (?d xs)) = rev (?d xs)" if "?d (rev xs) = rev xs" for xs
  proof (cases "?d xs = []")
    case False
    obtain pre where pre: "xs = pre @ ?d xs" by (metis takeWhile_dropWhile_id)
    have "last (?d xs) = last xs" using False pre by (metis last_appendR)
    moreover have "xs \<noteq> []" using False by auto
    then have "\<not> js_space (last xs)" using that by (metis dropWhile_eq_self_iff hd_rev rev_is_Nil_conv)
    ultimately show ?thesis using False by (simp add: dropWhile_eq_self_iff hd_rev)
  next
    case True then show ?thesis by (simp only: rev.simps dropWhile.simps)
  qed
  define u where "u = ?d s"
  have u: "?d u = u" by (simp add: u_def idem)
  define w where "w = rev (?d (rev u))"
  have "?d w = w" unfolding w_def by (rule hd) (simp add: u)
  moreover have "?d (rev w) = rev w" by (simp add: w_def idem)
  ultimately show ?thesis by (simp add: js_trim_def w_def u_def)
qed

lemma normalizeAccountId_iff: "normalizeAccountId v = Some i \<longleftrightarrow> (\<exists>s. v = JStr s \<and> js_trim s = i \<and> valid_id i)"
  by (cases v) (auto simp: normalizeAccountId_def valid_id_def Let_def)

lemma normalizeAccountId_valid: "valid_id i \<Longrightarrow> normalizeAccountId (JStr i) = Some i"
  by (simp add: normalizeAccountId_iff valid_id_def)

lemma bounded_within:
  assumes "boundedFiniteNumber v limits False = Some x" "limits \<in> {multiplierLimits, quantityLimits}"
  shows "in_limits limits x"
proof -
  obtain m where l: "limits = (Fin m, Fin 1000000)" "m \<le> 1" using assms(2) limit_values by (metis empty_iff insert_iff)
  obtain a where "v = JNum (Fin a)" "x = js_min (Fin 1000000) (js_max (Fin m) (Fin a))"
    using assms(1) by (auto simp: boundedFiniteNumber_def l(1) Let_def js_isFinite_iff split: json.splits if_splits)
  then show ?thesis using l(2) by (auto simp: l(1) in_limits_def)
qed

lemma bounded_integer:
  assumes "boundedFiniteNumber v riskLimits True = Some x"
  shows "in_limits riskLimits x" "js_round x = x"
proof -
  obtain a :: rat where a: "x = Fin (of_int \<lfloor>min 10000 (max 1 a) + 1 / 2\<rfloor>)"
    using assms by (auto simp: boundedFiniteNumber_def riskLimits_def Let_def js_isFinite_iff js_round_def
        split: json.splits if_splits)
  define b where "b = min 10000 (max 1 a)"
  have "1 \<le> b" "b \<le> 10000" by (auto simp: b_def)
  then have "1 \<le> \<lfloor>b + 1 / 2\<rfloor>" "\<lfloor>b + 1 / 2\<rfloor> \<le> 10000" by linarith+
  then show "in_limits riskLimits x" using a unfolding b_def [symmetric] by (simp add: in_limits_def riskLimits_def)
  show "js_round x = x" unfolding a by (simp add: js_round_def) linarith
qed

lemma bounded_fixpoint:
  "in_limits limits x \<Longrightarrow> boundedFiniteNumber (JNum x) limits False = Some x"
  "in_limits limits x \<Longrightarrow> js_round x = x \<Longrightarrow> boundedFiniteNumber (JNum x) limits True = Some x"
proof -
  have "js_min (snd limits) (js_max (fst limits) x) = x" if "in_limits limits x"
    using that by (cases limits) (auto simp: in_limits_def js_isFinite_iff js_le_def js_min_def js_max_def min_def max_def)
  then show "in_limits limits x \<Longrightarrow> boundedFiniteNumber (JNum x) limits False = Some x"
    "in_limits limits x \<Longrightarrow> js_round x = x \<Longrightarrow> boundedFiniteNumber (JNum x) limits True = Some x"
    by (simp_all add: boundedFiniteNumber_def in_limits_def)
qed

lemma isAllocationMode_name [simp]: "isAllocationMode (JStr (modeName m)) = Some m"
  by (cases m) (simp_all add: isAllocationMode_def ALLOCATION_MODES_def modeName_def)

lemma normalizeCopyTarget_cases:
  assumes "normalizeCopyTarget sourceId k v = Some t"
  obtains "normalizeAccountId (JStr k) = Some (ct_accountId t)" "sourceId \<noteq> ct_accountId t"
    "boundedFiniteNumber (field v ''multiplier'') multiplierLimits False = Some (ct_multiplier t)"
    "boundedFiniteNumber (field v ''fixedQuantity'') quantityLimits False = ct_fixedQuantity t"
    "boundedFiniteNumber (field v ''riskBasisPoints'') riskLimits True = ct_riskBasisPoints t"
    "boundedFiniteNumber (field v ''maxQuantity'') quantityLimits False = ct_maxQuantity t"
    "ct_allocationMode t = FixedQuantity \<longrightarrow> ct_fixedQuantity t \<noteq> None"
  using assms unfolding normalizeCopyTarget_def Let_def
  by (auto split: if_splits option.splits json.splits prod.splits)

lemma normalizeCopyTarget_ok:
  assumes "normalizeCopyTarget sourceId k v = Some t"
  shows "draft_ok sourceId t"
  using assms
proof (cases rule: normalizeCopyTarget_cases)
  case 1
  have "valid_id (ct_accountId t)" using 1(1) by (auto simp: normalizeAccountId_iff)
  moreover have "pred_option (in_limits quantityLimits) (ct_fixedQuantity t)" "pred_option (in_limits quantityLimits) (ct_maxQuantity t)"
    using 1(4,6) by (auto simp: option.pred_set dest: bounded_within)
  moreover have "pred_option (\<lambda>b. in_limits riskLimits b \<and> js_round b = b) (ct_riskBasisPoints t)"
    using 1(5) by (auto simp: option.pred_set dest: bounded_integer)
  moreover have "in_limits multiplierLimits (ct_multiplier t)" using 1(3) by (rule bounded_within) simp
  ultimately show ?thesis using 1(2,7) by (simp add: draft_ok_def)
qed

lemma draft_fields:
  "field (draftJson t) ''accountId'' = JStr (ct_accountId t)" "field (draftJson t) ''enabled'' = JBool (ct_enabled t)"
  "field (draftJson t) ''allocationMode'' = JStr (modeName (ct_allocationMode t))"
  "field (draftJson t) ''multiplier'' = JNum (ct_multiplier t)"
  "field (draftJson t) ''fixedQuantity'' = (case ct_fixedQuantity t of Some x \<Rightarrow> JNum x | None \<Rightarrow> JUndef)"
  "field (draftJson t) ''riskBasisPoints'' = (case ct_riskBasisPoints t of Some x \<Rightarrow> JNum x | None \<Rightarrow> JUndef)"
  "field (draftJson t) ''maxQuantity'' = (case ct_maxQuantity t of Some x \<Rightarrow> JNum x | None \<Rightarrow> JUndef)"
  by (simp_all add: draftJson_def field_def optionalField_def split: option.splits)

lemma bounded_optional:
  "pred_option (in_limits limits) q \<Longrightarrow>
     boundedFiniteNumber (case q of Some x \<Rightarrow> JNum x | None \<Rightarrow> JUndef) limits False = q"
  "pred_option (\<lambda>b. in_limits limits b \<and> js_round b = b) q \<Longrightarrow>
     boundedFiniteNumber (case q of Some x \<Rightarrow> JNum x | None \<Rightarrow> JUndef) limits True = q"
  by (cases q; simp add: bounded_fixpoint; simp add: boundedFiniteNumber_def)+

lemma normalizeCopyTarget_fixpoint:
  assumes "draft_ok sourceId t"
  shows "normalizeCopyTarget sourceId (ct_accountId t) (draftJson t) = Some t"
proof -
  have "isRecord (draftJson t)" by (simp add: draftJson_def isRecord_def)
  then show ?thesis
    using assms unfolding normalizeCopyTarget_def draft_fields draft_ok_def
    by (auto simp: normalizeAccountId_valid bounded_fixpoint bounded_optional Let_def)
qed

lemma keyed_update: "keyedDrafts m \<Longrightarrow> keyedDrafts (map_set (ct_accountId t) t m)"
proof (induction m)
  case (Cons e m) then show ?case by (cases e) (auto simp: keyedDrafts_def)
qed (simp add: keyedDrafts_def)

lemma list_all_update:
  "list_all (\<lambda>(k, v). P k v) m \<Longrightarrow> P k v \<Longrightarrow> list_all (\<lambda>(k, v). P k v) (map_set k v m)"
proof (induction m)
  case (Cons e m) then show ?case by (cases e) auto
qed simp

lemma length_update: "length (map_set k v m) \<le> length m + 1"
  by (induction m) auto

lemma targetLoop_ok:
  assumes "distinct (map fst acc)" "length acc \<le> n" "n \<le> MAX_TARGETS_PER_SOURCE" "keyedDrafts acc"
    "list_all (\<lambda>(_, t). draft_ok sourceId t) acc"
  shows "drafts_ok sourceId (targetLoop sourceId es n acc)"
  using assms
proof (induction sourceId es n acc rule: targetLoop.induct)
  case (2 sourceId k v es n acc)
  show ?case
  proof (cases "MAX_TARGETS_PER_SOURCE \<le> n")
    case True then show ?thesis using 2(3-7) by (simp add: drafts_ok_def)
  next
    case False
    show ?thesis
    proof (cases "normalizeCopyTarget sourceId k v")
      case None then show ?thesis using 2 False by simp
    next
      case (Some t)
      have "drafts_ok sourceId (targetLoop sourceId es (n + 1) (map_set (ct_accountId t) t acc))"
      proof (rule 2(2) [OF False Some])
        show "length (map_set (ct_accountId t) t acc) \<le> n + 1" using length_update [of "ct_accountId t" t acc] 2(4) by linarith
        show "list_all (\<lambda>(_, t). draft_ok sourceId t) (map_set (ct_accountId t) t acc)"
          by (rule list_all_update [OF 2(7) normalizeCopyTarget_ok [OF Some]])
      qed (use 2(3,6) False in \<open>auto simp: distinct_update keyed_update\<close>)
      then show ?thesis using Some False by simp
    qed
  qed
qed (simp add: drafts_ok_def)

lemma routeLoop_step:
  assumes "\<not> MAX_SOURCE_ACCOUNTS \<le> n"
  shows "routeLoop ((k, v) # es) n acc = routeLoop es n acc
    \<or> (\<exists>s ts. valid_id s \<and> ts \<noteq> [] \<and> drafts_ok s ts \<and> routeLoop ((k, v) # es) n acc = routeLoop es (n + 1) (map_set s ts acc))"
proof (cases "normalizeAccountId (JStr k)")
  case (Some s)
  show ?thesis
  proof (cases v)
    case (JObj m)
    have "drafts_ok s (targetLoop s m 0 [])" by (rule targetLoop_ok) (simp_all add: keyedDrafts_def)
    moreover have "valid_id s" using Some by (auto simp: normalizeAccountId_iff)
    ultimately show ?thesis using Some JObj assms by (auto simp: Let_def)
  qed (use Some assms in simp_all)
qed (use assms in simp)

lemma routeLoop_ok:
  assumes "distinct (map fst acc)" "length acc \<le> n" "n \<le> MAX_SOURCE_ACCOUNTS"
    "list_all (\<lambda>(s, ts). valid_id s \<and> ts \<noteq> [] \<and> drafts_ok s ts) acc"
  shows "routes_ok (routeLoop es n acc)"
  using assms
proof (induction es arbitrary: n acc)
  case (Cons e es)
  obtain k v where e: "e = (k, v)" by (cases e)
  show ?case
  proof (cases "MAX_SOURCE_ACCOUNTS \<le> n")
    case True then show ?thesis using Cons(2-5) by (simp add: e routes_ok_def)
  next
    case False
    from routeLoop_step [OF False, of k v es acc] show ?thesis
    proof (elim disjE exE conjE)
      fix s ts assume s: "valid_id s" "ts \<noteq> []" "drafts_ok s ts"
        and step: "routeLoop ((k, v) # es) n acc = routeLoop es (n + 1) (map_set s ts acc)"
      have "routes_ok (routeLoop es (n + 1) (map_set s ts acc))"
      proof (rule Cons.IH)
        show "length (map_set s ts acc) \<le> n + 1" using length_update [of s ts acc] Cons.prems(2) by linarith
        show "list_all (\<lambda>(s, ts). valid_id s \<and> ts \<noteq> [] \<and> drafts_ok s ts) (map_set s ts acc)"
          by (rule list_all_update [OF Cons.prems(4)]) (use s in simp)
      qed (use Cons.prems False in \<open>auto simp: distinct_update\<close>)
      then show ?thesis using step e by simp
    qed (use Cons e in simp)
  qed
qed (simp add: routes_ok_def)

lemma normalizeCopyRoutes_ok: "routes_ok (normalizeCopyRoutes v)"
proof (cases v)
  case (JObj m) then show ?thesis by (simp add: normalizeCopyRoutes_def routeLoop_ok)
qed (simp_all add: normalizeCopyRoutes_def routes_ok_def)

lemma targetLoop_fixpoint:
  assumes "distinct (map fst (acc @ ts))" "length (acc @ ts) \<le> MAX_TARGETS_PER_SOURCE" "keyedDrafts ts"
    "list_all (\<lambda>(_, t). draft_ok sourceId t) ts"
  shows "targetLoop sourceId (map (\<lambda>(k, t). (k, draftJson t)) ts) (length acc) acc = acc @ ts"
  using assms
proof (induction ts arbitrary: acc)
  case (Cons e ts)
  obtain k t where e: "e = (k, t)" by (cases e)
  have k: "ct_accountId t = k" and t: "draft_ok sourceId t" using Cons.prems(3,4) by (auto simp: e keyedDrafts_def)
  have "map_of acc k = None" using Cons.prems(1) by (auto simp: e map_of_eq_None_iff)
  then have "map_set k t acc = acc @ [(k, t)]" by (rule alist_update_fresh)
  moreover have "targetLoop sourceId (map (\<lambda>(k, t). (k, draftJson t)) ts) (length (acc @ [(k, t)])) (acc @ [(k, t)]) = (acc @ [(k, t)]) @ ts"
    by (rule Cons.IH) (use Cons.prems e in \<open>auto simp: keyedDrafts_def\<close>)
  ultimately show ?case
    using normalizeCopyTarget_fixpoint [OF t] Cons.prems(2) by (simp add: e k)
qed simp

lemma routeLoop_fixpoint:
  assumes "distinct (map fst (acc @ r))" "length (acc @ r) \<le> MAX_SOURCE_ACCOUNTS"
    "list_all (\<lambda>(s, ts). valid_id s \<and> ts \<noteq> [] \<and> drafts_ok s ts) r"
  shows "routeLoop (map (\<lambda>(s, ts). (s, JObj (map (\<lambda>(k, t). (k, draftJson t)) ts))) r) (length acc) acc = acc @ r"
  using assms
proof (induction r arbitrary: acc)
  case (Cons e r)
  obtain s ts where e: "e = (s, ts)" by (cases e)
  have s: "valid_id s" "ts \<noteq> []" "drafts_ok s ts" using Cons.prems(3) by (auto simp: e)
  have ts: "targetLoop s (map (\<lambda>(k, t). (k, draftJson t)) ts) 0 [] = ts"
    using targetLoop_fixpoint [of "[]" ts s] s(3) by (simp add: drafts_ok_def)
  have "map_of acc s = None" using Cons.prems(1) by (auto simp: e map_of_eq_None_iff)
  then have "map_set s ts acc = acc @ [(s, ts)]" by (rule alist_update_fresh)
  moreover have "routeLoop (map (\<lambda>(s, ts). (s, JObj (map (\<lambda>(k, t). (k, draftJson t)) ts))) r)
      (length (acc @ [(s, ts)])) (acc @ [(s, ts)]) = (acc @ [(s, ts)]) @ r"
    by (rule Cons.IH) (use Cons.prems e in auto)
  ultimately show ?case
    using s Cons.prems(2) by (simp add: e ts normalizeAccountId_valid Let_def)
qed simp

lemma normalizeCopyRoutes_fixpoint: "routes_ok r \<Longrightarrow> normalizeCopyRoutes (routesJson r) = r"
  using routeLoop_fixpoint [of "[]" r] by (simp add: normalizeCopyRoutes_def routesJson_def routes_ok_def)

text \<open>
  Preferences survive a save and a load.  Saving routes and loading them again gives the normalised
  routes whatever was in the settings before, and normalised routes come back unchanged, so nothing
  the user configured is lost or altered by a second pass.
\<close>

theorem preferences_roundtrip:
  "loadTradeCopierPreferences (JObj (saveTradeCopierPreferences routes settings)) = normalizeCopyRoutes (routesJson routes)
   \<and> loadTradeCopierPreferences (JObj (saveTradeCopierPreferences (normalizeCopyRoutes v) settings)) = normalizeCopyRoutes v"
proof -
  have load: "loadTradeCopierPreferences (JObj (saveTradeCopierPreferences r settings)) =
      normalizeCopyRoutes (routesJson (normalizeCopyRoutes (routesJson r)))" for r
    by (simp add: loadTradeCopierPreferences_def saveTradeCopierPreferences_def normalizeTradeCopierPreferences_def field_def
        isRecord_def update_conv')
  show ?thesis by (simp add: load normalizeCopyRoutes_fixpoint normalizeCopyRoutes_ok)
qed

text \<open>What a target on the wire must satisfy for the gateway to size it.\<close>

definition positiveWire :: "target_wire \<Rightarrow> bool" where
  "positiveWire w \<longleftrightarrow>
     (case tw_allocation w of
        WireSame \<Rightarrow> True
      | WireFixed d \<Rightarrow> 0 < decimalValue d
      | WireMultiplier d \<Rightarrow> 0 < decimalValue d
      | WireEquity d \<Rightarrow> 0 < decimalValue d
      | WireRisk b \<Rightarrow> js_le (Fin 1) b \<and> js_le b (Fin 10000))
     \<and> pred_option (\<lambda>d. 0 < decimalValue d) (tw_maxQuantity w)"

lemma in_limits_decimal:
  assumes "in_limits limits x" "limits \<in> {multiplierLimits, quantityLimits}"
  obtains d where "executionDecimal numStr x = Inr d" "0 < decimalValue d"
proof -
  have "0 < a \<and> 1 / 10 ^ 12 \<le> a \<and> a \<le> 1000000" if "x = Fin a" for a
  proof -
    obtain m where l: "limits = (Fin m, Fin 1000000)" "1 / 2 ^ 27 \<le> m" using assms(2) limit_values by (metis empty_iff insert_iff)
    have "m \<le> a" "a \<le> 1000000" using assms(1) that by (simp_all add: l(1) in_limits_def)
    moreover have "0 < m" "1 / 10 ^ 12 \<le> m" using l(2) by simp_all
    ultimately show ?thesis by linarith
  qed
  moreover obtain a where a: "x = Fin a" using assms(1) by (auto simp: in_limits_def js_isFinite_iff)
  ultimately have b: "0 < a" "1 / 10 ^ 12 \<le> a" "a \<le> 1000000" by blast+
  then have "\<bar>a\<bar> < 10 ^ 21" by simp
  then obtain d where d: "executionDecimal numStr (Fin a) = Inr d" "decimalValue d = round12 a"
    by (rule executionDecimal_spec)
  have "1 \<le> a * 10 ^ 12" using b(2) by (simp add: field_simps)
  then have "1 \<le> \<lfloor>a * 10 ^ 12 + 1 / 2\<rfloor>" by linarith
  then have "0 < round12 a" using b(1) by (simp add: round12_def)
  then show thesis using d a that by simp
qed

lemma optional_decimal:
  assumes "pred_option (in_limits quantityLimits) q"
  obtains d where "optionalDecimal numStr q = Inr d" "pred_option (\<lambda>d. 0 < decimalValue d) d"
proof (cases q)
  case (Some x)
  then have "in_limits quantityLimits x" using assms by simp
  then obtain d where "executionDecimal numStr x = Inr d" "0 < decimalValue d" by (rule in_limits_decimal) simp
  then show thesis using Some that [of "Some d"] by (simp add: optionalDecimal_def)
qed (use that [of None] in \<open>simp add: optionalDecimal_def\<close>)

definition positiveAllocation :: "allocation_wire \<Rightarrow> bool" where
  "positiveAllocation w \<longleftrightarrow> positiveWire \<lparr>tw_accountId = [], tw_allocation = w, tw_maxQuantity = None\<rparr>"

lemma draft_allocation:
  assumes "draft_ok sourceId t"
  obtains w where "allocationWire numStr t = Inr w" "positiveAllocation w"
proof (cases "ct_allocationMode t")
  case FixedQuantity
  then obtain q where q: "ct_fixedQuantity t = Some q" "in_limits quantityLimits q" using assms by (auto simp: draft_ok_def)
  obtain d where "executionDecimal numStr q = Inr d" "0 < decimalValue d" by (rule in_limits_decimal [OF q(2)]) simp
  then show thesis using FixedQuantity q(1) by (intro that [of "WireFixed d"]) (simp_all add: allocationWire_def positiveAllocation_def positiveWire_def)
next
  case Multiplier
  obtain d where "executionDecimal numStr (ct_multiplier t) = Inr d" "0 < decimalValue d"
    using assms in_limits_decimal [of multiplierLimits "ct_multiplier t"] by (auto simp: draft_ok_def)
  then show thesis using Multiplier by (intro that [of "WireMultiplier d"]) (simp_all add: allocationWire_def positiveAllocation_def positiveWire_def)
next
  case EquityProportional
  obtain d where "executionDecimal numStr (ct_multiplier t) = Inr d" "0 < decimalValue d"
    using assms in_limits_decimal [of multiplierLimits "ct_multiplier t"] by (auto simp: draft_ok_def)
  then show thesis using EquityProportional by (intro that [of "WireEquity d"]) (simp_all add: allocationWire_def positiveAllocation_def positiveWire_def)
next
  case RiskPercent
  have "in_limits riskLimits b" if "ct_riskBasisPoints t = Some b" for b using assms that by (simp add: draft_ok_def)
  then show thesis
    using RiskPercent by (intro that [of "WireRisk (case ct_riskBasisPoints t of Some b \<Rightarrow> b | None \<Rightarrow> Fin 50)"])
      (auto simp: allocationWire_def positiveAllocation_def positiveWire_def in_limits_def riskLimits_def split: option.splits)
qed (use that [of WireSame] in \<open>simp add: allocationWire_def positiveAllocation_def positiveWire_def\<close>)

lemma draft_wire:
  assumes "draft_ok sourceId t"
  obtains w where "targetWire numStr t = Inr w" "positiveWire w" "tw_accountId w = ct_accountId t"
proof -
  obtain a where a: "allocationWire numStr t = Inr a" "positiveAllocation a" using assms by (rule draft_allocation)
  obtain m where m: "optionalDecimal numStr (ct_maxQuantity t) = Inr m" "pred_option (\<lambda>d. 0 < decimalValue d) m"
    using assms optional_decimal [of "ct_maxQuantity t" numStr] by (auto simp: draft_ok_def)
  then show thesis
    using a by (intro that [of "\<lparr>tw_accountId = ct_accountId t, tw_allocation = a, tw_maxQuantity = m\<rparr>"])
      (simp_all add: targetWire_def positiveAllocation_def positiveWire_def)
qed

text \<open>
  C21.  Whatever the settings hold, accepted routes are safe to send.  Normalising any JSON value gives at most 128 sources
  with at most 128 targets each; identifiers are trimmed, non-empty and not reserved, a draft is filed under its own
  account and never under its source, and building its wire form succeeds with positive quantities and
  multipliers and a risk between 1 and 10000 basis points.
\<close>

theorem accepted_routes_are_sendable:
  assumes "(sourceId, drafts) \<in> set (normalizeCopyRoutes v)" "(targetId, t) \<in> set drafts"
  shows "length (normalizeCopyRoutes v) \<le> 128 \<and> length drafts \<le> 128 \<and> valid_id sourceId \<and> valid_id targetId
    \<and> targetId = ct_accountId t \<and> targetId \<noteq> sourceId
    \<and> (\<exists>w. targetWire numStr t = Inr w \<and> positiveWire w \<and> tw_accountId w = targetId)"
proof -
  have r: "routes_ok (normalizeCopyRoutes v)" by (rule normalizeCopyRoutes_ok)
  then have s: "valid_id sourceId" "drafts_ok sourceId drafts" "length (normalizeCopyRoutes v) \<le> 128"
    using assms(1) by (auto simp: routes_ok_def list_all_iff MAX_SOURCE_ACCOUNTS_def)
  then have t: "draft_ok sourceId t" "targetId = ct_accountId t" "length drafts \<le> 128"
    using assms(2) by (auto simp: drafts_ok_def list_all_iff keyedDrafts_def MAX_TARGETS_PER_SOURCE_def)
  obtain w where "targetWire numStr t = Inr w" "positiveWire w" "tw_accountId w = ct_accountId t" using t(1) by (rule draft_wire)
  then show ?thesis using s t by (auto simp: draft_ok_def)
qed

definition sampleRoutes :: json where
  "sampleRoutes = JObj [('' a '', JObj [(''b'', JObj [(''accountId'', JStr ''b''), (''enabled'', JBool True),
     (''allocationMode'', JStr ''sameQuantity''), (''multiplier'', JNum (Fin 1))])])]"

lemma sample_normalised:
  "normalizeCopyRoutes sampleRoutes = [(''a'', [(''b'', (sampleDraft ''b'')\<lparr>ct_maxQuantity := None\<rparr>)])]"
proof -
  obtain m where m: "multiplierLimits = (Fin m, Fin 1000000)" "m \<le> 1" using limit_values by metis
  show ?thesis
    using m(2) by (simp add: normalizeCopyRoutes_def sampleRoutes_def normalizeAccountId_def js_trim_def js_space_def Let_def
        MAX_ACCOUNT_ID_LENGTH_def MAX_SOURCE_ACCOUNTS_def MAX_TARGETS_PER_SOURCE_def RESERVED_OBJECT_KEYS_def normalizeCopyTarget_def
        isRecord_def field_def isAllocationMode_def ALLOCATION_MODES_def modeName_def boundedFiniteNumber_def m(1) sampleDraft_def)
qed

theorem accepted_routes_are_sendable_witness:
  "\<exists>w. targetWire (\<lambda>_. []) ((sampleDraft ''b'')\<lparr>ct_maxQuantity := None\<rparr>) = Inr w \<and> positiveWire w \<and> tw_accountId w = ''b''"
  using accepted_routes_are_sendable [of "''a''" "[(''b'', (sampleDraft ''b'')\<lparr>ct_maxQuantity := None\<rparr>)]" sampleRoutes "''b''"
      "(sampleDraft ''b'')\<lparr>ct_maxQuantity := None\<rparr>" "\<lambda>_. []"]
  by (simp add: sample_normalised)

subsection \<open>The account list\<close>

lemma pushUnseen_inv:
  assumes "distinct (map ac_id acc)" "set acc \<subseteq> A" "\<And>a. x = Some a \<Longrightarrow> a \<in> A"
  shows "distinct (map ac_id (pushUnseen x acc))" "set (pushUnseen x acc) \<subseteq> A" "prefix acc (pushUnseen x acc)"
  using assms by (auto simp: pushUnseen_def split: option.splits)

lemma push_accounts:
  assumes "distinct (map ac_id acc)" "set acc \<subseteq> A" "set xs \<subseteq> A"
  shows "distinct (map ac_id (fold (\<lambda>a. pushUnseen (Some a)) xs acc)) \<and> set (fold (\<lambda>a. pushUnseen (Some a)) xs acc) \<subseteq> A
    \<and> prefix acc (fold (\<lambda>a. pushUnseen (Some a)) xs acc) \<and> ac_id ` set xs \<subseteq> ac_id ` set (fold (\<lambda>a. pushUnseen (Some a)) xs acc)"
  using assms
proof (induction xs arbitrary: acc)
  case (Cons x xs)
  let ?acc = "pushUnseen (Some x) acc"
  have p: "distinct (map ac_id ?acc)" "set ?acc \<subseteq> A" "prefix acc ?acc"
    using pushUnseen_inv [of acc A "Some x"] Cons.prems by auto
  have r: "distinct (map ac_id (fold (\<lambda>a. pushUnseen (Some a)) xs ?acc)) \<and> set (fold (\<lambda>a. pushUnseen (Some a)) xs ?acc) \<subseteq> A
    \<and> prefix ?acc (fold (\<lambda>a. pushUnseen (Some a)) xs ?acc) \<and> ac_id ` set xs \<subseteq> ac_id ` set (fold (\<lambda>a. pushUnseen (Some a)) xs ?acc)"
    using Cons.IH [OF p(1,2)] Cons.prems(3) by simp
  have "ac_id x \<in> ac_id ` set ?acc" by (auto simp: pushUnseen_def)
  then have "ac_id x \<in> ac_id ` set (fold (\<lambda>a. pushUnseen (Some a)) xs ?acc)" using r set_mono_prefix by blast
  then show ?case using r p(3) by (auto intro: prefix_order.trans)
qed simp

lemma push_persisted:
  fixes accounts :: "execution_account list"
  assumes "distinct (map ac_id accounts)"
  defines "byId \<equiv> map_set_all (map (\<lambda>a. (ac_id a, a)) accounts) []"
  shows "map ac_id (fold (\<lambda>i. pushUnseen (map_get byId i)) ids []) = rev (remdups (rev (filter (\<lambda>i. i \<in> ac_id ` set accounts) ids)))
    \<and> set (fold (\<lambda>i. pushUnseen (map_get byId i)) ids []) \<subseteq> set accounts"
proof (induction ids rule: rev_induct)
  case (snoc i ids)
  let ?f = "fold (\<lambda>i. pushUnseen (map_get byId i)) ids []"
  have ids: "ac_id ` set ?f = set (filter (\<lambda>i. i \<in> ac_id ` set accounts) ids)" using snoc by (metis list.set_map set_remdups set_rev)
  show ?case
  proof (cases "i \<in> ac_id ` set accounts")
    case True
    then obtain a where a: "a \<in> set accounts" "i = ac_id a" by auto
    have "map_get byId i = Some a" unfolding byId_def a(2) by (rule byId_lookup [OF assms(1) a(1)])
    then have step: "fold (\<lambda>i. pushUnseen (map_get byId i)) (ids @ [i]) [] = (if i \<in> ac_id ` set ?f then ?f else ?f @ [a])"
      by (simp add: pushUnseen_def [of "Some a"] a(2))
    have "i \<in> ac_id ` set ?f \<longleftrightarrow> i \<in> set ids" using ids True by simp
    then show ?thesis unfolding step using snoc a True by auto
  next
    case False
    have "map_get byId i = None"
    proof (rule ccontr)
      assume "map_get byId i \<noteq> None"
      then obtain a where "map_get byId i = Some a" by auto
      then have "(i, a) \<in> set (map (\<lambda>a. (ac_id a, a)) accounts)"
        unfolding byId_def map_get_set_all by (auto dest: map_of_SomeD)
      then show False using False by auto
    qed
    then show ?thesis using snoc False by (simp add: pushUnseen_def)
  qed
qed simp

lemma move_item:
  assumes "distinct items"
  shows "mset (moveExecutionAccountItem items src tgt edge) = mset items
    \<and> (src \<noteq> tgt \<and> src \<in> set items \<and> tgt \<in> set items \<longrightarrow>
        (\<exists>xs ys. moveExecutionAccountItem items src tgt edge =
           xs @ (case edge of EdgeBefore \<Rightarrow> [src, tgt] | EdgeAfter \<Rightarrow> [tgt, src]) @ ys))"
proof (cases "src = tgt \<or> src \<notin> set items \<or> tgt \<notin> set items")
  case False
  define kept where "kept = filter (\<lambda>i. i \<noteq> src) items"
  define xs where "xs = takeWhile (\<lambda>i. i \<noteq> tgt) kept"
  have "tgt \<in> set kept" using False by (auto simp: kept_def)
  then obtain us vs where uv: "kept = us @ tgt # vs" "tgt \<notin> set us" by (meson split_list_first)
  then have "xs = us" unfolding xs_def uv(1) by (subst takeWhile_append2) auto
  then obtain ys where ys: "kept = xs @ tgt # ys" using uv(1) by blast
  have m: "mset items = add_mset src (mset kept)"
  proof -
    have f: "filter (\<lambda>i. \<not> i \<noteq> src) items = [src]" if "src \<in> set items"
      using that assms by (induction items) (auto simp: filter_empty_conv)
    have "mset items = mset (filter (\<lambda>i. i \<noteq> src) items) + mset (filter (\<lambda>i. \<not> i \<noteq> src) items)"
      by (simp only: mset_filter multiset_partition [symmetric])
    also have "filter (\<lambda>i. \<not> i \<noteq> src) items = [src]" using False f by blast
    finally show ?thesis by (simp only: kept_def mset.simps add_mset_add_single [symmetric])
  qed
  define pos where "pos = length xs + (if edge = EdgeAfter then 1 else 0)"
  have mv: "moveExecutionAccountItem items src tgt edge = take pos kept @ [src] @ drop pos kept"
    using False by (simp add: moveExecutionAccountItem_def Let_def kept_def xs_def pos_def)
  show ?thesis
  proof (cases edge)
    case EdgeBefore
    have "moveExecutionAccountItem items src tgt edge = xs @ [src, tgt] @ ys"
      unfolding mv unfolding ys pos_def by (simp add: EdgeBefore)
    then show ?thesis using EdgeBefore m ys by auto
  next
    case EdgeAfter
    have "moveExecutionAccountItem items src tgt edge = xs @ [tgt, src] @ ys"
      unfolding mv unfolding ys pos_def by (simp add: EdgeAfter)
    then show ?thesis using EdgeAfter m ys by auto
  qed
qed (auto simp: moveExecutionAccountItem_def)

text \<open>
  The layout only reorders.  The merged account list is a permutation of the registered accounts that starts with the
  persisted ids in their order, unknown and repeated ones skipped; moving an item permutes the ids and puts the moved one
  directly before or after the drop target.
\<close>

theorem layout_only_reorders:
  assumes "distinct (map ac_id accounts)"
  shows "mset (mergeExecutionAccountLayout accounts ids) = mset accounts
    \<and> prefix (rev (remdups (rev (filter (\<lambda>i. i \<in> ac_id ` set accounts) ids)))) (map ac_id (mergeExecutionAccountLayout accounts ids))
    \<and> (distinct items \<longrightarrow> mset (moveExecutionAccountItem items src tgt edge) = mset items
       \<and> (src \<noteq> tgt \<and> src \<in> set items \<and> tgt \<in> set items \<longrightarrow>
           (\<exists>xs ys. moveExecutionAccountItem items src tgt edge =
              xs @ (case edge of EdgeBefore \<Rightarrow> [src, tgt] | EdgeAfter \<Rightarrow> [tgt, src]) @ ys)))"
proof -
  define first where "first = fold (\<lambda>i. pushUnseen (map_get (map_set_all (map (\<lambda>a. (ac_id a, a)) accounts) []) i)) ids []"
  define res where "res = mergeExecutionAccountLayout accounts ids"
  have f: "map ac_id first = rev (remdups (rev (filter (\<lambda>i. i \<in> ac_id ` set accounts) ids)))" "set first \<subseteq> set accounts"
    using push_persisted [OF assms, of ids] by (simp_all add: first_def)
  have r: "distinct (map ac_id res)" "set res \<subseteq> set accounts" "prefix first res" "ac_id ` set accounts \<subseteq> ac_id ` set res"
    using push_accounts [of first "set accounts" accounts] f
    by (simp_all add: res_def mergeExecutionAccountLayout_def Let_def first_def)
  have "set res = set accounts"
  proof
    show "set accounts \<subseteq> set res"
    proof
      fix a assume "a \<in> set accounts"
      moreover then obtain b where "b \<in> set res" "ac_id b = ac_id a" using r(4) by (metis image_eqI image_iff subsetD)
      ultimately show "a \<in> set res" using r(2) assms by (metis distinct_map inj_onD subsetD)
    qed
  qed (rule r(2))
  then have "mset res = mset accounts"
    using r(1) assms by (simp add: set_eq_iff_mset_eq_distinct [symmetric] distinct_map)
  moreover have "prefix (map ac_id first) (map ac_id res)" using r(3) by (rule map_mono_prefix)
  moreover have "mset (moveExecutionAccountItem items src tgt edge) = mset items
       \<and> (src \<noteq> tgt \<and> src \<in> set items \<and> tgt \<in> set items \<longrightarrow>
           (\<exists>xs ys. moveExecutionAccountItem items src tgt edge =
              xs @ (case edge of EdgeBefore \<Rightarrow> [src, tgt] | EdgeAfter \<Rightarrow> [tgt, src]) @ ys))" if "distinct items"
    using move_item [OF that] .
  ultimately show ?thesis using f(1) by (simp add: res_def)
qed

theorem layout_only_reorders_witness:
  "mset (mergeExecutionAccountLayout [sampleAccount ''a'', sampleAccount ''b''] [''b'', ''x'', ''b'']) = mset [sampleAccount ''a'', sampleAccount ''b'']
   \<and> mset (moveExecutionAccountItem [''a'', ''b'', ''c''] ''a'' ''b'' EdgeAfter) = mset [''a'', ''b'', ''c'']"
  using layout_only_reorders [OF sample_keyed(1), of "[''b'', ''x'', ''b'']" "[''a'', ''b'', ''c'']" "''a''" "''b''" EdgeAfter] by simp

subsection \<open>Registry invariant\<close>

inductive registry_run :: "registry_state \<Rightarrow> bool" where
  registry_init: "registry_run initialRegistry"
| registry_accounts: "registry_run st \<Longrightarrow> registry_run (applyExecutionAccounts accounts st)"
| registry_select: "registry_run st \<Longrightarrow> registry_run (st\<lparr>rg_selectedId := sel\<rparr>)"
| registry_target: "registry_run st \<Longrightarrow> registry_run (setCopyTarget patch st)"
| registry_routes: "registry_run st \<Longrightarrow> registry_run (applyCopyRoutes v st)"
| registry_reset_routes: "registry_run st \<Longrightarrow> registry_run (resetCopyRoutes st)"
| registry_layout: "registry_run st \<Longrightarrow> registry_run (applyExecutionAccountLayout layout st)"
| registry_set_layout: "registry_run st \<Longrightarrow> registry_run (st\<lparr>rg_layout := layout\<rparr>)"
| registry_pending: "registry_run st \<Longrightarrow> registry_run (st\<lparr>rg_layoutPending := b\<rparr>)"
| registry_capabilities: "registry_run st \<Longrightarrow> registry_run (applyExecutionConnectorCapabilities b st)"
| registry_reset: "registry_run st \<Longrightarrow> registry_run (resetExecutionRegistry st)"

definition route_keyed :: "string \<Rightarrow> copy_drafts \<Rightarrow> bool" where
  "route_keyed s ts \<longleftrightarrow> ts \<noteq> [] \<and> distinct (map fst ts) \<and> keyedDrafts ts \<and> map_get ts s = None"

definition registry_ok :: "registry_state \<Rightarrow> bool" where
  "registry_ok st \<longleftrightarrow> distinct (map ac_id (rg_accounts st)) \<and> list_all (\<lambda>a. js_trim (ac_id a) \<noteq> []) (rg_accounts st)
     \<and> distinct (map fst (rg_copyRoutes st)) \<and> list_all (\<lambda>(s, ts). route_keyed s ts) (rg_copyRoutes st)"

lemma dedupe_ok: "distinct (map ac_id (dedupeAccounts accounts))" "list_all (\<lambda>a. js_trim (ac_id a) \<noteq> []) (dedupeAccounts accounts)"
proof -
  define put where "put = (\<lambda>(account :: execution_account) byId. if js_trim (ac_id account) = [] then byId else map_set (ac_id account) account byId)"
  have "distinct (map fst (fold put xs m)) \<and> list_all (\<lambda>(k, a). ac_id a = k \<and> js_trim k \<noteq> []) (fold put xs m)"
    if "distinct (map fst m)" "list_all (\<lambda>(k, a). ac_id a = k \<and> js_trim k \<noteq> []) m" for xs m
    using that
  proof (induction xs arbitrary: m)
    case (Cons x xs)
    have "list_all (\<lambda>(k, a). ac_id a = k \<and> js_trim k \<noteq> []) (map_set (ac_id x) x m)" if "js_trim (ac_id x) \<noteq> []"
      by (rule list_all_update [OF Cons.prems(2)]) (use that in simp)
    then show ?case using Cons by (simp add: put_def distinct_update)
  qed simp
  from this [of "[]" accounts] obtain r where r: "fold put accounts [] = r" "distinct (map fst r)"
    "list_all (\<lambda>(k, a). ac_id a = k \<and> js_trim k \<noteq> []) r" by simp
  have d: "dedupeAccounts accounts = map snd r" using r(1) by (simp add: dedupeAccounts_def put_def)
  have "map ac_id (map snd r) = map fst r" using r(3) by (auto simp: list_all_iff)
  then show "distinct (map ac_id (dedupeAccounts accounts))" unfolding d using r(2) by (simp only:)
  show "list_all (\<lambda>a. js_trim (ac_id a) \<noteq> []) (dedupeAccounts accounts)" unfolding d using r(3) by (auto simp: list_all_iff)
qed

lemma list_all_delete: "list_all P m \<Longrightarrow> list_all P (map_delete k m)"
  by (auto simp: list_all_iff AList.delete_eq)

lemma setCopyTargets_ok:
  assumes "registry_ok st" "sourceOf st = Some s" "route_keyed s ts"
  shows "registry_ok (setCopyTargets ts st)"
proof -
  have "list_all (\<lambda>(s, ts). route_keyed s ts) (map_set s ts (rg_copyRoutes st))"
    by (rule list_all_update) (use assms in \<open>simp_all add: registry_ok_def\<close>)
  then show ?thesis
    using assms by (simp add: setCopyTargets_def registry_ok_def distinct_update distinct_delete list_all_delete)
qed

lemma copyTargets_keyed:
  assumes "registry_ok st" "sourceOf st = Some s"
  shows "distinct (map fst (copyTargets st))" "keyedDrafts (copyTargets st)" "map_get (copyTargets st) s = None"
proof -
  have "route_keyed s ts" if "map_get (rg_copyRoutes st) s = Some ts" for ts
    using assms(1) map_of_SomeD [OF that] by (auto simp: registry_ok_def list_all_iff)
  then show "distinct (map fst (copyTargets st))" "keyedDrafts (copyTargets st)" "map_get (copyTargets st) s = None"
    using assms(2) by (auto simp: copyTargets_def route_keyed_def keyedDrafts_def split: option.splits)
qed

lemma setCopyTarget_ok:
  assumes "registry_ok st"
  shows "registry_ok (setCopyTarget patch st)"
proof (cases "sourceOf st")
  case (Some s)
  note k = copyTargets_keyed [OF assms Some]
  have "route_keyed s (map_set (tp_accountId patch) (patchTarget patch t) (copyTargets st))" if "tp_accountId patch \<noteq> s" for t
  proof -
    have "ct_accountId (patchTarget patch t) = tp_accountId patch" by (simp add: patchTarget_def)
    then have "keyedDrafts (map_set (tp_accountId patch) (patchTarget patch t) (copyTargets st))" using keyed_update [OF k(2)] by metis
    then show ?thesis using k that by (simp add: route_keyed_def distinct_update update_conv' update_nonempty)
  qed
  then show ?thesis using assms Some by (auto simp: setCopyTarget_def Let_def intro: setCopyTargets_ok)
qed (use assms in \<open>simp add: setCopyTarget_def\<close>)

lemma accepted_routes_keyed: "list_all (\<lambda>(s, ts). route_keyed s ts) (normalizeCopyRoutes v)" "distinct (map fst (normalizeCopyRoutes v))"
proof -
  have r: "routes_ok (normalizeCopyRoutes v)" by (rule normalizeCopyRoutes_ok)
  then show "distinct (map fst (normalizeCopyRoutes v))" by (simp add: routes_ok_def)
  have "map_get ts s = None" if "drafts_ok s ts" for s ts
  proof (rule ccontr)
    assume "map_get ts s \<noteq> None"
    then obtain t where t: "map_get ts s = Some t" by auto
    then have "ct_accountId t = s" using that keyedDraftsD [of ts] by (simp add: drafts_ok_def)
    moreover have "draft_ok s t" using that map_of_SomeD [OF t] by (auto simp: drafts_ok_def list_all_iff)
    ultimately show False by (simp add: draft_ok_def)
  qed
  then show "list_all (\<lambda>(s, ts). route_keyed s ts) (normalizeCopyRoutes v)"
    using r by (auto simp: routes_ok_def list_all_iff route_keyed_def drafts_ok_def)
qed

lemma registry_run_ok: "registry_run st \<Longrightarrow> registry_ok st"
proof (induction rule: registry_run.induct)
  case (registry_accounts st accounts)
  then show ?case using dedupe_ok [of accounts] by (auto simp: registry_ok_def applyExecutionAccounts_def Let_def)
next
  case (registry_routes st v)
  then show ?case using accepted_routes_keyed [of v] by (simp add: registry_ok_def applyCopyRoutes_def)
qed (auto simp: setCopyTarget_ok, auto simp: registry_ok_def initialRegistry_def resetCopyRoutes_def applyExecutionAccountLayout_def
    applyExecutionConnectorCapabilities_def resetExecutionRegistry_def)

lemma applyExecutionAccounts_selects:
  fixes accounts st
  defines "st' \<equiv> applyExecutionAccounts accounts st"
  shows "rg_accounts st' \<noteq> [] \<Longrightarrow> selectedExecutionAccount st' \<noteq> None"
    and "a \<in> set (rg_accounts st') \<Longrightarrow> rg_selectedId st = Some (ac_id a) \<Longrightarrow> rg_selectedId st' = Some (ac_id a)"
proof -
  let ?n = "dedupeAccounts accounts"
  have acc: "rg_accounts st' = ?n" by (simp add: st'_def applyExecutionAccounts_def Let_def)
  have ne: "ac_id a \<noteq> []" if "a \<in> set ?n" for a
  proof
    assume "ac_id a = []"
    moreover have "js_trim (ac_id a) \<noteq> []" using dedupe_ok(2) [of accounts] that by (simp add: list_all_iff)
    ultimately show False by (simp add: js_trim_def)
  qed
  show "rg_selectedId st' = Some (ac_id a)" if "a \<in> set (rg_accounts st')" "rg_selectedId st = Some (ac_id a)"
    using that ne [of a] unfolding acc by (auto simp: st'_def applyExecutionAccounts_def sourceOf_def Let_def list_ex_iff)
  have ex: "find P xs \<noteq> None \<longleftrightarrow> (\<exists>x \<in> set xs. P x)" for P :: "execution_account \<Rightarrow> bool" and xs
    by (auto simp: find_None_iff)
  show "selectedExecutionAccount st' \<noteq> None" if some: "rg_accounts st' \<noteq> []"
  proof (cases "sourceOf st \<noteq> None \<and> list_ex (\<lambda>a. Some (ac_id a) = sourceOf st) ?n")
    case True
    then have "rg_selectedId st' = sourceOf st"
      by (auto simp: st'_def applyExecutionAccounts_def Let_def sourceOf_def split: option.splits if_splits)
    then show ?thesis using True unfolding selectedExecutionAccount_def acc ex by (auto simp: list_ex_iff)
  next
    case False
    have "\<exists>a \<in> set ?n. rg_selectedId st' = Some (ac_id a)"
    proof (cases "find (\<lambda>a. ac_status a = StReady) ?n")
      case (Some b)
      then have "b \<in> set ?n" by (auto simp: find_Some_iff)
      then show ?thesis using Some False by (auto simp: st'_def applyExecutionAccounts_def Let_def)
    next
      case None
      obtain b bs where "?n = b # bs" using some unfolding acc neq_Nil_conv by (elim exE)
      then show ?thesis using None False by (auto simp: st'_def applyExecutionAccounts_def Let_def)
    qed
    then show ?thesis unfolding selectedExecutionAccount_def acc ex by auto
  qed
qed

text \<open>
  C20.  Orders from the registry address accounts once.  In every state the registry's write atoms can reach, whatever
  accounts and stored routes arrived and however the user edited the drafts, a request built for the selected account from
  the store's own drafts lists that account first and then, each once, the other registered accounts with an enabled
  draft that are eligible; and an update of the accounts keeps a selection that is still registered and otherwise
  selects a registered account if there is one.
\<close>

theorem registry_orders_address_once:
  assumes "registry_run st" "selectedExecutionAccount st = Some a"
    and "buildExecutionOrderRequest numStr order a (copyTargets st) (rg_accounts st) = Inr w"
  shows "map tw_accountId (ow_targets w) = ac_id a #
      map ac_id (filter (\<lambda>b. ac_id b \<noteq> ac_id a \<and> av_eligible (copyTargetAvailability b)
        \<and> (case map_get (copyTargets st) (ac_id b) of Some t \<Rightarrow> ct_enabled t | None \<Rightarrow> False)) (rg_accounts st))
    \<and> distinct (map tw_accountId (ow_targets w))
    \<and> set (map tw_accountId (ow_targets w)) \<subseteq> ac_id ` set (rg_accounts st)
    \<and> (let st' = applyExecutionAccounts accounts st in
        (rg_accounts st' \<noteq> [] \<longrightarrow> selectedExecutionAccount st' \<noteq> None)
        \<and> (ac_id a \<in> ac_id ` set (rg_accounts st') \<longrightarrow> rg_selectedId st' = Some (ac_id a)))"
proof -
  have ok: "registry_ok st" using assms(1) by (rule registry_run_ok)
  have a: "a \<in> set (rg_accounts st)" "rg_selectedId st = Some (ac_id a)"
    using assms(2) by (auto simp: selectedExecutionAccount_def find_Some_iff)
  have "js_trim (ac_id a) \<noteq> []" using ok a(1) by (auto simp: registry_ok_def list_all_iff)
  then have "ac_id a \<noteq> []" by (auto simp: js_trim_def)
  then have "sourceOf st = Some (ac_id a)" using a(2) by (simp add: sourceOf_def)
  then have "keyedDrafts (copyTargets st)" by (rule copyTargets_keyed [OF ok])
  moreover have "distinct (map ac_id (rg_accounts st))" using ok by (simp add: registry_ok_def)
  ultimately have t: "map tw_accountId (ow_targets w) = ac_id a #
      map ac_id (filter (\<lambda>b. ac_id b \<noteq> ac_id a \<and> av_eligible (copyTargetAvailability b)
        \<and> (case map_get (copyTargets st) (ac_id b) of Some t \<Rightarrow> ct_enabled t | None \<Rightarrow> False)) (rg_accounts st))"
    "distinct (map tw_accountId (ow_targets w))"
    using order_request_targets [OF assms(3)] by blast+
  have "set (map tw_accountId (ow_targets w)) \<subseteq> ac_id ` set (rg_accounts st)" unfolding t(1) using a(1) by auto
  moreover have "rg_selectedId (applyExecutionAccounts accounts st) = Some (ac_id a)"
    if "ac_id a \<in> ac_id ` set (rg_accounts (applyExecutionAccounts accounts st))"
    using that
  proof
    fix b assume "ac_id a = ac_id b" "b \<in> set (rg_accounts (applyExecutionAccounts accounts st))"
    then show ?thesis using applyExecutionAccounts_selects(2) [of b accounts st] a(2) by simp
  qed
  ultimately show ?thesis
    using t applyExecutionAccounts_selects(1) [of accounts st] unfolding Let_def by (intro conjI impI)
qed

definition sampleRegistry :: registry_state where
  "sampleRegistry = applyCopyRoutes sampleRoutes (applyExecutionAccounts [sampleAccount ''a'', sampleAccount ''b''] initialRegistry)"

theorem registry_orders_address_once_witness:
  "\<exists>w. buildExecutionOrderRequest (\<lambda>_. []) sampleOrder (sampleAccount ''a'') (copyTargets sampleRegistry) (rg_accounts sampleRegistry) = Inr w
    \<and> distinct (map tw_accountId (ow_targets w))"
proof -
  have run: "registry_run sampleRegistry" unfolding sampleRegistry_def by (intro registry_run.intros)
  have acc: "rg_accounts sampleRegistry = [sampleAccount ''a'', sampleAccount ''b'']" "rg_selectedId sampleRegistry = Some ''a''"
    by (simp_all add: sampleRegistry_def applyCopyRoutes_def applyExecutionAccounts_def initialRegistry_def dedupeAccounts_def
        sampleAccount_def sourceOf_def Let_def js_trim_def js_space_def)
  have sel: "selectedExecutionAccount sampleRegistry = Some (sampleAccount ''a'')"
    by (simp add: selectedExecutionAccount_def acc sample_eligible)
  have "copyTargets sampleRegistry = [(''b'', (sampleDraft ''b'')\<lparr>ct_maxQuantity := None\<rparr>)]"
    by (simp add: copyTargets_def sourceOf_def acc) (simp add: sampleRegistry_def applyCopyRoutes_def sample_normalised)
  then have "\<exists>w. buildExecutionOrderRequest (\<lambda>_. []) sampleOrder (sampleAccount ''a'') (copyTargets sampleRegistry) (rg_accounts sampleRegistry) = Inr w"
    by (simp add: acc buildExecutionOrderRequest_def routedDrafts_def List.map_filter_simps sampleAccount_def sampleDraft_def
        copyTargetAvailability_def targetWire_def allocationWire_def optionalDecimal_def executionDecimal_def Let_def
        buildOrderWire_def sampleOrder_def)
  then obtain w where w: "buildExecutionOrderRequest (\<lambda>_. []) sampleOrder (sampleAccount ''a'') (copyTargets sampleRegistry) (rg_accounts sampleRegistry) = Inr w"
    by (elim exE)
  show ?thesis using w conjunct1 [OF conjunct2 [OF registry_orders_address_once [OF run sel w]]] by (intro exI [of _ w] conjI)
qed

end
