(* ===== verification/TaskTabs.thy ===== *)
theory TaskTabs
  imports AlertTargets
begin

section \<open>Chart task tabs and their synchronisation\<close>

text \<open>
  Models \<open>store/chartTaskTabsStore.ts\<close>, the document of chart task tabs and its edits, and
  \<open>services/api/chartTaskTabsSyncQueue.ts\<close>, the class that brings it to the backend.  A task's workspace is opaque: no
  modelled function looks into it, and \<open>newWorkspace\<close> and \<open>normalizeWorkspace\<close> stand for \<open>createTaskWorkspace\<close> and
  \<open>normalizePersistedChartWorkspaceLayout\<close> at the current selection.  Returning the same object when nothing changed is not
  observable on values.

  The queue's asynchronous \<open>drain\<close> is cut at its two \<open>await\<close>s: \<open>PutPhase\<close> while a document is being written and
  \<open>GetPhase\<close> while the server's document is fetched after a conflict.  The recovery storage and the requests sent are part of
  the state; the callbacks of \<open>events\<close> are logged and do not call back into the queue.
\<close>

subsection \<open>The document\<close>

record 'w chart_task =
  tk_id :: string
  tk_drawingContextId :: string
  tk_workspace :: 'w
  tk_activeLayoutId :: "string option"

record 'w tabs_document =
  td_revision :: jsnum
  td_activeTaskId :: string
  td_tasks :: "'w chart_task list"

datatype task_edge = TabBefore | TabAfter

definition MAX_CHART_TASKS :: nat where
  "MAX_CHART_TASKS = 12"

definition createInitialChartTaskTabs :: "'w \<Rightarrow> string \<Rightarrow> string \<Rightarrow> 'w tabs_document" where
  "createInitialChartTaskTabs newWorkspace taskId drawingContextId =
     \<lparr>td_revision = Fin 0, td_activeTaskId = taskId,
      td_tasks = [\<lparr>tk_id = taskId, tk_drawingContextId = drawingContextId, tk_workspace = newWorkspace, tk_activeLayoutId = None\<rparr>]\<rparr>"

text \<open>The default ids of the source.\<close>

definition initialChartTaskTabs :: "'w \<Rightarrow> 'w tabs_document" where
  "initialChartTaskTabs newWorkspace = createInitialChartTaskTabs newWorkspace ''chart-task-initial'' ''chart-task-scope-initial''"

definition normalizeTaskId :: "json \<Rightarrow> string" where
  "normalizeTaskId v =
     (case v of JStr s \<Rightarrow> (let i = js_trim s in if i \<noteq> [] \<and> length i \<le> 128 then i else []) | _ \<Rightarrow> [])"

fun normalizeTasks :: "(json \<Rightarrow> 'w option) \<Rightarrow> json list \<Rightarrow> 'w chart_task list \<Rightarrow> 'w chart_task list" where
  "normalizeTasks normalizeWorkspace [] tasks = tasks"
| "normalizeTasks normalizeWorkspace (candidate # rest) tasks =
     (if MAX_CHART_TASKS \<le> length tasks \<or> \<not> isRecord candidate then tasks
      else
        let i = normalizeTaskId (field candidate ''id'');
            c = normalizeTaskId (field candidate ''drawingContextId'')
        in case normalizeWorkspace (field candidate ''workspace'') of
             None \<Rightarrow> normalizeTasks normalizeWorkspace rest tasks
           | Some w \<Rightarrow>
               if i = [] \<or> c = [] \<or> i \<in> tk_id ` set tasks \<or> c \<in> tk_drawingContextId ` set tasks
               then normalizeTasks normalizeWorkspace rest tasks
               else normalizeTasks normalizeWorkspace rest
                 (tasks @ [\<lparr>tk_id = i, tk_drawingContextId = c, tk_workspace = w,
                   tk_activeLayoutId = (let l = normalizeTaskId (field candidate ''activeLayoutId'') in if l = [] then None else Some l)\<rparr>]))"

definition normalizeChartTaskTabsDocument :: "(json \<Rightarrow> 'w option) \<Rightarrow> 'w \<Rightarrow> json \<Rightarrow> 'w tabs_document" where
  "normalizeChartTaskTabsDocument normalizeWorkspace newWorkspace v =
     (case (field v ''version'', field v ''tasks'') of
        (JNum n, JArr candidates) \<Rightarrow>
          if n \<noteq> Fin 1 then initialChartTaskTabs newWorkspace
          else
            (case normalizeTasks normalizeWorkspace candidates [] of
               [] \<Rightarrow> initialChartTaskTabs newWorkspace
             | t # ts \<Rightarrow>
                 let requestedActive = normalizeTaskId (field v ''activeTaskId'')
                 in \<lparr>td_revision = (case field v ''revision'' of
                        JNum r \<Rightarrow> if js_integral r \<and> js_le (Fin 0) r then r else Fin 0
                      | _ \<Rightarrow> Fin 0),
                     td_activeTaskId = (if requestedActive \<in> tk_id ` set (t # ts) then requestedActive else tk_id t),
                     td_tasks = t # ts\<rparr>)
      | _ \<Rightarrow> initialChartTaskTabs newWorkspace)"

definition addChartTask :: "'w \<Rightarrow> string \<Rightarrow> string \<Rightarrow> 'w tabs_document \<Rightarrow> 'w tabs_document" where
  "addChartTask newWorkspace requestedId requestedContext d =
     (let taskId = normalizeTaskId (JStr requestedId); drawingContextId = normalizeTaskId (JStr requestedContext)
      in if MAX_CHART_TASKS \<le> length (td_tasks d) \<or> taskId = [] \<or> drawingContextId = []
            \<or> list_ex (\<lambda>t. tk_id t = taskId \<or> tk_drawingContextId t = drawingContextId) (td_tasks d)
         then d
         else
           let task = \<lparr>tk_id = taskId, tk_drawingContextId = drawingContextId, tk_workspace = newWorkspace, tk_activeLayoutId = None\<rparr>
           in d\<lparr>td_activeTaskId := taskId,
                td_tasks := (if list_ex (\<lambda>t. tk_id t = td_activeTaskId d) (td_tasks d)
                  then insert_next_to True (\<lambda>t. tk_id t = td_activeTaskId d) task (td_tasks d)
                  else td_tasks d @ [task])\<rparr>)"

definition activateChartTask :: "string \<Rightarrow> 'w tabs_document \<Rightarrow> 'w tabs_document" where
  "activateChartTask taskId d =
     (if taskId = td_activeTaskId d \<or> \<not> list_ex (\<lambda>t. tk_id t = taskId) (td_tasks d) then d else d\<lparr>td_activeTaskId := taskId\<rparr>)"

definition taskIndex :: "string \<Rightarrow> 'w chart_task list \<Rightarrow> nat" where
  "taskIndex i ts = length (takeWhile (\<lambda>t. tk_id t \<noteq> i) ts)"

definition updateChartTask :: "string \<Rightarrow> 'w \<Rightarrow> string option \<Rightarrow> 'w tabs_document \<Rightarrow> 'w tabs_document" where
  "updateChartTask taskId workspace activeLayoutId d =
     (let index = taskIndex taskId (td_tasks d)
      in if length (td_tasks d) \<le> index then d
         else d\<lparr>td_tasks := (td_tasks d)[index := (td_tasks d ! index)\<lparr>tk_workspace := workspace, tk_activeLayoutId := activeLayoutId\<rparr>]\<rparr>)"

text \<open>\<open>None\<close> is the exception of reading the id of a task that is not there.\<close>

definition closeChartTask :: "string \<Rightarrow> 'w tabs_document \<Rightarrow> 'w tabs_document option" where
  "closeChartTask taskId d =
     (let index = taskIndex taskId (td_tasks d)
      in if length (td_tasks d) \<le> 1 \<or> length (td_tasks d) \<le> index then Some d
         else
           let tasks = filter (\<lambda>t. tk_id t \<noteq> taskId) (td_tasks d)
           in if td_activeTaskId d \<noteq> taskId then Some (d\<lparr>td_tasks := tasks\<rparr>)
              else if index < length tasks then Some (d\<lparr>td_activeTaskId := tk_id (tasks ! index), td_tasks := tasks\<rparr>)
              else if 0 < index \<and> index - 1 < length tasks then Some (d\<lparr>td_activeTaskId := tk_id (tasks ! (index - 1)), td_tasks := tasks\<rparr>)
              else None)"

definition moveChartTask :: "string \<Rightarrow> string \<Rightarrow> task_edge \<Rightarrow> 'w tabs_document \<Rightarrow> 'w tabs_document" where
  "moveChartTask sourceId targetId edge d =
     (let sourceIndex = taskIndex sourceId (td_tasks d)
      in if sourceId = targetId \<or> length (td_tasks d) \<le> sourceIndex \<or> length (td_tasks d) \<le> taskIndex targetId (td_tasks d) then d
         else
           let tasks = take sourceIndex (td_tasks d) @ drop (sourceIndex + 1) (td_tasks d)
           in d\<lparr>td_tasks := insert_next_to (edge = TabAfter) (\<lambda>t. tk_id t = targetId) (td_tasks d ! sourceIndex) tasks\<rparr>)"

definition chartTaskDropEdge :: "jsnum \<Rightarrow> jsnum \<Rightarrow> jsnum \<Rightarrow> task_edge" where
  "chartTaskDropEdge pointerX targetLeft targetWidth =
     (if js_lt pointerX (js_add targetLeft (js_div targetWidth (Fin 2))) then TabBefore else TabAfter)"

subsection \<open>The synchronisation queue\<close>

datatype 'w drain_phase =
    PutPhase string "'w tabs_document"
  | GetPhase string "'w tabs_document"

datatype 'w sync_log =
    Acknowledged "'w tabs_document"
  | ConflictedWith "'w tabs_document" "'w tabs_document"
  | SyncFailed

text \<open>A request that was sent: the user of the session then, the owner of the document, the expected revision and the document.\<close>

record 'w sent_put =
  sp_session :: "string option"
  sp_owner :: string
  sp_expectedRevision :: jsnum
  sp_document :: "'w tabs_document"

record 'w tabs_queue =
  tq_timer :: bool
  tq_pending :: "(string \<times> 'w tabs_document) option"
  tq_draining :: "(nat \<times> 'w drain_phase) option"
  tq_uid :: "string option"
  tq_revision :: "jsnum option"
  tq_generation :: nat
  tq_savedPending :: "(string, 'w tabs_document) js_map"
  tq_savedConflict :: "(string, 'w tabs_document) js_map"
  tq_log :: "'w sync_log list"
  tq_sent :: "'w sent_put list"

definition newTabsQueue :: "(string, 'w tabs_document) js_map \<Rightarrow> (string, 'w tabs_document) js_map \<Rightarrow> 'w tabs_queue" where
  "newTabsQueue savedPending savedConflict = \<lparr>tq_timer = False, tq_pending = None, tq_draining = None, tq_uid = None,
     tq_revision = None, tq_generation = 0, tq_savedPending = savedPending, tq_savedConflict = savedConflict, tq_log = [], tq_sent = []\<rparr>"

definition scheduleTabs :: "'w tabs_queue \<Rightarrow> 'w tabs_queue" where
  "scheduleTabs q = q\<lparr>tq_timer := True\<rparr>"

definition savePending :: "string \<Rightarrow> 'w tabs_document \<Rightarrow> 'w tabs_queue \<Rightarrow> 'w tabs_queue" where
  "savePending u d q = q\<lparr>tq_savedPending := map_set u d (tq_savedPending q)\<rparr>"

definition clearPending :: "string \<Rightarrow> 'w tabs_queue \<Rightarrow> 'w tabs_queue" where
  "clearPending u q = q\<lparr>tq_savedPending := map_delete u (tq_savedPending q)\<rparr>"

definition nonEmpty :: "string option \<Rightarrow> bool" where
  "nonEmpty s = (case s of Some t \<Rightarrow> t \<noteq> [] | None \<Rightarrow> False)"

definition resetTabs :: "string option \<Rightarrow> 'w tabs_queue \<Rightarrow> 'w tabs_queue" where
  "resetTabs requested q =
     (let recoveryUid = (case requested of Some u \<Rightarrow> Some u | None \<Rightarrow> tq_uid q);
          q1 = q\<lparr>tq_generation := tq_generation q + 1, tq_timer := False, tq_pending := None, tq_uid := None, tq_revision := None\<rparr>
      in if nonEmpty recoveryUid then clearPending (the recoveryUid) q1 else q1)"

definition enqueueTabs :: "string \<Rightarrow> 'w tabs_document \<Rightarrow> 'w tabs_queue \<Rightarrow> 'w tabs_queue" where
  "enqueueTabs u d q =
     (let q1 = (if nonEmpty (tq_uid q) \<and> tq_uid q \<noteq> Some u then resetTabs (tq_uid q) q else q);
          q2 = q1\<lparr>tq_uid := Some u, tq_revision := (case tq_revision q1 of None \<Rightarrow> Some (td_revision d) | r \<Rightarrow> r), tq_pending := Some (u, d)\<rparr>;
          q3 = savePending u d q2
      in if tq_draining q3 = None then scheduleTabs q3 else q3)"

text \<open>The end of \<open>drain\<close>, with the \<open>finally\<close> block \<open>flush\<close> has attached to it.\<close>

definition drainDone :: "nat \<Rightarrow> 'w tabs_queue \<Rightarrow> 'w tabs_queue" where
  "drainDone drainGeneration q =
     (let q1 = q\<lparr>tq_draining := None\<rparr>
      in if tq_pending q1 \<noteq> None \<and> tq_generation q1 \<noteq> drainGeneration then scheduleTabs q1 else q1)"

text \<open>The loop condition of \<open>drain\<close> and the loop body up to the call of \<open>put\<close>.\<close>

definition drainLoop :: "nat \<Rightarrow> 'w tabs_queue \<Rightarrow> 'w tabs_queue" where
  "drainLoop generation q =
     (case tq_pending q of
        Some (u, d) \<Rightarrow>
          if generation = tq_generation q then
            q\<lparr>tq_pending := None, tq_draining := Some (generation, PutPhase u d),
              tq_sent := tq_sent q @ [\<lparr>sp_session = tq_uid q, sp_owner = u,
                sp_expectedRevision = (case tq_revision q of Some r \<Rightarrow> r | None \<Rightarrow> td_revision d), sp_document = d\<rparr>]\<rparr>
          else drainDone generation q
      | None \<Rightarrow> drainDone generation q)"

definition flushTabs :: "'w tabs_queue \<Rightarrow> 'w tabs_queue" where
  "flushTabs q =
     (let q1 = q\<lparr>tq_timer := False\<rparr>
      in if tq_pending q1 = None \<and> tq_draining q1 = None then q1
         else if tq_draining q1 = None then drainLoop (tq_generation q1) q1 else q1)"

definition tabsTimer :: "'w tabs_queue \<Rightarrow> 'w tabs_queue" where
  "tabsTimer q = (if tq_timer q then flushTabs q else q)"

abbreviation staleDrain :: "nat \<Rightarrow> string \<Rightarrow> 'w tabs_queue \<Rightarrow> bool" where
  "staleDrain generation u q \<equiv> generation \<noteq> tq_generation q \<or> tq_uid q \<noteq> Some u"

definition logTabs :: "'w sync_log \<Rightarrow> 'w tabs_queue \<Rightarrow> 'w tabs_queue" where
  "logTabs e q = q\<lparr>tq_log := tq_log q @ [e]\<rparr>"

definition putSucceeds :: "'w tabs_document \<Rightarrow> 'w tabs_queue \<Rightarrow> 'w tabs_queue" where
  "putSucceeds saved q =
     (case tq_draining q of
        Some (generation, PutPhase u d) \<Rightarrow>
          if staleDrain generation u q then drainDone generation q
          else
            let q1 = q\<lparr>tq_revision := Some (td_revision saved)\<rparr>
            in drainLoop generation
                 (if tq_pending q1 = None then logTabs (Acknowledged saved) (clearPending u q1) else q1)
      | _ \<Rightarrow> q)"

definition putFails :: "bool \<Rightarrow> 'w tabs_queue \<Rightarrow> 'w tabs_queue" where
  "putFails conflict q =
     (case tq_draining q of
        Some (generation, PutPhase u d) \<Rightarrow>
          if staleDrain generation u q then drainDone generation q
          else
            let latest = (case tq_pending q of Some (_, p) \<Rightarrow> p | None \<Rightarrow> d)
            in if conflict then
                 q\<lparr>tq_pending := None, tq_savedConflict := map_set u latest (tq_savedConflict q),
                   tq_draining := Some (generation, GetPhase u latest)\<rparr>
               else drainDone generation (logTabs SyncFailed (savePending u latest (q\<lparr>tq_pending := Some (u, latest)\<rparr>)))
      | _ \<Rightarrow> q)"

definition getSucceeds :: "'w tabs_document \<Rightarrow> 'w tabs_queue \<Rightarrow> 'w tabs_queue" where
  "getSucceeds server q =
     (case tq_draining q of
        Some (generation, GetPhase u latest) \<Rightarrow>
          if staleDrain generation u q then drainDone generation q
          else drainDone generation
                 (logTabs (ConflictedWith server latest) (clearPending u (q\<lparr>tq_revision := Some (td_revision server)\<rparr>)))
      | _ \<Rightarrow> q)"

text \<open>This branch, unlike the others, does not ask whether the drain is stale.\<close>

definition getFails :: "'w tabs_queue \<Rightarrow> 'w tabs_queue" where
  "getFails q =
     (case tq_draining q of
        Some (generation, GetPhase u latest) \<Rightarrow>
          drainDone generation (logTabs SyncFailed (savePending u latest (q\<lparr>tq_pending := Some (u, latest)\<rparr>)))
      | _ \<Rightarrow> q)"

datatype 'w tabs_event =
    TabsEnqueue string "'w tabs_document"
  | TabsFlush
  | TabsTimer
  | TabsReset "string option"
  | TabsPutOk "'w tabs_document"
  | TabsPutFails bool
  | TabsGetOk "'w tabs_document"
  | TabsGetFails

fun tabsStep :: "'w tabs_event \<Rightarrow> 'w tabs_queue \<Rightarrow> 'w tabs_queue" where
  "tabsStep (TabsEnqueue u d) q = enqueueTabs u d q"
| "tabsStep TabsFlush q = flushTabs q"
| "tabsStep TabsTimer q = tabsTimer q"
| "tabsStep (TabsReset u) q = resetTabs u q"
| "tabsStep (TabsPutOk d) q = putSucceeds d q"
| "tabsStep (TabsPutFails c) q = putFails c q"
| "tabsStep (TabsGetOk d) q = getSucceeds d q"
| "tabsStep TabsGetFails q = getFails q"

subsection \<open>Document invariant\<close>

definition task_ok :: "'w chart_task \<Rightarrow> bool" where
  "task_ok t \<longleftrightarrow> tk_id t \<noteq> [] \<and> length (tk_id t) \<le> 128 \<and> tk_drawingContextId t \<noteq> [] \<and> length (tk_drawingContextId t) \<le> 128"

definition tasks_ok :: "'w chart_task list \<Rightarrow> bool" where
  "tasks_ok ts \<longleftrightarrow> length ts \<le> MAX_CHART_TASKS \<and> distinct (map tk_id ts) \<and> distinct (map tk_drawingContextId ts) \<and> list_all task_ok ts"

definition doc_ok :: "'w tabs_document \<Rightarrow> bool" where
  "doc_ok d \<longleftrightarrow> td_tasks d \<noteq> [] \<and> tasks_ok (td_tasks d) \<and> td_activeTaskId d \<in> tk_id ` set (td_tasks d)"

inductive doc_reach :: "(json \<Rightarrow> 'w option) \<Rightarrow> 'w tabs_document \<Rightarrow> bool" for normalizeWorkspace where
  reach_load: "doc_reach normalizeWorkspace (normalizeChartTaskTabsDocument normalizeWorkspace w v)"
| reach_add: "doc_reach normalizeWorkspace d \<Longrightarrow> doc_reach normalizeWorkspace (addChartTask w i c d)"
| reach_activate: "doc_reach normalizeWorkspace d \<Longrightarrow> doc_reach normalizeWorkspace (activateChartTask i d)"
| reach_update: "doc_reach normalizeWorkspace d \<Longrightarrow> doc_reach normalizeWorkspace (updateChartTask i w l d)"
| reach_close: "doc_reach normalizeWorkspace d \<Longrightarrow> closeChartTask i d = Some d' \<Longrightarrow> doc_reach normalizeWorkspace d'"
| reach_move: "doc_reach normalizeWorkspace d \<Longrightarrow> doc_reach normalizeWorkspace (moveChartTask i j edge d)"

lemma normalizeTaskId_ok: "normalizeTaskId v \<noteq> [] \<Longrightarrow> length (normalizeTaskId v) \<le> 128"
  by (auto simp: normalizeTaskId_def Let_def split: json.splits if_splits)

lemma normalizeTasks_ok: "tasks_ok ts \<Longrightarrow> tasks_ok (normalizeTasks nw cs ts)"
proof (induction nw cs ts rule: normalizeTasks.induct)
  case (2 nw candidate rest tasks)
  let ?i = "normalizeTaskId (field candidate ''id'')" and ?c = "normalizeTaskId (field candidate ''drawingContextId'')"
  show ?case
  proof (cases "MAX_CHART_TASKS \<le> length tasks \<or> \<not> isRecord candidate")
    case False
    show ?thesis
    proof (cases "nw (field candidate ''workspace'')")
      case None then show ?thesis using 2 False by (simp add: Let_def)
    next
      case (Some w)
      show ?thesis
      proof (cases "?i = [] \<or> ?c = [] \<or> ?i \<in> tk_id ` set tasks \<or> ?c \<in> tk_drawingContextId ` set tasks")
        case True then show ?thesis using 2(2) [OF False refl refl Some True] 2(4) False Some by (simp add: Let_def)
      next
        case new: False
        let ?t = "\<lparr>tk_id = ?i, tk_drawingContextId = ?c, tk_workspace = w,
          tk_activeLayoutId = (let l = normalizeTaskId (field candidate ''activeLayoutId'') in if l = [] then None else Some l)\<rparr>"
        have "tasks_ok (tasks @ [?t])"
          using 2(4) False new by (auto simp: tasks_ok_def task_ok_def normalizeTaskId_ok)
        then show ?thesis using 2(3) [OF False refl refl Some new] False Some new by (simp add: Let_def)
      qed
    qed
  qed (use 2(4) in simp)
qed simp

lemma initial_ok: "doc_ok (initialChartTaskTabs w)"
  by (simp add: doc_ok_def tasks_ok_def task_ok_def initialChartTaskTabs_def createInitialChartTaskTabs_def MAX_CHART_TASKS_def)

lemma normalizeDocument_ok: "doc_ok (normalizeChartTaskTabsDocument nw w v)"
proof -
  have ok: "tasks_ok (normalizeTasks nw cs [])" for cs by (rule normalizeTasks_ok) (simp add: tasks_ok_def)
  show ?thesis
  proof (cases "field v ''version''")
    case (JNum n)
    show ?thesis
    proof (cases "field v ''tasks''")
      case (JArr cs)
      show ?thesis
      proof (cases "normalizeTasks nw cs []")
        case (Cons t ts)
        then show ?thesis using JNum JArr initial_ok [of w] ok [of cs]
          by (auto simp: normalizeChartTaskTabsDocument_def Let_def doc_ok_def)
      qed (use JNum JArr in \<open>simp add: normalizeChartTaskTabsDocument_def initial_ok\<close>)
    qed (use JNum in \<open>simp_all add: normalizeChartTaskTabsDocument_def initial_ok\<close>)
  qed (simp_all add: normalizeChartTaskTabsDocument_def initial_ok)
qed

lemma taskIndex_split: "taskIndex i ts < length ts \<longleftrightarrow> (\<exists>us t vs. ts = us @ t # vs \<and> tk_id t = i \<and> i \<notin> tk_id ` set us \<and> taskIndex i ts = length us)"
proof
  assume a: "taskIndex i ts < length ts"
  define us where "us = takeWhile (\<lambda>t. tk_id t \<noteq> i) ts"
  obtain t vs where "dropWhile (\<lambda>t. tk_id t \<noteq> i) ts = t # vs"
    using a unfolding taskIndex_def by (metis append_Nil2 length_append list.exhaust nat_less_le takeWhile_dropWhile_id list.size(3) add_0_right)
  then have "ts = us @ t # vs" "tk_id t = i"
    unfolding us_def by (metis takeWhile_dropWhile_id, metis (full_types, lifting) dropWhile_eq_Cons_conv)
  moreover have "i \<notin> tk_id ` set us" unfolding us_def by (auto dest: set_takeWhileD)
  ultimately show "\<exists>us t vs. ts = us @ t # vs \<and> tk_id t = i \<and> i \<notin> tk_id ` set us \<and> taskIndex i ts = length us"
    by (auto simp: taskIndex_def us_def)
qed (auto simp: taskIndex_def takeWhile_append2)

lemma addChartTask_ok:
  assumes "doc_ok d"
  shows "doc_ok (addChartTask w i c d)"
proof (cases "addChartTask w i c d = d")
  case False
  define task where "task = \<lparr>tk_id = normalizeTaskId (JStr i), tk_drawingContextId = normalizeTaskId (JStr c), tk_workspace = w,
    tk_activeLayoutId = None\<rparr>"
  have act: "list_ex (\<lambda>t. tk_id t = td_activeTaskId d) (td_tasks d)" using assms by (auto simp: doc_ok_def list_ex_iff)
  have new: "length (td_tasks d) < MAX_CHART_TASKS" "tk_id task \<noteq> []" "tk_drawingContextId task \<noteq> []"
    "tk_id task \<notin> tk_id ` set (td_tasks d)" "tk_drawingContextId task \<notin> tk_drawingContextId ` set (td_tasks d)"
    and res: "addChartTask w i c d = d\<lparr>td_activeTaskId := tk_id task,
      td_tasks := insert_next_to True (\<lambda>t. tk_id t = td_activeTaskId d) task (td_tasks d)\<rparr>"
    using False act by (auto simp: addChartTask_def Let_def task_def list_ex_iff split: if_splits)
  have "task_ok task" using new(2,3) by (simp add: task_ok_def task_def normalizeTaskId_ok)
  moreover have "distinct (map f (insert_next_to True P task (td_tasks d)))"
    if "distinct (map f (td_tasks d))" "f task \<notin> f ` set (td_tasks d)" for f :: "_ \<Rightarrow> string" and P
  proof -
    have "distinct (insert_next_to True P task (td_tasks d))"
      using that by (intro distinct_insert_next_to) (auto simp: distinct_map)
    then show ?thesis using that by (auto simp: distinct_map)
  qed
  ultimately have "tasks_ok (insert_next_to True (\<lambda>t. tk_id t = td_activeTaskId d) task (td_tasks d))"
    using assms new by (simp add: doc_ok_def tasks_ok_def list_all_iff)
  moreover have "insert_next_to True (\<lambda>t. tk_id t = td_activeTaskId d) task (td_tasks d) \<noteq> []"
    by (metis insert_not_empty list.set(1) set_insert_next_to)
  ultimately show ?thesis unfolding res by (simp add: doc_ok_def)
qed (use assms in simp)

lemma updateChartTask_ok:
  assumes "doc_ok d"
  shows "doc_ok (updateChartTask i w l d)"
proof (cases "taskIndex i (td_tasks d) < length (td_tasks d)")
  case True
  let ?n = "taskIndex i (td_tasks d)"
  let ?t = "(td_tasks d ! ?n)\<lparr>tk_workspace := w, tk_activeLayoutId := l\<rparr>"
  have ids: "map tk_id ((td_tasks d)[?n := ?t]) = map tk_id (td_tasks d)"
    "map tk_drawingContextId ((td_tasks d)[?n := ?t]) = map tk_drawingContextId (td_tasks d)"
    using True by (simp_all add: map_update) (metis list_update_id nth_map)+
  have "list_all task_ok ((td_tasks d)[?n := ?t])"
  proof -
    have "task_ok (td_tasks d ! ?n)" using assms True by (simp add: doc_ok_def tasks_ok_def list_all_length)
    then have "task_ok ?t" by (simp add: task_ok_def)
    then show ?thesis using assms by (auto simp: doc_ok_def tasks_ok_def list_all_iff dest: set_update_subset_insert [THEN subsetD])
  qed
  moreover have "tk_id ` set ((td_tasks d)[?n := ?t]) = tk_id ` set (td_tasks d)" using ids(1) by (metis list.set_map)
  ultimately show ?thesis using assms ids True by (simp add: updateChartTask_def Let_def doc_ok_def tasks_ok_def)
qed (use assms in \<open>simp add: updateChartTask_def Let_def\<close>)

lemma others_differ: "distinct (map f (us @ t # vs)) \<Longrightarrow> x \<in> set (us @ vs) \<Longrightarrow> f x \<noteq> f t"
  by (induction us) (auto simp: image_iff)

lemma filter_others:
  assumes "distinct (map tk_id (us @ t # vs))" "tk_id t = i"
  shows "filter (\<lambda>t. tk_id t \<noteq> i) (us @ t # vs) = us @ vs"
proof -
  have "\<forall>x \<in> set (us @ vs). tk_id x \<noteq> i" 
  proof
    fix x assume "x \<in> set (us @ vs)"
    then show "tk_id x \<noteq> i" using others_differ [OF assms(1)] assms(2) by simp
  qed
  then have "filter (\<lambda>t. tk_id t \<noteq> i) (us @ vs) = us @ vs" unfolding filter_id_conv .
  then show ?thesis using assms(2) by simp
qed

lemma closeChartTask_split:
  assumes "doc_ok d" "td_tasks d = us @ t # vs" "us @ vs \<noteq> []"
  shows "closeChartTask (tk_id t) d = Some (d\<lparr>td_tasks := us @ vs, td_activeTaskId :=
    (if td_activeTaskId d \<noteq> tk_id t then td_activeTaskId d else if vs \<noteq> [] then tk_id (hd vs) else tk_id (last us))\<rparr>)"
proof -
  have d: "distinct (map tk_id (us @ t # vs))" using assms(1,2) by (simp add: doc_ok_def tasks_ok_def)
  then have "\<And>x. x \<in> set us \<Longrightarrow> tk_id x \<noteq> tk_id t" using others_differ by fastforce
  then have i: "taskIndex (tk_id t) (td_tasks d) = length us" by (simp add: taskIndex_def assms(2) takeWhile_append2)
  have f: "filter (\<lambda>x. tk_id x \<noteq> tk_id t) (td_tasks d) = us @ vs" unfolding assms(2) using d refl by (rule filter_others)
  have "1 < length (td_tasks d)" using assms(2,3) by (cases us; cases vs) auto
  moreover have "length us < length (td_tasks d)" by (simp add: assms(2))
  moreover have "(us @ vs) ! length us = hd vs" if "vs \<noteq> []" using that by (simp add: nth_append hd_conv_nth)
  moreover have "0 < length us \<and> (us @ vs) ! (length us - 1) = last us" if "vs = []"
    using that assms(3) by (simp add: last_conv_nth)
  ultimately show ?thesis unfolding closeChartTask_def Let_def i f by (cases "vs = []") auto
qed

lemma doc_ok_remove:
  assumes "doc_ok d" "td_tasks d = us @ t # vs" "us @ vs \<noteq> []" "a \<in> tk_id ` set (us @ vs)"
  shows "doc_ok (d\<lparr>td_tasks := us @ vs, td_activeTaskId := a\<rparr>)"
  using assms by (auto simp: doc_ok_def tasks_ok_def)

lemma closeChartTask_ok:
  assumes "doc_ok d" "closeChartTask i d = Some d'"
  shows "doc_ok d'"
proof (cases "length (td_tasks d) \<le> 1 \<or> length (td_tasks d) \<le> taskIndex i (td_tasks d)")
  case False
  then obtain us t vs where s: "td_tasks d = us @ t # vs" "tk_id t = i" using taskIndex_split [of i "td_tasks d"] by auto
  have ne: "us @ vs \<noteq> []" using False s(1) by (cases us; cases vs) auto
  have act: "td_activeTaskId d \<in> tk_id ` set (us @ t # vs)" using assms(1) s(1) by (simp add: doc_ok_def)
  have "(if td_activeTaskId d \<noteq> tk_id t then td_activeTaskId d else if vs \<noteq> [] then tk_id (hd vs) else tk_id (last us)) \<in> tk_id ` set (us @ vs)"
    using act ne by auto
  then show ?thesis
    using doc_ok_remove [OF assms(1) s(1) ne] closeChartTask_split [OF assms(1) s(1) ne] assms(2) s(2) by simp
qed (use assms in \<open>auto simp: closeChartTask_def Let_def\<close>)

lemma moveChartTask_split:
  assumes "doc_ok d" "i \<noteq> j" "i \<in> tk_id ` set (td_tasks d)" "j \<in> tk_id ` set (td_tasks d)"
  obtains us s vs xs t ys where "td_tasks d = us @ s # vs" "tk_id s = i" "us @ vs = xs @ t # ys" "tk_id t = j"
    "td_tasks (moveChartTask i j edge d) = xs @ (if edge = TabAfter then [t, s] else [s, t]) @ ys"
proof -
  have idx: "taskIndex k (td_tasks d) < length (td_tasks d)" if "k \<in> tk_id ` set (td_tasks d)" for k
  proof -
    obtain us t vs where "td_tasks d = us @ t # vs" "tk_id t = k" "\<forall>x \<in> set us. tk_id x \<noteq> k"
      using split_list_first_prop [of "td_tasks d" "\<lambda>t. tk_id t = k"] \<open>k \<in> _\<close> by auto
    then show ?thesis by (auto simp: taskIndex_def takeWhile_append2)
  qed
  obtain us s vs where s: "td_tasks d = us @ s # vs" "tk_id s = i" "taskIndex i (td_tasks d) = length us"
    using idx [OF assms(3)] taskIndex_split [of i "td_tasks d"] by blast
  have "\<exists>x \<in> set (us @ vs). tk_id x = j" using assms(2,4) s by auto
  then obtain xs t ys where t: "us @ vs = xs @ t # ys" "tk_id t = j"
    "insert_next_to (edge = TabAfter) (\<lambda>t. tk_id t = j) s (us @ vs) = xs @ (if edge = TabAfter then [t, s] else [s, t]) @ ys"
    by (rule insert_next_to_split)
  have "td_tasks (moveChartTask i j edge d) = insert_next_to (edge = TabAfter) (\<lambda>t. tk_id t = j) s (us @ vs)"
    using assms(2) idx [OF assms(3)] idx [OF assms(4)] s(3) by (simp add: moveChartTask_def Let_def) (simp add: s(1))
  then show thesis using that s(1,2) t by simp
qed

lemma moveChartTask_ok:
  assumes "doc_ok d"
  shows "doc_ok (moveChartTask i j edge d)" "mset (td_tasks (moveChartTask i j edge d)) = mset (td_tasks d)"
proof -
  have same: "moveChartTask i j edge d = d" if "\<not> (i \<noteq> j \<and> i \<in> tk_id ` set (td_tasks d) \<and> j \<in> tk_id ` set (td_tasks d))"
  proof -
    have "length ts \<le> taskIndex k ts" if "k \<notin> tk_id ` set ts" for k and ts :: "'a chart_task list"
      using that taskIndex_split [of k ts] by (auto simp: not_less [symmetric])
    then show ?thesis using that by (auto simp: moveChartTask_def Let_def)
  qed
  show m: "mset (td_tasks (moveChartTask i j edge d)) = mset (td_tasks d)"
  proof (cases "i \<noteq> j \<and> i \<in> tk_id ` set (td_tasks d) \<and> j \<in> tk_id ` set (td_tasks d)")
    case True
    then obtain us s vs xs t ys where "td_tasks d = us @ s # vs" "us @ vs = xs @ t # ys"
      "td_tasks (moveChartTask i j edge d) = xs @ (if edge = TabAfter then [t, s] else [s, t]) @ ys"
      using moveChartTask_split [OF assms] by metis
    moreover from this(2) have "mset us + mset vs = mset xs + add_mset t (mset ys)" by (metis mset.simps(2) mset_append)
    ultimately show ?thesis by simp
  qed (simp add: same)
  then have "set (td_tasks (moveChartTask i j edge d)) = set (td_tasks d)" "length (td_tasks (moveChartTask i j edge d)) = length (td_tasks d)"
    by (metis mset_eq_setD, metis mset_eq_length)
  moreover have "distinct (map f (td_tasks (moveChartTask i j edge d)))" if "distinct (map f (td_tasks d))" for f :: "_ \<Rightarrow> string"
  proof -
    have "mset (map f (td_tasks (moveChartTask i j edge d))) = mset (map f (td_tasks d))" using m by simp
    then show ?thesis using that by (metis mset_eq_imp_distinct_iff)
  qed
  moreover have "td_activeTaskId (moveChartTask i j edge d) = td_activeTaskId d" by (simp add: moveChartTask_def Let_def)
  ultimately have "tasks_ok (td_tasks (moveChartTask i j edge d))" "td_activeTaskId (moveChartTask i j edge d) \<in> tk_id ` set (td_tasks (moveChartTask i j edge d))"
    using assms by (simp_all add: doc_ok_def tasks_ok_def list_all_iff)
  then show "doc_ok (moveChartTask i j edge d)" by (auto simp: doc_ok_def)
qed

lemma activateChartTask_ok: "doc_ok d \<Longrightarrow> doc_ok (activateChartTask i d)"
  by (auto simp: activateChartTask_def doc_ok_def list_ex_iff)

lemma doc_reach_ok: "doc_reach nw d \<Longrightarrow> doc_ok d"
  by (induction rule: doc_reach.induct)
    (blast intro: normalizeDocument_ok addChartTask_ok activateChartTask_ok updateChartTask_ok closeChartTask_ok moveChartTask_ok)+

text \<open>
  C27.  Tab documents stay well formed.  Whatever document is loaded and however tabs are added, activated, updated, moved and
  closed, there is at least one and at most twelve tabs, their ids and drawing contexts are distinct, none of them is empty or longer
  than 128 characters, and the active tab exists; closing a tab never fails, removes exactly that tab, and when it was active activates its right neighbour, or
  the left one at the end; a move keeps the tabs and puts the moved one next to the target.
\<close>

theorem tabs_document_invariant:
  assumes "doc_reach normalizeWorkspace d"
  shows "td_tasks d \<noteq> [] \<and> length (td_tasks d) \<le> 12 \<and> distinct (map tk_id (td_tasks d)) \<and> distinct (map tk_drawingContextId (td_tasks d))
    \<and> (\<forall>t \<in> set (td_tasks d). tk_id t \<noteq> [] \<and> length (tk_id t) \<le> 128 \<and> tk_drawingContextId t \<noteq> [] \<and> length (tk_drawingContextId t) \<le> 128)
    \<and> td_activeTaskId d \<in> tk_id ` set (td_tasks d)
    \<and> (\<forall>i. closeChartTask i d \<noteq> None)
    \<and> (\<forall>us t vs. td_tasks d = us @ t # vs \<and> us @ vs \<noteq> [] \<longrightarrow>
        closeChartTask (tk_id t) d = Some (d\<lparr>td_tasks := us @ vs, td_activeTaskId :=
          (if td_activeTaskId d \<noteq> tk_id t then td_activeTaskId d else if vs \<noteq> [] then tk_id (hd vs) else tk_id (last us))\<rparr>))
    \<and> (\<forall>i j. mset (td_tasks (moveChartTask i j edge d)) = mset (td_tasks d))
    \<and> (\<forall>i j. i \<noteq> j \<and> i \<in> tk_id ` set (td_tasks d) \<and> j \<in> tk_id ` set (td_tasks d) \<longrightarrow>
        (\<exists>xs s t ys. tk_id s = i \<and> tk_id t = j
          \<and> td_tasks (moveChartTask i j edge d) = xs @ (if edge = TabAfter then [t, s] else [s, t]) @ ys))"
proof -
  have ok: "doc_ok d" using assms by (rule doc_reach_ok)
  have "closeChartTask i d \<noteq> None" for i
  proof (cases "length (td_tasks d) \<le> 1 \<or> length (td_tasks d) \<le> taskIndex i (td_tasks d)")
    case False
    then obtain us t vs where s: "td_tasks d = us @ t # vs" "tk_id t = i" using taskIndex_split [of i "td_tasks d"] by auto
    have "us @ vs \<noteq> []" using False s(1) by (cases us; cases vs) auto
    then show ?thesis using closeChartTask_split [OF ok s(1)] s(2) by simp
  qed (simp add: closeChartTask_def Let_def)
  moreover have "\<exists>xs s t ys. tk_id s = i \<and> tk_id t = j \<and> td_tasks (moveChartTask i j edge d) = xs @ (if edge = TabAfter then [t, s] else [s, t]) @ ys"
    if "i \<noteq> j" "i \<in> tk_id ` set (td_tasks d)" "j \<in> tk_id ` set (td_tasks d)" for i j
    using moveChartTask_split [OF ok that] by metis
  ultimately show ?thesis
    using ok closeChartTask_split [OF ok] moveChartTask_ok(2) [OF ok]
    by (simp add: doc_ok_def tasks_ok_def task_ok_def list_all_iff MAX_CHART_TASKS_def)
qed

theorem tabs_document_invariant_witness:
  "td_tasks (addChartTask () ''b'' ''y'' (normalizeChartTaskTabsDocument (\<lambda>_. Some ()) () JNull)) \<noteq> []"
proof -
  have "doc_reach (\<lambda>_. Some ()) (addChartTask () ''b'' ''y'' (normalizeChartTaskTabsDocument (\<lambda>_. Some ()) () JNull))"
    by (intro doc_reach.intros)
  from conjunct1 [OF tabs_document_invariant [OF this]] show ?thesis .
qed

subsection \<open>Synchronisation\<close>

text \<open>
  An event is calm when it does not change what is queued while the server's document is being fetched after a conflict; user
  ids are not empty.
\<close>

definition refreshing :: "'w tabs_queue \<Rightarrow> bool" where
  "refreshing q = (case tq_draining q of Some (_, GetPhase _ _) \<Rightarrow> True | _ \<Rightarrow> False)"

fun calm :: "'w tabs_event \<Rightarrow> 'w tabs_queue \<Rightarrow> bool" where
  "calm (TabsEnqueue u d) q = (u \<noteq> [] \<and> \<not> refreshing q)"
| "calm (TabsReset u) q = (\<not> refreshing q)"
| "calm _ q = True"

inductive tabs_run :: "'w tabs_queue \<Rightarrow> bool" where
  tabs_new: "tabs_run (newTabsQueue savedPending savedConflict)"
| tabs_step: "tabs_run q \<Longrightarrow> calm e q \<Longrightarrow> tabs_run (tabsStep e q)"

definition pending_inv :: "'w tabs_queue \<Rightarrow> bool" where
  "pending_inv q \<longleftrightarrow> tq_uid q \<noteq> Some [] \<and>
     (case tq_pending q of
        Some (u, d) \<Rightarrow> tq_uid q = Some u \<and> map_get (tq_savedPending q) u = Some d
          \<and> (tq_timer q \<or> tq_draining q \<noteq> None \<or> (tq_log q \<noteq> [] \<and> last (tq_log q) = SyncFailed))
      | None \<Rightarrow> True)"

definition drain_inv :: "'w tabs_queue \<Rightarrow> bool" where
  "drain_inv q \<longleftrightarrow>
     (case tq_draining q of
        None \<Rightarrow> True
      | Some (g, PutPhase u d) \<Rightarrow> g \<le> tq_generation q \<and> (g = tq_generation q \<longrightarrow>
          tq_uid q = Some u \<and> (tq_pending q = None \<longrightarrow> map_get (tq_savedPending q) u = Some d))
      | Some (g, GetPhase u l) \<Rightarrow> g = tq_generation q \<and> tq_uid q = Some u \<and> tq_pending q = None
          \<and> map_get (tq_savedPending q) u = Some l \<and> map_get (tq_savedConflict q) u = Some l)"

definition sent_inv :: "'w tabs_queue \<Rightarrow> bool" where
  "sent_inv q \<longleftrightarrow> list_all (\<lambda>s. sp_session s = Some (sp_owner s)) (tq_sent q)"

definition tabs_inv :: "'w tabs_queue \<Rightarrow> bool" where
  "tabs_inv q \<longleftrightarrow> pending_inv q \<and> drain_inv q \<and> sent_inv q"

lemmas tabs_inv_defs = tabs_inv_def pending_inv_def drain_inv_def sent_inv_def

lemmas queue_ops = scheduleTabs_def savePending_def clearPending_def logTabs_def update_conv' delete_conv'

lemma reset_inv:
  assumes "tabs_inv q" "\<not> refreshing q"
  shows "tabs_inv (resetTabs u q)"
  using assms
  by (auto simp: tabs_inv_defs resetTabs_def refreshing_def Let_def queue_ops nonEmpty_def
      split: option.splits prod.splits drain_phase.splits)

lemma enqueue_inv_same:
  assumes "tabs_inv q" "\<not> refreshing q" "u \<noteq> []" "tq_uid q = None \<or> tq_uid q = Some u"
  shows "tabs_inv (enqueueTabs u d q)"
  using assms
  by (auto simp: tabs_inv_defs enqueueTabs_def refreshing_def Let_def queue_ops nonEmpty_def
      split: option.splits prod.splits drain_phase.splits)

lemma enqueue_inv:
  assumes "tabs_inv q" "\<not> refreshing q" "u \<noteq> []"
  shows "tabs_inv (enqueueTabs u d q)"
proof (cases "tq_uid q = None \<or> tq_uid q = Some u")
  case False
  then obtain v where v: "tq_uid q = Some v" "v \<noteq> u" "v \<noteq> []" using assms(1) by (auto simp: tabs_inv_defs)
  let ?r = "resetTabs (tq_uid q) q"
  have "tq_uid ?r = None" "tq_draining ?r = tq_draining q"
    by (simp_all add: resetTabs_def Let_def clearPending_def)
  moreover have "enqueueTabs u d q = enqueueTabs u d ?r"
    using v calculation by (simp add: enqueueTabs_def nonEmpty_def Let_def)
  moreover have "\<not> refreshing ?r" using assms(2) calculation by (simp add: refreshing_def)
  ultimately show ?thesis using enqueue_inv_same [OF reset_inv [OF assms(1,2)] _ assms(3)] by simp
qed (use assms enqueue_inv_same in blast)

text \<open>While a drain is between its await and the next one, only the pending document and the log matter.\<close>

lemma drainDone_inv:
  assumes "tq_uid q \<noteq> Some []" "sent_inv q"
    and "\<And>u d. tq_pending q = Some (u, d) \<Longrightarrow> tq_uid q = Some u \<and> map_get (tq_savedPending q) u = Some d
           \<and> (tq_generation q \<noteq> g \<or> (tq_log q \<noteq> [] \<and> last (tq_log q) = SyncFailed))"
  shows "tabs_inv (drainDone g q)"
  using assms
  by (auto simp: tabs_inv_defs drainDone_def Let_def scheduleTabs_def split: option.splits)

lemma drainLoop_inv:
  assumes "tq_uid q \<noteq> Some []" "sent_inv q"
    and "\<And>u d. tq_pending q = Some (u, d) \<Longrightarrow> tq_uid q = Some u \<and> map_get (tq_savedPending q) u = Some d"
  shows "tabs_inv (drainLoop g q)"
proof (cases "tq_pending q \<noteq> None \<and> g = tq_generation q")
  case True
  then obtain u d where "tq_pending q = Some (u, d)" by auto
  then show ?thesis using assms True by (auto simp: tabs_inv_defs drainLoop_def)
next
  case False
  then have "drainLoop g q = drainDone g q" by (auto simp: drainLoop_def split: option.splits)
  then show ?thesis using assms False by (auto intro!: drainDone_inv)
qed

lemma pendingD: "tabs_inv q \<Longrightarrow> tq_pending q = Some (u, d) \<Longrightarrow> tq_uid q = Some u \<and> map_get (tq_savedPending q) u = Some d"
  by (auto simp: tabs_inv_defs)

lemma flush_inv:
  assumes "tabs_inv q"
  shows "tabs_inv (flushTabs q)"
proof (cases "tq_draining q = None")
  case True
  have "tabs_inv (drainLoop g (q\<lparr>tq_timer := False\<rparr>))" if "tq_pending q \<noteq> None" for g
    by (rule drainLoop_inv) (use assms pendingD [OF assms] in \<open>auto simp: tabs_inv_def pending_inv_def sent_inv_def\<close>)
  moreover have "tabs_inv (q\<lparr>tq_timer := False\<rparr>)" if "tq_pending q = None" using assms True that by (auto simp: tabs_inv_defs)
  ultimately show ?thesis using True by (simp add: flushTabs_def Let_def)
next
  case False
  then have "flushTabs q = q\<lparr>tq_timer := False\<rparr>" unfolding flushTabs_def Let_def by (cases "tq_draining q") simp_all
  moreover have "pending_inv (q\<lparr>tq_timer := False\<rparr>)" using assms False by (auto simp: tabs_inv_def pending_inv_def split: option.splits)
  ultimately show ?thesis using assms
    by (simp add: tabs_inv_def drain_inv_def sent_inv_def cong: option.case_cong prod.case_cong drain_phase.case_cong)
qed

lemma putSucceeds_inv:
  assumes "tabs_inv q"
  shows "tabs_inv (putSucceeds saved q)"
proof (cases "tq_draining q")
  case (Some a)
  obtain g ph where a: "a = (g, ph)" by (cases a)
  show ?thesis
  proof (cases ph)
    case (PutPhase u d)
    have stale: "staleDrain g u q \<longleftrightarrow> g \<noteq> tq_generation q" using assms Some a PutPhase by (auto simp: tabs_inv_defs)
    show ?thesis
    proof (cases "g = tq_generation q")
      case True
      let ?q = "if tq_pending q = None then logTabs (Acknowledged saved) (clearPending u (q\<lparr>tq_revision := Some (td_revision saved)\<rparr>))
        else q\<lparr>tq_revision := Some (td_revision saved)\<rparr>"
      have "tabs_inv (drainLoop g ?q)"
        by (rule drainLoop_inv) (use assms pendingD [OF assms] in
          \<open>auto simp: tabs_inv_def pending_inv_def sent_inv_def logTabs_def clearPending_def split: if_splits\<close>)
      then show ?thesis using Some a PutPhase True stale by (simp add: putSucceeds_def Let_def)
    next
      case False
      have "tabs_inv (drainDone g q)"
        by (rule drainDone_inv) (use assms pendingD [OF assms] False in \<open>auto simp: tabs_inv_def pending_inv_def\<close>)
      then show ?thesis using Some a PutPhase False by (simp add: putSucceeds_def)
    qed
  qed (use assms Some a in \<open>simp add: putSucceeds_def\<close>)
qed (use assms in \<open>simp add: putSucceeds_def\<close>)

lemma putFails_inv:
  assumes "tabs_inv q"
  shows "tabs_inv (putFails conflict q)"
proof (cases "tq_draining q")
  case (Some a)
  obtain g ph where a: "a = (g, ph)" by (cases a)
  show ?thesis
  proof (cases ph)
    case (PutPhase u d)
    have stale: "staleDrain g u q \<longleftrightarrow> g \<noteq> tq_generation q" using assms Some a PutPhase by (auto simp: tabs_inv_defs)
    show ?thesis
    proof (cases "g = tq_generation q")
      case True
      define l where "l = (case tq_pending q of Some (_, p) \<Rightarrow> p | None \<Rightarrow> d)"
      have u: "tq_uid q = Some u" "map_get (tq_savedPending q) u = Some l"
        using assms Some a PutPhase True by (auto simp: tabs_inv_defs l_def split: option.splits)
      have "tabs_inv (drainDone g (logTabs SyncFailed (savePending u l (q\<lparr>tq_pending := Some (u, l)\<rparr>))))"
        by (rule drainDone_inv) (use assms u in \<open>auto simp: tabs_inv_def pending_inv_def sent_inv_def queue_ops\<close>)
      moreover have "tabs_inv (q\<lparr>tq_pending := None, tq_savedConflict := map_set u l (tq_savedConflict q), tq_draining := Some (g, GetPhase u l)\<rparr>)"
        using assms u True by (auto simp: tabs_inv_defs update_conv')
      ultimately show ?thesis using Some a PutPhase True stale by (simp add: putFails_def Let_def l_def)
    next
      case False
      have "tabs_inv (drainDone g q)"
        by (rule drainDone_inv) (use assms pendingD [OF assms] False in \<open>auto simp: tabs_inv_def pending_inv_def\<close>)
      then show ?thesis using Some a PutPhase False by (simp add: putFails_def)
    qed
  qed (use assms Some a in \<open>simp add: putFails_def\<close>)
qed (use assms in \<open>simp add: putFails_def\<close>)

lemma get_inv:
  assumes "tabs_inv q"
  shows "tabs_inv (getSucceeds server q)" "tabs_inv (getFails q)"
proof -
  have "tabs_inv (getSucceeds server q) \<and> tabs_inv (getFails q)"
  proof (cases "refreshing q")
    case True
    then obtain g u l where d: "tq_draining q = Some (g, GetPhase u l)"
      unfolding refreshing_def by (cases "tq_draining q"; cases "snd (the (tq_draining q))") (auto simp: prod_eq_iff)
    then have i: "g = tq_generation q" "tq_uid q = Some u" "tq_pending q = None" using assms by (auto simp: tabs_inv_defs)
    have "tabs_inv (drainDone g (logTabs (ConflictedWith server l) (clearPending u (q\<lparr>tq_revision := Some (td_revision server)\<rparr>))))"
      by (rule drainDone_inv) (use assms i in \<open>auto simp: tabs_inv_def pending_inv_def sent_inv_def logTabs_def clearPending_def\<close>)
    moreover have "tabs_inv (drainDone g (logTabs SyncFailed (savePending u l (q\<lparr>tq_pending := Some (u, l)\<rparr>))))"
      by (rule drainDone_inv) (use assms i in \<open>auto simp: tabs_inv_def pending_inv_def sent_inv_def queue_ops\<close>)
    ultimately show ?thesis using d i by (simp add: getSucceeds_def getFails_def)
  qed (use assms in \<open>auto simp: refreshing_def getSucceeds_def getFails_def split: option.splits drain_phase.splits\<close>)
  then show "tabs_inv (getSucceeds server q)" "tabs_inv (getFails q)" by blast+
qed

lemma tabs_run_inv: "tabs_run q \<Longrightarrow> tabs_inv q"
proof (induction rule: tabs_run.induct)
  case (tabs_step q e)
  then show ?case
    by (cases e) (simp_all add: enqueue_inv flush_inv tabsTimer_def reset_inv putSucceeds_inv putFails_inv get_inv)
qed (simp add: newTabsQueue_def tabs_inv_defs)

text \<open>
  C24.  Tab edits are not lost and stay with their user.  As long as nothing is edited or reset while a conflict is being resolved, in every
  interleaving each request carries a document of the user whose session it is sent in; the newest unsent document is
  held in the recovery storage, and it has a timer, a running drain, or a failure was reported last; while a document is being
  written without a newer one, it is still in the recovery storage.
\<close>

theorem tabs_sync_safe:
  assumes "tabs_run q"
  shows "list_all (\<lambda>s. sp_session s = Some (sp_owner s)) (tq_sent q)
    \<and> (\<forall>u d. tq_pending q = Some (u, d) \<longrightarrow> tq_uid q = Some u \<and> map_get (tq_savedPending q) u = Some d
        \<and> (tq_timer q \<or> tq_draining q \<noteq> None \<or> (tq_log q \<noteq> [] \<and> last (tq_log q) = SyncFailed)))
    \<and> (\<forall>u d. tq_draining q = Some (tq_generation q, PutPhase u d) \<and> tq_pending q = None \<longrightarrow> map_get (tq_savedPending q) u = Some d)"
  using tabs_run_inv [OF assms] by (auto simp: tabs_inv_defs)

theorem tabs_sync_safe_witness:
  "list_all (\<lambda>s. sp_session s = Some (sp_owner s))
     (tq_sent (tabsStep TabsTimer (tabsStep (TabsEnqueue ''u'' (initialChartTaskTabs ())) (newTabsQueue [] []))))"
proof -
  let ?q = "tabsStep (TabsEnqueue ''u'' (initialChartTaskTabs ())) (newTabsQueue [] [])"
  have "tabs_run ?q" by (intro tabs_step tabs_new) (simp add: newTabsQueue_def refreshing_def)
  then have "tabs_run (tabsStep TabsTimer ?q)" by (rule tabs_step) simp
  from conjunct1 [OF tabs_sync_safe [OF this]] show ?thesis .
qed

text \<open>
  Without that restriction the three promises fail.  A drain that resolves a conflict for user \<open>a\<close>:
\<close>

definition conflicting :: "'w tabs_document \<Rightarrow> 'w tabs_queue" where
  "conflicting d = foldl (\<lambda>q e. tabsStep e q) (newTabsQueue [] []) [TabsEnqueue ''a'' d, TabsTimer, TabsPutFails True]"

lemma conflicting_eval:
  "conflicting d = \<lparr>tq_timer = False, tq_pending = None, tq_draining = Some (0, GetPhase ''a'' d), tq_uid = Some ''a'',
     tq_revision = Some (td_revision d), tq_generation = 0, tq_savedPending = [(''a'', d)], tq_savedConflict = [(''a'', d)],
     tq_log = [], tq_sent = [\<lparr>sp_session = Some ''a'', sp_owner = ''a'', sp_expectedRevision = td_revision d, sp_document = d\<rparr>]\<rparr>"
  by (simp add: conflicting_def newTabsQueue_def enqueueTabs_def tabsTimer_def flushTabs_def drainLoop_def putFails_def queue_ops Let_def nonEmpty_def)

text \<open>
  C29.  A failed refresh after a conflict is not guarded by the generation.  When another user's document is queued while the
  server's document of user \<open>a\<close> is being fetched and the fetch fails, user \<open>a\<close>'s document takes its place in the queue,
  is scheduled, and is sent in the session of user \<open>b\<close>.  When user \<open>a\<close> edits again during the fetch, a failure replaces
  the edit by the older document in the queue and in the recovery storage, and a success removes the edit's recovery copy and leaves
  it pending with neither a timer nor a drain.
\<close>

theorem refresh_not_guarded:
  "(let q = foldl (\<lambda>q e. tabsStep e q) (conflicting d) [TabsEnqueue ''b'' d', TabsGetFails, TabsTimer];
        s = last (tq_sent q)
    in tq_pending q = None \<and> sp_session s = Some ''b'' \<and> sp_owner s = ''a'' \<and> sp_document s = d)
   \<and> (let q = foldl (\<lambda>q e. tabsStep e q) (conflicting d) [TabsEnqueue ''a'' d', TabsGetFails]
       in tq_pending q = Some (''a'', d) \<and> map_get (tq_savedPending q) ''a'' = Some d)
   \<and> (let q = foldl (\<lambda>q e. tabsStep e q) (conflicting d) [TabsEnqueue ''a'' d', TabsGetOk server]
       in tq_pending q = Some (''a'', d') \<and> map_get (tq_savedPending q) ''a'' = None \<and> \<not> tq_timer q \<and> tq_draining q = None)"
  by (simp add: conflicting_eval enqueueTabs_def resetTabs_def getFails_def getSucceeds_def drainDone_def tabsTimer_def flushTabs_def
      drainLoop_def queue_ops Let_def nonEmpty_def)

end
