(* ===== verification/WatchlistLayout.thy ===== *)
theory WatchlistLayout
  imports AlertTargets
begin

section \<open>Watchlist layout\<close>

text \<open>
  Models \<open>store/watchlistLayout.ts\<close> and \<open>store/watchlistSort.ts\<close>: a watchlist is a list of symbols with section headers, each at
  an insertion index, and every drag of a symbol or a header is computed on a token list in which headers and symbols alternate.
  Indices of sections are natural numbers: every writer stores a result of \<open>clampSectionIndex\<close>.  Returning the same object when
  nothing changed is not observable on values.  \<open>String.localeCompare\<close> is the argument \<open>cmp\<close>.

  The lemmas relate each operation to an edit of \<open>layout\<close>, the list of headers and symbols as the user sees it.
\<close>

subsection \<open>Definitions\<close>

text \<open>
  \<open>String.prototype.toUpperCase\<close> on the Latin-1 range, without the two letters whose capitals lie outside it.
\<close>

definition js_upperChar :: "char \<Rightarrow> string" where
  "js_upperChar c =
     (let n = of_char c :: nat
      in if n = 223 then ''SS''
         else if 97 \<le> n \<and> n \<le> 122 \<or> 224 \<le> n \<and> n \<le> 254 \<and> n \<noteq> 247 then [char_of (n - 32)] else [c])"

definition js_upper :: "string \<Rightarrow> string" where
  "js_upper s = concat (map js_upperChar s)"

abbreviation numOf :: "nat \<Rightarrow> jsnum" where
  "numOf n \<equiv> Fin (of_nat n)"

datatype sort_by = Manual | BySymbol | ByPrice | ByChange | ByChangeAbs | ByVolume
datatype sort_dir = Asc | Desc

record wl_section =
  ws_id :: string
  ws_title :: string
  ws_index :: nat

record watchlist =
  wl_id :: string
  wl_name :: string
  wl_symbols :: "string list"
  wl_sections :: "wl_section list"
  wl_shared :: bool
  wl_sortKey :: sort_by
  wl_sortDir :: sort_dir

datatype insert_mode = BeforeSection | InsideSection
datatype symbol_edge = EdgeBefore | EdgeAfter

datatype section_target =
    ToStart
  | ToSymbolBoundary jsnum
  | ToSection string symbol_edge

datatype token =
    TSection wl_section
  | TSymbol string

definition normalizeSectionTitle :: "string \<Rightarrow> string" where
  "normalizeSectionTitle title = take 40 (let t = js_trim title in if t = [] then ''Section'' else t)"

definition clampSectionIndex :: "jsnum \<Rightarrow> nat \<Rightarrow> nat" where
  "clampSectionIndex index symbolCount =
     (if \<not> js_isFinite index then symbolCount
      else case js_max (Fin 0) (js_min (numOf symbolCount) (js_round index)) of Fin a \<Rightarrow> nat \<lfloor>a\<rfloor> | _ \<Rightarrow> 0)"

definition resolveDisplayedSymbolDropTarget :: "string \<Rightarrow> bool \<Rightarrow> string list \<Rightarrow> (string \<times> nat \<times> symbol_edge) option" where
  "resolveDisplayedSymbolDropTarget ticker after displayedOrder =
     (if ticker \<notin> set displayedOrder then None
      else Some (ticker, length (takeWhile (\<lambda>t. t \<noteq> ticker) displayedOrder) + (if after then 1 else 0),
                 if after then EdgeAfter else EdgeBefore))"

definition createWatchlistSection :: "string \<Rightarrow> string \<Rightarrow> jsnum \<Rightarrow> nat \<Rightarrow> wl_section" where
  "createWatchlistSection newId title index symbolCount =
     \<lparr>ws_id = newId, ws_title = normalizeSectionTitle title, ws_index = clampSectionIndex index symbolCount\<rparr>"

definition renameSectionInList :: "watchlist \<Rightarrow> string \<Rightarrow> string \<Rightarrow> watchlist" where
  "renameSectionInList l sectionId title =
     l\<lparr>wl_sections := map (\<lambda>s. if ws_id s = sectionId then s\<lparr>ws_title := normalizeSectionTitle title\<rparr> else s) (wl_sections l)\<rparr>"

definition removeSectionFromList :: "watchlist \<Rightarrow> string \<Rightarrow> watchlist" where
  "removeSectionFromList l sectionId = l\<lparr>wl_sections := filter (\<lambda>s. ws_id s \<noteq> sectionId) (wl_sections l)\<rparr>"

definition symbolIndex :: "string \<Rightarrow> string list \<Rightarrow> nat" where
  "symbolIndex t ts = length (takeWhile (\<lambda>x. x \<noteq> t) ts)"

definition removeSymbolFromList :: "watchlist \<Rightarrow> string \<Rightarrow> watchlist" where
  "removeSymbolFromList l ticker =
     (if ticker \<notin> set (wl_symbols l) then l
      else
        let index = symbolIndex ticker (wl_symbols l);
            symbols = filter (\<lambda>t. t \<noteq> ticker) (wl_symbols l)
        in l\<lparr>wl_symbols := symbols,
             wl_sections := filter (\<lambda>s. ws_index s \<le> length symbols)
               (map (\<lambda>s. s\<lparr>ws_index := (if index < ws_index s then clampSectionIndex (numOf (ws_index s - 1)) (length symbols)
                                       else clampSectionIndex (numOf (ws_index s)) (length symbols))\<rparr>) (wl_sections l))\<rparr>)"

text \<open>The catalogue entry a stored symbol stands for, or the empty string.\<close>

definition catalogSymbol :: "string set \<Rightarrow> (string \<Rightarrow> string option) \<Rightarrow> string \<Rightarrow> string" where
  "catalogSymbol catalogSymbols legacyAliases s =
     (let rawSymbol = js_upper (js_trim s);
          alias = (if rawSymbol = [] then None else map_option (\<lambda>a. js_upper (js_trim a)) (legacyAliases rawSymbol))
      in if rawSymbol \<noteq> [] \<and> rawSymbol \<in> catalogSymbols then rawSymbol
         else case alias of Some a \<Rightarrow> if a \<noteq> [] \<and> a \<in> catalogSymbols then a else [] | None \<Rightarrow> [])"

text \<open>The loop returns \<open>nextSymbols\<close> and \<open>keptBeforeOriginalIndex\<close>; \<open>seen\<close> and \<open>keptCount\<close> are the elements and the length of the former.\<close>

fun sanitizeLoop :: "(string \<Rightarrow> string) \<Rightarrow> string list \<Rightarrow> string list \<Rightarrow> nat list \<Rightarrow> string list \<times> nat list" where
  "sanitizeLoop f [] nextSymbols kept = (nextSymbols, kept @ [length nextSymbols])"
| "sanitizeLoop f (s # ss) nextSymbols kept =
     (let symbol = f s
      in if symbol = [] \<or> symbol \<in> set nextSymbols then sanitizeLoop f ss nextSymbols (kept @ [length nextSymbols])
         else sanitizeLoop f ss (nextSymbols @ [symbol]) (kept @ [length nextSymbols]))"

definition sanitizeListForCatalog :: "watchlist \<Rightarrow> string set \<Rightarrow> (string \<Rightarrow> string option) \<Rightarrow> watchlist" where
  "sanitizeListForCatalog l catalogSymbols legacyAliases =
     (if catalogSymbols = {} then l
      else
        let (nextSymbols, kept) = sanitizeLoop (catalogSymbol catalogSymbols legacyAliases) (wl_symbols l) [] []
        in l\<lparr>wl_symbols := nextSymbols,
             wl_sections := map (\<lambda>s.
               let originalIndex = clampSectionIndex (numOf (ws_index s)) (length (wl_symbols l));
                   nextIndex = (if originalIndex < length kept then kept ! originalIndex else length nextSymbols)
               in s\<lparr>ws_index := clampSectionIndex (numOf nextIndex) (length nextSymbols)\<rparr>) (wl_sections l)\<rparr>)"

definition sectionOrder :: "wl_section list \<Rightarrow> string \<Rightarrow> nat" where
  "sectionOrder sections i =
     (case map_get (map_set_all (zip (map ws_id sections) [0..<length sections]) []) i of Some n \<Rightarrow> n | None \<Rightarrow> 0)"

definition sortSections :: "wl_section list \<Rightarrow> wl_section list" where
  "sortSections sections =
     js_sort (\<lambda>a b. if ws_index a \<noteq> ws_index b then js_sub (numOf (ws_index a)) (numOf (ws_index b))
       else js_sub (numOf (sectionOrder sections (ws_id a))) (numOf (sectionOrder sections (ws_id b)))) sections"

text \<open>The main loop of \<open>toLayoutTokens\<close>; after the last symbol all remaining sections follow.\<close>

fun layoutLoop :: "nat \<Rightarrow> wl_section list \<Rightarrow> string list \<Rightarrow> token list" where
  "layoutLoop index sections [] = map TSection sections"
| "layoutLoop index sections (t # ts) =
     map TSection (takeWhile (\<lambda>s. ws_index s = index) sections)
       @ TSymbol t # layoutLoop (index + 1) (dropWhile (\<lambda>s. ws_index s = index) sections) ts"

definition toLayoutTokens :: "watchlist \<Rightarrow> token list" where
  "toLayoutTokens l = layoutLoop 0 (sortSections (wl_sections l)) (wl_symbols l)"

fun readTokens :: "nat \<Rightarrow> token list \<Rightarrow> string list \<times> wl_section list \<Rightarrow> string list \<times> wl_section list" where
  "readTokens symbolCount [] acc = acc"
| "readTokens symbolCount (TSymbol t # ts) (symbols, sections) = readTokens symbolCount ts (symbols @ [t], sections)"
| "readTokens symbolCount (TSection s # ts) (symbols, sections) =
     readTokens symbolCount ts (symbols, sections @ [s\<lparr>ws_index := clampSectionIndex (numOf (length symbols)) symbolCount\<rparr>])"

definition fromLayoutTokens :: "watchlist \<Rightarrow> token list \<Rightarrow> watchlist" where
  "fromLayoutTokens l tokens =
     (let (symbols, sections) = readTokens (length (wl_symbols l)) tokens ([], [])
      in l\<lparr>wl_symbols := symbols, wl_sections := sections\<rparr>)"

fun pushNew :: "(string \<Rightarrow> bool) \<Rightarrow> string list \<Rightarrow> string list \<Rightarrow> string list" where
  "pushNew available [] symbols = symbols"
| "pushNew available (t # ts) symbols =
     pushNew available ts (if \<not> available t \<or> t \<in> set symbols then symbols else symbols @ [t])"

definition materializeDisplayedSymbolOrder :: "watchlist \<Rightarrow> string list option \<Rightarrow> watchlist" where
  "materializeDisplayedSymbolOrder l displayedOrder =
     (case displayedOrder of
        None \<Rightarrow> l
      | Some order \<Rightarrow>
          if order = [] then l
          else l\<lparr>wl_symbols := pushNew (\<lambda>_. True) (wl_symbols l) (pushNew (\<lambda>t. t \<in> set (wl_symbols l)) order [])\<rparr>)"

definition isSymbol :: "string \<Rightarrow> token \<Rightarrow> bool" where
  "isSymbol t tok = (case tok of TSymbol x \<Rightarrow> x = t | TSection _ \<Rightarrow> False)"

definition isSection :: "string \<Rightarrow> token \<Rightarrow> bool" where
  "isSection i tok = (case tok of TSection s \<Rightarrow> ws_id s = i | TSymbol _ \<Rightarrow> False)"

definition moveSymbolRelativeToSymbolInList :: "watchlist \<Rightarrow> string \<Rightarrow> string \<Rightarrow> symbol_edge \<Rightarrow> watchlist" where
  "moveSymbolRelativeToSymbolInList l ticker targetTicker edge =
     (if ticker \<notin> set (wl_symbols l) \<or> targetTicker \<notin> set (wl_symbols l) \<or> ticker = targetTicker then l
      else
        let tokens = toLayoutTokens l;
            tokensWithoutSymbol = filter (\<lambda>tok. \<not> isSymbol ticker tok) tokens
        in case find (isSymbol ticker) tokens of
             None \<Rightarrow> l
           | Some movingToken \<Rightarrow>
               if \<not> list_ex (isSymbol targetTicker) tokensWithoutSymbol then l
               else fromLayoutTokens l
                 (insert_next_to (edge = EdgeAfter) (isSymbol targetTicker) movingToken tokensWithoutSymbol))"

definition moveDisplayedSymbolRelativeInList :: "watchlist \<Rightarrow> string \<Rightarrow> string \<Rightarrow> symbol_edge \<Rightarrow> string list \<Rightarrow> watchlist" where
  "moveDisplayedSymbolRelativeInList l ticker targetTicker edge displayedOrder =
     moveSymbolRelativeToSymbolInList (materializeDisplayedSymbolOrder l (Some displayedOrder)) ticker targetTicker edge"

fun tokenIndexForSymbolBoundary :: "token list \<Rightarrow> nat \<Rightarrow> nat" where
  "tokenIndexForSymbolBoundary [] boundary = 0"
| "tokenIndexForSymbolBoundary (TSection s # ts) boundary = 1 + tokenIndexForSymbolBoundary ts boundary"
| "tokenIndexForSymbolBoundary (TSymbol t # ts) boundary =
     (if boundary = 0 then 0 else 1 + tokenIndexForSymbolBoundary ts (boundary - 1))"

definition insert_at :: "nat \<Rightarrow> 'a \<Rightarrow> 'a list \<Rightarrow> 'a list" where
  "insert_at n x xs = take n xs @ x # drop n xs"

definition moveSectionInList :: "watchlist \<Rightarrow> string \<Rightarrow> section_target \<Rightarrow> watchlist" where
  "moveSectionInList l sectionId target =
     (let tokens = toLayoutTokens l;
          tokensWithoutSection = filter (\<lambda>tok. \<not> isSection sectionId tok) tokens
      in case find (isSection sectionId) tokens of
           None \<Rightarrow> l
         | Some movingToken \<Rightarrow>
             (case target of
                ToStart \<Rightarrow> fromLayoutTokens l (insert_at 0 movingToken tokensWithoutSection)
              | ToSymbolBoundary index \<Rightarrow>
                  fromLayoutTokens l
                    (insert_at (tokenIndexForSymbolBoundary tokensWithoutSection (clampSectionIndex index (length (wl_symbols l))))
                      movingToken tokensWithoutSection)
              | ToSection targetId edge \<Rightarrow>
                  if targetId = sectionId \<or> \<not> list_ex (isSection targetId) tokensWithoutSection then l
                  else fromLayoutTokens l (insert_next_to (edge \<noteq> EdgeBefore) (isSection targetId) movingToken tokensWithoutSection)))"

definition moveSymbolToSectionInList :: "watchlist \<Rightarrow> string \<Rightarrow> string \<Rightarrow> insert_mode \<Rightarrow> watchlist" where
  "moveSymbolToSectionInList l ticker sectionId mode =
     (let tokensWithoutSymbol = filter (\<lambda>tok. \<not> isSymbol ticker tok) (toLayoutTokens l)
      in if ticker \<notin> set (wl_symbols l) \<or> \<not> list_ex (isSection sectionId) tokensWithoutSymbol then l
         else fromLayoutTokens l (insert_next_to (mode \<noteq> BeforeSection) (isSection sectionId) (TSymbol ticker) tokensWithoutSymbol))"

definition isHeader :: "token \<Rightarrow> bool" where
  "isHeader tok = (case tok of TSection _ \<Rightarrow> True | TSymbol _ \<Rightarrow> False)"

definition moveSymbolToUnsectionedStartInList :: "watchlist \<Rightarrow> string \<Rightarrow> watchlist" where
  "moveSymbolToUnsectionedStartInList l ticker =
     (let tokensWithoutSymbol = filter (\<lambda>tok. \<not> isSymbol ticker tok) (toLayoutTokens l)
      in if ticker \<notin> set (wl_symbols l) then l
         else fromLayoutTokens l
           (if list_ex isHeader tokensWithoutSymbol then insert_next_to False isHeader (TSymbol ticker) tokensWithoutSymbol
            else insert_at 0 (TSymbol ticker) tokensWithoutSymbol))"

definition shiftedIndex :: "insert_mode \<Rightarrow> nat \<Rightarrow> nat \<Rightarrow> nat \<Rightarrow> nat" where
  "shiftedIndex mode fromIndex toIndex i =
     (let index = (if fromIndex < i then i - 1 else i)
      in if mode = BeforeSection then (if toIndex \<le> index then index + 1 else index)
         else if toIndex < index then index + 1 else index)"

definition moveSymbolInList :: "watchlist \<Rightarrow> string \<Rightarrow> jsnum \<Rightarrow> insert_mode \<Rightarrow> watchlist" where
  "moveSymbolInList l ticker requestedIndex mode =
     (if ticker \<notin> set (wl_symbols l) then l
      else
        let fromIndex = symbolIndex ticker (wl_symbols l);
            without = filter (\<lambda>t. t \<noteq> ticker) (wl_symbols l);
            rawIndex = clampSectionIndex requestedIndex (length (wl_symbols l));
            toIndex = clampSectionIndex (numOf (if fromIndex < rawIndex then rawIndex - 1 else rawIndex)) (length without);
            symbols = insert_at toIndex ticker without
        in if fromIndex = toIndex \<and> rawIndex = fromIndex then l
           else l\<lparr>wl_symbols := symbols,
                  wl_sections := map (\<lambda>s. s\<lparr>ws_index := clampSectionIndex (numOf (shiftedIndex mode fromIndex toIndex (ws_index s)))
                    (length symbols)\<rparr>) (wl_sections l)\<rparr>)"

subsection \<open>Clamping and sorting\<close>

lemma clamp_le: "clampSectionIndex x n \<le> n"
proof (cases x)
  case (Fin a)
  have "nat \<lfloor>max 0 (min (of_nat n) (of_int m :: rat))\<rfloor> \<le> n" for m
    by (simp add: nat_le_iff floor_le_iff)
  then show ?thesis by (simp add: clampSectionIndex_def Fin js_round_def)
qed (simp_all add: clampSectionIndex_def)

lemma clamp_numOf [simp]: "clampSectionIndex (numOf k) n = min k n"
proof -
  have "\<lfloor>of_nat k + 1 / 2 :: rat\<rfloor> = int k" by (simp add: floor_eq_iff)
  moreover have "max 0 (min (of_nat n) (of_nat k)) = (of_nat (min k n) :: rat)" by simp
  ultimately show ?thesis
    by (simp add: clampSectionIndex_def js_round_def)
qed

lemma js_diff_pos: "js_lt (Fin 0) (js_sub (numOf m) (numOf n)) \<longleftrightarrow> n < m"
proof -
  have "js_integral (numOf k)" for k by (simp add: js_integral_def)
  from js_sub_integral_pos [OF this this] show ?thesis by simp
qed

lemma sectionOrder_nth:
  assumes "distinct (map ws_id ss)" "i < length ss"
  shows "sectionOrder ss (ws_id (ss ! i)) = i"
proof -
  have d: "distinct (map fst (zip (map ws_id ss) [0..<length ss]))" using assms(1) by simp
  have "(ws_id (ss ! i), i) \<in> set (zip (map ws_id ss) [0..<length ss])"
    using assms(2) by (auto simp: in_set_zip intro!: exI [of _ i])
  then have "map_of (zip (map ws_id ss) [0..<length ss]) (ws_id (ss ! i)) = Some i" using d by (simp add: map_of_eq_Some_iff)
  then show ?thesis by (simp add: sectionOrder_def map_get_set_all map_of_rev_distinct [OF d])
qed

text \<open>The tie break by the position in the list is what a stable sort does anyway.\<close>

lemma sortSections_key:
  assumes "distinct (map ws_id ss)"
  shows "sortSections ss = sort_key ws_index ss"
proof -
  let ?cmp = "\<lambda>a b. if ws_index a \<noteq> ws_index b then js_sub (numOf (ws_index a)) (numOf (ws_index b))
       else js_sub (numOf (sectionOrder ss (ws_id a))) (numOf (sectionOrder ss (ws_id b)))"
  have "foldr (js_insort ?cmp) zs [] = foldr (insort_key ws_index) zs []" if "ss = us @ zs" for us zs
    using that
  proof (induction zs arbitrary: us)
    case (Cons z zs)
    have "js_lt (Fin 0) (?cmp z y) \<longleftrightarrow> ws_index y < ws_index z" if y: "y \<in> set zs" for y
    proof -
      obtain j where j: "y = ss ! j" "length us < j" "j < length ss"
        using y Cons.prems by (auto simp: in_set_conv_nth nth_append intro!: that [of "length us + 1 + _"])
      have "sectionOrder ss (ws_id z) = length us" using sectionOrder_nth [OF assms, of "length us"] Cons.prems by simp
      moreover have "sectionOrder ss (ws_id y) = j" using sectionOrder_nth [OF assms j(3)] j(1) by simp
      ultimately show ?thesis using j(2) by (simp add: js_diff_pos del: js_sub_Fin)
    qed
    moreover have "set (foldr (insort_key ws_index) zs []) = set zs" using set_sort [of ws_index zs] by (simp add: sort_key_def)
    ultimately have "js_insort ?cmp z (foldr (insort_key ws_index) zs []) = insort_key ws_index z (foldr (insort_key ws_index) zs [])"
      by (intro js_insort_key) auto
    then show ?case using Cons.IH [of "us @ [z]"] Cons.prems by simp
  qed simp
  from this [of "[]" ss] show ?thesis by (simp add: sortSections_def js_sort_def sort_key_def)
qed

subsection \<open>Tokens and lists\<close>

fun tokSyms :: "token list \<Rightarrow> string list" where
  "tokSyms [] = []"
| "tokSyms (TSymbol t # ts) = t # tokSyms ts"
| "tokSyms (TSection s # ts) = tokSyms ts"

fun tokSecs :: "nat \<Rightarrow> token list \<Rightarrow> wl_section list" where
  "tokSecs k [] = []"
| "tokSecs k (TSymbol t # ts) = tokSecs (k + 1) ts"
| "tokSecs k (TSection s # ts) = s\<lparr>ws_index := k\<rparr> # tokSecs k ts"

lemma tokSyms_append [simp]: "tokSyms (us @ vs) = tokSyms us @ tokSyms vs"
  by (induction us rule: tokSyms.induct) auto

lemma tokSecs_append [simp]: "tokSecs k (us @ vs) = tokSecs k us @ tokSecs (k + length (tokSyms us)) vs"
  by (induction k us rule: tokSecs.induct) auto

lemma tokSecs_shift: "tokSecs (k + 1) ts = map (\<lambda>s. s\<lparr>ws_index := ws_index s + 1\<rparr>) (tokSecs k ts)"
  by (induction k ts rule: tokSecs.induct) auto

lemma tokSecs_bounds: "s \<in> set (tokSecs k ts) \<Longrightarrow> k \<le> ws_index s \<and> ws_index s \<le> k + length (tokSyms ts)"
  by (induction k ts rule: tokSecs.induct) auto

lemma tokSecs_sorted: "sorted (map ws_index (tokSecs k ts))"
  by (induction k ts rule: tokSecs.induct) (auto dest: tokSecs_bounds)

lemma readTokens_eq:
  "length symbols + length (tokSyms ts) \<le> n \<Longrightarrow>
     readTokens n ts (symbols, sections) = (symbols @ tokSyms ts, sections @ tokSecs (length symbols) ts)"
  by (induction n ts "(symbols, sections)" arbitrary: symbols sections rule: readTokens.induct) (auto simp: min_def)

lemma fromLayoutTokens_eq:
  "length (tokSyms ts) \<le> length (wl_symbols l) \<Longrightarrow>
     fromLayoutTokens l ts = l\<lparr>wl_symbols := tokSyms ts, wl_sections := tokSecs 0 ts\<rparr>"
  by (simp add: fromLayoutTokens_def readTokens_eq)

text \<open>What is seen: the tokens without the indices, which only encode the positions.\<close>

fun bare :: "token \<Rightarrow> token" where
  "bare (TSymbol t) = TSymbol t"
| "bare (TSection s) = TSection (s\<lparr>ws_index := 0\<rparr>)"

definition layout :: "watchlist \<Rightarrow> token list" where
  "layout l = map bare (toLayoutTokens l)"

lemma layoutLoop_header: "ws_index s = k \<Longrightarrow> layoutLoop k (s # ss) ts = TSection s # layoutLoop k ss ts"
  by (cases ts) auto

lemma layoutLoop_symbol: "(\<And>s. s \<in> set ss \<Longrightarrow> k < ws_index s) \<Longrightarrow> layoutLoop k ss (t # ts) = TSymbol t # layoutLoop (k + 1) ss ts"
proof -
  assume a: "\<And>s. s \<in> set ss \<Longrightarrow> k < ws_index s"
  then have "takeWhile (\<lambda>s. ws_index s = k) ss = [] \<and> dropWhile (\<lambda>s. ws_index s = k) ss = ss" by (cases ss) force+
  then show ?thesis by simp
qed

lemma layoutLoop_tokens: "map bare (layoutLoop k (tokSecs k ts) (tokSyms ts)) = map bare ts"
proof (induction k ts rule: tokSecs.induct)
  case (2 k t ts)
  have "layoutLoop k (tokSecs (k + 1) ts) (t # tokSyms ts) = TSymbol t # layoutLoop (k + 1) (tokSecs (k + 1) ts) (tokSyms ts)"
    by (rule layoutLoop_symbol) (use tokSecs_bounds in force)
  with 2 show ?case by simp
qed (simp_all add: layoutLoop_header del: layoutLoop.simps(2))

lemma tokens_layoutLoop:
  assumes "sorted (map ws_index ss)" "\<And>s. s \<in> set ss \<Longrightarrow> k \<le> ws_index s \<and> ws_index s \<le> k + length ts"
  shows "tokSyms (layoutLoop k ss ts) = ts \<and> tokSecs k (layoutLoop k ss ts) = ss"
  using assms
proof (induction ts arbitrary: k ss)
  case Nil
  then have "\<And>s. s \<in> set ss \<Longrightarrow> s\<lparr>ws_index := k\<rparr> = s" by force
  moreover have "tokSyms (map TSection ss) = [] \<and> tokSecs k (map TSection ss) = map (\<lambda>s. s\<lparr>ws_index := k\<rparr>) ss" by (induction ss) auto
  ultimately show ?case by (simp add: map_idI)
next
  case (Cons t ts)
  let ?us = "takeWhile (\<lambda>s. ws_index s = k) ss" and ?vs = "dropWhile (\<lambda>s. ws_index s = k) ss"
  have us: "tokSyms (map TSection ?us) = [] \<and> tokSecs k (map TSection ?us) = ?us"
  proof -
    have "\<And>s. s \<in> set ?us \<Longrightarrow> s\<lparr>ws_index := k\<rparr> = s" by (auto dest: set_takeWhileD)
    moreover have "tokSyms (map TSection xs) = [] \<and> tokSecs k (map TSection xs) = map (\<lambda>s. s\<lparr>ws_index := k\<rparr>) xs" for xs by (induction xs) auto
    ultimately show ?thesis by (simp add: map_idI)
  qed
  have vs: "sorted (map ws_index ?vs)" using Cons.prems(1) by (metis dropWhile_eq_drop drop_map sorted_wrt_drop)
  have "k + 1 \<le> ws_index s \<and> ws_index s \<le> (k + 1) + length ts" if s: "s \<in> set ?vs" for s
  proof -
    have "?vs \<noteq> []" using s by (metis empty_iff list.set(1))
    then have "ws_index (hd ?vs) \<noteq> k" "hd ?vs \<in> set ?vs" using hd_dropWhile [of "\<lambda>s. ws_index s = k" ss] by auto
    moreover have "ws_index (hd ?vs) \<le> ws_index s" using vs s by (cases ?vs) auto
    moreover have "set ?vs \<subseteq> set ss" by (auto dest: set_dropWhileD)
    ultimately show ?thesis using Cons.prems(2) [of s] Cons.prems(2) [of "hd ?vs"] s by force
  qed
  from Cons.IH [OF vs this] us show ?case by simp
qed

subsection \<open>Well-formed lists and rebuilt lists\<close>

definition wl_ok :: "watchlist \<Rightarrow> bool" where
  "wl_ok l \<longleftrightarrow> distinct (wl_symbols l) \<and> distinct (map ws_id (wl_sections l))
     \<and> list_all (\<lambda>s. ws_index s \<le> length (wl_symbols l)) (wl_sections l)"

lemma tokens_of_list:
  assumes "wl_ok l"
  shows "tokSyms (toLayoutTokens l) = wl_symbols l" "tokSecs 0 (toLayoutTokens l) = sort_key ws_index (wl_sections l)"
  using assms tokens_layoutLoop [of "sort_key ws_index (wl_sections l)" 0 "wl_symbols l"]
  by (auto simp: wl_ok_def toLayoutTokens_def sortSections_key list_all_iff)

lemma map_id_tokSecs: "map ws_id (tokSecs k ts) = map ws_id (tokSecs 0 ts)"
  by (induction k) (simp_all add: tokSecs_shift [simplified] comp_def)

text \<open>Which symbols and headers there are, without their order.\<close>

definition tok_items :: "token list \<Rightarrow> string multiset \<times> (string \<times> string) multiset" where
  "tok_items ts = (mset (tokSyms ts), mset (map (\<lambda>s. (ws_id s, ws_title s)) (tokSecs 0 ts)))"

definition items :: "watchlist \<Rightarrow> string multiset \<times> (string \<times> string) multiset" where
  "items l = (mset (wl_symbols l), mset (map (\<lambda>s. (ws_id s, ws_title s)) (wl_sections l)))"

lemma map_names_tokSecs: "map (\<lambda>s. (ws_id s, ws_title s)) (tokSecs k ts) = map (\<lambda>s. (ws_id s, ws_title s)) (tokSecs 0 ts)"
  by (induction k) (simp_all add: tokSecs_shift [simplified] comp_def)

lemma tok_items_simps [simp]:
  "tok_items (us @ vs) = (fst (tok_items us) + fst (tok_items vs), snd (tok_items us) + snd (tok_items vs))"
  "tok_items (TSymbol t # ts) = (add_mset t (fst (tok_items ts)), snd (tok_items ts))"
  "tok_items (TSection s # ts) = (fst (tok_items ts), add_mset (ws_id s, ws_title s) (snd (tok_items ts)))"
  by (simp_all add: tok_items_def map_names_tokSecs [of "length _"] map_names_tokSecs [of "Suc 0"])

lemma items_tokens: "wl_ok l \<Longrightarrow> tok_items (toLayoutTokens l) = items l"
  by (simp add: tok_items_def items_def tokens_of_list)

lemma items_insert_at: "tok_items (insert_at n m xs) = tok_items (m # xs)"
proof -
  have "tok_items xs = tok_items (take n xs @ drop n xs)" by simp
  then show ?thesis by (cases m) (simp_all add: insert_at_def del: append_take_drop_id)
qed

lemma layout_of_tokens:
  assumes "wl_symbols l = tokSyms ts" "wl_sections l = tokSecs 0 ts" "distinct (tokSyms ts)" "distinct (map ws_id (tokSecs 0 ts))"
  shows "wl_ok l" "layout l = map bare ts"
  using assms tokSecs_bounds [of _ 0 ts] layoutLoop_tokens [of 0 ts] tokSecs_sorted [of 0 ts]
  by (auto simp: wl_ok_def list_all_iff layout_def toLayoutTokens_def sortSections_key sort_key_id_if_sorted)

lemma list_of_tokens:
  assumes "wl_ok l" "tok_items ts = items l"
  shows "wl_ok (fromLayoutTokens l ts)" "layout (fromLayoutTokens l ts) = map bare ts" "items (fromLayoutTokens l ts) = items l"
    "wl_symbols (fromLayoutTokens l ts) = tokSyms ts" "wl_sections (fromLayoutTokens l ts) = tokSecs 0 ts"
proof -
  have syms: "mset (tokSyms ts) = mset (wl_symbols l)"
    and names: "mset (map (\<lambda>s. (ws_id s, ws_title s)) (tokSecs 0 ts)) = mset (map (\<lambda>s. (ws_id s, ws_title s)) (wl_sections l))"
    using assms(2) by (simp_all add: tok_items_def items_def)
  have len: "length (tokSyms ts) = length (wl_symbols l)" using syms by (metis size_mset)
  have eq: "fromLayoutTokens l ts = l\<lparr>wl_symbols := tokSyms ts, wl_sections := tokSecs 0 ts\<rparr>"
    using len by (simp add: fromLayoutTokens_eq)
  have "mset (map ws_id (tokSecs 0 ts)) = mset (map ws_id (wl_sections l))"
    using arg_cong [OF names, of "image_mset fst"] by (simp add: image_mset.compositionality comp_def)
  then have ids: "distinct (map ws_id (tokSecs 0 ts))" using assms(1) by (metis wl_ok_def mset_eq_imp_distinct_iff)
  have "distinct (tokSyms ts)" using assms(1) syms by (metis wl_ok_def mset_eq_imp_distinct_iff)
  then show "wl_ok (fromLayoutTokens l ts)" "layout (fromLayoutTokens l ts) = map bare ts"
    using layout_of_tokens [of "fromLayoutTokens l ts" ts] ids by (simp_all add: eq)
  show "items (fromLayoutTokens l ts) = items l" using syms names by (simp add: items_def eq)
  show "wl_symbols (fromLayoutTokens l ts) = tokSyms ts" "wl_sections (fromLayoutTokens l ts) = tokSecs 0 ts" by (simp_all add: eq)
qed

lemma layout_determines_tokens:
  assumes "wl_ok l" "layout l = map bare ts"
  shows "tokSyms ts = wl_symbols l" "tokSecs 0 ts = sort_key ws_index (wl_sections l)"
proof -
  have *: "tokSyms xs = tokSyms ys \<and> tokSecs k xs = tokSecs k ys" if "map bare xs = map bare ys" for k xs ys
    using that
  proof (induction k xs arbitrary: ys rule: tokSecs.induct)
    case (2 k t ts)
    then obtain zs where "ys = TSymbol t # zs" "map bare ts = map bare zs" by (cases ys; cases "hd ys") auto
    with 2 show ?case by simp
  next
    case (3 k s ts)
    then obtain s' zs where "ys = TSection s' # zs" "s\<lparr>ws_index := 0\<rparr> = s'\<lparr>ws_index := 0\<rparr>" "map bare ts = map bare zs"
      by (cases ys; cases "hd ys") auto
    moreover have "s\<lparr>ws_index := k\<rparr> = s'\<lparr>ws_index := k\<rparr>"
      using arg_cong [OF calculation(2), of "\<lambda>s. s\<lparr>ws_index := k\<rparr>"] by simp
    ultimately show ?case using 3 by simp
  qed simp
  show "tokSyms ts = wl_symbols l" "tokSecs 0 ts = sort_key ws_index (wl_sections l)"
    using * [of ts "toLayoutTokens l" 0] assms tokens_of_list by (simp_all add: layout_def)
qed

lemma is_bare [simp]: "isSymbol t (bare x) = isSymbol t x" "isSection i (bare x) = isSection i x" "isHeader (bare x) = isHeader x"
  by (cases x; simp add: isSymbol_def isSection_def isHeader_def)+

lemma filter_bare: "(\<And>x. P (bare x) = P x) \<Longrightarrow> filter P (map bare ts) = map bare (filter P ts)"
  by (simp add: filter_map comp_def)

lemma insert_next_to_bare: "(\<And>x. P (bare x) = P x) \<Longrightarrow> insert_next_to a P (bare m) (map bare ts) = map bare (insert_next_to a P m ts)"
  using map_insert_next_to [of bare a P m ts] by simp

lemma insert_next_to_at: "insert_next_to a P x xs = insert_at (length (takeWhile (\<lambda>y. \<not> P y) xs) + (if a then 1 else 0)) x xs"
  by (simp add: insert_next_to_def insert_at_def Let_def)

lemma length_insert_at [simp]: "length (insert_at n x xs) = length xs + 1"
  by (simp add: insert_at_def)

lemma insert_at_bare: "insert_at n (bare m) (map bare ts) = map bare (insert_at n m ts)"
  by (simp add: insert_at_def take_map drop_map)

lemma find_first: "\<forall>y \<in> set us. \<not> P y \<Longrightarrow> P x \<Longrightarrow> find P (us @ x # vs) = Some x"
  by (induction us) auto

lemma symbol_split:
  assumes "distinct (tokSyms ts)" "t \<in> set (tokSyms ts)"
  obtains us vs where "ts = us @ TSymbol t # vs" "filter (\<lambda>tok. \<not> isSymbol t tok) ts = us @ vs" "find (isSymbol t) ts = Some (TSymbol t)"
    "t \<notin> set (tokSyms us)" "t \<notin> set (tokSyms vs)"
proof -
  have *: "(\<exists>x \<in> set xs. isSymbol t x) \<longleftrightarrow> t \<in> set (tokSyms xs)" for xs
    by (induction xs rule: tokSyms.induct) (auto simp: isSymbol_def)
  obtain us x vs where s: "ts = us @ x # vs" "isSymbol t x" "\<forall>y \<in> set us. \<not> isSymbol t y"
    using split_list_first_prop [of ts "isSymbol t"] assms(2) * [of ts] by blast
  have x: "x = TSymbol t" using s(2) by (simp add: isSymbol_def split: token.splits)
  have out: "t \<notin> set (tokSyms us)" "t \<notin> set (tokSyms vs)" using assms(1) s(1) x by auto
  have "filter (\<lambda>tok. \<not> isSymbol t tok) ts = us @ vs" using s x * [of vs] out by (auto simp: filter_id_conv)
  moreover have "find (isSymbol t) ts = Some (TSymbol t)" using s x by (simp add: find_first)
  ultimately show thesis using that s(1) x out by blast
qed

lemma section_split:
  assumes "distinct (map ws_id (tokSecs 0 ts))" "list_ex (isSection i) ts"
  obtains us s vs where "ts = us @ TSection s # vs" "filter (\<lambda>tok. \<not> isSection i tok) ts = us @ vs" "find (isSection i) ts = Some (TSection s)" "ws_id s = i"
proof -
  have *: "(\<exists>x \<in> set xs. isSection i x) \<longleftrightarrow> i \<in> ws_id ` set (tokSecs k xs)" for xs k
    by (induction k xs rule: tokSecs.induct) (auto simp: isSection_def)
  obtain us x vs where s: "ts = us @ x # vs" "isSection i x" "\<forall>y \<in> set us. \<not> isSection i y"
    using split_list_first_prop [of ts "isSection i"] assms(2) by (auto simp: list_ex_iff)
  obtain sec where x: "x = TSection sec" "ws_id sec = i" using s(2) by (auto simp: isSection_def split: token.splits)
  have "i \<notin> ws_id ` set (tokSecs (length (tokSyms us)) vs)" using assms(1) s(1) x by auto
  then have "filter (\<lambda>tok. \<not> isSection i tok) ts = us @ vs" using s * [of vs] by (auto simp: filter_id_conv)
  moreover have "find (isSection i) ts = Some (TSection sec)" using s x by (simp add: find_first)
  ultimately show thesis using that s(1) x by blast
qed

subsection \<open>Moves as edits of the layout\<close>

text \<open>Taking one token out and putting it back at a position keeps the list well formed and its items.\<close>

lemma reinserted:
  assumes "wl_ok l" "toLayoutTokens l = us @ m # vs"
  shows "tok_items (insert_at n m (us @ vs)) = items l"
  using items_tokens [OF assms(1)] assms(2) by (cases m) (simp_all add: items_insert_at)

lemmas rebuilt = list_of_tokens [OF _ reinserted]

lemma symbol_listed: "list_ex (isSymbol t) ts \<longleftrightarrow> t \<in> set (tokSyms ts)"
  by (induction ts rule: tokSyms.induct) (auto simp: isSymbol_def)

lemma section_listed: "i \<in> ws_id ` set (tokSecs k ts) \<Longrightarrow> list_ex (isSection i) ts"
  by (induction k ts rule: tokSecs.induct) (auto simp: isSection_def)

lemma filter_layout: "(\<And>x. P (bare x) = P x) \<Longrightarrow> filter P (layout l) = map bare (filter P (toLayoutTokens l))"
  by (simp add: layout_def filter_bare)

lemma moveRelative_layout:
  assumes ok: "wl_ok l" and mem: "ticker \<in> set (wl_symbols l)" "target \<in> set (wl_symbols l)" "ticker \<noteq> target"
  shows "wl_ok (moveSymbolRelativeToSymbolInList l ticker target edge)
    \<and> items (moveSymbolRelativeToSymbolInList l ticker target edge) = items l
    \<and> layout (moveSymbolRelativeToSymbolInList l ticker target edge)
        = insert_next_to (edge = EdgeAfter) (isSymbol target) (TSymbol ticker) (filter (\<lambda>x. \<not> isSymbol ticker x) (layout l))"
proof -
  obtain us vs where s: "toLayoutTokens l = us @ TSymbol ticker # vs" "filter (\<lambda>x. \<not> isSymbol ticker x) (toLayoutTokens l) = us @ vs"
    "find (isSymbol ticker) (toLayoutTokens l) = Some (TSymbol ticker)"
    using symbol_split [of "toLayoutTokens l" ticker] ok mem(1) by (metis tokens_of_list(1) wl_ok_def)
  have "set (tokSyms (us @ vs)) = set (wl_symbols l) - {ticker} \<or> set (tokSyms (us @ vs)) = set (wl_symbols l)"
    unfolding tokens_of_list(1) [OF ok, symmetric] s(1) by auto
  then have "target \<in> set (tokSyms (us @ vs))" using mem by blast
  then have "list_ex (isSymbol target) (us @ vs)" by (simp only: symbol_listed)
  then have "moveSymbolRelativeToSymbolInList l ticker target edge
    = fromLayoutTokens l (insert_next_to (edge = EdgeAfter) (isSymbol target) (TSymbol ticker) (us @ vs))"
    using s mem by (simp add: moveSymbolRelativeToSymbolInList_def)
  then show ?thesis
    using rebuilt(1-3) [OF ok ok s(1)] s(2) insert_next_to_bare [of "isSymbol target" "edge = EdgeAfter" "TSymbol ticker" "us @ vs"]
    by (simp add: insert_next_to_at filter_layout)
qed

lemma moveToSection_layout:
  assumes ok: "wl_ok l" and mem: "ticker \<in> set (wl_symbols l)" "i \<in> ws_id ` set (wl_sections l)"
  shows "wl_ok (moveSymbolToSectionInList l ticker i mode)
    \<and> items (moveSymbolToSectionInList l ticker i mode) = items l
    \<and> layout (moveSymbolToSectionInList l ticker i mode)
        = insert_next_to (mode \<noteq> BeforeSection) (isSection i) (TSymbol ticker) (filter (\<lambda>x. \<not> isSymbol ticker x) (layout l))"
proof -
  obtain us vs where s: "toLayoutTokens l = us @ TSymbol ticker # vs" "filter (\<lambda>x. \<not> isSymbol ticker x) (toLayoutTokens l) = us @ vs"
    using symbol_split [of "toLayoutTokens l" ticker] ok mem(1) by (metis tokens_of_list(1) wl_ok_def)
  have "i \<in> ws_id ` set (tokSecs 0 (toLayoutTokens l))" using mem(2) tokens_of_list(2) [OF ok] by simp
  then have "list_ex (isSection i) (toLayoutTokens l)" by (rule section_listed)
  then have "list_ex (isSection i) (us @ vs)" using s(1) by (auto simp: isSection_def)
  then have "moveSymbolToSectionInList l ticker i mode
    = fromLayoutTokens l (insert_next_to (mode \<noteq> BeforeSection) (isSection i) (TSymbol ticker) (us @ vs))"
    using s mem by (simp add: moveSymbolToSectionInList_def)
  then show ?thesis
    using rebuilt(1-3) [OF ok ok s(1)] s(2) insert_next_to_bare [of "isSection i" "mode \<noteq> BeforeSection" "TSymbol ticker" "us @ vs"]
    by (simp add: insert_next_to_at filter_layout)
qed

lemma moveToStart_layout:
  assumes ok: "wl_ok l" and mem: "ticker \<in> set (wl_symbols l)"
  shows "wl_ok (moveSymbolToUnsectionedStartInList l ticker)
    \<and> items (moveSymbolToUnsectionedStartInList l ticker) = items l
    \<and> layout (moveSymbolToUnsectionedStartInList l ticker)
        = (let rest = filter (\<lambda>x. \<not> isSymbol ticker x) (layout l)
           in if wl_sections l \<noteq> [] then insert_next_to False isHeader (TSymbol ticker) rest else TSymbol ticker # rest)"
proof -
  obtain us vs where s: "toLayoutTokens l = us @ TSymbol ticker # vs" "filter (\<lambda>x. \<not> isSymbol ticker x) (toLayoutTokens l) = us @ vs"
    using symbol_split [of "toLayoutTokens l" ticker] ok mem by (metis tokens_of_list(1) wl_ok_def)
  have "list_ex isHeader ts \<longleftrightarrow> tokSecs k ts \<noteq> []" for k ts by (induction k ts rule: tokSecs.induct) (auto simp: isHeader_def)
  from this [of "toLayoutTokens l" 0] have "list_ex isHeader (us @ vs) \<longleftrightarrow> wl_sections l \<noteq> []"
    using tokens_of_list(2) [OF ok] s(1) by (auto simp: isHeader_def) (metis length_0_conv length_sort)+
  then have "moveSymbolToUnsectionedStartInList l ticker
    = fromLayoutTokens l (if wl_sections l \<noteq> [] then insert_next_to False isHeader (TSymbol ticker) (us @ vs)
        else insert_at 0 (TSymbol ticker) (us @ vs))"
    using s mem by (simp add: moveSymbolToUnsectionedStartInList_def)
  then show ?thesis
    using rebuilt(1-3) [OF ok ok s(1), of 0] rebuilt(1-3) [OF ok ok s(1)] s(2) insert_next_to_bare [of isHeader False "TSymbol ticker" "us @ vs"]
    by (cases "wl_sections l = []") (simp_all add: insert_next_to_at filter_layout, simp add: insert_at_def)
qed

text \<open>The moving header and the position it is put at, as \<open>moveSectionInList\<close> finds them.\<close>

definition sectionDestination :: "section_target \<Rightarrow> nat \<Rightarrow> token list \<Rightarrow> nat" where
  "sectionDestination target symbolCount rest =
     (case target of
        ToStart \<Rightarrow> 0
      | ToSymbolBoundary index \<Rightarrow> tokenIndexForSymbolBoundary rest (clampSectionIndex index symbolCount)
      | ToSection j edge \<Rightarrow> length (takeWhile (\<lambda>y. \<not> isSection j y) rest) + (if edge \<noteq> EdgeBefore then 1 else 0))"

lemma boundary_bare: "tokenIndexForSymbolBoundary (map bare ts) k = tokenIndexForSymbolBoundary ts k"
  by (induction ts k rule: tokenIndexForSymbolBoundary.induct) auto

lemma destination_bare: "sectionDestination target n (map bare ts) = sectionDestination target n ts"
  by (simp add: sectionDestination_def boundary_bare takeWhile_map comp_def split: section_target.splits)

lemma moveSection_layout:
  assumes ok: "wl_ok l" and mem: "sec \<in> set (wl_sections l)"
    and tgt: "\<And>j edge. target = ToSection j edge \<Longrightarrow> j \<noteq> ws_id sec \<and> j \<in> ws_id ` set (wl_sections l)"
  shows "wl_ok (moveSectionInList l (ws_id sec) target)
    \<and> items (moveSectionInList l (ws_id sec) target) = items l
    \<and> layout (moveSectionInList l (ws_id sec) target)
        = (let rest = filter (\<lambda>x. \<not> isSection (ws_id sec) x) (layout l)
           in insert_at (sectionDestination target (length (wl_symbols l)) rest) (bare (TSection sec)) rest)"
proof -
  let ?ts = "toLayoutTokens l" and ?i = "ws_id sec"
  have secs: "tokSecs 0 ?ts = sort_key ws_index (wl_sections l)" by (rule tokens_of_list(2) [OF ok])
  have d: "distinct (map ws_id (wl_sections l))" using ok by (simp add: wl_ok_def)
  then have d': "distinct (map ws_id (tokSecs 0 ?ts))" unfolding secs by (simp add: distinct_map)
  have "list_ex (isSection ?i) ?ts" using mem secs by (intro section_listed [of _ 0]) simp
  then obtain us s vs where s: "?ts = us @ TSection s # vs" "filter (\<lambda>x. \<not> isSection ?i x) ?ts = us @ vs"
    "find (isSection ?i) ?ts = Some (TSection s)" "ws_id s = ?i"
    using section_split [of ?ts ?i] d' by blast
  have "s\<lparr>ws_index := length (tokSyms us)\<rparr> \<in> set (tokSecs 0 ?ts)" unfolding s(1) by simp
  then have "s\<lparr>ws_index := length (tokSyms us)\<rparr> \<in> set (wl_sections l)" unfolding secs by simp
  moreover have "inj_on ws_id (set (wl_sections l))" using d by (simp add: distinct_map)
  ultimately have "s\<lparr>ws_index := length (tokSyms us)\<rparr> = sec" using mem s(4) by (intro inj_onD [of ws_id]) auto
  then have b: "bare (TSection s) = bare (TSection sec)" by auto
  have "list_ex (isSection j) (us @ vs)" if "target = ToSection j edge" for j edge
  proof -
    have "list_ex (isSection j) ?ts" using tgt [OF that] secs by (intro section_listed [of _ 0]) simp
    then show ?thesis using s(1,4) tgt [OF that] by (auto simp: isSection_def)
  qed
  then have "moveSectionInList l ?i target
    = fromLayoutTokens l (insert_at (sectionDestination target (length (wl_symbols l)) (us @ vs)) (TSection s) (us @ vs))"
    using s(2,3) tgt by (auto simp: moveSectionInList_def sectionDestination_def insert_next_to_at Let_def split: section_target.splits)
  then show ?thesis using rebuilt(1-3) [OF ok ok s(1)] s(2) b
    by (simp add: filter_layout destination_bare Let_def del: bare.simps map_append) (simp add: insert_at_bare del: bare.simps map_append flip: b)
qed

subsection \<open>Index arithmetic instead of tokens\<close>

text \<open>
  \<open>removeSymbolFromList\<close> and \<open>moveSymbolInList\<close> do not build tokens; they shift the section indices.  On a list whose
  sections are kept in the order of their indices this is the same as editing the layout.
\<close>

fun afterSymbols :: "nat \<Rightarrow> token list \<Rightarrow> nat" where
  "afterSymbols 0 ts = 0"
| "afterSymbols (Suc k) [] = 0"
| "afterSymbols (Suc k) (TSymbol t # ts) = 1 + afterSymbols k ts"
| "afterSymbols (Suc k) (TSection s # ts) = 1 + afterSymbols (Suc k) ts"

definition symbolSlot :: "insert_mode \<Rightarrow> nat \<Rightarrow> token list \<Rightarrow> nat" where
  "symbolSlot mode k ts = (if mode = BeforeSection then afterSymbols k ts else tokenIndexForSymbolBoundary ts k)"

lemma insert_at_simps [simp]: "insert_at 0 x xs = x # xs" "insert_at (Suc n) x (y # ys) = y # insert_at n x ys" "insert_at n x [] = [x]"
  by (simp_all add: insert_at_def)

lemma put_before: "k \<le> length (tokSyms ts) \<Longrightarrow>
    tokSyms (insert_at (afterSymbols k ts) (TSymbol t) ts) = insert_at k t (tokSyms ts)
    \<and> tokSecs j (insert_at (afterSymbols k ts) (TSymbol t) ts)
        = map (\<lambda>s. s\<lparr>ws_index := (if j + k \<le> ws_index s then ws_index s + 1 else ws_index s)\<rparr>) (tokSecs j ts)"
proof (induction k ts arbitrary: j rule: afterSymbols.induct)
  case (1 ts)
  have "map (\<lambda>s. s\<lparr>ws_index := (if j \<le> ws_index s then ws_index s + 1 else ws_index s)\<rparr>) (tokSecs j ts) = tokSecs (j + 1) ts"
    unfolding tokSecs_shift by (rule map_cong) (auto dest: tokSecs_bounds)
  then show ?case by simp
next
  case (3 k t' ts)
  then show ?case using "3.IH" [of "j + 1"] by simp
qed simp_all

lemma put_inside: "k \<le> length (tokSyms ts) \<Longrightarrow>
    tokSyms (insert_at (tokenIndexForSymbolBoundary ts k) (TSymbol t) ts) = insert_at k t (tokSyms ts)
    \<and> tokSecs j (insert_at (tokenIndexForSymbolBoundary ts k) (TSymbol t) ts)
        = map (\<lambda>s. s\<lparr>ws_index := (if j + k < ws_index s then ws_index s + 1 else ws_index s)\<rparr>) (tokSecs j ts)"
proof (induction ts k arbitrary: j rule: tokenIndexForSymbolBoundary.induct)
  case (3 t' ts k)
  show ?case
  proof (cases k)
    case 0
    have "map (\<lambda>s. s\<lparr>ws_index := (if j < ws_index s then ws_index s + 1 else ws_index s)\<rparr>) (tokSecs (j + 1) ts) = tokSecs (j + 1 + 1) ts"
      unfolding tokSecs_shift [of "j + 1"] by (rule map_cong) (auto dest: tokSecs_bounds)
    then show ?thesis using 0 by simp
  next
    case (Suc k')
    then show ?thesis using 3 "3.IH" [of "j + 1"] by simp
  qed
qed simp_all

lemma put_in:
  assumes "k \<le> length (tokSyms ts)"
  shows "tokSyms (insert_at (symbolSlot mode k ts) (TSymbol t) ts) = insert_at k t (tokSyms ts)"
    "tokSecs 0 (insert_at (symbolSlot mode k ts) (TSymbol t) ts)
       = map (\<lambda>s. s\<lparr>ws_index := (if mode = BeforeSection then (if k \<le> ws_index s then ws_index s + 1 else ws_index s)
           else if k < ws_index s then ws_index s + 1 else ws_index s)\<rparr>) (tokSecs 0 ts)"
  using put_before [OF assms, of t 0] put_inside [OF assms, of t 0] by (cases mode; simp add: symbolSlot_def)+

lemma taken_out:
  assumes "n = length (tokSyms us)"
  shows "map (\<lambda>s. s\<lparr>ws_index := (if n < ws_index s then ws_index s - 1 else ws_index s)\<rparr>) (tokSecs 0 (us @ TSymbol t # vs)) = tokSecs 0 (us @ vs)"
proof -
  have "map (\<lambda>s. s\<lparr>ws_index := (if n < ws_index s then ws_index s - 1 else ws_index s)\<rparr>) (tokSecs 0 us) = tokSecs 0 us"
    using assms by (intro map_idI) (auto dest: tokSecs_bounds)
  moreover have "map (\<lambda>s. s\<lparr>ws_index := (if n < ws_index s then ws_index s - 1 else ws_index s)\<rparr>) (tokSecs (n + 1) vs) = tokSecs n vs"
    unfolding tokSecs_shift map_map by (rule map_idI) (auto dest: tokSecs_bounds)
  ultimately show ?thesis using assms by simp
qed

abbreviation sections_in_order :: "watchlist \<Rightarrow> bool" where
  "sections_in_order l \<equiv> sorted (map ws_index (wl_sections l))"

lemma ordered_split:
  assumes "wl_ok l" "sections_in_order l" "ticker \<in> set (wl_symbols l)"
  obtains us vs where "toLayoutTokens l = us @ TSymbol ticker # vs" "filter (\<lambda>x. \<not> isSymbol ticker x) (toLayoutTokens l) = us @ vs"
    "wl_symbols l = tokSyms (us @ TSymbol ticker # vs)" "wl_sections l = tokSecs 0 (us @ TSymbol ticker # vs)"
    "symbolIndex ticker (wl_symbols l) = length (tokSyms us)" "filter (\<lambda>t. t \<noteq> ticker) (wl_symbols l) = tokSyms (us @ vs)"
proof -
  obtain us vs where s: "toLayoutTokens l = us @ TSymbol ticker # vs" "filter (\<lambda>x. \<not> isSymbol ticker x) (toLayoutTokens l) = us @ vs"
      "ticker \<notin> set (tokSyms us)" "ticker \<notin> set (tokSyms vs)"
    using symbol_split [of "toLayoutTokens l" ticker] assms by (metis tokens_of_list(1) wl_ok_def)
  moreover have "wl_symbols l = tokSyms (us @ TSymbol ticker # vs)" using tokens_of_list(1) [OF assms(1)] s(1) by simp
  moreover have "wl_sections l = tokSecs 0 (us @ TSymbol ticker # vs)"
    using tokens_of_list(2) [OF assms(1)] s(1) assms(2) by (simp add: sort_key_id_if_sorted)
  moreover have "takeWhile (\<lambda>x. x \<noteq> ticker) (tokSyms us @ ticker # tokSyms vs) = tokSyms us"
    using s(3) by (subst takeWhile_append2) auto
  moreover have "filter (\<lambda>t. t \<noteq> ticker) (tokSyms us) = tokSyms us" "filter (\<lambda>t. t \<noteq> ticker) (tokSyms vs) = tokSyms vs"
    using s(3,4) by (auto simp: filter_id_conv)
  ultimately show thesis using that by (simp add: symbolIndex_def)
qed

lemma removeSymbol_layout:
  assumes ok: "wl_ok l" "sections_in_order l"
  shows "wl_ok (removeSymbolFromList l ticker) \<and> sections_in_order (removeSymbolFromList l ticker)
    \<and> layout (removeSymbolFromList l ticker) = filter (\<lambda>x. \<not> isSymbol ticker x) (layout l)"
proof (cases "ticker \<in> set (wl_symbols l)")
  case True
  then obtain us vs where s: "filter (\<lambda>x. \<not> isSymbol ticker x) (toLayoutTokens l) = us @ vs"
    "wl_symbols l = tokSyms (us @ TSymbol ticker # vs)" "wl_sections l = tokSecs 0 (us @ TSymbol ticker # vs)"
    "symbolIndex ticker (wl_symbols l) = length (tokSyms us)" "filter (\<lambda>t. t \<noteq> ticker) (wl_symbols l) = tokSyms (us @ vs)"
    using ordered_split [OF ok] by metis
  let ?n = "length (tokSyms us)" and ?m = "length (tokSyms (us @ vs))" and ?secs = "tokSecs 0 (us @ TSymbol ticker # vs)"
  have "map (\<lambda>s. s\<lparr>ws_index := (if ?n < ws_index s then min (ws_index s - 1) ?m else min (ws_index s) ?m)\<rparr>) ?secs
    = map (\<lambda>s. s\<lparr>ws_index := (if ?n < ws_index s then ws_index s - 1 else ws_index s)\<rparr>) ?secs"
    by (rule map_cong) (use tokSecs_bounds [of _ 0 "us @ TSymbol ticker # vs"] in fastforce)+
  then have "map (\<lambda>s. s\<lparr>ws_index := (if ?n < ws_index s then min (ws_index s - 1) ?m else min (ws_index s) ?m)\<rparr>) ?secs = tokSecs 0 (us @ vs)"
    by (rule trans [OF _ taken_out [OF refl]])
  then have "removeSymbolFromList l ticker = l\<lparr>wl_symbols := tokSyms (us @ vs), wl_sections := filter (\<lambda>s. ws_index s \<le> ?m) (tokSecs 0 (us @ vs))\<rparr>"
    unfolding removeSymbolFromList_def Let_def clamp_numOf s(3-5) using True by simp
  moreover have "filter (\<lambda>s. ws_index s \<le> ?m) (tokSecs 0 (us @ vs)) = tokSecs 0 (us @ vs)"
    by (rule filter_True) (use tokSecs_bounds [of _ 0 "us @ vs"] in force)
  ultimately have r: "wl_symbols (removeSymbolFromList l ticker) = tokSyms (us @ vs)" "wl_sections (removeSymbolFromList l ticker) = tokSecs 0 (us @ vs)"
    by simp_all
  moreover have "distinct (map ws_id (tokSecs 0 (us @ vs)))" "distinct (tokSyms (us @ vs))"
    using ok(1) s(2,3) by (auto simp: wl_ok_def map_id_tokSecs [of "Suc _"] map_id_tokSecs [of "length _"] simp flip: set_map)
  ultimately show ?thesis using layout_of_tokens [of "removeSymbolFromList l ticker" "us @ vs"] s(1) tokSecs_sorted [of 0 "us @ vs"]
    by (simp add: filter_layout del: tokSecs_append tokSyms_append map_append)
next
  case False
  have "filter (\<lambda>x. \<not> isSymbol ticker x) (toLayoutTokens l) = toLayoutTokens l"
    using False symbol_listed [of ticker "toLayoutTokens l"] tokens_of_list(1) [OF ok(1)] by (auto simp: filter_id_conv list_ex_iff)
  then show ?thesis using False ok by (simp add: removeSymbolFromList_def filter_layout) (simp add: layout_def)
qed

text \<open>Where \<open>moveSymbolInList\<close> puts the symbol: a position among the other symbols.\<close>

definition destinationIndex :: "watchlist \<Rightarrow> string \<Rightarrow> jsnum \<Rightarrow> nat" where
  "destinationIndex l ticker requestedIndex =
     (let fromIndex = symbolIndex ticker (wl_symbols l); rawIndex = clampSectionIndex requestedIndex (length (wl_symbols l))
      in if fromIndex < rawIndex then rawIndex - 1 else rawIndex)"

lemma moveSymbol_layout:
  assumes ok: "wl_ok l" "sections_in_order l" and mem: "ticker \<in> set (wl_symbols l)"
    and moved: "clampSectionIndex requestedIndex (length (wl_symbols l)) \<noteq> symbolIndex ticker (wl_symbols l)"
  shows "wl_ok (moveSymbolInList l ticker requestedIndex mode) \<and> sections_in_order (moveSymbolInList l ticker requestedIndex mode)
    \<and> items (moveSymbolInList l ticker requestedIndex mode) = items l
    \<and> layout (moveSymbolInList l ticker requestedIndex mode)
        = (let rest = filter (\<lambda>x. \<not> isSymbol ticker x) (layout l)
           in insert_at (symbolSlot mode (destinationIndex l ticker requestedIndex) rest) (TSymbol ticker) rest)"
proof -
  obtain us vs where s: "toLayoutTokens l = us @ TSymbol ticker # vs" "filter (\<lambda>x. \<not> isSymbol ticker x) (toLayoutTokens l) = us @ vs"
    "wl_symbols l = tokSyms (us @ TSymbol ticker # vs)" "wl_sections l = tokSecs 0 (us @ TSymbol ticker # vs)"
    "symbolIndex ticker (wl_symbols l) = length (tokSyms us)" "filter (\<lambda>t. t \<noteq> ticker) (wl_symbols l) = tokSyms (us @ vs)"
    using ordered_split [OF ok mem] .
  let ?n = "length (tokSyms us)" and ?raw = "clampSectionIndex requestedIndex (length (wl_symbols l))" and ?rest = "us @ vs"
  define k where "k = destinationIndex l ticker requestedIndex"
  have len: "length (wl_symbols l) = length (tokSyms ?rest) + 1" by (simp add: s(3))
  have k: "k = (if ?n < ?raw then ?raw - 1 else ?raw)" by (simp add: k_def destinationIndex_def Let_def s(5))
  have raw: "?raw \<le> length (wl_symbols l)" by (rule clamp_le)
  have kle: "k \<le> length (tokSyms ?rest)" using k raw moved len s(5) by (auto split: if_splits)
  let ?ts = "insert_at (symbolSlot mode k ?rest) (TSymbol ticker) ?rest"
  let ?shift = "\<lambda>i. shiftedIndex mode ?n k i"
  have secs: "map (\<lambda>s. s\<lparr>ws_index := ?shift (ws_index s)\<rparr>) (wl_sections l) = tokSecs 0 ?ts"
    unfolding s(4) put_in(2) [OF kle] taken_out [OF refl, symmetric, of us vs ticker] map_map
    by (rule map_cong) (auto simp: shiftedIndex_def Let_def)
  have bound: "ws_index x \<le> length (wl_symbols l)" if "x \<in> set (tokSecs 0 ?ts)" for x
    using tokSecs_bounds [OF that] unfolding put_in(1) [OF kle] len length_insert_at by simp
  have "min (?shift (ws_index x)) (length (wl_symbols l)) = ?shift (ws_index x)" if "x \<in> set (wl_sections l)" for x
    using bound [of "x\<lparr>ws_index := ?shift (ws_index x)\<rparr>"] that unfolding secs [symmetric] by auto
  then have clamped: "map (\<lambda>s. s\<lparr>ws_index := min (?shift (ws_index s)) (length (wl_symbols l))\<rparr>) (wl_sections l) = tokSecs 0 ?ts"
    unfolding secs [symmetric] by (auto intro!: map_cong)
  let ?l = "moveSymbolInList l ticker requestedIndex mode"
  have "?l = l\<lparr>wl_symbols := insert_at k ticker (tokSyms ?rest),
      wl_sections := map (\<lambda>s. s\<lparr>ws_index := min (?shift (ws_index s)) (length (insert_at k ticker (tokSyms ?rest)))\<rparr>) (wl_sections l)\<rparr>"
    using mem moved kle unfolding moveSymbolInList_def Let_def s(5,6) clamp_numOf k [symmetric] by (simp add: min_absorb1)
  moreover have "length (insert_at k ticker (tokSyms ?rest)) = length (wl_symbols l)" unfolding len length_insert_at by (rule refl)
  ultimately have l: "wl_symbols ?l = tokSyms ?ts" "wl_sections ?l = tokSecs 0 ?ts" using clamped put_in(1) [OF kle] by simp_all
  have it: "tok_items ?ts = items l" by (rule reinserted [OF ok(1) s(1)])
  have eq: "wl_symbols (fromLayoutTokens l ?ts) = wl_symbols ?l" "wl_sections (fromLayoutTokens l ?ts) = wl_sections ?l"
    using list_of_tokens(4,5) [OF ok(1) it] l by simp_all
  have "wl_ok ?l" "items ?l = items l" "layout ?l = map bare ?ts"
    using list_of_tokens(1-3) [OF ok(1) it] eq by (simp_all add: wl_ok_def items_def layout_def toLayoutTokens_def)
  moreover have "symbolSlot mode k (map bare ts) = symbolSlot mode k ts" for ts
  proof -
    have "afterSymbols k (map bare ts) = afterSymbols k ts" by (induction k ts rule: afterSymbols.induct) auto
    then show ?thesis by (simp add: symbolSlot_def boundary_bare)
  qed
  ultimately show ?thesis using l(2) tokSecs_sorted [of 0 ?ts] s(2) insert_at_bare [of _ "TSymbol ticker" ?rest]
    by (simp add: filter_layout Let_def k_def del: map_append)
qed

subsection \<open>Which section a symbol is in\<close>

text \<open>The header that precedes a symbol, \<open>Some None\<close> above all headers, \<open>None\<close> for a symbol that is not there.\<close>

fun ownerFrom :: "string option \<Rightarrow> token list \<Rightarrow> string \<Rightarrow> string option option" where
  "ownerFrom h [] t = None"
| "ownerFrom h (TSection s # ts) t = ownerFrom (Some (ws_id s)) ts t"
| "ownerFrom h (TSymbol x # ts) t = (if x = t then Some h else ownerFrom h ts t)"

definition sectionOf :: "watchlist \<Rightarrow> string \<Rightarrow> string option option" where
  "sectionOf l t = ownerFrom None (layout l) t"

lemma ownerFrom_filter: "x \<noteq> t \<Longrightarrow> ownerFrom h (filter (\<lambda>y. \<not> isSymbol x y) ts) t = ownerFrom h ts t"
  by (induction h ts t rule: ownerFrom.induct) (auto simp: isSymbol_def)

lemma ownerFrom_insert_at: "x \<noteq> t \<Longrightarrow> ownerFrom h (insert_at n (TSymbol x) ts) t = ownerFrom h ts t"
proof (induction h ts t arbitrary: n rule: ownerFrom.induct)
  case (2 h s ts t)
  then show ?case by (cases n) auto
next
  case (3 h x' ts t)
  then show ?case by (cases n) auto
qed simp

lemma ownerFrom_next_to:
  assumes "x \<notin> set (tokSyms ts)" "target \<in> set (tokSyms ts)"
  shows "ownerFrom h (insert_next_to a (isSymbol target) (TSymbol x) ts) x = ownerFrom h ts target"
  using assms
proof (induction h ts target rule: ownerFrom.induct)
  case (2 h s ts t)
  then show ?case by (simp add: insert_next_to_at isSymbol_def)
next
  case (3 h y ts t)
  then show ?case by (auto simp: insert_next_to_at isSymbol_def)
qed simp

lemma ownerFrom_into:
  assumes "x \<notin> set (tokSyms ts)" "list_ex (isSection i) ts"
  shows "ownerFrom h (insert_next_to True (isSection i) (TSymbol x) ts) x = Some (Some i)"
  using assms
proof (induction h ts x rule: ownerFrom.induct)
  case (2 h s ts t)
  then show ?case by (auto simp: insert_next_to_at isSection_def)
next
  case (3 h y ts t)
  then show ?case by (auto simp: insert_next_to_at isSection_def)
qed simp

lemma ownerFrom_first:
  assumes "x \<notin> set (tokSyms ts)"
  shows "ownerFrom h (insert_next_to False isHeader (TSymbol x) ts) x = Some h"
  using assms
proof (induction h ts x rule: ownerFrom.induct)
  case (3 h y ts t)
  then show ?case by (auto simp: insert_next_to_at isHeader_def)
qed (auto simp: insert_next_to_at isHeader_def)

lemma rest_tokens:
  "x \<notin> set (tokSyms (filter (\<lambda>y. \<not> isSymbol x y) ts))"
  "t \<noteq> x \<Longrightarrow> t \<in> set (tokSyms (filter (\<lambda>y. \<not> isSymbol x y) ts)) \<longleftrightarrow> t \<in> set (tokSyms ts)"
  "list_ex (isSection i) (filter (\<lambda>y. \<not> isSymbol x y) ts) \<longleftrightarrow> list_ex (isSection i) ts"
  by (induction ts rule: tokSyms.induct) (auto simp: isSymbol_def isSection_def)

lemma layout_tokens:
  assumes "wl_ok l"
  shows "tokSyms (layout l) = wl_symbols l" "list_ex (isSection i) (layout l) \<longleftrightarrow> i \<in> ws_id ` set (wl_sections l)"
proof -
  have "tokSyms (map bare ts) = tokSyms ts" for ts by (induction ts rule: tokSyms.induct) auto
  then show "tokSyms (layout l) = wl_symbols l" using tokens_of_list(1) [OF assms] by (simp add: layout_def)
  have *: "list_ex (isSection i) (map bare ts) \<longleftrightarrow> i \<in> ws_id ` set (tokSecs k ts)" for k ts
    by (induction k ts rule: tokSecs.induct) (auto simp: isSection_def)
  show "list_ex (isSection i) (layout l) \<longleftrightarrow> i \<in> ws_id ` set (wl_sections l)"
    unfolding layout_def * [of _ 0] tokens_of_list(2) [OF assms] by simp
qed

lemma tokens_section: "wl_ok l \<Longrightarrow> list_ex (isSection i) (toLayoutTokens l) \<longleftrightarrow> i \<in> ws_id ` set (wl_sections l)"
  using layout_tokens(2) [of l i] by (simp add: layout_def list_ex_iff)

lemma list_ex_filter: "list_ex P (filter Q xs) \<Longrightarrow> list_ex P xs"
  by (auto simp: list_ex_iff)

lemma moveToSection_none:
  assumes "wl_ok l" "ticker \<notin> set (wl_symbols l) \<or> i \<notin> ws_id ` set (wl_sections l)" shows "moveSymbolToSectionInList l ticker i mode = l"
  using assms tokens_section [OF assms(1), of i] list_ex_filter [of "isSection i" _ "toLayoutTokens l"]
  by (auto simp: moveSymbolToSectionInList_def Let_def)

lemma moveSection_none:
  assumes "wl_ok l" "i \<notin> ws_id ` set (wl_sections l) \<or> target = ToSection j edge \<and> (j = i \<or> j \<notin> ws_id ` set (wl_sections l))"
  shows "moveSectionInList l i target = l"
proof (cases "i \<in> ws_id ` set (wl_sections l)")
  case True
  then have "j = i \<or> \<not> list_ex (isSection j) (filter (\<lambda>tok. \<not> isSection i tok) (toLayoutTokens l))" "target = ToSection j edge"
    using assms tokens_section [OF assms(1), of j] list_ex_filter [of "isSection j" _ "toLayoutTokens l"] by auto
  then show ?thesis by (auto simp: moveSectionInList_def Let_def split: option.split)
next
  case False
  then have "find (isSection i) (toLayoutTokens l) = None"
    using tokens_section [OF assms(1), of i] by (auto simp: find_None_iff list_ex_iff)
  then show ?thesis by (simp add: moveSectionInList_def)
qed

text \<open>A drag that turned \<open>l\<close> into \<open>l'\<close> kept it well formed, kept its items and shows \<open>ts\<close>.\<close>

abbreviation edited_to :: "watchlist \<Rightarrow> watchlist \<Rightarrow> token list \<Rightarrow> bool" where
  "edited_to l l' ts \<equiv> wl_ok l' \<and> items l' = items l \<and> layout l' = ts"

abbreviation layout_without :: "watchlist \<Rightarrow> string \<Rightarrow> token list" where
  "layout_without l ticker \<equiv> filter (\<lambda>x. \<not> isSymbol ticker x) (layout l)"

lemma moveSection_drag:
  assumes "wl_ok l" "sec \<in> set (wl_sections l)"
  shows "let l' = moveSectionInList l (ws_id sec) target; rest = filter (\<lambda>x. \<not> isSection (ws_id sec) x) (layout l)
    in if case target of ToSection j _ \<Rightarrow> j \<noteq> ws_id sec \<and> j \<in> ws_id ` set (wl_sections l) | _ \<Rightarrow> True
       then edited_to l l' (insert_at (sectionDestination target (length (wl_symbols l)) rest) (bare (TSection sec)) rest)
       else l' = l"
proof (cases "case target of ToSection j _ \<Rightarrow> j \<noteq> ws_id sec \<and> j \<in> ws_id ` set (wl_sections l) | _ \<Rightarrow> True")
  case True
  then show ?thesis using moveSection_layout [OF assms, of target] unfolding Let_def by (cases target) simp_all
next
  case False
  then obtain j edge where "target = ToSection j edge" "j = ws_id sec \<or> j \<notin> ws_id ` set (wl_sections l)"
    by (cases target) auto
  then have "moveSectionInList l (ws_id sec) target = l" using moveSection_none [OF assms(1)] by blast
  then show ?thesis unfolding Let_def if_not_P [OF False] .
qed

text \<open>
  C15.  Every drag is an edit of what is seen.  On a well-formed list, with or without headers, a drag keeps the list well
  formed, loses and duplicates neither a symbol nor a header, and changes the layout as the gesture says: a symbol dropped
  on another is taken out and put next to it; one dropped on a header goes right before or right behind the header; one
  moved to the unsectioned area goes in front of the first header, or to the top of a list that has no header; a header
  is taken out and put at the start, at the requested symbol boundary or next to the other header.  A drag of or onto something the
  list does not have, or of something onto itself, leaves the list as it is.
\<close>

theorem drags_edit_the_layout:
  assumes "wl_ok l"
  shows "(\<forall>target edge. let l' = moveSymbolRelativeToSymbolInList l ticker target edge
         in if ticker \<in> set (wl_symbols l) \<and> target \<in> set (wl_symbols l) \<and> ticker \<noteq> target
            then edited_to l l' (insert_next_to (edge = EdgeAfter) (isSymbol target) (TSymbol ticker) (layout_without l ticker))
            else l' = l)
    \<and> (\<forall>i mode. let l' = moveSymbolToSectionInList l ticker i mode
         in if ticker \<in> set (wl_symbols l) \<and> i \<in> ws_id ` set (wl_sections l)
            then edited_to l l' (insert_next_to (mode \<noteq> BeforeSection) (isSection i) (TSymbol ticker) (layout_without l ticker))
            else l' = l)
    \<and> (let l' = moveSymbolToUnsectionedStartInList l ticker
       in if ticker \<notin> set (wl_symbols l) then l' = l
          else if wl_sections l = [] then edited_to l l' (TSymbol ticker # layout_without l ticker)
          else edited_to l l' (insert_next_to False isHeader (TSymbol ticker) (layout_without l ticker)))
    \<and> (\<forall>sec target. sec \<in> set (wl_sections l) \<longrightarrow>
        (let l' = moveSectionInList l (ws_id sec) target; rest = filter (\<lambda>x. \<not> isSection (ws_id sec) x) (layout l)
         in if case target of ToSection j _ \<Rightarrow> j \<noteq> ws_id sec \<and> j \<in> ws_id ` set (wl_sections l) | _ \<Rightarrow> True
            then edited_to l l' (insert_at (sectionDestination target (length (wl_symbols l)) rest) (bare (TSection sec)) rest)
            else l' = l))
    \<and> (\<forall>i target. i \<notin> ws_id ` set (wl_sections l) \<longrightarrow> moveSectionInList l i target = l)"
proof (intro conjI allI impI)
  show "let l' = moveSymbolRelativeToSymbolInList l ticker target edge
         in if ticker \<in> set (wl_symbols l) \<and> target \<in> set (wl_symbols l) \<and> ticker \<noteq> target
            then edited_to l l' (insert_next_to (edge = EdgeAfter) (isSymbol target) (TSymbol ticker) (layout_without l ticker))
            else l' = l" for target edge
    using moveRelative_layout [OF assms, of ticker target edge] by (auto simp: Let_def moveSymbolRelativeToSymbolInList_def)
  show "let l' = moveSymbolToSectionInList l ticker i mode
         in if ticker \<in> set (wl_symbols l) \<and> i \<in> ws_id ` set (wl_sections l)
            then edited_to l l' (insert_next_to (mode \<noteq> BeforeSection) (isSection i) (TSymbol ticker) (layout_without l ticker))
            else l' = l" for i mode
    using moveToSection_layout [OF assms, of ticker i mode] moveToSection_none [OF assms, of ticker i mode] by (simp only: Let_def) argo
  show "let l' = moveSymbolToUnsectionedStartInList l ticker
       in if ticker \<notin> set (wl_symbols l) then l' = l
          else if wl_sections l = [] then edited_to l l' (TSymbol ticker # layout_without l ticker)
          else edited_to l l' (insert_next_to False isHeader (TSymbol ticker) (layout_without l ticker))"
    using moveToStart_layout [OF assms, of ticker]
    by (cases "wl_sections l = []") (auto simp: Let_def moveSymbolToUnsectionedStartInList_def [of l ticker])
  show "let l' = moveSectionInList l (ws_id sec) target; rest = filter (\<lambda>x. \<not> isSection (ws_id sec) x) (layout l)
         in if case target of ToSection j _ \<Rightarrow> j \<noteq> ws_id sec \<and> j \<in> ws_id ` set (wl_sections l) | _ \<Rightarrow> True
            then edited_to l l' (insert_at (sectionDestination target (length (wl_symbols l)) rest) (bare (TSection sec)) rest)
            else l' = l" if "sec \<in> set (wl_sections l)" for sec target
    using moveSection_drag [OF assms that] .
  show "moveSectionInList l i target = l" if "i \<notin> ws_id ` set (wl_sections l)" for i target
    using moveSection_none [OF assms] that by blast
qed

definition sampleList :: watchlist where
  "sampleList = \<lparr>wl_id = ''l'', wl_name = ''List'', wl_symbols = [''BTCUSDT'', ''XAUUSD''],
     wl_sections = [\<lparr>ws_id = ''s'', ws_title = ''Metals'', ws_index = 1\<rparr>], wl_shared = False, wl_sortKey = Manual, wl_sortDir = Asc\<rparr>"

lemma sampleList_ok: "wl_ok sampleList" "''BTCUSDT'' \<in> set (wl_symbols sampleList)" "hd (wl_sections sampleList) \<in> set (wl_sections sampleList)"
  "sections_in_order sampleList"
  by (simp_all add: sampleList_def wl_ok_def)

theorem drags_edit_the_layout_witness:
  "wl_ok (moveSymbolToUnsectionedStartInList sampleList ''BTCUSDT'')
   \<and> items (moveSymbolToUnsectionedStartInList sampleList ''BTCUSDT'') = items sampleList"
  using conjunct1 [OF conjunct2 [OF conjunct2 [OF drags_edit_the_layout [OF sampleList_ok(1), of "''BTCUSDT''"]]]] sampleList_ok(2)
  by (simp add: Let_def split: if_splits)

text \<open>
  A symbol drag moves one symbol between sections and no other.  The dragged symbol ends in the section of the symbol
  it was dropped on, in the section whose header it was dropped on, or above all headers; every other symbol stays in its section.
\<close>

theorem drags_keep_other_sections:
  assumes "wl_ok l" "ticker \<in> set (wl_symbols l)"
  shows "(\<forall>target edge. target \<in> set (wl_symbols l) \<and> ticker \<noteq> target \<longrightarrow>
        sectionOf (moveSymbolRelativeToSymbolInList l ticker target edge) = (sectionOf l)(ticker := sectionOf l target))
    \<and> (\<forall>i \<in> ws_id ` set (wl_sections l). sectionOf (moveSymbolToSectionInList l ticker i InsideSection) = (sectionOf l)(ticker := Some (Some i)))
    \<and> sectionOf (moveSymbolToUnsectionedStartInList l ticker) = (sectionOf l)(ticker := Some None)"
proof (intro conjI allI impI ballI)
  let ?rest = "filter (\<lambda>x. \<not> isSymbol ticker x) (layout l)"
  show "sectionOf (moveSymbolRelativeToSymbolInList l ticker target edge) = (sectionOf l)(ticker := sectionOf l target)"
    if t: "target \<in> set (wl_symbols l) \<and> ticker \<noteq> target" for target edge
  proof
    fix u
    have "layout (moveSymbolRelativeToSymbolInList l ticker target edge) = insert_next_to (edge = EdgeAfter) (isSymbol target) (TSymbol ticker) ?rest"
      using moveRelative_layout [OF assms] t by blast
    moreover have "ownerFrom None (insert_next_to (edge = EdgeAfter) (isSymbol target) (TSymbol ticker) ?rest) ticker = ownerFrom None ?rest target"
      using t layout_tokens(1) [OF assms(1)] by (intro ownerFrom_next_to rest_tokens(1)) (subst rest_tokens(2), auto)
    ultimately show "sectionOf (moveSymbolRelativeToSymbolInList l ticker target edge) u = ((sectionOf l)(ticker := sectionOf l target)) u"
      using t by (cases "u = ticker") (simp_all add: sectionOf_def ownerFrom_filter, simp add: insert_next_to_at ownerFrom_insert_at ownerFrom_filter)
  qed
  show "sectionOf (moveSymbolToSectionInList l ticker i InsideSection) = (sectionOf l)(ticker := Some (Some i))"
    if i: "i \<in> ws_id ` set (wl_sections l)" for i
  proof
    fix u
    have "layout (moveSymbolToSectionInList l ticker i InsideSection) = insert_next_to True (isSection i) (TSymbol ticker) ?rest"
      using moveToSection_layout [OF assms i, of InsideSection] by simp
    moreover have "ownerFrom None (insert_next_to True (isSection i) (TSymbol ticker) ?rest) ticker = Some (Some i)"
      using i layout_tokens(2) [OF assms(1)] by (intro ownerFrom_into rest_tokens) (simp add: rest_tokens)
    ultimately show "sectionOf (moveSymbolToSectionInList l ticker i InsideSection) u = ((sectionOf l)(ticker := Some (Some i))) u"
      by (cases "u = ticker") (simp_all add: sectionOf_def, simp add: insert_next_to_at ownerFrom_insert_at ownerFrom_filter)
  qed
  show "sectionOf (moveSymbolToUnsectionedStartInList l ticker) = (sectionOf l)(ticker := Some None)"
  proof
    fix u
    have "layout (moveSymbolToUnsectionedStartInList l ticker)
      = (if wl_sections l \<noteq> [] then insert_next_to False isHeader (TSymbol ticker) ?rest else insert_at 0 (TSymbol ticker) ?rest)"
      using moveToStart_layout [OF assms] by (simp add: Let_def)
    moreover have "ownerFrom None (insert_next_to False isHeader (TSymbol ticker) ?rest) ticker = Some None"
      by (intro ownerFrom_first rest_tokens)
    ultimately show "sectionOf (moveSymbolToUnsectionedStartInList l ticker) u = ((sectionOf l)(ticker := Some None)) u"
      by (cases "u = ticker") (simp_all add: sectionOf_def ownerFrom_insert_at [of _ _ _ 0, simplified] ownerFrom_filter,
        simp add: insert_next_to_at ownerFrom_insert_at ownerFrom_filter)
  qed
qed

theorem drags_keep_other_sections_witness:
  "sectionOf (moveSymbolToUnsectionedStartInList sampleList ''BTCUSDT'') ''BTCUSDT'' = Some None"
  using conjunct2 [OF conjunct2 [OF drags_keep_other_sections [OF sampleList_ok(1,2)]]] by simp

text \<open>
  The index arithmetic agrees with the layout.  On a well-formed list that keeps its sections in the order of their indices,
  removing a symbol and moving one to an index, which only shift section indices, have the same effect on what is seen as
  taking the symbol out, and for a move putting it behind the requested number of symbols, before or behind the headers at
  that boundary; both keep the list well formed and in order.
\<close>

theorem index_shifts_edit_the_layout:
  assumes "wl_ok l" "sections_in_order l" "ticker \<in> set (wl_symbols l)"
  shows "(let l' = removeSymbolFromList l ticker
          in wl_ok l' \<and> sections_in_order l' \<and> layout l' = filter (\<lambda>x. \<not> isSymbol ticker x) (layout l))
    \<and> (\<forall>requestedIndex mode. let l' = moveSymbolInList l ticker requestedIndex mode
          in wl_ok l' \<and> sections_in_order l' \<and> items l' = items l
             \<and> (if clampSectionIndex requestedIndex (length (wl_symbols l)) = symbolIndex ticker (wl_symbols l) then l' = l
                else let rest = filter (\<lambda>x. \<not> isSymbol ticker x) (layout l)
                     in layout l' = insert_at (symbolSlot mode (destinationIndex l ticker requestedIndex) rest) (TSymbol ticker) rest))"
proof (intro conjI allI)
  show "let l' = removeSymbolFromList l ticker
          in wl_ok l' \<and> sections_in_order l' \<and> layout l' = filter (\<lambda>x. \<not> isSymbol ticker x) (layout l)"
    using removeSymbol_layout [OF assms(1,2)] unfolding Let_def .
  fix requestedIndex mode
  have "moveSymbolInList l ticker requestedIndex mode = l"
    if at_place: "clampSectionIndex requestedIndex (length (wl_symbols l)) = symbolIndex ticker (wl_symbols l)"
  proof -
    obtain us vs where "symbolIndex ticker (wl_symbols l) = length (tokSyms us)" "filter (\<lambda>t. t \<noteq> ticker) (wl_symbols l) = tokSyms (us @ vs)"
      using ordered_split [OF assms] by metis
    then show ?thesis using at_place by (simp add: moveSymbolInList_def Let_def)
  qed
  then show "let l' = moveSymbolInList l ticker requestedIndex mode
          in wl_ok l' \<and> sections_in_order l' \<and> items l' = items l
             \<and> (if clampSectionIndex requestedIndex (length (wl_symbols l)) = symbolIndex ticker (wl_symbols l) then l' = l
                else let rest = filter (\<lambda>x. \<not> isSymbol ticker x) (layout l)
                     in layout l' = insert_at (symbolSlot mode (destinationIndex l ticker requestedIndex) rest) (TSymbol ticker) rest)"
    using moveSymbol_layout [OF assms, of requestedIndex mode] assms(1,2)
    by (cases "clampSectionIndex requestedIndex (length (wl_symbols l)) = symbolIndex ticker (wl_symbols l)") (simp_all only: Let_def if_True if_False simp_thms)
qed

theorem index_shifts_edit_the_layout_witness:
  "layout (removeSymbolFromList sampleList ''BTCUSDT'') = filter (\<lambda>x. \<not> isSymbol ''BTCUSDT'' x) (layout sampleList)"
  using conjunct1 [OF index_shifts_edit_the_layout [OF sampleList_ok(1,4,2)]] by (simp only: Let_def)

text \<open>Order in a list.\<close>

definition precedes :: "'a list \<Rightarrow> 'a \<Rightarrow> 'a \<Rightarrow> bool" where
  "precedes xs a b \<longleftrightarrow> (\<exists>us ms vs. xs = us @ a # ms @ b # vs)"

lemma precedes_Cons [simp]: "precedes (x # xs) a b \<longleftrightarrow> x = a \<and> b \<in> set xs \<or> precedes xs a b"
proof
  assume "precedes (x # xs) a b"
  then obtain us ms vs where u: "x # xs = us @ a # ms @ b # vs" by (auto simp: precedes_def)
  then show "x = a \<and> b \<in> set xs \<or> precedes xs a b" by (cases us) (auto simp: precedes_def)
next
  assume "x = a \<and> b \<in> set xs \<or> precedes xs a b"
  then show "precedes (x # xs) a b"
  proof
    assume "x = a \<and> b \<in> set xs"
    then show ?thesis unfolding precedes_def by (metis append_Nil split_list)
  next
    assume "precedes xs a b"
    then show ?thesis unfolding precedes_def by (metis append_Cons)
  qed
qed

lemma precedes_Nil [simp]: "\<not> precedes [] a b"
  by (simp add: precedes_def)

lemma precedes_filter: "precedes (filter P xs) a b \<longleftrightarrow> P a \<and> P b \<and> precedes xs a b"
  by (induction xs) auto

lemma precedes_last: "distinct xs \<Longrightarrow> precedes xs a b \<Longrightarrow> last xs \<noteq> a"
proof -
  assume "distinct xs" "precedes xs a b"
  then obtain us ms vs where xs: "xs = us @ a # ms @ b # vs" "a \<notin> set (b # vs)" by (auto simp: precedes_def)
  then have "last xs = last (b # vs)" by simp
  moreover have "last (b # vs) \<in> set (b # vs)" by (rule last_in_set) simp
  ultimately show ?thesis using xs(2) by auto
qed

lemma precedes_mem: "precedes xs a b \<Longrightarrow> b \<in> set xs"
  by (auto simp: precedes_def)

lemma precedes_map: "precedes xs a b \<Longrightarrow> precedes (map f xs) (f a) (f b)"
  by (induction xs) auto

lemma precedes_stable:
  assumes "precedes xs a b" "f a = f b" shows "precedes (sort_key f xs) a b"
proof -
  have "precedes (filter (\<lambda>x. f x = f b) (sort_key f xs)) a b"
    unfolding sort_key_stable using assms by (simp add: precedes_filter)
  then show ?thesis by (simp add: precedes_filter)
qed

lemma precedes_sorted: "sorted (map f xs) \<Longrightarrow> a \<in> set xs \<Longrightarrow> b \<in> set xs \<Longrightarrow> f a < f b \<Longrightarrow> precedes xs a b"
  by (induction xs) force+

lemma bare_index [simp]: "bare (TSection (s\<lparr>ws_index := k\<rparr>)) = bare (TSection s)"
  by simp

lemma header_listed: "s \<in> set (tokSecs k ts) \<Longrightarrow> bare (TSection s) \<in> set (map bare ts)"
  by (induction k ts rule: tokSecs.induct) auto

lemma precedes_tokens: "precedes (tokSecs k ts) a b \<Longrightarrow> precedes (map bare ts) (bare (TSection a)) (bare (TSection b))"
  by (induction k ts rule: tokSecs.induct) (auto dest: header_listed)

lemma precedes_layout:
  "wl_ok l \<Longrightarrow> precedes (sort_key ws_index (wl_sections l)) a b \<Longrightarrow> precedes (layout l) (bare (TSection a)) (bare (TSection b))"
  unfolding layout_def by (rule precedes_tokens [of 0]) (simp add: tokens_of_list)

text \<open>The section of a symbol is the last header whose index is not behind it.\<close>

lemma ownerFrom_headers: "ownerFrom h (map bare (map TSection ss @ ts)) t = ownerFrom (if ss = [] then h else Some (ws_id (last ss))) (map bare ts) t"
  by (induction ss arbitrary: h) auto

lemma ownerFrom_layoutLoop:
  assumes "sorted (map ws_index ss)" "\<And>s. s \<in> set ss \<Longrightarrow> k \<le> ws_index s" "distinct ts" "j < length ts"
  shows "ownerFrom h (map bare (layoutLoop k ss ts)) (ts ! j)
    = Some (let xs = filter (\<lambda>s. ws_index s \<le> k + j) ss in if xs = [] then h else Some (ws_id (last xs)))"
  using assms
proof (induction ts arbitrary: k ss j h)
  case (Cons t ts)
  let ?us = "takeWhile (\<lambda>s. ws_index s = k) ss" and ?vs = "dropWhile (\<lambda>s. ws_index s = k) ss"
  let ?h = "if ?us = [] then h else Some (ws_id (last ?us))"
  have vs: "sorted (map ws_index ?vs)" using Cons.prems(1) by (metis dropWhile_eq_drop drop_map sorted_wrt_drop)
  have lt: "k < ws_index s" if s: "s \<in> set ?vs" for s
  proof -
    have "?vs \<noteq> []" using s by (metis empty_iff list.set(1))
    then have "ws_index (hd ?vs) \<noteq> k" "hd ?vs \<in> set ?vs" using hd_dropWhile [of "\<lambda>s. ws_index s = k" ss] by auto
    moreover have "ws_index (hd ?vs) \<le> ws_index s" using vs s by (cases ?vs) auto
    moreover have "k \<le> ws_index (hd ?vs)" using calculation(2) Cons.prems(2) by (meson set_dropWhileD)
    ultimately show ?thesis by simp
  qed
  have "filter (\<lambda>s. ws_index s \<le> k + j) ss = filter (\<lambda>s. ws_index s \<le> k + j) (?us @ ?vs)" by simp
  also have "\<dots> = ?us @ filter (\<lambda>s. ws_index s \<le> k + j) ?vs"
    unfolding filter_append by (auto simp: filter_id_conv dest: set_takeWhileD)
  finally have fl: "filter (\<lambda>s. ws_index s \<le> k + j) ss = ?us @ filter (\<lambda>s. ws_index s \<le> k + j) ?vs" .
  have step: "ownerFrom h (map bare (layoutLoop k ss (t # ts))) ((t # ts) ! j)
      = ownerFrom ?h (map bare (TSymbol t # layoutLoop (k + 1) ?vs ts)) ((t # ts) ! j)"
    unfolding layoutLoop.simps by (rule ownerFrom_headers)
  show ?case
  proof (cases j)
    case 0
    then have "filter (\<lambda>s. ws_index s \<le> k + j) ?vs = []" unfolding filter_empty_conv using lt by (simp add: not_le)
    then show ?thesis unfolding step fl using 0 by (simp add: Let_def)
  next
    case (Suc i)
    then have "t \<noteq> ts ! i" "i < length ts" using Cons.prems(3,4) by auto
    moreover from this have "ownerFrom ?h (map bare (layoutLoop (k + 1) ?vs ts)) (ts ! i)
        = Some (let xs = filter (\<lambda>s. ws_index s \<le> k + 1 + i) ?vs in if xs = [] then ?h else Some (ws_id (last xs)))"
      using Cons.prems(3) vs lt by (intro Cons.IH) (auto simp: Suc_le_eq)
    ultimately show ?thesis unfolding step fl using Suc by (auto simp: Let_def)
  qed
qed simp

lemma sectionOf_nth:
  assumes "wl_ok l" "j < length (wl_symbols l)"
  shows "sectionOf l (wl_symbols l ! j) = Some (let xs = filter (\<lambda>s. ws_index s \<le> j) (sort_key ws_index (wl_sections l))
    in if xs = [] then None else Some (ws_id (last xs)))"
  using ownerFrom_layoutLoop [of "sort_key ws_index (wl_sections l)" 0 "wl_symbols l" j None] assms
  by (simp add: sectionOf_def layout_def toLayoutTokens_def wl_ok_def sortSections_key)

text \<open>Removing a symbol of a well-formed list moves the indices behind it down by one, whatever the stored order.\<close>

definition indexRemoved :: "nat \<Rightarrow> wl_section \<Rightarrow> wl_section" where
  "indexRemoved k s = s\<lparr>ws_index := (if k < ws_index s then ws_index s - 1 else ws_index s)\<rparr>"

lemma indexRemoved_simps [simp]:
  "ws_id (indexRemoved k s) = ws_id s" "bare (TSection (indexRemoved k s)) = bare (TSection s)"
  "ws_index (indexRemoved k s) = (if k < ws_index s then ws_index s - 1 else ws_index s)"
  by (simp_all add: indexRemoved_def)

lemma removed_at:
  assumes "wl_ok l" "k < length (wl_symbols l)"
  defines "l' \<equiv> removeSymbolFromList l (wl_symbols l ! k)"
  shows "wl_symbols l' = take k (wl_symbols l) @ drop (Suc k) (wl_symbols l)"
    "wl_sections l' = map (indexRemoved k) (wl_sections l)" "wl_ok l'"
proof -
  let ?ts = "wl_symbols l" and ?t = "wl_symbols l ! k"
  have sp: "?ts = take k ?ts @ ?t # drop (Suc k) ?ts" using id_take_nth_drop [OF assms(2)] .
  have "distinct (take k ?ts @ ?t # drop (Suc k) ?ts)" using assms(1) sp by (simp add: wl_ok_def)
  then have out: "?t \<notin> set (take k ?ts)" "?t \<notin> set (drop (Suc k) ?ts)" by auto
  have "takeWhile (\<lambda>x. x \<noteq> ?t) (take k ?ts @ ?t # drop (Suc k) ?ts) = take k ?ts"
    using out(1) by (subst takeWhile_append2) auto
  then have i: "symbolIndex ?t ?ts = k" using assms(2) sp by (simp add: symbolIndex_def)
  have "filter (\<lambda>x. x \<noteq> ?t) (take k ?ts @ ?t # drop (Suc k) ?ts) = take k ?ts @ drop (Suc k) ?ts"
    using out by (auto intro!: arg_cong2 [of _ _ _ _ append] filter_True)
  then have fl: "filter (\<lambda>x. x \<noteq> ?t) ?ts = take k ?ts @ drop (Suc k) ?ts" using sp by simp
  have len: "length (take k ?ts @ drop (Suc k) ?ts) = length ?ts - 1" using assms(2) by simp
  have idx: "ws_index x \<le> length ?ts" if "x \<in> set (wl_sections l)" for x using assms(1) that by (simp add: wl_ok_def list_all_iff)
  have secs: "map (\<lambda>s. s\<lparr>ws_index := (if k < ws_index s then min (ws_index s - 1) (length ?ts - 1) else min (ws_index s) (length ?ts - 1))\<rparr>)
      (wl_sections l) = map (indexRemoved k) (wl_sections l)"
    using idx assms(2) by (intro map_cong) (auto simp: indexRemoved_def min_def dest!: idx)
  have keep: "filter (\<lambda>s. ws_index s \<le> length ?ts - 1) (map (indexRemoved k) (wl_sections l)) = map (indexRemoved k) (wl_sections l)"
    using idx assms(2) by (auto simp: filter_id_conv dest!: idx)
  have l': "l' = l\<lparr>wl_symbols := take k ?ts @ drop (Suc k) ?ts, wl_sections := map (indexRemoved k) (wl_sections l)\<rparr>"
    using assms(2) keep unfolding l'_def removeSymbolFromList_def i fl Let_def clamp_numOf len secs by simp
  then show "wl_symbols l' = take k ?ts @ drop (Suc k) ?ts" "wl_sections l' = map (indexRemoved k) (wl_sections l)" by simp_all
  have "distinct (take k ?ts @ drop (Suc k) ?ts)" using assms(1) unfolding fl [symmetric] by (simp add: wl_ok_def)
  moreover have "list_all (\<lambda>s. ws_index s \<le> length ?ts - 1) (map (indexRemoved k) (wl_sections l))"
    using idx assms(2) by (auto simp: list_all_iff dest!: idx)
  ultimately show "wl_ok l'" using assms(1) len unfolding l' wl_ok_def by (simp add: comp_def)
qed

lemma last_sorted: "sorted (map f xs) \<Longrightarrow> x \<in> set xs \<Longrightarrow> f x \<le> f (last xs)"
  by (induction xs) auto

text \<open>Two headers around one symbol, stored against their order on screen, seen from the symbols below them.\<close>

lemma owner_before_removal:
  assumes "wl_ok l" "j < length (wl_symbols l)" "k < j" "a \<in> set (wl_sections l)" "ws_index a = Suc k" "ws_index b = k"
    and others: "\<forall>s \<in> set (wl_sections l). s = a \<or> s = b \<or> ws_index s < k \<or> j < ws_index s"
  shows "sectionOf l (wl_symbols l ! j) = Some (Some (ws_id a))"
proof -
  let ?xs = "filter (\<lambda>s. ws_index s \<le> j) (sort_key ws_index (wl_sections l))"
  have a: "a \<in> set ?xs" using assms by simp
  have "sorted (map ws_index ?xs)" using sorted_filter [of ws_index "sort_key ws_index (wl_sections l)"] by simp
  then have "Suc k \<le> ws_index (last ?xs)" using last_sorted a assms(5) by metis
  moreover have ne: "?xs \<noteq> []" using a by (metis empty_iff list.set(1))
  then have "last ?xs \<in> set ?xs" by (rule last_in_set)
  ultimately have "last ?xs = a" using others assms(6) by force
  then show ?thesis using sectionOf_nth [OF assms(1,2)] ne by (simp add: Let_def)
qed

lemma owner_after_removal:
  assumes "wl_ok l" "j < length (wl_symbols l)" "k < j" "precedes (wl_sections l) a b" "ws_index a = Suc k" "ws_index b = k"
    and others: "\<forall>s \<in> set (wl_sections l). s = a \<or> s = b \<or> ws_index s < k \<or> j < ws_index s"
  shows "sectionOf (removeSymbolFromList l (wl_symbols l ! k)) (wl_symbols l ! j) = Some (Some (ws_id b))"
proof -
  define l' where "l' = removeSymbolFromList l (wl_symbols l ! k)"
  have k: "k < length (wl_symbols l)" using assms(2,3) by simp
  note r = removed_at [OF assms(1) k, folded l'_def]
  let ?xs = "filter (\<lambda>s. ws_index s \<le> j - 1) (sort_key ws_index (wl_sections l'))"
  have "precedes (wl_sections l') (indexRemoved k a) (indexRemoved k b)" unfolding r(2) using assms(4) by (rule precedes_map)
  then have "precedes (sort_key ws_index (wl_sections l')) (indexRemoved k a) (indexRemoved k b)"
    using assms(5,6) by (intro precedes_stable) simp_all
  then have p: "precedes ?xs (indexRemoved k a) (indexRemoved k b)" using assms(3,5,6) by (simp add: precedes_filter)
  then have b: "indexRemoved k b \<in> set ?xs" by (rule precedes_mem)
  have "distinct (wl_sections l')" using r(3) by (simp add: wl_ok_def distinct_map)
  then have na: "last ?xs \<noteq> indexRemoved k a" using p by (intro precedes_last) simp_all
  have "sorted (map ws_index ?xs)" using sorted_filter [of ws_index "sort_key ws_index (wl_sections l')"] by simp
  then have ge: "k \<le> ws_index (last ?xs)" using last_sorted [OF _ b, of ws_index] assms(6) by simp
  have ne: "?xs \<noteq> []" using b by (metis empty_iff list.set(1))
  then have "last ?xs \<in> set ?xs" by (rule last_in_set)
  then obtain s where s: "s \<in> set (wl_sections l)" "last ?xs = indexRemoved k s" "ws_index (indexRemoved k s) \<le> j - 1"
    using r(2) by auto
  then have "s = b" using others ge na assms(3) by (force split: if_splits)
  then have "last ?xs = indexRemoved k b" using s(2) by simp
  moreover have "wl_symbols l' ! (j - 1) = wl_symbols l ! j" "j - 1 < length (wl_symbols l')"
    using assms(2,3) by (auto simp: r(1) nth_append min_def)
  ultimately show ?thesis using sectionOf_nth [OF r(3), of "j - 1"] ne unfolding l'_def [symmetric] by (simp add: Let_def)
qed

text \<open>
  C37.  On a list that does not keep its sections in order, removing a symbol does more.  Whenever a header \<open>a\<close> right
  behind a symbol is stored before a header \<open>b\<close> right in front of it (a new section is appended to the stored sections
  whatever its index), removing the symbol makes the two headers change places on screen, and every symbol
  below them, down to the next header, leaves section \<open>a\<close> for section \<open>b\<close>.
\<close>

theorem removal_swaps_headers:
  assumes "wl_ok l" "k < length (wl_symbols l)" "precedes (wl_sections l) a b" "ws_index a = Suc k" "ws_index b = k"
  shows "let l' = removeSymbolFromList l (wl_symbols l ! k)
    in precedes (layout l) (bare (TSection b)) (bare (TSection a)) \<and> precedes (layout l') (bare (TSection a)) (bare (TSection b))
     \<and> (\<forall>j. k < j \<and> j < length (wl_symbols l) \<and> (\<forall>s \<in> set (wl_sections l). s = a \<or> s = b \<or> ws_index s < k \<or> j < ws_index s) \<longrightarrow>
          sectionOf l (wl_symbols l ! j) = Some (Some (ws_id a)) \<and> sectionOf l' (wl_symbols l ! j) = Some (Some (ws_id b)))"
proof -
  have ab: "a \<in> set (wl_sections l)" "b \<in> set (wl_sections l)" using assms(3) by (auto simp: precedes_def)
  note r = removed_at [OF assms(1,2)]
  have "precedes (layout l) (bare (TSection b)) (bare (TSection a))"
    using assms(1,4,5) ab by (intro precedes_layout precedes_sorted [of ws_index]) simp_all
  moreover have "precedes (sort_key ws_index (map (indexRemoved k) (wl_sections l))) (indexRemoved k a) (indexRemoved k b)"
    using assms(4,5) by (intro precedes_stable precedes_map assms(3)) simp
  then have "precedes (layout (removeSymbolFromList l (wl_symbols l ! k))) (bare (TSection a)) (bare (TSection b))"
    using precedes_layout [OF r(3), of "indexRemoved k a" "indexRemoved k b"] unfolding r(2) indexRemoved_simps by simp
  ultimately show ?thesis
    using owner_before_removal [OF assms(1) _ _ ab(1) assms(4,5)] owner_after_removal [OF assms(1) _ _ assms(3-5)]
    unfolding Let_def by blast
qed

theorem removal_swaps_headers_witness:
  "sectionOf (sampleList\<lparr>wl_sections := wl_sections sampleList @ [createWatchlistSection ''n'' [] (numOf 0) 2]\<rparr>) ''XAUUSD'' = Some (Some ''s'')
   \<and> sectionOf (removeSymbolFromList (sampleList\<lparr>wl_sections := wl_sections sampleList @ [createWatchlistSection ''n'' [] (numOf 0) 2]\<rparr>) ''BTCUSDT'')
       ''XAUUSD'' = Some (Some ''n'')"
proof -
  let ?a = "\<lparr>ws_id = ''s'', ws_title = ''Metals'', ws_index = 1\<rparr>" and ?b = "createWatchlistSection ''n'' [] (numOf 0) 2"
  let ?l = "sampleList\<lparr>wl_sections := wl_sections sampleList @ [?b]\<rparr>"
  have b: "ws_id ?b = ''n''" "ws_index ?b = 0" by (simp_all only: createWatchlistSection_def clamp_numOf) simp_all
  have l: "wl_ok ?l" "wl_sections ?l = [?a, ?b]" "wl_symbols ?l = [''BTCUSDT'', ''XAUUSD'']"
    using b by (simp_all add: wl_ok_def sampleList_def)
  show ?thesis
    using removal_swaps_headers [OF l(1), of 0 ?a ?b] b unfolding l(2,3) by (simp add: Let_def) (metis less_one less_numeral_extra(1) lessI nth_Cons_0 nth_Cons_Suc One_nat_def)
qed

lemma upperChar_space: "c' \<in> set (js_upperChar c) \<Longrightarrow> js_space c' = js_space c"
proof -
  have "(if n = 223 then m = 83 else if 97 \<le> n \<and> n \<le> 122 \<or> 224 \<le> n \<and> n \<le> 254 \<and> n \<noteq> 247 then m = n - 32 else m = n) \<Longrightarrow>
    m \<in> {9, 10, 11, 12, 13, 32, 160} \<longleftrightarrow> n \<in> {9, 10, 11, 12, 13, 32, 160}" for m n :: nat
    by (simp split: if_splits) presburger+
  note this [of "of_char c" "of_char c'"]
  moreover assume "c' \<in> set (js_upperChar c)"
  moreover have "(of_char c :: nat) < 256" by (rule nat_of_char_less_256)
  ultimately show ?thesis by (auto simp: js_upperChar_def js_space_def Let_def split: if_splits)
qed

lemma upperChar_idem: "c' \<in> set (js_upperChar c) \<Longrightarrow> js_upperChar c' = [c']"
proof -
  assume a: "c' \<in> set (js_upperChar c)"
  have "(of_char c :: nat) < 256" by (rule nat_of_char_less_256)
  then have "\<not> (97 \<le> (of_char c' :: nat) \<and> of_char c' \<le> (122 :: nat)) \<and> \<not> (224 \<le> (of_char c' :: nat) \<and> of_char c' \<le> (254 :: nat) \<and> of_char c' \<noteq> (247 :: nat)) \<and> of_char c' \<noteq> (223 :: nat)"
    using a by (auto simp: js_upperChar_def Let_def split: if_splits)
  then show ?thesis unfolding js_upperChar_def Let_def by (subst if_not_P, blast, subst if_not_P) auto
qed

lemma upperChar_ne: "js_upperChar c \<noteq> []"
  by (simp add: js_upperChar_def Let_def)

lemma js_upper_idem [simp]: "js_upper (js_upper s) = js_upper s"
proof -
  have "concat (map js_upperChar xs) = xs" if "\<And>x. x \<in> set xs \<Longrightarrow> js_upperChar x = [x]" for xs
    using that by (induction xs) auto
  note this [of "js_upper s"]
  moreover have "js_upperChar x = [x]" if "x \<in> set (js_upper s)" for x using that by (auto simp: js_upper_def upperChar_idem)
  ultimately show ?thesis by (metis js_upper_def)
qed

lemma js_trim_ends: "js_trim s = [] \<or> \<not> js_space (hd (js_trim s)) \<and> \<not> js_space (last (js_trim s))"
proof -
  define xs where "xs = dropWhile js_space s"
  have "\<not> js_space (hd xs)" if "xs \<noteq> []" using hd_dropWhile [of js_space s] that xs_def by simp
  moreover have "js_trim s = rev (dropWhile js_space (rev xs))" by (simp add: js_trim_def xs_def)
  moreover have "xs \<noteq> [] \<Longrightarrow> \<not> js_space (hd xs) \<Longrightarrow> hd (rev (dropWhile js_space (rev xs))) = hd xs"
    by (cases xs) (auto simp: dropWhile_append)
  ultimately show ?thesis using hd_dropWhile [of js_space "rev xs"]
    by (cases "xs = []") (auto simp: last_rev hd_rev simp del: dropWhile_eq_Nil_conv)
qed

lemma js_trim_id: "s = [] \<or> \<not> js_space (hd s) \<and> \<not> js_space (last s) \<Longrightarrow> js_trim s = s"
proof -
  assume a: "s = [] \<or> \<not> js_space (hd s) \<and> \<not> js_space (last s)"
  then have "dropWhile js_space s = s" by (cases s) auto
  moreover have "dropWhile js_space (rev s) = rev s" using a by (cases s rule: rev_cases) auto
  ultimately show ?thesis by (simp add: js_trim_def)
qed

lemma trimmed_upper [simp]: "js_trim (js_upper (js_trim s)) = js_upper (js_trim s)"
proof (rule js_trim_id)
  let ?t = "js_trim s"
  show "js_upper ?t = [] \<or> \<not> js_space (hd (js_upper ?t)) \<and> \<not> js_space (last (js_upper ?t))"
  proof (cases "?t = []")
    case False
    then obtain c cs where t: "?t = c # cs" by (cases ?t) auto
    obtain ds d where t': "?t = ds @ [d]" using False by (cases ?t rule: rev_cases) auto
    have "hd (js_upper ?t) \<in> set (js_upperChar c)" "last (js_upper ?t) \<in> set (js_upperChar d)"
      using upperChar_ne by (simp add: t js_upper_def, simp add: t' js_upper_def last_append)
    then have "js_space (hd (js_upper ?t)) = js_space c" "js_space (last (js_upper ?t)) = js_space d" by (auto dest: upperChar_space)
    moreover have "c = hd ?t" "d = last ?t" by (simp add: t, simp add: t')
    ultimately show ?thesis using js_trim_ends [of s] False by blast
  qed (simp add: js_upper_def)
qed

lemma catalogSymbol_idem: "catalogSymbol C A s \<noteq> [] \<Longrightarrow> catalogSymbol C A s \<in> C \<and> catalogSymbol C A (catalogSymbol C A s) = catalogSymbol C A s"
  by (auto simp: catalogSymbol_def Let_def split: if_splits option.splits)

text \<open>The loop, as two functions.\<close>

fun kept_symbols :: "(string \<Rightarrow> string) \<Rightarrow> string list \<Rightarrow> string list \<Rightarrow> string list" where
  "kept_symbols f acc [] = acc"
| "kept_symbols f acc (s # ss) = kept_symbols f (if f s = [] \<or> f s \<in> set acc then acc else acc @ [f s]) ss"

fun kept_counts :: "(string \<Rightarrow> string) \<Rightarrow> string list \<Rightarrow> string list \<Rightarrow> nat list" where
  "kept_counts f acc [] = [length acc]"
| "kept_counts f acc (s # ss) = length acc # kept_counts f (if f s = [] \<or> f s \<in> set acc then acc else acc @ [f s]) ss"

lemma sanitizeLoop_eq: "sanitizeLoop f ss acc kept = (kept_symbols f acc ss, kept @ kept_counts f acc ss)"
  by (induction f ss acc kept rule: sanitizeLoop.induct) (auto simp: Let_def)

lemma kept_counts_length [simp]: "length (kept_counts f acc ss) = length ss + 1"
  by (induction f acc ss rule: kept_counts.induct) auto

lemma kept_symbols_grow: "length acc \<le> length (kept_symbols f acc ss)"
  by (induction f acc ss rule: kept_symbols.induct) (auto split: if_splits)

lemma kept_counts_le: "i \<le> length ss \<Longrightarrow> kept_counts f acc ss ! i \<le> length (kept_symbols f acc ss)"
proof (induction f acc ss arbitrary: i rule: kept_counts.induct)
  case (2 f acc s ss)
  show ?case
  proof (cases i)
    case 0
    then show ?thesis using kept_symbols_grow [of "if f s = [] \<or> f s \<in> set acc then acc else acc @ [f s]" f ss] by (auto split: if_splits)
  qed (use 2 in simp)
qed simp

lemma sanitize_eq:
  assumes "wl_ok l" "C \<noteq> {}"
  shows "sanitizeListForCatalog l C A = l\<lparr>wl_symbols := kept_symbols (catalogSymbol C A) [] (wl_symbols l),
    wl_sections := map (\<lambda>s. s\<lparr>ws_index := kept_counts (catalogSymbol C A) [] (wl_symbols l) ! ws_index s\<rparr>) (wl_sections l)\<rparr>"
proof -
  let ?n = "length (wl_symbols l)" and ?kept = "kept_counts (catalogSymbol C A) [] (wl_symbols l)"
    and ?next = "kept_symbols (catalogSymbol C A) [] (wl_symbols l)"
  have "map (\<lambda>s. s\<lparr>ws_index := min (if min (ws_index s) ?n < length ?kept then ?kept ! min (ws_index s) ?n else length ?next) (length ?next)\<rparr>) (wl_sections l)
    = map (\<lambda>s. s\<lparr>ws_index := ?kept ! ws_index s\<rparr>) (wl_sections l)"
  proof (rule map_cong [OF refl])
    fix s assume "s \<in> set (wl_sections l)"
    then have "ws_index s \<le> ?n" using assms(1) by (simp add: wl_ok_def list_all_iff)
    then show "s\<lparr>ws_index := min (if min (ws_index s) ?n < length ?kept then ?kept ! min (ws_index s) ?n else length ?next) (length ?next)\<rparr>
      = s\<lparr>ws_index := ?kept ! ws_index s\<rparr>"
      using kept_counts_le [of "ws_index s" "wl_symbols l" "catalogSymbol C A" "[]"] by (simp add: min_absorb1)
  qed
  then show ?thesis using assms(2) by (simp only: sanitizeListForCatalog_def sanitizeLoop_eq clamp_numOf Let_def if_False append_Nil prod.case)
qed

lemma kept_symbols_props:
  "distinct acc \<Longrightarrow> distinct (kept_symbols f acc ss)"
  "set (kept_symbols f acc ss) = set acc \<union> (f ` set ss - {[]})"
  by (induction f acc ss rule: kept_symbols.induct) auto

lemma kept_fixpoint:
  assumes "\<And>s. s \<in> set ss \<Longrightarrow> f s = s \<and> s \<noteq> []" "distinct (acc @ ss)"
  shows "kept_symbols f acc ss = acc @ ss \<and> (\<forall>i \<le> length ss. kept_counts f acc ss ! i = length acc + i)"
  using assms
proof (induction ss arbitrary: acc)
  case (Cons s ss)
  then have "kept_symbols f (acc @ [s]) ss = (acc @ [s]) @ ss \<and> (\<forall>i \<le> length ss. kept_counts f (acc @ [s]) ss ! i = length (acc @ [s]) + i)"
    by (intro Cons.IH) auto
  then show ?case using Cons.prems by (auto simp: nth_Cons split: nat.splits)
qed simp

text \<open>On tokens: symbols are translated or dropped, headers stay.\<close>

fun sanitize_tokens :: "(string \<Rightarrow> string) \<Rightarrow> string list \<Rightarrow> token list \<Rightarrow> token list" where
  "sanitize_tokens f acc [] = []"
| "sanitize_tokens f acc (TSection s # ts) = TSection s # sanitize_tokens f acc ts"
| "sanitize_tokens f acc (TSymbol t # ts) =
     (if f t = [] \<or> f t \<in> set acc then sanitize_tokens f acc ts else TSymbol (f t) # sanitize_tokens f (acc @ [f t]) ts)"

lemma kept_counts_0 [simp]: "kept_counts f acc ss ! 0 = length acc"
  by (cases ss) auto

lemma sanitize_tokens_syms: "acc @ tokSyms (sanitize_tokens f acc ts) = kept_symbols f acc (tokSyms ts)"
  by (induction f acc ts rule: sanitize_tokens.induct) auto

lemma sanitize_tokens_secs:
  "tokSecs (length acc) (sanitize_tokens f acc ts) = map (\<lambda>s. s\<lparr>ws_index := kept_counts f acc (tokSyms ts) ! (ws_index s - j)\<rparr>) (tokSecs j ts)"
proof (induction f acc ts arbitrary: j rule: sanitize_tokens.induct)
  case (3 f acc t ts)
  let ?acc = "if f t = [] \<or> f t \<in> set acc then acc else acc @ [f t]"
  have "map (\<lambda>s. s\<lparr>ws_index := kept_counts f acc (tokSyms (TSymbol t # ts)) ! (ws_index s - j)\<rparr>) (tokSecs (j + 1) ts)
    = map (\<lambda>s. s\<lparr>ws_index := kept_counts f ?acc (tokSyms ts) ! (ws_index s - (j + 1))\<rparr>) (tokSecs (j + 1) ts)"
  proof (rule map_cong [OF refl])
    fix s assume "s \<in> set (tokSecs (j + 1) ts)"
    then obtain m where "ws_index s - j = Suc m" "ws_index s - (j + 1) = m" by (cases "ws_index s - j") (auto dest: tokSecs_bounds)
    then show "s\<lparr>ws_index := kept_counts f acc (tokSyms (TSymbol t # ts)) ! (ws_index s - j)\<rparr>
      = s\<lparr>ws_index := kept_counts f ?acc (tokSyms ts) ! (ws_index s - (j + 1))\<rparr>" by simp
  qed
  also have "\<dots> = tokSecs (length ?acc) (sanitize_tokens f ?acc ts)" using 3(1,2) [of "j + 1"] by (auto split: if_splits)
  finally show ?case by (auto split: if_splits)
qed simp_all

lemma sanitize_tokens_owner:
  assumes "f t \<noteq> []" "f t \<notin> set acc" "\<And>u. u \<in> set (takeWhile (\<lambda>u. u \<noteq> t) (tokSyms ts)) \<Longrightarrow> f u \<noteq> f t"
  shows "ownerFrom h (sanitize_tokens f acc ts) (f t) = ownerFrom h ts t"
  using assms
proof (induction f acc ts arbitrary: h rule: sanitize_tokens.induct)
  case (3 f acc x ts)
  show ?case
  proof (cases "x = t")
    case False
    then have "f x \<noteq> f t" using 3(5) [of x] by simp
    moreover have "f u \<noteq> f t" if "u \<in> set (takeWhile (\<lambda>u. u \<noteq> t) (tokSyms ts))" for u using 3(5) [of u] False that by simp
    ultimately show ?thesis using 3(1,2) 3(3,4) False by auto
  qed (use 3 in simp)
qed simp_all

lemma bare_sanitize_tokens: "map bare (sanitize_tokens f acc ts) = sanitize_tokens f acc (map bare ts)"
  by (induction f acc ts rule: sanitize_tokens.induct) auto

lemma sanitize_keeps_layout:
  assumes "wl_ok l" "C \<noteq> {}"
  shows "let l' = sanitizeListForCatalog l C A; f = catalogSymbol C A
     in wl_ok l' \<and> set (wl_symbols l') \<subseteq> C \<and> set (wl_symbols l') = f ` set (wl_symbols l) - {[]}
        \<and> map ws_id (wl_sections l') = map ws_id (wl_sections l)
        \<and> sanitizeListForCatalog l' C A = l'
        \<and> (sections_in_order l \<longrightarrow> (\<forall>t. t \<in> set (wl_symbols l) \<and> f t \<noteq> []
             \<and> (\<forall>u \<in> set (takeWhile (\<lambda>u. u \<noteq> t) (wl_symbols l)). f u \<noteq> f t) \<longrightarrow> sectionOf l' (f t) = sectionOf l t))"
proof -
  define l' where "l' = sanitizeListForCatalog l C A"
  define f where "f = catalogSymbol C A"
  have l': "l' = l\<lparr>wl_symbols := kept_symbols f [] (wl_symbols l),
    wl_sections := map (\<lambda>s. s\<lparr>ws_index := kept_counts f [] (wl_symbols l) ! ws_index s\<rparr>) (wl_sections l)\<rparr>"
    unfolding l'_def f_def by (rule sanitize_eq [OF assms])
  have syms: "set (wl_symbols l') = f ` set (wl_symbols l) - {[]}" "distinct (wl_symbols l')"
    by (simp_all add: l' kept_symbols_props)
  have fix_f: "f s = s \<and> s \<noteq> [] \<and> s \<in> C" if "s \<in> set (wl_symbols l')" for s
    using that catalogSymbol_idem [of C A] unfolding syms(1) f_def by auto
  have ids: "map ws_id (wl_sections l') = map ws_id (wl_sections l)" by (simp add: l')
  have ok: "wl_ok l'"
    using assms(1) syms(2) kept_counts_le [of _ "wl_symbols l" f "[]"] by (auto simp: wl_ok_def l' list_all_iff comp_def)
  have "kept_symbols f [] (wl_symbols l') = wl_symbols l' \<and> (\<forall>i \<le> length (wl_symbols l'). kept_counts f [] (wl_symbols l') ! i = i)"
    using kept_fixpoint [of "wl_symbols l'" f "[]"] fix_f syms(2) by simp
  moreover have "ws_index s \<le> length (wl_symbols l')" if "s \<in> set (wl_sections l')" for s using ok that by (simp add: wl_ok_def list_all_iff)
  ultimately have "sanitizeListForCatalog l' C A = l'"
    using sanitize_eq [OF ok assms(2), of A] unfolding f_def [symmetric] by (simp add: map_idI)
  moreover have "sectionOf l' (f t) = sectionOf l t"
    if "sections_in_order l" "t \<in> set (wl_symbols l)" "f t \<noteq> []" "\<And>u. u \<in> set (takeWhile (\<lambda>u. u \<noteq> t) (wl_symbols l)) \<Longrightarrow> f u \<noteq> f t" for t
  proof -
    let ?ts = "sanitize_tokens f [] (toLayoutTokens l)"
    have toks: "tokSyms (toLayoutTokens l) = wl_symbols l" "tokSecs 0 (toLayoutTokens l) = wl_sections l"
      using tokens_of_list [OF assms(1)] that(1) by (simp_all add: sort_key_id_if_sorted)
    have "wl_symbols l' = tokSyms ?ts" "wl_sections l' = tokSecs 0 ?ts"
      using sanitize_tokens_syms [of "[]" f "toLayoutTokens l"] sanitize_tokens_secs [of "[]" f "toLayoutTokens l" 0] by (simp_all add: toks l')
    then have "layout l' = map bare ?ts" using ok by (intro layout_of_tokens) (auto simp: wl_ok_def)
    then show ?thesis using that(3,4) sanitize_tokens_owner [of f t "[]" "layout l" None] layout_tokens(1) [OF assms(1)]
      by (simp add: sectionOf_def bare_sanitize_tokens) (simp add: layout_def)
  qed
  ultimately show ?thesis using ok syms(1) fix_f ids unfolding l'_def f_def Let_def by blast
qed

text \<open>
  Sanitising against the broker's catalogue.  The result has only catalogue symbols, each once, and is a fixed point; every
  catalogue symbol the list stood for is in it; the headers are kept, and when they are stored in order each surviving symbol
  (the first one that stands for its catalogue entry) stays in its section.
\<close>

theorem sanitize_keeps_sections:
  assumes "wl_ok l" "C \<noteq> {}"
  shows "let l' = sanitizeListForCatalog l C A; f = catalogSymbol C A
     in wl_ok l' \<and> set (wl_symbols l') \<subseteq> C \<and> set (wl_symbols l') = f ` set (wl_symbols l) - {[]}
        \<and> map ws_id (wl_sections l') = map ws_id (wl_sections l)
        \<and> sanitizeListForCatalog l' C A = l'
        \<and> (sections_in_order l \<longrightarrow> (\<forall>t. t \<in> set (wl_symbols l) \<and> f t \<noteq> []
             \<and> (\<forall>u \<in> set (takeWhile (\<lambda>u. u \<noteq> t) (wl_symbols l)). f u \<noteq> f t) \<longrightarrow> sectionOf l' (f t) = sectionOf l t))"
  using assms by (rule sanitize_keeps_layout)

theorem sanitize_keeps_sections_witness:
  "wl_ok (sanitizeListForCatalog sampleList {''XAUUSD''} Map.empty)
   \<and> set (wl_symbols (sanitizeListForCatalog sampleList {''XAUUSD''} Map.empty)) \<subseteq> {''XAUUSD''}"
  using sanitize_keeps_sections [OF sampleList_ok(1), of "{''XAUUSD''}" Map.empty] unfolding Let_def by blast

end
