(* ===== verification/WatchlistSort.thy ===== *)
theory WatchlistSort
  imports WatchlistLayout "HOL-Library.Product_Lexorder"
begin

section \<open>Sorting a watchlist\<close>

text \<open>
  Models \<open>store/watchlistSort.ts\<close>, the comparator shared by the desktop rows and the mobile cards, over binary64 quotes.
  \<open>String.localeCompare\<close> depends on the locale and is the argument \<open>localeCompare\<close>.  The lemmas show that the comparator is the
  lexicographic order on (value missing, signed value, position), which no rounding or overflow of the difference disturbs.
\<close>

record market_quote =
  mq_last :: jsnum
  mq_change :: jsnum
  mq_changePct :: jsnum
  mq_volume :: jsnum

definition sortValue :: "string \<Rightarrow> sort_by \<Rightarrow> (string \<Rightarrow> market_quote option) \<Rightarrow> jsnum option" where
  "sortValue ticker sortKey quotes =
     (case quotes ticker of
        None \<Rightarrow> None
      | Some quote \<Rightarrow>
          (case sortKey of
             ByPrice \<Rightarrow> Some (mq_last quote)
           | ByChange \<Rightarrow> if js_isFinite (mq_changePct quote) then Some (js_toFixed (mq_changePct quote) (Fin 2)) else None
           | ByChangeAbs \<Rightarrow> Some (mq_change quote)
           | ByVolume \<Rightarrow> Some (mq_volume quote)
           | _ \<Rightarrow> None))"

definition finiteValue :: "jsnum option \<Rightarrow> jsnum option" where
  "finiteValue v = (case v of Some x \<Rightarrow> if js_isFinite x then Some x else None | None \<Rightarrow> None)"

definition compareSymbols ::
  "(string \<Rightarrow> string \<Rightarrow> jsnum) \<Rightarrow> sort_by \<Rightarrow> sort_dir \<Rightarrow> (string \<Rightarrow> market_quote option) \<Rightarrow> string \<times> nat \<Rightarrow> string \<times> nat \<Rightarrow> jsnum" where
  "compareSymbols localeCompare sortKey sortDir quotes a b =
     (let direction = Fin (if sortDir = Asc then 1 else - 1);
          byIndex = js_sub (numOf (snd a)) (numOf (snd b))
      in if sortKey = BySymbol then js_mul (localeCompare (fst a) (fst b)) direction
         else
           case (finiteValue (sortValue (fst a) sortKey quotes), finiteValue (sortValue (fst b) sortKey quotes)) of
             (None, None) \<Rightarrow> byIndex
           | (None, Some _) \<Rightarrow> Fin 1
           | (Some _, None) \<Rightarrow> Fin (- 1)
           | (Some aValue, Some bValue) \<Rightarrow>
               let delta = js_mul (js_sub aValue bValue) direction
               in if js_truthy delta then delta else byIndex)"

definition sortWatchlistSymbols ::
  "(string \<Rightarrow> string \<Rightarrow> jsnum) \<Rightarrow> (string \<times> nat) list \<Rightarrow> sort_by \<Rightarrow> sort_dir \<Rightarrow> (string \<Rightarrow> market_quote option) \<Rightarrow> (string \<times> nat) list" where
  "sortWatchlistSymbols localeCompare entries sortKey sortDir quotes =
     (if sortKey = Manual then entries else js_sort (compareSymbols localeCompare sortKey sortDir quotes) entries)"

text \<open>The place of an entry: those with a value first, by value in the chosen direction, then by position.\<close>

definition rankOf :: "sort_by \<Rightarrow> sort_dir \<Rightarrow> (string \<Rightarrow> market_quote option) \<Rightarrow> string \<times> nat \<Rightarrow> (bool \<times> rat) \<times> nat" where
  "rankOf sortKey sortDir quotes e =
     ((case sortValue (fst e) sortKey quotes of
         Some (Fin x) \<Rightarrow> (False, if sortDir = Asc then x else - x)
       | _ \<Rightarrow> (True, 0)), snd e)"

lemma grid_sign:
  assumes "z = of_int k * least64"
  shows "js_lt (Fin 0) (f64 z) \<longleftrightarrow> 0 < z" "js_lt (f64 z) (Fin 0) \<longleftrightarrow> z < 0"
proof -
  have m: "- z = of_int (- k) * least64" using assms by simp
  have pos: "Fin 0 < f64 z" if "0 < z" using f64_grid_pos [OF assms that] .
  have neg: "f64 z < Fin 0" if "z < 0"
  proof -
    have "Fin 0 < f64 (- z)" using f64_grid_pos [OF m] that by simp
    then show ?thesis by (auto simp: f64_def Let_def split: if_splits)
  qed
  consider "z < 0" | "z = 0" | "0 < z" by linarith
  then show "js_lt (Fin 0) (f64 z) \<longleftrightarrow> 0 < z" "js_lt (f64 z) (Fin 0) \<longleftrightarrow> z < 0"
    using pos neg by (cases; auto simp: js_lt_def dest: less_asym)+
qed

lemma delta_sign:
  assumes "is_double (Fin x)" "is_double (Fin y)" "d = 1 \<or> d = - 1"
  shows "js_lt (Fin 0) (js_mul (js_sub (Fin x) (Fin y)) (Fin d)) \<longleftrightarrow> d * y < d * x"
    "js_truthy (js_mul (js_sub (Fin x) (Fin y)) (Fin d)) \<longleftrightarrow> x \<noteq> y"
proof -
  let ?s = "js_sub (Fin x) (Fin y)"
  have dbl: "f64 x = Fin x" "f64 y = Fin y" using assms(1,2) by (simp_all add: is_double_def)
  note sgn = js_sub_sign(1,2) [OF dbl]
  obtain k where k: "rnd64 (x - y) = of_int k * least64" using rnd64_grid by blast
  have "?s \<in> {PInf, NInf, Fin (rnd64 (x - y))}" by (auto simp: f64_def Let_def)
  then consider (P) "?s = PInf" | (N) "?s = NInf" | (F) "?s = Fin (rnd64 (x - y))" by blast
  then have "(js_lt (Fin 0) (js_mul ?s (Fin d)) \<longleftrightarrow> d * y < d * x) \<and> (js_truthy (js_mul ?s (Fin d)) \<longleftrightarrow> x \<noteq> y)"
  proof cases
    case F
    have dz: "rnd64 (x - y) * d = of_int (if d = 1 then k else - k) * least64" using k assms(3) by auto
    have r: "0 < rnd64 (x - y) \<longleftrightarrow> y < x" "rnd64 (x - y) < 0 \<longleftrightarrow> x < y" using sgn F by (simp_all add: js_lt_def)
    have m: "js_mul ?s (Fin d) = f64 (rnd64 (x - y) * d)" using F by simp
    have "js_truthy (f64 z) \<longleftrightarrow> z \<noteq> 0" if "js_lt (Fin 0) (f64 z) \<longleftrightarrow> 0 < z" "js_lt (f64 z) (Fin 0) \<longleftrightarrow> z < 0" for z
      using that by (cases "f64 z") (auto simp: js_truthy_def js_lt_def f64_def Let_def split: if_splits)
    from this [OF grid_sign [OF dz]] show ?thesis
      unfolding m using grid_sign(1) [OF dz] r assms(3) by (auto simp: mult_less_0_iff zero_less_mult_iff)
  qed (use sgn assms(3) in \<open>auto simp: js_lt_def js_inf_signed_def js_truthy_def\<close>)
  then show "js_lt (Fin 0) (js_mul ?s (Fin d)) \<longleftrightarrow> d * y < d * x" "js_truthy (js_mul ?s (Fin d)) \<longleftrightarrow> x \<noteq> y" by blast+
qed

text \<open>
  Sorting by a column.  For every column but the symbol and the manual order, the rows are sorted by the value of the column
  in the chosen direction, rows with equal values by their position, and rows without a finite value come last in both directions,
  by position.  For every setting the rows shown are a permutation of the rows given.
\<close>

theorem watchlist_sort_correct:
  assumes "sortKey \<noteq> Manual" "sortKey \<noteq> BySymbol"
    and dbl: "\<And>e v. e \<in> set entries \<Longrightarrow> sortValue (fst e) sortKey quotes = Some (Fin v) \<Longrightarrow> is_double (Fin v)"
  shows "sortWatchlistSymbols localeCompare entries sortKey sortDir quotes = sort_key (rankOf sortKey sortDir quotes) entries
    \<and> (\<forall>es key dir. mset (sortWatchlistSymbols localeCompare es key dir quotes) = mset es)"
proof -
  let ?cmp = "compareSymbols localeCompare sortKey sortDir quotes"
  have "js_lt (Fin 0) (?cmp a b) \<longleftrightarrow> rankOf sortKey sortDir quotes b < rankOf sortKey sortDir quotes a" if "a \<in> set entries" "b \<in> set entries" for a b
  proof -
    let ?d = "if sortDir = Asc then 1 else - 1 :: rat"
    have d: "?d = 1 \<or> ?d = - 1" by simp
    obtain va vb where v: "sortValue (fst a) sortKey quotes = va" "sortValue (fst b) sortKey quotes = vb" by blast
    consider (both) x y where "va = Some (Fin x)" "vb = Some (Fin y)" | (left) x where "va = Some (Fin x)" "finiteValue vb = None"
      | (right) y where "finiteValue va = None" "vb = Some (Fin y)" | (none) "finiteValue va = None" "finiteValue vb = None"
      by (cases va; cases vb; cases "the va"; cases "the vb") (auto simp: finiteValue_def)
    then show ?thesis
    proof cases
      case both
      then have "is_double (Fin x)" "is_double (Fin y)" using dbl that v by auto
      note delta_sign [OF this d]
      then show ?thesis using both v assms(2)
        by (auto simp: compareSymbols_def finiteValue_def rankOf_def Let_def js_diff_pos less_prod_def' simp del: js_sub_Fin)
    next
      case none
      then have "rankOf sortKey sortDir quotes a = ((True, 0), snd a)" "rankOf sortKey sortDir quotes b = ((True, 0), snd b)"
        using v by (auto simp: rankOf_def finiteValue_def split: option.splits jsnum.splits if_splits)
      then show ?thesis using none v assms(2) by (simp add: compareSymbols_def Let_def js_diff_pos del: js_sub_Fin)
    next
      case left
      then have "rankOf sortKey sortDir quotes b = ((True, 0), snd b)"
        using v by (auto simp: rankOf_def finiteValue_def split: option.splits jsnum.splits if_splits)
      then show ?thesis using left v assms(2) by (simp add: compareSymbols_def finiteValue_def rankOf_def Let_def)
    next
      case right
      then have "rankOf sortKey sortDir quotes a = ((True, 0), snd a)"
        using v by (auto simp: rankOf_def finiteValue_def split: option.splits jsnum.splits if_splits)
      then show ?thesis using right v assms(2) by (simp add: compareSymbols_def finiteValue_def rankOf_def Let_def)
    qed
  qed
  then show ?thesis using assms(1) by (simp add: sortWatchlistSymbols_def js_sort_key mset_js_sort)
qed

theorem watchlist_sort_correct_witness:
  "sortWatchlistSymbols (\<lambda>_ _. Fin 0) [(''A'', 0), (''B'', 1)] ByPrice Desc Map.empty = [(''A'', 0), (''B'', 1)]"
proof -
  have "sortWatchlistSymbols (\<lambda>_ _. Fin 0) [(''A'', 0), (''B'', 1)] ByPrice Desc Map.empty
    = sort_key (rankOf ByPrice Desc Map.empty) [(''A'', 0), (''B'', 1)]"
    by (rule watchlist_sort_correct [THEN conjunct1]) (simp_all add: sortValue_def)
  then show ?thesis by (simp add: rankOf_def sortValue_def)
qed

end
