(* ===== verification/Watchlists.thy ===== *)
theory Watchlists
  imports WatchlistSort
begin

section \<open>The watchlist store and its synchronisation\<close>

text \<open>
  Models \<open>store/watchlistStore.ts\<close>, \<open>store/watchlistSyncQueue.ts\<close> and \<open>store/watchlistPersistence.ts\<close>: the atoms as one
  record, every write atom as a function on it, the queue that serialises the layout writes of each list, and the asynchronous work
  behind \<open>runRemoteSync\<close>, cut at its awaits.  What an atom starts synchronously happens in the function itself; what follows an
  \<open>await\<close> is a continuation that waits for its request.  The ids \<open>uid\<close> returns, the symbol catalogue and the backend's answers are
  arguments.  \<open>persist\<close> does nothing in the source.  Error reports are not modelled.

  The lemmas show that lists stay well formed, that layout writes of one list never overlap and arrive in order, and that the
  backend ends with the layout shown; and where it does not.
\<close>

subsection \<open>The write queue\<close>

record layout_payload =
  lp_symbols :: "string list"
  lp_sections :: "(string \<times> nat) list"
  lp_sortKey :: sort_by
  lp_sortDir :: sort_dir

definition createRemoteWatchlistLayoutPayload :: "watchlist \<Rightarrow> layout_payload" where
  "createRemoteWatchlistLayoutPayload l =
     \<lparr>lp_symbols = wl_symbols l, lp_sections = map (\<lambda>s. (ws_title s, ws_index s)) (wl_sections l),
      lp_sortKey = wl_sortKey l, lp_sortDir = wl_sortDir l\<rparr>"

datatype write_phase = Queued | Writing | Settled bool

text \<open>A promise of the queue is the index of its task; \<open>wt_after\<close> is the promise the task is chained to.\<close>

record write_task =
  wt_list :: string
  wt_after :: "nat option"
  wt_payload :: layout_payload
  wt_phase :: write_phase

record write_queue =
  wq_tasks :: "write_task list"
  wq_pending :: "(string, nat) js_map"
  wq_backend :: "string \<Rightarrow> layout_payload option"

definition enqueueWrite :: "string \<Rightarrow> layout_payload \<Rightarrow> write_queue \<Rightarrow> write_queue" where
  "enqueueWrite watchlistId payload q =
     q\<lparr>wq_tasks := wq_tasks q @ [\<lparr>wt_list = watchlistId, wt_after = map_get (wq_pending q) watchlistId, wt_payload = payload, wt_phase = Queued\<rparr>],
       wq_pending := map_set watchlistId (length (wq_tasks q)) (wq_pending q)\<rparr>"

definition isSettled :: "write_task \<Rightarrow> bool" where
  "isSettled t = (case wt_phase t of Settled _ \<Rightarrow> True | _ \<Rightarrow> False)"

definition setPhase :: "nat \<Rightarrow> write_phase \<Rightarrow> write_queue \<Rightarrow> write_queue" where
  "setPhase n p q = q\<lparr>wq_tasks := (wq_tasks q)[n := (wq_tasks q ! n)\<lparr>wt_phase := p\<rparr>]\<rparr>"

text \<open>\<open>previous.catch(() => undefined).then(task)\<close>: the task starts when the promise before it has settled either way.\<close>

definition startWrite :: "nat \<Rightarrow> write_queue \<Rightarrow> write_queue" where
  "startWrite n q =
     (if n < length (wq_tasks q) \<and> wt_phase (wq_tasks q ! n) = Queued
         \<and> (case wt_after (wq_tasks q ! n) of None \<Rightarrow> True | Some p \<Rightarrow> isSettled (wq_tasks q ! p))
      then setPhase n Writing q else q)"

text \<open>The backend has stored the layout, as it was sent, exactly when the write succeeds; what it does to titles of its own is outside the model.\<close>

definition settleWrite :: "nat \<Rightarrow> bool \<Rightarrow> write_queue \<Rightarrow> write_queue" where
  "settleWrite n ok q =
     (if n < length (wq_tasks q) \<and> wt_phase (wq_tasks q ! n) = Writing then
        let q' = setPhase n (Settled ok) q; t = wq_tasks q ! n
        in if ok then q'\<lparr>wq_backend := (wq_backend q)(wt_list t \<mapsto> wt_payload t)\<rparr> else q'
      else q)"

definition release :: "nat \<Rightarrow> write_queue \<Rightarrow> write_queue" where
  "release n q =
     (if n < length (wq_tasks q) \<and> isSettled (wq_tasks q ! n) \<and> map_get (wq_pending q) (wt_list (wq_tasks q ! n)) = Some n
      then q\<lparr>wq_pending := map_delete (wt_list (wq_tasks q ! n)) (wq_pending q)\<rparr> else q)"

subsection \<open>Reading lists\<close>

definition DEFAULT_LIST :: watchlist where
  "DEFAULT_LIST = \<lparr>wl_id = ''default'', wl_name = ''Watchlist'', wl_symbols = [], wl_sections = [], wl_shared = False,
     wl_sortKey = BySymbol, wl_sortDir = Asc\<rparr>"

definition SORT_KEYS :: "(string \<times> sort_by) list" where
  "SORT_KEYS = [(''manual'', Manual), (''symbol'', BySymbol), (''price'', ByPrice), (''change'', ByChange), (''changeAbs'', ByChangeAbs), (''volume'', ByVolume)]"

definition cleanSortKey :: "json \<Rightarrow> sort_by \<Rightarrow> sort_by" where
  "cleanSortKey v fallback = (case v of JStr s \<Rightarrow> (case map_of SORT_KEYS s of Some k \<Rightarrow> k | None \<Rightarrow> fallback) | _ \<Rightarrow> fallback)"

definition cleanSortDir :: "json \<Rightarrow> sort_dir \<Rightarrow> sort_dir" where
  "cleanSortDir v fallback = (if v = JStr ''desc'' then Desc else if v = JStr ''asc'' then Asc else fallback)"

fun pushClean :: "json list \<Rightarrow> string list \<Rightarrow> string list" where
  "pushClean [] symbols = symbols"
| "pushClean (v # vs) symbols =
     pushClean vs (case v of
         JStr s \<Rightarrow> let symbol = js_upper (js_trim s) in if symbol = [] \<or> symbol \<in> set symbols then symbols else symbols @ [symbol]
       | _ \<Rightarrow> symbols)"

definition cleanSymbols :: "json \<Rightarrow> string list" where
  "cleanSymbols v = (case v of JArr vs \<Rightarrow> pushClean vs [] | _ \<Rightarrow> [])"

definition isObject :: "json \<Rightarrow> bool" where
  "isObject v = (case v of JObj _ \<Rightarrow> True | JArr _ \<Rightarrow> True | _ \<Rightarrow> False)"

definition cleanSection :: "nat \<Rightarrow> string \<Rightarrow> json \<Rightarrow> wl_section option" where
  "cleanSection symbolCount newId v =
     (if \<not> isObject v then None
      else Some \<lparr>ws_id = (case field v ''id'' of JStr i \<Rightarrow> if i \<noteq> [] then i else newId | _ \<Rightarrow> newId),
                 ws_title = (case field v ''title'' of JStr t \<Rightarrow> normalizeSectionTitle t | _ \<Rightarrow> ''Section''),
                 ws_index = (case field v ''index'' of JNum n \<Rightarrow> clampSectionIndex n symbolCount | _ \<Rightarrow> symbolCount)\<rparr>)"

definition cleanSections :: "(nat \<Rightarrow> string) \<Rightarrow> json \<Rightarrow> nat \<Rightarrow> wl_section list" where
  "cleanSections newIds v symbolCount =
     (case v of
        JArr vs \<Rightarrow> js_sort (\<lambda>a b. js_sub (numOf (ws_index a)) (numOf (ws_index b)))
          (List.map_filter (\<lambda>(n, s). cleanSection symbolCount (newIds n) s) (enumerate 0 vs))
      | _ \<Rightarrow> [])"

definition normalizeList :: "string \<Rightarrow> (nat \<Rightarrow> string) \<Rightarrow> json \<Rightarrow> watchlist \<Rightarrow> watchlist" where
  "normalizeList newId newSectionIds v fallback =
     (if \<not> isObject v then fallback
      else
        let symbols = cleanSymbols (field v ''symbols'')
        in \<lparr>wl_id = (case field v ''id'' of JStr i \<Rightarrow> if i \<noteq> [] then i else newId | _ \<Rightarrow> newId),
            wl_name = (case field v ''name'' of JStr s \<Rightarrow> if js_trim s \<noteq> [] then take 40 (js_trim s) else wl_name fallback | _ \<Rightarrow> wl_name fallback),
            wl_symbols = symbols, wl_sections = cleanSections newSectionIds (field v ''sections'') (length symbols),
            wl_shared = (field v ''shared'' = JBool True),
            wl_sortKey = cleanSortKey (field v ''sortKey'') (wl_sortKey fallback), wl_sortDir = cleanSortDir (field v ''sortDir'') (wl_sortDir fallback)\<rparr>)"

text \<open>The remote list is an object with a string id and name; its absent fields read as \<open>undefined\<close> either way.\<close>

definition remoteWatchlistToLocal :: "string \<Rightarrow> (nat \<Rightarrow> string) \<Rightarrow> json \<Rightarrow> watchlist" where
  "remoteWatchlistToLocal newId newSectionIds v =
     normalizeList newId newSectionIds v
       (DEFAULT_LIST\<lparr>wl_id := (case field v ''id'' of JStr i \<Rightarrow> if i \<noteq> [] then i else newId | _ \<Rightarrow> newId),
          wl_name := (case field v ''name'' of JStr s \<Rightarrow> if s \<noteq> [] then s else ''Watchlist'' | _ \<Rightarrow> ''Watchlist'')\<rparr>)"

definition activeList :: "watchlist list \<Rightarrow> string \<Rightarrow> watchlist" where
  "activeList ls activeId =
     (case find (\<lambda>l. wl_id l = activeId) ls of Some l \<Rightarrow> l | None \<Rightarrow> (case ls of l # _ \<Rightarrow> l | [] \<Rightarrow> DEFAULT_LIST))"

definition updateActive :: "watchlist list \<Rightarrow> string \<Rightarrow> (watchlist \<Rightarrow> watchlist) \<Rightarrow> watchlist list" where
  "updateActive ls activeId updater =
     (let current = activeList ls activeId in map (\<lambda>l. if wl_id l = wl_id current then updater l else l) ls)"

definition isServerWatchlistId :: "string \<Rightarrow> bool" where
  "isServerWatchlistId i \<longleftrightarrow> i \<noteq> ''default'' \<and> take 2 i \<noteq> ''wl''"

subsection \<open>State\<close>

datatype request =
    SetActive string
  | UpdateName string string
  | UpdateShared string bool
  | UpdateSort string sort_by sort_dir
  | CreateList string string
  | DeleteList string

datatype awaited = LayoutWritten nat | SortUpdated string | ListDeleted string | ListCreated string

text \<open>What runs when an awaited request has succeeded; a failure ends the work.\<close>

datatype continuation =
    SanitizeRest "watchlist list" "watchlist list"
  | AfterCreateLayout watchlist
  | AfterCreateSort string
  | AfterDelete string

record wl_store =
  sl_lists :: "watchlist list"
  sl_activeId :: string
  sl_sortKey :: sort_by
  sl_sortDir :: sort_dir
  sl_session :: bool
  sl_queue :: write_queue
  sl_requests :: "request list"
  sl_waiting :: "(awaited \<times> continuation) list"

definition runRemoteSync :: "(wl_store \<Rightarrow> wl_store) \<Rightarrow> wl_store \<Rightarrow> wl_store" where
  "runRemoteSync work s = (if sl_session s then work s else s)"

definition request :: "request \<Rightarrow> wl_store \<Rightarrow> wl_store" where
  "request r s = s\<lparr>sl_requests := sl_requests s @ [r]\<rparr>"

definition replaceRemoteLayoutFromLocal :: "watchlist \<Rightarrow> wl_store \<Rightarrow> wl_store" where
  "replaceRemoteLayoutFromLocal l s =
     (if \<not> isServerWatchlistId (wl_id l) then s
      else s\<lparr>sl_queue := enqueueWrite (wl_id l) (createRemoteWatchlistLayoutPayload l) (sl_queue s)\<rparr>)"

text \<open>The end of most write atoms: store the lists and write the layout of the active one.\<close>

definition setListsAndPush :: "watchlist list \<Rightarrow> wl_store \<Rightarrow> wl_store" where
  "setListsAndPush ls s =
     runRemoteSync (replaceRemoteLayoutFromLocal (activeList ls (sl_activeId s))) (s\<lparr>sl_lists := ls\<rparr>)"

definition setActiveList :: "watchlist list \<Rightarrow> string \<Rightarrow> wl_store \<Rightarrow> wl_store" where
  "setActiveList ls activeId s =
     s\<lparr>sl_lists := ls, sl_activeId := activeId, sl_sortKey := wl_sortKey (activeList ls activeId),
       sl_sortDir := wl_sortDir (activeList ls activeId)\<rparr>"

abbreviation active :: "wl_store \<Rightarrow> watchlist" where
  "active s \<equiv> activeList (sl_lists s) (sl_activeId s)"

abbreviation updated :: "wl_store \<Rightarrow> (watchlist \<Rightarrow> watchlist) \<Rightarrow> watchlist list" where
  "updated s f \<equiv> updateActive (sl_lists s) (sl_activeId s) f"

subsection \<open>Write atoms\<close>

definition setWatchlistSymbols :: "string list \<Rightarrow> wl_store \<Rightarrow> wl_store" where
  "setWatchlistSymbols update s =
     (let nextSymbols = cleanSymbols (JArr (map JStr update))
      in setListsAndPush (updated s (\<lambda>l. l\<lparr>wl_symbols := nextSymbols,
           wl_sections := filter (\<lambda>sec. ws_index sec \<le> length nextSymbols) (wl_sections l)\<rparr>)) s)"

definition setActiveWatchlist :: "string \<Rightarrow> wl_store \<Rightarrow> wl_store" where
  "setActiveWatchlist listId s =
     (let nextActive = (if list_ex (\<lambda>l. wl_id l = listId) (sl_lists s) then listId else wl_id (active s))
      in runRemoteSync (if isServerWatchlistId nextActive then request (SetActive nextActive) else (\<lambda>s. s))
           (setActiveList (sl_lists s) nextActive s))"

definition hydrateWatchlist :: "wl_store \<Rightarrow> wl_store" where
  "hydrateWatchlist s = s\<lparr>sl_lists := [DEFAULT_LIST], sl_activeId := ''default'', sl_sortKey := wl_sortKey DEFAULT_LIST, sl_sortDir := wl_sortDir DEFAULT_LIST\<rparr>"

definition joinNul :: "string list \<Rightarrow> string" where
  "joinNul xs = (case xs of [] \<Rightarrow> [] | x # rest \<Rightarrow> x @ concat (map (\<lambda>y. char_of (0 :: nat) # y) rest))"

definition listLayoutChanged :: "watchlist \<Rightarrow> watchlist \<Rightarrow> bool" where
  "listLayoutChanged a b \<longleftrightarrow> joinNul (wl_symbols a) \<noteq> joinNul (wl_symbols b)
     \<or> lp_sections (createRemoteWatchlistLayoutPayload a) \<noteq> lp_sections (createRemoteWatchlistLayoutPayload b)"

text \<open>The loop of \<open>syncSanitizedRemoteLayouts\<close> up to its next await.\<close>

fun sanitizeSync :: "watchlist list \<Rightarrow> watchlist list \<Rightarrow> wl_store \<Rightarrow> wl_store" where
  "sanitizeSync previous [] s = s"
| "sanitizeSync previous (l # rest) s =
     (if \<not> isServerWatchlistId (wl_id l) then sanitizeSync previous rest s
      else if (case find (\<lambda>p. wl_id p = wl_id l) previous of Some before \<Rightarrow> \<not> listLayoutChanged before l | None \<Rightarrow> False)
      then sanitizeSync previous rest s
      else (replaceRemoteLayoutFromLocal l s)
             \<lparr>sl_waiting := sl_waiting s @ [(LayoutWritten (length (wq_tasks (sl_queue s))), SanitizeRest previous rest)]\<rparr>)"

definition syncSanitizedRemoteLayouts :: "watchlist list \<Rightarrow> watchlist list \<Rightarrow> wl_store \<Rightarrow> wl_store" where
  "syncSanitizedRemoteLayouts previous next = runRemoteSync (sanitizeSync previous next)"

definition replaceLocalListWithRemote :: "string \<Rightarrow> json \<Rightarrow> wl_store \<Rightarrow> wl_store \<times> watchlist option" where
  "replaceLocalListWithRemote localId remote s =
     (case find (\<lambda>l. wl_id l = localId) (sl_lists s) of
        None \<Rightarrow> (s, None)
      | Some l \<Rightarrow>
          let nextList = l\<lparr>wl_id := (case field remote ''id'' of JStr i \<Rightarrow> i | _ \<Rightarrow> []),
                           wl_name := (case field remote ''name'' of JStr n \<Rightarrow> if n \<noteq> [] then n else wl_name l | _ \<Rightarrow> wl_name l),
                           wl_sortKey := cleanSortKey (field remote ''sortKey'') (wl_sortKey l),
                           wl_sortDir := cleanSortDir (field remote ''sortDir'') (wl_sortDir l)\<rparr>;
              nextActiveId = (if sl_activeId s = localId then wl_id nextList else sl_activeId s);
              s' = s\<lparr>sl_lists := map (\<lambda>x. if wl_id x = localId then nextList else x) (sl_lists s), sl_activeId := nextActiveId\<rparr>
          in (if nextActiveId = wl_id nextList then s'\<lparr>sl_sortKey := wl_sortKey nextList, sl_sortDir := wl_sortDir nextList\<rparr> else s', Some nextList))"

text \<open>\<open>createRemoteListFromLocal\<close>: the request, and the work after each of its awaits.\<close>

definition createRemoteListFromLocal :: "string \<Rightarrow> string \<Rightarrow> wl_store \<Rightarrow> wl_store" where
  "createRemoteListFromLocal localId name s = request (CreateList localId name) s"

definition afterCreateSort :: "string \<Rightarrow> wl_store \<Rightarrow> wl_store" where
  "afterCreateSort listId s = (if sl_activeId s = listId then request (SetActive listId) s else s)"

definition afterCreateLayout :: "watchlist \<Rightarrow> wl_store \<Rightarrow> wl_store" where
  "afterCreateLayout synced s =
     (if wl_sortKey synced \<noteq> BySymbol \<or> wl_sortDir synced \<noteq> Asc then
        request (UpdateSort (wl_id synced) (wl_sortKey synced) (wl_sortDir synced))
          (s\<lparr>sl_waiting := sl_waiting s @ [(SortUpdated (wl_id synced), AfterCreateSort (wl_id synced))]\<rparr>)
      else afterCreateSort (wl_id synced) s)"

definition afterCreated :: "string \<Rightarrow> json \<Rightarrow> wl_store \<Rightarrow> wl_store" where
  "afterCreated localId remote s =
     (case replaceLocalListWithRemote localId remote s of
        (s', None) \<Rightarrow> s'
      | (s', Some synced) \<Rightarrow>
          if isServerWatchlistId (wl_id synced) then
            (replaceRemoteLayoutFromLocal synced s')\<lparr>sl_waiting := sl_waiting s' @ [(LayoutWritten (length (wq_tasks (sl_queue s'))), AfterCreateLayout synced)]\<rparr>
          else afterCreateLayout synced s')"

definition remoteNamed :: "json \<Rightarrow> bool" where
  "remoteNamed v \<longleftrightarrow> isObject v \<and> (case (field v ''id'', field v ''name'') of (JStr _, JStr _) \<Rightarrow> True | _ \<Rightarrow> False)"

definition positionOf :: "json \<Rightarrow> jsnum" where
  "positionOf v = (case field v ''position'' of JNum n \<Rightarrow> n | _ \<Rightarrow> Fin 0)"

definition sanitizeListsForCatalog :: "watchlist list \<Rightarrow> string set \<Rightarrow> (string \<Rightarrow> string option) \<Rightarrow> watchlist list" where
  "sanitizeListsForCatalog ls catalogSymbols legacyAliases = map (\<lambda>l. sanitizeListForCatalog l catalogSymbols legacyAliases) ls"

definition remoteLists :: "(nat \<Rightarrow> string) \<Rightarrow> (nat \<Rightarrow> nat \<Rightarrow> string) \<Rightarrow> json list \<Rightarrow> watchlist list" where
  "remoteLists newIds newSectionIds payload =
     map (\<lambda>(n, v). remoteWatchlistToLocal (newIds n) (newSectionIds n) v)
       (enumerate 0 (js_sort (\<lambda>a b. js_sub (positionOf a) (positionOf b)) (filter remoteNamed payload)))"

definition applyRemoteWatchlists ::
  "(nat \<Rightarrow> string) \<Rightarrow> (nat \<Rightarrow> nat \<Rightarrow> string) \<Rightarrow> string set \<Rightarrow> (string \<Rightarrow> string option) \<Rightarrow> json \<Rightarrow> wl_store \<Rightarrow> wl_store" where
  "applyRemoteWatchlists newIds newSectionIds catalogSymbols legacyAliases v s =
     (case v of
        JArr payload \<Rightarrow>
          let remote = remoteLists newIds newSectionIds payload;
              rawLists = (if remote \<noteq> [] then remote else [DEFAULT_LIST]);
              ls = (if catalogSymbols \<noteq> {} then sanitizeListsForCatalog rawLists catalogSymbols legacyAliases else rawLists);
              remoteActive = find (\<lambda>x. isObject x \<and> field x ''active'' = JBool True \<and> (case field x ''id'' of JStr _ \<Rightarrow> True | _ \<Rightarrow> False)) payload;
              activeId = (case remoteActive of
                  Some x \<Rightarrow> (case field x ''id'' of
                      JStr i \<Rightarrow> if i \<noteq> [] then i else if list_ex (\<lambda>l. wl_id l = sl_activeId s) ls then sl_activeId s else wl_id (hd ls)
                    | _ \<Rightarrow> [])
                | None \<Rightarrow> if list_ex (\<lambda>l. wl_id l = sl_activeId s) ls then sl_activeId s else wl_id (hd ls));
              s' = setActiveList ls activeId s
          in if catalogSymbols \<noteq> {} then syncSanitizedRemoteLayouts rawLists ls s' else s'
      | _ \<Rightarrow> s)"

definition sanitizeWatchlistsForCatalog :: "(string \<Rightarrow> string option) \<Rightarrow> string list \<Rightarrow> wl_store \<Rightarrow> wl_store" where
  "sanitizeWatchlistsForCatalog legacyAliases catalogSymbolIds s =
     (let catalogSymbols = set (map (\<lambda>c. js_upper (js_trim c)) catalogSymbolIds);
          previous = sl_lists s;
          ls = sanitizeListsForCatalog previous catalogSymbols legacyAliases
      in if catalogSymbols = {} \<or> list_all2 (\<lambda>p l. \<not> listLayoutChanged p l) previous ls then s
         else syncSanitizedRemoteLayouts previous ls (setActiveList ls (sl_activeId s) s))"

definition addWatchlistSymbol :: "(string \<Rightarrow> bool) \<Rightarrow> string \<Rightarrow> wl_store \<Rightarrow> wl_store" where
  "addWatchlistSymbol getMarketSymbol ticker s =
     (let symbol = js_upper (js_trim ticker)
      in if \<not> getMarketSymbol symbol \<or> symbol \<in> set (wl_symbols (active s)) then s
         else setListsAndPush (updated s (\<lambda>l. l\<lparr>wl_symbols := wl_symbols l @ [symbol]\<rparr>)) s)"

definition removeWatchlistSymbol :: "string \<Rightarrow> wl_store \<Rightarrow> wl_store" where
  "removeWatchlistSymbol ticker s =
     (let symbol = js_upper (js_trim ticker)
      in if symbol \<notin> set (wl_symbols (active s)) then s
         else setListsAndPush (updated s (\<lambda>l. removeSymbolFromList l symbol)) s)"

definition renameWatchlist :: "string \<Rightarrow> wl_store \<Rightarrow> wl_store" where
  "renameWatchlist name s =
     (let nextName = take 40 (js_trim name)
      in if nextName = [] then s
         else runRemoteSync (if isServerWatchlistId (wl_id (active s)) then request (UpdateName (wl_id (active s)) nextName) else (\<lambda>s. s))
                (s\<lparr>sl_lists := updated s (\<lambda>l. l\<lparr>wl_name := nextName\<rparr>)\<rparr>))"

definition setWatchlistShared :: "bool option \<Rightarrow> wl_store \<Rightarrow> wl_store" where
  "setWatchlistShared shared s =
     (let nextShared = (case shared of Some b \<Rightarrow> b | None \<Rightarrow> \<not> wl_shared (active s))
      in runRemoteSync (if isServerWatchlistId (wl_id (active s)) then request (UpdateShared (wl_id (active s)) nextShared) else (\<lambda>s. s))
           (s\<lparr>sl_lists := updated s (\<lambda>l. l\<lparr>wl_shared := nextShared\<rparr>)\<rparr>))"

definition addListAndCreate :: "watchlist \<Rightarrow> wl_store \<Rightarrow> wl_store" where
  "addListAndCreate l s =
     runRemoteSync (createRemoteListFromLocal (wl_id l) (wl_name l))
       (s\<lparr>sl_lists := sl_lists s @ [l], sl_activeId := wl_id l, sl_sortKey := wl_sortKey l, sl_sortDir := wl_sortDir l\<rparr>)"

definition copyWatchlist :: "string \<Rightarrow> (nat \<Rightarrow> string) \<Rightarrow> wl_store \<Rightarrow> wl_store" where
  "copyWatchlist newId newSectionIds s =
     addListAndCreate ((active s)\<lparr>wl_id := newId, wl_name := take 40 (wl_name (active s) @ '' copy''), wl_shared := False,
       wl_sections := map (\<lambda>(n, sec). sec\<lparr>ws_id := newSectionIds n\<rparr>) (enumerate 0 (wl_sections (active s)))\<rparr>) s"

definition createWatchlist :: "string \<Rightarrow> string option \<Rightarrow> wl_store \<Rightarrow> wl_store" where
  "createWatchlist newId name s =
     addListAndCreate (DEFAULT_LIST\<lparr>wl_id := newId,
       wl_name := take 40 (case name of Some n \<Rightarrow> if js_trim n \<noteq> [] then js_trim n else ''Untitled list'' | None \<Rightarrow> ''Untitled list'')\<rparr>) s"

definition removeWatchlist :: "string \<Rightarrow> wl_store \<Rightarrow> wl_store" where
  "removeWatchlist listId s =
     (if length (sl_lists s) \<le> 1 \<or> \<not> list_ex (\<lambda>l. wl_id l = listId) (sl_lists s) then s
      else
        let targetIndex = length (takeWhile (\<lambda>l. wl_id l \<noteq> listId) (sl_lists s));
            nextLists = filter (\<lambda>l. wl_id l \<noteq> listId) (sl_lists s);
            nextActiveId = (if sl_activeId s = listId then wl_id (nextLists ! min targetIndex (length nextLists - 1)) else sl_activeId s)
        in runRemoteSync
             (\<lambda>s. if \<not> isServerWatchlistId listId then s
                  else request (DeleteList listId) (s\<lparr>sl_waiting := sl_waiting s @ [(ListDeleted listId, AfterDelete nextActiveId)]\<rparr>))
             (setActiveList nextLists nextActiveId s))"

definition afterDelete :: "string \<Rightarrow> wl_store \<Rightarrow> wl_store" where
  "afterDelete nextActiveId s = (if isServerWatchlistId nextActiveId then request (SetActive nextActiveId) s else s)"

definition clearWatchlist :: "wl_store \<Rightarrow> wl_store" where
  "clearWatchlist s = setListsAndPush (updated s (\<lambda>l. l\<lparr>wl_symbols := [], wl_sections := []\<rparr>)) s"

definition addWatchlistSection :: "string \<Rightarrow> string \<Rightarrow> jsnum option \<Rightarrow> wl_store \<Rightarrow> wl_store" where
  "addWatchlistSection newId title requestedIndex s =
     (let label = normalizeSectionTitle title;
          n = length (wl_symbols (active s));
          index = (case requestedIndex of Some i \<Rightarrow> if js_isFinite i then clampSectionIndex i n else n | None \<Rightarrow> n)
      in if label = [] then s
         else setListsAndPush (updated s (\<lambda>l. l\<lparr>wl_sections := wl_sections l @ [createWatchlistSection newId label (numOf index) (length (wl_symbols l))]\<rparr>)) s)"

definition renameWatchlistSection :: "string \<Rightarrow> string \<Rightarrow> wl_store \<Rightarrow> wl_store" where
  "renameWatchlistSection sectionId title s = setListsAndPush (updated s (\<lambda>l. renameSectionInList l sectionId title)) s"

definition removeWatchlistSection :: "string \<Rightarrow> wl_store \<Rightarrow> wl_store" where
  "removeWatchlistSection sectionId s = setListsAndPush (updated s (\<lambda>l. removeSectionFromList l sectionId)) s"

record move_symbol =
  ms_ticker :: string
  ms_index :: "jsnum option"
  ms_mode :: "insert_mode option"
  ms_targetSectionId :: "string option"
  ms_targetTicker :: "string option"
  ms_edge :: "symbol_edge option"
  ms_displayedOrder :: "string list option"
  ms_unsectionedStart :: bool

definition filled :: "string option \<Rightarrow> bool" where
  "filled v = (case v of Some s \<Rightarrow> s \<noteq> [] | None \<Rightarrow> False)"

definition movedSymbol :: "move_symbol \<Rightarrow> watchlist \<Rightarrow> watchlist" where
  "movedSymbol p l =
     (let baseline = materializeDisplayedSymbolOrder l (ms_displayedOrder p);
          mode = (case ms_mode p of Some m \<Rightarrow> m | None \<Rightarrow> InsideSection)
      in if ms_unsectionedStart p then moveSymbolToUnsectionedStartInList baseline (ms_ticker p)
         else if filled (ms_targetSectionId p) then moveSymbolToSectionInList baseline (ms_ticker p) (the (ms_targetSectionId p)) mode
         else if filled (ms_targetTicker p) \<and> ms_edge p \<noteq> None then
           moveDisplayedSymbolRelativeInList l (ms_ticker p) (the (ms_targetTicker p)) (the (ms_edge p))
             (case ms_displayedOrder p of Some order \<Rightarrow> order | None \<Rightarrow> wl_symbols l)
         else moveSymbolInList baseline (ms_ticker p) (case ms_index p of Some i \<Rightarrow> i | None \<Rightarrow> Fin 0) mode)"

definition setManualAndPush :: "watchlist list \<Rightarrow> wl_store \<Rightarrow> wl_store" where
  "setManualAndPush ls s = setListsAndPush ls (s\<lparr>sl_sortKey := Manual, sl_sortDir := Asc\<rparr>)"

definition moveWatchlistSymbol :: "move_symbol \<Rightarrow> wl_store \<Rightarrow> wl_store" where
  "moveWatchlistSymbol p s = setManualAndPush (updated s (\<lambda>l. (movedSymbol p l)\<lparr>wl_sortKey := Manual, wl_sortDir := Asc\<rparr>)) s"

definition moveWatchlistSection :: "string \<Rightarrow> section_target \<Rightarrow> string list option \<Rightarrow> wl_store \<Rightarrow> wl_store" where
  "moveWatchlistSection sectionId target displayedOrder s =
     setManualAndPush (updated s (\<lambda>l. (moveSectionInList (materializeDisplayedSymbolOrder l displayedOrder) sectionId target)
       \<lparr>wl_sortKey := Manual, wl_sortDir := Asc\<rparr>)) s"

definition setWatchlistSort :: "sort_by \<Rightarrow> wl_store \<Rightarrow> wl_store" where
  "setWatchlistSort key s =
     (let nextDir = (if key = Manual then Asc else if sl_sortKey s = key \<and> sl_sortDir s = Asc then Desc else Asc)
      in runRemoteSync (if isServerWatchlistId (wl_id (active s)) then request (UpdateSort (wl_id (active s)) key nextDir) else (\<lambda>s. s))
           (s\<lparr>sl_sortKey := key, sl_sortDir := nextDir, sl_lists := updated s (\<lambda>l. l\<lparr>wl_sortKey := key, wl_sortDir := nextDir\<rparr>)\<rparr>))"

subsection \<open>Runs\<close>

definition runContinuation :: "continuation \<Rightarrow> wl_store \<Rightarrow> wl_store" where
  "runContinuation c s =
     (case c of
        SanitizeRest previous rest \<Rightarrow> sanitizeSync previous rest s
      | AfterCreateLayout synced \<Rightarrow> afterCreateLayout synced s
      | AfterCreateSort listId \<Rightarrow> afterCreateSort listId s
      | AfterDelete nextActiveId \<Rightarrow> afterDelete nextActiveId s)"

definition resume :: "awaited \<Rightarrow> bool \<Rightarrow> wl_store \<Rightarrow> wl_store" where
  "resume a ok s =
     (let woken = map snd (filter (\<lambda>w. fst w = a) (sl_waiting s));
          s' = s\<lparr>sl_waiting := filter (\<lambda>w. fst w \<noteq> a) (sl_waiting s)\<rparr>
      in if ok then fold runContinuation woken s' else s')"

datatype wl_event =
    SetSymbols "string list"
  | ActivateList string
  | Hydrate
  | LoadRemote "nat \<Rightarrow> string" "nat \<Rightarrow> nat \<Rightarrow> string" "string set" "string \<Rightarrow> string option" json
  | SanitizeCatalog "string \<Rightarrow> string option" "string list"
  | AddSymbol "string \<Rightarrow> bool" string
  | RemoveSymbol string
  | RenameList string
  | ShareList "bool option"
  | CopyList string "nat \<Rightarrow> string"
  | NewList string "string option"
  | RemoveList string
  | ClearList
  | AddSection string string "jsnum option"
  | RenameSection string string
  | RemoveSection string
  | MoveSymbol move_symbol
  | MoveSection string section_target "string list option"
  | SortBy sort_by
  | RemoteCreated string json
  | WriteStarts nat
  | WriteSettles nat bool
  | WriteReleased nat
  | RequestSettles awaited bool

fun wlStep :: "wl_event \<Rightarrow> wl_store \<Rightarrow> wl_store" where
  "wlStep (SetSymbols update) s = setWatchlistSymbols update s"
| "wlStep (ActivateList i) s = setActiveWatchlist i s"
| "wlStep Hydrate s = hydrateWatchlist s"
| "wlStep (LoadRemote newIds newSectionIds catalog aliases v) s = applyRemoteWatchlists newIds newSectionIds catalog aliases v s"
| "wlStep (SanitizeCatalog aliases ids) s = sanitizeWatchlistsForCatalog aliases ids s"
| "wlStep (AddSymbol known t) s = addWatchlistSymbol known t s"
| "wlStep (RemoveSymbol t) s = removeWatchlistSymbol t s"
| "wlStep (RenameList n) s = renameWatchlist n s"
| "wlStep (ShareList b) s = setWatchlistShared b s"
| "wlStep (CopyList i is) s = copyWatchlist i is s"
| "wlStep (NewList i n) s = createWatchlist i n s"
| "wlStep (RemoveList i) s = removeWatchlist i s"
| "wlStep ClearList s = clearWatchlist s"
| "wlStep (AddSection i t n) s = addWatchlistSection i t n s"
| "wlStep (RenameSection i t) s = renameWatchlistSection i t s"
| "wlStep (RemoveSection i) s = removeWatchlistSection i s"
| "wlStep (MoveSymbol p) s = moveWatchlistSymbol p s"
| "wlStep (MoveSection i t d) s = moveWatchlistSection i t d s"
| "wlStep (SortBy k) s = setWatchlistSort k s"
| "wlStep (RemoteCreated i v) s = afterCreated i v s"
| "wlStep (WriteStarts n) s = s\<lparr>sl_queue := startWrite n (sl_queue s)\<rparr>"
| "wlStep (WriteSettles n ok) s =
     (if n < length (wq_tasks (sl_queue s)) \<and> wt_phase (wq_tasks (sl_queue s) ! n) = Writing
      then resume (LayoutWritten n) ok (s\<lparr>sl_queue := settleWrite n ok (sl_queue s)\<rparr>) else s)"
| "wlStep (WriteReleased n) s = s\<lparr>sl_queue := release n (sl_queue s)\<rparr>"
| "wlStep (RequestSettles a ok) s = (case a of LayoutWritten _ \<Rightarrow> s | _ \<Rightarrow> resume a ok s)"

definition newStore :: "bool \<Rightarrow> wl_store" where
  "newStore session = \<lparr>sl_lists = [DEFAULT_LIST], sl_activeId = ''default'', sl_sortKey = BySymbol, sl_sortDir = Asc, sl_session = session,
     sl_queue = \<lparr>wq_tasks = [], wq_pending = [], wq_backend = Map.empty\<rparr>, sl_requests = [], sl_waiting = []\<rparr>"

text \<open>What the environment grants: fresh ids, and distinct ids of the backend's lists and sections.\<close>

fun granted :: "wl_event \<Rightarrow> wl_store \<Rightarrow> bool" where
  "granted (LoadRemote newIds newSectionIds catalog aliases v) s =
     (case v of
        JArr payload \<Rightarrow>
          distinct (map wl_id (remoteLists newIds newSectionIds payload))
          \<and> list_all (\<lambda>l. distinct (map ws_id (wl_sections l))) (remoteLists newIds newSectionIds payload)
      | _ \<Rightarrow> True)"
| "granted (CopyList i is) s = (i \<notin> wl_id ` set (sl_lists s) \<and> \<not> isServerWatchlistId i \<and> distinct (map is [0..<length (wl_sections (active s))]))"
| "granted (NewList i n) s = (i \<notin> wl_id ` set (sl_lists s) \<and> \<not> isServerWatchlistId i)"
| "granted (AddSection i t n) s = (i \<notin> ws_id ` set (wl_sections (active s)))"
| "granted (RemoteCreated i v) s = (case field v ''id'' of JStr r \<Rightarrow> isServerWatchlistId r \<and> r \<notin> wl_id ` set (sl_lists s) | _ \<Rightarrow> False)"
| "granted _ s = True"

inductive wl_reach :: "wl_store \<Rightarrow> bool" where
  reach_new: "wl_reach (newStore session)"
| reach_step: "wl_reach s \<Longrightarrow> granted e s \<Longrightarrow> wl_reach (wlStep e s)"

subsection \<open>Lists stay well formed\<close>

definition store_ok :: "wl_store \<Rightarrow> bool" where
  "store_ok s \<longleftrightarrow> sl_lists s \<noteq> [] \<and> distinct (map wl_id (sl_lists s)) \<and> list_all wl_ok (sl_lists s)"

text \<open>Work behind a request and the queue do not touch the lists.\<close>

lemma lists_kept [simp]:
  "sl_lists (request r s) = sl_lists s" "sl_activeId (request r s) = sl_activeId s" "sl_session (request r s) = sl_session s"
  "sl_lists (replaceRemoteLayoutFromLocal l s) = sl_lists s" "sl_activeId (replaceRemoteLayoutFromLocal l s) = sl_activeId s"
  "sl_session (replaceRemoteLayoutFromLocal l s) = sl_session s" "sl_waiting (replaceRemoteLayoutFromLocal l s) = sl_waiting s"
  "sl_lists (afterCreateSort i s) = sl_lists s" "sl_lists (afterCreateLayout l s) = sl_lists s" "sl_lists (afterDelete i s) = sl_lists s"
  by (simp_all add: request_def replaceRemoteLayoutFromLocal_def afterCreateSort_def afterCreateLayout_def afterDelete_def)

lemma runRemoteSync_kept: "sl_lists (work s) = sl_lists s \<Longrightarrow> sl_lists (runRemoteSync work s) = sl_lists s"
  by (simp add: runRemoteSync_def)

lemma sanitizeSync_kept [simp]: "sl_lists (sanitizeSync previous ls s) = sl_lists s"
  by (induction previous ls s rule: sanitizeSync.induct) (simp_all split: option.splits)

lemma resume_kept [simp]: "sl_lists (resume a ok s) = sl_lists s"
proof -
  have "sl_lists (fold runContinuation cs s') = sl_lists s'" for cs s'
    by (induction cs arbitrary: s') (simp_all add: runContinuation_def split: continuation.splits)
  then show ?thesis by (simp add: resume_def Let_def)
qed

lemma setListsAndPush_lists [simp]: "sl_lists (setListsAndPush ls s) = ls" "sl_lists (setManualAndPush ls s) = ls"
  by (simp_all add: setListsAndPush_def setManualAndPush_def runRemoteSync_def)

lemma find_SomeD: "find P xs = Some x \<Longrightarrow> x \<in> set xs \<and> P x"
  by (induction xs) (auto split: if_splits)

lemma activeList_mem: "ls \<noteq> [] \<Longrightarrow> activeList ls i \<in> set ls"
  by (auto simp: activeList_def dest: find_SomeD split: option.splits list.splits)

lemma updateActive_ok:
  assumes "store_ok s" "\<And>l. l = active s \<Longrightarrow> wl_ok l \<Longrightarrow> wl_ok (f l) \<and> wl_id (f l) = wl_id l"
  shows "updated s f \<noteq> [] \<and> distinct (map wl_id (updated s f)) \<and> list_all wl_ok (updated s f)"
    "map wl_id (updated s f) = map wl_id (sl_lists s)"
proof -
  have "l = active s" if "l \<in> set (sl_lists s)" "wl_id l = wl_id (active s)" for l
    using assms(1) that activeList_mem [of "sl_lists s" "sl_activeId s"] by (auto simp: store_ok_def distinct_map dest: inj_onD)
  then have f: "wl_ok (f l) \<and> wl_id (f l) = wl_id l" if "l \<in> set (sl_lists s)" "wl_id l = wl_id (active s)" for l
    using assms that by (auto simp: store_ok_def list_all_iff)
  then show ids: "map wl_id (updated s f) = map wl_id (sl_lists s)" by (auto simp: updateActive_def Let_def)
  show "updated s f \<noteq> [] \<and> distinct (map wl_id (updated s f)) \<and> list_all wl_ok (updated s f)"
    unfolding ids using assms(1) f by (auto simp: updateActive_def Let_def store_ok_def list_all_iff)
qed

lemma sections_ok:
  assumes "wl_ok l" "distinct (wl_symbols l')" "map ws_id (wl_sections l') = map ws_id (wl_sections l)"
    "list_all (\<lambda>s. ws_index s \<le> length (wl_symbols l')) (wl_sections l')"
  shows "wl_ok l'"
  using assms by (simp add: wl_ok_def)

lemma distinct_insert_at: "distinct xs \<Longrightarrow> x \<notin> set xs \<Longrightarrow> distinct (insert_at n x xs)"
  by (auto simp: insert_at_def set_take_disj_set_drop_if_distinct dest: in_set_takeD in_set_dropD)

lemma removeSymbol_ok: "wl_ok l \<Longrightarrow> wl_ok (removeSymbolFromList l t) \<and> wl_id (removeSymbolFromList l t) = wl_id l"
  by (auto simp: wl_ok_def removeSymbolFromList_def Let_def list_all_iff distinct_map_filter comp_def)

lemma renameSection_ok: "wl_ok l \<Longrightarrow> wl_ok (renameSectionInList l i t) \<and> wl_id (renameSectionInList l i t) = wl_id l"
  by (intro conjI, rule sections_ok [of l]) (auto simp: renameSectionInList_def list_all_iff wl_ok_def)

lemma moveSymbol_shape:
  "moveSymbolInList l t i m = l \<or> (\<exists>k g. moveSymbolInList l t i m =
     l\<lparr>wl_symbols := insert_at k t (filter (\<lambda>x. x \<noteq> t) (wl_symbols l)),
       wl_sections := map (\<lambda>s. s\<lparr>ws_index := min (g s) (length (insert_at k t (filter (\<lambda>x. x \<noteq> t) (wl_symbols l))))\<rparr>) (wl_sections l)\<rparr>)"
  unfolding moveSymbolInList_def Let_def clamp_numOf
  apply (rule if_split [THEN iffD2], rule conjI, rule impI, rule disjI1, rule refl, rule impI)
  apply (rule if_split [THEN iffD2], rule conjI, rule impI, rule disjI1, rule refl, rule impI)
  apply (rule disjI2, rule exI, rule exI, rule refl)
  done

lemma moveSymbol_ok:
  assumes "wl_ok l"
  shows "wl_ok (moveSymbolInList l t i m)"
proof -
  have "distinct (insert_at k t (filter (\<lambda>x. x \<noteq> t) (wl_symbols l)))" for k using assms by (intro distinct_insert_at) (auto simp: wl_ok_def)
  then show ?thesis
    using moveSymbol_shape [of l t i m] assms by (elim disjE exE) (simp_all add: wl_ok_def list_all_iff comp_def)
qed

lemma fromTokens_id [simp]: "wl_id (fromLayoutTokens l ts) = wl_id l"
  by (simp add: fromLayoutTokens_def split: prod.splits)

lemma moves_id [simp]:
  "wl_id (moveSymbolInList l t i m) = wl_id l" "wl_id (moveSymbolRelativeToSymbolInList l t u e) = wl_id l"
  "wl_id (moveSymbolToSectionInList l t j m) = wl_id l" "wl_id (moveSymbolToUnsectionedStartInList l t) = wl_id l"
  "wl_id (moveSectionInList l j tgt) = wl_id l" "wl_id (materializeDisplayedSymbolOrder l d) = wl_id l"
  "wl_id (sanitizeListForCatalog l C A) = wl_id l"
  by (simp_all add: moveSymbolInList_def moveSymbolRelativeToSymbolInList_def moveSymbolToSectionInList_def
      moveSymbolToUnsectionedStartInList_def moveSectionInList_def materializeDisplayedSymbolOrder_def sanitizeListForCatalog_def Let_def
      split: option.splits section_target.splits prod.splits)

lemma moveRelative_ok: "wl_ok l \<Longrightarrow> wl_ok (moveSymbolRelativeToSymbolInList l t u e)"
  using moveRelative_layout [of l t u e]
  by (cases "t \<in> set (wl_symbols l) \<and> u \<in> set (wl_symbols l) \<and> t \<noteq> u") (auto simp: moveSymbolRelativeToSymbolInList_def)

lemma moveToStart_ok: "wl_ok l \<Longrightarrow> wl_ok (moveSymbolToUnsectionedStartInList l t)"
  using moveToStart_layout [of l t] by (cases "t \<in> set (wl_symbols l)") (auto simp: moveSymbolToUnsectionedStartInList_def)

lemma section_of_tokens: "wl_ok l \<Longrightarrow> list_ex (isSection i) (toLayoutTokens l) \<longleftrightarrow> i \<in> ws_id ` set (wl_sections l)"
  using layout_tokens(2) [of l i] by (simp add: layout_def list_ex_iff)

lemma moveToSection_ok: "wl_ok l \<Longrightarrow> wl_ok (moveSymbolToSectionInList l t i m)"
proof (cases "t \<in> set (wl_symbols l) \<and> i \<in> ws_id ` set (wl_sections l)")
  case False
  assume "wl_ok l"
  then have "list_ex (isSection i) (filter (\<lambda>y. \<not> isSymbol t y) (toLayoutTokens l)) \<longleftrightarrow> i \<in> ws_id ` set (wl_sections l)"
    by (simp add: rest_tokens section_of_tokens)
  then show ?thesis using \<open>wl_ok l\<close> False by (auto simp: moveSymbolToSectionInList_def Let_def)
qed (use moveToSection_layout in blast)

lemma moveSection_ok:
  assumes "wl_ok l"
  shows "wl_ok (moveSectionInList l i target)"
proof (cases "i \<in> ws_id ` set (wl_sections l) \<and> (case target of ToSection j _ \<Rightarrow> j \<noteq> i \<and> j \<in> ws_id ` set (wl_sections l) | _ \<Rightarrow> True)")
  case True
  then obtain sec where "sec \<in> set (wl_sections l)" "i = ws_id sec" by auto
  with True moveSection_layout [OF assms, of sec target] show ?thesis by (cases target) auto
next
  case False
  have "list_ex (isSection j) (filter (\<lambda>y. \<not> isSection i y) ts) \<Longrightarrow> list_ex (isSection j) ts" for j ts by (auto simp: list_ex_iff)
  then have "moveSectionInList l i target = l"
    using False section_of_tokens [OF assms] find_None_iff [of "isSection i" "toLayoutTokens l"]
    by (auto simp: moveSectionInList_def Let_def list_ex_iff split: option.splits section_target.splits dest!: find_SomeD)
  then show ?thesis using assms by simp
qed

lemma pushNew_props: "distinct acc \<Longrightarrow> distinct (pushNew P ts acc) \<and> set (pushNew P ts acc) = set acc \<union> {t \<in> set ts. P t}"
  by (induction P ts acc rule: pushNew.induct) auto

lemma materialize_ok:
  assumes "wl_ok l"
  shows "wl_ok (materializeDisplayedSymbolOrder l d)" "set (wl_symbols (materializeDisplayedSymbolOrder l d)) = set (wl_symbols l)"
proof -
  have "distinct (wl_symbols (materializeDisplayedSymbolOrder l d)) \<and> set (wl_symbols (materializeDisplayedSymbolOrder l d)) = set (wl_symbols l)"
    using assms pushNew_props [of "[]" "\<lambda>t. t \<in> set (wl_symbols l)"] pushNew_props [of _ "\<lambda>_. True" "wl_symbols l"]
    by (auto simp: materializeDisplayedSymbolOrder_def wl_ok_def split: option.splits)
  moreover from this have "length (wl_symbols (materializeDisplayedSymbolOrder l d)) = length (wl_symbols l)"
    using assms by (metis distinct_card wl_ok_def)
  moreover have "wl_sections (materializeDisplayedSymbolOrder l d) = wl_sections l"
    by (simp add: materializeDisplayedSymbolOrder_def split: option.splits)
  ultimately show "wl_ok (materializeDisplayedSymbolOrder l d)" "set (wl_symbols (materializeDisplayedSymbolOrder l d)) = set (wl_symbols l)"
    using assms by (simp_all add: wl_ok_def)
qed

lemma movedSymbol_ok: "wl_ok l \<Longrightarrow> wl_ok (movedSymbol p l) \<and> wl_id (movedSymbol p l) = wl_id l"
  by (simp add: movedSymbol_def Let_def moveDisplayedSymbolRelativeInList_def materialize_ok moveToStart_ok moveToSection_ok
      moveRelative_ok moveSymbol_ok)

lemma sanitize_ok: "wl_ok l \<Longrightarrow> wl_ok (sanitizeListForCatalog l C A)"
  using sanitize_keeps_layout [of l C A, unfolded Let_def, THEN conjunct1] by (cases "C = {}") (simp add: sanitizeListForCatalog_def, blast)

lemma sort_fields_ok [simp]: "wl_ok (l\<lparr>wl_sortKey := k, wl_sortDir := d\<rparr>) = wl_ok l" "wl_ok (l\<lparr>wl_name := n\<rparr>) = wl_ok l"
  "wl_ok (l\<lparr>wl_shared := b\<rparr>) = wl_ok l" "wl_ok (l\<lparr>wl_id := i\<rparr>) = wl_ok l"
  by (simp_all add: wl_ok_def)

lemma store_ok_lists: "sl_lists s' = sl_lists s \<Longrightarrow> store_ok s' = store_ok s"
  by (simp add: store_ok_def)

lemma store_ok_updated:
  assumes "store_ok s" "\<And>l. l = active s \<Longrightarrow> wl_ok l \<Longrightarrow> wl_ok (f l) \<and> wl_id (f l) = wl_id l" "sl_lists s' = updated s f"
  shows "store_ok s'"
  using updateActive_ok(1) [OF assms(1,2)] assms(3) by (simp add: store_ok_def)

lemma pushClean_distinct: "distinct acc \<Longrightarrow> distinct (pushClean vs acc)"
proof (induction vs acc rule: pushClean.induct)
  case (2 v vs symbols)
  have "distinct (case v of JStr s \<Rightarrow> let symbol = js_upper (js_trim s) in if symbol = [] \<or> symbol \<in> set symbols then symbols else symbols @ [symbol] | _ \<Rightarrow> symbols)"
    using "2.prems" by (simp add: Let_def split: json.splits)
  then show ?case using "2.IH" by simp
qed simp

lemma cleanSymbols_distinct [simp]: "distinct (cleanSymbols v)"
  by (simp add: cleanSymbols_def pushClean_distinct split: json.splits)

lemma enumerate_mem: "(n, v) \<in> set (enumerate k xs) \<Longrightarrow> v \<in> set xs"
  by (induction xs arbitrary: k) auto

lemma map_filter_mem: "y \<in> set (List.map_filter f xs) \<Longrightarrow> \<exists>x. f x = Some y"
  by (auto simp: List.map_filter_def)

lemma cleanSections_index: "sec \<in> set (cleanSections newIds v n) \<Longrightarrow> ws_index sec \<le> n"
proof -
  assume "sec \<in> set (cleanSections newIds v n)"
  then obtain i x where "cleanSection n i x = Some sec"
    by (auto simp: cleanSections_def set_js_sort split: json.splits dest!: map_filter_mem)
  then have "ws_index sec = (case field x ''index'' of JNum m \<Rightarrow> clampSectionIndex m n | _ \<Rightarrow> n)"
    by (auto simp: cleanSection_def split: if_splits)
  then show ?thesis using clamp_le by (simp split: json.splits)
qed

lemma remoteList_ok: "isObject v \<Longrightarrow> distinct (map ws_id (wl_sections (remoteWatchlistToLocal i is v))) \<Longrightarrow> wl_ok (remoteWatchlistToLocal i is v)"
  by (auto simp: wl_ok_def remoteWatchlistToLocal_def normalizeList_def Let_def list_all_iff dest: cleanSections_index)

lemma default_ok [simp]: "wl_ok DEFAULT_LIST"
  by (simp add: DEFAULT_LIST_def wl_ok_def)

lemma remoteLists_ok:
  assumes "list_all (\<lambda>l. distinct (map ws_id (wl_sections l))) (remoteLists newIds newSectionIds payload)"
  shows "list_all wl_ok (remoteLists newIds newSectionIds payload)"
  unfolding list_all_iff
proof
  fix l assume l: "l \<in> set (remoteLists newIds newSectionIds payload)"
  let ?sorted = "js_sort (\<lambda>a b. js_sub (positionOf a) (positionOf b)) (filter remoteNamed payload)"
  obtain n v where nv: "(n, v) \<in> set (enumerate 0 ?sorted)" and l_def: "l = remoteWatchlistToLocal (newIds n) (newSectionIds n) v"
    using l unfolding remoteLists_def set_map by (elim imageE) (simp only: split_paired_all prod.case)
  then have v: "v \<in> set (filter remoteNamed payload)" using enumerate_mem [OF nv] by (simp only: set_js_sort)
  then have "isObject v" by (simp add: remoteNamed_def)
  moreover have "distinct (map ws_id (wl_sections l))" using assms l by (simp add: list_all_iff)
  ultimately show "wl_ok l" unfolding l_def by (rule remoteList_ok)
qed

lemma sanitizeLists_ok: "list_all wl_ok ls \<Longrightarrow> list_all wl_ok (sanitizeListsForCatalog ls C A)"
  "map wl_id (sanitizeListsForCatalog ls C A) = map wl_id ls"
  by (simp_all add: sanitizeListsForCatalog_def list_all_iff sanitize_ok)

lemma setActiveList_lists [simp]: "sl_lists (setActiveList ls i s) = ls"
  by (simp add: setActiveList_def)

lemma syncSanitized_lists [simp]: "sl_lists (syncSanitizedRemoteLayouts p n s) = sl_lists s"
  by (simp add: syncSanitizedRemoteLayouts_def runRemoteSync_def)

lemma applyRemote_ok:
  assumes "store_ok s" "granted (LoadRemote newIds newSectionIds C A v) s"
  shows "store_ok (applyRemoteWatchlists newIds newSectionIds C A v s)"
proof (cases v)
  case (JArr payload)
  define raw where "raw = (if remoteLists newIds newSectionIds payload \<noteq> [] then remoteLists newIds newSectionIds payload else [DEFAULT_LIST])"
  define ls where "ls = (if C \<noteq> {} then sanitizeListsForCatalog raw C A else raw)"
  have raw: "raw \<noteq> []" "distinct (map wl_id raw)" "list_all wl_ok raw"
    using assms(2) remoteLists_ok [of newIds newSectionIds payload] JArr by (auto simp: raw_def)
  have "ls \<noteq> []" "distinct (map wl_id ls)" "list_all wl_ok ls"
    unfolding ls_def using raw sanitizeLists_ok [of raw C A] by (simp_all only: split: if_split) (auto simp: sanitizeListsForCatalog_def)
  moreover have "sl_lists (applyRemoteWatchlists newIds newSectionIds C A v s) = ls"
    by (simp add: applyRemoteWatchlists_def JArr Let_def flip: raw_def) (simp add: ls_def)
  ultimately show ?thesis by (simp add: store_ok_def)
qed (use assms in \<open>simp_all add: applyRemoteWatchlists_def\<close>)

lemma enumerate_ids: "map (\<lambda>(n, sec). ws_id (sec\<lparr>ws_id := is n\<rparr>)) (enumerate k xs) = map is [k..<k + length xs]"
  by (induction xs arbitrary: k) (auto simp: upt_rec)

lemma addList_ok:
  assumes "store_ok s" "wl_ok l" "wl_id l \<notin> wl_id ` set (sl_lists s)"
  shows "store_ok (addListAndCreate l s)"
  using assms by (auto simp: store_ok_def addListAndCreate_def runRemoteSync_def createRemoteListFromLocal_def)

lemma copy_ok:
  assumes "store_ok s" "granted (CopyList i is) s"
  shows "store_ok (copyWatchlist i is s)"
proof -
  have "wl_ok (active s)" using assms(1) activeList_mem [of "sl_lists s" "sl_activeId s"] by (auto simp: store_ok_def list_all_iff)
  moreover have "map ws_id (map (\<lambda>(n, sec). sec\<lparr>ws_id := is n\<rparr>) (enumerate 0 (wl_sections (active s)))) = map is [0..<length (wl_sections (active s))]"
    using enumerate_ids [of "is" 0 "wl_sections (active s)"] by (simp add: comp_def case_prod_unfold)
  ultimately show ?thesis unfolding copyWatchlist_def
    using assms by (intro addList_ok) (auto simp: wl_ok_def list_all_iff dest: enumerate_mem)
qed

lemma replaceLocal_shape:
  assumes "find (\<lambda>l. wl_id l = i) (sl_lists s) = Some l" "field v ''id'' = JStr r"
  obtains nl s' where "replaceLocalListWithRemote i v s = (s', Some nl)" "wl_id nl = r" "wl_symbols nl = wl_symbols l" "wl_sections nl = wl_sections l"
    "sl_lists s' = map (\<lambda>x. if wl_id x = i then nl else x) (sl_lists s)" "sl_session s' = sl_session s" "sl_queue s' = sl_queue s" "sl_waiting s' = sl_waiting s"
proof -
  obtain s' nl where *: "replaceLocalListWithRemote i v s = (s', Some nl)" using assms(1) by (simp add: replaceLocalListWithRemote_def Let_def)
  show thesis by (rule that [OF *]) (use * assms in \<open>auto simp: replaceLocalListWithRemote_def Let_def split: if_splits\<close>)
qed

lemma afterCreated_lists:
  assumes "store_ok s" "granted (RemoteCreated i v) s"
  shows "store_ok (afterCreated i v s)"
proof (cases "find (\<lambda>l. wl_id l = i) (sl_lists s)")
  case (Some l)
  obtain r where r: "field v ''id'' = JStr r" "r \<notin> wl_id ` set (sl_lists s)" using assms(2) by (auto split: json.splits)
  obtain nl s' where shape: "replaceLocalListWithRemote i v s = (s', Some nl)" and nl: "wl_id nl = r" "wl_symbols nl = wl_symbols l"
      "wl_sections nl = wl_sections l" and s': "sl_lists s' = map (\<lambda>x. if wl_id x = i then nl else x) (sl_lists s)"
      "sl_session s' = sl_session s" "sl_queue s' = sl_queue s" "sl_waiting s' = sl_waiting s"
    by (rule replaceLocal_shape [OF Some r(1)])
  have lists: "sl_lists (afterCreated i v s) = map (\<lambda>x. if wl_id x = i then nl else x) (sl_lists s)" by (simp add: afterCreated_def shape s'(1))
  have l: "l \<in> set (sl_lists s)" "wl_id l = i" using find_SomeD [OF Some] by auto
  have "wl_ok nl" using assms(1) l nl by (simp add: store_ok_def list_all_iff wl_ok_def)
  moreover have "distinct (map wl_id (map (\<lambda>x. if wl_id x = i then nl else x) xs))"
    if "distinct (map wl_id xs)" "r \<notin> wl_id ` set xs" for xs
  proof -
    have "map wl_id (map (\<lambda>x. if wl_id x = i then nl else x) xs) = map (\<lambda>j. if j = i then r else j) (map wl_id xs)" using nl(1) by simp
    moreover have "inj_on (\<lambda>j. if j = i then r else j) (set (map wl_id xs))" using that(2) by (auto simp: inj_on_def)
    ultimately show ?thesis using that(1) by (simp only: distinct_map [of _ "map wl_id xs"])
  qed
  ultimately show ?thesis using assms(1) r(2) nl lists by (auto simp: store_ok_def list_all_iff)
qed (use assms in \<open>simp add: afterCreated_def replaceLocalListWithRemote_def\<close>)

lemma wlStep_ok:
  assumes ok: "store_ok s" and g: "granted e s"
  shows "store_ok (wlStep e s)"
proof (cases e)
  case (SetSymbols u)
  show ?thesis unfolding SetSymbols wlStep.simps setWatchlistSymbols_def Let_def
    by (rule store_ok_updated [OF ok _ setListsAndPush_lists(1)]) (auto simp: wl_ok_def list_all_iff distinct_map_filter)
next
  case (AddSymbol k t)
  show ?thesis
  proof (cases "js_upper (js_trim t) \<in> set (wl_symbols (active s)) \<or> \<not> k (js_upper (js_trim t))")
    case True then show ?thesis using ok by (auto simp: AddSymbol addWatchlistSymbol_def Let_def)
  next
    case False
    have "store_ok (setListsAndPush (updated s (\<lambda>l. l\<lparr>wl_symbols := wl_symbols l @ [js_upper (js_trim t)]\<rparr>)) s)"
      by (rule store_ok_updated [OF ok _ setListsAndPush_lists(1)]) (use False in \<open>auto simp: wl_ok_def list_all_iff intro: le_SucI\<close>)
    then show ?thesis using False by (simp add: AddSymbol addWatchlistSymbol_def Let_def)
  qed
next
  case (RemoveSymbol t)
  have "store_ok (setListsAndPush (updated s (\<lambda>l. removeSymbolFromList l (js_upper (js_trim t)))) s)"
    by (rule store_ok_updated [OF ok _ setListsAndPush_lists(1)]) (simp add: removeSymbol_ok)
  then show ?thesis using ok by (simp add: RemoveSymbol removeWatchlistSymbol_def Let_def)
next
  case (AddSection i t n)
  let ?f = "\<lambda>m l. l\<lparr>wl_sections := wl_sections l @ [createWatchlistSection i (normalizeSectionTitle t) (numOf m) (length (wl_symbols l))]\<rparr>"
  have "store_ok (setListsAndPush (updated s (?f m)) s)" for m
    by (rule store_ok_updated [OF ok _ setListsAndPush_lists(1)])
      (use g AddSection in \<open>auto simp: wl_ok_def list_all_iff createWatchlistSection_def\<close>)
  then show ?thesis using ok by (simp add: AddSection addWatchlistSection_def Let_def)
next
  case (RenameSection i t)
  show ?thesis unfolding RenameSection wlStep.simps renameWatchlistSection_def
    by (rule store_ok_updated [OF ok _ setListsAndPush_lists(1)]) (simp add: renameSection_ok)
next
  case (RemoveSection i)
  show ?thesis unfolding RemoveSection wlStep.simps removeWatchlistSection_def
    by (rule store_ok_updated [OF ok _ setListsAndPush_lists(1)]) (auto simp: wl_ok_def list_all_iff removeSectionFromList_def distinct_map_filter)
next
  case ClearList
  show ?thesis unfolding ClearList wlStep.simps clearWatchlist_def
    by (rule store_ok_updated [OF ok _ setListsAndPush_lists(1)]) (auto simp: wl_ok_def)
next
  case (MoveSymbol p)
  show ?thesis unfolding MoveSymbol wlStep.simps moveWatchlistSymbol_def
    by (rule store_ok_updated [OF ok _ setListsAndPush_lists(2)]) (simp add: movedSymbol_ok)
next
  case (MoveSection i t d)
  show ?thesis unfolding MoveSection wlStep.simps moveWatchlistSection_def
    by (rule store_ok_updated [OF ok _ setListsAndPush_lists(2)]) (simp add: materialize_ok moveSection_ok)
next
  case (SortBy k)
  show ?thesis unfolding SortBy wlStep.simps setWatchlistSort_def Let_def
    by (rule store_ok_updated [OF ok, where f = "\<lambda>l. l\<lparr>wl_sortKey := k, wl_sortDir := _\<rparr>"]) (simp, simp add: runRemoteSync_def)
next
  case (RenameList n)
  have "store_ok (runRemoteSync (if b then request r else (\<lambda>s. s)) (s\<lparr>sl_lists := updated s (\<lambda>l. l\<lparr>wl_name := m\<rparr>)\<rparr>))" for b r m
    by (rule store_ok_updated [OF ok, where f = "\<lambda>l. l\<lparr>wl_name := m\<rparr>"]) (simp, simp add: runRemoteSync_def)
  then show ?thesis using ok by (simp add: RenameList renameWatchlist_def Let_def)
next
  case (ShareList b)
  show ?thesis unfolding ShareList wlStep.simps setWatchlistShared_def Let_def
    by (rule store_ok_updated [OF ok, where f = "\<lambda>l. l\<lparr>wl_shared := _\<rparr>"]) (simp, simp add: runRemoteSync_def)
next
  case (RemoveList i)
  show ?thesis
  proof (cases "length (sl_lists s) \<le> 1 \<or> \<not> list_ex (\<lambda>l. wl_id l = i) (sl_lists s)")
    case False
    have lists: "sl_lists (removeWatchlist i s) = filter (\<lambda>l. wl_id l \<noteq> i) (sl_lists s)"
      using False by (simp add: removeWatchlist_def Let_def runRemoteSync_def)
    have "filter (\<lambda>l. wl_id l \<noteq> i) (sl_lists s) \<noteq> []"
    proof
      assume "filter (\<lambda>l. wl_id l \<noteq> i) (sl_lists s) = []"
      then have "set (map wl_id (sl_lists s)) \<subseteq> {i}" by (auto simp: filter_empty_conv)
      then have "card (set (map wl_id (sl_lists s))) \<le> card {i}" by (intro card_mono) simp_all
      moreover have "card (set (map wl_id (sl_lists s))) = length (sl_lists s)" using ok distinct_card [of "map wl_id (sl_lists s)"] by (simp add: store_ok_def)
      ultimately show False using False by simp
    qed
    then show ?thesis using ok by (simp add: RemoveList store_ok_def lists list_all_iff distinct_map_filter)
  qed (use ok RemoveList in \<open>simp add: removeWatchlist_def\<close>)
next
  case (LoadRemote a b c d v)
  then show ?thesis using applyRemote_ok [OF ok] g by simp
next
  case (SanitizeCatalog A ids)
  then show ?thesis using ok sanitizeLists_ok [of "sl_lists s" "set (map (\<lambda>c. js_upper (js_trim c)) ids)" A]
    by (simp add: sanitizeWatchlistsForCatalog_def Let_def store_ok_def) (auto simp: sanitizeListsForCatalog_def)
next
  case (NewList i n)
  then show ?thesis using g ok unfolding NewList wlStep.simps createWatchlist_def by (intro addList_ok) (auto simp: wl_ok_def DEFAULT_LIST_def)
next
  case (CopyList i "is")
  then show ?thesis using copy_ok [OF ok] g by simp
next
  case (RemoteCreated i v)
  then show ?thesis using afterCreated_lists [OF ok] g by simp
next
  case Hydrate
  then show ?thesis by (simp add: hydrateWatchlist_def store_ok_def)
next
  case (ActivateList i)
  then show ?thesis using ok by (simp add: setActiveWatchlist_def Let_def runRemoteSync_def store_ok_def)
qed (use ok in \<open>simp_all add: store_ok_def split: awaited.splits\<close>)

lemma wl_reach_ok: "wl_reach s \<Longrightarrow> store_ok s"
  by (induction rule: wl_reach.induct) (simp_all add: newStore_def store_ok_def, metis wlStep_ok store_ok_def)

subsection \<open>Writes of a list do not overlap\<close>

abbreviation task :: "write_queue \<Rightarrow> nat \<Rightarrow> write_task" where
  "task q n \<equiv> wq_tasks q ! n"

abbreviation tasks :: "write_queue \<Rightarrow> nat" where
  "tasks q \<equiv> length (wq_tasks q)"

text \<open>Everything queued for the list before position \<open>n\<close> has settled.\<close>

definition done_before :: "write_queue \<Rightarrow> nat \<Rightarrow> string \<Rightarrow> bool" where
  "done_before q n i \<longleftrightarrow> (\<forall>m < n. wt_list (task q m) = i \<longrightarrow> isSettled (task q m))"

definition last_of :: "write_queue \<Rightarrow> nat \<Rightarrow> nat \<Rightarrow> string \<Rightarrow> bool" where
  "last_of q n p i \<longleftrightarrow> p < n \<and> wt_list (task q p) = i \<and> (\<forall>m. p < m \<and> m < n \<longrightarrow> wt_list (task q m) \<noteq> i)"

definition chained :: "write_queue \<Rightarrow> nat \<Rightarrow> string \<Rightarrow> nat option \<Rightarrow> bool" where
  "chained q n i after = (case after of None \<Rightarrow> done_before q n i | Some p \<Rightarrow> last_of q n p i)"

text \<open>The last write of its list that succeeded.\<close>

definition latest_stored :: "write_queue \<Rightarrow> nat \<Rightarrow> bool" where
  "latest_stored q n \<longleftrightarrow> n < tasks q \<and> wt_phase (task q n) = Settled True
     \<and> (\<forall>m < tasks q. n < m \<and> wt_list (task q m) = wt_list (task q n) \<longrightarrow> wt_phase (task q m) \<noteq> Settled True)"

definition queue_inv :: "write_queue \<Rightarrow> bool" where
  "queue_inv q \<longleftrightarrow>
     (\<forall>n < tasks q. chained q n (wt_list (task q n)) (wt_after (task q n)))
     \<and> (\<forall>n < tasks q. wt_phase (task q n) \<noteq> Queued \<longrightarrow> done_before q n (wt_list (task q n)))
     \<and> (\<forall>i. chained q (tasks q) i (map_get (wq_pending q) i))
     \<and> (\<forall>n. latest_stored q n \<longrightarrow> wq_backend q (wt_list (task q n)) = Some (wt_payload (task q n)))"

lemma chained_done:
  assumes "chained q n i after" "n \<le> tasks q" "\<And>p. after = Some p \<Longrightarrow> isSettled (task q p)"
    "\<And>p. p < tasks q \<Longrightarrow> wt_phase (task q p) \<noteq> Queued \<Longrightarrow> done_before q p (wt_list (task q p))"
  shows "done_before q n i"
proof (cases after)
  case (Some p)
  then have p: "last_of q n p i" "isSettled (task q p)" using assms(1,3) by (simp_all add: chained_def)
  then have "wt_phase (task q p) \<noteq> Queued" by (auto simp: isSettled_def)
  then have "done_before q p i" using p(1) assms(2) assms(4) [of p] by (auto simp: last_of_def)
  then show ?thesis using p unfolding done_before_def last_of_def by (metis nat_neq_iff)
qed (use assms(1) in \<open>simp add: chained_def\<close>)

lemma task_setPhase: "task (setPhase n ph q) m = (if m = n \<and> n < tasks q then (task q n)\<lparr>wt_phase := ph\<rparr> else task q m)"
  by (cases "n < tasks q"; cases "m = n") (simp_all add: setPhase_def list_update_beyond not_less)

lemma setPhase_simps [simp]:
  "tasks (setPhase n ph q) = tasks q" "wq_pending (setPhase n ph q) = wq_pending q" "wq_backend (setPhase n ph q) = wq_backend q"
  by (simp_all add: setPhase_def)

lemma task_fields_setPhase [simp]:
  "wt_list (task (setPhase n ph q) m) = wt_list (task q m)" "wt_after (task (setPhase n ph q) m) = wt_after (task q m)"
  "wt_payload (task (setPhase n ph q) m) = wt_payload (task q m)"
  "n < tasks q \<Longrightarrow> wt_phase (task (setPhase n ph q) m) = (if m = n then ph else wt_phase (task q m))"
  by (simp_all add: task_setPhase)

lemma done_setPhase:
  assumes "done_before q k i" "\<not> isSettled (task q n) \<or> (\<exists>b. ph = Settled b)" "n < tasks q"
  shows "done_before (setPhase n ph q) k i"
  using assms by (auto simp: done_before_def isSettled_def split: write_phase.splits)

lemma last_setPhase [simp]: "last_of (setPhase n ph q) k p i = last_of q k p i"
  by (simp add: last_of_def)

lemma chained_setPhase:
  assumes "chained q k i a" "\<not> isSettled (task q n) \<or> (\<exists>b. ph = Settled b)" "n < tasks q"
  shows "chained (setPhase n ph q) k i a"
  using assms done_setPhase by (cases a) (auto simp: chained_def)

lemma start_inv:
  assumes "queue_inv q"
  shows "queue_inv (startWrite n q)"
proof (cases "n < tasks q \<and> wt_phase (task q n) = Queued \<and> (case wt_after (task q n) of None \<Rightarrow> True | Some p \<Rightarrow> isSettled (task q p))")
  case True
  have ns: "\<not> isSettled (task q n)" using True by (simp add: isSettled_def)
  have "done_before q n (wt_list (task q n))"
    by (rule chained_done [of q n _ "wt_after (task q n)"]) (use assms True in \<open>auto simp: queue_inv_def split: option.splits\<close>)
  moreover have "latest_stored (setPhase n Writing q) k \<Longrightarrow> latest_stored q k" for k
    using True by (auto simp: latest_stored_def split: if_splits)
  ultimately have "queue_inv (setPhase n Writing q)"
    using assms True ns unfolding queue_inv_def
    by (intro conjI allI impI) (auto intro!: chained_setPhase done_setPhase split: if_splits)
  then show ?thesis using True by (simp add: startWrite_def)
qed (use assms in \<open>auto simp: startWrite_def\<close>)

lemma settle_inv:
  assumes "queue_inv q"
  shows "queue_inv (settleWrite n ok q)"
proof (cases "n < tasks q \<and> wt_phase (task q n) = Writing")
  case True
  have later: "wt_phase (task q m) = Queued" if "m < tasks q" "n < m" "wt_list (task q m) = wt_list (task q n)" for m
  proof (rule ccontr)
    assume "wt_phase (task q m) \<noteq> Queued"
    then have "done_before q m (wt_list (task q m))" using assms that(1) by (simp add: queue_inv_def)
    then have "isSettled (task q n)" using that by (auto simp: done_before_def)
    then show False using True by (simp add: isSettled_def)
  qed
  define q' where "q' = settleWrite n ok q"
  have q': "wq_tasks q' = wq_tasks (setPhase n (Settled ok) q)" "wq_pending q' = wq_pending q"
    "wq_backend q' = (if ok then (wq_backend q)(wt_list (task q n) \<mapsto> wt_payload (task q n)) else wq_backend q)"
    using True by (simp_all add: q'_def settleWrite_def Let_def)
  have same: "done_before q' k i = done_before (setPhase n (Settled ok) q) k i" "chained q' k i a = chained (setPhase n (Settled ok) q) k i a" for k i a
    by (simp_all add: done_before_def chained_def last_of_def q' split: option.splits)
  have "wq_backend q' (wt_list (task q' k)) = Some (wt_payload (task q' k))"
    if stored: "latest_stored q' k" for k
  proof (cases "ok \<and> wt_list (task q k) = wt_list (task q n)")
    case both: True
    have k: "k < tasks q'" "wt_phase (task q' k) = Settled True"
      "\<And>m. m < tasks q' \<Longrightarrow> k < m \<Longrightarrow> wt_list (task q' m) = wt_list (task q' k) \<Longrightarrow> wt_phase (task q' m) \<noteq> Settled True"
      using stored by (auto simp: latest_stored_def)
    have "k = n"
    proof (rule ccontr)
      assume ne: "k \<noteq> n"
      then have "k < n \<or> n < k" by linarith
      then show False
      proof
        assume "k < n" then show False using k(3) [of n] True both by (simp add: q')
      next
        assume "n < k" then show False using later [of k] k(1,2) both ne True by (simp add: q')
      qed
    qed
    then show ?thesis using both by (simp add: q')
  next
    case False
    have k: "k < tasks q" "k \<noteq> n" "wt_phase (task q k) = Settled True" using stored False True by (auto simp: latest_stored_def q' split: if_splits)
    have "wt_phase (task q m) \<noteq> Settled True" if m: "m < tasks q" "k < m" "wt_list (task q m) = wt_list (task q k)" for m
    proof (cases "m = n")
      case False
      have "wt_phase (task q' m) \<noteq> Settled True" using stored m True unfolding latest_stored_def q'(1) by simp
      then show ?thesis using False True by (simp add: q'(1))
    qed (use True in simp)
    then have "latest_stored q k" using k by (simp add: latest_stored_def)
    then have "wq_backend q (wt_list (task q k)) = Some (wt_payload (task q k))" using assms by (simp add: queue_inv_def)
    then show ?thesis using False by (auto simp: q')
  qed
  moreover have "chained q' k (wt_list (task q' k)) (wt_after (task q' k))" if "k < tasks q'" for k
    using assms that True unfolding queue_inv_def same by (auto simp: q' intro!: chained_setPhase)
  moreover have "done_before q' k (wt_list (task q' k))" if "k < tasks q'" "wt_phase (task q' k) \<noteq> Queued" for k
    using assms that True unfolding queue_inv_def same by (auto simp: q' intro!: done_setPhase split: if_splits)
  moreover have "chained q' (tasks q') i (map_get (wq_pending q') i)" for i
    using assms True unfolding queue_inv_def same by (auto simp: q' intro!: chained_setPhase)
  ultimately have "queue_inv q'" unfolding queue_inv_def by blast
  then show ?thesis by (simp add: q'_def)
qed (use assms in \<open>auto simp: settleWrite_def\<close>)

lemma release_inv:
  assumes "queue_inv q"
  shows "queue_inv (release n q)"
proof (cases "n < tasks q \<and> isSettled (task q n) \<and> map_get (wq_pending q) (wt_list (task q n)) = Some n")
  case True
  let ?i = "wt_list (task q n)"
  have "chained q (tasks q) ?i (map_get (wq_pending q) ?i)" using assms by (simp add: queue_inv_def)
  then have "done_before q (tasks q) ?i"
    by (rule chained_done) (use assms True in \<open>auto simp: queue_inv_def\<close>)
  moreover have "chained (q\<lparr>wq_pending := p\<rparr>) = chained q" "done_before (q\<lparr>wq_pending := p\<rparr>) = done_before q"
    "latest_stored (q\<lparr>wq_pending := p\<rparr>) = latest_stored q" for p
    by (intro ext; simp add: chained_def done_before_def last_of_def latest_stored_def split: option.splits)+
  moreover have "chained q (tasks q) j (map_get (map_delete ?i (wq_pending q)) j)" for j
    using assms calculation(1) by (cases "j = ?i") (simp_all add: delete_conv' chained_def queue_inv_def)
  ultimately have "queue_inv (q\<lparr>wq_pending := map_delete ?i (wq_pending q)\<rparr>)" using assms by (simp add: queue_inv_def)
  then show ?thesis using True by (simp add: release_def)
qed (use assms in \<open>auto simp: release_def\<close>)

lemma enqueueWrite_inv:
  assumes "queue_inv q"
  shows "queue_inv (enqueueWrite i pl q)"
proof -
  let ?q = "enqueueWrite i pl q"
  have t: "tasks ?q = tasks q + 1" "n < tasks q \<Longrightarrow> task ?q n = task q n"
    "task ?q (tasks q) = \<lparr>wt_list = i, wt_after = map_get (wq_pending q) i, wt_payload = pl, wt_phase = Queued\<rparr>" for n
    by (simp_all add: enqueueWrite_def nth_append)
  have below: "done_before ?q n j = done_before q n j" "chained ?q n j a = chained q n j a" if "n \<le> tasks q" for n j a
    using that by (auto simp: done_before_def chained_def last_of_def t split: option.splits)
  have pend: "chained ?q (tasks ?q) j (map_get (wq_pending ?q) j)" for j
  proof (cases "j = i")
    case True
    have "map_get (wq_pending ?q) i = Some (tasks q)" by (simp add: enqueueWrite_def update_conv')
    then show ?thesis using True by (auto simp: chained_def last_of_def t(1,3))
  next
    case False
    have "chained q (tasks q) j (map_get (wq_pending q) j)" using assms by (simp add: queue_inv_def)
    moreover have "map_get (wq_pending ?q) j = map_get (wq_pending q) j" using False by (simp add: enqueueWrite_def update_conv')
    ultimately show ?thesis using False
      by (auto simp: chained_def done_before_def last_of_def t less_Suc_eq split: option.splits)
  qed
  have "latest_stored ?q n \<Longrightarrow> latest_stored q n" for n
    using t by (cases "n = tasks q") (auto simp: latest_stored_def less_Suc_eq)
  moreover have "wq_backend ?q = wq_backend q" by (simp add: enqueueWrite_def)
  moreover have "n < tasks q" if "latest_stored q n" for n using that by (simp add: latest_stored_def)
  ultimately have "wq_backend ?q (wt_list (task ?q n)) = Some (wt_payload (task ?q n))" if "latest_stored ?q n" for n
    using that assms t(2) [of n] unfolding queue_inv_def by simp
  moreover have "chained ?q n (wt_list (task ?q n)) (wt_after (task ?q n))" if "n < tasks ?q" for n
  proof (cases "n = tasks q")
    case True
    then show ?thesis using assms by (simp add: t(3) below) (simp add: queue_inv_def)
  qed (use that assms t in \<open>auto simp: below queue_inv_def\<close>)
  moreover have "done_before ?q n (wt_list (task ?q n))" if "n < tasks ?q" "wt_phase (task ?q n) \<noteq> Queued" for n
    using that assms t by (cases "n = tasks q") (auto simp: below queue_inv_def)
  ultimately show ?thesis using pend unfolding queue_inv_def by blast
qed

text \<open>Every event changes the queue by enqueuing, starting, settling or releasing writes.\<close>

lemma replaceRemote_inv: "queue_inv (sl_queue s) \<Longrightarrow> queue_inv (sl_queue (replaceRemoteLayoutFromLocal l s))"
  by (simp add: replaceRemoteLayoutFromLocal_def enqueueWrite_inv)

lemma push_inv: "queue_inv (sl_queue s) \<Longrightarrow> queue_inv (sl_queue (setListsAndPush ls s))"
  "queue_inv (sl_queue s) \<Longrightarrow> queue_inv (sl_queue (setManualAndPush ls s))"
  by (simp_all add: setListsAndPush_def setManualAndPush_def runRemoteSync_def replaceRemote_inv)

lemma sanitizeSync_inv: "queue_inv (sl_queue s) \<Longrightarrow> queue_inv (sl_queue (sanitizeSync previous ls s))"
  by (induction previous ls s rule: sanitizeSync.induct) (simp_all add: replaceRemote_inv split: option.splits)

lemma queue_kept [simp]:
  "sl_queue (request r s) = sl_queue s" "sl_queue (afterCreateSort i s) = sl_queue s" "sl_queue (afterCreateLayout l s) = sl_queue s"
  "sl_queue (afterDelete i s) = sl_queue s" "sl_queue (setActiveList ls i s) = sl_queue s" "sl_queue (createRemoteListFromLocal i n s) = sl_queue s"
  by (simp_all add: request_def afterCreateSort_def afterCreateLayout_def afterDelete_def setActiveList_def createRemoteListFromLocal_def)

lemma runContinuation_inv: "queue_inv (sl_queue s) \<Longrightarrow> queue_inv (sl_queue (runContinuation c s))"
  by (cases c) (simp_all add: runContinuation_def sanitizeSync_inv)

lemma resume_inv: "queue_inv (sl_queue s) \<Longrightarrow> queue_inv (sl_queue (resume a ok s))"
proof -
  have "queue_inv (sl_queue s') \<Longrightarrow> queue_inv (sl_queue (fold runContinuation cs s'))" for cs s'
    by (induction cs arbitrary: s') (simp_all add: runContinuation_inv)
  then show "queue_inv (sl_queue s) \<Longrightarrow> ?thesis" by (simp add: resume_def Let_def)
qed

lemma afterCreated_inv: "queue_inv (sl_queue s) \<Longrightarrow> queue_inv (sl_queue (afterCreated i v s))"
proof -
  have "sl_queue (fst (replaceLocalListWithRemote i v s)) = sl_queue s"
    by (simp add: replaceLocalListWithRemote_def Let_def split: option.splits)
  then show "queue_inv (sl_queue s) \<Longrightarrow> ?thesis"
    by (cases "replaceLocalListWithRemote i v s") (auto simp: afterCreated_def replaceRemote_inv split: option.splits)
qed

lemma syncSanitized_inv: "queue_inv (sl_queue s) \<Longrightarrow> queue_inv (sl_queue (syncSanitizedRemoteLayouts p n s))"
  by (simp add: syncSanitizedRemoteLayouts_def runRemoteSync_def sanitizeSync_inv)

lemma wlStep_queue_inv:
  assumes "queue_inv (sl_queue s)"
  shows "queue_inv (sl_queue (wlStep e s))"
proof (cases e)
  case (LoadRemote a b c d v)
  then show ?thesis using assms by (cases v) (simp_all add: applyRemoteWatchlists_def Let_def syncSanitized_inv)
next
  case (RequestSettles a ok)
  then show ?thesis using assms by (cases a) (simp_all add: resume_inv)
qed (use assms in \<open>simp_all add: setWatchlistSymbols_def setActiveWatchlist_def hydrateWatchlist_def sanitizeWatchlistsForCatalog_def
    addWatchlistSymbol_def removeWatchlistSymbol_def renameWatchlist_def setWatchlistShared_def copyWatchlist_def createWatchlist_def
    addListAndCreate_def removeWatchlist_def clearWatchlist_def addWatchlistSection_def renameWatchlistSection_def removeWatchlistSection_def
    moveWatchlistSymbol_def moveWatchlistSection_def setWatchlistSort_def runRemoteSync_def Let_def push_inv syncSanitized_inv
    afterCreated_inv start_inv settle_inv release_inv resume_inv\<close>)

lemma wl_reach_queue_inv: "wl_reach s \<Longrightarrow> queue_inv (sl_queue s)"
proof (induction rule: wl_reach.induct)
  case (reach_new session)
  then show ?case by (simp add: newStore_def queue_inv_def chained_def done_before_def latest_stored_def)
qed (rule wlStep_queue_inv)

text \<open>
  C14.  Watchlists stay well formed and their layout writes do not overlap.  In every run there is a list, the ids of the lists are
  distinct, each list has distinct symbols and distinct headers at positions of the list; no two writes of one list are
  in flight together, a write starts only after all earlier writes of its list have settled, and the backend holds the
  layout of the last write of a list that succeeded.
\<close>

theorem watchlist_store_invariant:
  assumes "wl_reach s"
  shows "sl_lists s \<noteq> [] \<and> distinct (map wl_id (sl_lists s)) \<and> list_all wl_ok (sl_lists s)
    \<and> (\<forall>n < tasks (sl_queue s). wt_phase (task (sl_queue s) n) \<noteq> Queued \<longrightarrow>
        (\<forall>m < n. wt_list (task (sl_queue s) m) = wt_list (task (sl_queue s) n) \<longrightarrow> isSettled (task (sl_queue s) m)))
    \<and> (\<forall>n. latest_stored (sl_queue s) n \<longrightarrow> wq_backend (sl_queue s) (wt_list (task (sl_queue s) n)) = Some (wt_payload (task (sl_queue s) n)))"
  using wl_reach_ok [OF assms] wl_reach_queue_inv [OF assms] by (simp add: store_ok_def queue_inv_def done_before_def)

theorem watchlist_store_invariant_witness:
  "list_all wl_ok (sl_lists (wlStep (NewList ''wl_1'' None) (newStore True)))"
proof -
  have "wl_reach (wlStep (NewList ''wl_1'' None) (newStore True))"
    by (rule reach_step [OF reach_new]) (simp add: newStore_def DEFAULT_LIST_def isServerWatchlistId_def)
  from watchlist_store_invariant [OF this] show ?thesis by blast
qed

subsection \<open>The backend ends with the layout shown\<close>

definition layoutOf :: "watchlist \<Rightarrow> string list \<times> (string \<times> nat) list" where
  "layoutOf l = (wl_symbols l, map (\<lambda>s. (ws_title s, ws_index s)) (wl_sections l))"

definition payloadLayout :: "layout_payload \<Rightarrow> string list \<times> (string \<times> nat) list" where
  "payloadLayout p = (lp_symbols p, lp_sections p)"

text \<open>The last write of the list carries its layout, or nothing was written and the backend has it.\<close>

definition in_sync :: "write_queue \<Rightarrow> watchlist \<Rightarrow> bool" where
  "in_sync q l \<longleftrightarrow>
     (\<exists>n. last_of q (tasks q) n (wl_id l) \<and> payloadLayout (wt_payload (task q n)) = layoutOf l)
     \<or> ((\<forall>m < tasks q. wt_list (task q m) \<noteq> wl_id l) \<and> map_option payloadLayout (wq_backend q (wl_id l)) = Some (layoutOf l))"

definition no_sanitizing :: "wl_store \<Rightarrow> bool" where
  "no_sanitizing s \<longleftrightarrow> list_all (\<lambda>w. case snd w of SanitizeRest _ _ \<Rightarrow> False | _ \<Rightarrow> True) (sl_waiting s)"

definition sync_inv :: "wl_store \<Rightarrow> bool" where
  "sync_inv s \<longleftrightarrow> store_ok s \<and> sl_session s \<and> no_sanitizing s
     \<and> (\<forall>l \<in> set (sl_lists s). isServerWatchlistId (wl_id l) \<longrightarrow> in_sync (sl_queue s) l)"

text \<open>Events other than loading from the backend and sanitising against a new catalogue.\<close>

fun user_event :: "wl_event \<Rightarrow> bool" where
  "user_event (LoadRemote _ _ _ _ _) = False"
| "user_event (SanitizeCatalog _ _) = False"
| "user_event _ = True"

inductive wl_run :: "wl_store \<Rightarrow> wl_store \<Rightarrow> bool" for s0 where
  run_start: "wl_run s0 s0"
| run_step: "wl_run s0 s \<Longrightarrow> granted e s \<Longrightarrow> user_event e \<Longrightarrow> wl_run s0 (wlStep e s)"

lemma payload_layoutOf [simp]: "payloadLayout (createRemoteWatchlistLayoutPayload l) = layoutOf l"
  by (simp add: payloadLayout_def createRemoteWatchlistLayoutPayload_def layoutOf_def)

lemma in_sync_fields: "wl_id l' = wl_id l \<Longrightarrow> layoutOf l' = layoutOf l \<Longrightarrow> in_sync q l' = in_sync q l"
  by (simp add: in_sync_def)

lemma enqueue_tasks:
  "tasks (enqueueWrite i pl q) = tasks q + 1" "n < tasks q \<Longrightarrow> task (enqueueWrite i pl q) n = task q n"
  "wt_list (task (enqueueWrite i pl q) (tasks q)) = i" "wt_payload (task (enqueueWrite i pl q) (tasks q)) = pl"
  "wq_backend (enqueueWrite i pl q) = wq_backend q"
  by (simp_all add: enqueueWrite_def nth_append)

lemma in_sync_enqueue_same: "wl_id l = i \<Longrightarrow> payloadLayout pl = layoutOf l \<Longrightarrow> in_sync (enqueueWrite i pl q) l"
  unfolding in_sync_def by (intro disjI1 exI [of _ "tasks q"]) (auto simp: last_of_def enqueue_tasks)

lemma in_sync_enqueue_other:
  assumes "wl_id l \<noteq> i" "in_sync q l"
  shows "in_sync (enqueueWrite i pl q) l"
  using assms(2) unfolding in_sync_def
proof (elim disjE exE conjE)
  fix n assume n: "last_of q (tasks q) n (wl_id l)" "payloadLayout (wt_payload (task q n)) = layoutOf l"
  then have "last_of (enqueueWrite i pl q) (tasks (enqueueWrite i pl q)) n (wl_id l) \<and> payloadLayout (wt_payload (task (enqueueWrite i pl q) n)) = layoutOf l"
    using assms(1) by (auto simp: last_of_def enqueue_tasks less_Suc_eq)
  then show "(\<exists>n. last_of (enqueueWrite i pl q) (tasks (enqueueWrite i pl q)) n (wl_id l)
      \<and> payloadLayout (wt_payload (task (enqueueWrite i pl q) n)) = layoutOf l)
    \<or> ((\<forall>m < tasks (enqueueWrite i pl q). wt_list (task (enqueueWrite i pl q) m) \<noteq> wl_id l)
      \<and> map_option payloadLayout (wq_backend (enqueueWrite i pl q) (wl_id l)) = Some (layoutOf l))" by blast
next
  assume "\<forall>m < tasks q. wt_list (task q m) \<noteq> wl_id l" "map_option payloadLayout (wq_backend q (wl_id l)) = Some (layoutOf l)"
  then have "(\<forall>m < tasks (enqueueWrite i pl q). wt_list (task (enqueueWrite i pl q) m) \<noteq> wl_id l)
      \<and> map_option payloadLayout (wq_backend (enqueueWrite i pl q) (wl_id l)) = Some (layoutOf l)"
    using assms(1) by (auto simp: enqueue_tasks less_Suc_eq)
  then show "(\<exists>n. last_of (enqueueWrite i pl q) (tasks (enqueueWrite i pl q)) n (wl_id l)
      \<and> payloadLayout (wt_payload (task (enqueueWrite i pl q) n)) = layoutOf l)
    \<or> ((\<forall>m < tasks (enqueueWrite i pl q). wt_list (task (enqueueWrite i pl q) m) \<noteq> wl_id l)
      \<and> map_option payloadLayout (wq_backend (enqueueWrite i pl q) (wl_id l)) = Some (layoutOf l))" by blast
qed

lemma in_sync_setPhase: "in_sync (setPhase n ph q) l = in_sync q l"
  by (simp add: in_sync_def)

lemma in_sync_queue:
  "in_sync (startWrite n q) l = in_sync q l" "in_sync (release n q) l = in_sync q l" "in_sync q l \<Longrightarrow> in_sync (settleWrite n ok q) l"
proof -
  show "in_sync (startWrite n q) l = in_sync q l" by (simp add: startWrite_def in_sync_setPhase)
  show "in_sync (release n q) l = in_sync q l" by (simp add: release_def in_sync_def last_of_def)
  assume a: "in_sync q l"
  have "in_sync (q'\<lparr>wq_backend := (wq_backend q')(wt_list (task q' n) \<mapsto> p)\<rparr>) l" if "in_sync q' l" "n < tasks q'" for q' p
    using that by (auto simp: in_sync_def last_of_def)
  from this [of "setPhase n (Settled ok) q"] show "in_sync (settleWrite n ok q) l"
    using a by (cases ok) (simp_all add: settleWrite_def Let_def in_sync_setPhase)
qed

lemma active_updated:
  assumes "sl_lists s \<noteq> []" "\<And>l. wl_id (f l) = wl_id l"
  shows "activeList (updated s f) (sl_activeId s) = f (active s)"
proof -
  let ?g = "\<lambda>l. if wl_id l = wl_id (active s) then f l else l"
  have "find (\<lambda>l. wl_id l = i) (map ?g xs) = map_option ?g (find (\<lambda>l. wl_id l = i) xs)" for i xs
    using assms(2) by (induction xs) auto
  note found = this [of "sl_activeId s" "sl_lists s"]
  obtain l0 rest where ls: "sl_lists s = l0 # rest" using assms(1) by (cases "sl_lists s") auto
  have upd: "updated s f = map ?g (sl_lists s)" by (simp add: updateActive_def Let_def)
  have "activeList (map ?g (sl_lists s)) (sl_activeId s) = ?g (active s)"
  proof (cases "find (\<lambda>l. wl_id l = sl_activeId s) (sl_lists s)")
    case None
    then have act: "active s = l0" by (simp add: activeList_def ls)
    have "find (\<lambda>l. wl_id l = sl_activeId s) (map ?g (sl_lists s)) = None" unfolding found None by simp
    then have "activeList (map ?g (sl_lists s)) (sl_activeId s) = hd (map ?g (sl_lists s))" unfolding activeList_def [of "map _ _"] by (simp add: ls)
    then show ?thesis using act by (simp add: ls)
  next
    case (Some x)
    then have act: "active s = x" by (simp add: activeList_def)
    have "find (\<lambda>l. wl_id l = sl_activeId s) (map ?g (sl_lists s)) = Some (?g x)" unfolding found Some by simp
    then show ?thesis unfolding activeList_def [of "map _ _"] act by simp
  qed
  then show ?thesis unfolding upd by simp
qed

lemma updated_cases:
  assumes "store_ok s" "l \<in> set (updated s f)"
  shows "l = f (active s) \<or> (l \<in> set (sl_lists s) \<and> wl_id l \<noteq> wl_id (active s))"
proof -
  have "l' = active s" if "l' \<in> set (sl_lists s)" "wl_id l' = wl_id (active s)" for l'
    using assms(1) that activeList_mem [of "sl_lists s" "sl_activeId s"] by (auto simp: store_ok_def distinct_map dest: inj_onD)
  then show ?thesis using assms(2) by (auto simp: updateActive_def Let_def)
qed

text \<open>An edit of the active list that is written, and one that does not touch its layout.\<close>

lemma edit_sync:
  assumes inv: "sync_inv s" and id_f: "\<And>l. wl_id (f l) = wl_id l"
    and s1: "sl_activeId s1 = sl_activeId s" "sl_session s1 = sl_session s" "sl_queue s1 = sl_queue s" "sl_waiting s1 = sl_waiting s"
    and ok: "store_ok (setListsAndPush (updated s f) s1)"
  shows "sync_inv (setListsAndPush (updated s f) s1)"
proof -
  let ?a = "f (active s)" and ?s = "setListsAndPush (updated s f) s1"
  have ok0: "store_ok s" "sl_session s" using inv by (simp_all add: sync_inv_def)
  have a: "activeList (updated s f) (sl_activeId s) = ?a" using active_updated [of s f] ok0(1) id_f by (simp add: store_ok_def)
  have q: "sl_queue ?s = (if isServerWatchlistId (wl_id ?a) then enqueueWrite (wl_id ?a) (createRemoteWatchlistLayoutPayload ?a) (sl_queue s) else sl_queue s)"
    using ok0(2) s1 by (simp add: setListsAndPush_def runRemoteSync_def a replaceRemoteLayoutFromLocal_def)
  have "in_sync (sl_queue ?s) l" if l: "l \<in> set (updated s f)" "isServerWatchlistId (wl_id l)" for l
  proof (cases "l = ?a")
    case False
    then have "l \<in> set (sl_lists s)" "wl_id l \<noteq> wl_id ?a" using updated_cases [OF ok0(1) l(1)] id_f by auto
    then show ?thesis using inv l(2) by (simp add: q sync_inv_def in_sync_enqueue_other)
  qed (use l(2) in \<open>simp add: q in_sync_enqueue_same\<close>)
  moreover have "sl_session ?s" "sl_waiting ?s = sl_waiting s"
    using s1 ok0(2) by (simp_all add: setListsAndPush_def runRemoteSync_def)
  ultimately show ?thesis using ok inv by (simp add: sync_inv_def no_sanitizing_def)
qed

lemma meta_sync:
  assumes inv: "sync_inv s" and f: "\<And>l. wl_id (f l) = wl_id l \<and> layoutOf (f l) = layoutOf l"
    and s': "sl_lists s' = updated s f" "sl_session s' = sl_session s" "sl_queue s' = sl_queue s" "no_sanitizing s'" "store_ok s'"
  shows "sync_inv s'"
proof -
  have "in_sync (sl_queue s) l" if l: "l \<in> set (updated s f)" "isServerWatchlistId (wl_id l)" for l
  proof (cases "l = f (active s)")
    case True
    have "active s \<in> set (sl_lists s)" using inv by (simp add: sync_inv_def store_ok_def activeList_mem)
    then show ?thesis using inv True f l(2) in_sync_fields [of l "active s"] by (auto simp: sync_inv_def)
  next
    case False
    then show ?thesis using updated_cases [OF _ l(1)] inv l(2) by (auto simp: sync_inv_def)
  qed
  then show ?thesis using inv s' by (simp add: sync_inv_def)
qed

lemma sublist_sync:
  assumes "sync_inv s" "\<And>l. l \<in> set (sl_lists s') \<Longrightarrow> isServerWatchlistId (wl_id l) \<Longrightarrow> l \<in> set (sl_lists s)"
    "sl_session s' = sl_session s" "sl_queue s' = sl_queue s" "no_sanitizing s'" "store_ok s'"
  shows "sync_inv s'"
  using assms by (simp add: sync_inv_def)

lemma continuations_kept:
  assumes "list_all (\<lambda>c. case c of SanitizeRest _ _ \<Rightarrow> False | _ \<Rightarrow> True) cs" "no_sanitizing s"
  shows "sl_queue (fold runContinuation cs s) = sl_queue s \<and> sl_session (fold runContinuation cs s) = sl_session s
    \<and> no_sanitizing (fold runContinuation cs s)"
  using assms
proof (induction cs arbitrary: s)
  case (Cons c cs)
  have "sl_queue (runContinuation c s) = sl_queue s \<and> sl_session (runContinuation c s) = sl_session s \<and> no_sanitizing (runContinuation c s)"
    using Cons.prems
    by (cases c) (auto simp: runContinuation_def afterCreateLayout_def afterCreateSort_def afterDelete_def request_def no_sanitizing_def)
  then show ?case using Cons.IH [of "runContinuation c s"] Cons.prems(1) by simp
qed simp

lemma resume_sync:
  assumes "no_sanitizing s"
  shows "sl_queue (resume a ok s) = sl_queue s \<and> sl_session (resume a ok s) = sl_session s \<and> no_sanitizing (resume a ok s)"
  using assms continuations_kept [of "map snd (filter (\<lambda>w. fst w = a) (sl_waiting s))" "s\<lparr>sl_waiting := filter (\<lambda>w. fst w \<noteq> a) (sl_waiting s)\<rparr>"]
  by (auto simp: resume_def Let_def no_sanitizing_def list_all_iff)

lemma edits_id [simp]:
  "wl_id (removeSymbolFromList l t) = wl_id l" "wl_id (renameSectionInList l i t) = wl_id l" "wl_id (removeSectionFromList l i) = wl_id l"
  "wl_id (movedSymbol p l) = wl_id l"
  by (simp_all add: removeSymbolFromList_def renameSectionInList_def removeSectionFromList_def movedSymbol_def Let_def
      moveDisplayedSymbolRelativeInList_def)

lemma created_sync:
  assumes inv: "sync_inv s" and g: "granted (RemoteCreated i v) s"
  shows "sync_inv (afterCreated i v s)"
proof (cases "find (\<lambda>l. wl_id l = i) (sl_lists s)")
  case (Some l)
  obtain r where r: "field v ''id'' = JStr r" "r \<notin> wl_id ` set (sl_lists s)" "isServerWatchlistId r" using g by (auto split: json.splits)
  obtain nl s' where shape: "replaceLocalListWithRemote i v s = (s', Some nl)" and nl: "wl_id nl = r" "wl_symbols nl = wl_symbols l"
      "wl_sections nl = wl_sections l" and s': "sl_lists s' = map (\<lambda>x. if wl_id x = i then nl else x) (sl_lists s)"
      "sl_session s' = sl_session s" "sl_queue s' = sl_queue s" "sl_waiting s' = sl_waiting s"
    by (rule replaceLocal_shape [OF Some r(1)])
  let ?s = "afterCreated i v s"
  have s: "?s = (replaceRemoteLayoutFromLocal nl s')\<lparr>sl_waiting := sl_waiting s' @ [(LayoutWritten (tasks (sl_queue s')), AfterCreateLayout nl)]\<rparr>"
    using r(3) by (simp add: afterCreated_def shape nl(1))
  have q: "sl_queue ?s = enqueueWrite r (createRemoteWatchlistLayoutPayload nl) (sl_queue s)"
    using r(3) by (simp add: s replaceRemoteLayoutFromLocal_def nl(1) s'(3))
  have "in_sync (sl_queue ?s) x" if x: "x \<in> set (sl_lists ?s)" "isServerWatchlistId (wl_id x)" for x
  proof (cases "x = nl")
    case True
    then show ?thesis unfolding q by (simp add: in_sync_enqueue_same nl(1))
  next
    case False
    then have mem: "x \<in> set (sl_lists s)" using x(1) by (auto simp: s s'(1))
    then have "wl_id x \<noteq> r" using r(2) by auto
    then show ?thesis unfolding q using inv mem x(2) by (simp add: sync_inv_def in_sync_enqueue_other)
  qed
  moreover have "store_ok ?s" using afterCreated_lists [OF _ g] inv by (simp add: sync_inv_def)
  ultimately show ?thesis using inv by (simp add: sync_inv_def no_sanitizing_def s s')
qed (use inv in \<open>simp add: afterCreated_def replaceLocalListWithRemote_def\<close>)

lemmas layoutOf_simps = layoutOf_def no_sanitizing_def runRemoteSync_def request_def

lemma addList_sync:
  assumes "sync_inv s" "\<not> isServerWatchlistId (wl_id l)" "store_ok (addListAndCreate l s)"
  shows "sync_inv (addListAndCreate l s)"
  using assms by (intro sublist_sync [OF assms(1)]) (auto simp: addListAndCreate_def createRemoteListFromLocal_def layoutOf_simps sync_inv_def)

lemma wlStep_sync:
  assumes inv: "sync_inv s" and g: "granted e s" and u: "user_event e"
  shows "sync_inv (wlStep e s)"
proof -
  have ok: "store_ok (wlStep e s)" using wlStep_ok [OF _ g] inv by (simp add: sync_inv_def)
  note edit = edit_sync [OF inv _ refl refl refl refl]
  note ns = inv [unfolded sync_inv_def, THEN conjunct2, THEN conjunct2, THEN conjunct1]
  show ?thesis
  proof (cases e)
    case (SetSymbols us)
    show ?thesis using ok unfolding SetSymbols wlStep.simps setWatchlistSymbols_def Let_def by (intro edit) simp_all
  next
    case (AddSymbol k t)
    show ?thesis using ok inv unfolding AddSymbol wlStep.simps addWatchlistSymbol_def Let_def by (auto intro!: edit split: if_splits)
  next
    case (RemoveSymbol t)
    show ?thesis using ok inv unfolding RemoveSymbol wlStep.simps removeWatchlistSymbol_def Let_def by (auto intro!: edit split: if_splits)
  next
    case ClearList
    show ?thesis using ok unfolding ClearList wlStep.simps clearWatchlist_def by (intro edit) simp_all
  next
    case (AddSection i t n)
    show ?thesis using ok inv unfolding AddSection wlStep.simps addWatchlistSection_def Let_def by (auto intro!: edit split: if_splits)
  next
    case (RenameSection i t)
    show ?thesis using ok unfolding RenameSection wlStep.simps renameWatchlistSection_def by (intro edit) simp_all
  next
    case (RemoveSection i)
    show ?thesis using ok unfolding RemoveSection wlStep.simps removeWatchlistSection_def by (intro edit) simp_all
  next
    case (MoveSymbol p)
    show ?thesis using ok unfolding MoveSymbol wlStep.simps moveWatchlistSymbol_def setManualAndPush_def by (intro edit_sync [OF inv]) simp_all
  next
    case (MoveSection i t d)
    show ?thesis using ok unfolding MoveSection wlStep.simps moveWatchlistSection_def setManualAndPush_def by (intro edit_sync [OF inv]) simp_all
  next
    case (SortBy k)
    show ?thesis using ok ns unfolding SortBy wlStep.simps setWatchlistSort_def Let_def
      by (intro meta_sync [OF inv, where f = "\<lambda>l. l\<lparr>wl_sortKey := k, wl_sortDir := _\<rparr>"]) (simp_all add: layoutOf_simps)
  next
    case (RenameList n)
    show ?thesis
    proof (cases "take 40 (js_trim n) = []")
      case False
      then show ?thesis using ok ns unfolding RenameList wlStep.simps renameWatchlist_def Let_def
        by (intro meta_sync [OF inv, where f = "\<lambda>l. l\<lparr>wl_name := take 40 (js_trim n)\<rparr>"]) (simp_all add: layoutOf_simps)
    qed (use inv in \<open>simp add: RenameList renameWatchlist_def\<close>)
  next
    case (ShareList b)
    show ?thesis using ok ns unfolding ShareList wlStep.simps setWatchlistShared_def Let_def
      by (intro meta_sync [OF inv, where f = "\<lambda>l. l\<lparr>wl_shared := _\<rparr>"]) (simp_all add: layoutOf_simps)
  next
    case (ActivateList i)
    show ?thesis using ok ns unfolding ActivateList wlStep.simps setActiveWatchlist_def Let_def
      by (intro sublist_sync [OF inv]) (simp_all add: layoutOf_simps setActiveList_def split: if_splits)
  next
    case Hydrate
    show ?thesis using ok ns unfolding Hydrate wlStep.simps hydrateWatchlist_def
      by (intro sublist_sync [OF inv]) (simp_all add: layoutOf_simps DEFAULT_LIST_def isServerWatchlistId_def)
  next
    case (CopyList i "is")
    show ?thesis using ok g unfolding CopyList wlStep.simps copyWatchlist_def by (intro addList_sync [OF inv]) simp_all
  next
    case (NewList i n)
    show ?thesis using ok g unfolding NewList wlStep.simps createWatchlist_def by (intro addList_sync [OF inv]) simp_all
  next
    case (RemoveList i)
    show ?thesis
    proof (cases "length (sl_lists s) \<le> 1 \<or> \<not> list_ex (\<lambda>l. wl_id l = i) (sl_lists s)")
      case False
      then show ?thesis using ok ns unfolding RemoveList wlStep.simps removeWatchlist_def Let_def
        by (intro sublist_sync [OF inv]) (simp_all add: layoutOf_simps setActiveList_def split: if_splits)
    qed (use inv in \<open>simp add: RemoveList removeWatchlist_def\<close>)
  next
    case (RemoteCreated i v)
    then show ?thesis using created_sync [OF inv] g by simp
  next
    case (WriteStarts n)
    then show ?thesis using inv by (simp add: sync_inv_def store_ok_def no_sanitizing_def in_sync_queue)
  next
    case (WriteReleased n)
    then show ?thesis using inv by (simp add: sync_inv_def store_ok_def no_sanitizing_def in_sync_queue)
  next
    case (WriteSettles n b)
    have "no_sanitizing (s\<lparr>sl_queue := settleWrite n b (sl_queue s)\<rparr>)" using ns by (simp add: no_sanitizing_def)
    from resume_sync [OF this, of "LayoutWritten n" b] show ?thesis using inv ok in_sync_queue(3) by (auto simp: WriteSettles sync_inv_def)
  next
    case (RequestSettles a b)
    then show ?thesis using inv ok resume_sync [OF ns] by (cases a) (auto simp: sync_inv_def)
  qed (use u in simp_all)
qed

lemma wl_run_sync: "wl_run s0 s \<Longrightarrow> sync_inv s0 \<Longrightarrow> sync_inv s"
  by (induction rule: wl_run.induct) (simp_all add: wlStep_sync)

lemma wl_run_queue: "wl_run s0 s \<Longrightarrow> queue_inv (sl_queue s0) \<Longrightarrow> queue_inv (sl_queue s)"
  by (induction rule: wl_run.induct) (simp_all add: wlStep_queue_inv)

text \<open>
  C7.  The backend ends with the layout shown.  Start from lists that agree with the backend, nothing queued, and let the user
  edit, add, copy, create and remove lists in any order, with writes starting, succeeding and failing in any order:
  whenever all writes of a list the backend knows have settled and the last one succeeded, the backend holds the symbols and
  sections of that list as they are shown.
\<close>

theorem backend_has_shown_layout:
  assumes "wl_run s0 s" "store_ok s0" "sl_session s0" "sl_waiting s0 = []" "wq_tasks (sl_queue s0) = []" "wq_pending (sl_queue s0) = []"
    and start: "list_all (\<lambda>l. isServerWatchlistId (wl_id l) \<longrightarrow> map_option payloadLayout (wq_backend (sl_queue s0) (wl_id l)) = Some (layoutOf l)) (sl_lists s0)"
    and l: "l \<in> set (sl_lists s)" "isServerWatchlistId (wl_id l)"
    and settled: "\<And>n. n < tasks (sl_queue s) \<Longrightarrow> wt_list (task (sl_queue s) n) = wl_id l \<Longrightarrow>
      (\<And>m. n < m \<Longrightarrow> m < tasks (sl_queue s) \<Longrightarrow> wt_list (task (sl_queue s) m) \<noteq> wl_id l) \<Longrightarrow> wt_phase (task (sl_queue s) n) = Settled True"
  shows "map_option payloadLayout (wq_backend (sl_queue s) (wl_id l)) = Some (layoutOf l)"
proof -
  have "sync_inv s0" using assms(2-5) start by (simp add: sync_inv_def no_sanitizing_def in_sync_def list_all_iff)
  then have "in_sync (sl_queue s) l" using wl_run_sync [OF assms(1)] l by (simp add: sync_inv_def)
  moreover have inv: "queue_inv (sl_queue s)"
    using wl_run_queue [OF assms(1)] assms(5,6) by (simp add: queue_inv_def chained_def done_before_def latest_stored_def)
  moreover have "latest_stored (sl_queue s) n" if "last_of (sl_queue s) (tasks (sl_queue s)) n (wl_id l)" for n
    using that settled [of n] by (auto simp: last_of_def latest_stored_def)
  ultimately have "wq_backend (sl_queue s) (wl_id l) = Some (wt_payload (task (sl_queue s) n))"
    if "last_of (sl_queue s) (tasks (sl_queue s)) n (wl_id l)" for n
    using that by (force simp: queue_inv_def last_of_def)
  then show ?thesis using \<open>in_sync (sl_queue s) l\<close> by (auto simp: in_sync_def)
qed

theorem backend_has_shown_layout_witness:
  "map_option payloadLayout (wq_backend (sl_queue (wlStep (WriteSettles 0 True) (wlStep (WriteStarts 0) (wlStep ClearList
     ((newStore True)\<lparr>sl_lists := [DEFAULT_LIST\<lparr>wl_id := ''7'', wl_symbols := [''EURUSD'']\<rparr>],
       sl_queue := \<lparr>wq_tasks = [], wq_pending = [], wq_backend = [''7'' \<mapsto> \<lparr>lp_symbols = [''EURUSD''], lp_sections = [],
         lp_sortKey = BySymbol, lp_sortDir = Asc\<rparr>]\<rparr>\<rparr>))))) ''7'') = Some ([], [])"
proof -
  let ?s0 = "(newStore True)\<lparr>sl_lists := [DEFAULT_LIST\<lparr>wl_id := ''7'', wl_symbols := [''EURUSD'']\<rparr>],
       sl_queue := \<lparr>wq_tasks = [], wq_pending = [], wq_backend = [''7'' \<mapsto> \<lparr>lp_symbols = [''EURUSD''], lp_sections = [],
         lp_sortKey = BySymbol, lp_sortDir = Asc\<rparr>]\<rparr>\<rparr>"
  let ?s1 = "wlStep ClearList ?s0"
  let ?s2 = "wlStep (WriteStarts 0) ?s1"
  let ?s3 = "wlStep (WriteSettles 0 True) ?s2"
  let ?l = "DEFAULT_LIST\<lparr>wl_id := ''7'', wl_symbols := []\<rparr>"
  have r1: "wl_run ?s0 ?s1" by (rule run_step [OF run_start]) simp_all
  have r2: "wl_run ?s0 ?s2" by (rule run_step [OF r1]) simp_all
  have r3: "wl_run ?s0 ?s3" by (rule run_step [OF r2]) simp_all
  have q1: "wq_tasks (sl_queue ?s1) = [\<lparr>wt_list = ''7'', wt_after = None, wt_payload = createRemoteWatchlistLayoutPayload ?l, wt_phase = Queued\<rparr>]"
    and l1: "sl_lists ?s1 = [?l]" "sl_waiting ?s1 = []"
    by (simp_all add: clearWatchlist_def newStore_def setListsAndPush_def runRemoteSync_def replaceRemoteLayoutFromLocal_def updateActive_def
        activeList_def enqueueWrite_def isServerWatchlistId_def DEFAULT_LIST_def)
  have q2: "wq_tasks (sl_queue ?s2) = [\<lparr>wt_list = ''7'', wt_after = None, wt_payload = createRemoteWatchlistLayoutPayload ?l, wt_phase = Writing\<rparr>]"
    and l2: "sl_lists ?s2 = [?l]" "sl_waiting ?s2 = []"
    using q1 l1 by (simp_all add: startWrite_def setPhase_def)
  have q3: "wq_tasks (sl_queue ?s3) = [\<lparr>wt_list = ''7'', wt_after = None, wt_payload = createRemoteWatchlistLayoutPayload ?l, wt_phase = Settled True\<rparr>]"
    and l3: "sl_lists ?s3 = [?l]"
    using q2 l2 by (simp_all add: settleWrite_def setPhase_def resume_def Let_def)
  have "map_option payloadLayout (wq_backend (sl_queue ?s3) (wl_id ?l)) = Some (layoutOf ?l)"
    by (rule backend_has_shown_layout [OF r3])
      (simp_all only: l3 q3, simp_all add: store_ok_def newStore_def wl_ok_def DEFAULT_LIST_def isServerWatchlistId_def payloadLayout_def layoutOf_def)
  then show ?thesis by (simp add: layoutOf_def DEFAULT_LIST_def)
qed

subsection \<open>Where the sanitising loop breaks this\<close>

text \<open>The lists of the loop that \<open>syncSanitizedRemoteLayouts\<close> does not skip.\<close>

definition writes_layout :: "watchlist list \<Rightarrow> watchlist \<Rightarrow> bool" where
  "writes_layout previous l \<longleftrightarrow> isServerWatchlistId (wl_id l)
     \<and> (case find (\<lambda>p. wl_id p = wl_id l) previous of Some before \<Rightarrow> listLayoutChanged before l | None \<Rightarrow> True)"

lemma sanitizeSync_skip: "list_all (\<lambda>k. \<not> writes_layout previous k) ks \<Longrightarrow> sanitizeSync previous (ks @ ls) s = sanitizeSync previous ls s"
  by (induction ks) (auto simp: writes_layout_def split: option.splits)

lemma sanitizeSync_write:
  assumes "writes_layout previous b"
  shows "sanitizeSync previous (b # rest) s = s\<lparr>sl_queue := enqueueWrite (wl_id b) (createRemoteWatchlistLayoutPayload b) (sl_queue s),
    sl_waiting := sl_waiting s @ [(LayoutWritten (tasks (sl_queue s)), SanitizeRest previous rest)]\<rparr>"
  using assms by (auto simp: writes_layout_def replaceRemoteLayoutFromLocal_def split: option.splits)

lemma backend_sanitizeSync [simp]: "wq_backend (sl_queue (sanitizeSync previous ls s)) = wq_backend (sl_queue s)"
  by (induction previous ls s rule: sanitizeSync.induct)
    (simp_all add: replaceRemoteLayoutFromLocal_def enqueueWrite_def split: option.splits)

lemma backend_resume [simp]: "wq_backend (sl_queue (resume a ok s)) = wq_backend (sl_queue s)"
proof -
  have "wq_backend (sl_queue (fold runContinuation cs s')) = wq_backend (sl_queue s')" for cs s'
    by (induction cs arbitrary: s') (simp_all add: runContinuation_def split: continuation.splits)
  then show ?thesis by (simp add: resume_def Let_def)
qed

lemma settleWrite_tasks [simp]: "tasks (settleWrite n ok q) = tasks q"
  by (simp add: settleWrite_def Let_def)

text \<open>A queued write starts and succeeds once the earlier writes of its list have settled.\<close>

lemma write_goes_through:
  assumes "queue_inv (sl_queue s)" "m < tasks (sl_queue s)" "wt_phase (task (sl_queue s) m) = Queued"
    "done_before (sl_queue s) m (wt_list (task (sl_queue s) m))"
  defines "s2 \<equiv> wlStep (WriteSettles m True) (wlStep (WriteStarts m) s)"
  shows "sl_lists s2 = sl_lists s" "wq_backend (sl_queue s2) (wt_list (task (sl_queue s) m)) = Some (wt_payload (task (sl_queue s) m))"
proof -
  have "case wt_after (task (sl_queue s) m) of None \<Rightarrow> True | Some p \<Rightarrow> isSettled (task (sl_queue s) p)"
    using assms(1,2,4) by (auto simp: queue_inv_def chained_def last_of_def done_before_def split: option.split)
  then have st: "startWrite m (sl_queue s) = setPhase m Writing (sl_queue s)" using assms(2,3) by (simp add: startWrite_def)
  have "s2 = resume (LayoutWritten m) True (s\<lparr>sl_queue := settleWrite m True (setPhase m Writing (sl_queue s))\<rparr>)"
    using assms(2) by (simp add: s2_def st)
  then show "sl_lists s2 = sl_lists s" "wq_backend (sl_queue s2) (wt_list (task (sl_queue s) m)) = Some (wt_payload (task (sl_queue s) m))"
    using assms(2) by (simp_all add: settleWrite_def Let_def)
qed

lemma loop_writes_snapshot:
  assumes "n < tasks (sl_queue s)" "wt_phase (task (sl_queue s) n) = Writing"
    and "filter (\<lambda>w. fst w = LayoutWritten n) (sl_waiting s) = [(LayoutWritten n, SanitizeRest previous (ks @ b # rest))]"
    and "list_all (\<lambda>k. \<not> writes_layout previous k) ks" "writes_layout previous b"
  shows "sl_queue (wlStep (WriteSettles n True) s)
    = enqueueWrite (wl_id b) (createRemoteWatchlistLayoutPayload b) (settleWrite n True (sl_queue s))"
  using assms by (simp add: resume_def Let_def runContinuation_def sanitizeSync_skip sanitizeSync_write del: sanitizeSync.simps)

text \<open>
  C36.  Sanitising writes a snapshot too late.  The loop that writes sanitised lists waits for each write and then sends the
  next list \<open>b\<close> as it was when the loop began.  Whenever the write it waits for succeeds while the list shown under the same id
  has another layout, because the user has edited it since, the loop queues the old layout behind every write
  of that list, so also behind the user's; and once the earlier writes have settled and this one has succeeded too, the
  backend holds the old layout and not the one shown.
\<close>

theorem sanitising_overwrites_edit:
  assumes "queue_inv (sl_queue s)" "n < tasks (sl_queue s)" "wt_phase (task (sl_queue s) n) = Writing"
    and "filter (\<lambda>w. fst w = LayoutWritten n) (sl_waiting s) = [(LayoutWritten n, SanitizeRest previous (ks @ b # rest))]"
    and "list_all (\<lambda>k. \<not> writes_layout previous k) ks" "writes_layout previous b"
    and "l \<in> set (sl_lists s)" "wl_id l = wl_id b" "layoutOf l \<noteq> layoutOf b"
  shows "let s1 = wlStep (WriteSettles n True) s; m = tasks (sl_queue s)
    in last_of (sl_queue s1) (tasks (sl_queue s1)) m (wl_id b) \<and> wt_payload (task (sl_queue s1) m) = createRemoteWatchlistLayoutPayload b
     \<and> (done_before (sl_queue s1) m (wl_id b) \<longrightarrow>
         (let s2 = wlStep (WriteSettles m True) (wlStep (WriteStarts m) s1)
          in l \<in> set (sl_lists s2) \<and> map_option payloadLayout (wq_backend (sl_queue s2) (wl_id l)) = Some (layoutOf b)
             \<and> map_option payloadLayout (wq_backend (sl_queue s2) (wl_id l)) \<noteq> Some (layoutOf l)))"
proof -
  define s1 where "s1 = wlStep (WriteSettles n True) s"
  define m where "m = tasks (sl_queue s)"
  have q1: "sl_queue s1 = enqueueWrite (wl_id b) (createRemoteWatchlistLayoutPayload b) (settleWrite n True (sl_queue s))"
    unfolding s1_def by (rule loop_writes_snapshot [OF assms(2-6)])
  have t: "tasks (sl_queue s1) = m + 1" "wt_list (task (sl_queue s1) m) = wl_id b" "wt_phase (task (sl_queue s1) m) = Queued"
    "wt_payload (task (sl_queue s1) m) = createRemoteWatchlistLayoutPayload b"
    by (simp_all add: q1 m_def enqueueWrite_def nth_append)
  have inv: "queue_inv (sl_queue s1)" unfolding s1_def by (rule wlStep_queue_inv [OF assms(1)])
  have ls: "sl_lists s1 = sl_lists s" using assms(2,3) by (simp add: s1_def)
  have "last_of (sl_queue s1) (tasks (sl_queue s1)) m (wl_id b)" using t(1,2) by (auto simp: last_of_def)
  moreover have "let s2 = wlStep (WriteSettles m True) (wlStep (WriteStarts m) s1)
          in l \<in> set (sl_lists s2) \<and> map_option payloadLayout (wq_backend (sl_queue s2) (wl_id l)) = Some (layoutOf b)
             \<and> map_option payloadLayout (wq_backend (sl_queue s2) (wl_id l)) \<noteq> Some (layoutOf l)" if "done_before (sl_queue s1) m (wl_id b)"
    using write_goes_through [OF inv, of m] that t assms(7-9) ls by (simp add: Let_def del: wlStep.simps)
  ultimately show ?thesis unfolding s1_def [symmetric] m_def [symmetric] Let_def using t(4) by blast
qed

definition twoLists :: wl_store where
  "twoLists = (newStore True)\<lparr>sl_lists := [DEFAULT_LIST\<lparr>wl_id := ''7'', wl_symbols := [''EURUSD'', ''OLD'']\<rparr>,
     DEFAULT_LIST\<lparr>wl_id := ''8'', wl_symbols := [''EURUSD'', ''OLD'']\<rparr>], sl_activeId := ''8''\<rparr>"

text \<open>Two lists are sanitised; the user clears the second, and that write arrives, while the first is being written.\<close>

definition clearedMeanwhile :: wl_store where
  "clearedMeanwhile = foldl (\<lambda>s e. wlStep e s) twoLists
     [SanitizeCatalog Map.empty [''EURUSD''], ClearList, WriteStarts 0, WriteStarts 1, WriteSettles 1 True]"

lemma clearedMeanwhile_queue: "queue_inv (sl_queue clearedMeanwhile)"
proof -
  have "queue_inv (sl_queue (foldl (\<lambda>s e. wlStep e s) s es))" if "queue_inv (sl_queue s)" for s es
    using that by (induction es arbitrary: s) (simp_all add: wlStep_queue_inv del: wlStep.simps)
  moreover have "queue_inv (sl_queue twoLists)"
    by (simp add: twoLists_def newStore_def queue_inv_def chained_def done_before_def latest_stored_def)
  ultimately show ?thesis unfolding clearedMeanwhile_def by blast
qed

lemma clearedMeanwhile_state:
  "(map wl_symbols (sl_lists clearedMeanwhile), map wl_id (sl_lists clearedMeanwhile), map wl_sections (sl_lists clearedMeanwhile))
     = ([[''EURUSD''], []], [''7'', ''8''], [[], []])"
  "map (\<lambda>t. (wt_list t, wt_phase t)) (wq_tasks (sl_queue clearedMeanwhile)) = [(''7'', Writing), (''8'', Settled True)]"
  by code_simp+

lemma clearedMeanwhile_waiting:
  "sl_waiting clearedMeanwhile = [(LayoutWritten 0, SanitizeRest (sl_lists twoLists)
     ([] @ DEFAULT_LIST\<lparr>wl_id := ''8'', wl_symbols := [''EURUSD'']\<rparr> # []))]"
  "writes_layout (sl_lists twoLists) (DEFAULT_LIST\<lparr>wl_id := ''8'', wl_symbols := [''EURUSD'']\<rparr>)"
  by code_simp+

theorem sanitising_overwrites_edit_witness:
  "map_option payloadLayout (wq_backend (sl_queue (wlStep (WriteSettles 2 True) (wlStep (WriteStarts 2)
     (wlStep (WriteSettles 0 True) clearedMeanwhile)))) ''8'') = Some ([''EURUSD''], [])"
proof -
  let ?s = clearedMeanwhile and ?b = "DEFAULT_LIST\<lparr>wl_id := ''8'', wl_symbols := [''EURUSD'']\<rparr>"
  have len: "tasks (sl_queue ?s) = 2" using arg_cong [OF clearedMeanwhile_state(2), of length] by simp
  have ph: "wt_phase (task (sl_queue ?s) 0) = Writing" "wt_phase (task (sl_queue ?s) 1) = Settled True"
    using arg_cong [OF clearedMeanwhile_state(2), of "\<lambda>xs. snd (xs ! 0)"] arg_cong [OF clearedMeanwhile_state(2), of "\<lambda>xs. snd (xs ! 1)"] len
    by simp_all
  obtain l where l: "l \<in> set (sl_lists ?s)" "wl_id l = ''8''" "wl_symbols l = []"
    using clearedMeanwhile_state(1) by (fastforce simp: map_eq_Cons_conv)
  have lay: "layoutOf ?b = ([''EURUSD''], [])" by (simp add: layoutOf_def DEFAULT_LIST_def)
  have before: "done_before (sl_queue (wlStep (WriteSettles 0 True) ?s)) 2 ''8''" by code_simp
  show ?thesis
    using sanitising_overwrites_edit [OF clearedMeanwhile_queue _ ph(1) _ _ clearedMeanwhile_waiting(2) l(1), of "[]" "[]"] len l(2,3) lay before
    unfolding Let_def by (simp add: clearedMeanwhile_waiting(1) layoutOf_def del: wlStep.simps)
qed

end
