(* ===== verification/IndicatorPolicy.thy ===== *)
theory IndicatorPolicy
  imports WatchlistLayout OrderRouting CandleSeries
    "HOL-Library.Word" "HOL-Library.List_Lexorder" "HOL-Library.Char_ord"
begin

unbundle bit_operations_syntax

section \<open>Keys, cutoffs and candle windows of the indicator runtime\<close>

text \<open>
  Models \<open>services/indicatorRuntimePolicy.ts\<close> and the functions of \<open>services/indicatorRuntimeCache.ts\<close> that only compute:
  Replay cutoffs and sessions, the FNV hash on 32-bit words, the scope and cache keys, the causal guard on cached results, the
  candle window sent to the runtime and the limit on object segments.  \<open>String(number)\<close> is the argument \<open>numStr\<close>, the
  locale's string comparison is \<open>cmp\<close> and \<open>Date.parse\<close> is \<open>dateParse\<close>.  The memo table of candle signatures is left out:
  it returns what the function below computes for the same array.
\<close>

subsection \<open>Definitions: the policy\<close>

record runtime_context =
  rc_symbol :: "string option"
  rc_timeframe :: "string option"
  rc_symbolType :: "string option"
  rc_mintick :: "jsnum option"
  rc_timezone :: "string option"
  rc_replaySessionId :: json
  rc_replayCutoff :: json

text \<open>A configuration: the members the runtime reads, and the whole object that is hashed.\<close>

record indicator_config =
  ic_id :: string
  ic_type :: string
  ic_requiresHistoryContext :: "bool option"
  ic_object :: json

type_synonym history_versions = "(string, nat) js_map"

definition liveHistoryKey :: "string \<Rightarrow> string \<Rightarrow> string" where
  "liveHistoryKey symbol timeframe = js_upper (js_trim symbol) @ '':'' @ timeframe"

definition liveHistoryVersion :: "history_versions \<Rightarrow> string \<Rightarrow> string \<Rightarrow> nat" where
  "liveHistoryVersion liveHistoryVersions symbol timeframe =
     (case map_get liveHistoryVersions (liveHistoryKey symbol timeframe) of Some n \<Rightarrow> n | None \<Rightarrow> 0)"

definition bumpLiveHistoryVersion :: "string \<Rightarrow> string \<Rightarrow> history_versions \<Rightarrow> nat \<times> history_versions" where
  "bumpLiveHistoryVersion symbol timeframe liveHistoryVersions =
     (let key = liveHistoryKey symbol timeframe;
          next = (case map_get liveHistoryVersions key of Some n \<Rightarrow> n | None \<Rightarrow> 0) + 1
      in (next, map_set key next liveHistoryVersions))"

definition js_isSafeInteger :: "jsnum \<Rightarrow> bool" where
  "js_isSafeInteger x = (case x of Fin q \<Rightarrow> of_int \<lfloor>q\<rfloor> = q \<and> \<bar>q\<bar> \<le> 2 ^ 53 - 1 | _ \<Rightarrow> False)"

definition normalizeReplayCutoff :: "json \<Rightarrow> jsnum option" where
  "normalizeReplayCutoff v =
     (case v of
        JNum x \<Rightarrow>
          if \<not> js_isSafeInteger x \<or> js_le x (Fin 0) \<or> js_lt (Fin 253402300799) x then None else Some x
      | _ \<Rightarrow> None)"

definition normalizeReplaySessionId :: "json \<Rightarrow> string option" where
  "normalizeReplaySessionId v =
     (case v of JStr s \<Rightarrow> (if js_trim s = [] then None else Some (js_trim s)) | _ \<Rightarrow> None)"

definition replayCutoffFromVisibleThrough :: "(string \<Rightarrow> jsnum) \<Rightarrow> json \<Rightarrow> jsnum option" where
  "replayCutoffFromVisibleThrough dateParse v =
     (case v of
        JStr s \<Rightarrow>
          if js_trim s = [] then None
          else if \<not> js_isFinite (dateParse s) then None
          else normalizeReplayCutoff (JNum (js_floor (js_div (dateParse s) (Fin 1000))))
      | _ \<Rightarrow> None)"

text \<open>
  \<open>None\<close> is \<open>undefined\<close>, what \<open>JSON.stringify\<close> returns for it: \<open>join\<close> prints it as the empty string, a template as
  its name.  The comparator reads only the keys, so the members are sorted after they are printed.
\<close>

fun stableIndicatorRuntimeJSON :: "(jsnum \<Rightarrow> string) \<Rightarrow> (string \<Rightarrow> string \<Rightarrow> jsnum) \<Rightarrow> json \<Rightarrow> string option"
  and stableArray :: "(jsnum \<Rightarrow> string) \<Rightarrow> (string \<Rightarrow> string \<Rightarrow> jsnum) \<Rightarrow> json list \<Rightarrow> string list"
  and stableMembers :: "(jsnum \<Rightarrow> string) \<Rightarrow> (string \<Rightarrow> string \<Rightarrow> jsnum) \<Rightarrow> (string \<times> json) list \<Rightarrow> (string \<times> string) list" where
  "stableIndicatorRuntimeJSON numStr cmp (JArr vs) = Some (''['' @ commaJoin (stableArray numStr cmp vs) @ '']'')"
| "stableIndicatorRuntimeJSON numStr cmp (JObj kvs) =
     Some (''{'' @ commaJoin (map (\<lambda>(k, t). jsonString k @ '':'' @ t)
        (js_sort (\<lambda>a b. cmp (fst a) (fst b)) (stableMembers numStr cmp kvs))) @ ''}'')"
| "stableIndicatorRuntimeJSON numStr cmp v = stringify numStr v"
| "stableArray numStr cmp [] = []"
| "stableArray numStr cmp (v # vs) =
     (case stableIndicatorRuntimeJSON numStr cmp v of Some t \<Rightarrow> t | None \<Rightarrow> []) # stableArray numStr cmp vs"
| "stableMembers numStr cmp [] = []"
| "stableMembers numStr cmp ((k, v) # kvs) =
     (k, case stableIndicatorRuntimeJSON numStr cmp v of Some t \<Rightarrow> t | None \<Rightarrow> ''undefined'') # stableMembers numStr cmp kvs"

definition fnvStep :: "32 word \<Rightarrow> char \<Rightarrow> 32 word" where
  "fnvStep h c = (h XOR word_of_nat (of_char c)) * 16777619"

definition fnv :: "32 word \<Rightarrow> string \<Rightarrow> 32 word" where
  "fnv h s = foldl fnvStep h s"

definition digits36 :: string where
  "digits36 = ''0123456789abcdefghijklmnopqrstuvwxyz''"

definition digit36 :: "nat \<Rightarrow> char" where
  "digit36 d = digits36 ! d"

fun toString36 :: "nat \<Rightarrow> string" where
  "toString36 n = (if n < 36 then [digit36 n] else toString36 (n div 36) @ [digit36 (n mod 36)])"

declare toString36.simps [simp del]

definition indicatorRuntimeHash :: "string \<Rightarrow> string" where
  "indicatorRuntimeHash s = toString36 (unat (fnv 2166136261 s))"

definition joinWith :: "char \<Rightarrow> string list \<Rightarrow> string" where
  "joinWith sep xs = (case xs of [] \<Rightarrow> [] | y # ys \<Rightarrow> y @ concat (map (\<lambda>z. sep # z) ys))"

definition candleValues :: "market_candle \<Rightarrow> jsnum list" where
  "candleValues c = [c_time c, c_open c, c_high c, c_low c, c_close c, c_volume c]"

definition indicatorCandleSignature :: "(jsnum \<Rightarrow> string) \<Rightarrow> market_candle list \<Rightarrow> string" where
  "indicatorCandleSignature numStr candles =
     (if candles = [] then ''empty''
      else
        let contentHash = foldl (\<lambda>h candle. foldl (\<lambda>h x. fnv h (numStr x)) h (candleValues candle)) 2166136261 candles
        in joinWith (CHR '':'')
             [natDigits (length candles), numStr (c_time (hd candles)), numStr (c_time (last candles)),
              toString36 (unat contentHash)])"

definition ctxSession :: "runtime_context option \<Rightarrow> string option" where
  "ctxSession context = (case context of None \<Rightarrow> None | Some c \<Rightarrow> normalizeReplaySessionId (rc_replaySessionId c))"

definition ctxCutoff :: "runtime_context option \<Rightarrow> jsnum option" where
  "ctxCutoff context = (case context of None \<Rightarrow> None | Some c \<Rightarrow> normalizeReplayCutoff (rc_replayCutoff c))"

definition optText :: "string option \<Rightarrow> string" where
  "optText x = (case x of None \<Rightarrow> [] | Some s \<Rightarrow> s)"

definition runtimeMode :: "runtime_context option \<Rightarrow> string" where
  "runtimeMode context =
     (case ctxSession context of
        Some i \<Rightarrow> ''replay:'' @ i
      | None \<Rightarrow> if ctxCutoff context \<noteq> None then ''replay:unsessioned'' else ''live'')"

text \<open>\<open>context?.member\<close> of a member that is a string; \<open>[]\<close> also stands for a missing one, both are falsy.\<close>

definition ctxSymbol :: "runtime_context option \<Rightarrow> string" where
  "ctxSymbol context = (case context of None \<Rightarrow> [] | Some c \<Rightarrow> optText (rc_symbol c))"

definition ctxTimeframe :: "runtime_context option \<Rightarrow> string" where
  "ctxTimeframe context = (case context of None \<Rightarrow> [] | Some c \<Rightarrow> optText (rc_timeframe c))"

definition scopeParts ::
  "(jsnum \<Rightarrow> string) \<Rightarrow> (string \<Rightarrow> string \<Rightarrow> jsnum) \<Rightarrow> history_versions \<Rightarrow> indicator_config \<Rightarrow> runtime_context option \<Rightarrow> string list" where
  "scopeParts numStr cmp versions config context =
     [ic_id config, ic_type config,
      indicatorRuntimeHash (optText (stableIndicatorRuntimeJSON numStr cmp (ic_object config))),
      ctxSymbol context, ctxTimeframe context,
      (case context of None \<Rightarrow> [] | Some c \<Rightarrow> optText (rc_symbolType c)),
      (case context of None \<Rightarrow> [] | Some c \<Rightarrow> (case rc_mintick c of None \<Rightarrow> [] | Some x \<Rightarrow> numStr x)),
      (case context of None \<Rightarrow> [] | Some c \<Rightarrow> optText (rc_timezone c)),
      runtimeMode context]
     @ (if runtimeMode context = ''live'' \<and> ctxSymbol context \<noteq> [] \<and> ctxTimeframe context \<noteq> []
        then [''history:'' @ natDigits (liveHistoryVersion versions (ctxSymbol context) (ctxTimeframe context))] else [])"

definition indicatorRuntimeScopeKey ::
  "(jsnum \<Rightarrow> string) \<Rightarrow> (string \<Rightarrow> string \<Rightarrow> jsnum) \<Rightarrow> history_versions \<Rightarrow> indicator_config \<Rightarrow> runtime_context option \<Rightarrow> string" where
  "indicatorRuntimeScopeKey numStr cmp versions config context =
     joinWith (CHR ''|'') (scopeParts numStr cmp versions config context)"

record scope_snapshot =
  sn_signature :: string
  sn_scopes :: "string list"

definition resolveIndicatorRuntimeScopeSnapshot ::
  "(jsnum \<Rightarrow> string) \<Rightarrow> (string \<Rightarrow> string \<Rightarrow> jsnum) \<Rightarrow> history_versions \<Rightarrow> indicator_config list \<Rightarrow> runtime_context option
   \<Rightarrow> scope_snapshot option \<Rightarrow> scope_snapshot" where
  "resolveIndicatorRuntimeScopeSnapshot numStr cmp versions configs context previous =
     (let keys = sort (remdups (map (\<lambda>config. indicatorRuntimeScopeKey numStr cmp versions config context) configs));
          signature = optText (stringify numStr (JArr (map JStr keys)))
      in case previous of
           Some p \<Rightarrow> if sn_signature p = signature then p else \<lparr>sn_signature = signature, sn_scopes = keys\<rparr>
         | None \<Rightarrow> \<lparr>sn_signature = signature, sn_scopes = keys\<rparr>)"

definition cutoffPart :: "(jsnum \<Rightarrow> string) \<Rightarrow> runtime_context option \<Rightarrow> string" where
  "cutoffPart numStr context = ''cutoff:'' @ (case ctxCutoff context of None \<Rightarrow> [] | Some x \<Rightarrow> numStr x)"

definition indicatorRuntimeCacheKey ::
  "(jsnum \<Rightarrow> string) \<Rightarrow> (string \<Rightarrow> string \<Rightarrow> jsnum) \<Rightarrow> history_versions \<Rightarrow> indicator_config \<Rightarrow> market_candle list
   \<Rightarrow> runtime_context option \<Rightarrow> string" where
  "indicatorRuntimeCacheKey numStr cmp versions config candles context =
     joinWith (CHR ''|'')
       [indicatorRuntimeScopeKey numStr cmp versions config context, cutoffPart numStr context,
        indicatorCandleSignature numStr candles]"

text \<open>The sessions and cutoffs of the request and of the cached result, both normalised.\<close>

definition canUseLatest :: "string option \<Rightarrow> jsnum option \<Rightarrow> string option \<Rightarrow> jsnum option \<Rightarrow> bool" where
  "canUseLatest requestedSession requestedCutoff cachedSession cachedCutoff =
     (if requestedSession \<noteq> cachedSession then False
      else if requestedSession \<noteq> None \<and> (requestedCutoff = None \<or> cachedCutoff = None) then False
      else case (requestedCutoff, cachedCutoff) of
             (Some requested, Some cached) \<Rightarrow> js_le cached requested
           | _ \<Rightarrow> requestedCutoff = None \<and> cachedCutoff = None)"

definition canUseLatestIndicatorRuntimeResult :: "json \<times> json \<Rightarrow> json \<times> json \<Rightarrow> bool" where
  "canUseLatestIndicatorRuntimeResult requested cached =
     canUseLatest (normalizeReplaySessionId (fst requested)) (normalizeReplayCutoff (snd requested))
       (normalizeReplaySessionId (fst cached)) (normalizeReplayCutoff (snd cached))"

subsection \<open>Definitions: candle windows and object segments\<close>

definition MAX_RUNTIME_CANDLES :: nat where "MAX_RUNTIME_CANDLES = 5000"
definition MAX_OBJECT_SEGMENTS_PER_HANDLE :: nat where "MAX_OBJECT_SEGMENTS_PER_HANDLE = 3"

definition runtimeCandles :: "market_candle list \<Rightarrow> market_candle list" where
  "runtimeCandles candles =
     (if MAX_RUNTIME_CANDLES < length candles then drop (length candles - MAX_RUNTIME_CANDLES) candles else candles)"

definition resultEntriesForScope :: "runtime_context option \<Rightarrow> nat" where
  "resultEntriesForScope context = (if ctxSession context \<noteq> None \<or> ctxCutoff context \<noteq> None then 4 else 1)"

definition historyBarsForTimeframe :: "string \<Rightarrow> nat" where
  "historyBarsForTimeframe timeframe =
     (if timeframe \<in> {''1m'', ''3m'', ''5m''} then 5000
      else if timeframe = ''15m'' then 3000
      else if timeframe = ''30m'' then 2000
      else if timeframe \<in> {''1H'', ''2H'', ''4H''} then 1200
      else if timeframe = ''1D'' then 600
      else if timeframe = ''1W'' then 260
      else if timeframe = ''1M'' then 120
      else 1500)"

definition mergeCandles :: "market_candle list \<Rightarrow> market_candle list \<Rightarrow> market_candle list" where
  "mergeCandles left right =
     sortByTime (map snd (map_set_all (map (\<lambda>c. (c_time c, c)) (left @ right)) []))"

text \<open>\<open>/^(.+)_(\d+)$/\<close>: the digits after the last underscore; a dot matches no line terminator.\<close>

definition objectSegmentParts :: "string \<Rightarrow> (string \<times> jsnum) option" where
  "objectSegmentParts key =
     (let digits = rev (takeWhile isDigit (rev key)); rest = rev (dropWhile isDigit (rev key))
      in if digits \<noteq> [] \<and> rest \<noteq> [] \<and> last rest = CHR ''_'' \<and> butlast rest \<noteq> []
            \<and> CHR 0x0A \<notin> set rest \<and> CHR 0x0D \<notin> set rest
         then Some (butlast rest, f64 (of_nat (digitsValue digits))) else None)"

record 'a indicator_result =
  ir_id :: string
  ir_series :: "(string \<times> 'a) list"
  ir_labels :: "(string \<times> 'a) list option"
  ir_dashboard :: "'a option"

text \<open>The names that a plain object inherits: reading one of them from \<open>floors\<close> gives a function (or an object) unless it was written.\<close>

definition inheritedNames :: "string list" where
  "inheritedNames =
     [''constructor'', ''__defineGetter__'', ''__defineSetter__'', ''hasOwnProperty'', ''__lookupGetter__'', ''__lookupSetter__'',
      ''isPrototypeOf'', ''propertyIsEnumerable'', ''toString'', ''valueOf'', ''__proto__'', ''toLocaleString'']"

definition segmentsByHandle :: "string list \<Rightarrow> (string, jsnum list) js_map" where
  "segmentsByHandle keys =
     fold (\<lambda>key m. case objectSegmentParts key of
                     None \<Rightarrow> m
                   | Some (handle, segment) \<Rightarrow>
                       if \<not> js_isFinite segment then m
                       else let segments = (case map_get m handle of None \<Rightarrow> [] | Some xs \<Rightarrow> xs)
                            in map_set handle (if segment \<in> set segments then segments else segments @ [segment]) m)
       keys []"

text \<open>Writing a number to \<open>__proto__\<close> has no effect.\<close>

definition recentObjectSegmentFloor :: "string list \<Rightarrow> (string, jsnum) js_map" where
  "recentObjectSegmentFloor keys =
     fold (\<lambda>(handle, segments) floors.
             let sorted = js_sort js_sub segments
             in if MAX_OBJECT_SEGMENTS_PER_HANDLE < length sorted \<and> handle \<noteq> ''__proto__''
                then map_set handle (sorted ! (length sorted - MAX_OBJECT_SEGMENTS_PER_HANDLE)) floors
                else floors)
       (segmentsByHandle keys) []"

definition keepSegment :: "(string, jsnum) js_map \<Rightarrow> string \<Rightarrow> bool" where
  "keepSegment floors key =
     (case objectSegmentParts key of
        None \<Rightarrow> True
      | Some (handle, segment) \<Rightarrow>
          (case map_get floors handle of
             Some bound \<Rightarrow> js_le bound segment
           | None \<Rightarrow> handle \<notin> set inheritedNames))"

definition limitObjectSegments :: "'a indicator_result \<Rightarrow> 'a indicator_result" where
  "limitObjectSegments result =
     (let floors = recentObjectSegmentFloor (map fst (ir_series result) @ (case ir_labels result of None \<Rightarrow> [] | Some ls \<Rightarrow> map fst ls))
      in if floors = [] then result
         else result\<lparr>ir_series := filter (\<lambda>s. keepSegment floors (fst s)) (ir_series result),
                     ir_labels := map_option (filter (\<lambda>l. keepSegment floors (fst l))) (ir_labels result)\<rparr>)"

subsection \<open>The hash\<close>

lemma fnv_prime_inverse: "(16777619 :: 32 word) * 899433627 = 1"
  by simp

lemma fnvStep_inj: "fnvStep g a = fnvStep h b \<Longrightarrow> g XOR word_of_nat (of_char a) = h XOR word_of_nat (of_char b)"
proof -
  assume "fnvStep g a = fnvStep h b"
  then have "(g XOR word_of_nat (of_char a)) * (16777619 * 899433627) = (h XOR word_of_nat (of_char b)) * (16777619 * 899433627)"
    by (simp only: fnvStep_def mult.assoc [symmetric])
  then show ?thesis by (simp only: fnv_prime_inverse mult_1_right)
qed

lemma fnv_inj: "fnv g s = fnv h s \<Longrightarrow> g = h"
proof (induction s arbitrary: g h)
  case (Cons c s)
  then have "fnvStep g c = fnvStep h c" by (simp add: fnv_def)
  then have "g XOR word_of_nat (of_char c) = h XOR word_of_nat (of_char c)" by (rule fnvStep_inj)
  then have "(g XOR word_of_nat (of_char c)) XOR word_of_nat (of_char c) = (h XOR word_of_nat (of_char c)) XOR word_of_nat (of_char c)"
    by (rule arg_cong)
  then show ?case by (simp add: xor.assoc)
qed (simp add: fnv_def)

lemma fnvStep_char: "fnvStep h a = fnvStep h b \<Longrightarrow> a = b"
proof -
  assume "fnvStep h a = fnvStep h b"
  then have "h XOR word_of_nat (of_char a) = h XOR word_of_nat (of_char b)" by (rule fnvStep_inj)
  then have "h XOR (h XOR word_of_nat (of_char a)) = h XOR (h XOR word_of_nat (of_char b))" by (rule arg_cong)
  then have "(word_of_nat (of_char a) :: 32 word) = word_of_nat (of_char b)" by (simp add: xor.assoc [symmetric])
  then have "unat (word_of_nat (of_char a) :: 32 word) = unat (word_of_nat (of_char b) :: 32 word)" by simp
  moreover have "(of_char c :: nat) < 2 ^ 32" for c using nat_of_char_less_256 [of c] by (rule order.strict_trans) simp
  ultimately have "(of_char a :: nat) = of_char b" by (simp add: unat_of_nat take_bit_nat_eq_self)
  then show ?thesis by (metis char_of_char)
qed

definition value36 :: "string \<Rightarrow> nat" where
  "value36 s = foldl (\<lambda>acc c. 36 * acc + length (takeWhile (\<lambda>d. d \<noteq> c) digits36)) 0 s"

lemma digit36_value: "d < 36 \<Longrightarrow> length (takeWhile (\<lambda>x. x \<noteq> digit36 d) digits36) = d"
proof -
  assume d: "d < 36"
  have "list_all (\<lambda>d. length (takeWhile (\<lambda>x. x \<noteq> digit36 d) digits36) = d) [0 ..< 36]"
    by code_simp
  then show ?thesis using d unfolding list_all_iff by simp
qed

lemma value36_toString36 [simp]: "value36 (toString36 n) = n"
proof (induction n rule: toString36.induct)
  case (1 n)
  then show ?case by (subst toString36.simps) (auto simp: value36_def digit36_value)
qed

text \<open>
  C30.  The FNV hash of the runtime keys sees every single-character edit: two texts of the same length that differ in exactly one
  character never have the same 32-bit hash, whatever the length, and the base-36 text of the hash separates different hash values.
\<close>

theorem hash_detects_edit:
  assumes "a \<noteq> b"
  shows "indicatorRuntimeHash (us @ a # vs) \<noteq> indicatorRuntimeHash (us @ b # vs)
    \<and> value36 (indicatorRuntimeHash s) = unat (fnv 2166136261 s)"
proof -
  have step: "fnv h (us @ c # vs) = fnv (fnvStep (fnv h us) c) vs" for h c by (simp add: fnv_def)
  have "fnv h (us @ a # vs) \<noteq> fnv h (us @ b # vs)" for h
    using fnv_inj [of "fnvStep (fnv h us) a" vs "fnvStep (fnv h us) b"] fnvStep_char [of "fnv h us" a b] assms unfolding step by blast
  then have "unat (fnv 2166136261 (us @ a # vs)) \<noteq> unat (fnv 2166136261 (us @ b # vs))" using word_unat_eq_iff by blast
  then have "value36 (indicatorRuntimeHash (us @ a # vs)) \<noteq> value36 (indicatorRuntimeHash (us @ b # vs))"
    by (simp only: indicatorRuntimeHash_def value36_toString36 not_False_eq_True)
  then have "indicatorRuntimeHash (us @ a # vs) \<noteq> indicatorRuntimeHash (us @ b # vs)" by auto
  then show ?thesis by (simp add: indicatorRuntimeHash_def)
qed

lemma hash_detects_edit_witness: "indicatorRuntimeHash ''ema:9'' \<noteq> indicatorRuntimeHash ''ema:8''"
  using hash_detects_edit [of "CHR ''9''" "CHR ''8''" "''ema:''" "[]" "[]"] by simp

subsection \<open>Keys separate what must not be mixed\<close>

definition sepFree :: "char \<Rightarrow> string list \<Rightarrow> bool" where
  "sepFree sep xs \<longleftrightarrow> list_all (\<lambda>x. sep \<notin> set x) xs"

lemma append_sep_inj:
  assumes "sep \<notin> set x" "sep \<notin> set y" "x @ sep # u = y @ sep # v"
  shows "x = y \<and> u = v"
proof -
  have "takeWhile (\<lambda>c. c \<noteq> sep) (x @ sep # u) = x" "takeWhile (\<lambda>c. c \<noteq> sep) (y @ sep # v) = y"
    using assms(1,2) by (auto simp: takeWhile_append2 intro: takeWhile_append2 [THEN trans])
  with assms(3) show ?thesis by auto
qed

lemma joinWith_Cons: "joinWith sep (x # y # ys) = x @ sep # joinWith sep (y # ys)"
  by (simp add: joinWith_def)

lemma sep_in_join: "sep \<in> set (joinWith sep (x # y # ys))"
  by (simp add: joinWith_Cons)

lemma joinWith_inj: "xs \<noteq> [] \<Longrightarrow> ys \<noteq> [] \<Longrightarrow> sepFree sep xs \<Longrightarrow> sepFree sep ys \<Longrightarrow> joinWith sep xs = joinWith sep ys \<Longrightarrow> xs = ys"
proof (induction xs arbitrary: ys)
  case (Cons x xs)
  obtain y ys' where ys: "ys = y # ys'" using Cons.prems(2) by (cases ys) auto
  show ?case
  proof (cases xs)
    case Nil
    have x: "sep \<notin> set (joinWith sep (x # xs))" using Cons.prems(3) by (simp add: Nil sepFree_def joinWith_def)
    have "ys' = []"
    proof (rule ccontr)
      assume "ys' \<noteq> []"
      then obtain z zs where "ys' = z # zs" by (cases ys') auto
      then show False using x sep_in_join [of sep y z zs] Cons.prems(5) ys by simp
    qed
    then show ?thesis using Cons.prems(5) by (simp add: Nil ys joinWith_def)
  next
    case (Cons x' xs')
    have "sep \<in> set (joinWith sep ys)" using Cons.prems(5) sep_in_join [of sep x x' xs'] by (simp add: Cons)
    then obtain y' zs where ys': "ys' = y' # zs" using Cons.prems(4) by (cases ys') (auto simp: ys sepFree_def joinWith_def)
    have "x = y \<and> joinWith sep xs = joinWith sep ys'"
      using append_sep_inj [of sep x y] Cons.prems(3,4,5) by (simp add: Cons ys ys' joinWith_Cons sepFree_def)
    then show ?thesis using Cons.IH [of ys'] Cons.prems(3,4) by (simp add: Cons ys ys' sepFree_def)
  qed
qed simp

lemma joinWith_nested: "xs \<noteq> [] \<Longrightarrow> joinWith sep (joinWith sep xs # ys) = joinWith sep (xs @ ys)"
  by (cases xs) (simp_all add: joinWith_def)

lemma natDigits_sep: "CHR ''|'' \<notin> set (natDigits n)"
proof (induction n rule: natDigits.induct)
  case (1 n)
  have "digitChar d \<noteq> CHR ''|''" if "d < 10" for d
  proof -
    have "list_all (\<lambda>d. digitChar d \<noteq> CHR ''|'') [0 ..< 10]" by code_simp
    then show ?thesis using that unfolding list_all_iff by simp
  qed
  then show ?case using 1 by (subst natDigits.simps) (auto simp: eq_commute [of "CHR ''|''"])
qed

lemma toString36_sep: "CHR ''|'' \<notin> set (toString36 n)"
proof (induction n rule: toString36.induct)
  case (1 n)
  have "digit36 d \<noteq> CHR ''|''" if "d < 36" for d
  proof -
    have "list_all (\<lambda>d. digit36 d \<noteq> CHR ''|'') [0 ..< 36]" by code_simp
    then show ?thesis using that unfolding list_all_iff by simp
  qed
  then show ?case using 1 by (subst toString36.simps) (auto simp: eq_commute [of "CHR ''|''"])
qed

lemma signature_sep: "(\<And>x. CHR ''|'' \<notin> set (numStr x)) \<Longrightarrow> CHR ''|'' \<notin> set (indicatorCandleSignature numStr candles)"
  by (simp add: indicatorCandleSignature_def joinWith_def natDigits_sep toString36_sep Let_def)

lemma cutoff_positive: "ctxCutoff context = Some x \<Longrightarrow> \<exists>n. 0 < n \<and> x = Fin (of_int n)"
proof -
  assume "ctxCutoff context = Some x"
  then have "js_isSafeInteger x" "\<not> js_le x (Fin 0)"
    by (auto simp: ctxCutoff_def normalizeReplayCutoff_def split: option.splits json.splits if_splits)
  then obtain q where q: "x = Fin q" "of_int \<lfloor>q\<rfloor> = q" "\<not> q \<le> 0"
    by (cases x) (auto simp: js_isSafeInteger_def js_le_def less_eq_jsnum.simps)
  then have "0 < \<lfloor>q\<rfloor>" by (metis not_le of_int_0 of_int_0_less_iff)
  then show ?thesis using q by metis
qed

lemma cache_key_parts:
  assumes "indicatorRuntimeCacheKey numStr cmp vs config candles context = indicatorRuntimeCacheKey numStr cmp vs' config' candles' context'"
    and "sepFree (CHR ''|'') (scopeParts numStr cmp vs config context)" "sepFree (CHR ''|'') (scopeParts numStr cmp vs' config' context')"
    and "\<And>x. CHR ''|'' \<notin> set (numStr x)"
    and "\<And>m n :: int. 0 < m \<Longrightarrow> 0 < n \<Longrightarrow> numStr (Fin (of_int m)) = numStr (Fin (of_int n)) \<Longrightarrow> m = n"
    and "\<And>n :: int. 0 < n \<Longrightarrow> numStr (Fin (of_int n)) \<noteq> []"
  shows "scopeParts numStr cmp vs config context = scopeParts numStr cmp vs' config' context'
    \<and> runtimeMode context = runtimeMode context' \<and> ctxCutoff context = ctxCutoff context'
    \<and> indicatorCandleSignature numStr candles = indicatorCandleSignature numStr candles'"
proof -
  let ?P = "scopeParts numStr cmp vs config context" and ?P' = "scopeParts numStr cmp vs' config' context'"
  have ne: "?P \<noteq> []" "?P' \<noteq> []" by (simp_all add: scopeParts_def)
  have cut: "CHR ''|'' \<notin> set (cutoffPart numStr c)" for c
    using assms(4) by (simp add: cutoffPart_def split: option.split)
  have "?P @ [cutoffPart numStr context, indicatorCandleSignature numStr candles]
    = ?P' @ [cutoffPart numStr context', indicatorCandleSignature numStr candles']"
    using assms(1-4) cut signature_sep [OF assms(4)]
    unfolding indicatorRuntimeCacheKey_def indicatorRuntimeScopeKey_def joinWith_nested [OF ne(1)] joinWith_nested [OF ne(2)]
    by (intro joinWith_inj [of _ _ "CHR ''|''"]) (auto simp: sepFree_def)
  then have eq: "?P = ?P'" "cutoffPart numStr context = cutoffPart numStr context'"
    "indicatorCandleSignature numStr candles = indicatorCandleSignature numStr candles'" by simp_all
  from eq(1) have "?P ! 8 = ?P' ! 8" by simp
  then have "runtimeMode context = runtimeMode context'" by (simp add: scopeParts_def)
  moreover have "ctxCutoff context = ctxCutoff context'"
    using eq(2) assms(5,6) cutoff_positive [of "context"] cutoff_positive [of context']
    by (auto simp: cutoffPart_def eq_commute [of "[]"] split: option.splits)
  ultimately show ?thesis using eq by blast
qed

text \<open>
  Cache keys keep apart what must not be mixed.  When no text in the two scopes contains the separator, equal cache keys come
  from the same indicator instance, symbol, timeframe, live or Replay mode (with the same session), history version, Replay cutoff
  and candle signature.  A result stored under a key is therefore never read for another cutoff or another session.
\<close>

theorem cache_keys_isolate:
  assumes "indicatorRuntimeCacheKey numStr cmp vs config candles context = indicatorRuntimeCacheKey numStr cmp vs' config' candles' context'"
    and "sepFree (CHR ''|'') (scopeParts numStr cmp vs config context)" "sepFree (CHR ''|'') (scopeParts numStr cmp vs' config' context')"
    and "\<And>x. CHR ''|'' \<notin> set (numStr x)"
    and "\<And>m n :: int. 0 < m \<Longrightarrow> 0 < n \<Longrightarrow> numStr (Fin (of_int m)) = numStr (Fin (of_int n)) \<Longrightarrow> m = n"
    and "\<And>n :: int. 0 < n \<Longrightarrow> numStr (Fin (of_int n)) \<noteq> []"
  shows "scopeParts numStr cmp vs config context = scopeParts numStr cmp vs' config' context'
    \<and> runtimeMode context = runtimeMode context' \<and> ctxCutoff context = ctxCutoff context'
    \<and> indicatorCandleSignature numStr candles = indicatorCandleSignature numStr candles'"
  by (rule cache_key_parts [OF assms])

definition unaryStr :: "jsnum \<Rightarrow> string" where
  "unaryStr x = (case x of Fin q \<Rightarrow> replicate (nat \<lfloor>q\<rfloor>) (CHR ''1'') | _ \<Rightarrow> ''0'')"

definition replayContext :: "string \<Rightarrow> rat \<Rightarrow> runtime_context option" where
  "replayContext i q =
     Some \<lparr>rc_symbol = Some ''XAUUSD'', rc_timeframe = Some ''5m'', rc_symbolType = None, rc_mintick = None, rc_timezone = None,
           rc_replaySessionId = JStr i, rc_replayCutoff = JNum (Fin q)\<rparr>"

definition emaConfig :: indicator_config where
  "emaConfig = \<lparr>ic_id = ''a'', ic_type = ''ema'', ic_requiresHistoryContext = Some True, ic_object = JObj []\<rparr>"

lemma replayContext_simps:
  "ctxSession (replayContext '' s '' 7) = Some ''s''" "ctxSession (replayContext ''s'' 7) = Some ''s''"
  "ctxCutoff (replayContext i 7) = Some (Fin 7)"
  by code_simp (code_simp, simp add: replayContext_def ctxCutoff_def normalizeReplayCutoff_def js_isSafeInteger_def js_order_Fin)

lemma cache_keys_isolate_witness:
  "indicatorRuntimeCacheKey unaryStr (\<lambda>_ _. Fin 0) [] emaConfig [] (replayContext '' s '' 7)
     = indicatorRuntimeCacheKey unaryStr (\<lambda>_ _. Fin 0) [] emaConfig [] (replayContext ''s'' 7)
   \<and> runtimeMode (replayContext '' s '' 7) = runtimeMode (replayContext ''s'' 7)"
proof -
  have mode: "runtimeMode (replayContext '' s '' 7) = ''replay:s''" "runtimeMode (replayContext ''s'' 7) = ''replay:s''"
    by (simp_all add: runtimeMode_def replayContext_simps)
  have parts: "scopeParts unaryStr (\<lambda>_ _. Fin 0) [] emaConfig (replayContext i 7)
    = [''a'', ''ema'', indicatorRuntimeHash (optText (stableIndicatorRuntimeJSON unaryStr (\<lambda>_ _. Fin 0) (JObj []))), ''XAUUSD'', ''5m'',
       [], [], [], ''replay:s'']" if "runtimeMode (replayContext i 7) = ''replay:s''" for i
    using that by (simp add: scopeParts_def emaConfig_def)
      (simp add: ctxSymbol_def ctxTimeframe_def optText_def replayContext_def)
  have eq: "indicatorRuntimeCacheKey unaryStr (\<lambda>_ _. Fin 0) [] emaConfig [] (replayContext '' s '' 7)
     = indicatorRuntimeCacheKey unaryStr (\<lambda>_ _. Fin 0) [] emaConfig [] (replayContext ''s'' 7)"
    by (simp add: indicatorRuntimeCacheKey_def indicatorRuntimeScopeKey_def parts mode cutoffPart_def replayContext_simps)
  moreover have "runtimeMode (replayContext '' s '' 7) = runtimeMode (replayContext ''s'' 7)"
    using cache_keys_isolate [OF eq] toString36_sep
    by (simp add: parts mode sepFree_def indicatorRuntimeHash_def unaryStr_def split: jsnum.split)
  ultimately show ?thesis ..
qed

subsection \<open>Scope snapshots\<close>

lemma hexDigit_inj: "m < 16 \<Longrightarrow> n < 16 \<Longrightarrow> hexDigit m = hexDigit n \<Longrightarrow> m = n"
proof -
  assume "m < 16" "n < 16" "hexDigit m = hexDigit n"
  moreover have "list_all (\<lambda>m. list_all (\<lambda>n. hexDigit m = hexDigit n \<longrightarrow> m = n) [0 ..< 16]) [0 ..< 16]" by code_simp
  ultimately show ?thesis unfolding list_all_iff by simp
qed

definition escaped :: "char \<Rightarrow> bool" where
  "escaped c \<longleftrightarrow> (of_char c :: nat) < 32 \<or> (of_char c :: nat) = 34 \<or> (of_char c :: nat) = 92"

definition escapeTail :: "char \<Rightarrow> string" where
  "escapeTail c = tl (jsonChar c)"

lemma jsonChar_shape: "jsonChar c = (if escaped c then CHR 0x5C # escapeTail c else [c])" "\<not> escaped c \<Longrightarrow> c \<noteq> CHR 0x5C \<and> c \<noteq> CHR 0x22"
  by (auto simp: jsonChar_def escaped_def escapeTail_def Let_def)

text \<open>The escape of a character is a word of a prefix code: checked on the 34 characters that have one.\<close>

lemma escapeTail_code:
  assumes "escaped c" "escaped d" "escapeTail c @ u = escapeTail d @ v"
  shows "c = d \<and> u = v"
proof -
  let ?E = "map char_of ([0 ..< 32] @ [34, 92 :: nat])"
  have mem: "x \<in> set ?E" if "escaped x" for x
    unfolding set_map using that by (intro image_eqI [of _ _ "of_char x"]) (auto simp: escaped_def simp del: upt_rec_numeral)
  have "list_all (\<lambda>c. list_all (\<lambda>d. c = d \<or> (\<exists>i \<in> set [0 ..< min (length (escapeTail c)) (length (escapeTail d))].
      escapeTail c ! i \<noteq> escapeTail d ! i)) ?E) ?E" by code_simp
  then have "c = d \<or> (\<exists>i \<in> set [0 ..< min (length (escapeTail c)) (length (escapeTail d))]. escapeTail c ! i \<noteq> escapeTail d ! i)"
    using mem [OF assms(1)] mem [OF assms(2)] unfolding list_all_iff by blast
  moreover have "escapeTail c ! i = escapeTail d ! i" if "i < length (escapeTail c)" "i < length (escapeTail d)" for i
    using assms(3) that by (metis nth_append)
  ultimately have "c = d" by auto
  then show ?thesis using assms(3) by simp
qed

lemma jsonChar_code: "jsonChar c @ u = jsonChar d @ v \<Longrightarrow> c = d \<and> u = v"
  using jsonChar_shape [of c] jsonChar_shape [of d] escapeTail_code [of c d u v] by (auto split: if_splits)

lemma jsonBody_inj:
  "concat (map jsonChar s) @ CHR 0x22 # u = concat (map jsonChar t) @ CHR 0x22 # v \<Longrightarrow> s = t \<and> u = v"
proof (induction s arbitrary: t)
  case Nil
  then show ?case using jsonChar_shape by (cases t) (auto simp: jsonChar_shape(1) split: if_splits)
next
  case (Cons c s)
  then obtain d t' where t: "t = d # t'" by (cases t) (auto simp: jsonChar_shape split: if_splits)
  have "jsonChar c @ (concat (map jsonChar s) @ CHR 0x22 # u) = jsonChar d @ (concat (map jsonChar t') @ CHR 0x22 # v)"
    using Cons.prems by (simp add: t)
  then have "c = d \<and> concat (map jsonChar s) @ CHR 0x22 # u = concat (map jsonChar t') @ CHR 0x22 # v" by (rule jsonChar_code)
  then show ?case using Cons.IH [of t'] by (simp add: t)
qed

lemma jsonString_code: "jsonString x @ u = jsonString y @ v \<Longrightarrow> x = y \<and> u = v"
  using jsonBody_inj [of x u y v] by (simp add: jsonString_def)

definition jsonTail :: "string list \<Rightarrow> string" where
  "jsonTail xs = concat (map (\<lambda>z. '','' @ jsonString z) xs) @ '']''"

lemma jsonTail_inj: "jsonTail xs = jsonTail ys \<Longrightarrow> xs = ys"
proof (induction xs arbitrary: ys)
  case Nil then show ?case by (cases ys) (simp_all add: jsonTail_def)
next
  case (Cons x xs)
  then obtain y ys' where ys: "ys = y # ys'" by (cases ys) (auto simp: jsonTail_def)
  then have "jsonString x @ jsonTail xs = jsonString y @ jsonTail ys'" using Cons.prems by (simp add: jsonTail_def)
  then have "x = y \<and> jsonTail xs = jsonTail ys'" by (rule jsonString_code)
  then show ?case using Cons.IH [of ys'] ys by simp
qed

definition scopesJSON :: "(jsnum \<Rightarrow> string) \<Rightarrow> string list \<Rightarrow> string" where
  "scopesJSON numStr keys = optText (stringify numStr (JArr (map JStr keys)))"

lemma stringifyArr_strings: "stringifyArr numStr (map JStr keys) = map jsonString keys"
  by (induction keys) simp_all

lemma scopesJSON_eq: "scopesJSON numStr keys = (case keys of [] \<Rightarrow> ''[]'' | k # ks \<Rightarrow> ''['' @ jsonString k @ jsonTail ks)"
  by (cases keys) (simp_all add: scopesJSON_def optText_def stringifyArr_strings commaJoin_def jsonTail_def comp_def)

lemma scopesJSON_inj: "scopesJSON numStr xs = scopesJSON numStr ys \<Longrightarrow> xs = ys"
proof (cases xs; cases ys)
  fix x xs' y ys'
  assume eq: "scopesJSON numStr xs = scopesJSON numStr ys" and xs: "xs = x # xs'" and ys: "ys = y # ys'"
  then have "jsonString x @ jsonTail xs' = jsonString y @ jsonTail ys'" by (simp add: scopesJSON_eq)
  then have "x = y \<and> jsonTail xs' = jsonTail ys'" by (rule jsonString_code)
  then show "xs = ys" using jsonTail_inj xs ys by blast
qed (simp_all add: scopesJSON_eq jsonString_def)

text \<open>
  A scope snapshot is never stale and is reused exactly when nothing changed: whatever snapshot of an earlier render is passed
  in, the result holds the sorted scope keys of the present configurations without duplicates, and it is the earlier snapshot
  whenever that one holds the same scopes.
\<close>

theorem scope_snapshot_fresh:
  assumes "previous = map_option (\<lambda>keys. \<lparr>sn_signature = scopesJSON numStr keys, sn_scopes = keys\<rparr>) old"
  shows "(let r = resolveIndicatorRuntimeScopeSnapshot numStr cmp versions configs context previous
          in set (sn_scopes r) = (\<lambda>config. indicatorRuntimeScopeKey numStr cmp versions config context) ` set configs
             \<and> sorted (sn_scopes r) \<and> distinct (sn_scopes r) \<and> sn_signature r = scopesJSON numStr (sn_scopes r)
             \<and> (old = Some (sn_scopes r) \<longleftrightarrow> previous = Some r))"
proof -
  let ?keys = "sort (remdups (map (\<lambda>config. indicatorRuntimeScopeKey numStr cmp versions config context) configs))"
  let ?r = "\<lparr>sn_signature = scopesJSON numStr ?keys, sn_scopes = ?keys\<rparr>"
  have "resolveIndicatorRuntimeScopeSnapshot numStr cmp versions configs context previous = ?r"
    using assms scopesJSON_inj [of numStr _ ?keys]
    unfolding resolveIndicatorRuntimeScopeSnapshot_def Let_def scopesJSON_def [symmetric] by (auto split: option.split)
  then show ?thesis using assms by (auto simp: Let_def)
qed

lemma scope_snapshot_fresh_witness:
  "sn_scopes (resolveIndicatorRuntimeScopeSnapshot unaryStr (\<lambda>_ _. Fin 0) [] [] None
     (Some \<lparr>sn_signature = scopesJSON unaryStr [''gone''], sn_scopes = [''gone'']\<rparr>)) = []"
  using scope_snapshot_fresh [of "Some \<lparr>sn_signature = scopesJSON unaryStr [''gone''], sn_scopes = [''gone'']\<rparr>" unaryStr "Some [''gone'']"
      "\<lambda>_ _. Fin 0" "[]" "[]" None] by (simp add: Let_def)

subsection \<open>Object segments\<close>

text \<open>The distinct finite segment numbers of a handle, in the order of their first occurrence.\<close>

definition segmentsOf :: "string \<Rightarrow> string list \<Rightarrow> jsnum list" where
  "segmentsOf handle keys =
     rev (remdups (rev (concat (map (\<lambda>key. case objectSegmentParts key of
        Some (h, x) \<Rightarrow> if h = handle \<and> js_isFinite x then [x] else [] | None \<Rightarrow> []) keys))))"

lemma segmentsOf_Nil: "segmentsOf handle [] = []"
  by (simp add: segmentsOf_def)

lemma segmentsOf_snoc:
  "segmentsOf handle (keys @ [key]) =
     (case objectSegmentParts key of
        Some (h, x) \<Rightarrow> if h = handle \<and> js_isFinite x \<and> x \<notin> set (segmentsOf handle keys) then segmentsOf handle keys @ [x] else segmentsOf handle keys
      | None \<Rightarrow> segmentsOf handle keys)"
  by (auto simp: segmentsOf_def split: option.split)

lemma set_segmentsOf: "x \<in> set (segmentsOf handle keys) \<longleftrightarrow> js_isFinite x \<and> (\<exists>key \<in> set keys. objectSegmentParts key = Some (handle, x))"
  by (auto simp: segmentsOf_def split: option.splits if_splits) force

lemma distinct_segmentsOf [simp]: "distinct (segmentsOf handle keys)"
  by (simp add: segmentsOf_def)

lemma segmentsByHandle_wf: "map_wf (segmentsByHandle keys)"
proof (induction keys rule: rev_induct)
  case (snoc key keys)
  then show ?case by (auto simp: segmentsByHandle_def Let_def distinct_update split: option.split)
qed (simp add: segmentsByHandle_def)

lemma segmentsByHandle_get:
  "map_get (segmentsByHandle keys) handle = (if segmentsOf handle keys = [] then None else Some (segmentsOf handle keys))"
proof (induction keys arbitrary: handle rule: rev_induct)
  case (snoc key keys)
  have read: "(case map_get (segmentsByHandle keys) h of None \<Rightarrow> [] | Some xs \<Rightarrow> xs) = segmentsOf h keys" for h
    by (simp add: snoc.IH)
  have step: "segmentsByHandle (keys @ [key]) = (case objectSegmentParts key of
       None \<Rightarrow> segmentsByHandle keys
     | Some (h, segment) \<Rightarrow> if \<not> js_isFinite segment then segmentsByHandle keys
         else map_set h (if segment \<in> set (segmentsOf h keys) then segmentsOf h keys else segmentsOf h keys @ [segment]) (segmentsByHandle keys))"
    unfolding read [symmetric] segmentsByHandle_def fold_append comp_apply Let_def by simp
  show ?case unfolding step segmentsOf_snoc using snoc.IH
    by (auto simp: update_conv' split: option.split)
qed (simp add: segmentsByHandle_def segmentsOf_Nil)

lemma recentFloor_get:
  "map_get (recentObjectSegmentFloor keys) handle =
     (let sorted = js_sort js_sub (segmentsOf handle keys)
      in if 3 < length sorted \<and> handle \<noteq> ''__proto__'' then Some (sorted ! (length sorted - 3)) else None)"
proof -
  let ?f = "\<lambda>(handle, segments) floors.
             let sorted = js_sort js_sub segments
             in if MAX_OBJECT_SEGMENTS_PER_HANDLE < length sorted \<and> handle \<noteq> ''__proto__''
                then map_set handle (sorted ! (length sorted - MAX_OBJECT_SEGMENTS_PER_HANDLE)) floors
                else floors"
  have "map_get (fold ?f m acc) handle =
      (case map_get m handle of
         None \<Rightarrow> map_get acc handle
       | Some segments \<Rightarrow>
           let sorted = js_sort js_sub segments
           in if 3 < length sorted \<and> handle \<noteq> ''__proto__'' then Some (sorted ! (length sorted - 3)) else map_get acc handle)"
    if "map_wf m" for m :: "(string, jsnum list) js_map" and acc
    using that
  proof (induction m arbitrary: acc)
    case (Cons e m)
    obtain h xs where e: "e = (h, xs)" by (cases e)
    have "map_get m h = None" using Cons.prems by (simp add: e map_of_eq_None_iff)
    then show ?case using Cons.IH [of "?f e acc"] Cons.prems
      by (auto simp: e Let_def MAX_OBJECT_SEGMENTS_PER_HANDLE_def update_conv' split: option.split)
  qed simp
  note get = this [OF segmentsByHandle_wf, of keys "[]", unfolded segmentsByHandle_get]
  have "js_sort js_sub [] = []" by (simp add: js_sort_def)
  then show ?thesis
    unfolding recentObjectSegmentFloor_def get by (cases "segmentsOf handle keys = []") (simp_all add: Let_def)
qed

text \<open>A sorted list of distinct numbers: the elements from position \<open>n - 3\<close> on are those with fewer than three larger ones.\<close>

lemma top_three:
  fixes xs :: "'a :: linorder list"
  assumes "strictly_by id xs" "x \<in> set xs" "3 < length xs"
  shows "xs ! (length xs - 3) \<le> x \<longleftrightarrow> card {y \<in> set xs. x < y} < 3"
proof -
  obtain i where i: "i < length xs" "x = xs ! i" using assms(2) by (auto simp: in_set_conv_nth)
  have less: "xs ! j < xs ! k \<longleftrightarrow> j < k" if "j < length xs" "k < length xs" for j k
    using assms(1) that by (metis id_apply list.map_id0 linorder_neqE_nat not_less_iff_gr_or_eq sorted_wrt_nth_less)
  have "{y \<in> set xs. x < y} = (\<lambda>j. xs ! j) ` {i <..< length xs}"
    using i less by (auto simp: in_set_conv_nth)
  moreover have "inj_on (\<lambda>j. xs ! j) {i <..< length xs}"
    using less by (intro inj_onI) (metis greaterThanLessThan_iff linorder_neqE_nat not_less_iff_gr_or_eq)
  ultimately have "card {y \<in> set xs. x < y} = length xs - Suc i" by (simp add: card_image)
  moreover have "xs ! (length xs - 3) \<le> x \<longleftrightarrow> length xs - 3 \<le> i"
    using less [of i "length xs - 3"] i assms(3) by (simp flip: not_less)
  ultimately show ?thesis using i(1) by linarith
qed

lemma segment_double: "x \<in> set (segmentsOf handle keys) \<Longrightarrow> \<exists>q. x = Fin q \<and> f64 q = Fin q"
proof -
  assume "x \<in> set (segmentsOf handle keys)"
  then have "js_isFinite x" "\<exists>n. x = f64 (of_nat n)"
    by (auto simp: set_segmentsOf objectSegmentParts_def Let_def split: if_splits)
  then show ?thesis using is_double_f64 by (metis is_doubleE)
qed

lemma sorted_segments: "js_sort js_sub (segmentsOf handle keys) = sort (segmentsOf handle keys)"
proof -
  have "js_lt (Fin 0) (js_sub x y) \<longleftrightarrow> y < x" if x: "x \<in> set (segmentsOf handle keys)" and y: "y \<in> set (segmentsOf handle keys)" for x y
  proof -
    obtain q r where "x = Fin q" "f64 q = Fin q" "y = Fin r" "f64 r = Fin r"
      using segment_double [OF x] segment_double [OF y] by blast
    then show ?thesis using js_sub_sign(2) [of q r] by (simp del: js_sub_Fin)
  qed
  then show ?thesis by (intro js_sort_key [where f = "\<lambda>x. x"]) auto
qed

lemma card_larger_segments: "card {y \<in> set (segmentsOf handle keys). x < y} \<le> length (segmentsOf handle keys)"
  using card_mono [of "set (segmentsOf handle keys)" "{y \<in> set (segmentsOf handle keys). x < y}"]
  by (simp add: distinct_card)

lemma keep_finite_segment:
  assumes "x \<in> set (segmentsOf handle keys)" "objectSegmentParts key = Some (handle, x)" "handle \<notin> set inheritedNames"
  shows "keepSegment (recentObjectSegmentFloor keys) key \<longleftrightarrow> card {y \<in> set (segmentsOf handle keys). x < y} < 3"
proof (cases "3 < length (segmentsOf handle keys)")
  case True
  let ?xs = "sort (segmentsOf handle keys)"
  have proto: "handle \<noteq> ''__proto__''" using assms(3) by (auto simp: inheritedNames_def)
  have get: "map_get (recentObjectSegmentFloor keys) handle = Some (?xs ! (length ?xs - 3))"
    using True proto by (simp add: recentFloor_get sorted_segments Let_def)
  have "?xs ! (length ?xs - 3) \<in> set ?xs" using True by (intro nth_mem) simp
  then have "?xs ! (length ?xs - 3) \<in> set (segmentsOf handle keys)" by simp
  then have "js_le (?xs ! (length ?xs - 3)) x \<longleftrightarrow> ?xs ! (length ?xs - 3) \<le> x"
    using segment_double [of _ handle keys] assms(1) by (force simp: js_le_def)
  moreover have "strictly_by id ?xs" by (simp add: strict_sorted_iff)
  ultimately show ?thesis
    using top_three [of ?xs x] True assms(1,2) get by (simp add: keepSegment_def)
next
  case False
  have "map_get (recentObjectSegmentFloor keys) handle = None"
    using False by (simp add: recentFloor_get sorted_segments Let_def)
  moreover have "card {y \<in> set (segmentsOf handle keys). x < y} < card (set (segmentsOf handle keys))"
    using assms(1) by (intro psubset_card_mono) auto
  then have "card {y \<in> set (segmentsOf handle keys). x < y} < 3" using False by (simp add: distinct_card)
  ultimately show ?thesis using assms by (simp add: keepSegment_def)
qed

text \<open>All keys of a result, series first.\<close>

definition resultKeys :: "'a indicator_result \<Rightarrow> string list" where
  "resultKeys result = map fst (ir_series result) @ (case ir_labels result of None \<Rightarrow> [] | Some ls \<Rightarrow> map fst ls)"

text \<open>
  \<open>limitObjectSegments\<close> keeps the recent segments of every drawn object: a series or label whose key is not of the form
  \<open>handle_number\<close> is always kept, and one whose key is \<open>handle_n\<close> is kept exactly when fewer than three larger segment numbers of
  the same handle occur in the result, so at most three segments per handle remain.  The handle must not be a name that every
  JavaScript object inherits.
\<close>

theorem object_segments_limited:
  assumes "entry \<in> set (ir_series result)" "keys = resultKeys result"
  shows "(objectSegmentParts (fst entry) = None \<longrightarrow> entry \<in> set (ir_series (limitObjectSegments result)))
    \<and> (\<forall>handle x. objectSegmentParts (fst entry) = Some (handle, x) \<and> js_isFinite x \<and> handle \<notin> set inheritedNames \<longrightarrow>
         (entry \<in> set (ir_series (limitObjectSegments result)) \<longleftrightarrow> card {y \<in> set (segmentsOf handle keys). x < y} < 3))"
proof -
  have key: "fst entry \<in> set keys" using assms by (auto simp: resultKeys_def)
  have kept: "entry \<in> set (ir_series (limitObjectSegments result)) \<longleftrightarrow>
      recentObjectSegmentFloor keys = [] \<or> keepSegment (recentObjectSegmentFloor keys) (fst entry)"
    using assms(1) unfolding limitObjectSegments_def Let_def assms(2) resultKeys_def by auto
  have "entry \<in> set (ir_series (limitObjectSegments result)) \<longleftrightarrow> card {y \<in> set (segmentsOf handle keys). x < y} < 3"
    if "objectSegmentParts (fst entry) = Some (handle, x)" "js_isFinite x" "handle \<notin> set inheritedNames" for handle x
  proof -
    have x: "x \<in> set (segmentsOf handle keys)" using that key by (auto simp: set_segmentsOf)
    have "keepSegment (recentObjectSegmentFloor keys) (fst entry)" if "recentObjectSegmentFloor keys = []"
      using that \<open>objectSegmentParts (fst entry) = Some (handle, x)\<close> \<open>handle \<notin> set inheritedNames\<close> by (simp add: keepSegment_def)
    then show ?thesis using kept keep_finite_segment [OF x that(1,3)] by blast
  qed
  then show ?thesis using kept by (auto simp: keepSegment_def)
qed

lemma f64_of_nat: "n < 2 ^ 53 \<Longrightarrow> f64 (of_nat n) = Fin (of_nat n)"
  using f64_of_int [of "int n"] by simp

definition boxKeys :: "string list" where
  "boxKeys = [''box_1'', ''box_2'', ''box_3'', ''box_4'', ''toString_1'']"

definition boxResult :: "unit indicator_result" where
  "boxResult = \<lparr>ir_id = ''a'', ir_series = map (\<lambda>k. (k, ())) boxKeys, ir_labels = None, ir_dashboard = None\<rparr>"

lemma boxParts:
  "objectSegmentParts ''box_1'' = Some (''box'', Fin 1)" "objectSegmentParts ''box_2'' = Some (''box'', Fin 2)"
  "objectSegmentParts ''box_3'' = Some (''box'', Fin 3)" "objectSegmentParts ''box_4'' = Some (''box'', Fin 4)"
  "objectSegmentParts ''toString_1'' = Some (''toString'', Fin 1)"
  using f64_of_nat [of 1] f64_of_nat [of 2] f64_of_nat [of 3] f64_of_nat [of 4]
  by (simp_all add: objectSegmentParts_def isDigit_def digitsValue_def)

lemma boxSegments: "segmentsOf ''box'' boxKeys = [Fin 1, Fin 2, Fin 3, Fin 4]" "segmentsOf ''toString'' boxKeys = [Fin 1]"
  by (simp_all add: segmentsOf_def boxKeys_def boxParts)

lemma object_segments_limited_witness:
  "(''box_1'', ()) \<notin> set (ir_series (limitObjectSegments boxResult)) \<and> (''box_2'', ()) \<in> set (ir_series (limitObjectSegments boxResult))"
proof -
  have keys: "boxKeys = resultKeys boxResult" by (simp add: resultKeys_def boxResult_def comp_def)
  have "{y \<in> set (segmentsOf ''box'' boxKeys). Fin 1 < y} = {Fin 2, Fin 3, Fin 4}"
    "{y \<in> set (segmentsOf ''box'' boxKeys). Fin 2 < y} = {Fin 3, Fin 4}"
    by (auto simp: boxSegments)
  moreover have "''box'' \<notin> set inheritedNames" by (simp add: inheritedNames_def)
  moreover have "(''box_1'', ()) \<in> set (ir_series boxResult)" "(''box_2'', ()) \<in> set (ir_series boxResult)"
    by (simp_all add: boxResult_def boxKeys_def)
  ultimately show ?thesis
    using object_segments_limited [OF _ keys, of "(''box_1'', ())"] object_segments_limited [OF _ keys, of "(''box_2'', ())"] boxParts
    by simp
qed

text \<open>
  C38.  A defect of \<open>limitObjectSegments\<close>: \<open>floors\<close> is a plain object, so \<open>floors[handle]\<close> is not \<open>undefined\<close> for a handle that is
  the name of an inherited member, and the comparison with it is false.  As soon as one other object of the result has more than
  three segments, every series whose handle is such a name and has at most three segments is dropped, the newest included.
\<close>

theorem inherited_handle_dropped:
  assumes "objectSegmentParts (fst entry) = Some (handle, x)" "handle \<in> set inheritedNames"
    and "length (segmentsOf handle (resultKeys result)) \<le> 3"
    and "3 < length (segmentsOf other (resultKeys result))" "other \<noteq> ''__proto__''"
  shows "entry \<notin> set (ir_series (limitObjectSegments result))"
proof -
  let ?floors = "recentObjectSegmentFloor (resultKeys result)"
  have "map_get ?floors other \<noteq> None"
    using assms(4,5) by (simp add: recentFloor_get sorted_segments Let_def)
  then have "?floors \<noteq> []" by auto
  moreover have "map_get ?floors handle = None"
    using assms(3) by (simp add: recentFloor_get sorted_segments Let_def)
  then have "\<not> keepSegment ?floors (fst entry)" using assms(1,2) by (simp add: keepSegment_def)
  ultimately show ?thesis by (simp add: limitObjectSegments_def Let_def resultKeys_def)
qed

lemma inherited_handle_dropped_witness:
  "(''toString_1'', ()) \<in> set (ir_series boxResult) \<and> (''toString_1'', ()) \<notin> set (ir_series (limitObjectSegments boxResult))"
proof -
  have keys: "resultKeys boxResult = boxKeys" by (simp add: resultKeys_def boxResult_def comp_def)
  have "''toString'' \<in> set inheritedNames" by (simp add: inheritedNames_def)
  then show ?thesis
    using inherited_handle_dropped [of "(''toString_1'', ())" "''toString''" "Fin 1" boxResult "''box''"]
    by (simp add: keys boxSegments boxParts) (simp add: boxResult_def boxKeys_def)
qed

subsection \<open>Candle windows\<close>

lemma mergeCandles_spec:
  assumes "series_ok left" "series_ok right"
  shows "series_ok (mergeCandles left right)" "candle_map (mergeCandles left right) = candle_map left ++ candle_map right"
proof -
  let ?m = "map_set_all (map (\<lambda>c. (c_time c, c)) (left @ right)) []"
  have wf: "map_wf ?m" by (rule map_wf_set_all) simp
  have keyed: "\<forall>(k, v) \<in> set ?m. k = c_time v \<and> candle_ok v"
    using assms by (intro keyed_set_all) (auto simp: series_ok_def)
  show "series_ok (mergeCandles left right)" unfolding mergeCandles_def by (rule series_ok_sort_entries(1) [OF wf keyed])
  have "candle_map (mergeCandles left right) = candle_map (rev (left @ right))"
    unfolding mergeCandles_def series_ok_sort_entries(2) [OF wf keyed] by (simp add: map_laws candle_map_def rev_map)
  also have "\<dots> = candle_map (rev left) ++ candle_map (rev right)" by (simp add: candle_map_def map_of_append)
  finally show "candle_map (mergeCandles left right) = candle_map left ++ candle_map right"
    using assms by (simp add: candle_map_rev)
qed

lemma mergeCandles_subset: "set (mergeCandles left right) \<subseteq> set left \<union> set right"
proof
  fix c
  let ?es = "map (\<lambda>c. (c_time c, c)) (left @ right)"
  assume "c \<in> set (mergeCandles left right)"
  then obtain k where "(k, c) \<in> set (map_set_all ?es [])" by (auto simp: mergeCandles_def sortByTime_def set_js_sort)
  then have "map_get (map_set_all ?es []) k = Some c" using map_wf_set_all [of "[]" ?es] by simp
  then have "(k, c) \<in> set ?es" by (auto simp: map_laws rev_map dest: map_of_SomeD)
  then show "c \<in> set left \<union> set right" by auto
qed

end
