(* ===== verification/RuntimeScheduler.thy ===== *)
theory RuntimeScheduler
  imports JsNumber "HOL-Library.Sublist" "HOL-Library.Multiset"
begin

section \<open>The scheduler and the cache of the indicator runtime\<close>

text \<open>
  Models \<open>services/indicatorRuntimeScheduler.ts\<close>: \<open>LatestPerScopeScheduler\<close>, which runs at most
  one task per scope and at most \<open>maxConcurrent\<close> tasks in all and keeps only the newest waiting
  task of a scope, and \<open>ScopedLruCache\<close>, a least-recently-used cache with a second bound per
  scope.  A JavaScript \<open>Set\<close> is the list of its elements in insertion order.  The loops of
  \<open>ScopedLruCache.set\<close> are partial functions: that they end is a theorem about caches whose two
  indexes agree, not a part of the definition.
\<close>

subsection \<open>\<open>ScopedLruCache\<close>\<close>

record 'v scoped_lru =
  lru_entries :: "(string, string \<times> 'v) js_map"
  lru_keysByScope :: "(string, string list) js_map"

definition lruEmpty :: "'v scoped_lru" where
  "lruEmpty = \<lparr>lru_entries = [], lru_keysByScope = []\<rparr>"

definition setAdd :: "'a \<Rightarrow> 'a list \<Rightarrow> 'a list" where
  "setAdd x xs = (if x \<in> set xs then xs else xs @ [x])"

definition lruSize :: "'v scoped_lru \<Rightarrow> nat" where
  "lruSize c = length (lru_entries c)"

definition lruHas :: "string \<Rightarrow> 'v scoped_lru \<Rightarrow> bool" where
  "lruHas key c \<longleftrightarrow> map_has (lru_entries c) key"

definition lruGet :: "string \<Rightarrow> 'v scoped_lru \<Rightarrow> 'v option \<times> 'v scoped_lru" where
  "lruGet key c =
     (case map_get (lru_entries c) key of
        None \<Rightarrow> (None, c)
      | Some (scope, v) \<Rightarrow>
          (Some v,
           c\<lparr>lru_entries := map_set key (scope, v) (map_delete key (lru_entries c)),
             lru_keysByScope :=
               (case map_get (lru_keysByScope c) scope of
                  None \<Rightarrow> lru_keysByScope c
                | Some scopeKeys \<Rightarrow>
                    map_set scope (setAdd key (removeAll key scopeKeys)) (lru_keysByScope c))\<rparr>))"

definition lruDelete :: "string \<Rightarrow> 'v scoped_lru \<Rightarrow> 'v scoped_lru" where
  "lruDelete key c =
     (case map_get (lru_entries c) key of
        None \<Rightarrow> c
      | Some (scope, _) \<Rightarrow>
          c\<lparr>lru_entries := map_delete key (lru_entries c),
            lru_keysByScope :=
              (case map_get (lru_keysByScope c) scope of
                 None \<Rightarrow> lru_keysByScope c
               | Some scopeKeys \<Rightarrow>
                   if removeAll key scopeKeys = [] then map_delete scope (lru_keysByScope c)
                   else map_set scope (removeAll key scopeKeys) (lru_keysByScope c))\<rparr>)"

text \<open>
  \<open>scopeKeys\<close> of \<open>set\<close> is the set object that \<open>keysByScope\<close> holds for the scope, so each turn of
  the first loop reads it there.
\<close>

definition scopeKeysOf :: "string \<Rightarrow> 'v scoped_lru \<Rightarrow> string list" where
  "scopeKeysOf scope c = (case map_get (lru_keysByScope c) scope of None \<Rightarrow> [] | Some ks \<Rightarrow> ks)"

definition exceeds :: "nat \<Rightarrow> jsnum \<Rightarrow> bool" where
  "exceeds n limit \<longleftrightarrow> js_lt limit (Fin (of_nat n))"

partial_function (option) evictScope :: "string \<Rightarrow> jsnum \<Rightarrow> 'v scoped_lru \<Rightarrow> 'v scoped_lru option" where
  "evictScope scope scopeLimit c =
     (if exceeds (length (scopeKeysOf scope c)) scopeLimit then
        (case scopeKeysOf scope c of
           [] \<Rightarrow> Some c
         | oldest # _ \<Rightarrow>
             if oldest = [] then Some c else evictScope scope scopeLimit (lruDelete oldest c))
      else Some c)"

partial_function (option) evictGlobal :: "jsnum \<Rightarrow> 'v scoped_lru \<Rightarrow> 'v scoped_lru option" where
  "evictGlobal limit c =
     (if exceeds (lruSize c) limit then
        (case lru_entries c of
           [] \<Rightarrow> Some c
         | (oldest, _) # _ \<Rightarrow>
             if oldest = [] then Some c else evictGlobal limit (lruDelete oldest c))
      else Some c)"

definition lruInsert :: "string \<Rightarrow> string \<Rightarrow> 'v \<Rightarrow> 'v scoped_lru \<Rightarrow> 'v scoped_lru" where
  "lruInsert key scope v c =
     c\<lparr>lru_entries := map_set key (scope, v) (lru_entries c),
       lru_keysByScope := map_set scope (setAdd key (scopeKeysOf scope c)) (lru_keysByScope c)\<rparr>"

definition lruSet :: "jsnum \<Rightarrow> string \<Rightarrow> string \<Rightarrow> 'v \<Rightarrow> jsnum \<Rightarrow> 'v scoped_lru \<Rightarrow> 'v scoped_lru option" where
  "lruSet maxEntries key scope v maxEntriesForScope c =
     Option.bind (evictScope scope (js_max (Fin 1) (js_floor maxEntriesForScope)) (lruInsert key scope v (lruDelete key c)))
       (evictGlobal (js_max (Fin 1) maxEntries))"

definition lruClear :: "'v scoped_lru \<Rightarrow> 'v scoped_lru" where
  "lruClear c = c\<lparr>lru_entries := [], lru_keysByScope := []\<rparr>"

subsection \<open>The two indexes agree\<close>

definition keysIn :: "string \<Rightarrow> (string, string \<times> 'v) js_map \<Rightarrow> string list" where
  "keysIn scope es = map fst (filter (\<lambda>e. fst (snd e) = scope) es)"

definition lru_inv :: "'v scoped_lru \<Rightarrow> bool" where
  "lru_inv c \<longleftrightarrow> map_wf (lru_entries c) \<and> [] \<notin> fst ` set (lru_entries c) \<and> map_wf (lru_keysByScope c)
     \<and> (\<forall>scope. map_get (lru_keysByScope c) scope =
          (if keysIn scope (lru_entries c) = [] then None else Some (keysIn scope (lru_entries c))))"

lemma lru_inv_empty [inv_intros]: "lru_inv lruEmpty" "lru_inv (lruClear c)"
  by (simp_all add: lru_inv_def lruEmpty_def lruClear_def keysIn_def)

lemma lru_entries_empty [simp]: "lru_entries lruEmpty = []"
  by (simp add: lruEmpty_def)

lemma keysIn_delete: "keysIn scope (map_delete key es) = removeAll key (keysIn scope es)"
  by (induction es) (auto simp: keysIn_def AList.delete_eq)

lemma map_delete_filter: "map_delete key es = filter (\<lambda>e. fst e \<noteq> key) es"
  by (auto simp: AList.delete_eq intro: filter_cong)

lemma keysIn_append: "keysIn scope (es @ es') = keysIn scope es @ keysIn scope es'"
  by (simp add: keysIn_def)

lemma keysIn_member: "key \<in> set (keysIn scope es) \<longleftrightarrow> (\<exists>v. (key, scope, v) \<in> set es)"
  by (force simp: keysIn_def)

lemma keysIn_other:
  "map_wf es \<Longrightarrow> map_get es key = Some (scope, v) \<Longrightarrow> scope' \<noteq> scope \<Longrightarrow> removeAll key (keysIn scope' es) = keysIn scope' es"
  by (rule removeAll_id) (auto simp: keysIn_member dest: eq_key_imp_eq_value)

lemma scopeKeysOf_inv: "lru_inv c \<Longrightarrow> scopeKeysOf scope c = keysIn scope (lru_entries c)"
  by (auto simp: lru_inv_def scopeKeysOf_def)

lemma entries_lruDelete [simp]: "lru_entries (lruDelete key c) = map_delete key (lru_entries c)"
  by (auto simp: lruDelete_def map_of_eq_None_iff AList.delete_id split: option.split)

lemma lru_inv_delete [inv_intros]:
  assumes "lru_inv c"
  shows "lru_inv (lruDelete key c)"
proof (cases "map_get (lru_entries c) key")
  case None then show ?thesis using assms by (simp add: lruDelete_def)
next
  case (Some e)
  obtain scope v where e: "e = (scope, v)" by (cases e)
  have mem: "keysIn scope (lru_entries c) \<noteq> []"
    using map_of_SomeD [OF Some] e by (metis empty_iff keysIn_member list.set(1))
  have ks: "map_get (lru_keysByScope c) scope = Some (keysIn scope (lru_entries c))"
    using assms mem by (simp add: lru_inv_def)
  have other: "removeAll key (keysIn scope' (lru_entries c)) = keysIn scope' (lru_entries c)" if "scope' \<noteq> scope" for scope'
    using assms Some e that by (intro keysIn_other [of _ _ scope v]) (auto simp: lru_inv_def)
  let ?ks = "removeAll key (keysIn scope (lru_entries c))"
  have upd: "lru_keysByScope (lruDelete key c)
    = (if ?ks = [] then map_delete scope (lru_keysByScope c) else map_set scope ?ks (lru_keysByScope c))"
    by (simp add: lruDelete_def Some e ks)
  have "[] \<notin> fst ` set (map_delete key (lru_entries c))"
    using assms AList.dom_delete_subset [of key "lru_entries c"] by (auto simp: lru_inv_def)
  moreover have "map_get (lru_keysByScope (lruDelete key c)) scope' =
      (if removeAll key (keysIn scope' (lru_entries c)) = [] then None else Some (removeAll key (keysIn scope' (lru_entries c))))"
    for scope'
    using assms other [of scope'] by (cases "scope' = scope") (simp_all add: upd lru_inv_def update_conv' delete_conv')
  moreover have "map_wf (map_delete key (lru_entries c))" "map_wf (lru_keysByScope (lruDelete key c))"
    using assms by (simp_all add: upd lru_inv_def distinct_delete distinct_update)
  ultimately show ?thesis by (simp add: lru_inv_def keysIn_delete)
qed

lemma lru_inv_insert:
  assumes "lru_inv c" "map_get (lru_entries c) key = None" "key \<noteq> []"
  shows "lru_inv (lruInsert key scope v c)" "lru_entries (lruInsert key scope v c) = lru_entries c @ [(key, scope, v)]"
proof -
  have fresh: "key \<notin> set (keysIn scope (lru_entries c))"
    using assms(2) by (auto simp: keysIn_member map_of_eq_None_iff image_iff)
  show es: "lru_entries (lruInsert key scope v c) = lru_entries c @ [(key, scope, v)]"
    using assms(2) by (simp add: lruInsert_def alist_update_fresh)
  show "lru_inv (lruInsert key scope v c)"
    using assms fresh unfolding lru_inv_def es
    by (auto simp: lruInsert_def keysIn_append setAdd_def scopeKeysOf_inv [OF assms(1)] keysIn_def distinct_update
        update_conv' map_of_eq_None_iff)
qed

lemma lruGet_inv [inv_intros]:
  assumes "lru_inv c"
  shows "lru_inv (snd (lruGet key c))"
proof (cases "map_get (lru_entries c) key")
  case None then show ?thesis using assms by (simp add: lruGet_def)
next
  case (Some e)
  obtain scope v where e: "e = (scope, v)" by (cases e)
  have mem: "key \<in> set (keysIn scope (lru_entries c))" using map_of_SomeD [OF Some] e by (auto simp: keysIn_member)
  then have ks: "map_get (lru_keysByScope c) scope = Some (keysIn scope (lru_entries c))"
    using assms by (auto simp: lru_inv_def)
  have other: "removeAll key (keysIn scope' (lru_entries c)) = keysIn scope' (lru_entries c)" if "scope' \<noteq> scope" for scope'
    using assms Some e that by (intro keysIn_other [of _ _ scope v]) (auto simp: lru_inv_def)
  have es: "lru_entries (snd (lruGet key c)) = map_delete key (lru_entries c) @ [(key, scope, v)]"
    by (simp add: lruGet_def Some e alist_update_fresh delete_conv')
  have upd: "lru_keysByScope (snd (lruGet key c))
    = map_set scope (removeAll key (keysIn scope (lru_entries c)) @ [key]) (lru_keysByScope c)"
    by (simp add: lruGet_def Some e ks setAdd_def)
  have "[] \<notin> fst ` set (lru_entries (snd (lruGet key c)))"
    using assms AList.dom_delete_subset [of key "lru_entries c"] map_of_SomeD [OF Some]
    by (force simp: lru_inv_def es)
  moreover have "map_get (lru_keysByScope (snd (lruGet key c))) scope' =
      (if keysIn scope' (lru_entries (snd (lruGet key c))) = [] then None
       else Some (keysIn scope' (lru_entries (snd (lruGet key c)))))" for scope'
    using assms other [of scope'] unfolding es keysIn_append keysIn_delete upd
    by (cases "scope' = scope") (simp_all add: lru_inv_def update_conv' keysIn_def [of _ "[_]"])
  moreover have "key \<notin> fst ` set (map_delete key (lru_entries c))"
    by (simp add: delete_conv' flip: map_of_eq_None_iff)
  then have "map_wf (lru_entries (snd (lruGet key c)))" "map_wf (lru_keysByScope (snd (lruGet key c)))"
    using assms unfolding es upd by (simp_all add: lru_inv_def distinct_delete distinct_update)
  ultimately show ?thesis by (simp add: lru_inv_def)
qed

subsection \<open>The cache as one list in order of use\<close>

text \<open>
  The abstract cache is a single list of entries, the least recently used first.  \<open>dropFirst P n\<close>
  removes the first \<open>n\<close> elements that satisfy \<open>P\<close>; \<open>excess n limit\<close> is how many of \<open>n\<close> elements are
  over a limit, none when the limit is no number or infinite.
\<close>

fun dropFirst :: "('a \<Rightarrow> bool) \<Rightarrow> nat \<Rightarrow> 'a list \<Rightarrow> 'a list" where
  "dropFirst P 0 xs = xs"
| "dropFirst P (Suc n) [] = []"
| "dropFirst P (Suc n) (x # xs) = (if P x then dropFirst P n xs else x # dropFirst P (Suc n) xs)"

definition excess :: "nat \<Rightarrow> jsnum \<Rightarrow> nat" where
  "excess n limit = (case limit of Fin q \<Rightarrow> n - nat \<lfloor>q\<rfloor> | _ \<Rightarrow> 0)"

type_synonym 'v lru_list = "(string \<times> string \<times> 'v) list"

definition inScope :: "string \<Rightarrow> string \<times> string \<times> 'v \<Rightarrow> bool" where
  "inScope scope e \<longleftrightarrow> fst (snd e) = scope"

definition specSet :: "jsnum \<Rightarrow> string \<Rightarrow> string \<Rightarrow> 'v \<Rightarrow> jsnum \<Rightarrow> 'v lru_list \<Rightarrow> 'v lru_list" where
  "specSet maxEntries key scope v maxEntriesForScope es =
     (let es1 = filter (\<lambda>e. fst e \<noteq> key) es @ [(key, scope, v)];
          es2 = dropFirst (inScope scope)
                  (excess (length (filter (inScope scope) es1)) (js_max (Fin 1) (js_floor maxEntriesForScope))) es1
      in drop (excess (length es2) (js_max (Fin 1) maxEntries)) es2)"

definition specGet :: "string \<Rightarrow> 'v lru_list \<Rightarrow> 'v option \<times> 'v lru_list" where
  "specGet key es =
     (case map_of es key of
        None \<Rightarrow> (None, es)
      | Some (scope, v) \<Rightarrow> (Some v, filter (\<lambda>e. fst e \<noteq> key) es @ [(key, scope, v)]))"

definition limit_ok :: "jsnum \<Rightarrow> bool" where
  "limit_ok limit \<longleftrightarrow> (case limit of Fin q \<Rightarrow> 1 \<le> q | NInf \<Rightarrow> False | _ \<Rightarrow> True)"

lemma limit_ok_max [simp]: "limit_ok (js_max (Fin 1) x)"
  by (cases x) (auto simp: limit_ok_def js_max_def max_def less_eq_jsnum.simps)

lemma exceeds_excess: "limit_ok limit \<Longrightarrow> exceeds n limit \<longleftrightarrow> 0 < excess n limit"
proof (cases limit)
  case (Fin q)
  assume "limit_ok limit"
  then have "0 \<le> \<lfloor>q\<rfloor>" by (simp add: limit_ok_def Fin)
  then have "q < of_nat n \<longleftrightarrow> nat \<lfloor>q\<rfloor> < n" by (metis floor_less_iff nat_less_iff of_int_of_nat_eq)
  then show ?thesis by (simp add: exceeds_def excess_def Fin js_order_Fin)
qed (simp_all add: exceeds_def excess_def limit_ok_def js_lt_def less_jsnum_def)

lemma excess_0 [simp]: "excess 0 limit = 0"
  by (cases limit) (simp_all add: excess_def)

lemma excess_Suc: "0 < excess n limit \<Longrightarrow> excess (n - 1) limit = excess n limit - 1"
  by (cases limit) (auto simp: excess_def)

lemma excess_le: "limit_ok limit \<Longrightarrow> 0 < n \<Longrightarrow> excess n limit < n"
  by (cases limit) (auto simp: excess_def limit_ok_def)

lemma dropFirst_Suc: "dropFirst P (Suc n) xs = dropFirst P n (dropFirst P 1 xs)"
proof (induction xs arbitrary: n)
  case Nil then show ?case by (cases n) auto
next
  case (Cons x xs)
  show ?case
  proof (cases "P x")
    case False
    then have "dropFirst P (Suc n) (x # xs) = x # dropFirst P (Suc n) xs" by simp
    also have "\<dots> = x # dropFirst P n (dropFirst P 1 xs)" by (simp only: Cons.IH [of n])
    also have "\<dots> = dropFirst P n (dropFirst P 1 (x # xs))" using False by (cases n) simp_all
    finally show ?thesis .
  qed simp
qed

lemma dropFirst_all: "dropFirst (\<lambda>_. True) n xs = drop n xs"
proof (induction xs arbitrary: n)
  case (Cons x xs) then show ?case by (cases n) auto
next
  case Nil then show ?case by (cases n) auto
qed

lemma filter_dropFirst: "filter P (dropFirst P n xs) = drop n (filter P xs)"
  by (induction P n xs rule: dropFirst.induct) auto

lemma filter_dropFirst_other: "(\<And>x. P x \<Longrightarrow> \<not> Q x) \<Longrightarrow> filter Q (dropFirst P n xs) = filter Q xs"
  by (induction P n xs rule: dropFirst.induct) auto

lemma subseq_dropFirst: "subseq (dropFirst P n xs) xs"
  by (induction P n xs rule: dropFirst.induct) auto

lemma length_keysIn: "length (keysIn scope es) = length (filter (inScope scope) es)"
  by (simp add: keysIn_def inScope_def [abs_def])

lemma delete_first_key: "map_wf es \<Longrightarrow> keysIn scope es = k # ks \<Longrightarrow> map_delete k es = dropFirst (inScope scope) 1 es"
proof (induction es)
  case (Cons e es)
  show ?case
  proof (cases "inScope scope e")
    case True
    then show ?thesis using Cons.prems by (auto simp: keysIn_def inScope_def)
  next
    case False
    then have ks: "keysIn scope es = k # ks" using Cons.prems(2) by (simp add: keysIn_def inScope_def)
    then have "k \<in> fst ` set es" by (metis keysIn_member list.set_intros(1) fst_conv image_eqI)
    then have "fst e \<noteq> k" using Cons.prems(1) by auto
    then show ?thesis using False Cons.IH [OF _ ks] Cons.prems(1) by (cases e) simp
  qed
qed (simp add: keysIn_def)

lemma evictScope_spec:
  assumes "limit_ok limit" "lru_inv c"
  shows "\<exists>c'. evictScope scope limit c = Some c' \<and> lru_inv c'
    \<and> lru_entries c' = dropFirst (inScope scope) (excess (length (filter (inScope scope) (lru_entries c))) limit) (lru_entries c)"
  using assms(2)
proof (induction "excess (length (filter (inScope scope) (lru_entries c))) limit" arbitrary: c)
  case 0
  then show ?case using exceeds_excess [OF assms(1)]
    by (simp add: evictScope.simps [of scope limit c] scopeKeysOf_inv length_keysIn)
next
  case (Suc n)
  let ?es = "lru_entries c"
  have exc: "exceeds (length (scopeKeysOf scope c)) limit"
    using Suc.hyps(2) exceeds_excess [OF assms(1)] Suc.prems by (simp add: scopeKeysOf_inv length_keysIn)
  have "keysIn scope ?es \<noteq> []" using Suc.hyps(2) by (metis excess_0 length_keysIn list.size(3) nat.distinct(1))
  then obtain k ks where ks: "keysIn scope ?es = k # ks" by (cases "keysIn scope ?es") auto
  have "k \<in> fst ` set ?es" using ks by (metis keysIn_member list.set_intros(1) fst_conv image_eqI)
  then have "k \<noteq> []" using Suc.prems unfolding lru_inv_def by metis
  have del: "lru_entries (lruDelete k c) = dropFirst (inScope scope) 1 ?es"
    using delete_first_key [OF _ ks] Suc.prems by (simp add: lru_inv_def)
  then have len: "length (filter (inScope scope) (lru_entries (lruDelete k c))) = length (filter (inScope scope) ?es) - 1"
    by (simp add: filter_dropFirst)
  have n: "n = excess (length (filter (inScope scope) (lru_entries (lruDelete k c)))) limit"
    using Suc.hyps(2) excess_Suc [of "length (filter (inScope scope) ?es)" limit] unfolding len by simp
  have "evictScope scope limit c = evictScope scope limit (lruDelete k c)"
    using exc \<open>k \<noteq> []\<close> ks Suc.prems by (simp add: evictScope.simps [of scope limit c] scopeKeysOf_inv)
  with Suc.hyps(1) [OF n lru_inv_delete [OF Suc.prems]] show ?case
    unfolding del n [symmetric, unfolded del] Suc.hyps(2) [symmetric] dropFirst_Suc [symmetric] by simp
qed

lemma evictGlobal_spec:
  assumes "limit_ok limit" "lru_inv c"
  shows "\<exists>c'. evictGlobal limit c = Some c' \<and> lru_inv c' \<and> lru_entries c' = drop (excess (length (lru_entries c)) limit) (lru_entries c)"
  using assms(2)
proof (induction "excess (length (lru_entries c)) limit" arbitrary: c)
  case 0
  then show ?case using exceeds_excess [OF assms(1)] by (simp add: evictGlobal.simps [of limit c] lruSize_def)
next
  case (Suc n)
  have "lru_entries c \<noteq> []" using Suc.hyps(2) by (metis excess_0 list.size(3) nat.distinct(1))
  then obtain k x es where es: "lru_entries c = (k, x) # es" by (metis list.exhaust prod.exhaust)
  have del: "lru_entries (lruDelete k c) = es" using Suc.prems by (auto simp: es lru_inv_def)
  have n: "n = excess (length (lru_entries (lruDelete k c))) limit"
    using Suc.hyps(2) excess_Suc [of "length (lru_entries c)" limit] unfolding del by (simp add: es)
  have "evictGlobal limit c = evictGlobal limit (lruDelete k c)"
    using Suc.hyps(2) Suc.prems exceeds_excess [OF assms(1)]
    by (auto simp: evictGlobal.simps [of limit c] lruSize_def es lru_inv_def)
  with Suc.hyps(1) [OF n lru_inv_delete [OF Suc.prems]] show ?case
    unfolding del n [symmetric, unfolded del] Suc.hyps(2) [symmetric] by (simp add: es)
qed

text \<open>\<open>set\<close> always returns, and its effect is the one on the single list.\<close>

lemma lruSet_spec:
  assumes "lru_inv c" "key \<noteq> []"
  shows "\<exists>c'. lruSet m key scope v ms c = Some c' \<and> lru_inv c' \<and> lru_entries c' = specSet m key scope v ms (lru_entries c)"
proof -
  let ?c1 = "lruInsert key scope v (lruDelete key c)"
  have "map_get (lru_entries (lruDelete key c)) key = None" by (simp add: delete_conv')
  note ins = lru_inv_insert [OF lru_inv_delete [OF assms(1)] this assms(2), of scope v]
  have es1: "lru_entries ?c1 = filter (\<lambda>e. fst e \<noteq> key) (lru_entries c) @ [(key, scope, v)]"
    unfolding ins(2) by (simp add: map_delete_filter)
  obtain c2 where c2: "evictScope scope (js_max (Fin 1) (js_floor ms)) ?c1 = Some c2" "lru_inv c2"
      "lru_entries c2 = dropFirst (inScope scope)
         (excess (length (filter (inScope scope) (lru_entries ?c1))) (js_max (Fin 1) (js_floor ms))) (lru_entries ?c1)"
    using evictScope_spec [OF limit_ok_max ins(1)] by blast
  obtain c3 where "evictGlobal (js_max (Fin 1) m) c2 = Some c3" "lru_inv c3"
      "lru_entries c3 = drop (excess (length (lru_entries c2)) (js_max (Fin 1) m)) (lru_entries c2)"
    using evictGlobal_spec [OF limit_ok_max c2(2)] by blast
  then show ?thesis unfolding lruSet_def specSet_def Let_def es1 [symmetric] c2(1) c2(3) [symmetric] by simp
qed

lemma lruGet_spec:
  assumes "lru_inv c"
  shows "fst (lruGet key c) = fst (specGet key (lru_entries c))" "lru_entries (snd (lruGet key c)) = snd (specGet key (lru_entries c))"
  by (auto simp: lruGet_def specGet_def alist_update_fresh delete_conv' map_delete_filter [symmetric] split: option.split)

lemma set_dropFirst: "set (dropFirst P n xs) \<subseteq> set xs"
  by (induction P n xs rule: dropFirst.induct) auto

lemma set_specSet: "set (specSet m key scope v ms es) \<subseteq> insert (key, scope, v) (set es)"
  unfolding specSet_def Let_def by (rule subset_trans [OF set_drop_subset subset_trans [OF set_dropFirst]]) auto

text \<open>
  What a client of the cache relies on: a write returns, keeps the cache's invariant, and adds at most the entry that was written.
\<close>

locale scoped_cache =
  fixes put :: "string \<Rightarrow> string \<Rightarrow> 'v \<Rightarrow> 'c \<Rightarrow> 'c option"
    and content :: "'c \<Rightarrow> (string \<times> string \<times> 'v) list"
    and ok :: "'c \<Rightarrow> bool"
  assumes put_returns: "ok c \<Longrightarrow> key \<noteq> [] \<Longrightarrow> \<exists>c'. put key scope v c = Some c' \<and> ok c'"
    and put_content: "ok c \<Longrightarrow> key \<noteq> [] \<Longrightarrow> put key scope v c = Some c' \<Longrightarrow> set (content c') \<subseteq> insert (key, scope, v) (set (content c))"
begin

lemma put_all:
  assumes "ok c" "key \<noteq> []" "\<And>e. e \<in> set (content c) \<Longrightarrow> P e" "P (key, scope, v)"
  shows "\<exists>c'. put key scope v c = Some c' \<and> ok c' \<and> list_all P (content c')"
proof -
  obtain c' where c': "put key scope v c = Some c'" "ok c'" using put_returns [OF assms(1,2)] by blast
  then have "list_all P (content c')" using put_content [OF assms(1,2) c'(1)] assms(3,4) by (auto simp: list_all_iff)
  with c' show ?thesis by blast
qed

end

interpretation lc: scoped_cache "\<lambda>key scope v. lruSet m key scope v ms" lru_entries lru_inv for m ms
proof
  fix c :: "'a scoped_lru" and key scope :: string and v :: 'a
  assume c: "lru_inv c" "key \<noteq> []"
  show "\<exists>c'. lruSet m key scope v ms c = Some c' \<and> lru_inv c'" using lruSet_spec [OF c] by blast
  fix c' assume "lruSet m key scope v ms c = Some c'"
  then show "set (lru_entries c') \<subseteq> insert (key, scope, v) (set (lru_entries c))"
    using lruSet_spec [OF c, of m scope v ms] set_specSet by fastforce
qed

text \<open>A client's calls, with what the reads return.\<close>

datatype 'v lru_op = LGet string | LSet string string 'v jsnum | LClear

fun lruRun :: "jsnum \<Rightarrow> 'v lru_op list \<Rightarrow> 'v scoped_lru \<Rightarrow> ('v option list \<times> 'v scoped_lru) option" where
  "lruRun m [] c = Some ([], c)"
| "lruRun m (LGet key # ops) c =
     map_option (\<lambda>(rs, c'). (fst (lruGet key c) # rs, c')) (lruRun m ops (snd (lruGet key c)))"
| "lruRun m (LSet key scope v ms # ops) c = Option.bind (lruSet m key scope v ms c) (lruRun m ops)"
| "lruRun m (LClear # ops) c = lruRun m ops (lruClear c)"

fun specRun :: "jsnum \<Rightarrow> 'v lru_op list \<Rightarrow> 'v lru_list \<Rightarrow> 'v option list \<times> 'v lru_list" where
  "specRun m [] es = ([], es)"
| "specRun m (LGet key # ops) es = (case specRun m ops (snd (specGet key es)) of (rs, es') \<Rightarrow> (fst (specGet key es) # rs, es'))"
| "specRun m (LSet key scope v ms # ops) es = specRun m ops (specSet m key scope v ms es)"
| "specRun m (LClear # ops) es = specRun m ops []"

definition keyed :: "'v lru_op \<Rightarrow> bool" where
  "keyed e = (case e of LSet key _ _ _ \<Rightarrow> key \<noteq> [] | _ \<Rightarrow> True)"

lemma lruRun_refines:
  assumes "lru_inv c" "list_all keyed ops"
  shows "\<exists>c'. lruRun m ops c = Some (fst (specRun m ops (lru_entries c)), c') \<and> lru_inv c'
    \<and> lru_entries c' = snd (specRun m ops (lru_entries c))"
  using assms
proof (induction m ops c rule: lruRun.induct)
  case (2 m key ops c)
  then obtain c' where "lruRun m ops (snd (lruGet key c)) = Some (fst (specRun m ops (snd (specGet key (lru_entries c)))), c')"
      "lru_inv c'" "lru_entries c' = snd (specRun m ops (snd (specGet key (lru_entries c))))"
    by (auto simp: lruGet_inv lruGet_spec)
  then show ?case using "2.prems" by (simp add: split_beta lruGet_spec)
next
  case (3 m key scope v ms ops c)
  then obtain c1 where c1: "lruSet m key scope v ms c = Some c1" "lru_inv c1" "lru_entries c1 = specSet m key scope v ms (lru_entries c)"
    using lruSet_spec [of c key m scope v ms] by (auto simp: keyed_def)
  with "3.IH" [OF c1(1,2)] "3.prems" show ?case by simp
next
  case (4 m ops c)
  then show ?case using lru_inv_empty(2) [of c] by (simp add: lruClear_def)
qed simp

subsection \<open>The bounds of the cache\<close>

definition within_limit :: "'a list \<Rightarrow> jsnum \<Rightarrow> bool" where
  "within_limit xs limit \<longleftrightarrow> \<not> exceeds (length xs) limit"

definition scopeEntries :: "string \<Rightarrow> 'v lru_list \<Rightarrow> 'v lru_list" where
  "scopeEntries scope es = filter (inScope scope) es"

lemma within_limit_excess: "limit_ok limit \<Longrightarrow> within_limit xs limit \<longleftrightarrow> excess (length xs) limit = 0"
  by (simp add: within_limit_def exceeds_excess)

lemma excess_mono: "n \<le> k \<Longrightarrow> excess n limit \<le> excess k limit"
  by (cases limit) (auto simp: excess_def)

lemma excess_rest: "excess (n - excess n limit) limit = 0"
  by (cases limit) (auto simp: excess_def)

lemma within_limit_shorter: "limit_ok limit \<Longrightarrow> within_limit xs limit \<Longrightarrow> length ys \<le> length xs \<Longrightarrow> within_limit ys limit"
  using excess_mono [of "length ys" "length xs" limit] by (simp add: within_limit_excess)

lemma within_limit_drop: "limit_ok limit \<Longrightarrow> within_limit (drop (excess (length xs) limit) xs) limit"
  by (simp add: within_limit_excess excess_rest)

lemma length_filter_drop: "length (filter P (drop n xs)) \<le> length (filter P xs)"
proof -
  have "filter P xs = filter P (take n xs) @ filter P (drop n xs)" by (metis append_take_drop_id filter_append)
  then show ?thesis by simp
qed

lemma length_filter_filter: "length (filter P (filter Q xs)) \<le> length (filter P xs)"
  by (induction xs) auto

lemma specSet_newest: "\<exists>es'. specSet m key scope v ms es = es' @ [(key, scope, v)]"
proof -
  define es1 where "es1 = filter (\<lambda>e. fst e \<noteq> key) es @ [(key, scope, v)]"
  define n where "n = excess (length (filter (inScope scope) es1)) (js_max (Fin 1) (js_floor ms))"
  have n: "n < length (filter (inScope scope) es1)"
    unfolding n_def by (rule excess_le) (simp_all add: es1_def inScope_def)
  have "dropFirst P k (ys @ [y]) = dropFirst P k ys @ [y]" if "k \<le> length (filter P ys)" for P k ys and y :: "string \<times> string \<times> 'a"
    using that by (induction P k ys rule: dropFirst.induct) (auto split: if_splits)
  then obtain es2 where es2: "dropFirst (inScope scope) n es1 = es2 @ [(key, scope, v)]"
    using n unfolding es1_def by (auto simp: inScope_def)
  then have "excess (length (dropFirst (inScope scope) n es1)) (js_max (Fin 1) m) \<le> length es2"
    using excess_le [of "js_max (Fin 1) m" "length (dropFirst (inScope scope) n es1)"] by simp
  then show ?thesis unfolding specSet_def Let_def es1_def [symmetric] n_def [symmetric] es2 by auto
qed

lemma specSet_within: "within_limit (specSet m key scope v ms es) (js_max (Fin 1) m)"
  by (simp add: specSet_def Let_def within_limit_drop)

lemma specSet_within_scope:
  assumes "limit_ok L" "within_limit (scopeEntries scope es) L" "scope' = scope \<Longrightarrow> js_max (Fin 1) (js_floor ms) = L"
  shows "within_limit (scopeEntries scope (specSet m key scope' v ms es)) L"
proof -
  define es1 where "es1 = filter (\<lambda>e. fst e \<noteq> key) es @ [(key, scope', v)]"
  define es2 where "es2 = dropFirst (inScope scope') (excess (length (filter (inScope scope') es1)) (js_max (Fin 1) (js_floor ms))) es1"
  have "within_limit (scopeEntries scope es2) L"
  proof (cases "scope' = scope")
    case True
    then show ?thesis using assms by (simp add: scopeEntries_def es2_def filter_dropFirst within_limit_drop)
  next
    case False
    then have "scopeEntries scope es2 = filter (inScope scope) (filter (\<lambda>e. fst e \<noteq> key) es)"
      unfolding scopeEntries_def es2_def
      by (subst filter_dropFirst_other) (auto simp: inScope_def es1_def)
    then show ?thesis
      using assms(1,2) length_filter_filter [of "inScope scope" "\<lambda>e. fst e \<noteq> key" es]
      by (auto simp: scopeEntries_def intro: within_limit_shorter)
  qed
  moreover have "length (scopeEntries scope (specSet m key scope' v ms es)) \<le> length (scopeEntries scope es2)"
    unfolding specSet_def Let_def es1_def [symmetric] es2_def [symmetric] scopeEntries_def by (rule length_filter_drop)
  ultimately show ?thesis using assms(1) within_limit_shorter by blast
qed

lemma specGet_mset: "map_wf es \<Longrightarrow> mset (snd (specGet key es)) = mset es"
proof (cases "map_of es key")
  case (Some e)
  assume wf: "map_wf es"
  obtain us vs where es: "es = us @ (key, e) # vs" using split_list [OF map_of_SomeD [OF Some]] by blast
  with wf have "filter (\<lambda>x. fst x \<noteq> key) us = us" "filter (\<lambda>x. fst x \<noteq> key) vs = vs"
    by (auto simp: filter_id_conv image_iff)
  then have "mset (filter (\<lambda>x. fst x \<noteq> key) es) + {#(key, e)#} = mset es" by (simp add: es)
  then show ?thesis using Some by (auto simp: specGet_def split: prod.split)
qed (simp add: specGet_def)


text \<open>
  Every set of a scope uses the same limit \<open>L\<close> for it (in the runtime, 1 for live scopes and 4 for
  Replay scopes).
\<close>

definition uses_limit :: "string \<Rightarrow> jsnum \<Rightarrow> 'v lru_op \<Rightarrow> bool" where
  "uses_limit scope L e = (case e of LSet _ scope' _ ms \<Rightarrow> scope' \<noteq> scope \<or> js_max (Fin 1) (js_floor ms) = L | _ \<Rightarrow> True)"

lemma lruRun_bounds:
  assumes "lru_inv c" "list_all keyed ops" "list_all (uses_limit scope L) ops" "limit_ok L"
    and "within_limit (lru_entries c) (js_max (Fin 1) m)" "within_limit (scopeEntries scope (lru_entries c)) L"
    and "lruRun m ops c = Some (rs, c')"
  shows "within_limit (lru_entries c') (js_max (Fin 1) m) \<and> within_limit (scopeEntries scope (lru_entries c')) L"
  using assms
proof (induction m ops c arbitrary: rs rule: lruRun.induct)
  case (2 m key ops c)
  have mset: "mset (lru_entries (snd (lruGet key c))) = mset (lru_entries c)"
    using "2.prems"(1) by (simp add: lruGet_spec specGet_mset lru_inv_def)
  then have "length (lru_entries (snd (lruGet key c))) = length (lru_entries c)"
      "length (scopeEntries scope (lru_entries (snd (lruGet key c)))) = length (scopeEntries scope (lru_entries c))"
    unfolding scopeEntries_def by (metis size_mset, metis mset_filter size_mset)
  with 2 show ?case by (auto simp: lruGet_inv within_limit_def)
next
  case (3 m key scope' v ms ops c)
  then obtain c1 where c1: "lruSet m key scope' v ms c = Some c1" "lru_inv c1" "lru_entries c1 = specSet m key scope' v ms (lru_entries c)"
    using lruSet_spec [of c key m scope' v ms] by (auto simp: keyed_def)
  have "within_limit (scopeEntries scope (lru_entries c1)) L"
    unfolding c1(3) using "3.prems"(3,4,6) by (intro specSet_within_scope) (auto simp: uses_limit_def)
  with "3.IH" [OF c1(1,2)] "3.prems" show ?case using c1 by (simp add: specSet_within)
next
  case (4 m ops c)
  then show ?case using lru_inv_empty(2) [of c]
    by (simp add: lruClear_def within_limit_excess scopeEntries_def)
qed simp

text \<open>
  C19.  \<open>ScopedLruCache\<close> is a least-recently-used cache and stays within its bounds: for every
  sequence of reads, writes and clears on a fresh cache (no write uses the empty key) the eviction
  loops end, every read returns what the single list in order of use returns, the two indexes
  agree afterwards, at most \<open>max(1, maxEntries)\<close> entries are kept, and at most the scope's limit of
  them belong to a scope that is always written with that limit.
\<close>

theorem lru_cache_refines:
  assumes "list_all keyed ops" "list_all (uses_limit scope (js_max (Fin 1) (js_floor ms))) ops"
  shows "\<exists>c. lruRun m ops lruEmpty = Some (fst (specRun m ops []), c) \<and> lru_inv c \<and> lru_entries c = snd (specRun m ops [])
    \<and> within_limit (lru_entries c) (js_max (Fin 1) m)
    \<and> within_limit (scopeEntries scope (lru_entries c)) (js_max (Fin 1) (js_floor ms))"
proof -
  obtain c where c: "lruRun m ops lruEmpty = Some (fst (specRun m ops []), c)" "lru_inv c" "lru_entries c = snd (specRun m ops [])"
    using lruRun_refines [OF lru_inv_empty(1) assms(1), of m] by auto
  then show ?thesis
    using lruRun_bounds [OF lru_inv_empty(1) assms limit_ok_max _ _ c(1)] by (simp add: scopeEntries_def within_limit_excess)
qed

lemma lru_cache_refines_witness:
  "\<exists>c. lruRun (Fin 64) [LSet ''a'' ''s'' True (Fin 1), LSet ''b'' ''s'' False (Fin 1), LGet ''a'', LGet ''b''] lruEmpty
      = Some ([None, Some False], c) \<and> lru_entries c = [(''b'', ''s'', False)]"
  using lru_cache_refines [of "[LSet ''a'' ''s'' True (Fin 1), LSet ''b'' ''s'' False (Fin 1), LGet ''a'', LGet ''b'']" "''s''" "Fin 1" "Fin 64"]
  by (auto simp: keyed_def uses_limit_def specSet_def specGet_def excess_def inScope_def js_floor_def js_max_def max_def less_eq_jsnum.simps)

subsection \<open>\<open>LatestPerScopeScheduler\<close>\<close>

text \<open>
  A promise chain that \<open>drain\<close> has started is a \<open>sched_run\<close> with the scope, the task and the
  \<open>taskGeneration\<close> its \<open>finally\<close> block closes over; \<open>run_id\<close> is its identity.  \<open>sc_running\<close> are the
  chains whose \<open>finally\<close> block has not run yet; \<open>sc_started\<close> records every chain in the order of
  the calls of \<open>run\<close> and is not read by the code.  The \<open>finally\<close> block is two steps, because
  \<open>onSettled\<close> notifies listeners, which may enqueue again (or throw, and then \<open>drain\<close> is not
  called): \<open>schedRelease\<close> up to and including \<open>onSettled\<close>, returning the task it is called with,
  and \<open>drain\<close>.
\<close>

record 't sched_run =
  run_id :: nat
  run_scope :: string
  run_task :: 't
  run_generation :: nat

record 't sched =
  sc_activeScopes :: "string list"
  sc_pendingByScope :: "(string, 't) js_map"
  sc_maxConcurrent :: jsnum
  sc_activeCount :: int
  sc_generation :: nat
  sc_running :: "'t sched_run list"
  sc_started :: "'t sched_run list"

definition newScheduler :: "jsnum \<Rightarrow> 't sched" where
  "newScheduler maxConcurrent =
     \<lparr>sc_activeScopes = [], sc_pendingByScope = [], sc_maxConcurrent = js_max (Fin 1) (js_floor maxConcurrent),
      sc_activeCount = 0, sc_generation = 0, sc_running = [], sc_started = []\<rparr>"

definition nextPending :: "'t sched \<Rightarrow> ((string \<times> 't) \<times> 't sched) option" where
  "nextPending s =
     (case find (\<lambda>(scope, task). scope \<notin> set (sc_activeScopes s)) (sc_pendingByScope s) of
        None \<Rightarrow> None
      | Some (scope, task) \<Rightarrow>
          Some ((scope, task), s\<lparr>sc_pendingByScope := map_delete scope (sc_pendingByScope s)\<rparr>))"

definition launch :: "string \<Rightarrow> 't \<Rightarrow> 't sched \<Rightarrow> 't sched" where
  "launch scope task s =
     (let r = \<lparr>run_id = length (sc_started s), run_scope = scope, run_task = task, run_generation = sc_generation s\<rparr>
      in s\<lparr>sc_activeCount := sc_activeCount s + 1, sc_activeScopes := setAdd scope (sc_activeScopes s),
           sc_running := sc_running s @ [r], sc_started := sc_started s @ [r]\<rparr>)"

definition hasSlot :: "'t sched \<Rightarrow> bool" where
  "hasSlot s \<longleftrightarrow> js_lt (Fin (of_int (sc_activeCount s))) (sc_maxConcurrent s)"

lemma nextPending_Some:
  assumes "nextPending s = Some ((scope, task), s')"
  shows "(scope, task) \<in> set (sc_pendingByScope s)" "scope \<notin> set (sc_activeScopes s)"
    "s' = s\<lparr>sc_pendingByScope := map_delete scope (sc_pendingByScope s)\<rparr>"
  using assms by (auto simp: nextPending_def dest!: iffD1 [OF find_Some_iff] split: option.splits) (metis nth_mem)

lemma nextPending_shrinks:
  "nextPending s = Some ((scope, task), s') \<Longrightarrow> length (sc_pendingByScope s') < length (sc_pendingByScope s)"
  using nextPending_Some [of s scope task s'] by (auto simp: map_delete_filter intro!: length_filter_less [of "(scope, task)"])

function drain :: "'t sched \<Rightarrow> 't sched" where
  "drain s =
     (if hasSlot s then
        (case nextPending s of
           None \<Rightarrow> s
         | Some ((scope, task), s') \<Rightarrow> drain (launch scope task s'))
      else s)"
  by pat_completeness auto
termination
  by (relation "measure (\<lambda>s. length (sc_pendingByScope s))") (auto simp: launch_def Let_def nextPending_shrinks)

declare drain.simps [simp del]

lemma drain_induct:
  assumes "\<And>s. (\<And>scope task s'. hasSlot s \<Longrightarrow> nextPending s = Some ((scope, task), s') \<Longrightarrow> P (launch scope task s')) \<Longrightarrow> P s"
  shows "P s"
  by (induction s rule: drain.induct) (rule assms, auto)

lemma drain_cases:
  obtains "\<not> hasSlot s" "drain s = s" | "hasSlot s" "nextPending s = None" "drain s = s"
  | scope task s' where "hasSlot s" "nextPending s = Some ((scope, task), s')" "drain s = drain (launch scope task s')"
  by (cases "hasSlot s"; cases "nextPending s") (auto simp: drain.simps [of s])

definition schedEnqueue :: "string \<Rightarrow> 't \<Rightarrow> 't sched \<Rightarrow> 't option \<times> 't sched" where
  "schedEnqueue scope task s =
     (map_get (sc_pendingByScope s) scope,
      drain (s\<lparr>sc_pendingByScope := map_set scope task (map_delete scope (sc_pendingByScope s))\<rparr>))"

definition schedCancel :: "string \<Rightarrow> 't sched \<Rightarrow> 't option \<times> 't sched" where
  "schedCancel scope s =
     (map_get (sc_pendingByScope s) scope, s\<lparr>sc_pendingByScope := map_delete scope (sc_pendingByScope s)\<rparr>)"

definition schedClear :: "'t sched \<Rightarrow> 't sched" where
  "schedClear s = s\<lparr>sc_generation := sc_generation s + 1, sc_pendingByScope := []\<rparr>"

definition schedRelease :: "nat \<Rightarrow> 't sched \<Rightarrow> 't option \<times> 't sched" where
  "schedRelease n s =
     (case find (\<lambda>r. run_id r = n) (sc_running s) of
        None \<Rightarrow> (None, s)
      | Some r \<Rightarrow>
          (if run_generation r = sc_generation s then Some (run_task r) else None,
           s\<lparr>sc_activeCount := sc_activeCount s - 1,
             sc_activeScopes := removeAll (run_scope r) (sc_activeScopes s),
             sc_running := filter (\<lambda>r. run_id r \<noteq> n) (sc_running s)\<rparr>))"

subsection \<open>What the scheduler keeps\<close>

definition sched_inv :: "'t sched \<Rightarrow> bool" where
  "sched_inv s \<longleftrightarrow>
     map_wf (sc_pendingByScope s) \<and> sc_activeScopes s = map run_scope (sc_running s) \<and> distinct (sc_activeScopes s)
     \<and> sc_activeCount s = int (length (sc_running s)) \<and> distinct (map run_id (sc_running s))
     \<and> list_all (\<lambda>r. run_id r < length (sc_started s)) (sc_running s)
     \<and> (sc_running s = [] \<or> \<not> exceeds (length (sc_running s)) (sc_maxConcurrent s))
     \<and> js_floor (sc_maxConcurrent s) = sc_maxConcurrent s"

text \<open>Nothing that could start is waiting.\<close>

definition settled :: "'t sched \<Rightarrow> bool" where
  "settled s \<longleftrightarrow> hasSlot s \<longrightarrow> list_all (\<lambda>(scope, task). scope \<in> set (sc_activeScopes s)) (sc_pendingByScope s)"

lemma sched_inv_new [inv_intros]: "sched_inv (newScheduler maxConcurrent)"
  by (cases maxConcurrent) (auto simp: sched_inv_def newScheduler_def js_floor_def js_max_def max_def split: jsnum.split)

lemma nextPending_None: "nextPending s = None \<longleftrightarrow> list_all (\<lambda>(scope, task). scope \<in> set (sc_activeScopes s)) (sc_pendingByScope s)"
proof -
  have "nextPending s = None \<longleftrightarrow> find (\<lambda>(scope, task). scope \<notin> set (sc_activeScopes s)) (sc_pendingByScope s) = None"
    by (simp add: nextPending_def split: option.split)
  then show ?thesis by (auto simp: find_None_iff list_all_iff)
qed

lemma hasSlot_room:
  assumes "hasSlot s" "sc_activeCount s = int n" "js_floor (sc_maxConcurrent s) = sc_maxConcurrent s"
  shows "\<not> exceeds (Suc n) (sc_maxConcurrent s)"
proof (cases "sc_maxConcurrent s")
  case (Fin q)
  with assms(3) obtain k :: int where q: "q = of_int k" by (auto simp: js_floor_def)
  have "(of_nat n :: rat) < of_int k" using assms Fin by (simp add: hasSlot_def q js_order_Fin)
  then have "int n < k" by (metis of_int_less_iff of_int_of_nat_eq)
  then have "int (Suc n) \<le> k" by simp
  then have "(of_nat (Suc n) :: rat) \<le> of_int k" by (metis of_int_le_iff of_int_of_nat_eq)
  then show ?thesis by (simp add: exceeds_def Fin q js_order_Fin)
qed (use assms in \<open>auto simp: hasSlot_def exceeds_def js_lt_def less_jsnum_def\<close>)

lemma launch_next_inv:
  assumes "sched_inv s" "hasSlot s" "nextPending s = Some ((scope, task), s')"
  shows "sched_inv (launch scope task s')"
  using assms hasSlot_room [OF assms(2)] nextPending_Some [OF assms(3)]
  by (auto simp: sched_inv_def launch_def Let_def setAdd_def distinct_delete list_all_iff less_Suc_eq image_iff)

lemma drain_inv [inv_intros]: "sched_inv s \<Longrightarrow> sched_inv (drain s)"
proof (induction s rule: drain_induct)
  case (1 s)
  then show ?case by (cases rule: drain_cases [of s]) (simp_all add: launch_next_inv)
qed

lemma drain_settled: "settled (drain s)"
proof (induction s rule: drain_induct)
  case (1 s)
  then show ?case by (cases rule: drain_cases [of s]) (simp_all add: settled_def nextPending_None)
qed

lemma enqueue_inv_sched [inv_intros]: "sched_inv s \<Longrightarrow> sched_inv (snd (schedEnqueue scope task s))"
  unfolding schedEnqueue_def snd_conv by (rule drain_inv) (auto simp: sched_inv_def distinct_update distinct_delete)

lemma cancel_inv [inv_intros]: "sched_inv s \<Longrightarrow> sched_inv (snd (schedCancel scope s))"
  by (auto simp: schedCancel_def sched_inv_def distinct_delete)

lemma clear_inv [inv_intros]: "sched_inv s \<Longrightarrow> sched_inv (schedClear s)"
  by (auto simp: schedClear_def sched_inv_def)

lemma exceeds_mono: "n \<le> k \<Longrightarrow> exceeds n limit \<Longrightarrow> exceeds k limit"
  by (cases limit) (auto simp: exceeds_def js_lt_def less_jsnum_def intro: order.strict_trans2)

lemma find_run:
  assumes "r \<in> set rs" "distinct (map run_id rs)"
  shows "find (\<lambda>x. run_id x = run_id r) rs = Some r"
  using assms by (induction rs) (auto simp: image_iff)

lemma release_split:
  assumes "sched_inv s" "r \<in> set (sc_running s)"
  obtains us vs where "sc_running s = us @ r # vs"
    "schedRelease (run_id r) s = (if run_generation r = sc_generation s then Some (run_task r) else None,
       s\<lparr>sc_activeCount := int (length (us @ vs)), sc_activeScopes := map run_scope (us @ vs), sc_running := us @ vs\<rparr>)"
proof -
  have inv: "sc_activeScopes s = map run_scope (sc_running s)" "distinct (map run_scope (sc_running s))"
    "sc_activeCount s = int (length (sc_running s))" "distinct (map run_id (sc_running s))"
    using assms(1) by (auto simp: sched_inv_def)
  obtain us vs where rs: "sc_running s = us @ r # vs" using split_list [OF assms(2)] by blast
  have "filter (\<lambda>x. run_id x \<noteq> run_id r) (sc_running s) = us @ vs"
    using inv(4) by (simp add: rs) (metis (mono_tags, lifting) filter_True image_eqI)
  moreover have "removeAll (run_scope r) (sc_activeScopes s) = map run_scope (us @ vs)"
    using inv(2) by (simp add: inv(1) rs removeAll_id)
  ultimately show thesis
    using that [OF rs] find_run [OF assms(2) inv(4)] inv(3) by (simp add: schedRelease_def rs)
qed

lemma schedRelease_inv [inv_intros]:
  assumes "sched_inv s"
  shows "sched_inv (snd (schedRelease n s))"
proof (cases "find (\<lambda>r. run_id r = n) (sc_running s)")
  case None then show ?thesis using assms by (simp add: schedRelease_def)
next
  case (Some r)
  then have r: "r \<in> set (sc_running s)" "run_id r = n" by (auto simp: find_Some_iff)
  obtain us vs where uv: "sc_running s = us @ r # vs"
    "snd (schedRelease (run_id r) s)
       = s\<lparr>sc_activeCount := int (length (us @ vs)), sc_activeScopes := map run_scope (us @ vs), sc_running := us @ vs\<rparr>"
    using release_split [OF assms r(1)] by (metis snd_conv)
  have "\<not> exceeds (length (sc_running s)) (sc_maxConcurrent s)" using assms r(1) by (auto simp: sched_inv_def)
  then have "\<not> exceeds (length (us @ vs)) (sc_maxConcurrent s)"
    using exceeds_mono [of "length (us @ vs)" "length (sc_running s)"] by (auto simp: uv(1))
  moreover have "distinct (map run_scope (us @ r # vs))"
    using assms unfolding sched_inv_def uv(1) [symmetric] by metis
  ultimately show ?thesis using assms uv unfolding r(2) [symmetric] sched_inv_def by simp
qed

subsection \<open>Runs of the scheduler\<close>

datatype 't sched_event = SEnqueue string 't | SCancel string | SClear | SRelease nat | SDrain

fun schedStep :: "'t sched_event \<Rightarrow> 't sched \<Rightarrow> 't sched" where
  "schedStep (SEnqueue scope task) s = snd (schedEnqueue scope task s)"
| "schedStep (SCancel scope) s = snd (schedCancel scope s)"
| "schedStep SClear s = schedClear s"
| "schedStep (SRelease n) s = snd (schedRelease n s)"
| "schedStep SDrain s = drain s"

definition schedRun :: "'t sched_event list \<Rightarrow> 't sched \<Rightarrow> 't sched" where
  "schedRun evs s = fold schedStep evs s"

lemma schedRun_snoc [simp]: "schedRun (evs @ [e]) s = schedStep e (schedRun evs s)" "schedRun [] s = s"
  by (simp_all add: schedRun_def)

lemma schedRun_inv: "sched_inv s \<Longrightarrow> sched_inv (schedRun evs s)"
proof (induction evs rule: rev_induct)
  case (snoc e evs)
  then show ?case by (cases e) (simp_all add: inv_intros)
qed simp

text \<open>What has been asked for, started and is waiting, per scope.\<close>

definition enqueuedOf :: "string \<Rightarrow> 't sched_event list \<Rightarrow> 't list" where
  "enqueuedOf scope evs = concat (map (\<lambda>e. case e of SEnqueue scope' task \<Rightarrow> if scope' = scope then [task] else [] | _ \<Rightarrow> []) evs)"

definition startedOf :: "string \<Rightarrow> 't sched \<Rightarrow> 't list" where
  "startedOf scope s = map run_task (filter (\<lambda>r. run_scope r = scope) (sc_started s))"

definition waitingOf :: "string \<Rightarrow> 't sched \<Rightarrow> 't list" where
  "waitingOf scope s = (case map_get (sc_pendingByScope s) scope of None \<Rightarrow> [] | Some task \<Rightarrow> [task])"

definition runsOf :: "string \<Rightarrow> 't sched \<Rightarrow> 't list" where
  "runsOf scope s = startedOf scope s @ waitingOf scope s"

lemma launch_next_runsOf:
  assumes "sched_inv s" "nextPending s = Some ((scope, task), s')"
  shows "runsOf scope' (launch scope task s') = runsOf scope' s"
proof -
  have "map_get (sc_pendingByScope s) scope = Some task"
    using assms(1) nextPending_Some [OF assms(2)] by (simp add: sched_inv_def)
  then show ?thesis using nextPending_Some(3) [OF assms(2)]
    by (auto simp: runsOf_def startedOf_def waitingOf_def launch_def Let_def delete_conv')
qed

lemma drain_runsOf: "sched_inv s \<Longrightarrow> runsOf scope (drain s) = runsOf scope s"
proof (induction s rule: drain_induct)
  case (1 s)
  then show ?case by (cases rule: drain_cases [of s]) (simp_all add: launch_next_inv launch_next_runsOf)
qed

lemma enqueue_runsOf:
  assumes "sched_inv s"
  shows "runsOf scope (snd (schedEnqueue scope' task s)) = (if scope' = scope then startedOf scope s @ [task] else runsOf scope s)"
proof -
  let ?s = "s\<lparr>sc_pendingByScope := map_set scope' task (map_delete scope' (sc_pendingByScope s))\<rparr>"
  have "sched_inv ?s" using assms by (auto simp: sched_inv_def distinct_update distinct_delete)
  then show ?thesis
    by (simp add: schedEnqueue_def drain_runsOf) (simp add: runsOf_def startedOf_def waitingOf_def update_conv' delete_conv')
qed

lemma other_runsOf:
  "runsOf scope (snd (schedCancel scope' s)) = (if scope' = scope then startedOf scope s else runsOf scope s)"
  "runsOf scope (schedClear s) = startedOf scope s"
  "runsOf scope (snd (schedRelease n s)) = runsOf scope s"
  by (auto simp: runsOf_def startedOf_def waitingOf_def schedCancel_def schedClear_def schedRelease_def delete_conv'
      split: option.split)

text \<open>The order of a scope's runs, and its newest task.\<close>

lemma startedOf_runsOf: "subseq (startedOf scope s) (runsOf scope s)"
  by (simp add: runsOf_def prefix_imp_subseq)

lemma enqueuedOf_snoc:
  "enqueuedOf scope (evs @ [e]) = enqueuedOf scope evs @ (case e of SEnqueue scope' task \<Rightarrow> if scope' = scope then [task] else [] | _ \<Rightarrow> [])"
  by (simp add: enqueuedOf_def)

lemma runs_in_order: "sched_inv s \<Longrightarrow> runsOf scope s = [] \<Longrightarrow> subseq (runsOf scope (schedRun evs s)) (enqueuedOf scope evs)"
proof (induction evs rule: rev_induct)
  case (snoc e evs)
  let ?s = "schedRun evs s"
  have ih: "subseq (runsOf scope ?s) (enqueuedOf scope evs)" by (rule snoc.IH [OF snoc.prems])
  then have st: "subseq (startedOf scope ?s) (enqueuedOf scope evs)"
    using startedOf_runsOf subseq_order.order_trans by blast
  have inv: "sched_inv ?s" by (rule schedRun_inv [OF snoc.prems(1)])
  show ?case
    using ih st by (cases e) (auto simp: enqueuedOf_snoc enqueue_runsOf [OF inv] other_runsOf drain_runsOf [OF inv])
qed (simp add: enqueuedOf_def)

definition withdraws :: "string \<Rightarrow> 't sched_event \<Rightarrow> bool" where
  "withdraws scope e = (case e of SCancel scope' \<Rightarrow> scope' = scope | SClear \<Rightarrow> True | _ \<Rightarrow> False)"

lemma newest_kept:
  assumes "sched_inv s" "runsOf scope s = []" "\<not> list_ex (withdraws scope) evs" "enqueuedOf scope evs \<noteq> []"
  shows "runsOf scope (schedRun evs s) \<noteq> [] \<and> last (runsOf scope (schedRun evs s)) = last (enqueuedOf scope evs)"
  using assms(3,4)
proof (induction evs rule: rev_induct)
  case (snoc e evs)
  have inv: "sched_inv (schedRun evs s)" by (rule schedRun_inv [OF assms(1)])
  show ?case
  proof (cases "enqueuedOf scope evs = []")
    case False
    then show ?thesis using snoc
      by (cases e) (auto simp: enqueuedOf_snoc enqueue_runsOf [OF inv] other_runsOf drain_runsOf [OF inv] withdraws_def)
  next
    case True
    then obtain task where "e = SEnqueue scope task" using snoc.prems(2) by (cases e) (auto simp: enqueuedOf_snoc split: if_splits)
    with True show ?thesis by (simp add: enqueuedOf_snoc enqueue_runsOf [OF inv])
  qed
qed (simp add: enqueuedOf_def)

lemma runsOf_new: "runsOf scope (newScheduler m) = []"
  by (simp add: runsOf_def startedOf_def waitingOf_def newScheduler_def)

text \<open>
  C18.  \<open>LatestPerScopeScheduler\<close> under every sequence of enqueue, cancel, clear and completion
  steps: no scope has two running tasks, at most \<open>maxConcurrent\<close> tasks run and \<open>activeCount\<close> is
  their number; the tasks of a scope start in the order in which they were enqueued, each at most
  once; and as long as nothing withdraws the scope's tasks, the newest one enqueued is the last
  one started or is the one waiting (only older ones are dropped).
\<close>

theorem scheduler_safe:
  "sched_inv (schedRun evs (newScheduler m))
   \<and> subseq (runsOf scope (schedRun evs (newScheduler m))) (enqueuedOf scope evs)
   \<and> (list_ex (withdraws scope) evs \<or> enqueuedOf scope evs = []
      \<or> runsOf scope (schedRun evs (newScheduler m)) \<noteq> []
        \<and> last (runsOf scope (schedRun evs (newScheduler m))) = last (enqueuedOf scope evs))"
  using schedRun_inv [OF sched_inv_new] runs_in_order [OF sched_inv_new runsOf_new] newest_kept [OF sched_inv_new runsOf_new] by blast

subsection \<open>Every waiting task is started\<close>

text \<open>One completion: the \<open>finally\<close> block of the \<open>i\<close>-th running chain.\<close>

definition completeNth :: "nat \<Rightarrow> 't sched \<Rightarrow> 't sched" where
  "completeNth i s = drain (snd (schedRelease (run_id (sc_running s ! i)) s))"

fun completeAll :: "(nat \<Rightarrow> nat) \<Rightarrow> nat \<Rightarrow> 't sched \<Rightarrow> 't sched" where
  "completeAll pick 0 s = s"
| "completeAll pick (Suc n) s =
     (if sc_running s = [] then s else completeAll pick n (completeNth (pick n mod length (sc_running s)) s))"

definition workload :: "'t sched \<Rightarrow> nat" where
  "workload s = length (sc_running s) + length (sc_pendingByScope s)"

lemma length_map_delete: "map_wf m \<Longrightarrow> (k, v) \<in> set m \<Longrightarrow> length (map_delete k m) = length m - 1"
proof -
  assume wf: "map_wf m" and mem: "(k, v) \<in> set m"
  obtain us vs where m: "m = us @ (k, v) # vs" using split_list [OF mem] by blast
  with wf have "filter (\<lambda>x. fst x \<noteq> k) us = us" "filter (\<lambda>x. fst x \<noteq> k) vs = vs"
    by (auto simp: filter_id_conv image_iff)
  then show ?thesis by (simp add: m map_delete_filter)
qed

lemma drain_workload: "sched_inv s \<Longrightarrow> workload (drain s) = workload s"
proof (induction s rule: drain_induct)
  case (1 s)
  show ?case
  proof (cases rule: drain_cases [of s])
    case (3 scope task s')
    note np = nextPending_Some [OF 3(2)]
    have "length (sc_pendingByScope s) \<noteq> 0" using np(1) by auto
    then have "workload (launch scope task s') = workload s"
      using np length_map_delete [of "sc_pendingByScope s" scope task] "1.prems"
      by (simp add: workload_def launch_def Let_def sched_inv_def)
    then show ?thesis using 3 1 by (simp add: launch_next_inv)
  qed simp_all
qed

lemma completeNth_inv: "sched_inv s \<Longrightarrow> sched_inv (completeNth i s)"
  by (simp add: completeNth_def inv_intros)

lemma completeNth_workload:
  assumes "sched_inv s" "i < length (sc_running s)"
  shows "workload (completeNth i s) = workload s - 1" "0 < workload s"
proof -
  define r where "r = sc_running s ! i"
  obtain us vs where "sc_running s = us @ r # vs"
    "snd (schedRelease (run_id r) s)
       = s\<lparr>sc_activeCount := int (length (us @ vs)), sc_activeScopes := map run_scope (us @ vs), sc_running := us @ vs\<rparr>"
    using release_split [OF assms(1) nth_mem [OF assms(2)]] unfolding r_def by (metis snd_conv)
  then have "workload (snd (schedRelease (run_id (sc_running s ! i)) s)) = workload s - 1"
    unfolding r_def [symmetric] by (simp add: workload_def)
  then show "workload (completeNth i s) = workload s - 1"
    by (simp add: completeNth_def drain_workload schedRelease_inv assms(1))
  show "0 < workload s" using assms(2) by (cases "sc_running s") (auto simp: workload_def)
qed

lemma settled_idle:
  assumes "sched_inv s" "settled s" "sc_running s = []" "hasSlot s"
  shows "sc_pendingByScope s = []"
  using assms by (cases "sc_pendingByScope s") (auto simp: settled_def sched_inv_def)

lemma maxConcurrent_drain [simp]: "sc_maxConcurrent (drain s) = sc_maxConcurrent s"
proof (induction s rule: drain_induct)
  case (1 s)
  show ?case
  proof (cases rule: drain_cases [of s])
    case (3 scope task s')
    then show ?thesis using 1 [OF 3(1,2)] nextPending_Some(3) [OF 3(2)] by (simp add: launch_def Let_def)
  qed simp_all
qed

lemma maxConcurrent_completeNth [simp]: "sc_maxConcurrent (completeNth i s) = sc_maxConcurrent s"
  by (simp add: completeNth_def schedRelease_def split: option.split)

lemma maxConcurrent_run [simp]: "sc_maxConcurrent (schedRun evs s) = sc_maxConcurrent s"
proof (induction evs rule: rev_induct)
  case (snoc e evs)
  then show ?case
    by (cases e) (auto simp: schedEnqueue_def schedCancel_def schedClear_def schedRelease_def split: option.split)
qed simp

lemma completeAll_idle:
  assumes "sched_inv s" "settled s" "js_lt (Fin 0) (sc_maxConcurrent s)" "workload s \<le> n"
  shows "sc_running (completeAll pick n s) = [] \<and> sc_pendingByScope (completeAll pick n s) = []
    \<and> runsOf scope (completeAll pick n s) = runsOf scope s"
  using assms
proof (induction pick n s rule: completeAll.induct)
  case (1 pick s)
  then show ?case by (simp add: workload_def)
next
  case (2 pick n s)
  show ?case
  proof (cases "sc_running s = []")
    case True
    then have "hasSlot s" using "2.prems" by (simp add: hasSlot_def sched_inv_def)
    then show ?thesis using settled_idle "2.prems" True by auto
  next
    case False
    define i where "i = pick n mod length (sc_running s)"
    have i: "i < length (sc_running s)" using False by (simp add: i_def)
    have "runsOf scope (completeNth i s) = runsOf scope s"
      by (simp add: completeNth_def drain_runsOf schedRelease_inv "2.prems"(1) other_runsOf)
    then show ?thesis
      using "2.IH" [OF False] "2.prems" completeNth_workload [OF "2.prems"(1) i] False
      by (simp add: completeNth_inv drain_settled completeNth_def [of _ s, THEN arg_cong, of settled] flip: i_def)
  qed
qed

text \<open>
  C26.  No task waits for ever: whatever has happened since the scheduler was created with a limit
  that is a number, once the running chains complete (in any order, and no new calls arrive) every
  waiting task has been started, after as many completions as there are running and waiting tasks,
  and the scheduler is idle.
\<close>

theorem scheduler_drains:
  assumes "m \<noteq> NaN"
  shows "(let s = drain (schedRun evs (newScheduler m)); s' = completeAll pick (workload s) s
    in sc_running s' = [] \<and> sc_pendingByScope s' = [] \<and> startedOf scope s' = runsOf scope (schedRun evs (newScheduler m)))"
proof -
  let ?r = "schedRun evs (newScheduler m)"
  have inv: "sched_inv ?r" by (rule schedRun_inv [OF sched_inv_new])
  have "js_lt (Fin 0) (sc_maxConcurrent (newScheduler m))"
    using assms by (cases m) (auto simp: newScheduler_def js_lt_def js_max_def js_floor_def max_def less_jsnum_def)
  then have "js_lt (Fin 0) (sc_maxConcurrent (drain ?r))" by simp
  note idle = completeAll_idle [OF drain_inv [OF inv] drain_settled this order_refl, of pick scope]
  then show ?thesis
    using drain_runsOf [OF inv, of scope] by (auto simp: Let_def runsOf_def [of _ "completeAll _ _ _"] waitingOf_def)
qed

lemma scheduler_drains_witness:
  "(let s = drain (schedRun [SEnqueue ''a'' True, SEnqueue ''a'' False, SEnqueue ''b'' True] (newScheduler (Fin 1)))
    in sc_pendingByScope (completeAll id (workload s) s) = [] \<and> workload s = 3
       \<and> startedOf ''a'' (completeAll id (workload s) s) = [True, False])"
proof -
  have "schedRun [SEnqueue ''a'' True, SEnqueue ''a'' False, SEnqueue ''b'' True] (newScheduler (Fin 1))
    = \<lparr>sc_activeScopes = [''a''], sc_pendingByScope = [(''a'', False), (''b'', True)], sc_maxConcurrent = Fin 1, sc_activeCount = 1,
       sc_generation = 0, sc_running = [\<lparr>run_id = 0, run_scope = ''a'', run_task = True, run_generation = 0\<rparr>],
       sc_started = [\<lparr>run_id = 0, run_scope = ''a'', run_task = True, run_generation = 0\<rparr>]\<rparr>"
    (is "?r = ?s") by code_simp
  moreover have "drain ?s = ?s" by code_simp
  moreover have "workload ?s = 3" "runsOf ''a'' ?s = [True, False]" by code_simp+
  ultimately show ?thesis
    using scheduler_drains [of "Fin 1" "[SEnqueue ''a'' True, SEnqueue ''a'' False, SEnqueue ''b'' True]" id "''a''"]
    by (simp add: Let_def)
qed

subsection \<open>The record of started chains\<close>

text \<open>A running chain is the entry of \<open>sc_started\<close> at its number; the record only grows, and every task in it was enqueued.\<close>

definition sched_log :: "'t sched \<Rightarrow> bool" where
  "sched_log s \<longleftrightarrow> list_all (\<lambda>r. run_id r < length (sc_started s) \<and> sc_started s ! run_id r = r) (sc_running s)"

definition sched_all :: "('t \<Rightarrow> bool) \<Rightarrow> 't sched \<Rightarrow> bool" where
  "sched_all P s \<longleftrightarrow> list_all (\<lambda>r. P (run_task r)) (sc_started s) \<and> list_all (\<lambda>e. P (snd e)) (sc_pendingByScope s)"

definition extends :: "'t sched \<Rightarrow> 't sched \<Rightarrow> bool" where
  "extends s s' \<longleftrightarrow> prefix (sc_started s) (sc_started s') \<and> (sched_log s \<longrightarrow> sched_log s') \<and> (\<forall>P. sched_all P s \<longrightarrow> sched_all P s')"

lemma extends_trans: "extends s t \<Longrightarrow> extends t u \<Longrightarrow> extends s u"
  unfolding extends_def using prefix_order.order_trans by blast

lemma list_all_map_delete: "list_all (\<lambda>e. P (snd e)) m \<Longrightarrow> list_all (\<lambda>e. P (snd e)) (map_delete k m)"
  by (auto simp: map_delete_filter list_all_iff)

lemma launch_extends:
  assumes "nextPending s = Some ((scope, task), s')"
  shows "extends s (launch scope task s')"
  using nextPending_Some [OF assms]
  by (auto simp: extends_def sched_log_def sched_all_def launch_def Let_def nth_append list_all_iff map_delete_filter)

lemma drain_extends: "extends s (drain s)"
proof (induction s rule: drain_induct)
  case (1 s)
  show ?case
  proof (cases rule: drain_cases [of s])
    case (3 scope task s')
    then show ?thesis using 1 [OF 3(1,2)] launch_extends [OF 3(2)] extends_trans by metis
  qed (simp_all add: extends_def)
qed

lemma cancel_extends: "extends s (snd (schedCancel scope s))"
  by (auto simp: extends_def schedCancel_def sched_log_def sched_all_def list_all_map_delete)

lemma clear_extends: "extends s (schedClear s)"
  by (auto simp: extends_def schedClear_def sched_log_def sched_all_def)

lemma release_extends: "extends s (snd (schedRelease n s))"
  by (auto simp: extends_def schedRelease_def sched_log_def sched_all_def list_all_iff split: option.split)

lemma enqueue_extends:
  assumes "P task" "sched_all P s"
  shows "sched_all P (snd (schedEnqueue scope task s))"
proof -
  let ?m = "map_set scope task (map_delete scope (sc_pendingByScope s))"
  have "?m = map_delete scope (sc_pendingByScope s) @ [(scope, task)]"
    by (rule alist_update_fresh) (simp add: delete_conv')
  then have "sched_all P (s\<lparr>sc_pendingByScope := ?m\<rparr>)"
    using assms by (auto simp: sched_all_def list_all_map_delete)
  then show ?thesis using drain_extends unfolding schedEnqueue_def extends_def snd_conv by blast
qed

lemma enqueue_log:
  "prefix (sc_started s) (sc_started (snd (schedEnqueue scope task s)))" "sched_log s \<Longrightarrow> sched_log (snd (schedEnqueue scope task s))"
  using drain_extends [of "s\<lparr>sc_pendingByScope := map_set scope task (map_delete scope (sc_pendingByScope s))\<rparr>"]
  by (auto simp: schedEnqueue_def extends_def sched_log_def)

text \<open>Starting more chains does not disturb the running ones.\<close>

lemma drain_running: "prefix (sc_running s) (sc_running (drain s))"
proof (induction s rule: drain_induct)
  case (1 s)
  show ?case
  proof (cases rule: drain_cases [of s])
    case (3 scope task s')
    have "prefix (sc_running s) (sc_running (launch scope task s'))"
      using nextPending_Some(3) [OF 3(2)] by (simp add: launch_def Let_def)
    then show ?thesis using 1 [OF 3(1,2)] 3(3) prefix_order.order_trans by metis
  qed simp_all
qed

lemma enqueue_running: "prefix (sc_running s) (sc_running (snd (schedEnqueue scope task s)))"
  using drain_running [of "s\<lparr>sc_pendingByScope := map_set scope task (map_delete scope (sc_pendingByScope s))\<rparr>"]
  by (simp add: schedEnqueue_def)

lemma find_prefix: "prefix xs ys \<Longrightarrow> find P xs = Some x \<Longrightarrow> find P ys = Some x"
proof (induction xs arbitrary: ys)
  case (Cons a xs) then show ?case by (cases ys) (auto split: if_splits)
qed simp

end
