(* ===== verification/IndicatorRuntime.thy ===== *)
theory IndicatorRuntime
  imports IndicatorPolicy RuntimeScheduler
begin

section \<open>The indicator runtime cache\<close>

text \<open>
  Models the stateful part of \<open>services/indicatorRuntimeCache.ts\<close>: requests for indicator results, their life in the scheduler,
  the warm-up history they wait for, the answers of the runtime service, failures, cancellation and the reads of the chart.  The
  scheduler and the result cache are those of the theory \<open>RuntimeScheduler\<close>; keys and candle windows are in \<open>IndicatorPolicy\<close>.

  A call of \<open>executeRuntimeRequest\<close> is identified by the number \<open>n\<close> of its scheduler chain; the promise, the abort controller and
  (if this call requests one) the history promise it creates have the same number.  Between two \<open>await\<close>s a call is in a
  \<open>run_phase\<close>; every continuation is a step, so that the steps of several calls interleave freely.  The history service, the
  definition service and the runtime service are outside: a step receives what they answer.  \<open>rt_answers\<close> and
  \<open>rt_historyRequests\<close> record what was sent and answered; the code does not read them.
\<close>

subsection \<open>State\<close>

definition MAX_ENTRIES :: nat where "MAX_ENTRIES = 64"
definition MAX_HISTORY_CONTEXT_ENTRIES :: nat where "MAX_HISTORY_CONTEXT_ENTRIES = 24"
definition MAX_CONCURRENT_RUNTIME_REQUESTS :: nat where "MAX_CONCURRENT_RUNTIME_REQUESTS = 4"
definition FAILURE_RETRY_MS :: int where "FAILURE_RETRY_MS = 15000"

record 'a latest_result =
  lr_result :: "'a indicator_result"
  lr_replaySessionId :: "string option"
  lr_replayCutoff :: "jsnum option"

record runtime_request =
  rq_config :: indicator_config
  rq_candles :: "market_candle list"
  rq_context :: "runtime_context option"
  rq_runtimeKey :: string
  rq_scope :: string
  rq_requestGeneration :: nat

datatype run_phase =
    Checking                              \<comment> \<open>awaits \<open>requiresHistoryContext\<close>\<close>
  | AwaitHistory nat                      \<comment> \<open>awaits the history promise of this number\<close>
  | Computing "market_candle list"        \<comment> \<open>the candles were resolved; awaits the runtime service\<close>
  | AbortedHistory                        \<comment> \<open>\<open>resolveRuntimeCandles\<close> threw the \<open>AbortError\<close>\<close>
  | Answered                              \<comment> \<open>the \<open>then\<close> or \<open>catch\<close> block has run, the \<open>finally\<close> block has not\<close>
  | Finished                              \<comment> \<open>the promise is settled; the scheduler has not noticed\<close>

text \<open>
  The history cache is keyed by the JSON text of scope, symbol, timeframe and limit, which \<open>invalidateIndicatorHistoryContext\<close>
  parses back: the key is the tuple itself.
\<close>

type_synonym history_key = "string \<times> string \<times> string \<times> nat"

datatype history_outcome = HistoryLoaded "market_candle list" | HistoryFailed

record history_request =
  hr_key :: history_key
  hr_before :: "jsnum option"

record 'a answer =
  an_run :: nat
  an_request :: runtime_request
  an_candles :: "market_candle list"
  an_result :: "'a indicator_result"

record 'a runtime =
  rt_cache :: "'a indicator_result scoped_lru"
  rt_inflight :: "(string, nat) js_map"
  rt_failedAt :: "(string, int) js_map"
  rt_historyContextCache :: "(history_key, nat) js_map"
  rt_latestByScope :: "(string, 'a latest_result) js_map"
  rt_scheduledKeys :: "string list"
  rt_abortControllers :: "(string, nat) js_map"
  rt_runtimeScopeByKey :: "(string, string) js_map"
  rt_retainedScopeRefs :: "(string, nat) js_map"
  rt_generation :: nat
  rt_scheduler :: "runtime_request sched"
  rt_liveHistoryVersions :: history_versions
  rt_aborted :: "nat list"
  rt_phases :: "(nat, run_phase) js_map"
  rt_historyRequests :: "(nat, history_request) js_map"
  rt_historyOutcomes :: "(nat, history_outcome) js_map"
  rt_retryTimers :: "(string \<times> int \<times> nat) list"
  rt_releaseHandles :: "(string list \<times> bool) list"
  rt_notified :: "string option list"
  rt_answers :: "'a answer list"

definition newRuntime :: "'a runtime" where
  "newRuntime =
     \<lparr>rt_cache = lruEmpty, rt_inflight = [], rt_failedAt = [], rt_historyContextCache = [], rt_latestByScope = [],
      rt_scheduledKeys = [], rt_abortControllers = [], rt_runtimeScopeByKey = [], rt_retainedScopeRefs = [], rt_generation = 0,
      rt_scheduler = newScheduler (Fin (of_nat MAX_CONCURRENT_RUNTIME_REQUESTS)), rt_liveHistoryVersions = [], rt_aborted = [],
      rt_phases = [], rt_historyRequests = [], rt_historyOutcomes = [], rt_retryTimers = [], rt_releaseHandles = [],
      rt_notified = [], rt_answers = []\<rparr>"

subsection \<open>Bounded maps, notifications, failures\<close>

text \<open>\<open>while (map.size > limit) { oldest = map.keys().next().value; if (!oldest) break; map.delete(oldest); }\<close>\<close>

function evictOldest :: "('k \<Rightarrow> bool) \<Rightarrow> nat \<Rightarrow> ('k, 'v) js_map \<Rightarrow> ('k, 'v) js_map" where
  "evictOldest falsy limit m =
     (if limit < length m then
        (case m of
           [] \<Rightarrow> m
         | (oldest, _) # _ \<Rightarrow> if falsy oldest then m else evictOldest falsy limit (map_delete oldest m))
      else m)"
  by pat_completeness auto
termination
  by (relation "measure (\<lambda>(falsy, limit, m). length m)") (auto simp: map_delete_filter le_imp_less_Suc)

declare evictOldest.simps [simp del]

definition notify :: "string option \<Rightarrow> 'a runtime \<Rightarrow> 'a runtime" where
  "notify scope rt = rt\<lparr>rt_notified := rt_notified rt @ [scope]\<rparr>"

definition rememberFailure :: "int \<Rightarrow> string \<Rightarrow> nat \<Rightarrow> 'a runtime \<Rightarrow> 'a runtime" where
  "rememberFailure now scope requestGeneration rt =
     rt\<lparr>rt_failedAt := evictOldest (\<lambda>k. k = []) MAX_ENTRIES (map_set scope now (map_delete scope (rt_failedAt rt))),
        rt_retryTimers := rt_retryTimers rt @ [(scope, now, requestGeneration)]\<rparr>"

text \<open>The callback that \<open>rememberFailure\<close> passes to \<open>setTimeout\<close>, for the \<open>i\<close>-th timer.\<close>

definition retryTimer :: "nat \<Rightarrow> 'a runtime \<Rightarrow> 'a runtime" where
  "retryTimer i rt =
     (if i < length (rt_retryTimers rt) then
        (case rt_retryTimers rt ! i of (scope, timestamp, requestGeneration) \<Rightarrow>
           let rt1 = rt\<lparr>rt_retryTimers := take i (rt_retryTimers rt) @ drop (i + 1) (rt_retryTimers rt)\<rparr>
           in if requestGeneration \<noteq> rt_generation rt \<or> map_get (rt_failedAt rt) scope \<noteq> Some timestamp then rt1
              else notify (Some scope) (rt1\<lparr>rt_failedAt := map_delete scope (rt_failedAt rt)\<rparr>))
      else rt)"

definition touchResult :: "string \<Rightarrow> 'v \<Rightarrow> (string, 'v) js_map \<Rightarrow> (string, 'v) js_map" where
  "touchResult key result target = evictOldest (\<lambda>k. k = []) MAX_ENTRIES (map_set key result (map_delete key target))"

definition readResult :: "string \<Rightarrow> (string, 'v) js_map \<Rightarrow> 'v option \<times> (string, 'v) js_map" where
  "readResult key target =
     (case map_get target key of
        None \<Rightarrow> (None, target)
      | Some result \<Rightarrow> (Some result, map_set key result (map_delete key target)))"

subsection \<open>The candles a request is computed from\<close>

definition boundedCandles :: "runtime_request \<Rightarrow> market_candle list" where
  "boundedCandles rq =
     (case ctxCutoff (rq_context rq) of
        None \<Rightarrow> rq_candles rq
      | Some cutoff \<Rightarrow> filter (\<lambda>c. js_le (c_time c) cutoff) (rq_candles rq))"

definition requiresHistoryContext :: "indicator_config \<Rightarrow> bool option \<Rightarrow> bool" where
  "requiresHistoryContext config loaded =
     (case ic_requiresHistoryContext config of
        Some b \<Rightarrow> b
      | None \<Rightarrow> (case loaded of Some b \<Rightarrow> b | None \<Rightarrow> False))"

definition isReplayRequest :: "runtime_request \<Rightarrow> bool" where
  "isReplayRequest rq \<longleftrightarrow> ctxSession (rq_context rq) \<noteq> None \<or> ctxCutoff (rq_context rq) \<noteq> None"

definition historyKey :: "(jsnum \<Rightarrow> string) \<Rightarrow> runtime_request \<Rightarrow> nat \<Rightarrow> history_key" where
  "historyKey numStr rq limit =
     ((case ctxSession (rq_context rq) of
         Some i \<Rightarrow> ''replay-session:'' @ i
       | None \<Rightarrow> (case ctxCutoff (rq_context rq) of None \<Rightarrow> ''live'' | Some x \<Rightarrow> ''replay-cutoff:'' @ numStr x)),
      ctxSymbol (rq_context rq), ctxTimeframe (rq_context rq), limit)"

definition setPhase :: "nat \<Rightarrow> run_phase \<Rightarrow> 'a runtime \<Rightarrow> 'a runtime" where
  "setPhase n p rt = rt\<lparr>rt_phases := map_set n p (rt_phases rt)\<rparr>"

definition loadHistoryContext ::
  "(jsnum \<Rightarrow> string) \<Rightarrow> nat \<Rightarrow> runtime_request \<Rightarrow> nat \<Rightarrow> jsnum option \<Rightarrow> 'a runtime \<Rightarrow> 'a runtime" where
  "loadHistoryContext numStr n rq limit replayBefore rt =
     (let key = historyKey numStr rq limit
      in case map_get (rt_historyContextCache rt) key of
           None \<Rightarrow>
             setPhase n (AwaitHistory n)
               (rt\<lparr>rt_historyContextCache :=
                     evictOldest (\<lambda>_. False) MAX_HISTORY_CONTEXT_ENTRIES (map_set key n (rt_historyContextCache rt)),
                   rt_historyRequests := map_set n \<lparr>hr_key = key, hr_before = replayBefore\<rparr> (rt_historyRequests rt)\<rparr>)
         | Some p \<Rightarrow>
             setPhase n (AwaitHistory p)
               (rt\<lparr>rt_historyContextCache := map_set key p (map_delete key (rt_historyContextCache rt))\<rparr>))"

text \<open>\<open>resolveRuntimeCandles\<close> after \<open>await requiresHistoryContext\<close>; \<open>loaded\<close> is the definition service's answer (\<open>None\<close>: it failed).\<close>

definition checkedHistory :: "(jsnum \<Rightarrow> string) \<Rightarrow> nat \<Rightarrow> runtime_request \<Rightarrow> bool option \<Rightarrow> 'a runtime \<Rightarrow> 'a runtime" where
  "checkedHistory numStr n rq loaded rt =
     (let bounded = boundedCandles rq; targetBars = historyBarsForTimeframe (ctxTimeframe (rq_context rq))
      in if \<not> requiresHistoryContext (rq_config rq) loaded \<or> ctxSymbol (rq_context rq) = [] \<or> ctxTimeframe (rq_context rq) = []
         then setPhase n (Computing bounded) rt
         else if targetBars \<le> length bounded then setPhase n (Computing bounded) rt
         else if isReplayRequest rq \<and> bounded = [] then setPhase n (Computing bounded) rt
         else loadHistoryContext numStr n rq targetBars
                (if isReplayRequest rq then Some (c_time (last bounded)) else None) rt)"

definition resolvedCandles :: "runtime_request \<Rightarrow> market_candle list \<Rightarrow> market_candle list" where
  "resolvedCandles rq history =
     (let merged = mergeCandles history (boundedCandles rq)
      in case ctxCutoff (rq_context rq) of
           None \<Rightarrow> merged
         | Some cutoff \<Rightarrow> filter (\<lambda>c. js_le (c_time c) cutoff) merged)"

text \<open>The continuation after \<open>await loadHistoryContext\<close>, with its \<open>catch\<close> block.\<close>

definition historyArrives :: "nat \<Rightarrow> runtime_request \<Rightarrow> history_outcome \<Rightarrow> 'a runtime \<Rightarrow> 'a runtime" where
  "historyArrives n rq outcome rt =
     (case outcome of
        HistoryLoaded history \<Rightarrow> setPhase n (Computing (resolvedCandles rq history)) rt
      | HistoryFailed \<Rightarrow>
          if n \<in> set (rt_aborted rt) then setPhase n AbortedHistory rt
          else setPhase n (Computing (boundedCandles rq)) rt)"

text \<open>The history promise \<open>p\<close> settles; when it fails, its own \<open>catch\<close> removes it from the cache.\<close>

definition historySettles :: "nat \<Rightarrow> history_outcome \<Rightarrow> 'a runtime \<Rightarrow> 'a runtime" where
  "historySettles p outcome rt =
     (case map_get (rt_historyRequests rt) p of
        None \<Rightarrow> rt
      | Some hr \<Rightarrow>
          if map_has (rt_historyOutcomes rt) p then rt
          else
            rt\<lparr>rt_historyOutcomes := map_set p outcome (rt_historyOutcomes rt),
               rt_historyContextCache :=
                 (if outcome = HistoryFailed \<and> map_get (rt_historyContextCache rt) (hr_key hr) = Some p
                  then map_delete (hr_key hr) (rt_historyContextCache rt) else rt_historyContextCache rt)\<rparr>)"

subsection \<open>\<open>executeRuntimeRequest\<close>\<close>

definition executeRuntimeRequest :: "nat \<Rightarrow> runtime_request \<Rightarrow> 'a runtime \<Rightarrow> 'a runtime" where
  "executeRuntimeRequest n rq rt =
     (if rq_requestGeneration rq \<noteq> rt_generation rt then
        setPhase n Finished (rt\<lparr>rt_scheduledKeys := removeAll (rq_runtimeKey rq) (rt_scheduledKeys rt)\<rparr>)
      else
        setPhase n
          (if ctxSession (rq_context rq) \<noteq> None \<and> ctxCutoff (rq_context rq) = None then Computing (boundedCandles rq) else Checking)
          (rt\<lparr>rt_abortControllers := map_set (rq_runtimeKey rq) n (rt_abortControllers rt),
              rt_runtimeScopeByKey := map_set (rq_runtimeKey rq) (rq_scope rq) (rt_runtimeScopeByKey rt),
              rt_inflight := map_set (rq_runtimeKey rq) n (rt_inflight rt)\<rparr>))"

datatype 'a response = Responds "string list" "'a indicator_result" | Rejects bool

text \<open>
  The \<open>then\<close> block for the response, or the \<open>catch\<close> block for a rejection (\<open>Rejects True\<close>: an \<open>AbortError\<close>).
  \<open>None\<close> means that the cache's eviction does not end.
\<close>

definition storeResult :: "nat \<Rightarrow> runtime_request \<Rightarrow> market_candle list \<Rightarrow> 'a indicator_result \<Rightarrow> 'a runtime \<Rightarrow> 'a runtime option" where
  "storeResult n rq candles raw rt =
     (let result = limitObjectSegments raw
      in map_option
           (\<lambda>cache.
              rt\<lparr>rt_failedAt := map_delete (rq_scope rq) (rt_failedAt rt),
                 rt_cache := cache,
                 rt_latestByScope :=
                   touchResult (rq_scope rq)
                     \<lparr>lr_result = result, lr_replaySessionId = ctxSession (rq_context rq), lr_replayCutoff = ctxCutoff (rq_context rq)\<rparr>
                     (rt_latestByScope rt),
                 rt_answers := rt_answers rt @ [\<lparr>an_run = n, an_request = rq, an_candles = runtimeCandles candles, an_result = raw\<rparr>]\<rparr>)
           (lruSet (Fin (of_nat MAX_ENTRIES)) (rq_runtimeKey rq) (rq_scope rq) result
              (Fin (of_nat (resultEntriesForScope (rq_context rq)))) (rt_cache rt)))"

definition answerRequest ::
  "int \<Rightarrow> nat \<Rightarrow> runtime_request \<Rightarrow> market_candle list \<Rightarrow> 'a response \<Rightarrow> 'a runtime \<Rightarrow> 'a runtime option" where
  "answerRequest now n rq candles response rt =
     map_option (setPhase n Answered)
       (case response of
          Responds errors raw \<Rightarrow>
            if rq_requestGeneration rq \<noteq> rt_generation rt then Some rt
            else if errors = [] then storeResult n rq candles raw rt
            else if n \<notin> set (rt_aborted rt) then Some (rememberFailure now (rq_scope rq) (rq_requestGeneration rq) rt)
            else Some rt
        | Rejects isAbort \<Rightarrow>
            if rq_requestGeneration rq = rt_generation rt \<and> n \<notin> set (rt_aborted rt) \<and> \<not> isAbort
            then Some (rememberFailure now (rq_scope rq) (rq_requestGeneration rq) rt) else Some rt)"

definition finishRequest :: "nat \<Rightarrow> runtime_request \<Rightarrow> 'a runtime \<Rightarrow> 'a runtime" where
  "finishRequest n rq rt =
     setPhase n Finished
       (rt\<lparr>rt_scheduledKeys := removeAll (rq_runtimeKey rq) (rt_scheduledKeys rt),
           rt_inflight := (if map_get (rt_inflight rt) (rq_runtimeKey rq) = Some n then map_delete (rq_runtimeKey rq) (rt_inflight rt)
                           else rt_inflight rt),
           rt_abortControllers := (if map_get (rt_abortControllers rt) (rq_runtimeKey rq) = Some n
                                   then map_delete (rq_runtimeKey rq) (rt_abortControllers rt) else rt_abortControllers rt),
           rt_runtimeScopeByKey := (if map_get (rt_runtimeScopeByKey rt) (rq_runtimeKey rq) = Some (rq_scope rq)
                                    then map_delete (rq_runtimeKey rq) (rt_runtimeScopeByKey rt) else rt_runtimeScopeByKey rt)\<rparr>)"

subsection \<open>What the chart calls\<close>

definition ensureIndicatorRuntimeResult ::
  "(jsnum \<Rightarrow> string) \<Rightarrow> (string \<Rightarrow> string \<Rightarrow> jsnum) \<Rightarrow> int \<Rightarrow> indicator_config \<Rightarrow> market_candle list \<Rightarrow> runtime_context option
   \<Rightarrow> 'a runtime \<Rightarrow> 'a runtime" where
  "ensureIndicatorRuntimeResult numStr cmp now config candles context rt =
     (if candles = [] then rt
      else if ctxSession context \<noteq> None \<and> ctxCutoff context = None then rt
      else
        let scope = indicatorRuntimeScopeKey numStr cmp (rt_liveHistoryVersions rt) config context
        in if (case map_get (rt_failedAt rt) scope of Some lastFailure \<Rightarrow> now - lastFailure < FAILURE_RETRY_MS | None \<Rightarrow> False) then rt
           else
             let rt1 = rt\<lparr>rt_failedAt := map_delete scope (rt_failedAt rt)\<rparr>;
                 runtimeKey = indicatorRuntimeCacheKey numStr cmp (rt_liveHistoryVersions rt) config candles context
             in if lruHas runtimeKey (rt_cache rt1) \<or> runtimeKey \<in> set (rt_scheduledKeys rt1) \<or> map_has (rt_inflight rt1) runtimeKey
                then rt1
                else
                  let rq = \<lparr>rq_config = config, rq_candles = candles, rq_context = context, rq_runtimeKey = runtimeKey,
                            rq_scope = scope, rq_requestGeneration = rt_generation rt1\<rparr>
                  in case schedEnqueue scope rq (rt_scheduler rt1) of (replaced, scheduler) \<Rightarrow>
                       rt1\<lparr>rt_scheduler := scheduler,
                           rt_scheduledKeys :=
                             (case replaced of
                                None \<Rightarrow> setAdd runtimeKey (rt_scheduledKeys rt1)
                              | Some old \<Rightarrow> removeAll (rq_runtimeKey old) (setAdd runtimeKey (rt_scheduledKeys rt1)))\<rparr>)"

definition cancelRuntimeScope :: "string \<Rightarrow> 'a runtime \<Rightarrow> 'a runtime" where
  "cancelRuntimeScope scope rt =
     (case schedCancel scope (rt_scheduler rt) of (pending, scheduler) \<Rightarrow>
        let keys = map fst (filter (\<lambda>(runtimeKey, runtimeScope). runtimeScope = scope) (rt_runtimeScopeByKey rt))
        in rt\<lparr>rt_scheduler := scheduler,
              rt_scheduledKeys :=
                (case pending of None \<Rightarrow> rt_scheduledKeys rt | Some rq \<Rightarrow> removeAll (rq_runtimeKey rq) (rt_scheduledKeys rt)),
              rt_aborted :=
                rt_aborted rt @ concat (map (\<lambda>k. case map_get (rt_abortControllers rt) k of Some n \<Rightarrow> [n] | None \<Rightarrow> []) keys),
              rt_failedAt := map_delete scope (rt_failedAt rt)\<rparr>)"

text \<open>\<open>retainIndicatorRuntimeScopes\<close> returns a function; it is the \<open>i\<close>-th release handle, with its \<open>released\<close> flag.\<close>

definition uniqueScopes :: "string list \<Rightarrow> string list" where
  "uniqueScopes scopes = fold setAdd scopes []"

definition retainIndicatorRuntimeScopes :: "string list \<Rightarrow> 'a runtime \<Rightarrow> 'a runtime" where
  "retainIndicatorRuntimeScopes scopes rt =
     (let retained = uniqueScopes scopes
      in rt\<lparr>rt_retainedScopeRefs :=
              fold (\<lambda>scope m. map_set scope ((case map_get m scope of Some k \<Rightarrow> k | None \<Rightarrow> 0) + 1) m) retained (rt_retainedScopeRefs rt),
            rt_releaseHandles := rt_releaseHandles rt @ [(retained, False)]\<rparr>)"

definition releaseScope :: "string \<Rightarrow> 'a runtime \<Rightarrow> 'a runtime" where
  "releaseScope scope rt =
     (let next = int (case map_get (rt_retainedScopeRefs rt) scope of Some k \<Rightarrow> k | None \<Rightarrow> 1) - 1
      in if 0 < next then rt\<lparr>rt_retainedScopeRefs := map_set scope (nat next) (rt_retainedScopeRefs rt)\<rparr>
         else cancelRuntimeScope scope (rt\<lparr>rt_retainedScopeRefs := map_delete scope (rt_retainedScopeRefs rt)\<rparr>))"

definition releaseHandle :: "nat \<Rightarrow> 'a runtime \<Rightarrow> 'a runtime" where
  "releaseHandle i rt =
     (if i < length (rt_releaseHandles rt) \<and> \<not> snd (rt_releaseHandles rt ! i) then
        let retained = fst (rt_releaseHandles rt ! i)
        in fold releaseScope retained (rt\<lparr>rt_releaseHandles := (rt_releaseHandles rt)[i := (retained, True)]\<rparr>)
      else rt)"

definition invalidateIndicatorHistoryContext :: "string \<Rightarrow> string \<Rightarrow> 'a runtime \<Rightarrow> 'a runtime" where
  "invalidateIndicatorHistoryContext symbol timeframe rt =
     (let normalizedSymbol = js_upper (js_trim symbol)
      in notify None
           (rt\<lparr>rt_liveHistoryVersions := snd (bumpLiveHistoryVersion symbol timeframe (rt_liveHistoryVersions rt)),
               rt_historyContextCache :=
                 filter (\<lambda>((scope, cachedSymbol, cachedTimeframe, limit), p).
                           \<not> (scope = ''live'' \<and> cachedSymbol = normalizedSymbol \<and> cachedTimeframe = timeframe))
                   (rt_historyContextCache rt)\<rparr>))"

definition optJStr :: "string option \<Rightarrow> json" where
  "optJStr x = (case x of None \<Rightarrow> JUndef | Some s \<Rightarrow> JStr s)"

definition optJNum :: "jsnum option \<Rightarrow> json" where
  "optJNum x = (case x of None \<Rightarrow> JUndef | Some y \<Rightarrow> JNum y)"

definition contextReplay :: "runtime_context option \<Rightarrow> json \<times> json" where
  "contextReplay context =
     (case context of None \<Rightarrow> (JUndef, JUndef) | Some c \<Rightarrow> (rc_replaySessionId c, rc_replayCutoff c))"

definition getCachedIndicatorRuntimeResult ::
  "(jsnum \<Rightarrow> string) \<Rightarrow> (string \<Rightarrow> string \<Rightarrow> jsnum) \<Rightarrow> indicator_config \<Rightarrow> market_candle list \<Rightarrow> runtime_context option
   \<Rightarrow> 'a runtime \<Rightarrow> 'a indicator_result option \<times> 'a runtime" where
  "getCachedIndicatorRuntimeResult numStr cmp config candles context rt =
     (case lruGet (indicatorRuntimeCacheKey numStr cmp (rt_liveHistoryVersions rt) config candles context) (rt_cache rt) of
        (Some exact, cache) \<Rightarrow> (Some exact, rt\<lparr>rt_cache := cache\<rparr>)
      | (None, cache) \<Rightarrow>
          (case readResult (indicatorRuntimeScopeKey numStr cmp (rt_liveHistoryVersions rt) config context) (rt_latestByScope rt) of
             (latest, latestByScope) \<Rightarrow>
               ((case latest of
                   None \<Rightarrow> None
                 | Some l \<Rightarrow>
                     if canUseLatestIndicatorRuntimeResult (contextReplay context)
                          (optJStr (lr_replaySessionId l), optJNum (lr_replayCutoff l))
                     then Some (lr_result l) else None),
                rt\<lparr>rt_cache := cache, rt_latestByScope := latestByScope\<rparr>)))"

definition computeIndicator ::
  "(jsnum \<Rightarrow> string) \<Rightarrow> (string \<Rightarrow> string \<Rightarrow> jsnum) \<Rightarrow> indicator_config \<Rightarrow> market_candle list \<Rightarrow> runtime_context option
   \<Rightarrow> 'a runtime \<Rightarrow> 'a indicator_result \<times> 'a runtime" where
  "computeIndicator numStr cmp config candles context rt =
     (case getCachedIndicatorRuntimeResult numStr cmp config candles context rt of
        (Some result, rt') \<Rightarrow> (result, rt')
      | (None, rt') \<Rightarrow> (\<lparr>ir_id = ic_id config, ir_series = [], ir_labels = None, ir_dashboard = None\<rparr>, rt'))"

definition clearIndicatorRuntimeCache :: "'a runtime \<Rightarrow> 'a runtime" where
  "clearIndicatorRuntimeCache rt =
     notify None
       (rt\<lparr>rt_generation := rt_generation rt + 1, rt_scheduler := schedClear (rt_scheduler rt),
           rt_aborted := rt_aborted rt @ map snd (rt_abortControllers rt), rt_abortControllers := [], rt_runtimeScopeByKey := [],
           rt_retainedScopeRefs := [], rt_scheduledKeys := [], rt_cache := lruClear (rt_cache rt), rt_inflight := [],
           rt_failedAt := [], rt_historyContextCache := [], rt_latestByScope := []\<rparr>)"

subsection \<open>Steps\<close>

datatype 'a runtime_event =
    EEnsure int indicator_config "market_candle list" "runtime_context option"
  | ERead indicator_config "market_candle list" "runtime_context option"
  | ERetain "string list" | EReleaseHandle nat | EInvalidate string string | EClear
  | EExecute nat | EChecked nat "bool option" | EHistorySettles nat history_outcome | EHistoryArrives nat
  | EAnswer int nat "'a response" | EFinish nat | ESettled nat | EDrain | ERetryTimer nat

definition runningRequest :: "nat \<Rightarrow> 'a runtime \<Rightarrow> runtime_request option" where
  "runningRequest n rt = map_option run_task (find (\<lambda>r. run_id r = n) (sc_running (rt_scheduler rt)))"

text \<open>A continuation runs only in its phase; otherwise the event does nothing.\<close>

definition runtimeStep ::
  "(jsnum \<Rightarrow> string) \<Rightarrow> (string \<Rightarrow> string \<Rightarrow> jsnum) \<Rightarrow> 'a runtime_event \<Rightarrow> 'a runtime \<Rightarrow> 'a runtime option" where
  "runtimeStep numStr cmp e rt =
     (case e of
        EEnsure now config candles context \<Rightarrow> Some (ensureIndicatorRuntimeResult numStr cmp now config candles context rt)
      | ERead config candles context \<Rightarrow> Some (snd (getCachedIndicatorRuntimeResult numStr cmp config candles context rt))
      | ERetain scopes \<Rightarrow> Some (retainIndicatorRuntimeScopes scopes rt)
      | EReleaseHandle i \<Rightarrow> Some (releaseHandle i rt)
      | EInvalidate symbol timeframe \<Rightarrow> Some (invalidateIndicatorHistoryContext symbol timeframe rt)
      | EClear \<Rightarrow> Some (clearIndicatorRuntimeCache rt)
      | EExecute n \<Rightarrow>
          (case (runningRequest n rt, map_get (rt_phases rt) n) of
             (Some rq, None) \<Rightarrow> Some (executeRuntimeRequest n rq rt) | _ \<Rightarrow> Some rt)
      | EChecked n loaded \<Rightarrow>
          (case (runningRequest n rt, map_get (rt_phases rt) n) of
             (Some rq, Some Checking) \<Rightarrow> Some (checkedHistory numStr n rq loaded rt) | _ \<Rightarrow> Some rt)
      | EHistorySettles p outcome \<Rightarrow> Some (historySettles p outcome rt)
      | EHistoryArrives n \<Rightarrow>
          (case (runningRequest n rt, map_get (rt_phases rt) n) of
             (Some rq, Some (AwaitHistory p)) \<Rightarrow>
               (case map_get (rt_historyOutcomes rt) p of
                  Some outcome \<Rightarrow> Some (historyArrives n rq outcome rt) | None \<Rightarrow> Some rt)
           | _ \<Rightarrow> Some rt)
      | EAnswer now n response \<Rightarrow>
          (case (runningRequest n rt, map_get (rt_phases rt) n) of
             (Some rq, Some (Computing candles)) \<Rightarrow> answerRequest now n rq candles response rt
           | (Some rq, Some AbortedHistory) \<Rightarrow> answerRequest now n rq [] (Rejects True) rt
           | _ \<Rightarrow> Some rt)
      | EFinish n \<Rightarrow>
          (case (runningRequest n rt, map_get (rt_phases rt) n) of
             (Some rq, Some Answered) \<Rightarrow> Some (finishRequest n rq rt) | _ \<Rightarrow> Some rt)
      | ESettled n \<Rightarrow>
          (if map_get (rt_phases rt) n = Some Finished then
             (case schedRelease n (rt_scheduler rt) of (task, scheduler) \<Rightarrow>
                let rt1 = rt\<lparr>rt_scheduler := scheduler\<rparr>
                in Some (case task of None \<Rightarrow> rt1 | Some rq \<Rightarrow> notify (Some (rq_scope rq)) rt1))
           else Some rt)
      | EDrain \<Rightarrow> Some (rt\<lparr>rt_scheduler := drain (rt_scheduler rt)\<rparr>)
      | ERetryTimer i \<Rightarrow> Some (retryTimer i rt))"

fun runtimeRun :: "(jsnum \<Rightarrow> string) \<Rightarrow> (string \<Rightarrow> string \<Rightarrow> jsnum) \<Rightarrow> 'a runtime_event list \<Rightarrow> 'a runtime \<Rightarrow> 'a runtime option" where
  "runtimeRun numStr cmp [] rt = Some rt"
| "runtimeRun numStr cmp (e # es) rt = Option.bind (runtimeStep numStr cmp e rt) (runtimeRun numStr cmp es)"

subsection \<open>The invariant\<close>

text \<open>A request's keys are the keys of its own data, at some history version, and a Replay session comes with a cutoff.\<close>

definition rq_ok :: "(jsnum \<Rightarrow> string) \<Rightarrow> (string \<Rightarrow> string \<Rightarrow> jsnum) \<Rightarrow> runtime_request \<Rightarrow> bool" where
  "rq_ok numStr cmp rq \<longleftrightarrow>
     (\<exists>versions. rq_scope rq = indicatorRuntimeScopeKey numStr cmp versions (rq_config rq) (rq_context rq)
        \<and> rq_runtimeKey rq = indicatorRuntimeCacheKey numStr cmp versions (rq_config rq) (rq_candles rq) (rq_context rq))
     \<and> (ctxSession (rq_context rq) = None \<or> ctxCutoff (rq_context rq) \<noteq> None)"

text \<open>Candles that a computation at the request's cutoff may see.\<close>

definition causal :: "runtime_request \<Rightarrow> market_candle list \<Rightarrow> bool" where
  "causal rq cs \<longleftrightarrow> (case ctxCutoff (rq_context rq) of None \<Rightarrow> True | Some cutoff \<Rightarrow> list_all (\<lambda>c. js_le (c_time c) cutoff) cs)"

definition answer_ok :: "(jsnum \<Rightarrow> string) \<Rightarrow> (string \<Rightarrow> string \<Rightarrow> jsnum) \<Rightarrow> 'a answer \<Rightarrow> bool" where
  "answer_ok numStr cmp a \<longleftrightarrow> rq_ok numStr cmp (an_request a) \<and> causal (an_request a) (an_candles a)"

definition phase_ok :: "runtime_request sched \<Rightarrow> nat \<times> run_phase \<Rightarrow> bool" where
  "phase_ok s e \<longleftrightarrow> fst e < length (sc_started s)
     \<and> (case snd e of Computing cs \<Rightarrow> causal (run_task (sc_started s ! fst e)) cs | _ \<Rightarrow> True)"

definition cached_from :: "nat \<Rightarrow> 'a answer list \<Rightarrow> string \<times> string \<times> 'a indicator_result \<Rightarrow> bool" where
  "cached_from generation answers e \<longleftrightarrow>
     list_ex (\<lambda>a. rq_runtimeKey (an_request a) = fst e \<and> limitObjectSegments (an_result a) = snd (snd e)
                \<and> rq_requestGeneration (an_request a) = generation) answers"

definition latest_from :: "nat \<Rightarrow> 'a answer list \<Rightarrow> string \<times> 'a latest_result \<Rightarrow> bool" where
  "latest_from generation answers e \<longleftrightarrow>
     list_ex (\<lambda>a. rq_scope (an_request a) = fst e \<and> limitObjectSegments (an_result a) = lr_result (snd e)
                \<and> ctxSession (rq_context (an_request a)) = lr_replaySessionId (snd e)
                \<and> ctxCutoff (rq_context (an_request a)) = lr_replayCutoff (snd e)
                \<and> rq_requestGeneration (an_request a) = generation) answers"

definition rt_inv :: "(jsnum \<Rightarrow> string) \<Rightarrow> (string \<Rightarrow> string \<Rightarrow> jsnum) \<Rightarrow> 'a runtime \<Rightarrow> bool" where
  "rt_inv numStr cmp rt \<longleftrightarrow>
     sched_inv (rt_scheduler rt) \<and> sched_log (rt_scheduler rt) \<and> sched_all (rq_ok numStr cmp) (rt_scheduler rt)
     \<and> lru_inv (rt_cache rt) \<and> length (lru_entries (rt_cache rt)) \<le> MAX_ENTRIES \<and> list_all (phase_ok (rt_scheduler rt)) (rt_phases rt)
     \<and> list_all (answer_ok numStr cmp) (rt_answers rt)
     \<and> list_all (cached_from (rt_generation rt) (rt_answers rt)) (lru_entries (rt_cache rt))
     \<and> list_all (latest_from (rt_generation rt) (rt_answers rt)) (rt_latestByScope rt)"

lemma rt_inv_new [inv_intros]: "rt_inv numStr cmp newRuntime"
  by (simp add: rt_inv_def newRuntime_def inv_intros sched_log_def sched_all_def)
    (simp add: newScheduler_def)

text \<open>Steps that touch only fields the invariant does not read.\<close>

lemma rt_inv_frame:
  assumes "rt_inv numStr cmp rt"
    and "rt_scheduler rt' = rt_scheduler rt" "rt_cache rt' = rt_cache rt" "rt_phases rt' = rt_phases rt"
    and "rt_answers rt' = rt_answers rt" "rt_latestByScope rt' = rt_latestByScope rt" "rt_generation rt' = rt_generation rt"
  shows "rt_inv numStr cmp rt'"
  using assms by (simp add: rt_inv_def)

lemma phase_ok_mono: "phase_ok s e \<Longrightarrow> prefix (sc_started s) (sc_started s') \<Longrightarrow> phase_ok s' e"
  by (auto simp: phase_ok_def prefix_def nth_append split: run_phase.splits)

lemma rt_inv_scheduler:
  assumes "rt_inv numStr cmp rt" "sched_inv s" "sched_log s" "sched_all (rq_ok numStr cmp) s"
    and "prefix (sc_started (rt_scheduler rt)) (sc_started s)"
  shows "rt_inv numStr cmp (rt\<lparr>rt_scheduler := s\<rparr>)"
  using assms phase_ok_mono [OF _ assms(5)] by (auto simp: rt_inv_def list_all_iff)

lemma rt_inv_extends:
  assumes "rt_inv numStr cmp rt" "sched_inv s" "extends (rt_scheduler rt) s"
  shows "rt_inv numStr cmp (rt\<lparr>rt_scheduler := s\<rparr>)"
  using assms by (intro rt_inv_scheduler) (auto simp: rt_inv_def extends_def)

lemma list_all_map_set: "list_all P m \<Longrightarrow> P (k, v) \<Longrightarrow> list_all P (map_set k v m)"
proof (induction m)
  case (Cons e m)
  then show ?case by (cases e) auto
qed simp

lemma setPhase_inv:
  assumes "rt_inv numStr cmp rt" "phase_ok (rt_scheduler rt) (n, p)"
  shows "rt_inv numStr cmp (setPhase n p rt)"
  using assms by (simp add: rt_inv_def setPhase_def list_all_map_set)

lemma running_request:
  assumes "rt_inv numStr cmp rt" "runningRequest n rt = Some rq"
  shows "n < length (sc_started (rt_scheduler rt))" "run_task (sc_started (rt_scheduler rt) ! n) = rq" "rq_ok numStr cmp rq"
proof -
  obtain r where r: "r \<in> set (sc_running (rt_scheduler rt))" "run_id r = n" "run_task r = rq"
    using assms(2) by (auto simp: runningRequest_def dest!: iffD1 [OF find_Some_iff]) (metis nth_mem)
  have started: "n < length (sc_started (rt_scheduler rt)) \<and> sc_started (rt_scheduler rt) ! n = r"
    using assms(1) r by (auto simp: rt_inv_def sched_log_def list_all_iff)
  then show "n < length (sc_started (rt_scheduler rt))" "run_task (sc_started (rt_scheduler rt) ! n) = rq" using r by auto
  show "rq_ok numStr cmp rq"
    using assms(1) started r(3) nth_mem by (fastforce simp: rt_inv_def sched_all_def list_all_iff)
qed

lemma boundedCandles_causal: "causal rq (boundedCandles rq)"
  by (auto simp: causal_def boundedCandles_def list_all_iff split: option.split)

lemma resolvedCandles_causal: "causal rq (resolvedCandles rq history)"
  by (auto simp: causal_def resolvedCandles_def Let_def list_all_iff split: option.split)

lemma causal_Nil [simp]: "causal rq []"
  by (simp add: causal_def split: option.split)

lemma causal_subset: "causal rq cs \<Longrightarrow> set ds \<subseteq> set cs \<Longrightarrow> causal rq ds"
  by (auto simp: causal_def list_all_iff split: option.splits)

lemma runtimeCandles_subset: "set (runtimeCandles cs) \<subseteq> set cs"
  by (auto simp: runtimeCandles_def dest: in_set_dropD)

lemma evictOldest_Cons:
  "evictOldest falsy limit ((k, v) # m) =
     (if limit < Suc (length m) \<and> \<not> falsy k then evictOldest falsy limit (map_delete k m) else (k, v) # m)"
  by (simp add: evictOldest.simps [of falsy limit "(k, v) # m"])

lemma evictOldest_Nil: "evictOldest falsy limit [] = []"
  by (simp add: evictOldest.simps)

lemma set_evictOldest: "set (evictOldest falsy limit m) \<subseteq> set m"
proof (induction m rule: length_induct)
  case (1 m)
  show ?case
  proof (cases m)
    case (Cons e m')
    obtain k v where e: "e = (k, v)" by (cases e)
    have "length (map_delete k m') < length m" "set (map_delete k m') \<subseteq> set m'"
      using length_filter_le [of _ m'] by (auto simp: Cons map_delete_filter le_imp_less_Suc)
    then have "set (evictOldest falsy limit (map_delete k m')) \<subseteq> set m'" using 1 by blast
    then show ?thesis unfolding Cons e evictOldest_Cons by auto
  qed (simp add: evictOldest_Nil)
qed

lemma set_touchResult: "set (touchResult key result target) \<subseteq> insert (key, result) (set target)"
proof -
  have "map_set key result (map_delete key target) = map_delete key target @ [(key, result)]"
    by (rule alist_update_fresh) (simp add: delete_conv')
  then show ?thesis using set_evictOldest [of "\<lambda>k. k = []" MAX_ENTRIES "map_set key result (map_delete key target)"]
    by (auto simp: touchResult_def map_delete_filter)
qed

lemma set_readResult: "set (snd (readResult key target)) \<subseteq> set target"
proof (cases "map_get target key")
  case (Some v)
  have "map_set key v (map_delete key target) = map_delete key target @ [(key, v)]"
    by (rule alist_update_fresh) (simp add: delete_conv')
  then show ?thesis using Some by (auto simp: readResult_def map_delete_filter dest: map_of_SomeD)
qed (simp add: readResult_def)

lemma set_specGet: "set (snd (specGet key es)) \<subseteq> set es"
  by (auto simp: specGet_def dest: map_of_SomeD split: option.split)

lemma cacheKey_nonempty: "indicatorRuntimeCacheKey numStr cmp vs config candles context \<noteq> []"
  by (simp add: indicatorRuntimeCacheKey_def joinWith_def)

lemma specSet_bound: "length (specSet (Fin (of_nat MAX_ENTRIES)) key scope v ms es) \<le> MAX_ENTRIES"
proof -
  have "\<not> (64 :: rat) < of_nat (length (specSet (Fin 64) key scope v ms es))"
    using specSet_within [of "Fin 64" key scope v ms es] by (simp add: within_limit_def exceeds_def js_order_Fin js_max_def max_def)
  then show ?thesis using of_nat_less_iff [of 64 "length (specSet (Fin 64) key scope v ms es)", where 'a = rat]
    by (simp add: MAX_ENTRIES_def not_less)
qed

subsection \<open>Every step keeps the invariant\<close>

lemma rememberFailure_inv: "rt_inv numStr cmp rt \<Longrightarrow> rt_inv numStr cmp (rememberFailure now scope g rt)"
  by (erule rt_inv_frame) (simp_all add: rememberFailure_def)

lemma retryTimer_inv: "rt_inv numStr cmp rt \<Longrightarrow> rt_inv numStr cmp (retryTimer i rt)"
  by (erule rt_inv_frame) (auto simp: retryTimer_def notify_def Let_def split: prod.split)

lemma historySettles_inv: "rt_inv numStr cmp rt \<Longrightarrow> rt_inv numStr cmp (historySettles p outcome rt)"
  by (erule rt_inv_frame) (auto simp: historySettles_def split: option.split)

lemma invalidate_inv: "rt_inv numStr cmp rt \<Longrightarrow> rt_inv numStr cmp (invalidateIndicatorHistoryContext symbol timeframe rt)"
  by (erule rt_inv_frame) (simp_all add: invalidateIndicatorHistoryContext_def notify_def Let_def)

lemma retain_inv: "rt_inv numStr cmp rt \<Longrightarrow> rt_inv numStr cmp (retainIndicatorRuntimeScopes scopes rt)"
  by (erule rt_inv_frame) (simp_all add: retainIndicatorRuntimeScopes_def Let_def)

lemma running_phase_ok:
  assumes "rt_inv numStr cmp rt" "runningRequest n rt = Some rq" "\<And>cs. p = Computing cs \<Longrightarrow> causal rq cs"
  shows "phase_ok (rt_scheduler rt) (n, p)"
  using running_request [OF assms(1,2)] assms(3) by (auto simp: phase_ok_def split: run_phase.split)

lemma setPhase_running:
  assumes "rt_inv numStr cmp rt" "runningRequest n rt = Some rq" "\<And>cs. p = Computing cs \<Longrightarrow> causal rq cs"
    and "rt_inv numStr cmp rt'" "rt_scheduler rt' = rt_scheduler rt"
  shows "rt_inv numStr cmp (setPhase n p rt')"
  using assms running_phase_ok [OF assms(1-3)] by (intro setPhase_inv) auto

lemma executeRuntimeRequest_inv:
  assumes "rt_inv numStr cmp rt" "runningRequest n rt = Some rq"
  shows "rt_inv numStr cmp (executeRuntimeRequest n rq rt)"
  unfolding executeRuntimeRequest_def
  by (auto intro!: setPhase_running [OF assms] rt_inv_frame [OF assms(1)] simp: boundedCandles_causal split: if_splits)

lemma checkedHistory_inv:
  assumes "rt_inv numStr cmp rt" "runningRequest n rt = Some rq"
  shows "rt_inv numStr cmp (checkedHistory numStr' n rq loaded rt)"
  unfolding checkedHistory_def loadHistoryContext_def Let_def
  by (auto intro!: setPhase_running [OF assms] rt_inv_frame [OF assms(1)] simp: boundedCandles_causal assms(1) split: option.split)

lemma historyArrives_inv:
  assumes "rt_inv numStr cmp rt" "runningRequest n rt = Some rq"
  shows "rt_inv numStr cmp (historyArrives n rq outcome rt)"
  unfolding historyArrives_def
  by (auto intro!: setPhase_running [OF assms] simp: boundedCandles_causal resolvedCandles_causal assms(1) split: history_outcome.split)

lemma finishRequest_inv:
  assumes "rt_inv numStr cmp rt" "runningRequest n rt = Some rq"
  shows "rt_inv numStr cmp (finishRequest n rq rt)"
  unfolding finishRequest_def by (auto intro!: setPhase_running [OF assms] rt_inv_frame [OF assms(1)])

lemma storeResult_inv:
  assumes inv: "rt_inv numStr cmp rt" and rq: "rq_ok numStr cmp rq" "causal rq candles" "rq_requestGeneration rq = rt_generation rt"
  shows "\<exists>rt'. storeResult n rq candles raw rt = Some rt' \<and> rt_inv numStr cmp rt' \<and> rt_scheduler rt' = rt_scheduler rt"
proof -
  let ?result = "limitObjectSegments raw"
  let ?a = "\<lparr>an_run = n, an_request = rq, an_candles = runtimeCandles candles, an_result = raw\<rparr>"
  let ?l = "\<lparr>lr_result = ?result, lr_replaySessionId = ctxSession (rq_context rq), lr_replayCutoff = ctxCutoff (rq_context rq)\<rparr>"
  have old: "cached_from (rt_generation rt) (rt_answers rt @ [?a]) e" if "e \<in> set (lru_entries (rt_cache rt))" for e
    using inv that by (auto simp: rt_inv_def list_all_iff cached_from_def)
  have new: "cached_from (rt_generation rt) (rt_answers rt @ [?a]) (rq_runtimeKey rq, rq_scope rq, ?result)"
    using rq(3) by (simp add: cached_from_def)
  have "rq_runtimeKey rq \<noteq> []" using rq(1) cacheKey_nonempty unfolding rq_ok_def by metis
  moreover have "lru_inv (rt_cache rt)" using inv by (simp add: rt_inv_def)
  ultimately obtain c where c: "lruSet (Fin (of_nat MAX_ENTRIES)) (rq_runtimeKey rq) (rq_scope rq) ?result
        (Fin (of_nat (resultEntriesForScope (rq_context rq)))) (rt_cache rt) = Some c" "lru_inv c"
      "list_all (cached_from (rt_generation rt) (rt_answers rt @ [?a])) (lru_entries c)"
    using lc.put_all [where P = "cached_from (rt_generation rt) (rt_answers rt @ [?a])", OF _ _ old new] by blast
  have len: "length (lru_entries c) \<le> MAX_ENTRIES"
    using lruSet_spec [OF \<open>lru_inv (rt_cache rt)\<close> \<open>rq_runtimeKey rq \<noteq> []\<close>] c(1) specSet_bound by (metis option.inject)
  have mono: "list_all (latest_from (rt_generation rt) (rt_answers rt @ [?a])) (touchResult (rq_scope rq) ?l (rt_latestByScope rt))"
    using inv rq(3) set_touchResult [of "rq_scope rq" ?l "rt_latestByScope rt"]
    by (auto simp: rt_inv_def list_all_iff latest_from_def)
  have "answer_ok numStr cmp ?a"
    using rq causal_subset [OF rq(2) runtimeCandles_subset] by (simp add: answer_ok_def)
  then show ?thesis using inv c mono len by (simp add: storeResult_def rt_inv_def)
qed

lemma answerRequest_inv:
  assumes "rt_inv numStr cmp rt" "runningRequest n rt = Some rq" "causal rq candles \<or> response = Rejects True"
  shows "\<exists>rt'. answerRequest now n rq candles response rt = Some rt' \<and> rt_inv numStr cmp rt'"
proof -
  have rq: "rq_ok numStr cmp rq" by (rule running_request(3) [OF assms(1,2)])
  have fin: "rt_inv numStr cmp (setPhase n Answered rt')" if "rt_inv numStr cmp rt'" "rt_scheduler rt' = rt_scheduler rt" for rt'
    using that by (intro setPhase_running [OF assms(1,2)]) auto
  have fail: "rt_inv numStr cmp (setPhase n Answered (rememberFailure now (rq_scope rq) (rq_requestGeneration rq) rt))"
    using rememberFailure_inv [OF assms(1)] by (rule fin) (simp add: rememberFailure_def)
  have same: "rt_inv numStr cmp (setPhase n Answered rt)" by (rule fin) (simp_all add: assms(1))
  show ?thesis
  proof (cases response)
    case (Responds errors raw)
    with assms(3) have "causal rq candles" by simp
    then show ?thesis
      using storeResult_inv [OF assms(1) rq, of candles n raw] fail same fin Responds by (auto simp: answerRequest_def)
  next
    case (Rejects isAbort)
    then show ?thesis using fail same by (auto simp: answerRequest_def)
  qed
qed

lemma ensure_inv:
  assumes "rt_inv numStr cmp rt"
  shows "rt_inv numStr cmp (ensureIndicatorRuntimeResult numStr cmp now config candles context rt)"
proof -
  define scope where "scope = indicatorRuntimeScopeKey numStr cmp (rt_liveHistoryVersions rt) config context"
  define key where "key = indicatorRuntimeCacheKey numStr cmp (rt_liveHistoryVersions rt) config candles context"
  define rq where "rq = \<lparr>rq_config = config, rq_candles = candles, rq_context = context, rq_runtimeKey = key,
                          rq_scope = scope, rq_requestGeneration = rt_generation rt\<rparr>"
  let ?rt1 = "rt\<lparr>rt_failedAt := map_delete scope (rt_failedAt rt)\<rparr>"
  let ?s = "snd (schedEnqueue scope rq (rt_scheduler rt))"
  have rt1: "rt_inv numStr cmp ?rt1" by (rule rt_inv_frame [OF assms]) simp_all
  have s: "sched_inv (rt_scheduler rt)" "sched_log (rt_scheduler rt)" "sched_all (rq_ok numStr cmp) (rt_scheduler rt)"
    using assms by (simp_all add: rt_inv_def)
  have go: "rt_inv numStr cmp (?rt1\<lparr>rt_scheduler := ?s, rt_scheduledKeys := ks\<rparr>)" if "ctxSession context = None \<or> ctxCutoff context \<noteq> None" for ks
  proof -
    have "rq_ok numStr cmp rq" using that by (auto simp: rq_ok_def rq_def scope_def key_def)
    then have "rt_inv numStr cmp (?rt1\<lparr>rt_scheduler := ?s\<rparr>)"
      using enqueue_extends [OF _ s(3)] enqueue_log s by (intro rt_inv_scheduler [OF rt1]) (simp_all add: inv_intros)
    then show ?thesis by (rule rt_inv_frame) simp_all
  qed
  then show ?thesis using assms rt1
    unfolding ensureIndicatorRuntimeResult_def Let_def scope_def [symmetric] key_def [symmetric]
    by (simp add: rq_def [symmetric] split: prod.split option.split) (auto simp: rq_def)
qed

lemma cancelRuntimeScope_inv:
  assumes "rt_inv numStr cmp rt"
  shows "rt_inv numStr cmp (cancelRuntimeScope scope rt)"
proof -
  have "sched_inv (rt_scheduler rt)" using assms by (simp add: rt_inv_def)
  then have "rt_inv numStr cmp (rt\<lparr>rt_scheduler := snd (schedCancel scope (rt_scheduler rt))\<rparr>)"
    by (intro rt_inv_extends [OF assms] cancel_inv cancel_extends)
  then show ?thesis by (rule rt_inv_frame) (simp_all add: cancelRuntimeScope_def Let_def split_beta)
qed

lemma releaseHandle_inv:
  assumes "rt_inv numStr cmp rt"
  shows "rt_inv numStr cmp (releaseHandle i rt)"
proof -
  have one: "rt_inv numStr cmp (releaseScope scope rt')" if "rt_inv numStr cmp rt'" for scope rt'
    unfolding releaseScope_def Let_def by (auto intro!: cancelRuntimeScope_inv rt_inv_frame [OF that])
  have all: "rt_inv numStr cmp (fold releaseScope scopes rt')" if "rt_inv numStr cmp rt'" for scopes rt'
    using that by (induction scopes arbitrary: rt') (auto simp: one)
  show ?thesis unfolding releaseHandle_def Let_def using assms by (auto intro!: all rt_inv_frame [OF assms])
qed

lemma clear_inv_runtime:
  assumes "rt_inv numStr cmp rt"
  shows "rt_inv numStr cmp (clearIndicatorRuntimeCache rt)"
proof -
  have s: "sched_inv (rt_scheduler rt)" using assms by (simp add: rt_inv_def)
  have "rt_inv numStr cmp (rt\<lparr>rt_scheduler := schedClear (rt_scheduler rt)\<rparr>)"
    by (intro rt_inv_extends [OF assms] clear_inv clear_extends s)
  then show ?thesis
    by (simp add: rt_inv_def clearIndicatorRuntimeCache_def notify_def) (simp add: lruClear_def lru_inv_empty(2) [unfolded lruClear_def])
qed

lemma read_inv:
  assumes "rt_inv numStr cmp rt"
  shows "rt_inv numStr cmp (snd (getCachedIndicatorRuntimeResult numStr cmp config candles context rt))"
proof -
  let ?key = "indicatorRuntimeCacheKey numStr cmp (rt_liveHistoryVersions rt) config candles context"
  let ?scope = "indicatorRuntimeScopeKey numStr cmp (rt_liveHistoryVersions rt) config context"
  have c: "lru_inv (rt_cache rt)" using assms by (simp add: rt_inv_def)
  then have sub: "set (lru_entries (snd (lruGet ?key (rt_cache rt)))) \<subseteq> set (lru_entries (rt_cache rt))"
    by (simp add: lruGet_spec set_specGet)
  have "mset (lru_entries (snd (lruGet ?key (rt_cache rt)))) = mset (lru_entries (rt_cache rt))"
    using c by (simp add: lruGet_spec specGet_mset lru_inv_def)
  then have len: "length (lru_entries (snd (lruGet ?key (rt_cache rt)))) = length (lru_entries (rt_cache rt))" by (rule mset_eq_length)
  have "rt_inv numStr cmp (rt\<lparr>rt_cache := snd (lruGet ?key (rt_cache rt)), rt_latestByScope := l\<rparr>)" if "set l \<subseteq> set (rt_latestByScope rt)" for l
    using assms that sub len lruGet_inv [OF c, of ?key] by (auto simp: rt_inv_def list_all_iff)
  from this [OF set_readResult [of ?scope]] this [of "rt_latestByScope rt"] show ?thesis
    by (auto simp: getCachedIndicatorRuntimeResult_def split: prod.split option.split)
qed

lemma settled_inv:
  assumes "rt_inv numStr cmp rt"
  shows "rt_inv numStr cmp (rt\<lparr>rt_scheduler := snd (schedRelease n (rt_scheduler rt))\<rparr>)" "rt_inv numStr cmp (rt\<lparr>rt_scheduler := drain (rt_scheduler rt)\<rparr>)"
proof -
  have "sched_inv (rt_scheduler rt)" using assms by (simp add: rt_inv_def)
  then show "rt_inv numStr cmp (rt\<lparr>rt_scheduler := snd (schedRelease n (rt_scheduler rt))\<rparr>)" "rt_inv numStr cmp (rt\<lparr>rt_scheduler := drain (rt_scheduler rt)\<rparr>)"
    by (auto intro: rt_inv_extends [OF assms] schedRelease_inv release_extends drain_inv drain_extends)
qed

lemma computing_causal:
  assumes "rt_inv numStr cmp rt" "runningRequest n rt = Some rq" "map_get (rt_phases rt) n = Some (Computing cs)"
  shows "causal rq cs"
proof -
  have "phase_ok (rt_scheduler rt) (n, Computing cs)"
    using assms(1) map_of_SomeD [OF assms(3)] by (auto simp: rt_inv_def list_all_iff)
  then show ?thesis using running_request(2) [OF assms(1,2)] by (simp add: phase_ok_def)
qed

lemma runtimeStep_inv:
  assumes "rt_inv numStr cmp rt"
  shows "\<exists>rt'. runtimeStep numStr cmp e rt = Some rt' \<and> rt_inv numStr cmp rt'"
proof (cases e)
  case (EAnswer now n response)
  show ?thesis
  proof (cases "runningRequest n rt")
    case (Some rq)
    then show ?thesis
      using EAnswer answerRequest_inv [OF assms Some] computing_causal [OF assms Some] assms
      by (auto simp: runtimeStep_def split: option.split run_phase.split)
  qed (simp add: runtimeStep_def EAnswer assms)
next
  case (ESettled n)
  have "rt_inv numStr cmp (notify (Some scope) (rt\<lparr>rt_scheduler := snd (schedRelease n (rt_scheduler rt))\<rparr>))" for scope
    by (rule rt_inv_frame [OF settled_inv(1) [OF assms, of n]]) (simp_all add: notify_def)
  then show ?thesis using settled_inv(1) [OF assms, of n] assms ESettled
    by (auto simp: runtimeStep_def Let_def split_beta split: option.split)
qed (auto simp: runtimeStep_def assms ensure_inv read_inv retain_inv releaseHandle_inv invalidate_inv clear_inv_runtime
    executeRuntimeRequest_inv checkedHistory_inv historySettles_inv historyArrives_inv finishRequest_inv settled_inv(2) retryTimer_inv
    split: option.split run_phase.split)

lemma runtimeRun_inv: "rt_inv numStr cmp rt \<Longrightarrow> \<exists>rt'. runtimeRun numStr cmp es rt = Some rt' \<and> rt_inv numStr cmp rt'"
proof (induction es arbitrary: rt)
  case (Cons e es)
  obtain rt1 where "runtimeStep numStr cmp e rt = Some rt1" "rt_inv numStr cmp rt1" using runtimeStep_inv [OF Cons.prems] by blast
  then show ?case using Cons.IH by simp
qed simp

subsection \<open>What the chart is shown\<close>

text \<open>No text that enters a scope key contains the separator of the keys.\<close>

definition textsFree :: "indicator_config \<Rightarrow> runtime_context option \<Rightarrow> bool" where
  "textsFree config context \<longleftrightarrow>
     sepFree (CHR ''|'')
       [ic_id config, ic_type config, ctxSymbol context, ctxTimeframe context,
        (case context of None \<Rightarrow> [] | Some c \<Rightarrow> optText (rc_symbolType c)),
        (case context of None \<Rightarrow> [] | Some c \<Rightarrow> optText (rc_timezone c)), optText (ctxSession context)]"

lemma textsFree_scopeParts:
  assumes "textsFree config context" "\<And>x. CHR ''|'' \<notin> set (numStr x)"
  shows "sepFree (CHR ''|'') (scopeParts numStr cmp versions config context)"
proof -
  have "CHR ''|'' \<notin> set (runtimeMode context)"
    using assms(1) by (auto simp: textsFree_def sepFree_def runtimeMode_def optText_def split: option.splits)
  then show ?thesis
    using assms by (auto simp: textsFree_def sepFree_def scopeParts_def indicatorRuntimeHash_def toString36_sep natDigits_sep split: option.splits)
qed

lemma scope_key_mode:
  assumes "indicatorRuntimeScopeKey numStr cmp vs config context = indicatorRuntimeScopeKey numStr cmp vs' config' context'"
    and "sepFree (CHR ''|'') (scopeParts numStr cmp vs config context)" "sepFree (CHR ''|'') (scopeParts numStr cmp vs' config' context')"
  shows "runtimeMode context = runtimeMode context'"
proof -
  have "scopeParts numStr cmp vs config context = scopeParts numStr cmp vs' config' context'"
    using assms unfolding indicatorRuntimeScopeKey_def by (intro joinWith_inj [of _ _ "CHR ''|''"]) (auto simp: scopeParts_def)
  then have "scopeParts numStr cmp vs config context ! 8 = scopeParts numStr cmp vs' config' context' ! 8" by simp
  then show ?thesis by (simp add: scopeParts_def)
qed

lemma normalize_again:
  "normalizeReplaySessionId (optJStr (ctxSession context)) = ctxSession context"
  "normalizeReplayCutoff (optJNum (ctxCutoff context)) = ctxCutoff context"
  "normalizeReplaySessionId (fst (contextReplay context)) = ctxSession context"
  "normalizeReplayCutoff (snd (contextReplay context)) = ctxCutoff context"
proof -
  have trim: "js_trim (js_trim t) = js_trim t" for t using js_trim_ends js_trim_id by blast
  show "normalizeReplaySessionId (optJStr (ctxSession context)) = ctxSession context"
    by (auto simp: ctxSession_def normalizeReplaySessionId_def optJStr_def trim split: option.split json.split)
  show "normalizeReplayCutoff (optJNum (ctxCutoff context)) = ctxCutoff context"
    by (auto simp: ctxCutoff_def normalizeReplayCutoff_def optJNum_def split: option.split json.split)
qed (simp_all add: contextReplay_def ctxSession_def ctxCutoff_def normalizeReplaySessionId_def normalizeReplayCutoff_def split: option.split)

definition mayShow :: "runtime_context option \<Rightarrow> 'a answer \<Rightarrow> bool" where
  "mayShow context a \<longleftrightarrow>
     runtimeMode (rq_context (an_request a)) = runtimeMode context
     \<and> (case ctxCutoff context of
          None \<Rightarrow> ctxCutoff (rq_context (an_request a)) = None
        | Some cutoff \<Rightarrow> list_all (\<lambda>c. js_le (c_time c) cutoff) (an_candles a))"

lemma js_le_trans: "js_le x y \<Longrightarrow> js_le y z \<Longrightarrow> js_le x z"
  by (auto simp: js_le_def)

lemma latest_mayShow:
  assumes "canUseLatest (ctxSession context) (ctxCutoff context) (ctxSession (rq_context rq)) (ctxCutoff (rq_context rq))"
    and "causal rq (an_candles a)" "rq = an_request a" "runtimeMode (rq_context rq) = runtimeMode context"
  shows "mayShow context a"
proof (cases "ctxCutoff context")
  case None
  then have "ctxCutoff (rq_context rq) = None" using assms(1) by (auto simp: canUseLatest_def split: if_splits option.splits)
  then show ?thesis using assms(3,4) None by (simp add: mayShow_def)
next
  case (Some x)
  then obtain y where y: "ctxCutoff (rq_context rq) = Some y" "js_le y x"
    using assms(1) by (auto simp: canUseLatest_def split: if_splits option.splits)
  then have "list_all (\<lambda>c. js_le (c_time c) x) (an_candles a)"
    using assms(2) js_le_trans by (fastforce simp: causal_def list_all_iff)
  then show ?thesis using assms(3,4) Some by (simp add: mayShow_def)
qed

lemma exact_mayShow:
  assumes "ctxCutoff (rq_context (an_request a)) = ctxCutoff context" "causal (an_request a) (an_candles a)"
    and "runtimeMode (rq_context (an_request a)) = runtimeMode context"
  shows "mayShow context a"
  using assms by (auto simp: mayShow_def causal_def split: option.splits)

text \<open>
  C5.  Indicators never look ahead, and sessions and generations are not mixed.  Take any interleaving of the runtime's steps:
  requests, answers in any order, late and failing histories, cancellations, invalidations and clears.  If the chart then reads a
  result, that result is the (segment-limited) answer to a request which was made after the last clear, in the same live or
  Replay mode and session as the reader, and when the reader has a Replay cutoff, every candle that was sent with that request lies
  at or before the cutoff.  It also holds for the fallback result of the scope.
\<close>

theorem indicator_results_causal:
  assumes "runtimeRun numStr cmp es newRuntime = Some rt"
    and "fst (getCachedIndicatorRuntimeResult numStr cmp config candles context rt) = Some result"
    and "textsFree config context" "list_all (\<lambda>a. textsFree (rq_config (an_request a)) (rq_context (an_request a))) (rt_answers rt)"
    and num: "\<And>x. CHR ''|'' \<notin> set (numStr x)" "\<And>m n :: int. 0 < m \<Longrightarrow> 0 < n \<Longrightarrow> numStr (Fin (of_int m)) = numStr (Fin (of_int n)) \<Longrightarrow> m = n"
      "\<And>n :: int. 0 < n \<Longrightarrow> numStr (Fin (of_int n)) \<noteq> []"
  shows "\<exists>a \<in> set (rt_answers rt). result = limitObjectSegments (an_result a) \<and> mayShow context a
    \<and> rq_requestGeneration (an_request a) = rt_generation rt"
proof -
  have inv: "rt_inv numStr cmp rt" using runtimeRun_inv [OF rt_inv_new, of numStr cmp es] assms(1) by simp
  let ?key = "indicatorRuntimeCacheKey numStr cmp (rt_liveHistoryVersions rt) config candles context"
  let ?scope = "indicatorRuntimeScopeKey numStr cmp (rt_liveHistoryVersions rt) config context"
  have free: "sepFree (CHR ''|'') (scopeParts numStr cmp vs config context)"
    "a \<in> set (rt_answers rt) \<Longrightarrow> sepFree (CHR ''|'') (scopeParts numStr cmp vs (rq_config (an_request a)) (rq_context (an_request a)))" for vs a
    using assms(3,4) textsFree_scopeParts [OF _ num(1)] by (auto simp: list_all_iff)
  have ok: "rq_ok numStr cmp (an_request a)" "causal (an_request a) (an_candles a)" if "a \<in> set (rt_answers rt)" for a
    using inv that by (auto simp: rt_inv_def list_all_iff answer_ok_def)
  show ?thesis
  proof (cases "map_get (lru_entries (rt_cache rt)) ?key")
    case (Some e)
    then have "result = snd e" using assms(2) by (auto simp: getCachedIndicatorRuntimeResult_def lruGet_def split: prod.splits)
    moreover have "cached_from (rt_generation rt) (rt_answers rt) (?key, e)"
      using inv map_of_SomeD [OF Some] unfolding rt_inv_def list_all_iff by blast
    ultimately obtain a where a: "a \<in> set (rt_answers rt)" "rq_runtimeKey (an_request a) = ?key" "result = limitObjectSegments (an_result a)"
      "rq_requestGeneration (an_request a) = rt_generation rt"
      by (auto simp: list_ex_iff cached_from_def)
    obtain vs where vs: "indicatorRuntimeCacheKey numStr cmp vs (rq_config (an_request a)) (rq_candles (an_request a)) (rq_context (an_request a)) = ?key"
      using ok(1) [OF a(1)] a(2) by (auto simp: rq_ok_def)
    note parts = cache_key_parts [OF vs free(2) [OF a(1)] free(1) num, THEN conjunct2]
    have "mayShow context a"
      by (rule exact_mayShow [OF parts [THEN conjunct2, THEN conjunct1] ok(2) [OF a(1)] parts [THEN conjunct1]])
    then show ?thesis using a by blast
  next
    case None
    then obtain l where l: "map_get (rt_latestByScope rt) ?scope = Some l" "result = lr_result l"
      "canUseLatest (ctxSession context) (ctxCutoff context) (normalizeReplaySessionId (optJStr (lr_replaySessionId l)))
         (normalizeReplayCutoff (optJNum (lr_replayCutoff l)))"
      using assms(2)
      by (auto simp: getCachedIndicatorRuntimeResult_def lruGet_def readResult_def canUseLatestIndicatorRuntimeResult_def normalize_again
          split: option.splits if_splits)
    have latest: "latest_from (rt_generation rt) (rt_answers rt) (?scope, l)"
      using inv map_of_SomeD [OF l(1)] unfolding rt_inv_def list_all_iff by blast
    with l(2) obtain a where a: "a \<in> set (rt_answers rt)" "rq_scope (an_request a) = ?scope" "result = limitObjectSegments (an_result a)"
      "ctxSession (rq_context (an_request a)) = lr_replaySessionId l" "ctxCutoff (rq_context (an_request a)) = lr_replayCutoff l"
      "rq_requestGeneration (an_request a) = rt_generation rt"
      using latest by (auto simp: list_ex_iff latest_from_def)
    obtain vs where vs: "indicatorRuntimeScopeKey numStr cmp vs (rq_config (an_request a)) (rq_context (an_request a)) = ?scope"
      using ok(1) [OF a(1)] a(2) by (auto simp: rq_ok_def)
    have "mayShow context a"
      using l(3) scope_key_mode [OF vs free(2) [OF a(1)] free(1)] ok(2) [OF a(1)]
      by (intro latest_mayShow [of _ "an_request a"]) (simp_all add: normalize_again flip: a(4,5))
    then show ?thesis using a by blast
  qed
qed

definition demoCandle :: "rat \<Rightarrow> market_candle" where
  "demoCandle q = \<lparr>c_time = Fin q, c_open = Fin 1, c_high = Fin 1, c_low = Fin 1, c_close = Fin 1, c_volume = Fin 0, c_closed = None\<rparr>"

definition demoConfig :: indicator_config where
  "demoConfig = emaConfig\<lparr>ic_requiresHistoryContext := Some False\<rparr>"

definition demoEvents :: "'a indicator_result \<Rightarrow> 'a runtime_event list" where
  "demoEvents raw = [EEnsure 0 demoConfig [demoCandle 5, demoCandle 9] (replayContext ''s'' 7), EExecute 0, EChecked 0 None,
     EAnswer 1 0 (Responds [] raw)]"

lemma first_enqueue:
  "schedEnqueue scope rq (newScheduler (Fin 4)) =
     (None, \<lparr>sc_activeScopes = [scope], sc_pendingByScope = [], sc_maxConcurrent = Fin 4, sc_activeCount = 1, sc_generation = 0,
             sc_running = [\<lparr>run_id = 0, run_scope = scope, run_task = rq, run_generation = 0\<rparr>],
             sc_started = [\<lparr>run_id = 0, run_scope = scope, run_task = rq, run_generation = 0\<rparr>]\<rparr>)"
  by (simp add: schedEnqueue_def newScheduler_def js_floor_def js_max_def max_def, subst drain.simps)
    (simp add: hasSlot_def nextPending_def launch_def setAdd_def js_order_Fin Let_def, subst drain.simps, simp add: hasSlot_def nextPending_def js_order_Fin)

lemma demo_run:
  fixes raw :: "'a indicator_result"
  defines "ctx \<equiv> replayContext ''s'' 7"
  defines "K \<equiv> indicatorRuntimeCacheKey unaryStr (\<lambda>_ _. Fin 0) [] demoConfig [demoCandle 5, demoCandle 9] ctx"
  defines "S \<equiv> indicatorRuntimeScopeKey unaryStr (\<lambda>_ _. Fin 0) [] demoConfig ctx"
  shows "\<exists>rt. runtimeRun unaryStr (\<lambda>_ _. Fin 0) (demoEvents raw) newRuntime = Some rt \<and> rt_liveHistoryVersions rt = []
    \<and> lru_entries (rt_cache rt) = [(K, S, limitObjectSegments raw)] \<and> map an_result (rt_answers rt) = [raw]
    \<and> map (\<lambda>a. rq_config (an_request a)) (rt_answers rt) = [demoConfig]
    \<and> map (\<lambda>a. rq_context (an_request a)) (rt_answers rt) = [ctx]"
proof -
  define rq where "rq = \<lparr>rq_config = demoConfig, rq_candles = [demoCandle 5, demoCandle 9], rq_context = ctx, rq_runtimeKey = K,
                          rq_scope = S, rq_requestGeneration = 0\<rparr>"
  have ctx: "ctxSession ctx = Some ''s''" "ctxCutoff ctx = Some (Fin 7)" by (simp_all add: ctx_def replayContext_simps)
  have K: "K \<noteq> []" by (simp add: K_def cacheKey_nonempty)
  obtain c where c: "lruSet (Fin 64) K S (limitObjectSegments raw) (Fin 4) lruEmpty = Some c"
      "lru_entries c = [(K, S, limitObjectSegments raw)]"
    using lruSet_spec [OF lru_inv_empty(1) K, of "Fin 64" S "limitObjectSegments raw" "Fin 4"]
    by (auto simp: specSet_def excess_def inScope_def js_floor_def js_max_def max_def)
  have 1: "ensureIndicatorRuntimeResult unaryStr (\<lambda>_ _. Fin 0) 0 demoConfig [demoCandle 5, demoCandle 9] ctx newRuntime
    = newRuntime\<lparr>rt_scheduler := snd (schedEnqueue S rq (newScheduler (Fin 4))), rt_scheduledKeys := [K]\<rparr>"
    by (simp add: ensureIndicatorRuntimeResult_def newRuntime_def ctx lruHas_def first_enqueue Let_def setAdd_def
        MAX_CONCURRENT_RUNTIME_REQUESTS_def rq_def flip: K_def S_def)
  show ?thesis
    by (simp add: demoEvents_def runtimeStep_def 1 flip: ctx_def)
      (simp add: runningRequest_def first_enqueue newRuntime_def executeRuntimeRequest_def setPhase_def ctx
        runtimeStep_def demoConfig_def rq_def storeResult_def checkedHistory_def requiresHistoryContext_def answerRequest_def resultEntriesForScope_def MAX_ENTRIES_def c)
qed

lemma unaryStr_facts:
  "CHR ''|'' \<notin> set (unaryStr x)" "0 < m \<Longrightarrow> 0 < n \<Longrightarrow> unaryStr (Fin (of_int m)) = unaryStr (Fin (of_int n)) \<Longrightarrow> m = n"
  "0 < n \<Longrightarrow> unaryStr (Fin (of_int n)) \<noteq> []"
  by (auto simp: unaryStr_def split: jsnum.split dest: arg_cong [where f = length])

lemma indicator_results_causal_witness:
  "\<exists>rt. runtimeRun unaryStr (\<lambda>_ _. Fin 0) (demoEvents boxResult) newRuntime = Some rt
     \<and> (\<exists>a \<in> set (rt_answers rt). limitObjectSegments boxResult = limitObjectSegments (an_result a) \<and> mayShow (replayContext ''s'' 7) a)"
proof -
  let ?ctx = "replayContext ''s'' 7" and ?cs = "[demoCandle 5, demoCandle 9]"
  obtain rt where rt: "runtimeRun unaryStr (\<lambda>_ _. Fin 0) (demoEvents boxResult) newRuntime = Some rt" "rt_liveHistoryVersions rt = []"
    "map_get (lru_entries (rt_cache rt)) (indicatorRuntimeCacheKey unaryStr (\<lambda>_ _. Fin 0) [] demoConfig ?cs ?ctx)
       = Some (indicatorRuntimeScopeKey unaryStr (\<lambda>_ _. Fin 0) [] demoConfig ?ctx, limitObjectSegments boxResult)"
    "map (\<lambda>a. rq_config (an_request a)) (rt_answers rt) = [demoConfig]" "map (\<lambda>a. rq_context (an_request a)) (rt_answers rt) = [?ctx]"
    using demo_run [of boxResult] by auto
  have free: "textsFree demoConfig ?ctx"
    by (simp add: textsFree_def demoConfig_def emaConfig_def replayContext_simps sepFree_def optText_def)
      (simp add: replayContext_def ctxSymbol_def ctxTimeframe_def optText_def)
  have "fst (getCachedIndicatorRuntimeResult unaryStr (\<lambda>_ _. Fin 0) demoConfig ?cs ?ctx rt) = Some (limitObjectSegments boxResult)"
    using rt(2,3) by (simp add: getCachedIndicatorRuntimeResult_def lruGet_def)
  moreover have "list_all (\<lambda>a. textsFree (rq_config (an_request a)) (rq_context (an_request a))) (rt_answers rt)"
    using rt(4,5) free by (auto simp: map_eq_Cons_conv)
  ultimately show ?thesis
    using indicator_results_causal [OF rt(1) _ free _ unaryStr_facts] rt(1) by blast
qed

subsection \<open>Nothing is left behind\<close>

text \<open>An entry of \<open>inflight\<close> or \<open>abortControllers\<close> belongs to a running call of that key whose \<open>finally\<close> block has not run.\<close>

definition live :: "'a runtime \<Rightarrow> string \<times> nat \<Rightarrow> bool" where
  "live rt e \<longleftrightarrow>
     map_option rq_runtimeKey (runningRequest (snd e) rt) = Some (fst e)
     \<and> map_get (rt_phases rt) (snd e) \<notin> {None, Some Finished}"

definition live_inv :: "'a runtime \<Rightarrow> bool" where
  "live_inv rt \<longleftrightarrow> map_wf (rt_inflight rt) \<and> map_wf (rt_abortControllers rt)
     \<and> list_all (live rt) (rt_inflight rt) \<and> list_all (live rt) (rt_abortControllers rt)"

lemma live_inv_new: "live_inv newRuntime"
  by (simp add: live_inv_def newRuntime_def)

lemma live_mono:
  assumes "live_inv rt" "\<And>e. live rt e \<Longrightarrow> live rt' e"
    and "rt_inflight rt' = rt_inflight rt" "rt_abortControllers rt' = rt_abortControllers rt"
  shows "live_inv rt'"
  using assms by (auto simp: live_inv_def list_all_iff)

lemma live_frame:
  assumes "live_inv rt" "sc_running (rt_scheduler rt') = sc_running (rt_scheduler rt)" "rt_phases rt' = rt_phases rt"
    and "rt_inflight rt' = rt_inflight rt" "rt_abortControllers rt' = rt_abortControllers rt"
  shows "live_inv rt'"
  using assms by (intro live_mono [OF assms(1)]) (auto simp: live_def runningRequest_def)

lemma live_prefix:
  assumes "live_inv rt" "prefix (sc_running (rt_scheduler rt)) (sc_running (rt_scheduler rt'))" "rt_phases rt' = rt_phases rt"
    and "rt_inflight rt' = rt_inflight rt" "rt_abortControllers rt' = rt_abortControllers rt"
  shows "live_inv rt'"
  using assms find_prefix [OF assms(2)] by (intro live_mono [OF assms(1)]) (auto simp: live_def runningRequest_def)

lemma live_setPhase:
  assumes "live_inv rt" "p \<noteq> Finished"
  shows "live_inv (setPhase n p rt)"
  using assms(2) by (intro live_mono [OF assms(1)]) (auto simp: live_def runningRequest_def setPhase_def update_conv')

lemma live_phase_other:
  assumes "live rt e" "snd e \<noteq> n"
  shows "live (setPhase n p rt) e"
  using assms by (auto simp: live_def runningRequest_def setPhase_def update_conv')

lemma execute_live:
  assumes "live_inv rt" "runningRequest n rt = Some rq" "map_get (rt_phases rt) n = None"
  shows "live_inv (executeRuntimeRequest n rq rt)"
proof -
  have "snd e \<noteq> n" if "live rt e" for e using that assms(3) by (auto simp: live_def)
  then have old: "live (setPhase n p rt) e" if "live rt e" for e p using that live_phase_other by metis
  show ?thesis
  proof (cases "rq_requestGeneration rq \<noteq> rt_generation rt")
    case True
    have "live_inv (setPhase n Finished rt)"
      using old by (intro live_mono [OF assms(1)]) (auto simp: setPhase_def)
    then show ?thesis using True by (simp add: executeRuntimeRequest_def) (erule live_frame; simp add: setPhase_def)
  next
    case False
    let ?p = "if ctxSession (rq_context rq) \<noteq> None \<and> ctxCutoff (rq_context rq) = None then Computing (boundedCandles rq) else Checking"
    let ?rt = "executeRuntimeRequest n rq rt"
    have same: "live ?rt e \<longleftrightarrow> live (setPhase n ?p rt) e" for e
      using False by (simp add: executeRuntimeRequest_def live_def runningRequest_def setPhase_def)
    have "live ?rt (rq_runtimeKey rq, n)"
      unfolding same using assms(2) by (auto simp: live_def runningRequest_def setPhase_def update_conv')
    moreover have "live ?rt e" if "live rt e" for e unfolding same using that by (rule old)
    then have "list_all (live ?rt) (rt_inflight rt)" "list_all (live ?rt) (rt_abortControllers rt)"
      using assms(1) by (auto simp: live_inv_def list_all_iff)
    moreover have "rt_inflight ?rt = map_set (rq_runtimeKey rq) n (rt_inflight rt)"
      "rt_abortControllers ?rt = map_set (rq_runtimeKey rq) n (rt_abortControllers rt)"
      using False by (simp_all add: executeRuntimeRequest_def setPhase_def)
    ultimately show ?thesis using assms(1) unfolding live_inv_def by (simp add: list_all_map_set distinct_update)
  qed
qed

lemma finish_live:
  assumes "live_inv rt" "runningRequest n rt = Some rq"
  shows "live_inv (finishRequest n rq rt)"
proof -
  let ?k = "rq_runtimeKey rq" and ?rt = "finishRequest n rq rt"
  have drop: "map_wf m' \<and> list_all (live ?rt) m'"
    if m: "map_wf m" "list_all (live rt) m" and m': "m' = (if map_get m ?k = Some n then map_delete ?k m else m)" for m m' :: "(string, nat) js_map"
  proof -
    have "live ?rt e" if e: "e \<in> set m'" for e
    proof -
      have mem: "e \<in> set m" using e m' by (auto simp: map_delete_filter split: if_splits)
      then have lv: "live rt e" using m(2) by (auto simp: list_all_iff)
      have "snd e \<noteq> n"
      proof
        assume n: "snd e = n"
        then have "fst e = ?k" using lv assms(2) by (auto simp: live_def)
        then have "map_get m ?k = Some n" using mem n m(1) by (metis map_of_is_SomeI prod.collapse)
        then show False using e m' \<open>fst e = ?k\<close> by (auto simp: map_delete_filter)
      qed
      then have "live (setPhase n Finished rt) e" by (rule live_phase_other [OF lv])
      then show ?thesis by (simp add: live_def runningRequest_def finishRequest_def setPhase_def)
    qed
    moreover have "map_wf m'" using m(1) m' by (simp add: distinct_delete)
    ultimately show ?thesis by (simp add: list_all_iff)
  qed
  from assms(1) drop [of "rt_inflight rt" "rt_inflight ?rt"] drop [of "rt_abortControllers rt" "rt_abortControllers ?rt"]
  show ?thesis by (simp add: live_inv_def) (simp add: finishRequest_def setPhase_def)
qed

lemma answer_live:
  assumes "live_inv rt" "answerRequest now n rq candles response rt = Some rt'"
  shows "live_inv rt'"
proof -
  obtain rt1 where rt': "rt' = setPhase n Answered rt1" and same: "rt_scheduler rt1 = rt_scheduler rt" "rt_phases rt1 = rt_phases rt"
      "rt_inflight rt1 = rt_inflight rt" "rt_abortControllers rt1 = rt_abortControllers rt"
    using assms(2)
    by (auto simp: answerRequest_def storeResult_def rememberFailure_def Let_def split: response.splits if_splits)
  have "live_inv rt1" using same by (intro live_frame [OF assms(1)]) simp_all
  then show ?thesis unfolding rt' by (rule live_setPhase) simp
qed

lemma release_live:
  assumes "live_inv rt" "map_get (rt_phases rt) n = Some Finished"
  shows "live_inv (rt\<lparr>rt_scheduler := snd (schedRelease n (rt_scheduler rt))\<rparr>)"
proof (rule live_mono [OF assms(1)])
  fix e assume lv: "live rt e"
  then have "snd e \<noteq> n" using assms(2) by (auto simp: live_def)
  moreover have "find (\<lambda>r. run_id r = k) (filter (\<lambda>r. run_id r \<noteq> n) rs) = find (\<lambda>r. run_id r = k) rs" if "k \<noteq> n" for k and rs :: "runtime_request sched_run list"
    using that by (induction rs) auto
  ultimately show "live (rt\<lparr>rt_scheduler := snd (schedRelease n (rt_scheduler rt))\<rparr>) e"
    using lv by (auto simp: live_def runningRequest_def schedRelease_def split: option.split)
qed simp_all

lemma ensure_live: "live_inv rt \<Longrightarrow> live_inv (ensureIndicatorRuntimeResult numStr cmp now config candles context rt)"
  by (erule live_prefix) (auto simp: ensureIndicatorRuntimeResult_def Let_def split_beta enqueue_running)

lemma cancel_live: "live_inv rt \<Longrightarrow> live_inv (cancelRuntimeScope scope rt)"
  by (erule live_frame) (simp_all add: cancelRuntimeScope_def schedCancel_def Let_def)

lemma releaseHandle_live:
  assumes "live_inv rt"
  shows "live_inv (releaseHandle i rt)"
proof -
  have one: "live_inv (releaseScope scope rt')" if "live_inv rt'" for scope and rt' :: "'a runtime"
    unfolding releaseScope_def Let_def by (auto intro!: cancel_live live_frame [OF that])
  have all: "live_inv (fold releaseScope scopes rt')" if "live_inv rt'" for scopes and rt' :: "'a runtime"
    using that by (induction scopes arbitrary: rt') (auto simp: one)
  show ?thesis unfolding releaseHandle_def Let_def using assms by (auto intro!: all live_frame [OF assms])
qed

lemma checked_live: "live_inv rt \<Longrightarrow> live_inv (checkedHistory numStr n rq loaded rt)"
  unfolding checkedHistory_def loadHistoryContext_def Let_def
  by (auto intro!: live_setPhase split: option.split) (erule live_frame; simp)+

lemma arrives_live: "live_inv rt \<Longrightarrow> live_inv (historyArrives n rq outcome rt)"
  by (auto simp: historyArrives_def intro!: live_setPhase split: history_outcome.split)

lemma quiet_live:
  assumes "live_inv rt"
  shows "live_inv (historySettles p outcome rt)" "live_inv (retryTimer i rt)" "live_inv (invalidateIndicatorHistoryContext symbol timeframe rt)"
    "live_inv (retainIndicatorRuntimeScopes scopes rt)" "live_inv (snd (getCachedIndicatorRuntimeResult numStr cmp config candles context rt))"
    "live_inv (clearIndicatorRuntimeCache rt)" "live_inv (rt\<lparr>rt_scheduler := drain (rt_scheduler rt)\<rparr>)"
proof -
  show "live_inv (clearIndicatorRuntimeCache rt)" by (simp add: live_inv_def clearIndicatorRuntimeCache_def notify_def)
  show "live_inv (rt\<lparr>rt_scheduler := drain (rt_scheduler rt)\<rparr>)" by (rule live_prefix [OF assms]) (simp_all add: drain_running)
qed (rule live_frame [OF assms]; auto simp: historySettles_def retryTimer_def invalidateIndicatorHistoryContext_def retainIndicatorRuntimeScopes_def
    getCachedIndicatorRuntimeResult_def notify_def Let_def split: option.split prod.split)+

lemma runtimeStep_live:
  assumes "live_inv rt" "runtimeStep numStr cmp e rt = Some rt'"
  shows "live_inv rt'"
proof (cases e)
  case (EAnswer now n response)
  then show ?thesis using assms answer_live by (auto simp: runtimeStep_def split: option.splits run_phase.splits)
next
  case (ESettled n)
  have "live_inv (notify scope rt1)" if "live_inv rt1" for scope and rt1 :: "'a runtime"
    by (rule live_frame [OF that]) (simp_all add: notify_def)
  then show ?thesis using assms release_live [OF assms(1), of n] ESettled
    by (auto simp: runtimeStep_def Let_def split_beta split: option.splits if_splits)
next
  case (EExecute n)
  then show ?thesis using assms execute_live [OF assms(1), of n] by (auto simp: runtimeStep_def split: option.splits)
next
  case (EChecked n loaded)
  then show ?thesis using assms checked_live by (auto simp: runtimeStep_def split: option.splits run_phase.splits)
next
  case (EHistoryArrives n)
  then show ?thesis using assms arrives_live by (auto simp: runtimeStep_def split: option.splits run_phase.splits)
next
  case (EFinish n)
  then show ?thesis using assms finish_live by (auto simp: runtimeStep_def split: option.splits run_phase.splits)
qed (use assms in \<open>auto simp: runtimeStep_def ensure_live releaseHandle_live quiet_live\<close>)

lemma runtimeRun_live: "live_inv rt \<Longrightarrow> runtimeRun numStr cmp es rt = Some rt' \<Longrightarrow> live_inv rt'"
proof (induction es arbitrary: rt)
  case (Cons e es)
  then obtain rt1 where "runtimeStep numStr cmp e rt = Some rt1" "runtimeRun numStr cmp es rt1 = Some rt'"
    by (auto simp: bind_eq_Some_conv)
  then show ?case using Cons.IH runtimeStep_live [OF Cons.prems(1)] by blast
qed simp

lemma maxConcurrent_enqueue [simp]: "sc_maxConcurrent (snd (schedEnqueue scope task s)) = sc_maxConcurrent s"
  by (simp add: schedEnqueue_def)

lemma maxConcurrent_cancel [simp]: "sc_maxConcurrent (rt_scheduler (cancelRuntimeScope scope rt)) = sc_maxConcurrent (rt_scheduler rt)"
  by (simp add: cancelRuntimeScope_def schedCancel_def Let_def)

lemma maxConcurrent_release [simp]: "sc_maxConcurrent (rt_scheduler (releaseHandle i rt)) = sc_maxConcurrent (rt_scheduler rt)"
proof -
  have one: "sc_maxConcurrent (rt_scheduler (releaseScope scope rt')) = sc_maxConcurrent (rt_scheduler rt')" for scope and rt' :: "'a runtime"
    by (simp add: releaseScope_def Let_def)
  have "sc_maxConcurrent (rt_scheduler (fold releaseScope scopes rt')) = sc_maxConcurrent (rt_scheduler rt')" for scopes and rt' :: "'a runtime"
    by (induction scopes arbitrary: rt') (simp_all add: one)
  then show ?thesis by (simp add: releaseHandle_def Let_def)
qed

lemmas scheduler_untouched = executeRuntimeRequest_def checkedHistory_def loadHistoryContext_def historySettles_def historyArrives_def
  answerRequest_def storeResult_def rememberFailure_def finishRequest_def retryTimer_def invalidateIndicatorHistoryContext_def
  retainIndicatorRuntimeScopes_def getCachedIndicatorRuntimeResult_def notify_def setPhase_def

lemma runtimeStep_max:
  assumes "runtimeStep numStr cmp e rt = Some rt'"
  shows "sc_maxConcurrent (rt_scheduler rt') = sc_maxConcurrent (rt_scheduler rt)"
  using assms
  by (cases e) (auto simp: runtimeStep_def scheduler_untouched ensureIndicatorRuntimeResult_def clearIndicatorRuntimeCache_def schedClear_def
      schedRelease_def Let_def split_beta split: option.splits run_phase.splits if_splits history_outcome.splits response.splits prod.splits)

lemma runtimeRun_max: "runtimeRun numStr cmp es rt = Some rt' \<Longrightarrow> sc_maxConcurrent (rt_scheduler rt') = sc_maxConcurrent (rt_scheduler rt)"
proof (induction es arbitrary: rt)
  case (Cons e es)
  then show ?case by (auto simp: bind_eq_Some_conv dest: runtimeStep_max)
qed simp

lemma live_bound:
  assumes "sched_inv (rt_scheduler rt)" "map_wf m" "list_all (live rt) m"
  shows "length m \<le> length (sc_running (rt_scheduler rt))"
proof -
  have "inj_on snd (set m)"
  proof (rule inj_onI)
    fix e f assume "e \<in> set m" "f \<in> set m" "snd e = snd f"
    then have "live rt e" "live rt f" using assms(3) by (auto simp: list_all_iff)
    with \<open>snd e = snd f\<close> have "fst e = fst f" by (auto simp: live_def)
    then show "e = f" using \<open>snd e = snd f\<close> by (rule prod_eqI)
  qed
  then have "card (snd ` set m) = length m"
    using assms(2) by (simp add: card_image distinct_card distinct_map)
  moreover have "snd ` set m \<subseteq> run_id ` set (sc_running (rt_scheduler rt))"
    using assms(3) by (force simp: live_def list_all_iff runningRequest_def find_Some_iff)
  ultimately show ?thesis
    using card_mono [of "run_id ` set (sc_running (rt_scheduler rt))" "snd ` set m"] card_image_le [of "set (sc_running (rt_scheduler rt))" run_id]
      card_length [of "sc_running (rt_scheduler rt)"] by simp
qed

text \<open>
  C16.  The runtime's bookkeeping, under every interleaving of its steps from the start: no step fails to return; at most four
  requests are active, one per scope; every entry of \<open>inflight\<close> and every abort controller is kept under the runtime key of a
  request that is active, has started and has not reached the end of its \<open>finally\<close> block (\<open>live\<close>), with one entry per key, so there are
  at most four of each and none is left when nothing runs; the cache holds at most 64 results and its two indexes agree.
\<close>

theorem runtime_bookkeeping:
  "\<exists>rt. runtimeRun numStr cmp es newRuntime = Some rt \<and> lru_inv (rt_cache rt) \<and> sched_inv (rt_scheduler rt)
     \<and> length (lru_entries (rt_cache rt)) \<le> 64 \<and> length (sc_running (rt_scheduler rt)) \<le> 4 \<and> distinct (map run_scope (sc_running (rt_scheduler rt)))
     \<and> list_all (live rt) (rt_inflight rt) \<and> list_all (live rt) (rt_abortControllers rt)
     \<and> distinct (map fst (rt_inflight rt)) \<and> distinct (map fst (rt_abortControllers rt))
     \<and> length (rt_inflight rt) \<le> length (sc_running (rt_scheduler rt))
     \<and> length (rt_abortControllers rt) \<le> length (sc_running (rt_scheduler rt))"
proof -
  obtain rt where rt: "runtimeRun numStr cmp es newRuntime = Some rt" "rt_inv numStr cmp rt"
    using runtimeRun_inv [OF rt_inv_new, of numStr cmp es] by blast
  have inv: "lru_inv (rt_cache rt)" "sched_inv (rt_scheduler rt)" "length (lru_entries (rt_cache rt)) \<le> 64"
    using rt(2) by (simp_all add: rt_inv_def MAX_ENTRIES_def)
  have "live_inv rt" using runtimeRun_live [OF live_inv_new rt(1)] .
  then have live: "list_all (live rt) (rt_inflight rt)" "list_all (live rt) (rt_abortControllers rt)"
      "distinct (map fst (rt_inflight rt))" "distinct (map fst (rt_abortControllers rt))" by (simp_all add: live_inv_def)
  then have bounds: "length (rt_inflight rt) \<le> length (sc_running (rt_scheduler rt))"
      "length (rt_abortControllers rt) \<le> length (sc_running (rt_scheduler rt))"
    using live_bound [OF inv(2)] by blast+
  have max: "sc_maxConcurrent (rt_scheduler rt) = Fin 4"
    using runtimeRun_max [OF rt(1)]
    by (simp add: newRuntime_def newScheduler_def MAX_CONCURRENT_RUNTIME_REQUESTS_def js_floor_def js_max_def max_def)
  have "\<not> (4 :: rat) < of_nat (length (sc_running (rt_scheduler rt)))" if "sc_running (rt_scheduler rt) \<noteq> []"
    using inv(2) that by (simp add: sched_inv_def max exceeds_def js_order_Fin)
  moreover have "(4 :: rat) < of_nat k \<longleftrightarrow> 4 < k" for k :: nat using of_nat_less_iff [of 4 k, where 'a = rat] by simp
  ultimately have "length (sc_running (rt_scheduler rt)) \<le> 4" by (cases "sc_running (rt_scheduler rt) = []") (auto simp: not_less)
  moreover have "distinct (map run_scope (sc_running (rt_scheduler rt)))" using inv(2) unfolding sched_inv_def by metis
  ultimately show ?thesis using rt(1) inv live bounds by blast
qed

subsection \<open>Invalidating the warm-up history\<close>

text \<open>
  C39.  A defect of \<open>invalidateIndicatorHistoryContext\<close>: the history version is kept under the normalised symbol, but the warm-up
  cache is keyed by the symbol as the chart wrote it and is compared with the normalised one.  For a symbol that is not in
  normal form (lower case or padded) the version is raised, so every indicator recomputes, yet the stale history stays in the
  cache and is used again; for a symbol in normal form no live entry of that series remains.
\<close>

theorem invalidate_misses_raw_symbol:
  assumes "js_upper (js_trim symbol) \<noteq> symbol" "((''live'', symbol, timeframe, limit), p) \<in> set (rt_historyContextCache rt)"
  shows "((''live'', symbol, timeframe, limit), p) \<in> set (rt_historyContextCache (invalidateIndicatorHistoryContext symbol timeframe rt))
    \<and> liveHistoryVersion (rt_liveHistoryVersions (invalidateIndicatorHistoryContext symbol timeframe rt)) symbol timeframe
        = liveHistoryVersion (rt_liveHistoryVersions rt) symbol timeframe + 1
    \<and> (''live'', js_upper (js_trim symbol), timeframe, limit)
        \<notin> fst ` set (rt_historyContextCache (invalidateIndicatorHistoryContext symbol timeframe rt))"
  using assms
  by (auto simp: invalidateIndicatorHistoryContext_def notify_def Let_def bumpLiveHistoryVersion_def liveHistoryVersion_def update_conv'
      split: option.split)

lemma invalidate_misses_raw_symbol_witness:
  "((''live'', ''eurusd'', ''5m'', 5000), 0) \<in> set (rt_historyContextCache (invalidateIndicatorHistoryContext ''eurusd'' ''5m''
     ((newRuntime :: unit runtime)\<lparr>rt_historyContextCache := [((''live'', ''eurusd'', ''5m'', 5000), 0)]\<rparr>)))"
proof -
  have "js_upper (js_trim ''eurusd'') \<noteq> ''eurusd''" by code_simp
  then show ?thesis
    using invalidate_misses_raw_symbol [of "''eurusd''" "''5m''" 5000 0
        "(newRuntime :: unit runtime)\<lparr>rt_historyContextCache := [((''live'', ''eurusd'', ''5m'', 5000), 0)]\<rparr>"] by simp
qed

end
