(* ===== verification/Spec2Isabelle.thy ===== *)
theory Spec2Isabelle
  imports CandleRepository CandleEngine CommandHistory TradeSim TriggerQueue PushMerge ExecutionRegistry TaskTabs Watchlists IndicatorRuntime
begin

text \<open>
  \<^bold>\<open>MarketLens: a verification library for the core logic of the trading front end.\<close>

  MarketLens is a charting and trading workstation.  Its browser part, under \<open>src/frontend/src\<close>, is a set of
  React views over stores and services written in TypeScript; this library models the stores and services that
  carry the program's own logic, function by function, and proves what they promise.  File names below are
  relative to \<open>src/frontend/src\<close>.

  \<^bold>\<open>The parts and how they interact.\<close>  Market data enters as candles and ticks: the candle engine groups ticks
  into bars, the candle repository stores each series in chunks and answers the chart's lookups, and both rest on
  the series functions that normalise, merge and trim candle lists.  What the user draws on a chart goes through
  the chart store's write atoms, each of which changes the drawings, the local registry and the outbox that
  brings the change to the backend; undo and redo replay commands over the same atoms.  The trade simulator is
  driven by the same candles: it fills pending orders, triggers stops and targets, keeps a journal and sends
  position snapshots to the backend; order tickets and chart tools size positions with one shared module.  Real
  orders are built from the execution registry: the selected account, the copy drafts of the user and the
  availability of each account decide which accounts a request addresses.  Alerts
  compare prices with levels, lines and channels: the browser queue holds a trigger until the backend accepted
  it, and the push worker keeps the same cursors on the server, merged by compare-and-swap.  Indicators are computed by a
  service: the chart asks the indicator runtime for results, which schedules one request per indicator and series, extends
  the candles with warm-up history, and caches the answers under keys that tell live data from Replay sessions and cutoffs.

  \<^bold>\<open>Theories and sources.\<close>
  \<^item> \<open>Prelude\<close>: insertion-ordered maps (JavaScript \<open>Map\<close> and dictionaries) behind the locale \<open>insertion_map\<close>, the
    lower-bound loop \<open>bsearch\<close>, list facts, the collections \<open>map_laws\<close> and \<open>inv_intros\<close>.
  \<^item> \<open>JsNumber\<close>: binary64 numbers as \<open>jsnum\<close> with one correctly rounded result per operation, NaN, infinities
    and the comparisons of ECMAScript; exactness on the safe integers, monotone rounding.
  \<^item> \<open>CandleSeries\<close>: \<open>services/market-data/candleSeries.ts\<close>.  The interface \<open>candle_store\<close> (look up after upsert) is
    interpreted on the flat series here and on the chunks in \<open>CandleRepository\<close>.
  \<^item> \<open>CandleRepository\<close>: \<open>services/market-data/candleRepository.ts\<close>, chunks, lookups, history merge with chunk reuse, eviction.
  \<^item> \<open>CandleEngine\<close>: \<open>services/market-data/CandleEngine.ts\<close> and the timeframe table.
  \<^item> \<open>Drawings\<close>: the drawing object (\<open>types/drawing.ts\<close>), \<open>store/drawingBatchUpdate.ts\<close> and the pure modules on sync
    scopes, bulk edits, load tokens and lifecycle.
  \<^item> \<open>DrawingSync\<close>: the outbox class \<open>DrawingSyncQueue\<close> and the conflict rebase, as a machine over edits, timers and responses.
  \<^item> \<open>DrawingStore\<close>: the drawing atoms of \<open>store/chartStore.ts\<close> composed with the outbox and an accepting backend.
  \<^item> \<open>CommandHistory\<close>: \<open>CommandManager.ts\<close>.  The locale \<open>undoable\<close> is what the manager needs of a command,
    \<open>drawing_port\<close> what the commands need of the store; the second gives the first, and both are interpreted on the chart store.
  \<^item> \<open>PositionSizing\<close>: \<open>services/positionSizing.ts\<close>.
  \<^item> \<open>TradeSim\<close>: \<open>services/tradeEngine.ts\<close> and \<open>store/tradeStore.ts\<close>.
  \<^item> \<open>OrderRouting\<close>: \<open>services/execution/copyRouting.ts\<close>, \<open>orderRouting.ts\<close>, \<open>lifecycleCommands.ts\<close> and \<open>orderResponse.ts\<close>
    of the same directory: copy previews, gateway requests with decimal strings, the reading of answers.
  \<^item> \<open>ExecutionRegistry\<close>: \<open>services/execution/copierPreferences.ts\<close>, \<open>services/execution/accountLayout.ts\<close> and
    \<open>store/executionRegistryStore.ts\<close>, with the reachable registries (\<open>registry_run\<close>) an order is built from.
  \<^item> \<open>AlertTargets\<close>: the alert conditions, sanitizers, line and channel targets, evaluation, search and arming revisions.
  \<^item> \<open>TriggerQueue\<close>: \<open>services/notifications/browserAlertTriggerQueue.ts\<close>.
  \<^item> \<open>PushMerge\<close>: \<open>server/pushAlertStateMerge.ts\<close>, \<open>server/pushAlertLifecycle.ts\<close>, \<open>server/pushAlertDeliveryPolicy.ts\<close> and the update
    loop of \<open>server/pushAlertStore.ts\<close>.  The locale \<open>keyed_update\<close> (a loop that changes one key per entry) is interpreted
    on the merge loop and on the removal loop.
  \<^item> \<open>TaskTabs\<close>: \<open>store/chartTaskTabsStore.ts\<close> and the class of \<open>services/api/chartTaskTabsSyncQueue.ts\<close>, with its runs \<open>tabs_run\<close>.
  \<^item> \<open>WatchlistLayout\<close>, \<open>WatchlistSort\<close>: \<open>store/watchlistLayout.ts\<close> and \<open>store/watchlistSort.ts\<close>; \<open>layout\<close> is what the user sees.
  \<^item> \<open>Watchlists\<close>: \<open>store/watchlistStore.ts\<close>, \<open>store/watchlistSyncQueue.ts\<close> and \<open>store/watchlistPersistence.ts\<close>, with the runs
    \<open>wl_reach\<close> and \<open>wl_run\<close> of edits, layout writes and answers.
  \<^item> \<open>RuntimeScheduler\<close>: \<open>services/indicatorRuntimeScheduler.ts\<close>, the scheduler (\<open>sched\<close>) and the cache (\<open>scoped_lru\<close>) of indicator
    requests; the locale \<open>scoped_cache\<close> is what the runtime needs of the cache and is interpreted on it.
  \<^item> \<open>IndicatorPolicy\<close>: \<open>services/indicatorRuntimePolicy.ts\<close> and the pure functions of \<open>services/indicatorRuntimeCache.ts\<close>: keys,
    the hash on 32-bit words, Replay cutoffs, candle windows, object segments.
  \<^item> \<open>IndicatorRuntime\<close>: the rest of \<open>services/indicatorRuntimeCache.ts\<close> as a machine (\<open>runtimeStep\<close>) over calls of the chart, answers of
    the services, timers and cancellations.

  \<^bold>\<open>State and operations.\<close>  A class or a group of atoms is a record of its fields; a method or a write atom is a
  function from the record to the record.  Asynchronous code is cut at its \<open>await\<close>s and timers: the parts in between
  are functions, and an event type or an inductive step relation lets the environment choose the order, so
  every interleaving of user actions, timers and responses is a run of the model (\<open>queueStep\<close>, \<open>store_reach\<close>,
  \<open>trade_step\<close>, \<open>sim_step\<close>, \<open>queue_run\<close>, \<open>registry_run\<close>, \<open>tabs_run\<close>, \<open>wl_run\<close>, \<open>runtimeRun\<close>).  Object identity that the code compares with \<open>===\<close> is made explicit
  (\<open>Kept\<close> and \<open>Fresh\<close> candles, serial numbers of queue entries).

  \<^bold>\<open>What is shown.\<close>  Candles: normalisation is canonical, upserts in sequence equal one normalisation, the chunked
  store refines the flat list for upsert, merge and lookups, the cheap chart update plans are sound, ticks build
  exactly the grouped bars.  Drawings: no edit is lost under any interleaving, the stored snapshot restores all
  unacknowledged work, the backend overlaid with the pending work is the local state, undo and redo move a cursor over
  the states of a script, as long as no duplication is redone.  Trading: every input gives a non-negative finite-or-zero size
  except where risk and loss overflow with lot rounding off, the life cycle of positions, resets and remote replacements included,
  and the journal, the newest version of each position is the last one scheduled.  Execution: decimals sent to the
  gateway are canonical and exact to twelve places, routes accepted from stored settings can always be sent and survive
  a save and load, an order addresses each account once, previews agree with the availability shown.  Alerts: accepted targets are well
  formed, the search is independent of how ticks are batched and finds the first crossing, a pending trigger has exactly
  one attempt or timer until its attempt rejects, delivered channels stay delivered until the alert is armed again, cursors do
  not move back, a device update makes at most three writes whatever happens meanwhile.  Tabs: documents stay well formed, unsent
  edits keep a recovery copy and stay with their user except while a conflict is being resolved.  Watchlists: each drag edits the
  visible layout as the gesture says, the index arithmetic agrees with it, layout writes of a list never overlap, and the backend
  ends with the layout shown.  Indicators: a result shown at a Replay cutoff never depends on a later candle, sessions, live data
  and cleared generations are not mixed, at most one request per scope and four in all are active, every waiting request is
  started, the result cache is a least-recently-used cache within its bounds.

  \<^bold>\<open>Parameters and bounds.\<close>  The results of \<open>uid\<close>, \<open>Math.log\<close>, \<open>Math.exp\<close>, the printed form of a number, the drawing
  codec and the outcomes of requests are arguments; theorems that rely on one state what they use of it.  No
  definition uses fuel: loops are structural or have a measure (\<open>bsearch\<close>, \<open>chunksFromSorted\<close>, \<open>ilog2\<close>), the
  compare-and-swap loop counts to \<open>MAX_WRITE_ATTEMPTS\<close>, and the two eviction loops of the result cache are partial functions
  that are proved to return.  Lengths and indices are natural numbers, times and
  prices binary64 numbers.

  \<^bold>\<open>Not modelled.\<close>  React views, canvas rendering and pointer interaction (effects on the DOM and on third-party chart
  objects); HTTP and web-socket clients (their answers are arguments); the continuous copier's forms and the alert store
  around the alert engine (form state over functions that are modelled); the push evaluator's run; the Pine interpreter and the
  other back ends, which are written in Go, Rust and Python.
\<close>

end
